(* ===== verification/NovaPrelude.thy ===== *)
theory NovaPrelude
  imports Main "HOL-Library.Word" "HOL-Library.Monad_Syntax"
begin

section \<open>Prelude: the kernel's integer types, arrays and raw memory\<close>

text \<open>
  The fixed-width integers of \<^verbatim>\<open>kernel/common.h\<close>, a byte-addressed memory with
  little-endian 32-bit loads and stores, and the lemmas on words, page arithmetic, arrays
  (lists updated by index) and counting loops that the component theories share.
  Two collections carry the automation: \<open>mem_simps\<close> for loads after stores and
  \<open>page_simps\<close> for page-frame arithmetic read through \<open>unat\<close>.
\<close>

unbundle bit_operations_syntax

declare upt_rec_numeral [simp del]

named_theorems mem_simps \<open>loads after stores in byte-addressed memory\<close>
named_theorems page_simps \<open>page and index arithmetic on 32-bit addresses, read as naturals\<close>

subsection \<open>Integer types\<close>

type_synonym u8 = "8 word"
type_synonym u16 = "16 word"
type_synonym u32 = "32 word"

abbreviation b2d :: "u8 \<Rightarrow> u32" where "b2d x \<equiv> ucast x"
abbreviation d2b :: "u32 \<Rightarrow> u8" where "d2b x \<equiv> ucast x"

text \<open>A C string literal: its bytes, without the terminator.\<close>

definition lit :: "string \<Rightarrow> u8 list" where
  "lit s = map of_char s"

text \<open>The error value \<open>(u32)-1\<close> of the system-call layer.\<close>

abbreviation minus1 :: u32 where "minus1 \<equiv> 0xFFFFFFFF"

subsection \<open>Words read as naturals\<close>

lemma unat_shr: "unat (drop_bit n a :: 'a::len word) = unat a div 2 ^ n"
  by (rule trans [OF unat_drop_bit_eq drop_bit_eq_div])

lemma unat_low: "unat (take_bit n a :: 'a::len word) = unat a mod 2 ^ n"
  by (rule trans [OF unsigned_take_bit_eq take_bit_eq_mod])

lemma and_0xFFF: "a AND 0xFFF = (take_bit 12 a :: u32)"
  by (simp only: take_bit_eq_mask) (simp add: mask_eq_exp_minus_1)

lemma and_0x3FF: "a AND 0x3FF = (take_bit 10 a :: u32)"
  by (simp only: take_bit_eq_mask) (simp add: mask_eq_exp_minus_1)

lemma unat_and_0xFFF [page_simps]: "unat (a AND 0xFFF :: u32) = unat a mod 4096"
  by (simp only: and_0xFFF unat_low) simp

lemma unat_and_0x3FF [page_simps]: "unat (a AND 0x3FF :: u32) = unat a mod 1024"
  by (simp only: and_0x3FF unat_low) simp

lemma all_ones32: "(0xFFFFFFFF :: u32) = - 1"
  by simp

lemma unat_less_2p32: "unat (a :: u32) < 4294967296"
  using unsigned_less [of a, where 'a = nat] by simp

lemma unat_add_no_wrap:
  fixes a b :: u32
  assumes "unat a + unat b < 4294967296"
  shows "unat (a + b) = unat a + unat b"
  using assms by (simp add: unat_word_ariths)

lemma unat_of_nat32: "n < 4294967296 \<Longrightarrow> unat (of_nat n :: u32) = n"
  by (simp add: unat_of_nat)

lemma word_of_unat: "of_nat (unat (x :: u32)) = x"
  by simp

lemma u32_eqI: "unat a = unat b \<Longrightarrow> a = (b :: u32)"
  by (simp add: unsigned_word_eqI)

subsection \<open>Pages\<close>

text \<open>\<open>fbase a\<close> is the page (or frame) an address lies in, \<open>a & 0xFFFFF000\<close> in the code.\<close>

definition fbase :: "u32 \<Rightarrow> u32" where
  "fbase a = a AND 0xFFFFF000"

lemma fbase_plus_offset: "fbase a + (a AND 0xFFF) = a"
proof -
  have "fbase a AND (a AND 0xFFF) = a AND a AND (0xFFFFF000 AND 0xFFF)"
    unfolding fbase_def by (simp only: ac_simps)
  then have "fbase a + (a AND 0xFFF) = fbase a OR (a AND 0xFFF)"
    by (intro disjunctive_add_eq_or) simp
  also have "\<dots> = a AND (0xFFFFF000 OR 0xFFF)"
    unfolding fbase_def by (simp only: bit.conj_disj_distrib)
  also have "0xFFFFF000 OR 0xFFF = (- 1 :: u32)"
    by simp
  finally show ?thesis
    by simp
qed

lemma unat_fbase [page_simps]: "unat (fbase a) = unat a div 4096 * 4096"
proof -
  have "fbase a = a - (a AND 0xFFF)"
    using fbase_plus_offset [of a] by (metis add_diff_cancel)
  moreover have "a AND 0xFFF \<le> a"
    by (simp add: word_and_le2)
  ultimately have "unat (fbase a) = unat a - unat a mod 4096"
    by (simp only: unat_sub unat_and_0xFFF)
  then show ?thesis
    by (metis minus_mod_eq_div_mult)
qed

text \<open>Page alignment, and what the offset arithmetic of the code does to an aligned base.\<close>

definition page_aligned :: "u32 \<Rightarrow> bool" where
  "page_aligned a \<longleftrightarrow> a AND 0xFFF = 0"

lemma page_aligned_unat: "page_aligned a \<longleftrightarrow> unat a mod 4096 = 0"
  unfolding page_aligned_def by (simp add: unat_and_0xFFF flip: unat_0_iff)

lemma page_aligned_fbase [simp]: "page_aligned (fbase a)"
  by (simp add: page_aligned_unat unat_fbase)

lemma fbase_aligned: "page_aligned a \<Longrightarrow> fbase a = a"
  using fbase_plus_offset [of a] by (simp add: page_aligned_def)

lemma nat_page_split:
  fixes n k :: nat
  assumes "n mod 4096 = 0" and "k < 4096"
  shows "(n + k) div 4096 * 4096 = n" and "(n + k) mod 4096 = k"
proof -
  obtain q where "n = 4096 * q"
    using assms(1) by auto
  with assms(2) show "(n + k) div 4096 * 4096 = n" and "(n + k) mod 4096 = k"
    by simp_all
qed

lemma nat_page_bound:
  fixes n :: nat
  assumes "n mod 4096 = 0" and "n < 4294967296" and "k < 4096"
  shows "n + k < 4294967296"
proof -
  obtain q where "n = 4096 * q"
    using assms(1) by auto
  moreover from this assms(2) have "q < 1048576"
    by simp
  ultimately show ?thesis
    using assms(3) by simp
qed

lemma unat_page_plus:
  assumes "page_aligned f" and "unat o' < 4096"
  shows "unat (f + o') = unat f + unat o'"
  using assms nat_page_bound [OF _ unat_less_2p32]
  by (intro unat_add_no_wrap) (simp add: page_aligned_unat)

lemma fbase_page_plus:
  assumes "page_aligned f" and "unat o' < 4096"
  shows "fbase (f + o') = f"
  using assms nat_page_split(1) [of "unat f" "unat o'"] unat_page_plus [OF assms]
  by (intro u32_eqI) (simp add: unat_fbase page_aligned_unat)

text \<open>Page-table entries are written as \<open>frame | flags\<close>: the parts do not overlap.\<close>

lemma page_and_low:
  assumes "page_aligned f" and "k AND 0xFFF = k"
  shows "f AND k = 0"
proof -
  have "f AND k = f AND (k AND 0xFFF)"
    using assms(2) by simp
  also have "\<dots> = (f AND 0xFFF) AND k"
    by (simp only: ac_simps)
  finally show ?thesis
    using assms(1) by (simp add: page_aligned_def)
qed

lemma page_or_plus: "page_aligned f \<Longrightarrow> k AND 0xFFF = k \<Longrightarrow> f OR k = f + k"
  by (simp add: disjunctive_add_eq_or page_and_low)

lemma page_or_and: "page_aligned f \<Longrightarrow> b AND 0xFFF = b \<Longrightarrow> (f OR k) AND b = k AND b"
  by (simp add: bit.conj_disj_distrib2 page_and_low)

lemma fbase_page_or: "page_aligned f \<Longrightarrow> k AND 0xFFF = k \<Longrightarrow> fbase (f OR k) = f"
proof -
  assume a: "page_aligned f" "k AND 0xFFF = k"
  then have "unat k < 4096"
    by (metis mod_less_divisor unat_and_0xFFF zero_less_numeral)
  with a show ?thesis
    by (simp add: page_or_plus fbase_page_plus)
qed

lemma fbase_and_not:
  assumes "k AND 0xFFF = k"
  shows "fbase (e AND NOT k) = fbase e"
proof -
  have "(k AND 0xFFF) OR 0xFFF = (0xFFF :: u32)"
    by (simp only: word_ao_absorbs)
  then have "NOT k AND NOT 0xFFF = (NOT 0xFFF :: u32)"
    using assms by (simp only: flip: bit.de_Morgan_disj)
  moreover have "0xFFFFF000 = (NOT 0xFFF :: u32)"
    by simp
  ultimately show ?thesis
    by (simp only: fbase_def and.assoc)
qed

text \<open>The frame (page) number of an address, and the address of a frame number.\<close>

definition fno :: "u32 \<Rightarrow> nat" where
  "fno a = unat a div 4096"

lemma fno_of_frame:
  assumes "i < 1048576"
  shows "unat (of_nat i * 0x1000 :: u32) = i * 4096"
    and "fno (of_nat i * 0x1000) = i"
    and "page_aligned (of_nat i * 0x1000)"
proof -
  have "of_nat i * 0x1000 = (of_nat (i * 4096) :: u32)"
    by simp
  then show *: "unat (of_nat i * 0x1000 :: u32) = i * 4096"
    using assms by (simp only: unat_of_nat32)
  show "fno (of_nat i * 0x1000) = i"
    unfolding fno_def * by simp
  show "page_aligned (of_nat i * 0x1000)"
    unfolding page_aligned_unat * by simp
qed

lemma frame_of_fno: "page_aligned a \<Longrightarrow> of_nat (fno a) * 0x1000 = a"
proof (rule u32_eqI)
  assume "page_aligned a"
  then have "unat a div 4096 * 4096 = unat a"
    by (metis add.right_neutral div_mult_mod_eq page_aligned_unat)
  moreover have "unat a div 4096 < 1048576"
    using unat_less_2p32 [of a] by simp
  ultimately show "unat (of_nat (fno a) * 0x1000 :: u32) = unat a"
    by (simp only: fno_def fno_of_frame(1))
qed

lemma fno_inject: "page_aligned a \<Longrightarrow> page_aligned b \<Longrightarrow> fno a = fno b \<longleftrightarrow> a = b"
  by (metis frame_of_fno)

lemma unat_div_page: "unat (a div 0x1000 :: u32) = fno a"
  by (simp add: fno_def unat_div)

lemma unat_shr12 [page_simps]: "unat (drop_bit 12 a :: u32) = fno a"
  by (simp only: unat_shr) (simp add: fno_def)

subsection \<open>Byte-addressed memory\<close>

text \<open>
  Memory is a function from addresses to bytes; \<open>load32\<close> and \<open>store32\<close> are the
  little-endian accesses the compiler emits for a \<open>u32\<close> lvalue.
\<close>

type_synonym mem = "u32 \<Rightarrow> u8"

definition load32 :: "mem \<Rightarrow> u32 \<Rightarrow> u32" where
  "load32 m a = b2d (m a) OR push_bit 8 (b2d (m (a + 1)))
     OR push_bit 16 (b2d (m (a + 2))) OR push_bit 24 (b2d (m (a + 3)))"

definition store32 :: "mem \<Rightarrow> u32 \<Rightarrow> u32 \<Rightarrow> mem" where
  "store32 m a v = m(a := d2b v, a + 1 := d2b (drop_bit 8 v),
     a + 2 := d2b (drop_bit 16 v), a + 3 := d2b (drop_bit 24 v))"

lemma le32_join:
  "b2d (d2b v) OR push_bit 8 (b2d (d2b (drop_bit 8 v)))
     OR push_bit 16 (b2d (d2b (drop_bit 16 v)))
     OR push_bit 24 (b2d (d2b (drop_bit 24 v))) = v"
proof (rule bit_word_eqI)
  fix n
  assume "n < LENGTH(32)"
  then consider "n < 8" | "8 \<le> n" "n < 16" | "16 \<le> n" "n < 24" | "24 \<le> n" "n < 32"
    by fastforce
  then show "bit (b2d (d2b v) OR push_bit 8 (b2d (d2b (drop_bit 8 v)))
     OR push_bit 16 (b2d (d2b (drop_bit 16 v)))
     OR push_bit 24 (b2d (d2b (drop_bit 24 v)))) n = bit v n"
    by cases (auto simp: bit_simps)
qed

lemma load32_store32_same [mem_simps]: "load32 (store32 m a v) a = v"
  by (simp add: load32_def store32_def le32_join)

text \<open>The four bytes of an aligned dword; two distinct aligned dwords share none.\<close>

definition aligned4 :: "u32 \<Rightarrow> bool" where
  "aligned4 a \<longleftrightarrow> unat a mod 4 = 0"

definition dword_bytes :: "u32 \<Rightarrow> u32 set" where
  "dword_bytes a = {a, a + 1, a + 2, a + 3}"

lemma nat_quad_bound: "n mod 4 = 0 \<Longrightarrow> n < 4294967296 \<Longrightarrow> k < 4 \<Longrightarrow> n + k < (4294967296 :: nat)"
proof -
  assume "n mod 4 = 0" "n < 4294967296" "k < 4"
  moreover from this obtain q where "n = 4 * q"
    by auto
  moreover from calculation have "q < 1073741824"
    by simp
  ultimately show ?thesis
    by simp
qed

lemma nat_quad_div: "n mod 4 = 0 \<Longrightarrow> k < 4 \<Longrightarrow> (n + k) div 4 = (n div 4 :: nat)"
  by (auto elim!: dvdE simp: mod_eq_0_iff_dvd)

lemma nat_page_quad: "n mod 4096 = 0 \<Longrightarrow> n mod 4 = (0 :: nat)"
  using mod_mod_cancel [of 4 4096 n] by simp

lemma unat_aligned4_plus:
  assumes "aligned4 a" and "unat k < 4"
  shows "unat (a + k) = unat a + unat k"
  using assms nat_quad_bound [OF _ unat_less_2p32]
  by (intro unat_add_no_wrap) (simp add: aligned4_def)

lemma dword_bytes_quad:
  assumes "aligned4 a" and "x \<in> dword_bytes a"
  shows "unat x div 4 = unat a div 4"
proof -
  from assms(2) obtain k :: u32 where k: "x = a + k" "unat k < 4"
    by (auto simp: dword_bytes_def)
  have "(unat a + unat k) div 4 = unat a div 4"
    using assms(1) k(2) by (intro nat_quad_div) (simp_all add: aligned4_def)
  then show ?thesis
    using unat_aligned4_plus [OF assms(1) k(2)] k(1) by simp
qed

lemma dword_bytes_disjoint:
  assumes "aligned4 a" and "aligned4 b" and "a \<noteq> b"
  shows "dword_bytes a \<inter> dword_bytes b = {}"
proof (rule ccontr)
  assume "dword_bytes a \<inter> dword_bytes b \<noteq> {}"
  then obtain x where "x \<in> dword_bytes a" "x \<in> dword_bytes b"
    by blast
  then have "unat a div 4 = unat b div 4"
    using assms(1,2) by (metis dword_bytes_quad)
  then have "unat a = unat b"
    using assms(1,2) unfolding aligned4_def by (metis div_mult_mod_eq)
  with assms(3) show False
    by (simp add: u32_eqI)
qed

lemma load32_cong: "(\<And>x. x \<in> dword_bytes a \<Longrightarrow> m x = m' x) \<Longrightarrow> load32 m a = load32 m' a"
  by (simp add: load32_def dword_bytes_def)

lemma store32_outside: "x \<notin> dword_bytes a \<Longrightarrow> store32 m a v x = m x"
  by (simp add: store32_def dword_bytes_def)

lemma load32_store32_other [mem_simps]:
  assumes "aligned4 a" and "aligned4 b" and "a \<noteq> b"
  shows "load32 (store32 m a v) b = load32 m b"
  using dword_bytes_disjoint [OF assms] by (intro load32_cong) (auto intro: store32_outside)

subsection \<open>Counting loops over a state that may fault\<close>

text \<open>
  \<open>for_range f a b s\<close> is \<open>for (i = a; i < b; i++) s = f(i, s)\<close>, stopping at the first
  \<open>None\<close> (a kernel fault).
\<close>

fun for_each :: "('i \<Rightarrow> 's \<Rightarrow> 's option) \<Rightarrow> 'i list \<Rightarrow> 's \<Rightarrow> 's option" where
  "for_each f [] s = Some s"
| "for_each f (i # is) s = Option.bind (f i s) (for_each f is)"

definition for_range :: "(nat \<Rightarrow> 's \<Rightarrow> 's option) \<Rightarrow> nat \<Rightarrow> nat \<Rightarrow> 's \<Rightarrow> 's option" where
  "for_range f a b s = for_each f [a ..< b] s"

text \<open>The loop rule: an indexed invariant that every iteration re-establishes.\<close>

lemma for_range_rule:
  assumes "I a s" and "a \<le> b"
    and "\<And>i s. a \<le> i \<Longrightarrow> i < b \<Longrightarrow> I i s \<Longrightarrow> \<exists>s'. f i s = Some s' \<and> I (Suc i) s'"
  shows "\<exists>s'. for_range f a b s = Some s' \<and> I b s'"
  using assms
proof (induction "b - a" arbitrary: a s)
  case 0
  then show ?case
    by (simp add: for_range_def)
next
  case (Suc n)
  then have "a < b" by simp
  with Suc.prems obtain s' where s': "f a s = Some s'" "I (Suc a) s'"
    by blast
  moreover have "\<exists>t. for_range f (Suc a) b s' = Some t \<and> I b t"
    using Suc s' \<open>a < b\<close> by (intro Suc.hyps) auto
  ultimately show ?case
    using \<open>a < b\<close> by (simp add: for_range_def upt_conv_Cons)
qed

end
