(* ===== verification/FrameAlloc.thy ===== *)
theory FrameAlloc
  imports NovaPrelude
begin

section \<open>The physical frame allocator (kernel/mm.c)\<close>

text \<open>
  The allocator's two static arrays: the bitmap of used frames (one bit per 4 KB frame of the
  4 MB machine) and the reference counts of user pages shared by copy-on-write.  Frame
  numbers are naturals (the code's \<open>u32\<close> read by \<open>unat\<close>); addresses stay 32-bit words and
  the NULL pointer is 0.
\<close>

definition FRAME_COUNT :: nat where "FRAME_COUNT = 1024"
definition BITMAP_SIZE :: nat where "BITMAP_SIZE = 128"
definition FRAME_SIZE :: u32 where "FRAME_SIZE = 0x1000"

record mm_state =
  bitmap :: "u8 list"
  frame_refs :: "u8 list"

text \<open>\<open>bitmap[i / 8] & (1 << (i % 8))\<close>, the test every operation makes.\<close>

definition frame_used :: "mm_state \<Rightarrow> nat \<Rightarrow> bool" where
  "frame_used s i \<longleftrightarrow> (bitmap s ! (i div 8)) AND push_bit (i mod 8) 1 \<noteq> 0"

text \<open>The two updates of a bitmap byte, \<open>|= 1 << (i % 8)\<close> and \<open>&= ~(1 << (i % 8))\<close>.\<close>

definition bm_set :: "nat \<Rightarrow> u8 list \<Rightarrow> u8 list" where
  "bm_set i bm = bm[i div 8 := bm ! (i div 8) OR push_bit (i mod 8) 1]"

definition bm_clear :: "nat \<Rightarrow> u8 list \<Rightarrow> u8 list" where
  "bm_clear i bm = bm[i div 8 := bm ! (i div 8) AND NOT (push_bit (i mod 8) 1)]"

definition mark_used :: "nat \<Rightarrow> mm_state \<Rightarrow> mm_state" where
  "mark_used fi s =
     (if fi < FRAME_COUNT then s\<lparr>bitmap := bm_set fi (bitmap s)\<rparr> else s)"

definition mm_init :: "mm_state \<Rightarrow> mm_state" where
  "mm_init s =
     (let s = s\<lparr>bitmap := replicate BITMAP_SIZE 0, frame_refs := replicate FRAME_COUNT 0\<rparr>;
          s = fold mark_used [0 ..< 0x100000 div 0x1000] s;
          s = fold mark_used [0x100000 div 0x1000 ..< 0x130000 div 0x1000] s
      in fold mark_used [0x300000 div 0x1000 ..< FRAME_COUNT] s)"

definition frame_alloc :: "mm_state \<Rightarrow> u32 \<times> mm_state" where
  "frame_alloc s =
     (case List.find (\<lambda>i. \<not> frame_used s i) [0 ..< FRAME_COUNT] of
        Some i \<Rightarrow> (of_nat i * FRAME_SIZE, s\<lparr>bitmap := bm_set i (bitmap s)\<rparr>)
      | None \<Rightarrow> (0, s))"

definition frame_free :: "u32 \<Rightarrow> mm_state \<Rightarrow> mm_state" where
  "frame_free addr s =
     (let i = unat (addr div FRAME_SIZE)
      in if FRAME_COUNT \<le> i then s
         else s\<lparr>bitmap := bm_clear i (bitmap s)\<rparr>)"

definition mm_free_frames :: "mm_state \<Rightarrow> nat" where
  "mm_free_frames s = fold (\<lambda>i n. if \<not> frame_used s i then n + 1 else n) [0 ..< FRAME_COUNT] 0"

definition mm_ref_inc :: "nat \<Rightarrow> mm_state \<Rightarrow> mm_state" where
  "mm_ref_inc fi s =
     (if fi < FRAME_COUNT \<and> frame_refs s ! fi < 255
      then s\<lparr>frame_refs := (frame_refs s)[fi := frame_refs s ! fi + 1]\<rparr> else s)"

definition mm_ref_dec :: "nat \<Rightarrow> mm_state \<Rightarrow> mm_state" where
  "mm_ref_dec fi s =
     (if FRAME_COUNT \<le> fi then s
      else let s = (if frame_refs s ! fi > 0
                    then s\<lparr>frame_refs := (frame_refs s)[fi := frame_refs s ! fi - 1]\<rparr> else s)
           in if frame_refs s ! fi = 0 \<and> frame_used s fi
              then frame_free (of_nat fi * FRAME_SIZE) s else s)"

subsection \<open>Well-formed states and the set of free frames\<close>

definition mm_wf :: "mm_state \<Rightarrow> bool" where
  "mm_wf s \<longleftrightarrow> length (bitmap s) = BITMAP_SIZE \<and> length (frame_refs s) = FRAME_COUNT"

text \<open>The abstract view of the bitmap: the set of frames the allocator may hand out.\<close>

definition free_set :: "mm_state \<Rightarrow> nat set" where
  "free_set s = {i. i < FRAME_COUNT \<and> \<not> frame_used s i}"

lemma bit_test: "((x :: u8) AND push_bit k 1 \<noteq> 0) = bit x k"
  by (simp add: and_exp_eq_0_iff_not_bit push_bit_eq_mult)

lemma length_bm [simp]: "length (bm_set i bm) = length bm" "length (bm_clear i bm) = length bm"
  by (simp_all add: bm_set_def bm_clear_def)

lemma frame_used_bit: "frame_used s i = bit (bitmap s ! (i div 8)) (i mod 8)"
  by (simp only: frame_used_def bit_test)

lemma same_bit_index: "(i div 8 = j div 8 \<and> i mod 8 = j mod 8) = (i = (j :: nat))"
  by (metis div_mult_mod_eq)

lemma frame_used_set:
  assumes "length (bitmap s) = BITMAP_SIZE" and "i < FRAME_COUNT"
  shows "frame_used (s\<lparr>bitmap := bm_set i (bitmap s)\<rparr>) j
           = (j = i \<or> frame_used s j)"
proof -
  have "i div 8 < length (bitmap s)"
    using assms by (simp add: FRAME_COUNT_def BITMAP_SIZE_def)
  moreover have "j mod 8 < 8" by simp
  ultimately show ?thesis
    using same_bit_index [of i j]
    by (auto simp: frame_used_bit bm_set_def nth_list_update bit_simps push_bit_eq_mult)
qed

lemma frame_used_clear:
  assumes "length (bitmap s) = BITMAP_SIZE" and "i < FRAME_COUNT"
  shows "frame_used (s\<lparr>bitmap := bm_clear i (bitmap s)\<rparr>) j
           = (j \<noteq> i \<and> frame_used s j)"
proof -
  have "i div 8 < length (bitmap s)"
    using assms by (simp add: FRAME_COUNT_def BITMAP_SIZE_def)
  moreover have "j mod 8 < 8" by simp
  ultimately show ?thesis
    using same_bit_index [of i j]
    by (auto simp: frame_used_bit bm_clear_def nth_list_update bit_simps push_bit_eq_mult)
qed

subsection \<open>The operations on the abstract view\<close>

lemmas bitmap_simps = FRAME_COUNT_def BITMAP_SIZE_def FRAME_SIZE_def

text \<open>
  The states the kernel runs in: frame 0 is never free, because address 0 is the code's
  failure value (\<open>mm_init\<close> reserves everything below 1 MB).
\<close>

definition mm_ok :: "mm_state \<Rightarrow> bool" where
  "mm_ok s \<longleftrightarrow> mm_wf s \<and> 0 \<notin> free_set s"

lemma mark_used_wf [simp]: "mm_wf (mark_used i s) = mm_wf s"
  by (simp add: mm_wf_def mark_used_def)

lemma frame_used_mark_used:
  "mm_wf s \<Longrightarrow> i < FRAME_COUNT \<Longrightarrow> frame_used (mark_used i s) j = (j = i \<or> frame_used s j)"
  by (simp add: mark_used_def mm_wf_def frame_used_set)

lemma frame_used_fold_mark:
  "mm_wf s \<Longrightarrow> set is \<subseteq> {..<FRAME_COUNT} \<Longrightarrow>
     mm_wf (fold mark_used is s) \<and>
     frame_used (fold mark_used is s) j = (j \<in> set is \<or> frame_used s j)"
  by (induction "is" arbitrary: s) (auto simp: frame_used_mark_used)

lemma mm_wf_fold_mark: "mm_wf (fold mark_used is s) = mm_wf s"
  by (induction "is" arbitrary: s) simp_all

lemma frame_refs_fold_mark [simp]: "frame_refs (fold mark_used is s) = frame_refs s"
  by (induction "is" arbitrary: s) (auto simp: mark_used_def)

lemma mm_init_wf: "mm_wf (mm_init s)"
  by (simp add: mm_init_def Let_def mm_wf_fold_mark del: upt_rec_numeral) (simp add: mm_wf_def)

lemma mm_init_used: "i < FRAME_COUNT \<Longrightarrow> frame_used (mm_init s) i = (i < 304 \<or> 768 \<le> i)"
proof -
  assume i: "i < FRAME_COUNT"
  let ?s = "s\<lparr>bitmap := replicate BITMAP_SIZE 0, frame_refs := replicate FRAME_COUNT 0\<rparr>"
  have "mm_wf ?s" by (simp add: mm_wf_def)
  moreover have "\<not> frame_used ?s i"
    using i by (simp add: frame_used_def bitmap_simps)
  ultimately show ?thesis
    using i
    by (auto simp: mm_init_def Let_def frame_used_fold_mark mm_wf_fold_mark bitmap_simps subset_iff
        simp del: upt_rec_numeral)
qed

lemma free_set_mm_init: "free_set (mm_init s) = {304 ..< 768}"
  using mm_init_used [of _ s] by (auto simp: free_set_def bitmap_simps)

lemma mm_init_ok: "mm_ok (mm_init s)"
  by (simp add: mm_ok_def mm_init_wf free_set_mm_init)

lemma mm_init_refs: "frame_refs (mm_init s) = replicate FRAME_COUNT 0"
  by (simp add: mm_init_def Let_def del: upt_rec_numeral)

lemma frame_alloc_cases:
  obtains (full) "frame_alloc s = (0, s)" "free_set s = {}"
    | (frame) i where "i \<in> free_set s" "\<forall>j\<in>free_set s. i \<le> j"
        "frame_alloc s = (of_nat i * FRAME_SIZE, s\<lparr>bitmap := bm_set i (bitmap s)\<rparr>)"
proof (cases "List.find (\<lambda>i. \<not> frame_used s i) [0 ..< FRAME_COUNT]")
  case None
  then show ?thesis
    by (intro full) (simp add: frame_alloc_def, auto simp: find_None_iff free_set_def)
next
  case (Some i)
  then have "i < FRAME_COUNT" "\<not> frame_used s i" "\<forall>j < i. frame_used s j"
    by (auto simp: find_Some_iff)
  then show ?thesis
    using Some by (intro frame [of i]) (auto simp: frame_alloc_def free_set_def not_less[symmetric])
qed

lemma frame_alloc_spec:
  assumes "mm_ok s" and "frame_alloc s = (a, s')" and "a \<noteq> 0"
  shows "page_aligned a" and "fno a \<in> free_set s" and "\<forall>j\<in>free_set s. fno a \<le> j"
    and "free_set s' = free_set s - {fno a}" and "frame_refs s' = frame_refs s" and "mm_ok s'"
proof -
  from frame_alloc_cases [of s] assms(2,3) obtain i where
    i: "i \<in> free_set s" "\<forall>j\<in>free_set s. i \<le> j" and
    eq: "a = of_nat i * FRAME_SIZE"
      "s' = s\<lparr>bitmap := bm_set i (bitmap s)\<rparr>"
    by (metis Pair_inject)
  have len: "length (bitmap s) = BITMAP_SIZE" "length (frame_refs s) = FRAME_COUNT"
    and lt: "i < FRAME_COUNT"
    using assms(1) i by (auto simp: mm_ok_def mm_wf_def free_set_def)
  then have a: "fno a = i" "page_aligned a"
    using eq(1) fno_of_frame [of i] by (auto simp: bitmap_simps)
  show "page_aligned a" "fno a \<in> free_set s" "\<forall>j\<in>free_set s. fno a \<le> j"
    using a i by auto
  show free': "free_set s' = free_set s - {fno a}"
    unfolding a eq(2) free_set_def by (auto simp: frame_used_set [OF len(1) lt])
  show "frame_refs s' = frame_refs s"
    by (simp add: eq(2))
  show "mm_ok s'"
    using assms(1) free' len by (simp add: mm_ok_def mm_wf_def eq(2))
qed

lemma frame_alloc_fail:
  assumes "mm_ok s" and "frame_alloc s = (0, s')"
  shows "s' = s" and "free_set s = {}"
proof -
  have "free_set s = {} \<and> s' = s"
  proof (cases rule: frame_alloc_cases [of s])
    case full
    with assms(2) show ?thesis by simp
  next
    case (frame i)
    then have "i < 1048576" by (simp add: free_set_def bitmap_simps)
    then have "unat (of_nat i * 0x1000 :: u32) = i * 4096" by (rule fno_of_frame)
    with frame assms(2) have "i = 0" by (simp add: bitmap_simps)
    with frame assms(1) show ?thesis by (simp add: mm_ok_def)
  qed
  then show "s' = s" and "free_set s = {}" by simp_all
qed

lemma frame_free_spec:
  assumes "mm_ok s" and "0 < fno a" and "fno a < FRAME_COUNT"
  shows "free_set (frame_free a s) = insert (fno a) (free_set s)"
    and "frame_refs (frame_free a s) = frame_refs s" and "mm_ok (frame_free a s)"
proof -
  have len: "length (bitmap s) = BITMAP_SIZE"
    using assms(1) by (simp add: mm_ok_def mm_wf_def)
  have fs: "unat (a div FRAME_SIZE) = fno a"
    by (simp add: FRAME_SIZE_def unat_div_page)
  show f: "free_set (frame_free a s) = insert (fno a) (free_set s)"
    using assms(3) unfolding frame_free_def Let_def fs free_set_def
    by (auto simp: frame_used_clear [OF len assms(3)])
  show r: "frame_refs (frame_free a s) = frame_refs s"
    by (simp add: frame_free_def Let_def)
  show "mm_ok (frame_free a s)"
    using assms(1,2) f r by (auto simp: mm_ok_def mm_wf_def frame_free_def Let_def)
qed

lemma mm_ref_inc_spec:
  assumes "mm_ok s" and "fi < FRAME_COUNT"
  shows "free_set (mm_ref_inc fi s) = free_set s" and "mm_ok (mm_ref_inc fi s)"
    and "frame_refs (mm_ref_inc fi s) ! fj =
           (if fj = fi \<and> frame_refs s ! fi < 255 then frame_refs s ! fi + 1 else frame_refs s ! fj)"
proof -
  show f: "free_set (mm_ref_inc fi s) = free_set s"
    by (simp add: mm_ref_inc_def free_set_def frame_used_def)
  show "mm_ok (mm_ref_inc fi s)"
    using assms(1) f by (simp add: mm_ok_def mm_wf_def mm_ref_inc_def)
  show "frame_refs (mm_ref_inc fi s) ! fj =
      (if fj = fi \<and> frame_refs s ! fi < 255 then frame_refs s ! fi + 1 else frame_refs s ! fj)"
    using assms by (auto simp: mm_ref_inc_def mm_ok_def mm_wf_def nth_list_update)
qed

text \<open>The last reference: the count drops to zero (or was zero) on a used frame.\<close>

definition ref_drops :: "mm_state \<Rightarrow> nat \<Rightarrow> bool" where
  "ref_drops s fi \<longleftrightarrow> frame_refs s ! fi \<le> 1 \<and> fi \<notin> free_set s"

lemma word_le_1_cases: "(x :: u8) \<le> 1 \<longleftrightarrow> x = 0 \<or> x = 1"
  by unat_arith

lemma mm_ref_dec_spec:
  assumes "mm_ok s" and "0 < fi" and "fi < FRAME_COUNT"
  shows "free_set (mm_ref_dec fi s) = (if ref_drops s fi then insert fi (free_set s) else free_set s)"
    and "mm_ok (mm_ref_dec fi s)"
    and "frame_refs (mm_ref_dec fi s) =
           (if 0 < frame_refs s ! fi then (frame_refs s)[fi := frame_refs s ! fi - 1] else frame_refs s)"
proof -
  define t where "t = (if frame_refs s ! fi > 0
                    then s\<lparr>frame_refs := (frame_refs s)[fi := frame_refs s ! fi - 1]\<rparr> else s)"
  have dec: "mm_ref_dec fi s =
      (if frame_refs t ! fi = 0 \<and> frame_used t fi then frame_free (of_nat fi * FRAME_SIZE) t else t)"
    using assms(3) by (simp add: mm_ref_dec_def t_def Let_def)
  have t: "free_set t = free_set s" "mm_ok t" "frame_used t fi = (fi \<notin> free_set s)"
    using assms by (auto simp: t_def free_set_def frame_used_def mm_ok_def mm_wf_def)
  have zero: "frame_refs t ! fi = 0 \<longleftrightarrow> frame_refs s ! fi \<le> 1"
    using assms(1,3) by (auto simp: t_def mm_ok_def mm_wf_def word_le_1_cases word_gt_0)
  have fr: "fno (of_nat fi * FRAME_SIZE) = fi"
    using assms(3) fno_of_frame(2) [of fi] by (simp add: bitmap_simps)
  note ff = frame_free_spec [OF t(2), of "of_nat fi * FRAME_SIZE", unfolded fr, OF assms(2,3)]
  show "free_set (mm_ref_dec fi s) = (if ref_drops s fi then insert fi (free_set s) else free_set s)"
    using ff(1) t zero by (simp add: dec ref_drops_def)
  show "mm_ok (mm_ref_dec fi s)"
    using ff(3) t by (simp add: dec)
  show "frame_refs (mm_ref_dec fi s) =
      (if 0 < frame_refs s ! fi then (frame_refs s)[fi := frame_refs s ! fi - 1] else frame_refs s)"
  proof -
    have "frame_refs (mm_ref_dec fi s) = frame_refs t"
      using ff(2) by (simp add: dec)
    then show ?thesis by (simp add: t_def)
  qed
qed

lemma count_fold: "fold (\<lambda>i n. if P i then n + 1 else n) xs k = k + length (filter P xs)"
  by (induction xs arbitrary: k) simp_all

lemma mm_free_frames_card: "mm_free_frames s = card (free_set s)"
proof -
  have "mm_free_frames s = length (filter (\<lambda>i. \<not> frame_used s i) [0 ..< FRAME_COUNT])"
    by (simp add: mm_free_frames_def count_fold)
  also have "\<dots> = card (set (filter (\<lambda>i. \<not> frame_used s i) [0 ..< FRAME_COUNT]))"
    by (intro distinct_card [symmetric]) simp
  also have "set (filter (\<lambda>i. \<not> frame_used s i) [0 ..< FRAME_COUNT]) = free_set s"
    by (auto simp: free_set_def)
  finally show ?thesis .
qed

subsection \<open>The interface its clients rely on\<close>

text \<open>
  A pool of page frames: what the paging code needs of an allocator.  \<open>pool\<close> is the set of
  frames that may still be handed out.
\<close>

locale frame_pool =
  fixes alloc :: "'s \<Rightarrow> u32 \<times> 's"
    and release :: "u32 \<Rightarrow> 's \<Rightarrow> 's"
    and pool :: "'s \<Rightarrow> nat set"
    and ok :: "'s \<Rightarrow> bool"
  assumes alloc_frame: "ok s \<Longrightarrow> alloc s = (a, s') \<Longrightarrow> a \<noteq> 0 \<Longrightarrow>
      ok s' \<and> page_aligned a \<and> fno a \<in> pool s \<and> pool s' = pool s - {fno a}"
    and alloc_null: "ok s \<Longrightarrow> alloc s = (0, s') \<Longrightarrow> s' = s \<and> pool s = {}"
    and release_frame: "ok s \<Longrightarrow> 0 < fno a \<Longrightarrow> fno a < FRAME_COUNT \<Longrightarrow>
      ok (release a s) \<and> pool (release a s) = insert (fno a) (pool s)"
    and pool_bounds: "ok s \<Longrightarrow> pool s \<subseteq> {0 <..< FRAME_COUNT}"
begin

lemma alloc_ok: "ok s \<Longrightarrow> alloc s = (a, s') \<Longrightarrow> ok s'"
  using alloc_frame alloc_null by (cases "a = 0") metis+

lemma alloc_bounds:
  "ok s \<Longrightarrow> alloc s = (a, s') \<Longrightarrow> a \<noteq> 0 \<Longrightarrow> 0 < fno a \<and> fno a < FRAME_COUNT"
  using alloc_frame pool_bounds by (metis greaterThanLessThan_iff subsetD)

lemma alloc2_distinct:
  assumes "ok s" "alloc s = (a, s1)" "a \<noteq> 0" "alloc s1 = (b, s2)" "b \<noteq> 0"
  shows "fno a \<noteq> fno b" and "pool s2 = pool s - {fno a, fno b}" and "fno b \<in> pool s"
proof -
  have a: "ok s1" "pool s1 = pool s - {fno a}"
    using alloc_frame assms by blast+
  then have b: "fno b \<in> pool s1" "pool s2 = pool s1 - {fno b}"
    using alloc_frame assms by blast+
  from a b show "fno a \<noteq> fno b" "pool s2 = pool s - {fno a, fno b}" "fno b \<in> pool s"
    by auto
qed

lemma alloc_release:
  assumes "ok s" "alloc s = (a, s')" "a \<noteq> 0"
  shows "pool (release a s') = pool s" and "ok (release a s')"
  using alloc_frame [OF assms] alloc_bounds [OF assms] release_frame [of s' a] by auto

lemma alloc_total: "ok s \<Longrightarrow> pool s \<noteq> {} \<Longrightarrow> fst (alloc s) \<noteq> 0"
  using alloc_null by (metis prod.collapse)

end

interpretation fp: frame_pool frame_alloc frame_free free_set mm_ok
proof unfold_locales
  fix s s' :: mm_state and a
  assume ok: "mm_ok s"
  show "frame_alloc s = (a, s') \<Longrightarrow> a \<noteq> 0 \<Longrightarrow>
      mm_ok s' \<and> page_aligned a \<and> fno a \<in> free_set s \<and> free_set s' = free_set s - {fno a}"
    using frame_alloc_spec ok by metis
  show "frame_alloc s = (0, s') \<Longrightarrow> s' = s \<and> free_set s = {}"
    using frame_alloc_fail ok by metis
  show "0 < fno a \<Longrightarrow> fno a < FRAME_COUNT \<Longrightarrow>
      mm_ok (frame_free a s) \<and> free_set (frame_free a s) = insert (fno a) (free_set s)"
    using frame_free_spec ok by metis
  show "free_set s \<subseteq> {0 <..< FRAME_COUNT}"
    using ok by (auto simp: mm_ok_def free_set_def intro!: gr0I)
qed

subsection \<open>Properties\<close>

lemma mm_free_frames_Suc:
  assumes "free_set s' = free_set s - {f}" "f \<in> free_set s"
  shows "mm_free_frames s = Suc (mm_free_frames s')"
proof -
  have "finite (free_set s)" by (simp add: free_set_def)
  then show ?thesis
    unfolding mm_free_frames_card assms(1) using assms(2) by (simp only: card_Suc_Diff1)
qed

text \<open>After \<open>mm_init\<close> exactly the frames 0x130 to 0x2FF (1.19 MB to 3 MB) may be handed
  out, 464 of them, every reference count is zero, and the address 0 that the callers read as
  failure can never be a frame.\<close>

lemma mm_init_pool:
  "free_set (mm_init s) = {304 ..< 768} \<and> mm_free_frames (mm_init s) = 464 \<and>
   frame_refs (mm_init s) = replicate FRAME_COUNT 0 \<and> mm_ok (mm_init s)"
  by (simp add: free_set_mm_init mm_free_frames_card mm_init_refs mm_init_ok)

text \<open>C1: \<open>frame_alloc\<close> returns 0 only when no frame is free, and then changes nothing; otherwise
  it returns the page-aligned address of the lowest free frame, which leaves the pool while every
  other frame and every count stays, and freeing that address restores the pool.\<close>

theorem frame_alloc_lowest:
  assumes "mm_ok s" and "frame_alloc s = (a, s')"
  shows "if a = 0 then s' = s \<and> free_set s = {}
         else page_aligned a \<and> fno a = Min (free_set s) \<and> free_set s' = free_set s - {fno a} \<and>
              frame_refs s' = frame_refs s \<and> mm_free_frames s = Suc (mm_free_frames s') \<and> mm_ok s' \<and>
              free_set (frame_free a s') = free_set s"
proof (cases "a = 0")
  case True
  then show ?thesis using fp.alloc_null assms by simp
next
  case False
  note f = frame_alloc_spec [OF assms False]
  have "fno a = Min (free_set s)"
    using f(2,3) by (intro Min_eqI [symmetric]) (auto simp: free_set_def)
  then show ?thesis
    using False f mm_free_frames_Suc [OF f(4,2)] fp.alloc_release(1) [OF assms False] by simp
qed

theorem frame_alloc_lowest_witness:
  "\<exists>s'. frame_alloc (mm_init \<lparr>bitmap = [], frame_refs = []\<rparr>) = (0x130000, s') \<and> 304 \<notin> free_set s'"
proof -
  let ?s = "mm_init \<lparr>bitmap = [], frame_refs = []\<rparr>"
  obtain a s' where al: "frame_alloc ?s = (a, s')" by fastforce
  note t = frame_alloc_lowest [OF mm_init_ok al]
  have "Min {304 ..< 768 :: nat} = 304" by (rule Min_eqI) auto
  then have "a \<noteq> 0 \<and> page_aligned a \<and> fno a = 304 \<and> 304 \<notin> free_set s'"
    using t by (simp add: free_set_mm_init split: if_splits)
  moreover from this have "a = 0x130000" using frame_of_fno [of a] by simp
  ultimately show ?thesis using al by blast
qed

lemma ref_incs:
  assumes "mm_ok s" "fi < FRAME_COUNT" "unat (frame_refs s ! fi) + n \<le> 255"
  shows "mm_ok ((mm_ref_inc fi ^^ n) s) \<and> free_set ((mm_ref_inc fi ^^ n) s) = free_set s \<and>
    unat (frame_refs ((mm_ref_inc fi ^^ n) s) ! fi) = unat (frame_refs s ! fi) + n"
  using assms(3)
proof (induction n)
  case (Suc n)
  let ?t = "(mm_ref_inc fi ^^ n) s"
  have IH: "mm_ok ?t" "free_set ?t = free_set s" "unat (frame_refs ?t ! fi) = unat (frame_refs s ! fi) + n"
    using Suc by auto
  have lt: "frame_refs ?t ! fi < 255" using IH(3) Suc.prems by (simp add: word_less_nat_alt)
  have "unat (frame_refs ?t ! fi + 1) = Suc (unat (frame_refs ?t ! fi))"
    using lt by (simp add: unat_word_ariths word_less_nat_alt)
  then show ?case
    using mm_ref_inc_spec [OF IH(1) assms(2)] IH lt by simp
qed (use assms in simp)

lemma ref_decs:
  assumes "mm_ok s" "0 < fi" "fi < FRAME_COUNT" "fi \<notin> free_set s" "k \<le> unat (frame_refs s ! fi)" "0 < unat (frame_refs s ! fi)"
  shows "mm_ok ((mm_ref_dec fi ^^ k) s) \<and>
    free_set ((mm_ref_dec fi ^^ k) s) = (if k = unat (frame_refs s ! fi) then insert fi (free_set s) else free_set s) \<and>
    unat (frame_refs ((mm_ref_dec fi ^^ k) s) ! fi) = unat (frame_refs s ! fi) - k"
  using assms(5)
proof (induction k)
  case (Suc k)
  let ?t = "(mm_ref_dec fi ^^ k) s"
  have IH: "mm_ok ?t" "free_set ?t = free_set s" "unat (frame_refs ?t ! fi) = unat (frame_refs s ! fi) - k"
    using Suc by auto
  have pos: "0 < frame_refs ?t ! fi" using IH(3) Suc.prems by (simp add: word_less_nat_alt)
  have one: "frame_refs ?t ! fi \<le> 1 \<longleftrightarrow> Suc k = unat (frame_refs s ! fi)"
    using IH(3) Suc.prems by (simp add: word_le_nat_alt) linarith
  have len: "fi < length (frame_refs ?t)" using IH(1) assms(3) by (simp add: mm_ok_def mm_wf_def)
  have "unat (frame_refs ?t ! fi - 1) = unat (frame_refs ?t ! fi) - 1"
    using pos by (intro unat_minus_one) auto
  then show ?case
    using mm_ref_dec_spec [OF IH(1) assms(2,3)] IH pos one len assms(4) by (simp add: ref_drops_def)
qed (use assms in simp)

text \<open>C2: a frame whose count is raised by \<open>n\<close> mappings stays allocated until exactly the
  \<open>n\<close>-th \<open>mm_ref_dec\<close>, which returns it to the pool; no other frame's state is affected.\<close>

theorem refcount_last_drop_frees:
  assumes "mm_ok s" "0 < fi" "fi < FRAME_COUNT" "fi \<notin> free_set s" "frame_refs s ! fi = 0"
    and "0 < n" "n \<le> 255" "k \<le> n"
  shows "free_set ((mm_ref_dec fi ^^ k) ((mm_ref_inc fi ^^ n) s)) =
    (if k = n then insert fi (free_set s) else free_set s)"
proof -
  have i: "mm_ok ((mm_ref_inc fi ^^ n) s)" "free_set ((mm_ref_inc fi ^^ n) s) = free_set s"
    "unat (frame_refs ((mm_ref_inc fi ^^ n) s) ! fi) = n"
    using ref_incs [OF assms(1,3), of n] assms by simp_all
  show ?thesis
    using ref_decs [OF i(1) assms(2,3), of k] i assms by simp
qed

theorem refcount_last_drop_frees_witness:
  "free_set ((mm_ref_dec 300 ^^ 3) ((mm_ref_inc 300 ^^ 3) (mm_init \<lparr>bitmap = [], frame_refs = []\<rparr>))) =
   insert 300 {304 ..< 768}"
  using refcount_last_drop_frees [of "mm_init \<lparr>bitmap = [], frame_refs = []\<rparr>" 300 3 3] mm_init_ok
  by (simp add: free_set_mm_init mm_init_refs bitmap_simps)

end
