(* ===== verification/Mmu.thy ===== *)
theory Mmu
  imports FrameAlloc
begin

section \<open>Kernel memory accesses through the x86 page tables\<close>

text \<open>
  The kernel runs with paging on, so each pointer it dereferences is translated by the page
  directory in CR3.  \<open>x86_walk\<close> is the processor's 32-bit two-level walk (present,
  user/supervisor, read/write, CR0.WP); accessed/dirty bits and the TLB are not modelled, a
  translation is always the one the tables in memory give.  An access that does not translate
  is a page fault taken in kernel mode, which \<^verbatim>\<open>isr_common_handler\<close> answers with a panic:
  the result \<open>None\<close>.  \<open>vmemcpy\<close> and \<open>vmemset\<close> are libc's byte loops run on such memory.
\<close>

definition PTE_P :: u32 where "PTE_P = 1"
definition PTE_W :: u32 where "PTE_W = 2"
definition PTE_U :: u32 where "PTE_U = 4"

record pg_state =
  ram :: mem
  cr0 :: u32
  cr3 :: u32
  cr4 :: u32
  smep_on :: bool
  mm :: mm_state

definition wp_set :: "pg_state \<Rightarrow> bool" where
  "wp_set s \<longleftrightarrow> cr0 s AND 0x00010000 \<noteq> 0"

definition pte_allows :: "bool \<Rightarrow> bool \<Rightarrow> bool \<Rightarrow> u32 \<Rightarrow> bool" where
  "pte_allows wp user write e \<longleftrightarrow>
     e AND PTE_P \<noteq> 0 \<and> (user \<longrightarrow> e AND PTE_U \<noteq> 0) \<and>
     (write \<longrightarrow> e AND PTE_W \<noteq> 0 \<or> (\<not> user \<and> \<not> wp))"

definition x86_walk :: "mem \<Rightarrow> bool \<Rightarrow> u32 \<Rightarrow> bool \<Rightarrow> bool \<Rightarrow> u32 \<Rightarrow> u32 option" where
  "x86_walk m wp c user write va =
     (let pde = load32 m (fbase c + 4 * drop_bit 22 va)
      in if \<not> pte_allows wp user write pde then None
         else let pte = load32 m (fbase pde + 4 * (drop_bit 12 va AND 0x3FF))
              in if \<not> pte_allows wp user write pte then None
                 else Some (fbase pte + (va AND 0xFFF)))"

definition ktrans :: "pg_state \<Rightarrow> bool \<Rightarrow> u32 \<Rightarrow> u32 option" where
  "ktrans s write va = x86_walk (ram s) (wp_set s) (cr3 s) False write va"

definition kld8 :: "u32 \<Rightarrow> pg_state \<Rightarrow> u8 option" where
  "kld8 a s = map_option (ram s) (ktrans s False a)"

definition kst8 :: "u32 \<Rightarrow> u8 \<Rightarrow> pg_state \<Rightarrow> pg_state option" where
  "kst8 a v s = map_option (\<lambda>p. s\<lparr>ram := (ram s)(p := v)\<rparr>) (ktrans s True a)"

definition kld32 :: "u32 \<Rightarrow> pg_state \<Rightarrow> u32 option" where
  "kld32 a s = map_option (load32 (ram s)) (ktrans s False a)"

definition kst32 :: "u32 \<Rightarrow> u32 \<Rightarrow> pg_state \<Rightarrow> pg_state option" where
  "kst32 a v s = map_option (\<lambda>p. s\<lparr>ram := store32 (ram s) p v\<rparr>) (ktrans s True a)"

fun vmemcpy :: "u32 \<Rightarrow> u32 \<Rightarrow> nat \<Rightarrow> pg_state \<Rightarrow> pg_state option" where
  "vmemcpy d src 0 s = Some s"
| "vmemcpy d src (Suc n) s =
     do { v \<leftarrow> kld8 src s; s \<leftarrow> kst8 d v s; vmemcpy (d + 1) (src + 1) n s }"

fun vmemset :: "u32 \<Rightarrow> u8 \<Rightarrow> nat \<Rightarrow> pg_state \<Rightarrow> pg_state option" where
  "vmemset d c 0 s = Some s"
| "vmemset d c (Suc n) s = do { s \<leftarrow> kst8 d c s; vmemset (d + 1) c n s }"

subsection \<open>The kernel's identity map\<close>

text \<open>
  \<open>kaddr a\<close>: the address lies in the part of the 4 MB machine that every address space maps
  one to one for the kernel, i.e. outside the user window (pages 512 to 767).
\<close>

definition user_page :: "nat \<Rightarrow> bool" where
  "user_page i \<longleftrightarrow> 512 \<le> i \<and> i < 768"

definition kaddr :: "u32 \<Rightarrow> bool" where
  "kaddr a \<longleftrightarrow> fno a < 1024 \<and> \<not> user_page (fno a)"

text \<open>The page-table slot \<open>i\<close> of the table at \<open>pt\<close>, and the first page table of a directory.\<close>

definition slot :: "u32 \<Rightarrow> nat \<Rightarrow> u32" where
  "slot pt i = pt + of_nat (4 * i)"

definition ptab :: "mem \<Rightarrow> u32 \<Rightarrow> u32" where
  "ptab m c = fbase (load32 m c)"

definition kmap :: "mem \<Rightarrow> u32 \<Rightarrow> bool" where
  "kmap m c \<longleftrightarrow> page_aligned c \<and> load32 m c AND PTE_P \<noteq> 0 \<and> load32 m c AND PTE_W \<noteq> 0 \<and>
     (\<forall>i < 1024. \<not> user_page i \<longrightarrow> load32 m (slot (ptab m c) i) = of_nat i * 4096 OR 3)"

lemma unat_slot: "page_aligned pt \<Longrightarrow> i < 1024 \<Longrightarrow> unat (slot pt i) = unat pt + 4 * i"
  unfolding slot_def by (subst unat_page_plus) (simp_all add: unat_of_nat32 del: of_nat_mult)

lemma fbase_slot [page_simps]: "page_aligned pt \<Longrightarrow> i < 1024 \<Longrightarrow> fbase (slot pt i) = pt"
  unfolding slot_def by (rule fbase_page_plus) (simp_all add: unat_of_nat32 del: of_nat_mult)

lemma aligned4_slot [page_simps]: "page_aligned pt \<Longrightarrow> i < 1024 \<Longrightarrow> aligned4 (slot pt i)"
  by (simp add: aligned4_def unat_slot page_aligned_unat nat_page_quad)

lemma slot_inject: "page_aligned pt \<Longrightarrow> i < 1024 \<Longrightarrow> j < 1024 \<Longrightarrow> slot pt i = slot pt j \<longleftrightarrow> i = j"
  by (metis add_left_cancel mult_cancel1 unat_slot zero_neq_numeral)

lemma fbase_dword: "aligned4 a \<Longrightarrow> x \<in> dword_bytes a \<Longrightarrow> fbase x = fbase a"
proof (rule u32_eqI)
  assume "aligned4 a" "x \<in> dword_bytes a"
  then have "unat x div 4 = unat a div 4" by (rule dword_bytes_quad)
  then have "unat x div 4 div 1024 = unat a div 4 div 1024" by simp
  then show "unat (fbase x) = unat (fbase a)"
    by (simp add: unat_fbase flip: div_mult2_eq)
qed

subsection \<open>The walk of a kernel address\<close>

lemma kmap_entry:
  assumes "i < 1024"
  shows "page_aligned (of_nat i * 4096)" and "fbase (of_nat i * 4096 OR 3) = of_nat i * 4096"
    and "pte_allows wp False w (of_nat i * 4096 OR 3)" and "fno (of_nat i * 4096) = i"
proof -
  show a: "page_aligned (of_nat i * 4096)" and "fno (of_nat i * 4096) = i"
    using assms fno_of_frame(2,3) [of i] by simp_all
  show "fbase (of_nat i * 4096 OR 3) = of_nat i * 4096"
    by (rule fbase_page_or [OF a]) simp
  show "pte_allows wp False w (of_nat i * 4096 OR 3)"
    by (simp add: pte_allows_def PTE_P_def PTE_W_def page_or_and [OF a])
qed

lemma kaddr_index:
  assumes "fno a < 1024"
  shows "drop_bit 22 a = 0" and "unat (drop_bit 12 a AND 0x3FF) = fno a"
proof -
  have "unat a < 4194304"
    using assms by (simp add: fno_def)
  then have "unat (drop_bit 22 a) = 0"
    by (simp only: unat_shr) simp
  then show "drop_bit 22 a = 0"
    by (simp only: unat_0_iff)
  show "unat (drop_bit 12 a AND 0x3FF) = fno a"
    using assms by (simp add: unat_and_0x3FF unat_shr12)
qed

lemma pte_slot:
  assumes "unat k < 1024"
  shows "pt + 4 * k = slot pt (unat k)"
  by (simp add: slot_def)

lemma kmap_walk:
  assumes "kmap m c" and "kaddr a"
  shows "x86_walk m wp c False w a = Some a"
proof -
  let ?i = "fno a"
  have i: "?i < 1024" "\<not> user_page ?i"
    using assms(2) by (simp_all add: kaddr_def)
  have c: "fbase c = c" "pte_allows wp False w (load32 m c)"
    using assms(1) by (auto simp: kmap_def fbase_aligned pte_allows_def)
  have "ptab m c + 4 * (drop_bit 12 a AND 0x3FF) = slot (ptab m c) ?i"
    using kaddr_index [OF i(1)] i(1) pte_slot [of "drop_bit 12 a AND 0x3FF" "ptab m c"] by simp
  moreover have "load32 m (slot (ptab m c) ?i) = of_nat ?i * 4096 OR 3"
    using assms(1) i by (simp add: kmap_def)
  moreover have "of_nat ?i * 4096 = fbase a"
    using i(1) by (metis fno_def kmap_entry(1,4) fno_inject page_aligned_fbase unat_fbase
        nonzero_mult_div_cancel_right zero_neq_numeral)
  ultimately show ?thesis
    using c kaddr_index(1) [OF i(1)] kmap_entry(2,3) [OF i(1)]
    by (simp add: x86_walk_def Let_def ptab_def fbase_plus_offset)
qed

text \<open>What the identity map depends on: the directory's first entry and the kernel's slots.\<close>

lemma kmap_cong:
  assumes "kmap m c" and "\<And>x. x \<in> dword_bytes c \<Longrightarrow> m' x = m x"
    and "\<And>i x. i < 1024 \<Longrightarrow> \<not> user_page i \<Longrightarrow> x \<in> dword_bytes (slot (ptab m c) i) \<Longrightarrow> m' x = m x"
  shows "kmap m' c" and "ptab m' c = ptab m c"
proof -
  have "load32 m' c = load32 m c"
    using assms(2) by (intro load32_cong) auto
  moreover have "load32 m' (slot (ptab m c) i) = load32 m (slot (ptab m c) i)"
    if "i < 1024" "\<not> user_page i" for i
    using assms(3) that by (intro load32_cong) auto
  ultimately show "kmap m' c" and "ptab m' c = ptab m c"
    using assms(1) by (simp_all add: kmap_def ptab_def)
qed

lemma page_aligned_ptab [simp]: "page_aligned (ptab m c)"
  by (simp add: ptab_def)

lemma aligned4_page: "page_aligned c \<Longrightarrow> aligned4 c"
  by (simp add: aligned4_def page_aligned_unat nat_page_quad)

lemma kmap_outside:
  assumes "kmap m c" and "\<And>x. fbase x = c \<or> fbase x = ptab m c \<Longrightarrow> m' x = m x"
  shows "kmap m' c" and "ptab m' c = ptab m c"
proof -
  have c: "page_aligned c"
    using assms(1) by (simp add: kmap_def)
  have 1: "m' x = m x" if "x \<in> dword_bytes c" for x
    using fbase_dword [OF aligned4_page [OF c] that] c by (intro assms(2)) (simp add: fbase_aligned)
  have 2: "m' x = m x" if "i < 1024" "x \<in> dword_bytes (slot (ptab m c) i)" for i x
    using fbase_dword [OF aligned4_slot [OF page_aligned_ptab that(1)] that(2)] that(1)
    by (intro assms(2)) (simp add: fbase_slot)
  show "kmap m' c" and "ptab m' c = ptab m c"
    using kmap_cong [OF assms(1) 1 2] by auto
qed

lemma slot_0 [simp]: "slot f 0 = f"
  by (simp add: slot_def)

lemma slot_other_page:
  "page_aligned f \<Longrightarrow> page_aligned g \<Longrightarrow> i < 1024 \<Longrightarrow> j < 1024 \<Longrightarrow> f \<noteq> g \<Longrightarrow> slot f i \<noteq> slot g j"
  by (metis fbase_slot)

text \<open>Reading one slot after writing another: the same slot, or anything else.\<close>

lemma load_store_slot [mem_simps]:
  assumes "page_aligned f" "page_aligned g" "i < 1024" "j < 1024"
  shows "load32 (store32 m (slot f i) v) (slot g j) =
           (if f = g \<and> i = j then v else load32 m (slot g j))"
proof (cases "f = g \<and> i = j")
  case True
  then show ?thesis by (simp add: load32_store32_same)
next
  case False
  then have "slot f i \<noteq> slot g j"
    using assms slot_inject slot_other_page by metis
  then show ?thesis
    using assms False by (auto simp: load32_store32_other aligned4_slot)
qed

text \<open>The live page table may be rewritten in place: the kernel's slots with their own values.\<close>

lemma kmap_store_slot:
  assumes "kmap m c" and "ptab m c \<noteq> c" and "i < 1024"
    and "\<not> user_page i \<Longrightarrow> v = of_nat i * 4096 OR 3"
  shows "kmap (store32 m (slot (ptab m c) i) v) c"
    and "ptab (store32 m (slot (ptab m c) i) v) c = ptab m c"
proof -
  have c: "page_aligned c"
    using assms(1) by (simp add: kmap_def)
  have l: "load32 (store32 m (slot (ptab m c) i) v) c = load32 m c"
    using load_store_slot [OF page_aligned_ptab c assms(3), of 0] assms(2) by simp
  then show p: "ptab (store32 m (slot (ptab m c) i) v) c = ptab m c"
    by (simp add: ptab_def)
  show "kmap (store32 m (slot (ptab m c) i) v) c"
    unfolding kmap_def p l using assms by (auto simp: kmap_def load_store_slot)
qed

subsection \<open>Kernel loads and stores under the identity map\<close>

definition kview :: "pg_state \<Rightarrow> bool" where
  "kview s \<longleftrightarrow> kmap (ram s) (cr3 s)"

lemma kernel_access [mem_simps]:
  assumes "kview s" and "kaddr a"
  shows "kld8 a s = Some (ram s a)"
    and "kst8 a b s = Some (s\<lparr>ram := (ram s)(a := b)\<rparr>)"
    and "kld32 a s = Some (load32 (ram s) a)"
    and "kst32 a v s = Some (s\<lparr>ram := store32 (ram s) a v\<rparr>)"
  using assms
  by (simp_all add: kld8_def kst8_def kld32_def kst32_def ktrans_def kview_def kmap_walk)

lemma fno_page_plus: "page_aligned f \<Longrightarrow> unat k < 4096 \<Longrightarrow> fno (f + k) = fno f"
proof -
  assume a: "page_aligned f" "unat k < 4096"
  then have "(unat f + unat k) div 4096 * 4096 = unat f div 4096 * 4096"
    using nat_page_split(1) [of "unat f" "unat k"] unat_fbase [of f] fbase_aligned [of f]
    by (simp add: page_aligned_unat)
  with a show ?thesis
    by (simp add: fno_def unat_page_plus)
qed

lemma kaddr_page_plus: "page_aligned f \<Longrightarrow> unat k < 4096 \<Longrightarrow> kaddr (f + k) = kaddr f"
  by (simp add: kaddr_def fno_page_plus)

lemma kaddr_slot: "page_aligned f \<Longrightarrow> i < 1024 \<Longrightarrow> kaddr (slot f i) = kaddr f"
  unfolding slot_def by (rule kaddr_page_plus) (simp_all add: unat_of_nat32 del: of_nat_mult)

lemma kview_outside:
  assumes "kview s" and "\<And>x. fbase x = cr3 s \<or> fbase x = ptab (ram s) (cr3 s) \<Longrightarrow> m' x = ram s x"
  shows "kview (s\<lparr>ram := m'\<rparr>)" and "ptab m' (cr3 s) = ptab (ram s) (cr3 s)"
  using kmap_outside [OF _ assms(2)] assms(1) by (simp_all add: kview_def)

lemma kview_frame:
  assumes "kview s" "f \<noteq> cr3 s" "f \<noteq> ptab (ram s) (cr3 s)" "\<forall>x. fbase x \<noteq> f \<longrightarrow> m' x = ram s x"
  shows "kview (s\<lparr>ram := m'\<rparr>)" and "ptab m' (cr3 s) = ptab (ram s) (cr3 s)"
  by (rule kview_outside [OF assms(1)]; use assms(2-4) in force)+

text \<open>Copying a page: the closed form of the byte loop when source and target differ.\<close>

definition page_copy :: "mem \<Rightarrow> u32 \<Rightarrow> u32 \<Rightarrow> mem" where
  "page_copy m d src = (\<lambda>x. if fbase x = d then m (src + (x AND 0xFFF)) else m x)"

definition part_copy :: "mem \<Rightarrow> u32 \<Rightarrow> u32 \<Rightarrow> nat \<Rightarrow> mem" where
  "part_copy m d src k =
     (\<lambda>x. if fbase x = d \<and> unat (x AND 0xFFF) < k then m (src + (x AND 0xFFF)) else m x)"

lemma part_copy_full: "part_copy m d src 4096 = page_copy m d src"
  by (auto simp: part_copy_def page_copy_def unat_and_0xFFF)

lemma part_copy_0: "part_copy m d src 0 = m"
  by (simp add: part_copy_def)

lemma page_offset_of_nat:
  assumes "page_aligned f" and "k < 4096"
  shows "fbase (f + of_nat k) = f" and "(f + of_nat k) AND 0xFFF = of_nat k"
proof -
  have k: "unat (of_nat k :: u32) = k"
    using assms(2) by (simp add: unat_of_nat32)
  show "fbase (f + of_nat k) = f"
    using assms k by (simp add: fbase_page_plus)
  then show "(f + of_nat k) AND 0xFFF = of_nat k"
    using fbase_plus_offset [of "f + of_nat k"] by simp
qed

lemma part_copy_Suc:
  assumes "page_aligned d" "page_aligned src" "d \<noteq> src" "k < 4096"
  shows "(part_copy m d src k)(d + of_nat k := part_copy m d src k (src + of_nat k))
           = part_copy m d src (Suc k)"
proof
  fix x
  note o1 = page_offset_of_nat [OF assms(1,4)] and o2 = page_offset_of_nat [OF assms(2,4)]
  have k: "unat (of_nat k :: u32) = k"
    using assms(4) by (simp add: unat_of_nat32)
  have s: "part_copy m d src k (src + of_nat k) = m (src + of_nat k)"
    using assms(3) o2(1) by (simp add: part_copy_def)
  show "((part_copy m d src k)(d + of_nat k := part_copy m d src k (src + of_nat k))) x
      = part_copy m d src (Suc k) x"
  proof (cases "x = d + of_nat k")
    case True
    then show ?thesis
      using o1 k s by (simp add: part_copy_def)
  next
    case False
    have "\<not> (fbase x = d \<and> unat (x AND 0xFFF) = k)"
    proof
      assume "fbase x = d \<and> unat (x AND 0xFFF) = k"
      then have "x = d + of_nat k"
        using fbase_plus_offset [of x] k by (metis u32_eqI)
      with False show False ..
    qed
    with False show ?thesis
      by (auto simp: part_copy_def less_Suc_eq)
  qed
qed

lemma vmemcpy_part:
  assumes "kview s" "kaddr d" "kaddr src" "page_aligned d" "page_aligned src" "d \<noteq> src"
    and "d \<noteq> cr3 s" "d \<noteq> ptab (ram s) (cr3 s)"
  shows "k + n \<le> 4096 \<Longrightarrow>
    vmemcpy (d + of_nat k) (src + of_nat k) n (s\<lparr>ram := part_copy (ram s) d src k\<rparr>)
      = Some (s\<lparr>ram := part_copy (ram s) d src (k + n)\<rparr>)"
proof (induction n arbitrary: k)
  case 0
  then show ?case by simp
next
  case (Suc n)
  let ?s = "s\<lparr>ram := part_copy (ram s) d src k\<rparr>"
  have k: "unat (of_nat k :: u32) < 4096" "k < 4096"
    using Suc.prems by (simp_all add: unat_of_nat32)
  have v: "kview ?s"
    using assms(7,8) by (intro kview_outside [OF assms(1)]) (auto simp: part_copy_def)
  note kernel_access = kernel_access [OF v]
  have a: "kaddr (d + of_nat k)" "kaddr (src + of_nat k)"
    using assms k by (simp_all add: kaddr_page_plus)
  have "vmemcpy (d + of_nat (Suc k)) (src + of_nat (Suc k)) n
      (s\<lparr>ram := part_copy (ram s) d src (Suc k)\<rparr>)
        = Some (s\<lparr>ram := part_copy (ram s) d src (Suc k + n)\<rparr>)"
    using Suc.prems by (intro Suc.IH) simp
  then show ?case
    using part_copy_Suc [OF assms(4-6) k(2), of "ram s"]
    by (simp add: kernel_access [OF a(1)] kernel_access [OF a(2)] ac_simps)
qed

lemma vmemcpy_page:
  assumes "kview s" "kaddr d" "kaddr src" "page_aligned d" "page_aligned src" "d \<noteq> src"
    and "d \<noteq> cr3 s" "d \<noteq> ptab (ram s) (cr3 s)"
  shows "vmemcpy d src 4096 s = Some (s\<lparr>ram := page_copy (ram s) d src\<rparr>)"
  using vmemcpy_part [OF assms, of 0 4096] by (simp add: part_copy_0 part_copy_full)

lemma page_copy_slot [mem_simps]:
  assumes "page_aligned d" "page_aligned src" "i < 1024"
  shows "load32 (page_copy m d src) (slot d i) = load32 m (slot src i)"
proof -
  have *: "page_copy m d src (slot d i + k) = m (slot src i + k)" if "unat k < 4" for k
  proof -
    have ik: "unat (of_nat (4 * i) + k) = 4 * i + unat k"
      using assms(3) that by (subst unat_add_no_wrap) (simp_all add: unat_of_nat32 del: of_nat_mult)
    then have b: "unat (of_nat (4 * i) + k) < 4096"
      using assms(3) that by simp
    have "slot d i + k = d + of_nat (4 * i + unat k)" "slot src i + k = src + of_nat (4 * i + unat k)"
      by (simp_all add: slot_def)
    then show ?thesis
      using page_offset_of_nat [OF assms(1), of "4 * i + unat k"] b ik
      by (simp add: page_copy_def del: of_nat_add of_nat_mult)
  qed
  show ?thesis
    using *[of 0] *[of 1] *[of 2] *[of 3] by (simp add: load32_def)
qed

lemma page_copy_other [mem_simps]: "fbase x \<noteq> d \<Longrightarrow> page_copy m d src x = m x"
  by (simp add: page_copy_def)

lemma load32_page_other [mem_simps]:
  assumes "aligned4 a" and "\<And>x. fbase x = fbase a \<Longrightarrow> m' x = m x"
  shows "load32 m' a = load32 m a"
  using fbase_dword [OF assms(1)] assms(2) by (intro load32_cong) auto

lemma store32_other_page: "aligned4 a \<Longrightarrow> fbase x \<noteq> fbase a \<Longrightarrow> store32 m a v x = m x"
  using fbase_dword by (intro store32_outside) blast

end
