(* ===== verification/Paging.thy ===== *)
theory Paging
  imports Mmu
begin

section \<open>Per-process address spaces and copy-on-write (kernel/paging.c)\<close>

text \<open>
  Every operation of paging.c over the kernel memory of \<open>Mmu\<close>.  A result \<open>None\<close> is a page
  fault taken by the kernel itself (the machine panics); the C return value 0 stays a value.
  The CPUID probe of \<open>paging_harden_cpu\<close> is the processor's: its two answers are arguments.
\<close>

definition KERNEL_PD :: u32 where "KERNEL_PD = 0x9000"
definition KERNEL_PT :: u32 where "KERNEL_PT = 0xA000"
definition USER_PG_START :: nat where "USER_PG_START = 512"
definition USER_PG_END :: nat where "USER_PG_END = 768"

definition paging_switch :: "u32 \<Rightarrow> pg_state \<Rightarrow> pg_state" where
  "paging_switch c s = s\<lparr>cr3 := c\<rparr>"

definition paging_get_cr3 :: "pg_state \<Rightarrow> u32" where
  "paging_get_cr3 s = cr3 s"

definition paging_harden_cpu :: "u32 \<Rightarrow> u32 \<Rightarrow> pg_state \<Rightarrow> pg_state" where
  "paging_harden_cpu max_leaf leaf7_ebx s =
     (let s = s\<lparr>cr0 := cr0 s OR 0x00010000\<rparr>
      in if 7 \<le> max_leaf \<and> leaf7_ebx AND push_bit 7 1 \<noteq> 0
         then s\<lparr>cr4 := cr4 s OR push_bit 20 1, smep_on := True\<rparr> else s)"

definition paging_smep_enabled :: "pg_state \<Rightarrow> bool" where
  "paging_smep_enabled s = smep_on s"

definition paging_init :: "u32 \<Rightarrow> u32 \<Rightarrow> pg_state \<Rightarrow> pg_state option" where
  "paging_init max_leaf leaf7_ebx s = do {
     s \<leftarrow> for_range (\<lambda>i s.
            if USER_PG_START \<le> i \<and> i < USER_PG_END then kst32 (slot KERNEL_PT i) 0 s
            else kst32 (slot KERNEL_PT i) (of_nat i * 0x1000 OR 0x3) s) 0 1024 s;
     s \<leftarrow> kst32 (slot KERNEL_PD 0) (KERNEL_PT OR 0x7) s;
     let s = paging_switch KERNEL_PD s;
     let s = s\<lparr>cr0 := cr0 s OR 0x80000000\<rparr>;
     Some (paging_harden_cpu max_leaf leaf7_ebx s) }"

text \<open>\<open>map_user_page(pt, idx)\<close>; the Boolean is the C result.\<close>

definition map_user_page :: "u32 \<Rightarrow> nat \<Rightarrow> pg_state \<Rightarrow> (bool \<times> pg_state) option" where
  "map_user_page pt idx s = do {
     e \<leftarrow> kld32 (slot pt idx) s;
     if e AND PTE_P \<noteq> 0 then Some (True, s)
     else do {
       let (f, m) = frame_alloc (mm s);
       let s = s\<lparr>mm := m\<rparr>;
       if f = 0 then Some (False, s)
       else do {
         s \<leftarrow> kst32 (slot pt idx) (f OR (PTE_P OR PTE_W OR PTE_U)) s;
         Some (True, s\<lparr>mm := mm_ref_inc (unat (drop_bit 12 f)) (mm s)\<rparr>) } } }"

text \<open>The shared prologue of create and fork: two frames or none.\<close>

definition alloc_tables :: "pg_state \<Rightarrow> (u32 \<times> u32) option \<times> pg_state" where
  "alloc_tables s =
     (let (pd, m1) = frame_alloc (mm s);
          (pt, m2) = frame_alloc m1
      in if pd = 0 \<or> pt = 0
         then let m3 = (if pd \<noteq> 0 then frame_free pd m2 else m2);
                  m4 = (if pt \<noteq> 0 then frame_free pt m3 else m3)
              in (None, s\<lparr>mm := m4\<rparr>)
         else (Some (pd, pt), s\<lparr>mm := m2\<rparr>))"

definition paging_create_addr_space :: "pg_state \<Rightarrow> (u32 \<times> pg_state) option" where
  "paging_create_addr_space s =
     (case alloc_tables s of
        (None, s) \<Rightarrow> Some (0, s)
      | (Some (pd, pt), s) \<Rightarrow> do {
          s \<leftarrow> vmemcpy pt KERNEL_PT 0x1000 s;
          s \<leftarrow> for_range (\<lambda>i. kst32 (slot pt i) 0) USER_PG_START USER_PG_END s;
          s \<leftarrow> vmemcpy pd KERNEL_PD 0x1000 s;
          s \<leftarrow> kst32 (slot pd 0) (pt OR 0x7) s;
          Some (pd, s) })"

definition fork_page :: "u32 \<Rightarrow> u32 \<Rightarrow> nat \<Rightarrow> pg_state \<Rightarrow> pg_state option" where
  "fork_page ppt pt i s = do {
     e \<leftarrow> kld32 (slot ppt i) s;
     if e AND PTE_P = 0 then Some s
     else do {
       s \<leftarrow> kst32 (slot pt i) (e AND NOT PTE_W) s;
       e \<leftarrow> kld32 (slot ppt i) s;
       s \<leftarrow> kst32 (slot ppt i) (e AND NOT PTE_W) s;
       e \<leftarrow> kld32 (slot ppt i) s;
       Some (s\<lparr>mm := mm_ref_inc (unat (drop_bit 12 e)) (mm s)\<rparr>) } }"

definition paging_fork_addr_space :: "u32 \<Rightarrow> pg_state \<Rightarrow> (u32 \<times> pg_state) option" where
  "paging_fork_addr_space parent_cr3 s = do {
     ppde \<leftarrow> kld32 (slot parent_cr3 0) s;
     if ppde AND PTE_P = 0 then Some (0, s)
     else let ppt = ppde AND 0xFFFFF000
          in case alloc_tables s of
               (None, s) \<Rightarrow> Some (0, s)
             | (Some (pd, pt), s) \<Rightarrow> do {
                 s \<leftarrow> vmemcpy pd parent_cr3 0x1000 s;
                 s \<leftarrow> vmemcpy pt ppt 0x1000 s;
                 s \<leftarrow> for_range (fork_page ppt pt) USER_PG_START USER_PG_END s;
                 s \<leftarrow> kst32 (slot pd 0) (pt OR 0x7) s;
                 let s = (if parent_cr3 = paging_get_cr3 s then paging_switch (cr3 s) s else s);
                 Some (pd, s) } }"

definition destroy_table :: "u32 \<Rightarrow> pg_state \<Rightarrow> pg_state option" where
  "destroy_table pt s = do {
     s \<leftarrow> for_range (\<lambda>i s. do {
            e \<leftarrow> kld32 (slot pt i) s;
            Some (if e AND PTE_P \<noteq> 0
                  then s\<lparr>mm := mm_ref_dec (unat (drop_bit 12 e)) (mm s)\<rparr> else s) })
          USER_PG_START USER_PG_END s;
     Some (s\<lparr>mm := frame_free pt (mm s)\<rparr>) }"

definition paging_destroy_addr_space :: "u32 \<Rightarrow> pg_state \<Rightarrow> pg_state option" where
  "paging_destroy_addr_space c s =
     (if c = KERNEL_PD then Some s
      else do {
        s \<leftarrow> for_range (\<lambda>d s. do {
               pde \<leftarrow> kld32 (slot c d) s;
               if pde AND PTE_P = 0 then Some s
               else let pt = pde AND 0xFFFFF000
                    in if pt = KERNEL_PT \<or> pt = KERNEL_PD then Some s
                       else destroy_table pt s }) 0 1024 s;
        Some (s\<lparr>mm := frame_free c (mm s)\<rparr>) })"

text \<open>The mapping loop with its early \<open>return 0\<close>.\<close>

fun map_pages :: "u32 \<Rightarrow> nat list \<Rightarrow> pg_state \<Rightarrow> (bool \<times> pg_state) option" where
  "map_pages pt [] s = Some (True, s)"
| "map_pages pt (i # is) s = do {
     (ok, s) \<leftarrow> map_user_page pt i s;
     if \<not> ok then Some (False, s) else map_pages pt is s }"

definition paging_map_user_region :: "u32 \<Rightarrow> u32 \<Rightarrow> u32 \<Rightarrow> pg_state \<Rightarrow> (bool \<times> pg_state) option" where
  "paging_map_user_region c vaddr nbytes s =
     (if nbytes = 0 then Some (True, s)
      else do {
        pde \<leftarrow> kld32 (slot c (unat (drop_bit 22 vaddr AND 0x3FF))) s;
        if pde AND PTE_P = 0 then Some (False, s)
        else let pt = pde AND 0xFFFFF000;
                 start = unat (drop_bit 12 vaddr AND 0x3FF);
                 last = unat (drop_bit 12 (vaddr + nbytes - 1) AND 0x3FF)
             in map_pages pt [start ..< Suc last] s })"

definition paging_cow_fault :: "u32 \<Rightarrow> u32 \<Rightarrow> pg_state \<Rightarrow> (bool \<times> pg_state) option" where
  "paging_cow_fault cr2 err s =
     (if err AND PTE_U = 0 then Some (False, s)
      else if err AND PTE_W = 0 then Some (False, s)
      else do {
        let c = paging_get_cr3 s;
        pde \<leftarrow> kld32 (slot c (unat (drop_bit 22 cr2 AND 0x3FF))) s;
        if pde AND PTE_P = 0 then Some (False, s)
        else do {
          let pt = pde AND 0xFFFFF000;
          let i = unat (drop_bit 12 cr2 AND 0x3FF);
          pte \<leftarrow> kld32 (slot pt i) s;
          if pte AND PTE_P = 0 then Some (False, s)
          else if pte AND PTE_W \<noteq> 0 then Some (False, s)
          else do {
            let old = pte AND 0xFFFFF000;
            let (nf, m) = frame_alloc (mm s);
            let s = s\<lparr>mm := m\<rparr>;
            if nf = 0 then Some (False, s)
            else do {
              s \<leftarrow> vmemcpy nf old 0x1000 s;
              s \<leftarrow> kst32 (slot pt i) (nf OR (PTE_P OR PTE_W OR PTE_U)) s;
              let s = s\<lparr>mm := mm_ref_dec (unat (drop_bit 12 old)) (mm s)\<rparr>;
              let s = s\<lparr>mm := mm_ref_inc (unat (drop_bit 12 nf)) (mm s)\<rparr>;
              Some (True, s) } } } })"

subsection \<open>Well-formed address spaces\<close>

lemmas pg_consts = KERNEL_PD_def KERNEL_PT_def USER_PG_START_def USER_PG_END_def

text \<open>
  A directory the kernel can run on: it carries the identity map, its tables lie where the
  kernel can reach them, and the allocator will not hand them out.
\<close>

definition addr_space :: "mem \<Rightarrow> mm_state \<Rightarrow> u32 \<Rightarrow> bool" where
  "addr_space m M c \<longleftrightarrow> kmap m c \<and> load32 m c AND 7 = 7 \<and> ptab m c \<noteq> c \<and>
     kaddr c \<and> kaddr (ptab m c) \<and> fno c \<notin> free_set M \<and> fno (ptab m c) \<notin> free_set M"

definition kernel_ok :: "pg_state \<Rightarrow> bool" where
  "kernel_ok s \<longleftrightarrow> mm_ok (mm s) \<and> addr_space (ram s) (mm s) (cr3 s) \<and>
     addr_space (ram s) (mm s) KERNEL_PD \<and> ptab (ram s) KERNEL_PD = KERNEL_PT"

lemma kernel_okD:
  assumes "kernel_ok s"
  shows "mm_ok (mm s)" "kview s" "ptab (ram s) (cr3 s) \<noteq> cr3 s" "page_aligned (cr3 s)"
    "fno (cr3 s) \<notin> free_set (mm s)" "fno (ptab (ram s) (cr3 s)) \<notin> free_set (mm s)"
    "kaddr (cr3 s)" "kaddr (ptab (ram s) (cr3 s))"
    "fno KERNEL_PD \<notin> free_set (mm s)" "fno KERNEL_PT \<notin> free_set (mm s)"
    "kmap (ram s) KERNEL_PD" "ptab (ram s) KERNEL_PD = KERNEL_PT"
  using assms by (auto simp: kernel_ok_def addr_space_def kview_def kmap_def)

lemma kernel_tables [simp]:
  "page_aligned KERNEL_PD" "page_aligned KERNEL_PT" "kaddr KERNEL_PD" "kaddr KERNEL_PT"
  "KERNEL_PD \<noteq> KERNEL_PT" "KERNEL_PT \<noteq> KERNEL_PD"
  by (simp_all add: pg_consts page_aligned_def kaddr_def fno_def user_page_def)

lemma addr_space_outside:
  assumes "addr_space m M c" and "\<And>x. fbase x = c \<or> fbase x = ptab m c \<Longrightarrow> m' x = m x"
    and "free_set M' \<subseteq> free_set M"
  shows "addr_space m' M' c" and "ptab m' c = ptab m c"
proof -
  have k: "kmap m c" and c: "page_aligned c"
    using assms(1) by (auto simp: addr_space_def kmap_def)
  note p = kmap_outside [OF k assms(2)]
  have l: "load32 m' c = load32 m c"
    using c assms(2) by (intro load32_page_other) (auto simp: aligned4_page fbase_aligned)
  show "addr_space m' M' c"
    using assms(1,3) p l by (auto simp: addr_space_def)
  show "ptab m' c = ptab m c"
    using p by simp
qed

text \<open>The two frames of a new address space.\<close>

lemma alloc_tables_Some:
  assumes "mm_ok (mm s)" "alloc_tables s = (Some (pd, pt), s')"
  obtains M where "s' = s\<lparr>mm := M\<rparr>" "page_aligned pd" "page_aligned pt" "pd \<noteq> pt" "pd \<noteq> 0"
    "fno pd \<in> free_set (mm s)" "fno pt \<in> free_set (mm s)"
    "free_set M = free_set (mm s) - {fno pd, fno pt}" "mm_ok M" "frame_refs M = frame_refs (mm s)"
proof -
  obtain a m1 where a: "frame_alloc (mm s) = (a, m1)" by fastforce
  obtain b m2 where b: "frame_alloc m1 = (b, m2)" by fastforce
  from assms(2) a b have e: "a = pd" "b = pt" "pd \<noteq> 0" "pt \<noteq> 0" "s' = s\<lparr>mm := m2\<rparr>"
    by (auto simp: alloc_tables_def split: if_splits)
  note fa = frame_alloc_spec [OF assms(1) a [unfolded e] e(3)]
  note fb = frame_alloc_spec [OF fa(6) b [unfolded e] e(4)]
  show thesis
    by (rule that [OF e(5)]) (use fa fb e in auto)
qed

lemma alloc_tables_None:
  assumes "mm_ok (mm s)" "alloc_tables s = (None, s')"
  obtains M where "s' = s\<lparr>mm := M\<rparr>" "free_set M = free_set (mm s)" "mm_ok M"
    "frame_refs M = frame_refs (mm s)" "card (free_set (mm s)) < 2"
proof -
  obtain a m1 where a: "frame_alloc (mm s) = (a, m1)" by fastforce
  obtain b m2 where b: "frame_alloc m1 = (b, m2)" by fastforce
  have 1: "mm_ok m1" using fp.alloc_ok [OF assms(1) a] .
  have ab: "a = 0 \<or> b = 0"
    using assms(2) a b by (auto simp: alloc_tables_def split: if_splits)
  have "b = 0"
  proof (rule ccontr)
    assume "b \<noteq> 0"
    with b 1 have "free_set m1 \<noteq> {}" using fp.alloc_frame by blast
    moreover have "a = 0" using ab \<open>b \<noteq> 0\<close> by simp
    ultimately show False using fp.alloc_null [OF assms(1)] a by blast
  qed
  with b have m2: "m2 = m1" using fp.alloc_null [OF 1] by blast
  show thesis
  proof (cases "a = 0")
    case True
    then have "m1 = mm s" "free_set (mm s) = {}" using a fp.alloc_null [OF assms(1)] by blast+
    then show thesis
      using True assms a b m2 \<open>b = 0\<close> by (intro that [of "mm s"]) (auto simp: alloc_tables_def)
  next
    case False
    note r = fp.alloc_release [OF assms(1) a False]
    have "frame_refs (frame_free a m1) = frame_refs (mm s)"
      using frame_alloc_spec(5) [OF assms(1) a False] by (simp add: frame_free_def Let_def)
    moreover have "free_set (mm s) \<subseteq> {fno a}"
      using fp.alloc_null [OF 1] b \<open>b = 0\<close> frame_alloc_spec(4) [OF assms(1) a False] by auto
    then have "card (free_set (mm s)) < 2"
      using card_mono [of "{fno a}" "free_set (mm s)"] by simp
    ultimately show thesis
      by (intro that [of "frame_free a m1"])
        (use False assms(2) a b m2 \<open>b = 0\<close> r in \<open>auto simp: alloc_tables_def\<close>)
  qed
qed

text \<open>Filling slots of a page that is not one of the live tables.\<close>

lemma fill_slots:
  assumes v: "kview s" and f: "page_aligned f" "kaddr f" "f \<noteq> cr3 s" "f \<noteq> ptab (ram s) (cr3 s)"
    and ab: "a \<le> b" "b \<le> 1024"
  shows "\<exists>m. for_range (\<lambda>i. kst32 (slot f i) (w i)) a b s = Some (s\<lparr>ram := m\<rparr>) \<and>
    (\<forall>x. fbase x \<noteq> f \<longrightarrow> m x = ram s x) \<and>
    (\<forall>j<1024. load32 m (slot f j) = (if a \<le> j \<and> j < b then w j else load32 (ram s) (slot f j)))"
proof -
  let ?I = "\<lambda>i s'. \<exists>m. s' = s\<lparr>ram := m\<rparr> \<and> (\<forall>x. fbase x \<noteq> f \<longrightarrow> m x = ram s x) \<and>
    (\<forall>j<1024. load32 m (slot f j) = (if a \<le> j \<and> j < i then w j else load32 (ram s) (slot f j)))"
  have "\<exists>s'. for_range (\<lambda>i. kst32 (slot f i) (w i)) a b s = Some s' \<and> ?I b s'"
  proof (rule for_range_rule [where I = ?I])
    show "?I a s" by (rule exI [of _ "ram s"]) auto
  next
    fix i s' assume i: "a \<le> i" "i < b" and "?I i s'"
    then obtain m where m: "s' = s\<lparr>ram := m\<rparr>" "\<forall>x. fbase x \<noteq> f \<longrightarrow> m x = ram s x"
      "\<forall>j<1024. load32 m (slot f j) = (if a \<le> j \<and> j < i then w j else load32 (ram s) (slot f j))"
      by blast
    have i': "i < 1024" using i ab by simp
    have "kview s'"
      unfolding m(1) using m(2) f by (intro kview_outside [OF v]) auto
    then have st: "kst32 (slot f i) (w i) s' = Some (s\<lparr>ram := store32 m (slot f i) (w i)\<rparr>)"
      using f i' by (simp add: kernel_access kaddr_slot m(1))
    have "\<forall>x. fbase x \<noteq> f \<longrightarrow> store32 m (slot f i) (w i) x = ram s x"
      using m(2) f(1) i' by (simp add: store32_other_page aligned4_slot fbase_slot)
    moreover have "\<forall>j<1024. load32 (store32 m (slot f i) (w i)) (slot f j) =
        (if a \<le> j \<and> j < Suc i then w j else load32 (ram s) (slot f j))"
      using m(3) f(1) i i' by (auto simp: load_store_slot less_Suc_eq)
    ultimately show "\<exists>s''. kst32 (slot f i) (w i) s' = Some s'' \<and> ?I (Suc i) s''"
      using st by blast
  qed (use ab in simp)
  then show ?thesis by blast
qed

subsection \<open>Creating an address space\<close>

text \<open>A frame fit for a new table: free, and inside the kernel's identity map.\<close>

lemma fresh_frame:
  assumes "kernel_ok s" and "fno f \<in> free_set (mm s)"
  shows "f \<noteq> cr3 s" "f \<noteq> ptab (ram s) (cr3 s)" "f \<noteq> KERNEL_PD" "f \<noteq> KERNEL_PT"
  using kernel_okD [OF assms(1)] assms(2) by auto

lemma create_addr_space_steps:
  assumes ok: "kernel_ok s" and al: "alloc_tables s = (Some (pd, pt), s1)"
    and ka: "kaddr pd" "kaddr pt"
  obtains m M where "paging_create_addr_space s = Some (pd, s\<lparr>ram := m, mm := M\<rparr>)"
    "s1 = s\<lparr>mm := M\<rparr>" "free_set M = free_set (mm s) - {fno pd, fno pt}" "mm_ok M"
    "frame_refs M = frame_refs (mm s)"
    "page_aligned pd" "page_aligned pt" "pd \<noteq> pt" "fno pd \<in> free_set (mm s)" "fno pt \<in> free_set (mm s)"
    "\<forall>x. fbase x \<noteq> pd \<longrightarrow> fbase x \<noteq> pt \<longrightarrow> m x = ram s x"
    "\<forall>i<1024. load32 m (slot pt i) = (if user_page i then 0 else load32 (ram s) (slot KERNEL_PT i))"
    "\<forall>i<1024. load32 m (slot pd i) = (if i = 0 then pt OR 7 else load32 (ram s) (slot KERNEL_PD i))"
proof -
  note k = kernel_okD [OF ok]
  obtain M where M: "s1 = s\<lparr>mm := M\<rparr>" "page_aligned pd" "page_aligned pt" "pd \<noteq> pt" "pd \<noteq> 0"
    "fno pd \<in> free_set (mm s)" "fno pt \<in> free_set (mm s)"
    "free_set M = free_set (mm s) - {fno pd, fno pt}" "mm_ok M" "frame_refs M = frame_refs (mm s)"
    using alloc_tables_Some [OF k(1) al] .
  note d = fresh_frame [OF ok M(6)] and t = fresh_frame [OF ok M(7)]
  define s2 where "s2 = s1\<lparr>ram := page_copy (ram s) pt KERNEL_PT\<rparr>"
  have v1: "kview s1" using k(2) by (simp add: M(1) kview_def)
  have c1: "vmemcpy pt KERNEL_PT 4096 s1 = Some s2"
    using v1 ka M t by (subst vmemcpy_page) (auto simp: s2_def)
  have v2: "kview s2" and p2: "ptab (ram s2) (cr3 s2) = ptab (ram s) (cr3 s)"
    using kview_frame [OF v1, of pt "ram s2"] t M(1) by (simp_all add: s2_def page_copy_other)
  have "\<exists>m. for_range (\<lambda>i. kst32 (slot pt i) 0) 512 768 s2 = Some (s2\<lparr>ram := m\<rparr>) \<and>
    (\<forall>x. fbase x \<noteq> pt \<longrightarrow> m x = ram s2 x) \<and>
    (\<forall>j<1024. load32 m (slot pt j) = (if 512 \<le> j \<and> j < 768 then 0 else load32 (ram s2) (slot pt j)))"
    using v2 M(3) ka t p2 by (intro fill_slots) (auto simp: s2_def M(1))
  then obtain m3 where m3: "for_range (\<lambda>i. kst32 (slot pt i) 0) 512 768 s2 = Some (s2\<lparr>ram := m3\<rparr>)"
    "\<forall>x. fbase x \<noteq> pt \<longrightarrow> m3 x = ram s2 x"
    "\<forall>j<1024. load32 m3 (slot pt j) = (if 512 \<le> j \<and> j < 768 then 0 else load32 (ram s2) (slot pt j))"
    by blast
  define s3 where "s3 = s2\<lparr>ram := m3\<rparr>"
  have v3: "kview s3" and p3: "ptab (ram s3) (cr3 s3) = ptab (ram s) (cr3 s)"
    using kview_frame [OF v2, of pt m3] m3(2) t p2 by (simp_all add: s3_def s2_def M(1))
  define s4 where "s4 = s3\<lparr>ram := page_copy m3 pd KERNEL_PD\<rparr>"
  have c4: "vmemcpy pd KERNEL_PD 4096 s3 = Some s4"
    using v3 ka M d p3 by (subst vmemcpy_page) (auto simp: s4_def s3_def s2_def)
  have v4: "kview s4"
    using kview_frame [OF v3, of pd "ram s4"] d p3
    by (simp add: s4_def s3_def s2_def M(1) page_copy_other)
  define m where "m = store32 (page_copy m3 pd KERNEL_PD) (slot pd 0) (pt OR 7)"
  have c5: "kst32 (slot pd 0) (pt OR 7) s4 = Some (s\<lparr>ram := m, mm := M\<rparr>)"
    using v4 ka by (simp add: kernel_access m_def s4_def s3_def s2_def M(1))
  have run: "paging_create_addr_space s = Some (pd, s\<lparr>ram := m, mm := M\<rparr>)"
    using c1 m3(1) c4 c5
    by (simp add: paging_create_addr_space_def al pg_consts(3,4) s3_def)
  have frame: "m x = ram s x" if "fbase x \<noteq> pd" "fbase x \<noteq> pt" for x
    using that m3(2) M(2) by (simp add: m_def store32_other_page aligned4_page fbase_aligned
        page_copy_other s2_def)
  have pts: "load32 m (slot pt i) = (if user_page i then 0 else load32 (ram s) (slot KERNEL_PT i))"
    if "i < 1024" for i
  proof -
    have "load32 m (slot pt i) = load32 (page_copy m3 pd KERNEL_PD) (slot pt i)"
      unfolding m_def using that M by (subst load_store_slot) auto
    also have "\<dots> = load32 m3 (slot pt i)"
      using that M by (intro load32_page_other) (simp_all add: aligned4_slot fbase_slot page_copy_other)
    finally show ?thesis
      using that m3(3) M(3) by (simp add: s2_def page_copy_slot user_page_def)
  qed
  have pds: "load32 m (slot pd i) = (if i = 0 then pt OR 7 else load32 (ram s) (slot KERNEL_PD i))"
    if "i < 1024" for i
  proof -
    have "load32 m3 (slot KERNEL_PD i) = load32 (ram s) (slot KERNEL_PD i)"
      using that t m3(2)
      by (intro load32_page_other) (auto simp: aligned4_slot fbase_slot page_copy_other s2_def)
    then show ?thesis
      unfolding m_def using that M by (subst load_store_slot) (auto simp: page_copy_slot)
  qed
  show thesis
    by (rule that [OF run M(1,8,9,10,2,3,4,6,7)]) (use frame pts pds in blast)+
qed

subsection \<open>Translations of user addresses\<close>

text \<open>The page-table entry an address space has for page \<open>i\<close>.\<close>

definition uent :: "mem \<Rightarrow> u32 \<Rightarrow> nat \<Rightarrow> u32" where
  "uent m c i = load32 m (slot (ptab m c) i)"

lemma and7D: "(x :: u32) AND 7 = 7 \<Longrightarrow> x AND 1 \<noteq> 0 \<and> x AND 2 \<noteq> 0 \<and> x AND 4 \<noteq> 0"
proof -
  assume a: "x AND 7 = 7"
  have "x AND 1 = (x AND 7) AND 1" "x AND 2 = (x AND 7) AND 2" "x AND 4 = (x AND 7) AND 4"
    by (simp_all add: and.assoc)
  with a show ?thesis by simp
qed

lemma pte_allows_7: "x AND 7 = 7 \<Longrightarrow> pte_allows wp user w x"
  using and7D [of x] by (auto simp: pte_allows_def PTE_P_def PTE_W_def PTE_U_def)

lemma flags_7: "page_aligned f \<Longrightarrow> (f OR 7) AND 7 = 7" "page_aligned f \<Longrightarrow> fbase (f OR 7) = f"
  by (simp_all add: page_or_and fbase_page_or)

lemma walk_uent:
  assumes "addr_space m M c" and "fno va < 1024"
  shows "x86_walk m wp c user w va =
    (if pte_allows wp user w (uent m c (fno va))
     then Some (fbase (uent m c (fno va)) + (va AND 0xFFF)) else None)"
proof -
  have c: "fbase c = c" "load32 m c AND 7 = 7"
    using assms(1) by (auto simp: addr_space_def kmap_def fbase_aligned)
  have "ptab m c + 4 * (drop_bit 12 va AND 0x3FF) = slot (ptab m c) (fno va)"
    using kaddr_index [OF assms(2)] assms(2) pte_slot [of "drop_bit 12 va AND 0x3FF" "ptab m c"] by simp
  then show ?thesis
    using c kaddr_index(1) [OF assms(2)]
    by (simp add: x86_walk_def Let_def pte_allows_7 uent_def flip: ptab_def)
qed

lemma uent_kernel:
  "addr_space m M c \<Longrightarrow> i < 1024 \<Longrightarrow> \<not> user_page i \<Longrightarrow> uent m c i = of_nat i * 4096 OR 3"
  by (simp add: addr_space_def kmap_def uent_def)

text \<open>No user-mode access reaches a page outside the user window.\<close>

lemma user_confined:
  assumes "addr_space m M c" "fno va < 1024" "\<not> user_page (fno va)"
  shows "x86_walk m wp c True w va = None"
proof -
  have "\<not> pte_allows wp True w (of_nat (fno va) * 4096 OR 3)"
    using page_or_and [OF kmap_entry(1) [OF assms(2)], of 4 3]
    by (simp add: pte_allows_def PTE_U_def)
  then show ?thesis
    using assms by (simp add: walk_uent uent_kernel)
qed

text \<open>A space is untouched by writes to pages that are neither of its tables.\<close>

definition same_space :: "mem \<Rightarrow> mem \<Rightarrow> u32 \<Rightarrow> bool" where
  "same_space m m' c \<longleftrightarrow> ptab m' c = ptab m c \<and> load32 m' c = load32 m c \<and>
     (\<forall>i<1024. uent m' c i = uent m c i)"

lemma same_space_outside:
  assumes "addr_space m M c" and "\<And>x. fbase x = c \<or> fbase x = ptab m c \<Longrightarrow> m' x = m x"
  shows "same_space m m' c"
proof -
  have c: "page_aligned c"
    using assms(1) by (auto simp: addr_space_def kmap_def)
  have "load32 m' c = load32 m c"
    using c assms(2) by (intro load32_page_other) (auto simp: aligned4_page fbase_aligned)
  moreover have "load32 m' (slot (ptab m c) i) = load32 m (slot (ptab m c) i)" if "i < 1024" for i
    using that assms(2) by (intro load32_page_other) (auto simp: aligned4_slot fbase_slot)
  ultimately show ?thesis
    by (simp add: same_space_def uent_def ptab_def)
qed

text \<open>The frames a space maps in its user window, and spaces that own live frames only.\<close>

definition user_frames :: "mem \<Rightarrow> u32 \<Rightarrow> nat set" where
  "user_frames m c = (\<lambda>i. fno (uent m c i)) ` {i. user_page i \<and> uent m c i AND PTE_P \<noteq> 0}"

definition space_ok :: "mem \<Rightarrow> mm_state \<Rightarrow> u32 \<Rightarrow> bool" where
  "space_ok m M c \<longleftrightarrow> addr_space m M c \<and> user_frames m c \<inter> free_set M = {}"

lemma user_page_less: "user_page i \<Longrightarrow> i < 1024"
  by (simp add: user_page_def)

lemma user_frames_same: "same_space m m' c \<Longrightarrow> user_frames m' c = user_frames m c"
  by (auto simp: user_frames_def same_space_def user_page_less intro!: image_cong)

lemma space_ok_outside:
  assumes "space_ok m M c" and "\<And>x. fbase x = c \<or> fbase x = ptab m c \<Longrightarrow> m' x = m x"
    and "free_set M' \<subseteq> free_set M"
  shows "space_ok m' M' c"
proof -
  have a: "addr_space m M c" using assms(1) by (simp add: space_ok_def)
  show ?thesis
    using assms(1,3) addr_space_outside(1) [OF a assms(2,3)]
      user_frames_same [OF same_space_outside [OF a assms(2)]]
    by (auto simp: space_ok_def)
qed

text \<open>Free frames the kernel can address: below the user window.\<close>

definition low_frames :: "pg_state \<Rightarrow> nat set" where
  "low_frames s = free_set (mm s) \<inter> {..<512}"

lemma kaddr_low: "fno a < 512 \<Longrightarrow> kaddr a"
  by (simp add: kaddr_def user_page_def)

lemma alloc_tables_low:
  assumes "mm_ok (mm s)" and "2 \<le> card (low_frames s)"
  obtains pd pt s1 where "alloc_tables s = (Some (pd, pt), s1)" "kaddr pd" "kaddr pt"
proof -
  obtain a m1 where a: "frame_alloc (mm s) = (a, m1)" by fastforce
  obtain b m2 where b: "frame_alloc m1 = (b, m2)" by fastforce
  have fin: "finite (low_frames s)" by (simp add: low_frames_def)
  obtain x where x: "x \<in> low_frames s" using assms(2) by fastforce
  have a0: "a \<noteq> 0"
    using x a assms(1) fp.alloc_null by (metis IntD1 empty_iff low_frames_def)
  note fa = frame_alloc_spec [OF assms(1) a a0]
  have "card (low_frames s - {fno a}) \<noteq> 0"
    using assms(2) by (simp add: card_Diff_singleton_if)
  then obtain y where y: "y \<in> low_frames s - {fno a}"
    by (metis card.empty ex_in_conv)
  then have y': "y \<in> free_set m1" using fa(4) by (simp add: low_frames_def)
  have b0: "b \<noteq> 0"
    using y' b fa(6) fp.alloc_null by (metis empty_iff)
  note fb = frame_alloc_spec [OF fa(6) b b0]
  have "fno a < 512"
    using fa(3) x by (metis IntD1 IntD2 lessThan_iff low_frames_def order_le_less_trans)
  moreover have "fno b < 512"
    using fb(3) y y' by (metis DiffD1 IntD2 lessThan_iff low_frames_def order_le_less_trans)
  ultimately show thesis
    using a b a0 b0 by (intro that [of a b "s\<lparr>mm := m2\<rparr>"]) (auto simp: alloc_tables_def kaddr_low)
qed

subsection \<open>The kernel's own tables\<close>

text \<open>
  \<open>paging_init\<close> rewrites the live tables in place.  At every step the kernel keeps running
  on them, so the identity map is an invariant of the loop.
\<close>

lemma paging_init_loop:
  assumes v: "kmap (ram s) KERNEL_PD" "ptab (ram s) KERNEL_PD = KERNEL_PT" and c: "cr3 s = KERNEL_PD"
  obtains m where
    "for_range (\<lambda>i s. if USER_PG_START \<le> i \<and> i < USER_PG_END then kst32 (slot KERNEL_PT i) 0 s
            else kst32 (slot KERNEL_PT i) (of_nat i * 0x1000 OR 0x3) s) 0 1024 s
       = Some (s\<lparr>ram := m\<rparr>)"
    "kmap m KERNEL_PD" "ptab m KERNEL_PD = KERNEL_PT"
    "\<forall>j<1024. load32 m (slot KERNEL_PT j) = (if user_page j then 0 else of_nat j * 4096 OR 3)"
    "\<forall>x. fbase x \<noteq> KERNEL_PT \<longrightarrow> m x = ram s x"
proof -
  let ?f = "\<lambda>i s. if USER_PG_START \<le> i \<and> i < USER_PG_END then kst32 (slot KERNEL_PT i) 0 s
            else kst32 (slot KERNEL_PT i) (of_nat i * 0x1000 OR 0x3) s"
  let ?w = "\<lambda>j. if user_page j then 0 else of_nat j * 4096 OR 3 :: u32"
  let ?I = "\<lambda>i s'. \<exists>m. s' = s\<lparr>ram := m\<rparr> \<and> kmap m KERNEL_PD \<and> ptab m KERNEL_PD = KERNEL_PT \<and>
    (\<forall>j<1024. load32 m (slot KERNEL_PT j) = (if j < i then ?w j else load32 (ram s) (slot KERNEL_PT j))) \<and>
    (\<forall>x. fbase x \<noteq> KERNEL_PT \<longrightarrow> m x = ram s x)"
  have "\<exists>s'. for_range ?f 0 1024 s = Some s' \<and> ?I 1024 s'"
  proof (rule for_range_rule [where I = ?I])
    show "?I 0 s"
      by (rule exI [of _ "ram s"]) (use v in simp)
  next
    fix i s' assume i: "i < (1024 :: nat)" and "?I i s'"
    then obtain m where m: "s' = s\<lparr>ram := m\<rparr>" "kmap m KERNEL_PD" "ptab m KERNEL_PD = KERNEL_PT"
      "\<forall>j<1024. load32 m (slot KERNEL_PT j) = (if j < i then ?w j else load32 (ram s) (slot KERNEL_PT j))"
      "\<forall>x. fbase x \<noteq> KERNEL_PT \<longrightarrow> m x = ram s x"
      by blast
    let ?m = "store32 m (slot KERNEL_PT i) (?w i)"
    have "kview s'" using m(1,2) c by (simp add: kview_def)
    then have "?f i s' = Some (s\<lparr>ram := ?m\<rparr>)"
      using i by (auto simp: kernel_access kaddr_slot m(1) pg_consts(3,4) user_page_def)
    moreover have "kmap ?m KERNEL_PD" "ptab ?m KERNEL_PD = KERNEL_PT"
      using kmap_store_slot [OF m(2), of i "?w i"] m(3) i by auto
    moreover have "\<forall>j<1024. load32 ?m (slot KERNEL_PT j) =
        (if j < Suc i then ?w j else load32 (ram s) (slot KERNEL_PT j))"
      using m(4) i by (auto simp: load_store_slot less_Suc_eq)
    moreover have "\<forall>x. fbase x \<noteq> KERNEL_PT \<longrightarrow> ?m x = ram s x"
      using m(5) i by (simp add: store32_other_page aligned4_slot fbase_slot)
    ultimately show "\<exists>s''. ?f i s' = Some s'' \<and> ?I (Suc i) s''"
      by blast
  qed simp
  then show thesis
    using that by force
qed

definition boot_tables :: "pg_state \<Rightarrow> bool" where
  "boot_tables s \<longleftrightarrow> cr3 s = KERNEL_PD \<and> kmap (ram s) KERNEL_PD \<and> ptab (ram s) KERNEL_PD = KERNEL_PT \<and>
     mm_ok (mm s) \<and> fno KERNEL_PD \<notin> free_set (mm s) \<and> fno KERNEL_PT \<notin> free_set (mm s)"

lemma paging_init_spec:
  assumes "boot_tables s"
  obtains s' where "paging_init ml eb s = Some s'" "kernel_ok s'" "cr3 s' = KERNEL_PD" "wp_set s'"
    "mm s' = mm s" "\<forall>i. user_page i \<longrightarrow> uent (ram s') KERNEL_PD i = 0"
    "\<forall>x. fbase x \<noteq> KERNEL_PT \<and> fbase x \<noteq> KERNEL_PD \<longrightarrow> ram s' x = ram s x"
    "\<forall>d<1024. 0 < d \<longrightarrow> load32 (ram s') (slot KERNEL_PD d) = load32 (ram s) (slot KERNEL_PD d)"
    "smep_on s' \<longleftrightarrow> smep_on s \<or> 7 \<le> ml \<and> eb AND push_bit 7 1 \<noteq> 0"
proof -
  from assms have b: "kmap (ram s) KERNEL_PD" "ptab (ram s) KERNEL_PD = KERNEL_PT" "cr3 s = KERNEL_PD"
    "mm_ok (mm s)" "fno KERNEL_PD \<notin> free_set (mm s)" "fno KERNEL_PT \<notin> free_set (mm s)"
    by (simp_all add: boot_tables_def)
  from paging_init_loop [OF b(1-3)] obtain m where loop:
    "for_range (\<lambda>i s. if USER_PG_START \<le> i \<and> i < USER_PG_END then kst32 (slot KERNEL_PT i) 0 s
            else kst32 (slot KERNEL_PT i) (of_nat i * 0x1000 OR 0x3) s) 0 1024 s = Some (s\<lparr>ram := m\<rparr>)"
    and m: "kmap m KERNEL_PD" "ptab m KERNEL_PD = KERNEL_PT"
    "\<forall>j<1024. load32 m (slot KERNEL_PT j) = (if user_page j then 0 else of_nat j * 4096 OR 3)"
    "\<forall>x. fbase x \<noteq> KERNEL_PT \<longrightarrow> m x = ram s x"
    by blast
  let ?m = "store32 m KERNEL_PD (KERNEL_PT OR 7)"
  have st: "kst32 KERNEL_PD (KERNEL_PT OR 7) (s\<lparr>ram := m\<rparr>) = Some (s\<lparr>ram := ?m\<rparr>)"
    using m(1) b(3) by (simp add: kernel_access kview_def)
  define s' where "s' = paging_harden_cpu ml eb (s\<lparr>ram := ?m, cr3 := KERNEL_PD, cr0 := cr0 s OR 0x80000000\<rparr>)"
  have run: "paging_init ml eb s = Some s'"
    using loop st by (simp add: paging_init_def paging_switch_def s'_def)
  have f: "ram s' = ?m" "cr3 s' = KERNEL_PD" "mm s' = mm s"
    by (simp_all add: s'_def paging_harden_cpu_def Let_def)
  have wp: "wp_set s'"
    by (simp add: s'_def paging_harden_cpu_def wp_set_def Let_def bit.conj_disj_distrib2)
  have l: "load32 ?m KERNEL_PD = KERNEL_PT OR 7"
    by (rule load32_store32_same)
  then have p: "ptab ?m KERNEL_PD = KERNEL_PT"
    by (simp add: ptab_def flags_7)
  have e: "load32 ?m (slot KERNEL_PT j) = load32 m (slot KERNEL_PT j)" if "j < 1024" for j
    using that load_store_slot [of KERNEL_PD KERNEL_PT 0 j] by simp
  have k: "kmap ?m KERNEL_PD"
    using m(3) e and7D [OF flags_7(1) [of KERNEL_PT]] by (simp add: kmap_def l p PTE_P_def PTE_W_def)
  have "addr_space ?m (mm s) KERNEL_PD"
    using k l p b(5,6) flags_7(1) [of KERNEL_PT] by (simp add: addr_space_def)
  then have "kernel_ok s'"
    using b(4) p by (simp add: kernel_ok_def f)
  moreover have "\<forall>i. user_page i \<longrightarrow> uent (ram s') KERNEL_PD i = 0"
    using m(3) e by (simp add: f p uent_def user_page_less)
  moreover have "\<forall>x. fbase x \<noteq> KERNEL_PT \<and> fbase x \<noteq> KERNEL_PD \<longrightarrow> ram s' x = ram s x"
    using m(4) by (simp add: f store32_other_page aligned4_page fbase_aligned)
  moreover have "\<forall>d<1024. 0 < d \<longrightarrow> load32 (ram s') (slot KERNEL_PD d) = load32 (ram s) (slot KERNEL_PD d)"
  proof (intro allI impI)
    fix d :: nat assume d: "d < 1024" "0 < d"
    have "load32 ?m (slot KERNEL_PD d) = load32 m (slot KERNEL_PD d)"
      using d load_store_slot [of KERNEL_PD KERNEL_PD 0 d] by simp
    moreover have "load32 m (slot KERNEL_PD d) = load32 (ram s) (slot KERNEL_PD d)"
      using d m(4) by (intro load32_page_other) (auto simp: aligned4_slot fbase_slot)
    ultimately show "load32 (ram s') (slot KERNEL_PD d) = load32 (ram s) (slot KERNEL_PD d)"
      by (simp add: f)
  qed
  moreover have "smep_on s' \<longleftrightarrow> smep_on s \<or> 7 \<le> ml \<and> eb AND push_bit 7 1 \<noteq> 0"
    by (auto simp: s'_def paging_harden_cpu_def Let_def)
  ultimately show thesis
    using that run f wp by blast
qed

subsection \<open>Creating an address space: the result\<close>

lemma create_addr_space_spec:
  assumes ok: "kernel_ok s" and low: "2 \<le> card (low_frames s)"
  obtains c s' where "paging_create_addr_space s = Some (c, s')" "c \<noteq> 0" "kernel_ok s'"
    "addr_space (ram s') (mm s') c" "\<forall>i. user_page i \<longrightarrow> uent (ram s') c i = 0"
    "fno c \<in> free_set (mm s)" "fno (ptab (ram s') c) \<in> free_set (mm s)" "cr3 s' = cr3 s"
    "c \<noteq> ptab (ram s') c"
    "free_set (mm s') = free_set (mm s) - {fno c, fno (ptab (ram s') c)}"
    "frame_refs (mm s') = frame_refs (mm s)"
    "\<forall>x. fbase x \<noteq> c \<longrightarrow> fbase x \<noteq> ptab (ram s') c \<longrightarrow> ram s' x = ram s x"
    "\<forall>d<1024. 0 < d \<longrightarrow> load32 (ram s') (slot c d) = load32 (ram s) (slot KERNEL_PD d)"
proof -
  note k = kernel_okD [OF ok]
  obtain pd pt s1 where al: "alloc_tables s = (Some (pd, pt), s1)" and ka: "kaddr pd" "kaddr pt"
    using alloc_tables_low [OF k(1) low] .
  obtain m M where run: "paging_create_addr_space s = Some (pd, s\<lparr>ram := m, mm := M\<rparr>)"
    and M: "free_set M = free_set (mm s) - {fno pd, fno pt}" "mm_ok M"
      "frame_refs M = frame_refs (mm s)"
    and f: "page_aligned pd" "page_aligned pt" "pd \<noteq> pt" "fno pd \<in> free_set (mm s)"
      "fno pt \<in> free_set (mm s)"
    and m: "\<forall>x. fbase x \<noteq> pd \<longrightarrow> fbase x \<noteq> pt \<longrightarrow> m x = ram s x"
      "\<forall>i<1024. load32 m (slot pt i) = (if user_page i then 0 else load32 (ram s) (slot KERNEL_PT i))"
      "\<forall>i<1024. load32 m (slot pd i) = (if i = 0 then pt OR 7 else load32 (ram s) (slot KERNEL_PD i))"
    by (rule create_addr_space_steps [OF ok al ka]) (rule that)
  let ?s = "s\<lparr>ram := m, mm := M\<rparr>"
  have l: "load32 m pd = pt OR 7" using m(3) by (metis slot_0 zero_less_numeral)
  then have p: "ptab m pd = pt" using f(2) by (simp add: ptab_def flags_7)
  have "load32 (ram s) (slot KERNEL_PT i) = of_nat i * 4096 OR 3" if "i < 1024" "\<not> user_page i" for i
    using k(11,12) that by (simp add: kmap_def)
  then have "kmap m pd"
    using f m(2) l p and7D [OF flags_7(1) [OF f(2)]] by (simp add: kmap_def PTE_P_def PTE_W_def)
  then have A: "addr_space m M pd"
    using l p f ka M by (auto simp: addr_space_def flags_7)
  have keep: "addr_space m M c" "ptab m c = ptab (ram s) c" if "addr_space (ram s) (mm s) c" for c
  proof -
    have "c \<noteq> pd" "c \<noteq> pt" "ptab (ram s) c \<noteq> pd" "ptab (ram s) c \<noteq> pt"
      using that f by (auto simp: addr_space_def)
    then have eq: "m x = ram s x" if "fbase x = c \<or> fbase x = ptab (ram s) c" for x
      using that m(1) by metis
    show "addr_space m M c" "ptab m c = ptab (ram s) c"
      using addr_space_outside [OF that eq] M(1) by auto
  qed
  have K: "kernel_ok ?s"
    using ok keep M by (simp add: kernel_ok_def)
  have nz: "pd \<noteq> 0"
    using f(4) k(1) by (auto simp: mm_ok_def fno_def)
  have U: "\<forall>i. user_page i \<longrightarrow> uent m pd i = 0"
    using m(2) by (simp add: uent_def p user_page_less)
  show thesis
  proof (rule that [of pd ?s])
    show "paging_create_addr_space s = Some (pd, ?s)" by (rule run)
    show "\<forall>x. fbase x \<noteq> pd \<longrightarrow> fbase x \<noteq> ptab (ram ?s) pd \<longrightarrow> ram ?s x = ram s x"
      using m(1) p by simp
    show "\<forall>d<1024. 0 < d \<longrightarrow> load32 (ram ?s) (slot pd d) = load32 (ram s) (slot KERNEL_PD d)"
      using m(3) by simp
  qed (use K nz U A f M p in simp_all)
qed

subsection \<open>Mapping user pages\<close>

text \<open>The current space, when the loader maps pages into it.\<close>

definition proc_ok :: "pg_state \<Rightarrow> bool" where
  "proc_ok s \<longleftrightarrow> kernel_ok s \<and> cr3 s \<noteq> KERNEL_PD \<and> ptab (ram s) (cr3 s) \<noteq> KERNEL_PT \<and>
     cr3 s \<noteq> KERNEL_PT \<and> ptab (ram s) (cr3 s) \<noteq> KERNEL_PD \<and> space_ok (ram s) (mm s) (cr3 s)"

text \<open>Writing one user entry of the current space.\<close>

lemma uent_store:
  assumes "addr_space m M c" "i < 1024" "j < 1024"
    and "\<not> user_page i \<Longrightarrow> v = of_nat i * 4096 OR 3"
  shows "uent (store32 m (slot (ptab m c) i) v) c j = (if j = i then v else uent m c j)"
    and "addr_space (store32 m (slot (ptab m c) i) v) M c"
proof -
  have a: "kmap m c" "ptab m c \<noteq> c" "page_aligned c"
    using assms(1) by (auto simp: addr_space_def kmap_def)
  note k = kmap_store_slot [OF a(1,2) assms(2,4)]
  have l: "load32 (store32 m (slot (ptab m c) i) v) c = load32 m c"
    using load_store_slot [OF page_aligned_ptab a(3) assms(2), of 0] a(2) by simp
  show "uent (store32 m (slot (ptab m c) i) v) c j = (if j = i then v else uent m c j)"
    using assms(2,3) k(2) by (auto simp: uent_def load_store_slot)
  show "addr_space (store32 m (slot (ptab m c) i) v) M c"
    using assms(1) k l by (simp add: addr_space_def)
qed

lemma addr_space_mono: "addr_space m M c \<Longrightarrow> free_set M' \<subseteq> free_set M \<Longrightarrow> addr_space m M' c"
  by (auto simp: addr_space_def)

lemma store_user_entry:
  assumes p: "proc_ok s" and i: "user_page i" and M: "mm_ok M" "free_set M \<subseteq> free_set (mm s)"
    and v: "v AND PTE_P \<noteq> 0 \<Longrightarrow> fno v \<notin> free_set M"
  shows "kst32 (slot (ptab (ram s) (cr3 s)) i) v s =
           Some (s\<lparr>ram := store32 (ram s) (slot (ptab (ram s) (cr3 s)) i) v\<rparr>)"
    and "proc_ok (s\<lparr>ram := store32 (ram s) (slot (ptab (ram s) (cr3 s)) i) v, mm := M\<rparr>)"
    and "ptab (store32 (ram s) (slot (ptab (ram s) (cr3 s)) i) v) (cr3 s) = ptab (ram s) (cr3 s)"
proof -
  let ?pt = "ptab (ram s) (cr3 s)"
  let ?m = "store32 (ram s) (slot ?pt i) v"
  have ok: "kernel_ok s" and sp: "space_ok (ram s) (mm s) (cr3 s)"
    and ne: "cr3 s \<noteq> KERNEL_PD" "?pt \<noteq> KERNEL_PT" "cr3 s \<noteq> KERNEL_PT" "?pt \<noteq> KERNEL_PD"
    using p by (simp_all add: proc_ok_def)
  note k = kernel_okD [OF ok]
  have i': "i < 1024" using i by (rule user_page_less)
  have A: "addr_space (ram s) (mm s) (cr3 s)" "addr_space (ram s) (mm s) KERNEL_PD"
    using ok by (simp_all add: kernel_ok_def)
  show "kst32 (slot ?pt i) v s = Some (s\<lparr>ram := ?m\<rparr>)"
    using k i' by (simp add: kernel_access kaddr_slot)
  show pt: "ptab ?m (cr3 s) = ?pt"
    using kmap_store_slot(2) [of "ram s" "cr3 s" i v] A(1) i i' by (simp add: addr_space_def)
  have A1: "addr_space ?m M (cr3 s)"
    using uent_store(2) [OF A(1) i' i', of v] i M(2) by (auto intro: addr_space_mono)
  have out: "?m x = ram s x" if "fbase x = KERNEL_PD \<or> fbase x = ptab (ram s) KERNEL_PD" for x
    using that i' ne k(12)
    by (intro store32_other_page) (auto simp: aligned4_slot fbase_slot)
  have A2: "addr_space ?m M KERNEL_PD" "ptab ?m KERNEL_PD = KERNEL_PT"
    using addr_space_outside [OF A(2) out M(2)] k(12) by simp_all
  have u: "uent ?m (cr3 s) j = (if j = i then v else uent (ram s) (cr3 s) j)" if "user_page j" for j
    using uent_store(1) [OF A(1) i' user_page_less [OF that], of v] i by simp
  have "user_frames ?m (cr3 s) \<inter> free_set M = {}"
  proof -
    have "fno (uent ?m (cr3 s) j) \<notin> free_set M" if "user_page j" "uent ?m (cr3 s) j AND PTE_P \<noteq> 0" for j
    proof (cases "j = i")
      case False
      then have "fno (uent (ram s) (cr3 s) j) \<in> user_frames (ram s) (cr3 s)"
        using that u by (simp add: user_frames_def)
      then show ?thesis using False sp M(2) u [OF that(1)] by (auto simp: space_ok_def)
    qed (use that u v in simp)
    then show ?thesis by (auto simp: user_frames_def)
  qed
  then show "proc_ok (s\<lparr>ram := ?m, mm := M\<rparr>)"
    using A1 A2 M(1) ne pt by (simp add: proc_ok_def kernel_ok_def space_ok_def)
qed

lemma map_user_page_cases:
  assumes p: "proc_ok s" and i: "user_page i"
  obtains (mapped) "uent (ram s) (cr3 s) i AND PTE_P \<noteq> 0"
      "map_user_page (ptab (ram s) (cr3 s)) i s = Some (True, s)"
    | (nomem) "uent (ram s) (cr3 s) i AND PTE_P = 0" "free_set (mm s) = {}"
      "map_user_page (ptab (ram s) (cr3 s)) i s = Some (False, s)"
    | (fresh) f s' where "uent (ram s) (cr3 s) i AND PTE_P = 0"
      "\<forall>j\<in>free_set (mm s). fno f \<le> j"
      "map_user_page (ptab (ram s) (cr3 s)) i s = Some (True, s')"
      "page_aligned f" "fno f \<in> free_set (mm s)" "free_set (mm s') = free_set (mm s) - {fno f}"
      "proc_ok s'" "cr3 s' = cr3 s" "ptab (ram s') (cr3 s) = ptab (ram s) (cr3 s)"
      "\<forall>j<1024. uent (ram s') (cr3 s) j = (if j = i then f OR 7 else uent (ram s) (cr3 s) j)"
      "\<forall>x. fbase x \<noteq> ptab (ram s) (cr3 s) \<longrightarrow> ram s' x = ram s x"
      "frame_refs (mm s') = frame_refs (mm_ref_inc (fno f) (mm s))"
proof -
  let ?pt = "ptab (ram s) (cr3 s)"
  have ok: "kernel_ok s" and A: "addr_space (ram s) (mm s) (cr3 s)"
    using p by (simp_all add: proc_ok_def kernel_ok_def)
  note k = kernel_okD [OF ok]
  have i': "i < 1024" using i by (rule user_page_less)
  have ld: "kld32 (slot ?pt i) s = Some (uent (ram s) (cr3 s) i)"
    using k i' by (simp add: kernel_access kaddr_slot uent_def)
  show thesis
  proof (cases "uent (ram s) (cr3 s) i AND PTE_P = 0")
    case False
    then show thesis using ld by (intro mapped) (simp_all add: map_user_page_def)
  next
    case True
    obtain f M where al: "frame_alloc (mm s) = (f, M)" by fastforce
    show thesis
    proof (cases "f = 0")
      case f0: True
      with al k(1) have "M = mm s" "free_set (mm s) = {}"
        using fp.alloc_null by blast+
      with f0 True al ld show thesis by (intro nomem) (simp_all add: map_user_page_def)
    next
      case False
      note fa = frame_alloc_spec [OF k(1) al False]
      let ?N = "mm_ref_inc (fno f) M" and ?m = "store32 (ram s) (slot ?pt i) (f OR 7)"
      have b: "fno f < FRAME_COUNT" using fa(2) by (simp add: free_set_def)
      note inc = mm_ref_inc_spec [OF fa(6) b]
      have v: "fno (f OR 7) = fno f"
        using flags_7(2) [OF fa(1)] by (metis fbase_plus_offset fno_page_plus mod_less_divisor
            page_aligned_fbase unat_and_0xFFF zero_less_numeral)
      have sub: "free_set ?N \<subseteq> free_set (mm s)" "free_set ?N = free_set (mm s) - {fno f}"
        using inc(1) fa(4) by auto
      note st = store_user_entry [OF p i inc(2) sub(1), of "f OR 7"]
      have run: "map_user_page ?pt i s = Some (True, s\<lparr>ram := ?m, mm := ?N\<rparr>)"
      proof -
        have "kview (s\<lparr>mm := M\<rparr>)" using k(2) by (simp add: kview_def)
        then have "kst32 (slot ?pt i) (f OR 7) (s\<lparr>mm := M\<rparr>) = Some (s\<lparr>mm := M, ram := ?m\<rparr>)"
          using k(8) i' by (simp add: kernel_access kaddr_slot)
        then show ?thesis
          using True False al ld
          by (simp add: map_user_page_def PTE_P_def PTE_W_def PTE_U_def unat_shr12)
      qed
      have "proc_ok (s\<lparr>ram := ?m, mm := ?N\<rparr>)" "ptab ?m (cr3 s) = ?pt"
        using st(2,3) v sub by auto
      moreover have "\<forall>j<1024. uent ?m (cr3 s) j = (if j = i then f OR 7 else uent (ram s) (cr3 s) j)"
        using uent_store(1) [OF A i'] i by auto
      moreover have "\<forall>x. fbase x \<noteq> ?pt \<longrightarrow> ?m x = ram s x"
        using i' by (simp add: store32_other_page aligned4_slot fbase_slot)
      moreover have "frame_refs ?N = frame_refs (mm_ref_inc (fno f) (mm s))"
        using fa(5) by (simp add: mm_ref_inc_def)
      ultimately show thesis
        using True run fa(1-3) sub(2)
        by (intro fresh [of f "s\<lparr>ram := ?m, mm := ?N\<rparr>"]) auto
    qed
  qed
qed

subsection \<open>Mapping a region\<close>

text \<open>
  The region loop as its caller sees it: what it has mapped so far, with every other page of
  the space and everything outside the live page table left as it was.  \<open>uentP s i\<close>: page
  \<open>i\<close> is present.
\<close>

definition uentP :: "pg_state \<Rightarrow> nat \<Rightarrow> bool" where
  "uentP s i \<longleftrightarrow> uent (ram s) (cr3 s) i AND PTE_P \<noteq> 0"

definition extends :: "pg_state \<Rightarrow> pg_state \<Rightarrow> nat set \<Rightarrow> bool" where
  "extends s s' I \<longleftrightarrow> proc_ok s' \<and> cr3 s' = cr3 s \<and> ptab (ram s') (cr3 s) = ptab (ram s) (cr3 s) \<and>
     free_set (mm s') \<subseteq> free_set (mm s) \<and>
     (\<forall>x. fbase x \<noteq> ptab (ram s) (cr3 s) \<longrightarrow> ram s' x = ram s x) \<and>
     (\<forall>j<1024. uent (ram s') (cr3 s) j = uent (ram s) (cr3 s) j \<or>
        j \<in> I \<and> \<not> uentP s j \<and> (\<exists>f. page_aligned f \<and> fno f \<in> free_set (mm s) \<and> uent (ram s') (cr3 s) j = f OR 7))"

lemma page_or7_present: "page_aligned f \<Longrightarrow> (f OR 7) AND PTE_P \<noteq> 0"
  using and7D [OF flags_7(1)] by (simp add: PTE_P_def)

lemma extends_refl: "proc_ok s \<Longrightarrow> extends s s I"
  by (simp add: extends_def)

lemma extends_trans:
  assumes "extends s t I" "extends t u J"
  shows "extends s u (I \<union> J)"
  unfolding extends_def
proof (intro conjI allI impI)
  fix j :: nat assume j: "j < 1024"
  consider "uent (ram t) (cr3 s) j = uent (ram s) (cr3 s) j"
    | "j \<in> I" "\<not> uentP s j" "\<exists>f. page_aligned f \<and> fno f \<in> free_set (mm s) \<and> uent (ram t) (cr3 s) j = f OR 7"
    using assms(1) j by (auto simp: extends_def)
  then show "uent (ram u) (cr3 s) j = uent (ram s) (cr3 s) j \<or>
      j \<in> I \<union> J \<and> \<not> uentP s j \<and> (\<exists>f. page_aligned f \<and> fno f \<in> free_set (mm s) \<and> uent (ram u) (cr3 s) j = f OR 7)"
  proof cases
    case 1
    then show ?thesis
    proof (cases "uent (ram u) (cr3 s) j = uent (ram t) (cr3 s) j")
      case False
      then obtain f where "j \<in> J" "\<not> uentP t j" "page_aligned f" "fno f \<in> free_set (mm t)"
        "uent (ram u) (cr3 s) j = f OR 7"
        using assms j by (auto simp: extends_def)
      moreover have "free_set (mm t) \<subseteq> free_set (mm s)" "uentP t j = uentP s j"
        using assms(1) 1 by (auto simp: extends_def uentP_def)
      ultimately show ?thesis by auto
    qed (use 1 in simp)
  next
    case 2
    then have "uentP t j"
      using assms(1) page_or7_present by (auto simp: uentP_def extends_def)
    then have "uent (ram u) (cr3 s) j = uent (ram t) (cr3 s) j"
      using assms j by (auto simp: extends_def)
    with 2 show ?thesis by auto
  qed
qed (use assms in \<open>auto simp: extends_def\<close>)

lemma map_user_page_extends:
  assumes "proc_ok s" "user_page i" "map_user_page (ptab (ram s) (cr3 s)) i s = Some (r, s')"
  shows "extends s s' {i}" and "r \<Longrightarrow> uentP s' i" and "\<not> r \<Longrightarrow> free_set (mm s') = {}"
    and "r \<or> free_set (mm s) = {}"
proof -
  have "extends s s' {i} \<and> (r \<longrightarrow> uentP s' i) \<and> (\<not> r \<longrightarrow> free_set (mm s') = {} \<and> free_set (mm s) = {})"
  proof (rule map_user_page_cases [OF assms(1,2)], goal_cases)
    case 1
    then show ?case using assms extends_refl by (simp add: uentP_def)
  next
    case 2
    then show ?case using assms extends_refl by simp
  next
    case (3 f t)
    have r: "r" "s' = t" using assms(3) 3(3) by simp_all
    have "uentP t i"
      using 3(8,10) page_or7_present [OF 3(4)] user_page_less [OF assms(2)] by (simp add: uentP_def)
    moreover have "extends s t {i}"
      unfolding extends_def uentP_def using 3 by auto
    ultimately show ?case using r by simp
  qed
  then show "extends s s' {i}" "r \<Longrightarrow> uentP s' i" "\<not> r \<Longrightarrow> free_set (mm s') = {}"
    "r \<or> free_set (mm s) = {}" by auto
qed

lemma extends_present: "extends s s' I \<Longrightarrow> uentP s i \<Longrightarrow> i < 1024 \<Longrightarrow> uentP s' i"
  by (auto simp: extends_def uentP_def)

lemma map_pages_spec:
  assumes "proc_ok s" "\<forall>i\<in>set is. user_page i"
  shows "\<exists>r s'. map_pages (ptab (ram s) (cr3 s)) is s = Some (r, s') \<and> extends s s' (set is) \<and>
    (r \<longrightarrow> (\<forall>i\<in>set is. uentP s' i)) \<and> (\<not> r \<longrightarrow> free_set (mm s') = {})"
  using assms
proof (induction "is" arbitrary: s)
  case Nil
  then show ?case using extends_refl by fastforce
next
  case (Cons i js)
  have i: "user_page i" using Cons.prems by simp
  obtain r t where mt: "map_user_page (ptab (ram s) (cr3 s)) i s = Some (r, t)"
    by (rule map_user_page_cases [OF Cons.prems(1) i]) auto
  note m = map_user_page_extends [OF Cons.prems(1) i mt]
  show ?case
  proof (cases r)
    case False
    have "extends s t (insert i (set js))"
      using extends_trans [OF m(1) extends_refl, of "set js"] m(1) by (simp add: extends_def)
    then show ?thesis using False mt m by (intro exI [of _ False] exI [of _ t]) (simp add: insert_commute)
  next
    case True
    have t: "proc_ok t" "ptab (ram t) (cr3 t) = ptab (ram s) (cr3 s)"
      using m(1) by (simp_all add: extends_def)
    from Cons.IH [OF t(1)] Cons.prems(2) t(2) obtain r' u where u:
      "map_pages (ptab (ram s) (cr3 s)) js t = Some (r', u)" "extends t u (set js)"
      "r' \<longrightarrow> (\<forall>i\<in>set js. uentP u i)" "\<not> r' \<longrightarrow> free_set (mm u) = {}" by auto
    have "uentP u i"
      using extends_present [OF u(2) m(2) [OF True] user_page_less [OF i]] .
    moreover have "extends s u (insert i (set js))"
      using extends_trans [OF m(1) u(2)] by simp
    ultimately show ?thesis using mt u True by auto
  qed
qed

text \<open>A non-empty byte range of the user window: the pages from its first to its last byte.\<close>

lemma user_range_pages:
  fixes v n :: u32
  assumes "512 \<le> fno v" "n \<noteq> 0" "unat v + unat n \<le> 768 * 4096"
  shows "unat (drop_bit 12 v AND 0x3FF) = fno v" "unat (drop_bit 22 v AND 0x3FF) = 0"
    "unat (drop_bit 12 (v + n - 1) AND 0x3FF) = (unat v + unat n - 1) div 4096"
    "fno v \<le> (unat v + unat n - 1) div 4096" "(unat v + unat n - 1) div 4096 < 768"
proof -
  have n: "0 < unat n" using assms(2) by (simp add: unat_gt_0)
  have v: "unat v < 768 * 4096" using n assms(3) by simp
  then have f: "fno v < 1024" by (simp add: fno_def)
  show "unat (drop_bit 12 v AND 0x3FF) = fno v" by (rule kaddr_index(2) [OF f])
  show "unat (drop_bit 22 v AND 0x3FF) = 0" using kaddr_index(1) [OF f] by simp
  have s: "unat (v + n) = unat v + unat n"
    using assms(3) by (intro unat_add_no_wrap) simp
  have e: "unat (v + n - 1) = unat v + unat n - 1"
    using s n by (subst unat_minus_one) (auto simp flip: unat_0_iff)
  show l: "(unat v + unat n - 1) div 4096 < 768"
    using n assms(3) by (simp add: less_mult_imp_div_less)
  then have "fno (v + n - 1) < 1024" by (simp add: fno_def e)
  from kaddr_index(2) [OF this] show "unat (drop_bit 12 (v + n - 1) AND 0x3FF) = (unat v + unat n - 1) div 4096"
    by (simp add: fno_def e)
  show "fno v \<le> (unat v + unat n - 1) div 4096"
    unfolding fno_def using n by (intro div_le_mono) simp
qed

definition region_pages :: "u32 \<Rightarrow> u32 \<Rightarrow> nat set" where
  "region_pages v n = {fno v ..< Suc ((unat v + unat n - 1) div 4096)}"

lemma map_user_region_run:
  assumes p: "proc_ok s" and v: "512 \<le> fno v" "n \<noteq> 0" "unat v + unat n \<le> 768 * 4096"
  shows "paging_map_user_region (cr3 s) v n s =
      map_pages (ptab (ram s) (cr3 s)) [fno v ..< Suc ((unat v + unat n - 1) div 4096)] s"
    and "\<forall>i\<in>set [fno v ..< Suc ((unat v + unat n - 1) div 4096)]. user_page i"
proof -
  have ok: "kernel_ok s" and A: "addr_space (ram s) (mm s) (cr3 s)"
    using p by (simp_all add: proc_ok_def kernel_ok_def)
  note k = kernel_okD [OF ok]
  note r = user_range_pages [OF v]
  have ld: "kld32 (slot (cr3 s) 0) s = Some (load32 (ram s) (cr3 s))"
    using k by (simp add: kernel_access)
  have pr: "load32 (ram s) (cr3 s) AND PTE_P \<noteq> 0"
    using A and7D [of "load32 (ram s) (cr3 s)"] by (simp add: addr_space_def PTE_P_def)
  show "\<forall>i\<in>set [fno v ..< Suc ((unat v + unat n - 1) div 4096)]. user_page i"
    using r v by (auto simp: user_page_def)
  show "paging_map_user_region (cr3 s) v n s =
      map_pages (ptab (ram s) (cr3 s)) [fno v ..< Suc ((unat v + unat n - 1) div 4096)] s"
    using ld pr v(2) unfolding paging_map_user_region_def r(1-3)
    by (simp add: Let_def ptab_def fbase_def del: upt_Suc)
qed

lemma map_user_region_spec:
  assumes "proc_ok s" and "512 \<le> fno v" "n \<noteq> 0" "unat v + unat n \<le> 768 * 4096"
  obtains r s' where "paging_map_user_region (cr3 s) v n s = Some (r, s')" "extends s s' (region_pages v n)"
    "r \<longrightarrow> (\<forall>i\<in>region_pages v n. uentP s' i)" "\<not> r \<longrightarrow> free_set (mm s') = {}"
  using map_pages_spec [OF assms(1) map_user_region_run(2) [OF assms]] that
  by (auto simp: map_user_region_run(1) [OF assms] region_pages_def simp del: upt_Suc)

subsection \<open>Copy-on-write\<close>

text \<open>What a user-mode load sees at \<open>va\<close>; user-mode stores translate or fault.\<close>

definition user_byte :: "pg_state \<Rightarrow> u32 \<Rightarrow> u32 \<Rightarrow> u8 option" where
  "user_byte s c va = map_option (ram s) (x86_walk (ram s) (wp_set s) c True False va)"

definition user_writable :: "pg_state \<Rightarrow> u32 \<Rightarrow> u32 \<Rightarrow> bool" where
  "user_writable s c va \<longleftrightarrow> x86_walk (ram s) (wp_set s) c True True va \<noteq> None"

lemma user_byte_walk:
  assumes "addr_space (ram s) M c" "fno va < 1024"
  shows "user_byte s c va = (if uent (ram s) c (fno va) AND PTE_P \<noteq> 0 \<and> uent (ram s) c (fno va) AND PTE_U \<noteq> 0
      then Some (ram s (fbase (uent (ram s) c (fno va)) + (va AND 0xFFF))) else None)"
  using walk_uent [OF assms] by (simp add: user_byte_def pte_allows_def)

lemma user_writable_walk:
  assumes "addr_space (ram s) M c" "fno va < 1024"
  shows "user_writable s c va \<longleftrightarrow>
    uent (ram s) c (fno va) AND PTE_P \<noteq> 0 \<and> uent (ram s) c (fno va) AND PTE_U \<noteq> 0 \<and>
    uent (ram s) c (fno va) AND PTE_W \<noteq> 0"
  using walk_uent [OF assms] by (auto simp: user_writable_def pte_allows_def)

lemma fno_fbase [simp]: "fno (fbase a) = fno a"
  by (simp add: fno_def unat_fbase)

lemma fno_or_flags: "page_aligned f \<Longrightarrow> k AND 0xFFF = k \<Longrightarrow> fno (f OR k) = fno f"
  by (metis fbase_page_or fno_fbase)

text \<open>
  Another address space beside the current one: its two tables are not the current ones, and
  it maps none of the current tables into user space.
\<close>

definition apart :: "pg_state \<Rightarrow> u32 \<Rightarrow> bool" where
  "apart s c \<longleftrightarrow> space_ok (ram s) (mm s) c \<and> ptab (ram s) (cr3 s) \<noteq> c \<and>
     ptab (ram s) (cr3 s) \<noteq> ptab (ram s) c \<and> fno (ptab (ram s) (cr3 s)) \<notin> user_frames (ram s) c"

text \<open>
  What a space sees survives any change confined to free frames and to the current page table.
\<close>

lemma apart_unchanged:
  assumes a: "apart s c" and va: "user_page (fno va)"
    and same: "\<And>x. fbase x \<noteq> ptab (ram s) (cr3 s) \<Longrightarrow> fno x \<notin> free_set (mm s) \<Longrightarrow> ram s' x = ram s x"
  shows "user_byte s' c va = user_byte s c va" and "user_writable s' c va = user_writable s c va"
proof -
  have A: "addr_space (ram s) (mm s) c" and uf: "user_frames (ram s) c \<inter> free_set (mm s) = {}"
    using a by (simp_all add: apart_def space_ok_def)
  have pc: "page_aligned c" using A by (simp add: addr_space_def kmap_def)
  have keep: "ram s' x = ram s x" if "fbase x = c \<or> fbase x = ptab (ram s) c" for x
  proof (rule same)
    show "fbase x \<noteq> ptab (ram s) (cr3 s)" using that a by (auto simp: apart_def)
    have "fno x = fno c \<or> fno x = fno (ptab (ram s) c)" using that fno_fbase by metis
    then show "fno x \<notin> free_set (mm s)" using A by (auto simp: addr_space_def)
  qed
  have ss: "same_space (ram s) (ram s') c" by (rule same_space_outside [OF A keep])
  have A': "addr_space (ram s') (mm s) c" by (rule addr_space_outside(1) [OF A keep]) auto
  have v: "fno va < 1024" by (rule user_page_less [OF va])
  have u: "uent (ram s') c (fno va) = uent (ram s) c (fno va)"
    using ss v by (simp add: same_space_def)
  let ?e = "uent (ram s) c (fno va)"
  have data: "ram s' (fbase ?e + (va AND 0xFFF)) = ram s (fbase ?e + (va AND 0xFFF))"
    if "?e AND PTE_P \<noteq> 0"
  proof (rule same)
    have off: "unat (va AND 0xFFF) < 4096" by (simp add: unat_and_0xFFF)
    have f: "fno ?e \<in> user_frames (ram s) c" using va that by (auto simp: user_frames_def)
    have "fno (fbase ?e + (va AND 0xFFF)) = fno ?e"
      using fno_page_plus [OF _ off, of "fbase ?e"] by simp
    with f uf show "fno (fbase ?e + (va AND 0xFFF)) \<notin> free_set (mm s)" by auto
    have "fbase (fbase ?e + (va AND 0xFFF)) = fbase ?e"
      by (rule fbase_page_plus [OF _ off]) simp
    then show "fbase (fbase ?e + (va AND 0xFFF)) \<noteq> ptab (ram s) (cr3 s)"
      using f a fno_fbase [of ?e] unfolding apart_def by metis
  qed
  show "user_byte s' c va = user_byte s c va"
    using data by (simp add: user_byte_walk [OF A v] user_byte_walk [OF A' v] u)
  show "user_writable s' c va = user_writable s c va"
    by (simp add: user_writable_walk [OF A v] user_writable_walk [OF A' v] u)
qed

text \<open>A write fault on a shared page, when the page and a free frame are in kernel reach.\<close>

lemma low_frame_alloc:
  assumes "mm_ok M" "free_set M \<inter> {..<512} \<noteq> {}"
  obtains f M' where "frame_alloc M = (f, M')" "f \<noteq> 0" "fno f < 512"
proof -
  obtain f M' where al: "frame_alloc M = (f, M')" by fastforce
  have f: "f \<noteq> 0" using fp.alloc_null [OF assms(1)] al assms(2) by blast
  obtain y where "y \<in> free_set M" "y < 512" using assms(2) by auto
  then have "fno f < 512" using frame_alloc_spec(3) [OF assms(1) al f] by force
  with al f that show thesis by blast
qed

lemma cow_fault_spec:
  assumes p: "proc_ok s" and i: "user_page (fno va)" and err: "err AND PTE_U \<noteq> 0" "err AND PTE_W \<noteq> 0"
    and e: "uentP s (fno va)" "uent (ram s) (cr3 s) (fno va) AND PTE_W = 0"
    and old: "kaddr (uent (ram s) (cr3 s) (fno va))" and low: "low_frames s \<noteq> {}"
  obtains nf M s' where "paging_cow_fault va err s = Some (True, s')"
    "page_aligned nf" "fno nf \<in> free_set (mm s)" "fno nf < 512" "nf \<noteq> ptab (ram s) (cr3 s)"
    "mm_ok M" "free_set M = free_set (mm s) - {fno nf}" "frame_refs M = frame_refs (mm s)"
    "s' = s\<lparr>ram := store32 (page_copy (ram s) nf (fbase (uent (ram s) (cr3 s) (fno va))))
                     (slot (ptab (ram s) (cr3 s)) (fno va)) (nf OR 7),
            mm := mm_ref_inc (fno nf) (mm_ref_dec (fno (uent (ram s) (cr3 s) (fno va))) M)\<rparr>"
proof -
  let ?c = "cr3 s" and ?pt = "ptab (ram s) (cr3 s)" and ?e = "uent (ram s) (cr3 s) (fno va)"
  have ok: "kernel_ok s" and A: "addr_space (ram s) (mm s) ?c" and sp: "space_ok (ram s) (mm s) ?c"
    using p by (simp_all add: proc_ok_def kernel_ok_def)
  note k = kernel_okD [OF ok]
  have i': "fno va < 1024" by (rule user_page_less [OF i])
  note ix = kaddr_index [OF i']
  obtain nf M where al: "frame_alloc (mm s) = (nf, M)" "nf \<noteq> 0" "fno nf < 512"
    using low_frame_alloc [OF k(1)] low by (auto simp: low_frames_def)
  note fa = frame_alloc_spec [OF k(1) al(1,2)]
  note ff = fresh_frame [OF ok fa(2)]
  have ld: "kld32 (slot ?c 0) s = Some (load32 (ram s) ?c)" "kld32 (slot ?pt (fno va)) s = Some ?e"
    using k i' by (simp_all add: kernel_access kaddr_slot uent_def)
  have pr: "load32 (ram s) ?c AND PTE_P \<noteq> 0"
    using A and7D [of "load32 (ram s) ?c"] by (simp add: addr_space_def PTE_P_def)
  have "fno ?e \<in> user_frames (ram s) ?c"
    using e(1) i by (auto simp: user_frames_def uentP_def)
  then have ne: "nf \<noteq> fbase ?e" using sp fa(2) fno_fbase by (auto simp: space_ok_def)
  have v: "kview (s\<lparr>mm := M\<rparr>)" using k(2) by (simp add: kview_def)
  have cp: "vmemcpy nf (fbase ?e) 4096 (s\<lparr>mm := M\<rparr>) = Some (s\<lparr>mm := M, ram := page_copy (ram s) nf (fbase ?e)\<rparr>)"
    using vmemcpy_page [OF v _ _ fa(1) page_aligned_fbase ne] kaddr_low [OF al(3)] old ff
    by (simp add: kaddr_def)
  let ?m = "page_copy (ram s) nf (fbase ?e)"
  have v2: "kview (s\<lparr>mm := M, ram := ?m\<rparr>)"
    using kview_frame(1) [OF v, of nf ?m] ff by (simp add: page_copy_other)
  have st: "kst32 (slot ?pt (fno va)) (nf OR 7) (s\<lparr>mm := M, ram := ?m\<rparr>)
      = Some (s\<lparr>mm := M, ram := store32 ?m (slot ?pt (fno va)) (nf OR 7)\<rparr>)"
    using kernel_access(4) [OF v2, of "slot ?pt (fno va)"] k(8) i' by (simp add: kaddr_slot)
  have fl: "PTE_P OR (PTE_W OR PTE_U) = 7" "PTE_P OR PTE_W OR PTE_U = 7"
    by (simp_all add: PTE_P_def PTE_W_def PTE_U_def)
  have w1: "kld32 (slot ?c (unat (drop_bit 22 va AND 0x3FF))) s = Some (load32 (ram s) ?c)"
    using ld(1) ix(1) by simp
  have run: "paging_cow_fault va err s = Some (True, s\<lparr>mm := mm_ref_inc (fno nf) (mm_ref_dec (fno ?e) M),
      ram := store32 ?m (slot ?pt (fno va)) (nf OR 7)\<rparr>)"
    using err pr e cp st al(2)
    by (simp add: paging_cow_fault_def paging_get_cr3_def w1 ix(2) ld(2) al(1) uentP_def unat_shr12 fl Let_def
        flip: fbase_def ptab_def)
  show thesis
    by (rule that [OF _ fa(1,2) al(3) ff(2) fa(6,4,5)]) (use run in simp_all)
qed


text \<open>
  The result for the faulting process: the page is writable, every byte of its user memory
  reads as before, and the space is still well formed.
\<close>

lemma cow_fault_self:
  assumes p: "proc_ok s" and i: "user_page (fno va)" and err: "err AND PTE_U \<noteq> 0" "err AND PTE_W \<noteq> 0"
    and e: "uentP s (fno va)" "uent (ram s) (cr3 s) (fno va) AND PTE_W = 0"
      "uent (ram s) (cr3 s) (fno va) AND PTE_U \<noteq> 0"
    and old: "kaddr (uent (ram s) (cr3 s) (fno va))" and low: "low_frames s \<noteq> {}"
    and own: "fno (ptab (ram s) (cr3 s)) \<notin> user_frames (ram s) (cr3 s)"
  obtains s' where "paging_cow_fault va err s = Some (True, s')" "cr3 s' = cr3 s"
    "addr_space (ram s') (mm s) (cr3 s)"
    "\<And>w. fno w = fno va \<Longrightarrow> user_writable s' (cr3 s) w"
    "\<And>w. user_page (fno w) \<Longrightarrow> user_byte s' (cr3 s) w = user_byte s (cr3 s) w"
    "\<And>x. fbase x \<noteq> ptab (ram s) (cr3 s) \<Longrightarrow> fno x \<notin> free_set (mm s) \<Longrightarrow> ram s' x = ram s x"
proof -
  let ?c = "cr3 s" and ?pt = "ptab (ram s) (cr3 s)" and ?e = "uent (ram s) (cr3 s) (fno va)"
  have ok: "kernel_ok s" and A: "addr_space (ram s) (mm s) ?c" and sp: "space_ok (ram s) (mm s) ?c"
    using p by (simp_all add: proc_ok_def kernel_ok_def)
  have i': "fno va < 1024" by (rule user_page_less [OF i])
  obtain nf M s' where run: "paging_cow_fault va err s = Some (True, s')"
    and nf: "page_aligned nf" "fno nf \<in> free_set (mm s)" "fno nf < 512" "nf \<noteq> ?pt"
    and s': "s' = s\<lparr>ram := store32 (page_copy (ram s) nf (fbase ?e)) (slot ?pt (fno va)) (nf OR 7),
            mm := mm_ref_inc (fno nf) (mm_ref_dec (fno ?e) M)\<rparr>"
    by (rule cow_fault_spec [OF p i err e(1,2) old low]) (rule that)
  let ?m1 = "page_copy (ram s) nf (fbase ?e)"
  note ff = fresh_frame [OF ok nf(2)]
  have keep: "?m1 x = ram s x" if "fbase x = ?c \<or> fbase x = ?pt" for x
    using that ff by (auto simp: page_copy_other)
  have A1: "addr_space ?m1 (mm s) ?c" and pt1: "ptab ?m1 ?c = ?pt"
    using addr_space_outside [OF A keep subset_refl] by simp_all
  have u1: "uent ?m1 ?c j = uent (ram s) ?c j" if "j < 1024" for j
    using same_space_outside [OF A keep] that by (simp add: same_space_def)
  have A2: "addr_space (ram s') (mm s) ?c"
    using uent_store(2) [OF A1 i' i', of "nf OR 7"] i by (simp add: s' pt1)
  have u2: "uent (ram s') ?c j = (if j = fno va then nf OR 7 else uent (ram s) ?c j)" if "j < 1024" for j
    using uent_store(1) [OF A1 i' that, of "nf OR 7"] i u1 [OF that] by (simp add: s' pt1)
  have out: "ram s' x = ram s x" if "fbase x \<noteq> ?pt" "fbase x \<noteq> nf" for x
    using that i' by (simp add: s' store32_other_page aligned4_slot fbase_slot page_copy_other)
  have out2: "ram s' x = ram s x" if "fbase x \<noteq> ?pt" "fno x \<notin> free_set (mm s)" for x
    using that nf(2) fno_fbase [of x] by (intro out) auto
  have f7: "(nf OR 7) AND PTE_P \<noteq> 0" "(nf OR 7) AND PTE_U \<noteq> 0" "(nf OR 7) AND PTE_W \<noteq> 0"
    "fbase (nf OR 7) = nf"
    using and7D [OF flags_7(1) [OF nf(1)]] flags_7(2) [OF nf(1)] by (simp_all add: PTE_P_def PTE_U_def PTE_W_def)
  have cow: "ram s' (nf + (w AND 0xFFF)) = ram s (fbase ?e + (w AND 0xFFF))" for w
  proof -
    have off: "unat (w AND 0xFFF) < 4096" by (simp add: unat_and_0xFFF)
    have b: "fbase (nf + (w AND 0xFFF)) = nf" by (rule fbase_page_plus [OF nf(1) off])
    moreover have "(nf + (w AND 0xFFF)) AND 0xFFF = w AND 0xFFF"
      using fbase_plus_offset [of "nf + (w AND 0xFFF)"] b by simp
    ultimately show ?thesis
      using nf(4) i' by (simp add: s' store32_other_page aligned4_slot fbase_slot page_copy_def)
  qed
  have rd: "user_byte s' ?c w = user_byte s ?c w" if w: "user_page (fno w)" for w
  proof (cases "fno w = fno va")
    case True
    then show ?thesis
      using cow [of w] f7 e i'
      by (simp add: user_byte_walk [OF A2] user_byte_walk [OF A] u2 uentP_def)
  next
    case False
    have w': "fno w < 1024" by (rule user_page_less [OF w])
    have "ram s' (fbase (uent (ram s) ?c (fno w)) + (w AND 0xFFF)) =
        ram s (fbase (uent (ram s) ?c (fno w)) + (w AND 0xFFF))"
      if P: "uent (ram s) ?c (fno w) AND PTE_P \<noteq> 0"
    proof (rule out2)
      let ?x = "uent (ram s) ?c (fno w)"
      have f: "fno ?x \<in> user_frames (ram s) ?c" using w P by (auto simp: user_frames_def)
      have off: "unat (w AND 0xFFF) < 4096" by (simp add: unat_and_0xFFF)
      have "fbase (fbase ?x + (w AND 0xFFF)) = fbase ?x" by (rule fbase_page_plus [OF _ off]) simp
      then show "fbase (fbase ?x + (w AND 0xFFF)) \<noteq> ?pt" using f own fno_fbase by metis
      have "fno (fbase ?x + (w AND 0xFFF)) = fno ?x"
        using fno_page_plus [OF _ off, of "fbase ?x"] by simp
      then show "fno (fbase ?x + (w AND 0xFFF)) \<notin> free_set (mm s)"
        using f sp by (auto simp: space_ok_def)
    qed
    then show ?thesis
      using False w' by (simp add: user_byte_walk [OF A2] user_byte_walk [OF A] u2)
  qed
  have wr: "user_writable s' ?c w" if "fno w = fno va" for w
    using that f7 i' by (simp add: user_writable_walk [OF A2] u2)
  show thesis
    by (rule that [OF run _ A2 wr rd out2]) (use s' in simp_all)
qed


subsection \<open>Forking an address space\<close>

text \<open>The entry a shared page gets in both spaces, and the counts the fork raises.\<close>

definition shared_entry :: "u32 \<Rightarrow> u32" where
  "shared_entry e = (if e AND PTE_P \<noteq> 0 then e AND NOT PTE_W else e)"

definition share_refs :: "(nat \<Rightarrow> u32) \<Rightarrow> nat list \<Rightarrow> mm_state \<Rightarrow> mm_state" where
  "share_refs e js = fold (\<lambda>j M. if e j AND PTE_P \<noteq> 0 then mm_ref_inc (fno (e j)) M else M) js"

lemma share_refs_free: "free_set (share_refs e js M) = free_set M"
  by (induction js arbitrary: M)
    (simp_all add: share_refs_def mm_ref_inc_def free_set_def frame_used_def)

lemma share_refs_ok: "mm_ok M \<Longrightarrow> mm_ok (share_refs e js M)"
proof (induction js arbitrary: M)
  case (Cons j js)
  have "mm_ok (mm_ref_inc i M)" for i
    using mm_ref_inc_spec(2) [OF Cons.prems, of i] Cons.prems
    by (cases "i < FRAME_COUNT") (simp_all add: mm_ref_inc_def)
  then show ?case using Cons by (simp add: share_refs_def)
qed (simp add: share_refs_def)

lemma fno_clear_w: "fno (e AND NOT PTE_W) = fno e"
proof -
  have "fbase (e AND NOT PTE_W) = fbase e"
    by (rule fbase_and_not) (simp add: PTE_W_def)
  then show ?thesis using fno_fbase by metis
qed

lemma fork_page_step:
  assumes v: "kview s" and pp: "ptab (ram s) (cr3 s) \<noteq> cr3 s" "kaddr (ptab (ram s) (cr3 s))"
    and pt: "page_aligned pt" "kaddr pt" "pt \<noteq> cr3 s" "pt \<noteq> ptab (ram s) (cr3 s)"
    and i: "user_page i" and e: "e = load32 (ram s) (slot (ptab (ram s) (cr3 s)) i)"
    and same: "load32 (ram s) (slot pt i) = e"
  shows "\<exists>m. fork_page (ptab (ram s) (cr3 s)) pt i s =
      Some (s\<lparr>ram := m, mm := if e AND PTE_P \<noteq> 0 then mm_ref_inc (fno e) (mm s) else mm s\<rparr>) \<and>
    kmap m (cr3 s) \<and> ptab m (cr3 s) = ptab (ram s) (cr3 s) \<and>
    (\<forall>x. fbase x \<noteq> ptab (ram s) (cr3 s) \<longrightarrow> fbase x \<noteq> pt \<longrightarrow> m x = ram s x) \<and>
    (\<forall>j<1024. load32 m (slot pt j) = (if j = i then shared_entry e else load32 (ram s) (slot pt j))) \<and>
    (\<forall>j<1024. load32 m (slot (ptab (ram s) (cr3 s)) j) =
        (if j = i then shared_entry e else load32 (ram s) (slot (ptab (ram s) (cr3 s)) j)))"
proof (cases "e AND PTE_P = 0")
  case True
  have i': "i < 1024" by (rule user_page_less [OF i])
  have ld: "kld32 (slot (ptab (ram s) (cr3 s)) i) s = Some e"
    using v pp i' by (simp add: kernel_access kaddr_slot e)
  have "fork_page (ptab (ram s) (cr3 s)) pt i s = Some (s\<lparr>ram := ram s, mm := mm s\<rparr>)"
    using True ld by (simp add: fork_page_def)
  then show ?thesis
    using True v same e by (intro exI [of _ "ram s"]) (auto simp: shared_entry_def kview_def)
next
  case False
  let ?ppt = "ptab (ram s) (cr3 s)" and ?w = "e AND NOT PTE_W"
  have i': "i < 1024" by (rule user_page_less [OF i])
  let ?m1 = "store32 (ram s) (slot pt i) ?w"
  let ?m2 = "store32 ?m1 (slot ?ppt i) ?w"
  have o1: "?m1 x = ram s x" if "fbase x \<noteq> pt" for x
    using that pt i' by (simp add: store32_other_page aligned4_slot fbase_slot)
  note v1 = kview_frame [OF v pt(3,4), of ?m1]
  have k1: "kview (s\<lparr>ram := ?m1\<rparr>)" and p1: "ptab ?m1 (cr3 s) = ?ppt"
    using v1 o1 by auto
  have k2: "kmap ?m2 (cr3 s)" "ptab ?m2 (cr3 s) = ?ppt"
    using kmap_store_slot [of ?m1 "cr3 s" i ?w] k1 p1 pp i i' by (simp_all add: kview_def)
  have l1: "load32 ?m1 (slot ?ppt i) = e"
    using pt i' e by (simp add: load_store_slot)
  have l2: "load32 ?m2 (slot ?ppt i) = ?w" by (rule load32_store32_same)
  have run: "fork_page ?ppt pt i s =
      Some (s\<lparr>ram := ?m2, mm := if e AND PTE_P \<noteq> 0 then mm_ref_inc (fno e) (mm s) else mm s\<rparr>)"
  proof -
    have a: "kaddr (slot ?ppt i)" "kaddr (slot pt i)" using pp pt i' by (simp_all add: kaddr_slot)
    have v2: "kview (s\<lparr>ram := ?m2\<rparr>)" using k2 by (simp add: kview_def)
    have 1: "kld32 (slot ?ppt i) s = Some e" using kernel_access(3) [OF v a(1)] e by simp
    have 2: "kst32 (slot pt i) ?w s = Some (s\<lparr>ram := ?m1\<rparr>)" by (rule kernel_access(4) [OF v a(2)])
    have 3: "kld32 (slot ?ppt i) (s\<lparr>ram := ?m1\<rparr>) = Some e" using kernel_access(3) [OF k1 a(1)] l1 by simp
    have 4: "kst32 (slot ?ppt i) ?w (s\<lparr>ram := ?m1\<rparr>) = Some (s\<lparr>ram := ?m2\<rparr>)"
      using kernel_access(4) [OF k1 a(1), of ?w] by simp
    have 5: "kld32 (slot ?ppt i) (s\<lparr>ram := ?m2\<rparr>) = Some ?w"
      using kernel_access(3) [OF v2 a(1)] l2 by simp
    show ?thesis using False by (simp add: fork_page_def 1 2 3 4 5 unat_shr12 fno_clear_w)
  qed
  have "\<forall>x. fbase x \<noteq> ?ppt \<longrightarrow> fbase x \<noteq> pt \<longrightarrow> ?m2 x = ram s x"
    using o1 i' by (simp add: store32_other_page aligned4_slot fbase_slot)
  moreover have "\<forall>j<1024. load32 ?m2 (slot pt j) = (if j = i then shared_entry e else load32 (ram s) (slot pt j))"
    using pt i' False by (auto simp: load_store_slot shared_entry_def)
  moreover have "\<forall>j<1024. load32 ?m2 (slot ?ppt j) =
      (if j = i then shared_entry e else load32 (ram s) (slot ?ppt j))"
    using pt i' False by (auto simp: load_store_slot shared_entry_def)
  ultimately show ?thesis using run k2 by blast
qed

lemma fork_loop:
  assumes v: "kview s" and pp: "ptab (ram s) (cr3 s) \<noteq> cr3 s" "kaddr (ptab (ram s) (cr3 s))"
    and pt: "page_aligned pt" "kaddr pt" "pt \<noteq> cr3 s" "pt \<noteq> ptab (ram s) (cr3 s)"
    and e: "\<forall>j<1024. load32 (ram s) (slot (ptab (ram s) (cr3 s)) j) = e j"
    and same: "\<forall>j<1024. load32 (ram s) (slot pt j) = e j"
  obtains m where "for_range (fork_page (ptab (ram s) (cr3 s)) pt) USER_PG_START USER_PG_END s =
      Some (s\<lparr>ram := m, mm := share_refs e [512 ..< 768] (mm s)\<rparr>)"
    "kmap m (cr3 s)" "ptab m (cr3 s) = ptab (ram s) (cr3 s)"
    "\<forall>x. fbase x \<noteq> ptab (ram s) (cr3 s) \<longrightarrow> fbase x \<noteq> pt \<longrightarrow> m x = ram s x"
    "\<forall>j<1024. load32 m (slot pt j) = (if user_page j then shared_entry (e j) else e j)"
    "\<forall>j<1024. load32 m (slot (ptab (ram s) (cr3 s)) j) = (if user_page j then shared_entry (e j) else e j)"
proof -
  let ?ppt = "ptab (ram s) (cr3 s)"
  let ?I = "\<lambda>i s'. \<exists>m. s' = s\<lparr>ram := m, mm := share_refs e [512 ..< i] (mm s)\<rparr> \<and>
    kmap m (cr3 s) \<and> ptab m (cr3 s) = ?ppt \<and>
    (\<forall>x. fbase x \<noteq> ?ppt \<longrightarrow> fbase x \<noteq> pt \<longrightarrow> m x = ram s x) \<and>
    (\<forall>j<1024. load32 m (slot pt j) = (if 512 \<le> j \<and> j < i then shared_entry (e j) else e j)) \<and>
    (\<forall>j<1024. load32 m (slot ?ppt j) = (if 512 \<le> j \<and> j < i then shared_entry (e j) else e j))"
  have "\<exists>s'. for_range (fork_page ?ppt pt) 512 768 s = Some s' \<and> ?I 768 s'"
  proof (rule for_range_rule [where I = ?I])
    show "?I 512 s"
      by (rule exI [of _ "ram s"]) (use v e same in \<open>auto simp: kview_def share_refs_def\<close>)
  next
    fix i s' assume i: "512 \<le> i" "i < (768 :: nat)" and "?I i s'"
    then obtain m where m: "s' = s\<lparr>ram := m, mm := share_refs e [512 ..< i] (mm s)\<rparr>" "kmap m (cr3 s)"
      "ptab m (cr3 s) = ?ppt" "\<forall>x. fbase x \<noteq> ?ppt \<longrightarrow> fbase x \<noteq> pt \<longrightarrow> m x = ram s x"
      "\<forall>j<1024. load32 m (slot pt j) = (if 512 \<le> j \<and> j < i then shared_entry (e j) else e j)"
      "\<forall>j<1024. load32 m (slot ?ppt j) = (if 512 \<le> j \<and> j < i then shared_entry (e j) else e j)"
      by blast
    have f: "ram s' = m" "cr3 s' = cr3 s" "mm s' = share_refs e [512 ..< i] (mm s)" "ptab (ram s') (cr3 s') = ?ppt"
      using m(1,3) by simp_all
    have u: "user_page i" "i < 1024" using i by (simp_all add: user_page_def)
    have pre: "kview s'" "ptab (ram s') (cr3 s') \<noteq> cr3 s'" "kaddr (ptab (ram s') (cr3 s'))"
      "pt \<noteq> cr3 s'" "pt \<noteq> ptab (ram s') (cr3 s')"
      "e i = load32 (ram s') (slot (ptab (ram s') (cr3 s')) i)" "load32 (ram s') (slot pt i) = e i"
      unfolding f(4) unfolding kview_def f(1,2) using m u pp pt by simp_all
    note step = fork_page_step [OF pre(1-3) pt(1,2) pre(4,5) u(1) pre(6,7)]
    obtain m' where m': "fork_page ?ppt pt i s' =
        Some (s'\<lparr>ram := m', mm := if e i AND PTE_P \<noteq> 0 then mm_ref_inc (fno (e i)) (mm s') else mm s'\<rparr>)"
      "kmap m' (cr3 s)" "ptab m' (cr3 s) = ?ppt"
      "\<forall>x. fbase x \<noteq> ?ppt \<longrightarrow> fbase x \<noteq> pt \<longrightarrow> m' x = m x"
      "\<forall>j<1024. load32 m' (slot pt j) = (if j = i then shared_entry (e i) else load32 m (slot pt j))"
      "\<forall>j<1024. load32 m' (slot ?ppt j) = (if j = i then shared_entry (e i) else load32 m (slot ?ppt j))"
      using step unfolding f(4) unfolding f(1,2) by blast
    have sr: "share_refs e [512 ..< Suc i] (mm s) =
        (if e i AND PTE_P \<noteq> 0 then mm_ref_inc (fno (e i)) (mm s') else mm s')"
      using i f(3) by (simp add: share_refs_def)
    have "s'\<lparr>ram := m', mm := if e i AND PTE_P \<noteq> 0 then mm_ref_inc (fno (e i)) (mm s') else mm s'\<rparr>
        = s\<lparr>ram := m', mm := share_refs e [512 ..< Suc i] (mm s)\<rparr>"
      unfolding sr by (simp add: m(1))
    with m'(1) have run: "fork_page ?ppt pt i s' = Some (s\<lparr>ram := m', mm := share_refs e [512 ..< Suc i] (mm s)\<rparr>)"
      by simp
    have "?I (Suc i) (s\<lparr>ram := m', mm := share_refs e [512 ..< Suc i] (mm s)\<rparr>)"
      by (rule exI [of _ m']) (use m' m(4-6) i in \<open>simp add: less_Suc_eq\<close>)
    with run show "\<exists>s''. fork_page ?ppt pt i s' = Some s'' \<and> ?I (Suc i) s''" by blast
  qed simp
  then obtain s' m where "for_range (fork_page ?ppt pt) 512 768 s = Some s'"
    "s' = s\<lparr>ram := m, mm := share_refs e [512 ..< 768] (mm s)\<rparr>"
    "kmap m (cr3 s)" "ptab m (cr3 s) = ?ppt" "\<forall>x. fbase x \<noteq> ?ppt \<longrightarrow> fbase x \<noteq> pt \<longrightarrow> m x = ram s x"
    "\<forall>j<1024. load32 m (slot pt j) = (if 512 \<le> j \<and> j < 768 then shared_entry (e j) else e j)"
    "\<forall>j<1024. load32 m (slot ?ppt j) = (if 512 \<le> j \<and> j < 768 then shared_entry (e j) else e j)"
    by blast
  then show thesis by (intro that) (simp_all add: pg_consts user_page_def del: upt_rec_numeral)
qed


lemma share_refs_Cons:
  "share_refs e (j # js) M = share_refs e js (if e j AND PTE_P \<noteq> 0 then mm_ref_inc (fno (e j)) M else M)"
  by (simp add: share_refs_def)

lemma share_refs_refs:
  "frame_refs M = frame_refs N \<Longrightarrow> frame_refs (share_refs e js M) = frame_refs (share_refs e js N)"
proof (induction js arbitrary: M N)
  case (Cons j js)
  show ?case
    unfolding share_refs_Cons by (rule Cons.IH) (use Cons.prems in \<open>simp add: mm_ref_inc_def\<close>)
qed (simp add: share_refs_def)

lemma fork_spec:
  assumes p: "proc_ok s" and low: "2 \<le> card (low_frames s)"
  obtains c s' where "paging_fork_addr_space (cr3 s) s = Some (c, s')" "c \<noteq> 0" "cr3 s' = cr3 s"
    "fno c \<in> free_set (mm s)" "fno (ptab (ram s') c) \<in> free_set (mm s)" "c \<noteq> ptab (ram s') c"
    "addr_space (ram s') (mm s') c" "addr_space (ram s') (mm s') (cr3 s)" "ptab (ram s') (cr3 s) = ptab (ram s) (cr3 s)"
    "\<forall>i. user_page i \<longrightarrow> uent (ram s') c i = shared_entry (uent (ram s) (cr3 s) i) \<and>
       uent (ram s') (cr3 s) i = shared_entry (uent (ram s) (cr3 s) i)"
    "\<forall>x. fno x \<notin> free_set (mm s) \<longrightarrow> fbase x \<noteq> ptab (ram s) (cr3 s) \<longrightarrow> ram s' x = ram s x"
    "free_set (mm s') = free_set (mm s) - {fno c, fno (ptab (ram s') c)}" "mm_ok (mm s')"
    "frame_refs (mm s') = frame_refs (share_refs (uent (ram s) (cr3 s)) [512 ..< 768] (mm s))"
    "\<forall>d<1024. 0 < d \<longrightarrow> load32 (ram s') (slot c d) = load32 (ram s) (slot (cr3 s) d)"
proof -
  let ?c = "cr3 s" and ?ppt = "ptab (ram s) (cr3 s)"
  have ok: "kernel_ok s" and A: "addr_space (ram s) (mm s) ?c"
    using p by (simp_all add: proc_ok_def kernel_ok_def)
  note k = kernel_okD [OF ok]
  obtain pd pt s1 where al: "alloc_tables s = (Some (pd, pt), s1)" and ka: "kaddr pd" "kaddr pt"
    using alloc_tables_low [OF k(1) low] .
  obtain M where M: "s1 = s\<lparr>mm := M\<rparr>" "page_aligned pd" "page_aligned pt" "pd \<noteq> pt" "pd \<noteq> 0"
    "fno pd \<in> free_set (mm s)" "fno pt \<in> free_set (mm s)"
    "free_set M = free_set (mm s) - {fno pd, fno pt}" "mm_ok M" "frame_refs M = frame_refs (mm s)"
    by (rule alloc_tables_Some [OF k(1) al]) (rule that)
  note d = fresh_frame [OF ok M(6)] and t = fresh_frame [OF ok M(7)]
  let ?m1 = "page_copy (ram s) pd ?c"
  let ?m2 = "page_copy ?m1 pt ?ppt"
  let ?s1 = "s\<lparr>mm := M\<rparr>"
  have v1: "kview ?s1" using k(2) by (simp add: kview_def)
  have c1: "vmemcpy pd ?c 4096 ?s1 = Some (s\<lparr>mm := M, ram := ?m1\<rparr>)"
    using vmemcpy_page [OF v1 ka(1) k(7) M(2) k(4)] d by simp
  have v2: "kview (s\<lparr>mm := M, ram := ?m1\<rparr>)" and p1: "ptab ?m1 ?c = ?ppt"
    using kview_frame [OF v1, of pd ?m1] d by (simp_all add: page_copy_other)
  have c2: "vmemcpy pt ?ppt 4096 (s\<lparr>mm := M, ram := ?m1\<rparr>) = Some (s\<lparr>mm := M, ram := ?m2\<rparr>)"
    using vmemcpy_page [OF v2 ka(2) k(8) M(3)] t p1 by simp
  let ?s2 = "s\<lparr>mm := M, ram := ?m2\<rparr>"
  have o2: "?m2 x = ram s x" if "fbase x \<noteq> pd" "fbase x \<noteq> pt" for x
    using that by (simp add: page_copy_other)
  have v3: "kview ?s2" and p2: "ptab ?m2 ?c = ?ppt"
    using kview_frame [OF v2, of pt ?m2] t p1 by (simp_all add: page_copy_other)
  let ?e = "\<lambda>j. uent (ram s) ?c j"
  have e: "\<forall>j<1024. load32 (ram ?s2) (slot (ptab (ram ?s2) (cr3 ?s2)) j) = ?e j"
  proof (intro allI impI)
    fix j :: nat assume j: "j < 1024"
    have "load32 ?m2 (slot ?ppt j) = load32 (ram s) (slot ?ppt j)"
      using j d t by (intro load32_page_other) (auto simp: aligned4_slot fbase_slot page_copy_other)
    then show "load32 (ram ?s2) (slot (ptab (ram ?s2) (cr3 ?s2)) j) = ?e j"
      by (simp add: p2 uent_def)
  qed
  have q: "\<forall>j<1024. load32 (ram ?s2) (slot pt j) = ?e j"
  proof (intro allI impI)
    fix j :: nat assume j: "j < 1024"
    have "load32 ?m1 (slot ?ppt j) = load32 (ram s) (slot ?ppt j)"
      using j d by (intro load32_page_other) (auto simp: aligned4_slot fbase_slot page_copy_other)
    then show "load32 (ram ?s2) (slot pt j) = ?e j"
      using j M by (simp add: page_copy_slot uent_def)
  qed
  have h: "kview ?s2" "ptab (ram ?s2) (cr3 ?s2) \<noteq> cr3 ?s2" "kaddr (ptab (ram ?s2) (cr3 ?s2))"
    "pt \<noteq> cr3 ?s2" "pt \<noteq> ptab (ram ?s2) (cr3 ?s2)"
    using v3 k(3,8) t by (simp_all add: p2)
  obtain m where loop: "for_range (fork_page (ptab (ram ?s2) (cr3 ?s2)) pt) USER_PG_START USER_PG_END ?s2 =
      Some (?s2\<lparr>ram := m, mm := share_refs ?e [512 ..< 768] (mm ?s2)\<rparr>)"
    "kmap m (cr3 ?s2)" "ptab m (cr3 ?s2) = ptab (ram ?s2) (cr3 ?s2)"
    "\<forall>x. fbase x \<noteq> ptab (ram ?s2) (cr3 ?s2) \<longrightarrow> fbase x \<noteq> pt \<longrightarrow> m x = ram ?s2 x"
    "\<forall>j<1024. load32 m (slot pt j) = (if user_page j then shared_entry (?e j) else ?e j)"
    "\<forall>j<1024. load32 m (slot (ptab (ram ?s2) (cr3 ?s2)) j) = (if user_page j then shared_entry (?e j) else ?e j)"
    by (rule fork_loop [OF h(1-3) M(3) ka(2) h(4,5) e q]) (rule that)
  let ?N = "share_refs ?e [512 ..< 768] M"
  have loop': "for_range (fork_page ?ppt pt) USER_PG_START USER_PG_END ?s2 = Some (s\<lparr>ram := m, mm := ?N\<rparr>)"
    using loop(1) by (simp add: p2)
  have km: "kmap m ?c" "ptab m ?c = ?ppt" using loop(2,3) by (simp_all add: p2)
  have om: "m x = ram s x" if "fbase x \<noteq> ?ppt" "fbase x \<noteq> pt" "fbase x \<noteq> pd" for x
    using loop(4) that o2 by (simp add: p2)
  have sc: "load32 m (slot pt j) = (if user_page j then shared_entry (?e j) else ?e j)"
    "load32 m (slot ?ppt j) = (if user_page j then shared_entry (?e j) else ?e j)" if "j < 1024" for j
    using loop(5,6) that by (simp_all add: p2)
  define m' where "m' = store32 m pd (pt OR 7)"
  define s' where "s' = s\<lparr>ram := m', mm := ?N\<rparr>"
  have st: "kst32 pd (pt OR 7) (s\<lparr>ram := m, mm := ?N\<rparr>) = Some s'"
    using km ka(1) by (simp add: kernel_access kview_def m'_def s'_def)
  have pde: "kld32 ?c s = Some (load32 (ram s) ?c)" using k by (simp add: kernel_access)
  have pr: "load32 (ram s) ?c AND PTE_P \<noteq> 0"
    using A and7D [of "load32 (ram s) ?c"] by (simp add: addr_space_def PTE_P_def)
  have run: "paging_fork_addr_space ?c s = Some (pd, s')"
    using pr al c1 c2 loop' st M(1)
    by (simp add: paging_fork_addr_space_def pde Let_def paging_get_cr3_def paging_switch_def s'_def
        flip: fbase_def ptab_def)
  have ot: "m' x = m x" if "fbase x \<noteq> pd" for x
    using that M(2) by (simp add: m'_def store32_other_page aligned4_page fbase_aligned)
  have lo: "load32 m' a = load32 m a" if "aligned4 a" "fbase a \<noteq> pd" for a
    using that ot by (intro load32_page_other) auto
  have c': "fbase ?c = ?c" "aligned4 ?c" using k(4) by (simp_all add: fbase_aligned aligned4_page)
  have ut: "load32 m' (slot pt j) = load32 m (slot pt j)" "load32 m' (slot ?ppt j) = load32 m (slot ?ppt j)"
    if "j < 1024" for j
    using that M(3,4) d by (simp_all add: lo aligned4_slot fbase_slot)
  have lpd: "load32 m' pd = pt OR 7" by (simp add: m'_def load32_store32_same)
  then have ppd: "ptab m' pd = pt" using M(3) by (simp add: ptab_def flags_7)
  have lcr: "load32 m' ?c = load32 (ram s) ?c"
  proof -
    have "load32 m ?c = load32 (ram s) ?c"
      using om k(3) d t c' by (intro load32_page_other) auto
    then show ?thesis using lo [OF c'(2)] c'(1) d by auto
  qed
  then have pcr: "ptab m' ?c = ?ppt" by (simp add: ptab_def)
  have ker: "?e j = of_nat j * 4096 OR 3" if "j < 1024" "\<not> user_page j" for j
    using uent_kernel [OF A that] .
  have fs: "free_set ?N = free_set (mm s) - {fno pd, fno pt}" by (simp add: share_refs_free M(8))
  have A1: "addr_space m' ?N pd"
    using M ka lpd ppd ut sc ker flags_7(1) [OF M(3)] and7D [OF flags_7(1) [OF M(3)]]
    by (simp add: addr_space_def kmap_def fs PTE_P_def PTE_W_def)
  have "kmap m' ?c"
    using A lcr pcr ut sc ker by (simp add: addr_space_def kmap_def)
  then have A2: "addr_space m' ?N ?c"
    using A lcr pcr by (simp add: addr_space_def fs)
  have U: "\<forall>i. user_page i \<longrightarrow> uent m' pd i = shared_entry (?e i) \<and> uent m' ?c i = shared_entry (?e i)"
    using sc ut by (simp add: uent_def ppd pcr user_page_less)
  have O: "\<forall>x. fno x \<notin> free_set (mm s) \<longrightarrow> fbase x \<noteq> ?ppt \<longrightarrow> m' x = ram s x"
  proof (intro allI impI)
    fix x assume a: "fno x \<notin> free_set (mm s)" "fbase x \<noteq> ?ppt"
    then have "fbase x \<noteq> pd" "fbase x \<noteq> pt" using M(6,7) fno_fbase by metis+
    then show "m' x = ram s x" using ot om a by simp
  qed
  have D: "\<forall>d<1024. 0 < d \<longrightarrow> load32 m' (slot pd d) = load32 (ram s) (slot ?c d)"
  proof (intro allI impI)
    fix i :: nat assume i: "i < 1024" "0 < i"
    have "load32 m' (slot pd i) = load32 m (slot pd i)"
      unfolding m'_def using load_store_slot [OF M(2) M(2) _ i(1), of 0 m] i(2) by simp
    also have "\<dots> = load32 ?m2 (slot pd i)"
      using i M d loop(4) by (intro load32_page_other) (auto simp: aligned4_slot fbase_slot p2)
    also have "\<dots> = load32 ?m1 (slot pd i)"
      using i M by (intro load32_page_other) (auto simp: aligned4_slot fbase_slot page_copy_other)
    finally show "load32 m' (slot pd i) = load32 (ram s) (slot ?c i)"
      using i M k(4) by (simp add: page_copy_slot)
  qed
  show thesis
  proof (rule that [of pd s'])
    show "paging_fork_addr_space ?c s = Some (pd, s')" by (rule run)
    show "frame_refs (mm s') = frame_refs (share_refs ?e [512 ..< 768] (mm s))"
      using share_refs_refs [OF M(10)] by (simp add: s'_def)
    show "mm_ok (mm s')" by (simp add: s'_def share_refs_ok M(9))
  qed (use M A1 A2 U O D ppd pcr fs in \<open>simp_all add: s'_def\<close>)
qed


lemma shared_entry_flags:
  "shared_entry e AND PTE_P = e AND PTE_P" "shared_entry e AND PTE_U = e AND PTE_U"
  "fbase (shared_entry e) = fbase e" "fno (shared_entry e) = fno e"
  "e AND PTE_P \<noteq> 0 \<Longrightarrow> shared_entry e AND PTE_W = 0"
proof -
  show "shared_entry e AND PTE_P = e AND PTE_P" "shared_entry e AND PTE_U = e AND PTE_U"
    by (auto simp: shared_entry_def PTE_P_def PTE_W_def PTE_U_def and.assoc)
  show b: "fbase (shared_entry e) = fbase e"
    using fbase_and_not [of PTE_W e] by (auto simp: shared_entry_def PTE_W_def)
  show "fno (shared_entry e) = fno e" using b fno_fbase by metis
  show "e AND PTE_P \<noteq> 0 \<Longrightarrow> shared_entry e AND PTE_W = 0"
    by (simp add: shared_entry_def PTE_W_def and.assoc)
qed

text \<open>The parent stays a well-formed process with the same frames.\<close>

lemma fork_keeps:
  assumes p: "proc_ok s" and cr: "cr3 s' = cr3 s" and A: "addr_space (ram s') (mm s') (cr3 s)"
    and pt: "ptab (ram s') (cr3 s) = ptab (ram s) (cr3 s)"
    and U: "\<forall>i. user_page i \<longrightarrow> uent (ram s') (cr3 s) i = shared_entry (uent (ram s) (cr3 s) i)"
    and O: "\<forall>x. fno x \<notin> free_set (mm s) \<longrightarrow> fbase x \<noteq> ptab (ram s) (cr3 s) \<longrightarrow> ram s' x = ram s x"
    and fs: "free_set (mm s') \<subseteq> free_set (mm s)" "mm_ok (mm s')"
  shows "proc_ok s'" and "user_frames (ram s') (cr3 s) = user_frames (ram s) (cr3 s)"
proof -
  have ok: "kernel_ok s" and K: "addr_space (ram s) (mm s) KERNEL_PD"
    using p by (simp_all add: proc_ok_def kernel_ok_def)
  note k = kernel_okD [OF ok]
  have out: "ram s' x = ram s x" if "fbase x = KERNEL_PD \<or> fbase x = ptab (ram s) KERNEL_PD" for x
  proof -
    have "fno x = fno KERNEL_PD \<or> fno x = fno KERNEL_PT" using that k(12) fno_fbase by metis
    moreover have "fbase x \<noteq> ptab (ram s) (cr3 s)" using that k(12) p by (auto simp: proc_ok_def)
    ultimately show ?thesis using O k(9,10) by auto
  qed
  have K': "addr_space (ram s') (mm s') KERNEL_PD" "ptab (ram s') KERNEL_PD = KERNEL_PT"
    using addr_space_outside [OF K out fs(1)] k(12) by simp_all
  show uf: "user_frames (ram s') (cr3 s) = user_frames (ram s) (cr3 s)"
    using U by (auto simp: user_frames_def shared_entry_flags intro!: image_cong)
  show "proc_ok s'"
    using p A K' fs pt cr uf by (auto simp: proc_ok_def kernel_ok_def space_ok_def)
qed

subsection \<open>Destroying an address space\<close>

definition drop_refs :: "(nat \<Rightarrow> u32) \<Rightarrow> nat list \<Rightarrow> mm_state \<Rightarrow> mm_state" where
  "drop_refs e js = fold (\<lambda>j M. if e j AND PTE_P \<noteq> 0 then mm_ref_dec (fno (e j)) M else M) js"

lemma drop_refs_Cons:
  "drop_refs e (j # js) M = drop_refs e js (if e j AND PTE_P \<noteq> 0 then mm_ref_dec (fno (e j)) M else M)"
  by (simp add: drop_refs_def)

text \<open>
  Dropping a list of distinct used frames frees exactly the frames whose count was at most one,
  and touches no other count.
\<close>

lemma drop_refs_spec:
  assumes "mm_ok M" and "\<forall>j\<in>set js. e j AND PTE_P \<noteq> 0 \<longrightarrow> 0 < fno (e j) \<and> fno (e j) < FRAME_COUNT \<and> fno (e j) \<notin> free_set M"
    and "distinct js" and "\<forall>i\<in>set js. \<forall>j\<in>set js. e i AND PTE_P \<noteq> 0 \<longrightarrow> e j AND PTE_P \<noteq> 0 \<longrightarrow> fno (e i) = fno (e j) \<longrightarrow> i = j"
  shows "mm_ok (drop_refs e js M) \<and>
    free_set (drop_refs e js M) = free_set M \<union> {fno (e j) |j. j \<in> set js \<and> e j AND PTE_P \<noteq> 0 \<and> frame_refs M ! fno (e j) \<le> 1} \<and>
    (\<forall>f. (\<forall>j\<in>set js. e j AND PTE_P \<noteq> 0 \<longrightarrow> fno (e j) \<noteq> f) \<longrightarrow> frame_refs (drop_refs e js M) ! f = frame_refs M ! f)"
  using assms
proof (induction js arbitrary: M)
  case (Cons j js)
  show ?case
  proof (cases "e j AND PTE_P \<noteq> 0")
    case False
    have "mm_ok (drop_refs e js M) \<and>
      free_set (drop_refs e js M) = free_set M \<union> {fno (e j) |j. j \<in> set js \<and> e j AND PTE_P \<noteq> 0 \<and> frame_refs M ! fno (e j) \<le> 1} \<and>
      (\<forall>f. (\<forall>j\<in>set js. e j AND PTE_P \<noteq> 0 \<longrightarrow> fno (e j) \<noteq> f) \<longrightarrow> frame_refs (drop_refs e js M) ! f = frame_refs M ! f)"
      using Cons.prems by (intro Cons.IH) auto
    with False show ?thesis by (auto simp: drop_refs_Cons)
  next
    case True
    let ?f = "fno (e j)" and ?M = "mm_ref_dec (fno (e j)) M"
    have f: "0 < ?f" "?f < FRAME_COUNT" "?f \<notin> free_set M" using Cons.prems(2) True by auto
    note d = mm_ref_dec_spec [OF Cons.prems(1) f(1,2)]
    have fs: "free_set ?M = (if frame_refs M ! ?f \<le> 1 then insert ?f (free_set M) else free_set M)"
      using d(1) f(3) by (simp add: ref_drops_def)
    have rf: "frame_refs ?M ! g = frame_refs M ! g" if "g \<noteq> ?f" for g
      using d(3) that by simp
    have ne: "fno (e i) \<noteq> ?f" if "i \<in> set js" "e i AND PTE_P \<noteq> 0" for i
      using Cons.prems(3,4) that True by auto
    have IH: "mm_ok (drop_refs e js ?M) \<and>
      free_set (drop_refs e js ?M) = free_set ?M \<union> {fno (e j) |j. j \<in> set js \<and> e j AND PTE_P \<noteq> 0 \<and> frame_refs ?M ! fno (e j) \<le> 1} \<and>
      (\<forall>f. (\<forall>j\<in>set js. e j AND PTE_P \<noteq> 0 \<longrightarrow> fno (e j) \<noteq> f) \<longrightarrow> frame_refs (drop_refs e js ?M) ! f = frame_refs ?M ! f)"
      using Cons.prems d(2) fs ne by (intro Cons.IH) auto
    have eq: "{fno (e j) |j. j \<in> set js \<and> e j AND PTE_P \<noteq> 0 \<and> frame_refs ?M ! fno (e j) \<le> 1} =
        {fno (e j) |j. j \<in> set js \<and> e j AND PTE_P \<noteq> 0 \<and> frame_refs M ! fno (e j) \<le> 1}"
      using ne rf by auto
    show ?thesis
      using IH True fs rf ne unfolding eq drop_refs_Cons by auto
  qed
qed (simp add: drop_refs_def)

lemma destroy_table_run:
  assumes "kview s" "page_aligned pt" "kaddr pt"
  shows "destroy_table pt s =
    Some (s\<lparr>mm := frame_free pt (drop_refs (\<lambda>i. load32 (ram s) (slot pt i)) [512 ..< 768] (mm s))\<rparr>)"
proof -
  let ?e = "\<lambda>i. load32 (ram s) (slot pt i)"
  let ?f = "\<lambda>i s. do {
            e \<leftarrow> kld32 (slot pt i) s;
            Some (if e AND PTE_P \<noteq> 0
                  then s\<lparr>mm := mm_ref_dec (unat (drop_bit 12 e)) (mm s)\<rparr> else s) }"
  let ?I = "\<lambda>i s'. s' = s\<lparr>mm := drop_refs ?e [512 ..< i] (mm s)\<rparr>"
  have "\<exists>s'. for_range ?f 512 768 s = Some s' \<and> ?I 768 s'"
  proof (rule for_range_rule [where I = ?I])
    fix i s' assume i: "512 \<le> i" "i < (768 :: nat)" and I: "?I i s'"
    have "kview s'" using assms(1) I by (simp add: kview_def)
    then have "kld32 (slot pt i) s' = Some (?e i)"
      using assms i I by (simp add: kernel_access kaddr_slot)
    then show "\<exists>s''. ?f i s' = Some s'' \<and> ?I (Suc i) s''"
      using i I by (simp add: drop_refs_def unat_shr12)
  qed (simp_all add: drop_refs_def)
  then show ?thesis by (auto simp: destroy_table_def pg_consts)
qed

lemma destroy_run:
  assumes ok: "kernel_ok s" and A: "addr_space (ram s) M c"
    and ne: "c \<noteq> KERNEL_PD" "ptab (ram s) c \<noteq> KERNEL_PT" "ptab (ram s) c \<noteq> KERNEL_PD"
    and one: "\<forall>d<1024. 0 < d \<longrightarrow> load32 (ram s) (slot c d) AND PTE_P = 0"
  shows "paging_destroy_addr_space c s = Some (s\<lparr>mm := frame_free c (frame_free (ptab (ram s) c)
      (drop_refs (uent (ram s) c) [512 ..< 768] (mm s)))\<rparr>)"
proof -
  have c: "page_aligned c" "kaddr c" "kaddr (ptab (ram s) c)"
    using A by (simp_all add: addr_space_def kmap_def)
  let ?pt = "ptab (ram s) c"
  define t where "t = s\<lparr>mm := frame_free ?pt (drop_refs (uent (ram s) c) [512 ..< 768] (mm s))\<rparr>"
  have v: "kview s" using kernel_okD [OF ok] by simp
  have ue: "uent (ram s) c = (\<lambda>i. load32 (ram s) (slot ?pt i))" by (simp add: uent_def fun_eq_iff)
  have dt: "destroy_table ?pt s = Some t"
    using destroy_table_run [OF v page_aligned_ptab c(3)] unfolding t_def ue .
  have pr: "load32 (ram s) c AND PTE_P \<noteq> 0"
    using A and7D [of "load32 (ram s) c"] by (simp add: addr_space_def PTE_P_def)
  let ?f = "\<lambda>d s. do {
               pde \<leftarrow> kld32 (slot c d) s;
               if pde AND PTE_P = 0 then Some s
               else let pt = pde AND 0xFFFFF000
                    in if pt = KERNEL_PT \<or> pt = KERNEL_PD then Some s
                       else destroy_table pt s }"
  let ?I = "\<lambda>i s'. s' = (if i = (0 :: nat) then s else t)"
  have "\<exists>s'. for_range ?f 0 1024 s = Some s' \<and> ?I 1024 s'"
  proof (rule for_range_rule [where I = ?I])
    fix i s' assume i: "i < (1024 :: nat)" and I: "?I i s'"
    show "\<exists>s''. ?f i s' = Some s'' \<and> ?I (Suc i) s''"
    proof (cases "i = 0")
      case True
      have "kld32 (slot c 0) s = Some (load32 (ram s) c)"
        using v c by (simp add: kernel_access)
      then show ?thesis
        using True I pr ne dt by (simp add: Let_def flip: fbase_def ptab_def)
    next
      case False
      have "kview t" using v by (simp add: t_def kview_def)
      then have "kld32 (slot c i) t = Some (load32 (ram s) (slot c i))"
        using c i by (simp add: kernel_access kaddr_slot t_def)
      then show ?thesis using False I one i by simp
    qed
  qed simp_all
  then show ?thesis using ne(1) by (auto simp: paging_destroy_addr_space_def t_def)
qed

text \<open>The frames a destroyed space gives back.\<close>

definition own_frames :: "mem \<Rightarrow> mm_state \<Rightarrow> u32 \<Rightarrow> nat set" where
  "own_frames m M c = {f \<in> user_frames m c. frame_refs M ! f \<le> 1}"

lemma destroy_spec:
  assumes ok: "kernel_ok s" and sp: "space_ok (ram s) (mm s) c"
    and ne: "c \<noteq> KERNEL_PD" "ptab (ram s) c \<noteq> KERNEL_PT" "ptab (ram s) c \<noteq> KERNEL_PD" "0 < fno c" "0 < fno (ptab (ram s) c)"
    and one: "\<forall>d<1024. 0 < d \<longrightarrow> load32 (ram s) (slot c d) AND PTE_P = 0"
    and inj: "\<forall>i j. user_page i \<longrightarrow> user_page j \<longrightarrow> uent (ram s) c i AND PTE_P \<noteq> 0 \<longrightarrow> uent (ram s) c j AND PTE_P \<noteq> 0 \<longrightarrow>
      fno (uent (ram s) c i) = fno (uent (ram s) c j) \<longrightarrow> i = j"
    and bnd: "\<forall>f\<in>user_frames (ram s) c. 0 < f \<and> f < FRAME_COUNT"
  obtains M where "paging_destroy_addr_space c s = Some (s\<lparr>mm := M\<rparr>)" "mm_ok M"
    "free_set M = free_set (mm s) \<union> {fno c, fno (ptab (ram s) c)} \<union> own_frames (ram s) (mm s) c"
    "\<forall>f. f \<notin> user_frames (ram s) c \<longrightarrow> frame_refs M ! f = frame_refs (mm s) ! f"
proof -
  have A: "addr_space (ram s) (mm s) c" and uf: "user_frames (ram s) c \<inter> free_set (mm s) = {}"
    using sp by (simp_all add: space_ok_def)
  let ?e = "uent (ram s) c"
  let ?N = "drop_refs ?e [512 ..< 768] (mm s)"
  have mem: "fno (?e j) \<in> user_frames (ram s) c" "fno (?e j) \<notin> free_set (mm s)" if "j \<in> set [512 ..< 768]" "?e j AND PTE_P \<noteq> 0" for j
  proof -
    show f: "fno (?e j) \<in> user_frames (ram s) c"
      using that by (auto simp: user_frames_def user_page_def)
    then show "fno (?e j) \<notin> free_set (mm s)" using uf by auto
  qed
  have mok: "mm_ok (mm s)" using ok by (simp add: kernel_ok_def)
  have D: "mm_ok ?N \<and>
    free_set ?N = free_set (mm s) \<union> {fno (?e j) |j. j \<in> set [512 ..< 768] \<and> ?e j AND PTE_P \<noteq> 0 \<and> frame_refs (mm s) ! fno (?e j) \<le> 1} \<and>
    (\<forall>f. (\<forall>j\<in>set [512 ..< 768]. ?e j AND PTE_P \<noteq> 0 \<longrightarrow> fno (?e j) \<noteq> f) \<longrightarrow> frame_refs ?N ! f = frame_refs (mm s) ! f)"
    by (rule drop_refs_spec [OF mok]) (use bnd mem inj in \<open>auto simp: user_page_def\<close>)
  have own: "{fno (?e j) |j. j \<in> set [512 ..< 768] \<and> ?e j AND PTE_P \<noteq> 0 \<and> frame_refs (mm s) ! fno (?e j) \<le> 1} =
      own_frames (ram s) (mm s) c"
    by (auto simp: own_frames_def user_frames_def user_page_def)
  have lt: "fno c < FRAME_COUNT" "fno (ptab (ram s) c) < FRAME_COUNT"
    using A by (simp_all add: addr_space_def kaddr_def FRAME_COUNT_def)
  note f1 = frame_free_spec [OF conjunct1 [OF D] ne(5) lt(2)]
  note f2 = frame_free_spec [OF f1(3) ne(4) lt(1)]
  show thesis
  proof (rule that [OF destroy_run [OF ok A ne(1-3) one] f2(3)])
    show "free_set (frame_free c (frame_free (ptab (ram s) c) ?N)) =
        free_set (mm s) \<union> {fno c, fno (ptab (ram s) c)} \<union> own_frames (ram s) (mm s) c"
      using f1(1) f2(1) D own by auto
    show "\<forall>f. f \<notin> user_frames (ram s) c \<longrightarrow>
        frame_refs (frame_free c (frame_free (ptab (ram s) c) ?N)) ! f = frame_refs (mm s) ! f"
      using conjunct2 [OF conjunct2 [OF D]] mem(1) unfolding f2(2) f1(2) by metis
  qed
qed


subsection \<open>A concrete machine at boot\<close>

text \<open>
  The tables the boot sector leaves: an identity map at 0xA000 under the directory at 0x9000.
  The examples below run the code's operations on this machine.
\<close>

definition boot_pg :: pg_state where
  "boot_pg = \<lparr>ram = fold (\<lambda>i m. store32 m (slot KERNEL_PT i) (of_nat i * 0x1000 OR 3)) [0 ..< 1024]
       (store32 (\<lambda>_. 0) KERNEL_PD (KERNEL_PT OR 7)),
     cr0 = 0x80000001, cr3 = KERNEL_PD, cr4 = 0, smep_on = False,
     mm = mm_init \<lparr>bitmap = [], frame_refs = []\<rparr>\<rparr>"

lemma fold_store_slots:
  assumes "n \<le> 1024" "page_aligned f"
  shows "(\<forall>x. fbase x \<noteq> f \<longrightarrow> fold (\<lambda>i m. store32 m (slot f i) (w i)) [0 ..< n] m x = m x) \<and>
    (\<forall>j<n. load32 (fold (\<lambda>i m. store32 m (slot f i) (w i)) [0 ..< n] m) (slot f j) = w j)"
  using assms(1)
proof (induction n)
  case (Suc n)
  then show ?case
    using assms(2) by (auto simp: load_store_slot store32_other_page aligned4_slot fbase_slot less_Suc_eq)
qed simp

lemma boot_pg_ram:
  "load32 (ram boot_pg) KERNEL_PD = KERNEL_PT OR 7"
  "i < 1024 \<Longrightarrow> load32 (ram boot_pg) (slot KERNEL_PT i) = of_nat i * 4096 OR 3"
  "d < 1024 \<Longrightarrow> 0 < d \<Longrightarrow> load32 (ram boot_pg) (slot KERNEL_PD d) = 0"
proof -
  let ?m = "store32 (\<lambda>_. 0) KERNEL_PD (KERNEL_PT OR 7)"
  note f = fold_store_slots [of 1024 KERNEL_PT "\<lambda>i. of_nat i * 0x1000 OR 3" ?m]
  have o: "load32 (ram boot_pg) (slot KERNEL_PD d) = load32 ?m (slot KERNEL_PD d)" if "d < 1024" for d
    using f that by (intro load32_page_other) (simp_all add: boot_pg_def aligned4_slot fbase_slot)
  show "load32 (ram boot_pg) KERNEL_PD = KERNEL_PT OR 7"
    using o [of 0] by (simp add: load32_store32_same)
  show "i < 1024 \<Longrightarrow> load32 (ram boot_pg) (slot KERNEL_PT i) = of_nat i * 4096 OR 3"
    using f by (simp add: boot_pg_def)
  show "d < 1024 \<Longrightarrow> 0 < d \<Longrightarrow> load32 (ram boot_pg) (slot KERNEL_PD d) = 0"
    using o load_store_slot [of KERNEL_PD KERNEL_PD 0 d "\<lambda>_. 0" "KERNEL_PT OR 7"]
    by (simp add: load32_def)
qed

lemma boot_pg_fields [simp]:
  "cr3 boot_pg = KERNEL_PD" "mm boot_pg = mm_init \<lparr>bitmap = [], frame_refs = []\<rparr>" "smep_on boot_pg = False"
  by (simp_all add: boot_pg_def)

lemma boot_pg_ok: "boot_tables boot_pg"
proof -
  have p: "ptab (ram boot_pg) KERNEL_PD = KERNEL_PT"
    by (simp add: ptab_def boot_pg_ram flags_7)
  have "kmap (ram boot_pg) KERNEL_PD"
    using and7D [OF flags_7(1) [of KERNEL_PT]]
    by (simp add: kmap_def p boot_pg_ram PTE_P_def PTE_W_def)
  then show ?thesis
    by (simp add: boot_tables_def p mm_init_ok free_set_mm_init) (simp add: pg_consts fno_def)
qed


definition init_pg :: pg_state where
  "init_pg = the (paging_init 7 0x80 boot_pg)"

lemma init_pg:
  "kernel_ok init_pg" "cr3 init_pg = KERNEL_PD" "mm init_pg = mm_init \<lparr>bitmap = [], frame_refs = []\<rparr>"
  "\<forall>d<1024. 0 < d \<longrightarrow> load32 (ram init_pg) (slot KERNEL_PD d) AND PTE_P = 0"
  "user_page i \<Longrightarrow> uent (ram init_pg) KERNEL_PD i = 0"
proof -
  obtain s' where "paging_init 7 0x80 boot_pg = Some s'" "kernel_ok s'" "cr3 s' = KERNEL_PD"
    "mm s' = mm boot_pg" "\<forall>d<1024. 0 < d \<longrightarrow> load32 (ram s') (slot KERNEL_PD d) = load32 (ram boot_pg) (slot KERNEL_PD d)"
    "\<forall>i. user_page i \<longrightarrow> uent (ram s') KERNEL_PD i = 0"
    by (rule paging_init_spec [OF boot_pg_ok, of 7 "0x80"]) (rule that)
  then show "kernel_ok init_pg" "cr3 init_pg = KERNEL_PD" "mm init_pg = mm_init \<lparr>bitmap = [], frame_refs = []\<rparr>"
    "\<forall>d<1024. 0 < d \<longrightarrow> load32 (ram init_pg) (slot KERNEL_PD d) AND PTE_P = 0"
    "user_page i \<Longrightarrow> uent (ram init_pg) KERNEL_PD i = 0"
    by (simp_all add: init_pg_def boot_pg_ram)
qed

lemma init_pg_low: "card (low_frames init_pg) = 208"
proof -
  have "low_frames init_pg = {304 ..< 512}"
    by (auto simp: low_frames_def init_pg free_set_mm_init)
  then show ?thesis by simp
qed

text \<open>The first process: its space created and switched to, as \<open>user_spawn\<close> does.\<close>

definition proc_pg :: pg_state where
  "proc_pg = (let (c, s) = the (paging_create_addr_space init_pg) in paging_switch c s)"

lemma proc_pg:
  "proc_ok proc_pg" "free_set (mm proc_pg) = {304 ..< 768} - {fno (cr3 proc_pg), fno (ptab (ram proc_pg) (cr3 proc_pg))}"
  "user_page i \<Longrightarrow> uent (ram proc_pg) (cr3 proc_pg) i = 0"
  "user_frames (ram proc_pg) (cr3 proc_pg) = {}" "206 \<le> card (low_frames proc_pg)"
proof -
  have "2 \<le> card (low_frames init_pg)" by (simp add: init_pg_low)
  then obtain c s' where c: "paging_create_addr_space init_pg = Some (c, s')" "c \<noteq> 0" "kernel_ok s'"
    "addr_space (ram s') (mm s') c" "\<forall>i. user_page i \<longrightarrow> uent (ram s') c i = 0"
    "fno c \<in> free_set (mm init_pg)" "fno (ptab (ram s') c) \<in> free_set (mm init_pg)"
    "free_set (mm s') = free_set (mm init_pg) - {fno c, fno (ptab (ram s') c)}"
    by (rule create_addr_space_spec [OF init_pg(1)]) (rule that)
  have P: "proc_pg = s'\<lparr>cr3 := c\<rparr>" by (simp add: proc_pg_def c(1) paging_switch_def)
  have uf: "user_frames (ram s') c = {}" using c(5) by (auto simp: user_frames_def)
  have "c \<noteq> KERNEL_PD" "ptab (ram s') c \<noteq> KERNEL_PT" "c \<noteq> KERNEL_PT" "ptab (ram s') c \<noteq> KERNEL_PD"
    using fresh_frame [OF init_pg(1) c(6)] fresh_frame [OF init_pg(1) c(7)] by simp_all
  then show "proc_ok proc_pg"
    using c(3,4) uf by (simp add: proc_ok_def kernel_ok_def space_ok_def P)
  show fs: "free_set (mm proc_pg) = {304 ..< 768} - {fno (cr3 proc_pg), fno (ptab (ram proc_pg) (cr3 proc_pg))}"
    using c(8) by (simp add: P init_pg free_set_mm_init)
  show "user_page i \<Longrightarrow> uent (ram proc_pg) (cr3 proc_pg) i = 0" using c(5) by (simp add: P)
  show "user_frames (ram proc_pg) (cr3 proc_pg) = {}" using uf by (simp add: P)
  have "low_frames proc_pg = {304 ..< 512} - {fno (cr3 proc_pg), fno (ptab (ram proc_pg) (cr3 proc_pg))}"
    unfolding low_frames_def fs by auto
  moreover have "card {304 ..< 512 :: nat} - card {fno (cr3 proc_pg), fno (ptab (ram proc_pg) (cr3 proc_pg))}
      \<le> card ({304 ..< 512} - {fno (cr3 proc_pg), fno (ptab (ram proc_pg) (cr3 proc_pg))})"
    by (rule diff_card_le_card_Diff) simp
  moreover have "card {fno (cr3 proc_pg), fno (ptab (ram proc_pg) (cr3 proc_pg))} \<le> 2"
    by (simp add: card_insert_if)
  ultimately show "206 \<le> card (low_frames proc_pg)" by simp
qed

text \<open>The same process after its first page, page 512, has been mapped.\<close>

definition run_pg :: pg_state where
  "run_pg = snd (the (map_user_page (ptab (ram proc_pg) (cr3 proc_pg)) 512 proc_pg))"

lemma run_pg:
  "proc_ok run_pg" "205 \<le> card (low_frames run_pg)" "uentP run_pg 512"
  "fno (ptab (ram run_pg) (cr3 run_pg)) \<notin> user_frames (ram run_pg) (cr3 run_pg)"
  "\<exists>f. page_aligned f \<and> uent (ram run_pg) (cr3 run_pg) 512 = f OR 7 \<and> fno f < 512"
  "\<exists>f. page_aligned f \<and> free_set (mm run_pg) = free_set (mm proc_pg) - {fno f}"
proof -
  have u: "user_page 512" by (simp add: user_page_def)
  have ne: "free_set (mm proc_pg) \<noteq> {}"
    using proc_pg(5) by (auto simp: low_frames_def)
  obtain f s' where f: "map_user_page (ptab (ram proc_pg) (cr3 proc_pg)) 512 proc_pg = Some (True, s')"
      "page_aligned f" "fno f \<in> free_set (mm proc_pg)" "free_set (mm s') = free_set (mm proc_pg) - {fno f}"
      "proc_ok s'" "cr3 s' = cr3 proc_pg" "ptab (ram s') (cr3 proc_pg) = ptab (ram proc_pg) (cr3 proc_pg)"
      "\<forall>j<1024. uent (ram s') (cr3 proc_pg) j = (if j = 512 then f OR 7 else uent (ram proc_pg) (cr3 proc_pg) j)"
      "\<forall>j\<in>free_set (mm proc_pg). fno f \<le> j"
    by (rule map_user_page_cases [OF proc_pg(1) u]) (use ne proc_pg(3) [OF u] in auto)
  have R: "run_pg = s'" by (simp add: run_pg_def f(1))
  show "proc_ok run_pg" by (simp add: R f)
  have e: "uent (ram s') (cr3 s') j = (if j = 512 then f OR 7 else 0)" if "user_page j" for j
    using f(6,8) proc_pg(3) [OF that] user_page_less [OF that] by simp
  show P: "uentP run_pg 512"
    using e [OF u] page_or7_present [OF f(2)] by (simp add: R uentP_def)
  have nf: "fno (f OR 7) = fno f" by (rule fno_or_flags [OF f(2)]) simp
  have uf: "user_frames (ram s') (cr3 s') = {fno f}"
    using e u page_or7_present [OF f(2)] nf by (auto simp: user_frames_def image_iff intro!: exI [of _ 512])
  have "fno (ptab (ram proc_pg) (cr3 proc_pg)) \<notin> free_set (mm proc_pg)"
    by (simp add: proc_pg)
  then show "fno (ptab (ram run_pg) (cr3 run_pg)) \<notin> user_frames (ram run_pg) (cr3 run_pg)"
    using f(3) unfolding R uf unfolding f(6,7) by auto
  obtain y where "y \<in> free_set (mm proc_pg)" "y < 512"
  proof -
    have "low_frames proc_pg \<noteq> {}" using proc_pg(5) by auto
    then show thesis using that by (auto simp: low_frames_def)
  qed
  then have "fno f < 512" using f(9) by force
  then show "\<exists>f. page_aligned f \<and> uent (ram run_pg) (cr3 run_pg) 512 = f OR 7 \<and> fno f < 512"
    using e [OF u] f(2) by (auto simp: R)
  show "\<exists>f. page_aligned f \<and> free_set (mm run_pg) = free_set (mm proc_pg) - {fno f}"
    using f(2,4) by (auto simp: R)
  have "low_frames run_pg = low_frames proc_pg - {fno f}"
    using f(4) by (auto simp: low_frames_def R)
  then show "205 \<le> card (low_frames run_pg)"
    using proc_pg(5) diff_card_le_card_Diff [of "{fno f}" "low_frames proc_pg"] by simp
qed

subsection \<open>Properties\<close>

text \<open>\<open>paging_init\<close>, run on the boot sector's tables, keeps the kernel alive through every
  store to the table it runs on and leaves an identity map for the kernel, writes protected by
  CR0.WP, no access of any kind in the user window, and SMEP on exactly when the processor has it.\<close>

lemma paging_init_map:
  assumes "boot_tables s"
  shows "\<exists>s'. paging_init ml eb s = Some s' \<and> cr3 s' = KERNEL_PD \<and> wp_set s' \<and> mm s' = mm s \<and>
    (\<forall>va w. kaddr va \<longrightarrow> ktrans s' w va = Some va) \<and>
    (\<forall>va u w. user_page (fno va) \<longrightarrow> x86_walk (ram s') True KERNEL_PD u w va = None) \<and>
    (\<forall>va w. fno va < 1024 \<longrightarrow> x86_walk (ram s') True KERNEL_PD True w va = None) \<and>
    (paging_smep_enabled s' \<longleftrightarrow> paging_smep_enabled s \<or> 7 \<le> ml \<and> eb AND push_bit 7 1 \<noteq> 0)"
proof -
  obtain s' where s': "paging_init ml eb s = Some s'" "kernel_ok s'" "cr3 s' = KERNEL_PD" "wp_set s'"
    "mm s' = mm s" "\<forall>i. user_page i \<longrightarrow> uent (ram s') KERNEL_PD i = 0"
    "smep_on s' \<longleftrightarrow> smep_on s \<or> 7 \<le> ml \<and> eb AND push_bit 7 1 \<noteq> 0"
    by (rule paging_init_spec [OF assms]) (rule that)
  have A: "addr_space (ram s') (mm s') KERNEL_PD" using s'(2) by (simp add: kernel_ok_def)
  then have k: "kmap (ram s') KERNEL_PD" by (simp add: addr_space_def)
  have u: "x86_walk (ram s') True KERNEL_PD u w va = None" if "user_page (fno va)" for va u w
    using s'(6) that by (simp add: walk_uent [OF A user_page_less] pte_allows_def)
  then have "x86_walk (ram s') True KERNEL_PD True w va = None" if "fno va < 1024" for va w
    using user_confined [OF A that] by (cases "user_page (fno va)") auto
  then show ?thesis
    using s' u kmap_walk [OF k] by (auto simp: ktrans_def paging_smep_enabled_def)
qed

lemma paging_init_map_witness:
  "paging_init 7 0x80 boot_pg = Some init_pg \<and> paging_smep_enabled init_pg"
  using paging_init_map [OF boot_pg_ok, of 7 "0x80"] by (auto simp: init_pg_def)

text \<open>\<open>paging_create_addr_space\<close>, when two free frames lie in the kernel's reach, returns a
  new directory in which every kernel address maps to itself and no user-mode access below
  4 MB translates, keeps the running space usable, and takes two frames and no reference count.\<close>

lemma create_addr_space_empty:
  assumes "kernel_ok s" and "2 \<le> card (low_frames s)"
  shows "\<exists>c s'. paging_create_addr_space s = Some (c, s') \<and> c \<noteq> 0 \<and> kernel_ok s' \<and> cr3 s' = cr3 s \<and>
    (\<forall>va w wp. kaddr va \<longrightarrow> x86_walk (ram s') wp c False w va = Some va) \<and>
    (\<forall>va w wp. fno va < 1024 \<longrightarrow> x86_walk (ram s') wp c True w va = None) \<and>
    mm_free_frames (mm s') + 2 = mm_free_frames (mm s) \<and> frame_refs (mm s') = frame_refs (mm s)"
proof -
  obtain c s' where c: "paging_create_addr_space s = Some (c, s')" "c \<noteq> 0" "kernel_ok s'"
    "addr_space (ram s') (mm s') c" "\<forall>i. user_page i \<longrightarrow> uent (ram s') c i = 0"
    "fno c \<in> free_set (mm s)" "fno (ptab (ram s') c) \<in> free_set (mm s)" "cr3 s' = cr3 s"
    "c \<noteq> ptab (ram s') c"
    "free_set (mm s') = free_set (mm s) - {fno c, fno (ptab (ram s') c)}"
    "frame_refs (mm s') = frame_refs (mm s)"
    by (rule create_addr_space_spec [OF assms]) (rule that)
  have k: "kmap (ram s') c" "page_aligned c" using c(4) by (simp_all add: addr_space_def kmap_def)
  have "x86_walk (ram s') wp c True w va = None" if "fno va < 1024" for wp w va
    using c(5) walk_uent [OF c(4) that] user_confined [OF c(4) that]
    by (cases "user_page (fno va)") (auto simp: pte_allows_def)
  moreover have "mm_free_frames (mm s') + 2 = mm_free_frames (mm s)"
  proof -
    have ne: "fno c \<noteq> fno (ptab (ram s') c)" using c(9) k by (simp add: fno_inject)
    then have 2: "card {fno c, fno (ptab (ram s') c)} = 2" by simp
    have sub: "{fno c, fno (ptab (ram s') c)} \<subseteq> free_set (mm s)" using c by simp
    have "finite (free_set (mm s))" by (simp add: free_set_def)
    then have "2 \<le> card (free_set (mm s))" using card_mono [OF _ sub] 2 by simp
    then show ?thesis
      using card_Diff_subset [OF _ sub] 2 by (simp add: mm_free_frames_card c(10))
  qed
  ultimately show ?thesis
    using c kmap_walk [OF k(1)] by blast
qed

lemma create_addr_space_empty_witness:
  "\<exists>c s'. paging_create_addr_space init_pg = Some (c, s') \<and> c \<noteq> 0 \<and> mm_free_frames (mm s') = 462"
  using create_addr_space_empty [OF init_pg(1)] init_pg_low
  by (fastforce simp: mm_free_frames_card init_pg free_set_mm_init)




text \<open>The byte a user address reads sits in a frame that is neither free nor a table.\<close>

lemma user_data_frame:
  assumes "space_ok m M c" "user_page (fno va)" "uent m c (fno va) AND PTE_P \<noteq> 0" "fno t \<notin> user_frames m c"
  shows "fno (fbase (uent m c (fno va)) + (va AND 0xFFF)) \<notin> free_set M"
    and "fbase (fbase (uent m c (fno va)) + (va AND 0xFFF)) \<noteq> fbase t"
proof -
  have f: "fno (uent m c (fno va)) \<in> user_frames m c" using assms(2,3) by (auto simp: user_frames_def)
  have off: "unat (va AND 0xFFF) < 4096" by (simp add: unat_and_0xFFF)
  have n: "fno (fbase (uent m c (fno va)) + (va AND 0xFFF)) = fno (uent m c (fno va))"
    using fno_page_plus [OF _ off, of "fbase (uent m c (fno va))"] by simp
  then show "fno (fbase (uent m c (fno va)) + (va AND 0xFFF)) \<notin> free_set M"
    using f assms(1) by (auto simp: space_ok_def)
  show "fbase (fbase (uent m c (fno va)) + (va AND 0xFFF)) \<noteq> fbase t"
    using n f assms(4) fno_fbase by metis
qed

text \<open>C4: \<open>paging_fork_addr_space\<close> of the running process gives the child the parent's user
  memory byte for byte and changes nothing the parent can read; afterwards neither of them can
  write any page, so each one's next write faults into copy-on-write.\<close>

theorem fork_shares_memory:
  assumes "proc_ok s" and "2 \<le> card (low_frames s)"
    and "fno (ptab (ram s) (cr3 s)) \<notin> user_frames (ram s) (cr3 s)"
  shows "\<exists>c s'. paging_fork_addr_space (cr3 s) s = Some (c, s') \<and> c \<noteq> 0 \<and> cr3 s' = cr3 s \<and>
    (\<forall>va. user_page (fno va) \<longrightarrow> user_byte s' c va = user_byte s (cr3 s) va \<and>
       user_byte s' (cr3 s) va = user_byte s (cr3 s) va \<and>
       \<not> user_writable s' c va \<and> \<not> user_writable s' (cr3 s) va) \<and>
    frame_refs (mm s') = frame_refs (share_refs (uent (ram s) (cr3 s)) [512 ..< 768] (mm s))"
proof -
  let ?c = "cr3 s" and ?pt = "ptab (ram s) (cr3 s)"
  obtain c s' where c: "paging_fork_addr_space ?c s = Some (c, s')" "c \<noteq> 0" "cr3 s' = ?c"
    "addr_space (ram s') (mm s') c" "addr_space (ram s') (mm s') ?c"
    "\<forall>i. user_page i \<longrightarrow> uent (ram s') c i = shared_entry (uent (ram s) ?c i) \<and>
       uent (ram s') ?c i = shared_entry (uent (ram s) ?c i)"
    "\<forall>x. fno x \<notin> free_set (mm s) \<longrightarrow> fbase x \<noteq> ?pt \<longrightarrow> ram s' x = ram s x"
    "frame_refs (mm s') = frame_refs (share_refs (uent (ram s) ?c) [512 ..< 768] (mm s))"
    by (rule fork_spec [OF assms(1,2)]) (rule that)
  have sp: "space_ok (ram s) (mm s) ?c" using assms(1) by (simp add: proc_ok_def)
  then have A: "addr_space (ram s) (mm s) ?c" by (simp add: space_ok_def)
  have "user_byte s' c va = user_byte s ?c va \<and> user_byte s' ?c va = user_byte s ?c va \<and>
       \<not> user_writable s' c va \<and> \<not> user_writable s' ?c va" if u: "user_page (fno va)" for va
  proof -
    note v = user_page_less [OF u]
    let ?e = "uent (ram s) ?c (fno va)"
    have d: "ram s' (fbase ?e + (va AND 0xFFF)) = ram s (fbase ?e + (va AND 0xFFF))" if "?e AND PTE_P \<noteq> 0"
      using c(7) user_data_frame [OF sp u that assms(3)] by (simp add: fbase_aligned)
    show ?thesis
      using d c(6) u
      by (auto simp: user_byte_walk [OF c(4) v] user_byte_walk [OF c(5) v] user_byte_walk [OF A v]
          user_writable_walk [OF c(4) v] user_writable_walk [OF c(5) v] shared_entry_flags)
  qed
  then show ?thesis using c by blast
qed


theorem fork_shares_memory_witness:
  "\<exists>c s'. paging_fork_addr_space (cr3 run_pg) run_pg = Some (c, s') \<and> c \<noteq> 0 \<and>
     user_byte s' c 0x200010 = user_byte run_pg (cr3 run_pg) 0x200010 \<and> \<not> user_writable s' c 0x200010"
proof -
  have u: "user_page (fno 0x200010)" by (simp add: user_page_def fno_def)
  have "2 \<le> card (low_frames run_pg)" using run_pg(2) by simp
  then show ?thesis using fork_shares_memory [OF run_pg(1) _ run_pg(4)] u by blast
qed


text \<open>A process that shares its only page: the parent right after a fork.\<close>

definition forked_pg :: pg_state where
  "forked_pg = snd (the (paging_fork_addr_space (cr3 run_pg) run_pg))"



text \<open>\<open>paging_destroy_addr_space\<close> returns to the pool exactly the space's two tables and those
  of its user frames that no other space still counts; memory and the counts of frames the space
  did not map are unchanged.\<close>

lemma destroy_returns_frames:
  assumes "kernel_ok s" and "space_ok (ram s) (mm s) c"
    and "c \<noteq> KERNEL_PD" "ptab (ram s) c \<noteq> KERNEL_PT" "ptab (ram s) c \<noteq> KERNEL_PD" "0 < fno c" "0 < fno (ptab (ram s) c)"
    and "\<forall>d<1024. 0 < d \<longrightarrow> load32 (ram s) (slot c d) AND PTE_P = 0"
    and "\<forall>i j. user_page i \<longrightarrow> user_page j \<longrightarrow> uent (ram s) c i AND PTE_P \<noteq> 0 \<longrightarrow> uent (ram s) c j AND PTE_P \<noteq> 0 \<longrightarrow>
      fno (uent (ram s) c i) = fno (uent (ram s) c j) \<longrightarrow> i = j"
    and "\<forall>f\<in>user_frames (ram s) c. 0 < f \<and> f < FRAME_COUNT"
  shows "\<exists>M. paging_destroy_addr_space c s = Some (s\<lparr>mm := M\<rparr>) \<and> mm_ok M \<and>
    free_set M = free_set (mm s) \<union> {fno c, fno (ptab (ram s) c)} \<union>
      {f \<in> user_frames (ram s) c. frame_refs (mm s) ! f \<le> 1} \<and>
    (\<forall>f. f \<notin> user_frames (ram s) c \<longrightarrow> frame_refs M ! f = frame_refs (mm s) ! f)"
  by (rule destroy_spec [OF assms]) (auto simp: own_frames_def)

lemma create_destroy_hyps:
  assumes "paging_create_addr_space init_pg = Some (c, s)"
  shows "kernel_ok s" "space_ok (ram s) (mm s) c" "c \<noteq> KERNEL_PD" "ptab (ram s) c \<noteq> KERNEL_PT"
    "ptab (ram s) c \<noteq> KERNEL_PD" "0 < fno c" "0 < fno (ptab (ram s) c)"
    "\<forall>d<1024. 0 < d \<longrightarrow> load32 (ram s) (slot c d) AND PTE_P = 0" "user_frames (ram s) c = {}"
    "free_set (mm s) \<union> {fno c, fno (ptab (ram s) c)} = {304 ..< 768}"
proof -
  have "2 \<le> card (low_frames init_pg)" by (simp add: init_pg_low)
  then obtain c' s' where
    "paging_create_addr_space init_pg = Some (c', s')" "kernel_ok s'"
    "addr_space (ram s') (mm s') c'" "\<forall>i. user_page i \<longrightarrow> uent (ram s') c' i = 0"
    "fno c' \<in> free_set (mm init_pg)" "fno (ptab (ram s') c') \<in> free_set (mm init_pg)"
    "free_set (mm s') = free_set (mm init_pg) - {fno c', fno (ptab (ram s') c')}"
    "\<forall>d<1024. 0 < d \<longrightarrow> load32 (ram s') (slot c' d) = load32 (ram init_pg) (slot KERNEL_PD d)"
    by (rule create_addr_space_spec [OF init_pg(1)]) (rule that)
  with assms have c: "kernel_ok s" "addr_space (ram s) (mm s) c" "\<forall>i. user_page i \<longrightarrow> uent (ram s) c i = 0"
    "fno c \<in> free_set (mm init_pg)" "fno (ptab (ram s) c) \<in> free_set (mm init_pg)"
    "free_set (mm s) = free_set (mm init_pg) - {fno c, fno (ptab (ram s) c)}"
    "\<forall>d<1024. 0 < d \<longrightarrow> load32 (ram s) (slot c d) = load32 (ram init_pg) (slot KERNEL_PD d)"
    by simp_all
  show "kernel_ok s" by (rule c)
  show u: "user_frames (ram s) c = {}" using c(3) by (auto simp: user_frames_def)
  show "space_ok (ram s) (mm s) c" using c(2) u by (simp add: space_ok_def)
  show "c \<noteq> KERNEL_PD" "ptab (ram s) c \<noteq> KERNEL_PT" "ptab (ram s) c \<noteq> KERNEL_PD"
    using fresh_frame [OF init_pg(1) c(4)] fresh_frame [OF init_pg(1) c(5)] by simp_all
  show "0 < fno c" "0 < fno (ptab (ram s) c)" using c(4,5) by (auto simp: init_pg free_set_mm_init)
  show "\<forall>d<1024. 0 < d \<longrightarrow> load32 (ram s) (slot c d) AND PTE_P = 0" using c(7) init_pg(4) by simp
  show "free_set (mm s) \<union> {fno c, fno (ptab (ram s) c)} = {304 ..< 768}"
    using c(4,5) unfolding c(6) init_pg(3) free_set_mm_init by blast
qed

lemma destroy_returns_frames_witness:
  "\<exists>c s M. paging_create_addr_space init_pg = Some (c, s) \<and>
     paging_destroy_addr_space c s = Some (s\<lparr>mm := M\<rparr>) \<and> free_set M = {304 ..< 768}"
proof -
  have "2 \<le> card (low_frames init_pg)" by (simp add: init_pg_low)
  then obtain c s where c: "paging_create_addr_space init_pg = Some (c, s)"
    by (rule create_addr_space_spec [OF init_pg(1)]) (rule that)
  note h = create_destroy_hyps [OF c]
  have inj: "\<forall>i j. user_page i \<longrightarrow> user_page j \<longrightarrow> uent (ram s) c i AND PTE_P \<noteq> 0 \<longrightarrow> uent (ram s) c j AND PTE_P \<noteq> 0 \<longrightarrow>
      fno (uent (ram s) c i) = fno (uent (ram s) c j) \<longrightarrow> i = j"
    using h(9) by (auto simp: user_frames_def)
  have "\<forall>f\<in>user_frames (ram s) c. 0 < f \<and> f < FRAME_COUNT" by (simp add: h(9))
  from destroy_returns_frames [OF h(1-8) inj this] show ?thesis
    using c h(9,10) by auto
qed

text \<open>C6: the allocator also hands out the frames 0x200 to 0x2FF, whose addresses lie in the user
  window that no kernel table maps.  Once the lower frames are used up, creating an address space
  from a kernel task faults inside the kernel (here \<open>None\<close>) although free frames are left.\<close>

theorem create_addr_space_panics_high:
  assumes "kernel_ok s" and "low_frames s = {}" "2 \<le> card (free_set (mm s))" "free_set (mm s) \<subseteq> {..<768}"
    and "\<forall>i. user_page i \<longrightarrow> uent (ram s) (cr3 s) i AND PTE_P = 0"
  shows "paging_create_addr_space s = None"
proof -
  have A: "addr_space (ram s) (mm s) (cr3 s)" using assms(1) by (simp add: kernel_ok_def)
  note k = kernel_okD [OF assms(1)]
  obtain r s1 where al: "alloc_tables s = (r, s1)" by fastforce
  have "r \<noteq> None"
  proof
    assume "r = None"
    obtain a m1 where a: "frame_alloc (mm s) = (a, m1)" by fastforce
    obtain b m2 where b: "frame_alloc m1 = (b, m2)" by fastforce
    have a0: "a \<noteq> 0" using fp.alloc_null [OF k(1)] a assms(3) by fastforce
    note fa = frame_alloc_spec [OF k(1) a a0]
    have "card (free_set m1) = card (free_set (mm s)) - 1" using fa(2,4) by simp
    then have "free_set m1 \<noteq> {}" using assms(3) by fastforce
    then have "b \<noteq> 0" using fp.alloc_null [OF fa(6)] b by blast
    with a0 a b al \<open>r = None\<close> show False by (simp add: alloc_tables_def)
  qed
  then obtain pd pt where r: "r = Some (pd, pt)" by fastforce
  obtain M where M: "s1 = s\<lparr>mm := M\<rparr>" "page_aligned pt" "fno pt \<in> free_set (mm s)"
    by (rule alloc_tables_Some [OF k(1) al [unfolded r]]) (rule that)
  have u: "user_page (fno pt)" using M(3) assms(2,4) by (fastforce simp: low_frames_def user_page_def)
  have "x86_walk (ram s) wp (cr3 s) False True pt = None" for wp
    using walk_uent [OF A user_page_less [OF u]] assms(5) u by (simp add: pte_allows_def)
  then have "kst8 pt v s1 = None" for v by (simp add: kst8_def ktrans_def M(1) wp_set_def)
  then have "vmemcpy pt KERNEL_PT (Suc n) s1 = None" for n
    by (cases "kld8 KERNEL_PT s1") simp_all
  from this [of 4095] have "vmemcpy pt KERNEL_PT 4096 s1 = None" by simp
  then show ?thesis using al r by (simp add: paging_create_addr_space_def)
qed

definition high_pg :: pg_state where
  "high_pg = init_pg\<lparr>mm := fold mark_used [304 ..< 512] (mm init_pg)\<rparr>"

theorem create_addr_space_panics_high_witness:
  "mm_free_frames (mm high_pg) = 256 \<and> paging_create_addr_space high_pg = None"
proof -
  have wf: "mm_wf (mm init_pg)" using mm_init_ok by (simp add: init_pg mm_ok_def)
  have used: "frame_used (mm high_pg) j = (j \<in> {304 ..< 512} \<or> frame_used (mm init_pg) j)" for j
  proof -
    have "set [304 ..< 512] \<subseteq> {..<FRAME_COUNT}" by (auto simp: FRAME_COUNT_def)
    from frame_used_fold_mark [OF wf this, of j] show ?thesis by (simp add: high_pg_def)
  qed
  have "free_set (mm high_pg) = free_set (mm init_pg) - {304 ..< 512}"
    unfolding free_set_def used by auto
  then have fs: "free_set (mm high_pg) = {512 ..< 768}"
    by (auto simp: init_pg free_set_mm_init)
  have ok: "mm_ok (mm high_pg)"
    using wf by (simp add: mm_ok_def fs) (simp add: high_pg_def mm_wf_fold_mark)
  have sub: "free_set (mm high_pg) \<subseteq> free_set (mm init_pg)" by (auto simp: fs init_pg free_set_mm_init)
  have "kernel_ok high_pg"
    using init_pg(1) ok addr_space_mono [OF _ sub]
    by (simp add: kernel_ok_def) (simp add: high_pg_def)
  moreover have "\<forall>i. user_page i \<longrightarrow> uent (ram high_pg) (cr3 high_pg) i AND PTE_P = 0"
    by (simp add: high_pg_def init_pg)
  moreover have "low_frames high_pg = {}" by (auto simp: low_frames_def fs)
  moreover have "{512 ..< 768 :: nat} \<subseteq> {..<768}" by auto
  ultimately show ?thesis
    using create_addr_space_panics_high [of high_pg] by (simp add: fs mm_free_frames_card)
qed

end
