(* ===== verification/KHeap.thy ===== *)
theory KHeap
  imports FrameAlloc
begin

section \<open>The kernel heap (kernel/kheap.c)\<close>

text \<open>
  A first-fit allocator over 0x300000 to 0x400000.  The block headers live in memory, three
  dwords each, and the operations walk them through the \<open>next\<close> pointers; the kernel reaches
  the arena one to one, so its loads and stores are plain ones.  A walk is a
  \<open>partial_function\<close>: a cyclic list would make it diverge (\<open>None\<close>), and the lemmas show
  that it returns on every heap the operations build.
\<close>

definition HEAP_START :: u32 where "HEAP_START = 0x300000"
definition HEAP_END :: u32 where "HEAP_END = 0x400000"
definition BLOCK_HDR :: u32 where "BLOCK_HDR = 12"

record kheap =
  hram :: mem
  heap_head :: u32

text \<open>The fields of the \<open>block_t\<close> at \<open>b\<close>, and their updates.\<close>

definition blk_size :: "mem \<Rightarrow> u32 \<Rightarrow> u32" where "blk_size m b = load32 m b"
definition blk_free :: "mem \<Rightarrow> u32 \<Rightarrow> u32" where "blk_free m b = load32 m (b + 4)"
definition blk_next :: "mem \<Rightarrow> u32 \<Rightarrow> u32" where "blk_next m b = load32 m (b + 8)"
definition set_size :: "u32 \<Rightarrow> u32 \<Rightarrow> mem \<Rightarrow> mem" where "set_size b v m = store32 m b v"
definition set_free :: "u32 \<Rightarrow> u32 \<Rightarrow> mem \<Rightarrow> mem" where "set_free b v m = store32 m (b + 4) v"
definition set_next :: "u32 \<Rightarrow> u32 \<Rightarrow> mem \<Rightarrow> mem" where "set_next b v m = store32 m (b + 8) v"

definition kheap_init :: "kheap \<Rightarrow> kheap" where
  "kheap_init s =
     (let m = set_size HEAP_START (HEAP_END - HEAP_START - BLOCK_HDR) (hram s);
          m = set_free HEAP_START 1 m;
          m = set_next HEAP_START 0 m
      in s\<lparr>hram := m, heap_head := HEAP_START\<rparr>)"

definition heap_split :: "u32 \<Rightarrow> u32 \<Rightarrow> mem \<Rightarrow> mem" where
  "heap_split b need m =
     (let total = blk_size m b
      in if total - need \<le> BLOCK_HDR + 8 then m
         else let rest = b + BLOCK_HDR + need;
                  m = set_size rest (total - need - BLOCK_HDR) m;
                  m = set_free rest 1 m;
                  m = set_next rest (blk_next m b) m;
                  m = set_size b need m
              in set_next b rest m)"

partial_function (option) kmalloc_walk :: "u32 \<Rightarrow> u32 \<Rightarrow> mem \<Rightarrow> (u32 \<times> mem) option" where
  "kmalloc_walk sz b m =
     (if b = 0 then Some (0, m)
      else if blk_free m b \<noteq> 0 \<and> sz \<le> blk_size m b
           then Some (b + BLOCK_HDR, set_free b 0 (heap_split b sz m))
           else kmalloc_walk sz (blk_next m b) m)"

definition kmalloc :: "u32 \<Rightarrow> kheap \<Rightarrow> (u32 \<times> kheap) option" where
  "kmalloc sz s =
     (let sz = (if sz = 0 then 8 else sz);
          sz = (sz + 7) AND NOT 7
      in map_option (\<lambda>(p, m). (p, s\<lparr>hram := m\<rparr>)) (kmalloc_walk sz (heap_head s) (hram s)))"

partial_function (option) coalesce :: "u32 \<Rightarrow> mem \<Rightarrow> mem option" where
  "coalesce b m =
     (if blk_next m b \<noteq> 0 \<and> blk_free m (blk_next m b) \<noteq> 0
      then let m = set_size b (blk_size m b + (BLOCK_HDR + blk_size m (blk_next m b))) m
           in coalesce b (set_next b (blk_next m (blk_next m b)) m)
      else Some m)"

definition kfree :: "u32 \<Rightarrow> kheap \<Rightarrow> kheap option" where
  "kfree ptr s =
     (if ptr = 0 then Some s
      else let b = ptr - BLOCK_HDR
           in map_option (\<lambda>m. s\<lparr>hram := m\<rparr>) (coalesce b (set_free b 1 (hram s))))"

partial_function (option) used_walk :: "u32 \<Rightarrow> mem \<Rightarrow> u32 \<Rightarrow> u32 option" where
  "used_walk b m used =
     (if b = 0 then Some used
      else used_walk (blk_next m b) m (if blk_free m b = 0 then used + blk_size m b else used))"

definition kheap_used :: "kheap \<Rightarrow> u32 option" where
  "kheap_used s = used_walk (heap_head s) (hram s) 0"

lemmas heap_consts = HEAP_START_def HEAP_END_def BLOCK_HDR_def

subsection \<open>Reading the fields after an update\<close>

lemma load_store_nat:
  assumes "a mod 4 = 0" "c mod 4 = 0" "a < 4294967296" "c < 4294967296"
  shows "load32 (store32 m (of_nat a) v) (of_nat c) = (if a = c then v else load32 m (of_nat c))"
proof -
  have al: "aligned4 (of_nat a)" "aligned4 (of_nat c)"
    using assms by (simp_all add: aligned4_def unat_of_nat32)
  have "(of_nat a :: u32) \<noteq> of_nat c" if "a \<noteq> c"
    using that assms by (metis unat_of_nat32)
  then show ?thesis
    using al by (auto simp: load32_store32_same load32_store32_other)
qed

lemma store_nat_outside:
  assumes "a mod 4 = 0" "a < 4294967296" "x < 4294967296" "x < a \<or> a + 4 \<le> x"
  shows "store32 m (of_nat a) v (of_nat x) = m (of_nat x)"
proof (rule store32_outside)
  show "of_nat x \<notin> dword_bytes (of_nat a)"
  proof
    assume "of_nat x \<in> dword_bytes (of_nat a)"
    then have "unat (of_nat x :: u32) div 4 = unat (of_nat a :: u32) div 4"
      using assms(1,2) by (intro dword_bytes_quad) (simp_all add: aligned4_def unat_of_nat32)
    then have "x div 4 = a div 4" using assms by (simp add: unat_of_nat32)
    moreover obtain q where "a = 4 * q" using assms(1) by auto
    ultimately show False using assms(4) by auto
  qed
qed

text \<open>Two block headers coincide or are at least one header apart.\<close>

definition hdr_apart :: "nat \<Rightarrow> nat \<Rightarrow> bool" where
  "hdr_apart a c \<longleftrightarrow> a mod 4 = 0 \<and> c mod 4 = 0 \<and> a + 12 < 4294967296 \<and> c + 12 < 4294967296 \<and>
     (a = c \<or> a + 12 \<le> c \<or> c + 12 \<le> a)"

lemma field_addr: "of_nat a + 4 = (of_nat (a + 4) :: u32)" "of_nat a + 8 = (of_nat (a + 8) :: u32)"
  by simp_all

lemma mod4_add: "a mod 4 = 0 \<Longrightarrow> (a + 4) mod 4 = (0 :: nat)" "a mod 4 = 0 \<Longrightarrow> (a + 8) mod 4 = (0 :: nat)"
  by presburger+

lemma blk_get_set:
  assumes "hdr_apart a c"
  shows "blk_size (set_size (of_nat a) v m) (of_nat c) = (if a = c then v else blk_size m (of_nat c))"
    and "blk_free (set_size (of_nat a) v m) (of_nat c) = blk_free m (of_nat c)"
    and "blk_next (set_size (of_nat a) v m) (of_nat c) = blk_next m (of_nat c)"
    and "blk_size (set_free (of_nat a) v m) (of_nat c) = blk_size m (of_nat c)"
    and "blk_free (set_free (of_nat a) v m) (of_nat c) = (if a = c then v else blk_free m (of_nat c))"
    and "blk_next (set_free (of_nat a) v m) (of_nat c) = blk_next m (of_nat c)"
    and "blk_size (set_next (of_nat a) v m) (of_nat c) = blk_size m (of_nat c)"
    and "blk_free (set_next (of_nat a) v m) (of_nat c) = blk_free m (of_nat c)"
    and "blk_next (set_next (of_nat a) v m) (of_nat c) = (if a = c then v else blk_next m (of_nat c))"
proof -
  have h: "a mod 4 = 0" "c mod 4 = 0" "a < 4294967296" "c < 4294967296"
    "a + 4 < 4294967296" "a + 8 < 4294967296" "c + 4 < 4294967296" "c + 8 < 4294967296"
    and d: "a = c \<or> a + 12 \<le> c \<or> c + 12 \<le> a"
    using assms by (auto simp: hdr_apart_def)
  note r = load_store_nat [OF _ _ h(3)] load_store_nat [OF _ _ h(5)] load_store_nat [OF _ _ h(6)]
  have m: "(a + 4) mod 4 = 0" "(a + 8) mod 4 = 0" "(c + 4) mod 4 = 0" "(c + 8) mod 4 = 0"
    using mod4_add [OF h(1)] mod4_add [OF h(2)] by simp_all
  note defs = blk_size_def blk_free_def blk_next_def set_size_def set_free_def set_next_def
  show "blk_size (set_size (of_nat a) v m) (of_nat c) = (if a = c then v else blk_size m (of_nat c))"
    "blk_free (set_size (of_nat a) v m) (of_nat c) = blk_free m (of_nat c)"
    "blk_next (set_size (of_nat a) v m) (of_nat c) = blk_next m (of_nat c)"
    "blk_size (set_free (of_nat a) v m) (of_nat c) = blk_size m (of_nat c)"
    "blk_free (set_free (of_nat a) v m) (of_nat c) = (if a = c then v else blk_free m (of_nat c))"
    "blk_next (set_free (of_nat a) v m) (of_nat c) = blk_next m (of_nat c)"
    "blk_size (set_next (of_nat a) v m) (of_nat c) = blk_size m (of_nat c)"
    "blk_free (set_next (of_nat a) v m) (of_nat c) = blk_free m (of_nat c)"
    "blk_next (set_next (of_nat a) v m) (of_nat c) = (if a = c then v else blk_next m (of_nat c))"
    unfolding defs field_addr using h m d
    by (subst load_store_nat; force)+
qed

text \<open>Payload bytes are not touched by header updates.\<close>

lemma set_outside:
  assumes "a mod 4 = 0" "a + 12 < 4294967296" "x < 4294967296" "x < a \<or> a + 12 \<le> x"
  shows "set_size (of_nat a) v m (of_nat x) = m (of_nat x)"
    and "set_free (of_nat a) v m (of_nat x) = m (of_nat x)"
    and "set_next (of_nat a) v m (of_nat x) = m (of_nat x)"
  unfolding set_size_def set_free_def set_next_def field_addr
  using assms mod4_add by (intro store_nat_outside; auto)+

subsection \<open>The abstract heap: a list of sizes and free marks\<close>

text \<open>
  \<open>heap_at m a bs\<close>: memory holds, from address \<open>a\<close> to the end of the arena, exactly the
  blocks \<open>bs\<close> (payload size, free), laid out back to back and linked in address order.
\<close>

fun heap_at :: "mem \<Rightarrow> nat \<Rightarrow> (nat \<times> bool) list \<Rightarrow> bool" where
  "heap_at m a [] = (a = 0x400000)"
| "heap_at m a ((n, f) # bs) =
     (a mod 4 = 0 \<and> 0x300000 \<le> a \<and> n mod 4 = 0 \<and> a + 12 + n \<le> 0x400000 \<and>
      blk_size m (of_nat a) = of_nat n \<and> blk_free m (of_nat a) = (if f then 1 else 0) \<and>
      blk_next m (of_nat a) = (if bs = [] then 0 else of_nat (a + 12 + n)) \<and> heap_at m (a + 12 + n) bs)"

text \<open>The payload bytes in use.\<close>

fun used_at :: "nat \<Rightarrow> (nat \<times> bool) list \<Rightarrow> nat set" where
  "used_at a [] = {}"
| "used_at a ((n, f) # bs) = (if f then {} else {a + 12 ..< a + 12 + n}) \<union> used_at (a + 12 + n) bs"

text \<open>First fit on the list: the offset of the block taken, and the new list.\<close>

fun ff_alloc :: "nat \<Rightarrow> (nat \<times> bool) list \<Rightarrow> (nat \<times> (nat \<times> bool) list) option" where
  "ff_alloc k [] = None"
| "ff_alloc k ((n, f) # bs) =
     (if f \<and> k \<le> n
      then Some (0, if n - k \<le> 20 then (n, False) # bs else (k, False) # (n - k - 12, True) # bs)
      else map_option (\<lambda>(i, bs'). (i + 12 + n, (n, f) # bs')) (ff_alloc k bs))"

text \<open>Freeing the block at offset \<open>i\<close>: it absorbs the free blocks right after it.\<close>

fun merge_free :: "nat \<Rightarrow> (nat \<times> bool) list \<Rightarrow> (nat \<times> bool) list" where
  "merge_free n ((k, True) # bs) = merge_free (n + 12 + k) bs"
| "merge_free n bs = (n, True) # bs"

fun ff_free :: "nat \<Rightarrow> (nat \<times> bool) list \<Rightarrow> (nat \<times> bool) list" where
  "ff_free i [] = []"
| "ff_free i ((n, f) # bs) =
     (if i = 0 then merge_free n bs
      else if i < 12 + n then (n, f) # bs else (n, f) # ff_free (i - (12 + n)) bs)"

text \<open>The block that starts at an offset of the arena.\<close>

fun blk_at :: "nat \<Rightarrow> (nat \<times> bool) list \<Rightarrow> (nat \<times> bool) option" where
  "blk_at i [] = None"
| "blk_at i ((n, f) # bs) =
     (if i = 0 then Some (n, f) else if i < 12 + n then None else blk_at (i - (12 + n)) bs)"

lemma heap_at_le: "heap_at m a bs \<Longrightarrow> a \<le> 0x400000"
  by (cases bs) auto

lemma used_at_bounds: "heap_at m a bs \<Longrightarrow> x \<in> used_at a bs \<Longrightarrow> a + 12 \<le> x \<and> x < 0x400000"
proof (induction bs arbitrary: a)
  case (Cons b bs)
  obtain n f where b: "b = (n, f)" by fastforce
  show ?case using Cons.IH [of "a + 12 + n"] Cons.prems heap_at_le by (fastforce simp: b split: if_splits)
qed simp

lemma blk_cong:
  assumes "\<And>x. a \<le> x \<Longrightarrow> x < a + 12 \<Longrightarrow> m' (of_nat x) = m (of_nat x)"
  shows "blk_size m' (of_nat a) = blk_size m (of_nat a)"
    and "blk_free m' (of_nat a) = blk_free m (of_nat a)"
    and "blk_next m' (of_nat a) = blk_next m (of_nat a)"
proof -
  have e: "m' (of_nat a + of_nat k) = m (of_nat a + of_nat k)" if "k < 12" for k
    using assms [of "a + k"] that by simp
  show "blk_size m' (of_nat a) = blk_size m (of_nat a)"
    using e [of 0] e [of 1] e [of 2] e [of 3] by (simp add: blk_size_def load32_def)
  show "blk_free m' (of_nat a) = blk_free m (of_nat a)"
    using e [of 4] e [of 5] e [of 6] e [of 7] by (simp add: blk_free_def load32_def add.assoc)
  show "blk_next m' (of_nat a) = blk_next m (of_nat a)"
    using e [of 8] e [of 9] e [of 10] e [of 11] by (simp add: blk_next_def load32_def add.assoc)
qed

lemma heap_at_cong:
  "heap_at m a bs \<Longrightarrow> (\<And>x. a \<le> x \<Longrightarrow> x < 0x400000 \<Longrightarrow> m' (of_nat x) = m (of_nat x)) \<Longrightarrow> heap_at m' a bs"
proof (induction bs arbitrary: a)
  case (Cons b bs)
  obtain n f where b: "b = (n, f)" by fastforce
  have "heap_at m' (a + 12 + n) bs"
    by (rule Cons.IH) (use Cons.prems b in auto)
  moreover have "m' (of_nat x) = m (of_nat x)" if "a \<le> x" "x < a + 12" for x
    using Cons.prems b that by simp
  note blk_cong [of a m' m, OF this]
  ultimately show ?case using Cons.prems(1) b by simp
qed simp

subsection \<open>Allocation refines first fit\<close>

lemma of_nat_le32: "k < 4294967296 \<Longrightarrow> n < 4294967296 \<Longrightarrow> (of_nat k :: u32) \<le> of_nat n \<longleftrightarrow> k \<le> n"
  by (simp add: word_le_nat_alt unat_of_nat32)

lemma take_block:
  assumes "heap_at m a ((n, True) # bs)" "k \<le> n" "k mod 4 = 0"
  defines "bs' \<equiv> if n - k \<le> 20 then (n, False) # bs else (k, False) # (n - k - 12, True) # bs"
  shows "heap_at (set_free (of_nat a) 0 (heap_split (of_nat a) (of_nat k) m)) a bs'"
    and "x < 4294967296 \<Longrightarrow> x < a \<or> a + 12 + n \<le> x \<Longrightarrow>
      set_free (of_nat a) 0 (heap_split (of_nat a) (of_nat k) m) (of_nat x) = m (of_nat x)"
proof -
  have h: "a mod 4 = 0" "0x300000 \<le> a" "n mod 4 = 0" "a + 12 + n \<le> 0x400000" "blk_size m (of_nat a) = of_nat n"
    "blk_next m (of_nat a) = (if bs = [] then 0 else of_nat (a + 12 + n))" "heap_at m (a + 12 + n) bs"
    using assms(1) by simp_all
  have le: "of_nat n - of_nat k \<le> (BLOCK_HDR + 8 :: u32) \<longleftrightarrow> n - k \<le> 20"
    using assms(2) h(4) of_nat_le32 [of "n - k" 20] by (simp add: BLOCK_HDR_def of_nat_diff)
  have r: "of_nat a + BLOCK_HDR + of_nat k = (of_nat (a + 12 + k) :: u32)"
    by (simp add: BLOCK_HDR_def)
  have d: "of_nat n - of_nat k - BLOCK_HDR = (of_nat (n - k - 12) :: u32)" if "20 < n - k"
    using assms(2) that by (simp add: BLOCK_HDR_def of_nat_diff)
  let ?m = "set_free (of_nat a) 0 (heap_split (of_nat a) (of_nat k) m)"
  show out: "?m (of_nat x) = m (of_nat x)" if x: "x < 4294967296" "x < a \<or> a + 12 + n \<le> x" for x
  proof (cases "n - k \<le> 20")
    case True
    moreover have "set_free (of_nat a) 0 m (of_nat x) = m (of_nat x)"
      using set_outside(2) [OF h(1) _ x(1)] x(2) h(4) by auto
    ultimately show ?thesis by (simp add: heap_split_def h(5) le Let_def)
  next
    case False
    have c: "(a + 12 + k) mod 4 = 0" using h(1) assms(3) by presburger
    have s: "set_size (of_nat (a + 12 + k)) v m' (of_nat x) = m' (of_nat x)"
      "set_free (of_nat (a + 12 + k)) v m' (of_nat x) = m' (of_nat x)"
      "set_next (of_nat (a + 12 + k)) v m' (of_nat x) = m' (of_nat x)" for v m'
    proof -
      have "x < a + 12 + k \<or> a + 12 + k + 12 \<le> x" "a + 12 + k + 12 < 4294967296"
        using x(2) False h(4) by auto
      from set_outside [OF c this(2) x(1) this(1)] show
        "set_size (of_nat (a + 12 + k)) v m' (of_nat x) = m' (of_nat x)"
        "set_free (of_nat (a + 12 + k)) v m' (of_nat x) = m' (of_nat x)"
        "set_next (of_nat (a + 12 + k)) v m' (of_nat x) = m' (of_nat x)" .
    qed
    have t: "set_size (of_nat a) v m' (of_nat x) = m' (of_nat x)"
      "set_free (of_nat a) v m' (of_nat x) = m' (of_nat x)"
      "set_next (of_nat a) v m' (of_nat x) = m' (of_nat x)" for v m'
      using set_outside [OF h(1) _ x(1)] x(2) h(4) by auto
    show ?thesis using False
      by (simp only: heap_split_def h(5) le Let_def r s t if_False)
  qed
  have tl: "heap_at ?m (a + 12 + n) bs"
    by (rule heap_at_cong [OF h(7)]) (use out in auto)
  show "heap_at ?m a bs'"
  proof (cases "n - k \<le> 20")
    case True
    have "hdr_apart a a" using h by (simp add: hdr_apart_def)
    then show ?thesis
      using True h tl by (simp add: bs'_def heap_split_def h(5) le Let_def blk_get_set)
  next
    case False
    let ?c = "a + 12 + k"
    have c: "?c mod 4 = 0" using h(1) assms(3) by presburger
    have nk: "(n - k - 12) mod 4 = 0" using h(3) assms(2,3) False by presburger
    have ap: "hdr_apart a a" "hdr_apart a ?c" "hdr_apart ?c a" "hdr_apart ?c ?c"
      using h c False by (auto simp: hdr_apart_def)
    note g = blk_get_set [OF ap(1)] blk_get_set [OF ap(2)] blk_get_set [OF ap(3)] blk_get_set [OF ap(4)]
    have ne: "(a = ?c) = False" "(?c = a) = False" by simp_all
    have sp: "?m = set_free (of_nat a) 0 (set_next (of_nat a) (of_nat ?c) (set_size (of_nat a) (of_nat k)
        (set_next (of_nat ?c) (blk_next m (of_nat a)) (set_free (of_nat ?c) 1
        (set_size (of_nat ?c) (of_nat (n - k - 12)) m)))))"
    proof -
      have F: "(n - k \<le> 20) = False" "20 < n - k" using False by simp_all
      show ?thesis
        by (simp only: heap_split_def h(5) le Let_def r if_False g ne F(1) d [OF F(2)])
    qed
    have f: "blk_size ?m (of_nat a) = of_nat k" "blk_free ?m (of_nat a) = 0" "blk_next ?m (of_nat a) = of_nat ?c"
      "blk_size ?m (of_nat ?c) = of_nat (n - k - 12)" "blk_free ?m (of_nat ?c) = 1"
      "blk_next ?m (of_nat ?c) = blk_next m (of_nat a)"
      by (simp_all only: sp g ne if_True if_False refl simp_thms)
    have e: "?c + 12 + (n - k - 12) = a + 12 + n" using False by simp
    show ?thesis
      using False h(1-4,6) tl c nk f assms(2,3) unfolding bs'_def
      by (simp only: heap_at.simps if_False if_True e refl simp_thms list.distinct) simp
  qed
qed


lemma ff_alloc_not_Nil: "ff_alloc k bs = Some (i, bs') \<Longrightarrow> bs' \<noteq> []"
  by (cases bs) (auto split: if_splits)

lemma kmalloc_walk_spec:
  assumes "heap_at m a bs" "bs \<noteq> []" "k mod 4 = 0" "k < 4294967296"
  shows "case ff_alloc k bs of
      None \<Rightarrow> kmalloc_walk (of_nat k) (of_nat a) m = Some (0, m)
    | Some (i, bs') \<Rightarrow> \<exists>m'. kmalloc_walk (of_nat k) (of_nat a) m = Some (of_nat (a + i + 12), m') \<and>
        heap_at m' a bs' \<and>
        (\<forall>x<4294967296. x < a \<or> 0x400000 \<le> x \<or> x \<in> used_at a bs \<longrightarrow> m' (of_nat x) = m (of_nat x))"
  using assms(1,2)
proof (induction bs arbitrary: a)
  case (Cons b bs)
  obtain n f where b: "b = (n, f)" by fastforce
  have h: "heap_at m a ((n, f) # bs)" using Cons.prems(1) b by simp
  have ha: "0x300000 \<le> a" "a + 12 + n \<le> 0x400000" "blk_size m (of_nat a) = of_nat n"
    "blk_free m (of_nat a) = (if f then 1 else 0)"
    "blk_next m (of_nat a) = (if bs = [] then 0 else of_nat (a + 12 + n))" "heap_at m (a + 12 + n) bs"
    using h by simp_all
  have nz: "(of_nat a :: u32) \<noteq> 0"
    using unat_of_nat32 [of a] ha(1,2) by (intro notI) simp
  have le: "(of_nat k :: u32) \<le> of_nat n \<longleftrightarrow> k \<le> n"
    using of_nat_le32 assms(4) ha(2) by simp
  show ?case
  proof (cases "f \<and> k \<le> n")
    case True
    then have f: f "k \<le> n" by auto
    note t = take_block [OF h [unfolded f(1) [THEN eqTrueI]] f(2) assms(3)]
    let ?m = "set_free (of_nat a) 0 (heap_split (of_nat a) (of_nat k) m)"
    have w: "kmalloc_walk (of_nat k) (of_nat a) m = Some (of_nat (a + 0 + 12), ?m)"
      using nz f ha(3,4) le by (subst kmalloc_walk.simps) (simp add: BLOCK_HDR_def)
    have u: "?m (of_nat x) = m (of_nat x)"
      if "x < 4294967296" "x < a \<or> 0x400000 \<le> x \<or> x \<in> used_at a (b # bs)" for x
      using that f ha(2) used_at_bounds [OF ha(6)] by (intro t(2)) (fastforce simp: b)+
    show ?thesis
      using f w t(1) u by (simp add: b)
  next
    case False
    have w: "kmalloc_walk (of_nat k) (of_nat a) m = kmalloc_walk (of_nat k) (blk_next m (of_nat a)) m"
      using nz False ha(3,4) le by (subst kmalloc_walk.simps) auto
    show ?thesis
    proof (cases "bs = []")
      case True
      have "kmalloc_walk (of_nat k) 0 m = Some (0, m)" by (subst kmalloc_walk.simps) simp
      then show ?thesis using True False w ha(5) by (auto simp: b)
    next
      case ne: False
      note IH = Cons.IH [OF ha(6) ne]
      have nx: "blk_next m (of_nat a) = of_nat (a + 12 + n)" using ne ha(5) by simp
      show ?thesis
      proof (cases "ff_alloc k bs")
        case None
        then show ?thesis using IH False w nx by (simp only: b ff_alloc.simps if_False) simp
      next
        case (Some r)
        obtain i bs' where r: "r = (i, bs')" by fastforce
        from IH Some r obtain m' where m':
          "kmalloc_walk (of_nat k) (of_nat (a + 12 + n)) m = Some (of_nat (a + 12 + n + i + 12), m')"
          "heap_at m' (a + 12 + n) bs'"
          "\<forall>x<4294967296. x < a + 12 + n \<or> 0x400000 \<le> x \<or> x \<in> used_at (a + 12 + n) bs \<longrightarrow> m' (of_nat x) = m (of_nat x)"
          by auto
        have ff: "ff_alloc k (b # bs) = Some (i + 12 + n, (n, f) # bs')"
          using False Some r by (simp add: b)
        have "bs' \<noteq> []" using Some r ff_alloc_not_Nil by blast
        moreover have e: "m' (of_nat x) = m (of_nat x)" if "a \<le> x" "x < a + 12" for x
          using m'(3) that ha(2) by simp
        note blk_cong [of a m' m, OF e]
        ultimately have "heap_at m' a ((n, f) # bs')"
          using h m'(2) ne by simp
        moreover have "\<forall>x<4294967296. x < a \<or> 0x400000 \<le> x \<or> x \<in> used_at a (b # bs) \<longrightarrow> m' (of_nat x) = m (of_nat x)"
          using m'(3) by (auto simp: b split: if_splits)
        moreover have "kmalloc_walk (of_nat k) (of_nat a) m = Some (of_nat (a + (i + 12 + n) + 12), m')"
          using w nx m'(1) by (simp add: ac_simps)
        ultimately show ?thesis unfolding ff by auto
      qed
    qed
  qed
qed simp

text \<open>A heap in working order, and its block list.\<close>

definition heap_ok :: "kheap \<Rightarrow> (nat \<times> bool) list \<Rightarrow> bool" where
  "heap_ok s bs \<longleftrightarrow> heap_head s = HEAP_START \<and> heap_at (hram s) 0x300000 bs \<and> bs \<noteq> []"

lemma kheap_init_ok: "heap_ok (kheap_init s) [(0xFFFF4, True)]"
proof -
  have a: "hdr_apart 3145728 3145728" by (simp add: hdr_apart_def)
  have c: "HEAP_START = of_nat 3145728" by (simp add: HEAP_START_def)
  show ?thesis
    unfolding heap_ok_def kheap_init_def Let_def
    by (simp add: c blk_get_set [OF a, unfolded of_nat_numeral] HEAP_END_def BLOCK_HDR_def)
qed

text \<open>The size the code really searches for.\<close>

definition round8 :: "u32 \<Rightarrow> nat" where
  "round8 n = unat (((if n = 0 then 8 else n) + 7) AND NOT 7)"

lemma and_not_and: "(x AND NOT y) AND (x AND y) = (0 :: u32)"
  by (rule bit_word_eqI) (auto simp: bit_simps)

lemma of_nat_unat32: "of_nat (unat (x :: u32)) = x"
  by simp

lemma unat_and_not7: "unat ((x :: u32) AND NOT 7) = unat x div 8 * 8"
proof -
  have "x AND 7 = take_bit 3 x"
    by (simp only: take_bit_eq_mask) (simp add: mask_eq_exp_minus_1)
  then have m: "unat (x AND 7) = unat x mod 8"
    by (simp only: unat_low) simp
  have "(x AND NOT 7) AND (x AND 7) = 0"
    by (rule and_not_and)
  then have "(x AND NOT 7) + (x AND 7) = (x AND NOT 7) OR (x AND 7)"
    by (rule disjunctive_add_eq_or)
  also have "\<dots> = x" by (simp flip: bit.conj_disj_distrib)
  finally have e: "x AND NOT 7 = x - (x AND 7)" by (simp add: eq_diff_eq)
  have "x AND 7 \<le> x" by (simp add: word_le_nat_alt m)
  then have "unat (x AND NOT 7) = unat x - unat x mod 8"
    by (simp only: e unat_sub m)
  then show ?thesis by (simp add: minus_mod_eq_div_mult)
qed

lemma round8_bounds:
  "round8 n mod 4 = 0" "round8 n < 4294967296"
  "n \<le> 0xFFFFFFF8 \<Longrightarrow> unat n \<le> round8 n \<and> 0 < round8 n"
  "0xFFFFFFF8 < n \<Longrightarrow> round8 n = 0"
proof -
  let ?x = "(if n = 0 then 8 else n) + 7"
  have r: "round8 n = unat ?x div 8 * 8" by (simp only: round8_def unat_and_not7)
  have "y div 8 * 8 mod 4 = 0" for y :: nat by presburger
  then show "round8 n mod 4 = 0" unfolding r .
  show "round8 n < 4294967296" unfolding round8_def by (rule unat_less_2p32)
  show "unat n \<le> round8 n \<and> 0 < round8 n" if "n \<le> 0xFFFFFFF8"
  proof (cases "n = 0")
    case False
    have "unat n \<le> 4294967288" using that by (simp add: word_le_nat_alt)
    then have "unat ?x = unat n + 7" using False by (simp add: unat_word_ariths)
    moreover have "0 < unat n" using False by (simp add: unat_gt_0)
    moreover have "k \<le> (k + 7) div 8 * 8 \<and> 0 < (k + 7) div 8 * 8" if "0 < k" for k :: nat
      using that by presburger
    ultimately show ?thesis unfolding r by simp
  qed (simp add: round8_def)
  show "round8 n = 0" if "0xFFFFFFF8 < n"
  proof -
    have "4294967288 < unat n" using that by (simp add: word_less_nat_alt)
    moreover have "unat n < 4294967296" by (rule unat_less_2p32)
    ultimately have "unat ?x = unat n + 7 - 4294967296" and "unat n + 7 - 4294967296 < 8"
      by (auto simp: unat_word_ariths mod_if)
    then show ?thesis unfolding r by simp
  qed
qed

lemma kmalloc_run:
  assumes "heap_ok s bs"
  shows "case ff_alloc (round8 n) bs of
      None \<Rightarrow> kmalloc n s = Some (0, s)
    | Some (i, bs') \<Rightarrow> \<exists>s'. kmalloc n s = Some (of_nat (0x300000 + i + 12), s') \<and> heap_ok s' bs' \<and>
        (\<forall>x<4294967296. x < 0x300000 \<or> 0x400000 \<le> x \<or> x \<in> used_at 0x300000 bs \<longrightarrow>
           hram s' (of_nat x) = hram s (of_nat x))"
proof -
  have h: "heap_at (hram s) 0x300000 bs" "bs \<noteq> []" "heap_head s = of_nat 0x300000"
    using assms by (simp_all add: heap_ok_def HEAP_START_def)
  have k: "kmalloc n s = map_option (\<lambda>(p, m). (p, s\<lparr>hram := m\<rparr>)) (kmalloc_walk (of_nat (round8 n)) (of_nat 0x300000) (hram s))"
    by (simp only: kmalloc_def Let_def round8_def h(3) of_nat_unat32)
  note w = kmalloc_walk_spec [OF h(1,2) round8_bounds(1,2) [of n]]
  show ?thesis
  proof (cases "ff_alloc (round8 n) bs")
    case None
    with w k show ?thesis by simp
  next
    case (Some r)
    obtain i bs' where r: "r = (i, bs')" by fastforce
    from w Some r obtain m' where m': "kmalloc_walk (of_nat (round8 n)) (of_nat 0x300000) (hram s) = Some (of_nat (0x300000 + i + 12), m')"
      "heap_at m' 0x300000 bs'"
      "\<forall>x<4294967296. x < 0x300000 \<or> 0x400000 \<le> x \<or> x \<in> used_at 0x300000 bs \<longrightarrow> m' (of_nat x) = hram s (of_nat x)"
      by auto
    have "kmalloc n s = Some (of_nat (0x300000 + i + 12), s\<lparr>hram := m'\<rparr>)"
      by (simp only: k m'(1) option.map prod.case)
    moreover have "heap_ok (s\<lparr>hram := m'\<rparr>) bs'"
      using m'(2) Some r ff_alloc_not_Nil assms by (auto simp: heap_ok_def)
    ultimately show ?thesis using Some r m'(3) by (simp only: option.case prod.case) auto
  qed
qed

text \<open>First fit on the list: the block taken was free, and nothing else changes.\<close>

lemma ff_alloc_spec:
  assumes "ff_alloc k bs = Some (i, bs')" "heap_at m a bs"
  shows "\<exists>z. k \<le> z \<and> a + i + 12 + z \<le> 0x400000 \<and> (a + i) mod 4 = 0 \<and>
    {a + i + 12 ..< a + i + 12 + z} \<inter> used_at a bs = {} \<and>
    used_at a bs' = used_at a bs \<union> {a + i + 12 ..< a + i + 12 + z} \<and> blk_at i bs' = Some (z, False)"
  using assms
proof (induction bs arbitrary: a i bs')
  case (Cons b bs)
  obtain n f where b: "b = (n, f)" by fastforce
  have h: "a mod 4 = 0" "n mod 4 = 0" "a + 12 + n \<le> 0x400000" "heap_at m (a + 12 + n) bs"
    using Cons.prems(2) b by simp_all
  show ?case
  proof (cases "f \<and> k \<le> n")
    case True
    then have e: "i = 0" "bs' = (if n - k \<le> 20 then (n, False) # bs else (k, False) # (n - k - 12, True) # bs)"
      using Cons.prems(1) by (auto simp: b)
    have d: "a + 12 + n < x" if "x \<in> used_at (a + 12 + n) bs" for x
      using used_at_bounds [OF h(4) that] by simp
    show ?thesis
    proof (cases "n - k \<le> 20")
      case True': True
      show ?thesis using True True' e h by (intro exI [of _ n]) (auto simp: b dest: d)
    next
      case False
      have u: "a + (k + (n - (12 + k))) + 24 = a + 12 + n" using False by simp
      have "{a + 12 ..< a + 12 + k} \<inter> used_at (a + 12 + n) bs = {}"
        using d True by fastforce
      then show ?thesis using True False e h u by (intro exI [of _ k]) (auto simp: b ac_simps)
    qed
  next
    case False
    then obtain i' cs where r: "ff_alloc k bs = Some (i', cs)" "i = i' + 12 + n" "bs' = (n, f) # cs"
      using Cons.prems(1) by (auto simp: b split: if_splits)
    obtain z where z: "k \<le> z" "a + 12 + n + i' + 12 + z \<le> 0x400000" "(a + 12 + n + i') mod 4 = 0"
      "{a + 12 + n + i' + 12 ..< a + 12 + n + i' + 12 + z} \<inter> used_at (a + 12 + n) bs = {}"
      "used_at (a + 12 + n) cs = used_at (a + 12 + n) bs \<union> {a + 12 + n + i' + 12 ..< a + 12 + n + i' + 12 + z}"
      "blk_at i' cs = Some (z, False)"
      by (rule exE [OF Cons.IH [OF r(1) h(4)]]) (elim conjE, rule that)
    have e: "a + i + 12 = a + 12 + n + i' + 12" "a + i = a + 12 + n + i'" using r(2) by simp_all
    have d: "{a + 12 + n + i' + 12 ..< a + 12 + n + i' + 12 + z} \<inter> used_at a (b # bs) = {}"
      using z(4) by (auto simp: b)
    show ?thesis
      unfolding e by (intro exI [of _ z] conjI z(1-3) d) (use z(5,6) in \<open>auto simp: b r(2,3)\<close>)
  qed
qed simp

subsection \<open>Freeing\<close>

lemma coalesce_spec:
  assumes "heap_at m a ((n, True) # bs)"
  shows "\<exists>m'. coalesce (of_nat a) m = Some m' \<and> heap_at m' a (merge_free n bs) \<and>
    (\<forall>x<4294967296. x < a \<or> a + 12 \<le> x \<longrightarrow> m' (of_nat x) = m (of_nat x))"
  using assms
proof (induction bs arbitrary: n m)
  case Nil
  then have "coalesce (of_nat a) m = Some m"
    by (subst coalesce.simps) simp
  with Nil show ?case by simp
next
  case (Cons b bs)
  obtain k f where b: "b = (k, f)" by fastforce
  let ?c = "a + 12 + n"
  have h: "a mod 4 = 0" "0x300000 \<le> a" "n mod 4 = 0" "a + 12 + n \<le> 0x400000"
    "blk_size m (of_nat a) = of_nat n" "blk_free m (of_nat a) = 1" "blk_next m (of_nat a) = of_nat ?c"
    "?c mod 4 = 0" "k mod 4 = 0" "?c + 12 + k \<le> 0x400000" "blk_size m (of_nat ?c) = of_nat k"
    "blk_free m (of_nat ?c) = (if f then 1 else 0)"
    "blk_next m (of_nat ?c) = (if bs = [] then 0 else of_nat (?c + 12 + k))" "heap_at m (?c + 12 + k) bs"
    using Cons.prems b by (simp_all del: of_nat_add)
  have nz: "(of_nat ?c :: u32) \<noteq> 0"
  proof
    assume "(of_nat ?c :: u32) = 0"
    then have "unat (of_nat ?c :: u32) = 0" by simp
    moreover have "unat (of_nat ?c :: u32) = ?c" by (rule unat_of_nat32) (use h(10) in simp)
    ultimately show False by simp
  qed
  show ?case
  proof (cases f)
    case False
    then have "coalesce (of_nat a) m = Some m"
      using h nz by (subst coalesce.simps) (simp del: of_nat_add)
    with Cons.prems False b show ?thesis by (auto simp del: heap_at.simps)
  next
    case True
    let ?m1 = "set_size (of_nat a) (of_nat n + (BLOCK_HDR + of_nat k)) m"
    let ?m2 = "set_next (of_nat a) (blk_next m (of_nat ?c)) ?m1"
    have ap: "hdr_apart a a" "hdr_apart a ?c" using h by (simp_all add: hdr_apart_def)
    note g = blk_get_set [OF ap(1)] blk_get_set [OF ap(2)]
    have step: "coalesce (of_nat a) m = coalesce (of_nat a) ?m2"
      using h(5,7,11,12) nz True by (subst coalesce.simps) (simp add: g Let_def del: of_nat_add)
    have sz: "of_nat n + (BLOCK_HDR + of_nat k) = (of_nat (n + 12 + k) :: u32)"
      by (simp add: BLOCK_HDR_def)
    have f2: "blk_size ?m2 (of_nat a) = of_nat (n + 12 + k)" "blk_free ?m2 (of_nat a) = 1"
      "blk_next ?m2 (of_nat a) = blk_next m (of_nat ?c)"
      by (simp_all only: g sz h(6) if_True refl)
    have out: "?m2 (of_nat x) = m (of_nat x)" if "x < 4294967296" "x < a \<or> a + 12 \<le> x" for x
    proof -
      have "a + 12 < 4294967296" using h(4) by simp
      from set_outside [OF h(1) this that] show ?thesis by simp
    qed
    have tl: "heap_at ?m2 (a + 12 + (n + 12 + k)) bs"
    proof (rule heap_at_cong)
      show "heap_at m (a + 12 + (n + 12 + k)) bs" using h(14) by (simp add: ac_simps)
    qed (use out in auto)
    have "(n + 12 + k) mod 4 = 0" using h(3,9) by presburger
    moreover have "blk_next ?m2 (of_nat a) = (if bs = [] then 0 else of_nat (a + 12 + (n + 12 + k)))"
    proof -
      have "a + 12 + n + 12 + k = a + 12 + (n + 12 + k)" by simp
      then show ?thesis using f2(3) h(13) by metis
    qed
    ultimately have H: "heap_at ?m2 a ((n + 12 + k, True) # bs)"
      using h(1,2,10) f2(1,2) tl by simp
    obtain m' where m': "coalesce (of_nat a) ?m2 = Some m'" "heap_at m' a (merge_free (n + 12 + k) bs)"
      "\<forall>x<4294967296. x < a \<or> a + 12 \<le> x \<longrightarrow> m' (of_nat x) = ?m2 (of_nat x)"
      using Cons.IH [OF H] by blast
    show ?thesis
      using m' out step True by (intro exI [of _ m']) (simp add: b)
  qed
qed


lemma merge_free_not_Nil: "merge_free n bs \<noteq> []"
  by (induction n bs rule: merge_free.induct) auto

lemma ff_free_not_Nil: "bs \<noteq> [] \<Longrightarrow> ff_free i bs \<noteq> []"
  by (cases bs) (auto simp: merge_free_not_Nil split: if_splits)

lemma used_merge: "used_at a (merge_free n bs) = used_at (a + 12 + n) bs"
  by (induction n bs rule: merge_free.induct) (simp_all add: ac_simps)

lemma used_ff_free:
  assumes "heap_at m a bs" "blk_at i bs = Some (n, f)"
  shows "used_at a (ff_free i bs) = used_at a bs - {a + i + 12 ..< a + i + 12 + n}"
    and "a + i + 12 + n \<le> 0x400000" and "a \<le> a + i" and "(a + i) mod 4 = 0"
  using assms
proof (induction bs arbitrary: a i)
  case (Cons b bs)
  obtain k g where b: "b = (k, g)" by fastforce
  {
    case 1
    have ub: "x \<notin> {a + 12 ..< a + 12 + k}" if "x \<in> used_at (a + 12 + k) bs" for x
      using used_at_bounds [OF _ that, of m] 1(1) by (auto simp: b)
    show ?case
    proof (cases "i = 0")
      case True
      have "k = n" using 1(2) True by (simp add: b)
      then show ?thesis using True ub by (auto simp: b used_merge)
    next
      case False
      then have i: "12 + k \<le> i" "blk_at (i - (12 + k)) bs = Some (n, f)"
        using 1(2) by (auto simp: b split: if_splits)
      have "used_at (a + 12 + k) (ff_free (i - (12 + k)) bs) =
          used_at (a + 12 + k) bs - {a + 12 + k + (i - (12 + k)) + 12 ..< a + 12 + k + (i - (12 + k)) + 12 + n}"
        using Cons.IH(1) [OF _ i(2), of "a + 12 + k"] 1(1) by (simp add: b)
      moreover have "a + 12 + k + (i - (12 + k)) = a + i" using i(1) by simp
      ultimately have u: "used_at (a + 12 + k) (ff_free (i - (12 + k)) bs) =
          used_at (a + 12 + k) bs - {a + i + 12 ..< a + i + 12 + n}" by simp
      have "{a + 12 ..< a + 12 + k} \<inter> {a + i + 12 ..< a + i + 12 + n} = {}" using i(1) by auto
      then have d: "{a + 12 ..< a + 12 + k} - {a + i + 12 ..< a + i + 12 + n} = {a + 12 ..< a + 12 + k}"
        by (rule Diff_triv)
      have "used_at a (ff_free i (b # bs)) =
          (if g then {} else {a + 12 ..< a + 12 + k}) \<union> used_at (a + 12 + k) (ff_free (i - (12 + k)) bs)"
        using False i(1) by (simp add: b)
      also have "\<dots> = used_at a (b # bs) - {a + i + 12 ..< a + i + 12 + n}"
        unfolding u b used_at.simps Un_Diff by (cases g) (simp_all only: if_True if_False d empty_Diff)
      finally show ?thesis .
    qed
  next
    case 2
    then show ?case using Cons.IH(2) [of "a + 12 + k" "i - (12 + k)"] by (auto simp: b split: if_splits)
  next
    case 3
    then show ?case by simp
  next
    case 4
    then show ?case using Cons.IH(4) [of "a + 12 + k" "i - (12 + k)"] by (auto simp: b split: if_splits)
  }
qed simp_all

lemma kfree_list:
  assumes "heap_at m a bs" "blk_at i bs = Some (n, f)"
  shows "\<exists>m'. coalesce (of_nat (a + i)) (set_free (of_nat (a + i)) 1 m) = Some m' \<and> heap_at m' a (ff_free i bs) \<and>
    (\<forall>x<4294967296. x < a + i \<or> a + i + 12 \<le> x \<longrightarrow> m' (of_nat x) = m (of_nat x))"
  using assms
proof (induction bs arbitrary: a i)
  case (Cons b bs)
  obtain k g where b: "b = (k, g)" by fastforce
  have h: "a mod 4 = 0" "a + 12 + k \<le> 0x400000" "heap_at m a ((k, g) # bs)" "heap_at m (a + 12 + k) bs"
    using Cons.prems(1) by (simp_all add: b)
  show ?case
  proof (cases "i = 0")
    case True
    let ?m = "set_free (of_nat a) 1 m"
    have lt: "a + 12 < 4294967296" using h(2) by simp
    have out: "?m (of_nat x) = m (of_nat x)" if "x < 4294967296" "x < a \<or> a + 12 \<le> x" for x
      by (rule set_outside(2) [OF h(1) lt that])
    have ap: "hdr_apart a a" using h(1) lt by (simp add: hdr_apart_def)
    have "heap_at ?m (a + 12 + k) bs"
      by (rule heap_at_cong [OF h(4)]) (use out in auto)
    then have H: "heap_at ?m a ((k, True) # bs)"
      using h(3) by (simp add: blk_get_set [OF ap])
    obtain m' where m': "coalesce (of_nat a) ?m = Some m'" "heap_at m' a (merge_free k bs)"
      "\<forall>x<4294967296. x < a \<or> a + 12 \<le> x \<longrightarrow> m' (of_nat x) = ?m (of_nat x)"
      using coalesce_spec [OF H] by blast
    then show ?thesis using True out by (intro exI [of _ m']) (simp add: b)
  next
    case False
    then have i: "12 + k \<le> i" "blk_at (i - (12 + k)) bs = Some (n, f)"
      using Cons.prems(2) by (auto simp: b split: if_splits)
    have ai: "a + 12 + k + (i - (12 + k)) = a + i" using i(1) by simp
    obtain m' where m': "coalesce (of_nat (a + i)) (set_free (of_nat (a + i)) 1 m) = Some m'"
      "heap_at m' (a + 12 + k) (ff_free (i - (12 + k)) bs)"
      "\<forall>x<4294967296. x < a + i \<or> a + i + 12 \<le> x \<longrightarrow> m' (of_nat x) = m (of_nat x)"
      using Cons.IH [OF h(4) i(2)] unfolding ai by blast
    have "m' (of_nat x) = m (of_nat x)" if "a \<le> x" "x < a + 12" for x
      using m'(3) that i(1) h(2) by simp
    note c = blk_cong [of a m' m, OF this]
    have ne: "ff_free (i - (12 + k)) bs = [] \<longleftrightarrow> bs = []"
      using ff_free_not_Nil by (cases bs) auto
    have "heap_at m' a ((k, g) # ff_free (i - (12 + k)) bs)"
      using h(3) m'(2) by (simp add: c ne)
    then show ?thesis using False i(1) m' by (intro exI [of _ m']) (simp add: b)
  qed
qed simp

lemma used_walk_sum:
  assumes "heap_at m a bs"
  shows "bs \<noteq> [] \<Longrightarrow> used_walk (of_nat a) m acc =
    Some (acc + of_nat (sum_list (map fst (filter (\<lambda>b. \<not> snd b) bs))))"
  using assms
proof (induction bs arbitrary: a acc)
  case (Cons b bs)
  obtain n f where b: "b = (n, f)" by fastforce
  have h: "0x300000 \<le> a" "a + 12 + n \<le> 0x400000" "blk_size m (of_nat a) = of_nat n"
    "blk_free m (of_nat a) = (if f then 1 else 0)"
    "blk_next m (of_nat a) = (if bs = [] then 0 else of_nat (a + 12 + n))" "heap_at m (a + 12 + n) bs"
    using Cons.prems(2) b by simp_all
  have nz: "(of_nat a :: u32) \<noteq> 0"
    using unat_of_nat32 [of a] h(1,2) by (intro notI) simp
  let ?acc = "if f then acc else acc + of_nat n"
  have w: "used_walk (of_nat a) m acc = used_walk (blk_next m (of_nat a)) m ?acc"
    using nz h(3,4) by (subst used_walk.simps) simp
  show ?case
  proof (cases "bs = []")
    case True
    have "used_walk 0 m ?acc = Some ?acc" by (subst used_walk.simps) simp
    then show ?thesis using True w h(5) by (simp add: b)
  next
    case False
    then have "used_walk (of_nat a) m acc =
        Some (?acc + of_nat (sum_list (map fst (filter (\<lambda>b. \<not> snd b) bs))))"
      using Cons.IH [OF False h(6)] w h(5) by simp
    then show ?thesis by (simp add: b add.assoc)
  qed
qed simp

lemma card_used_at:
  "heap_at m a bs \<Longrightarrow> finite (used_at a bs) \<and> card (used_at a bs) = sum_list (map fst (filter (\<lambda>b. \<not> snd b) bs))"
proof (induction bs arbitrary: a)
  case (Cons b bs)
  obtain n f where b: "b = (n, f)" by fastforce
  have h: "heap_at m (a + 12 + n) bs" using Cons.prems by (simp add: b)
  have "{a + 12 ..< a + 12 + n} \<inter> used_at (a + 12 + n) bs = {}"
    using used_at_bounds [OF h] by fastforce
  then show ?case using Cons.IH [OF h] by (simp add: b card_Un_disjoint)
qed simp


subsection \<open>The interface a client of the heap relies on\<close>

text \<open>
  \<open>used\<close> is the set of payload addresses in use, \<open>owns s p R\<close> says that \<open>p\<close> is a live
  allocation whose payload is \<open>R\<close>.
\<close>

locale heap_iface =
  fixes alloc :: "u32 \<Rightarrow> 's \<Rightarrow> (u32 \<times> 's) option"
    and release :: "u32 \<Rightarrow> 's \<Rightarrow> 's option"
    and ok :: "'s \<Rightarrow> bool"
    and used :: "'s \<Rightarrow> nat set"
    and owns :: "'s \<Rightarrow> u32 \<Rightarrow> nat set \<Rightarrow> bool"
    and byte :: "'s \<Rightarrow> nat \<Rightarrow> u8"
  assumes alloc_returns: "ok s \<Longrightarrow> alloc n s \<noteq> None"
    and alloc_null: "ok s \<Longrightarrow> alloc n s = Some (0, s') \<Longrightarrow> s' = s"
    and alloc_block: "ok s \<Longrightarrow> alloc n s = Some (p, s') \<Longrightarrow> p \<noteq> 0 \<Longrightarrow>
      ok s' \<and> (\<exists>R. owns s' p R \<and> R \<inter> used s = {} \<and> used s' = used s \<union> R) \<and>
      (\<forall>x\<in>used s. byte s' x = byte s x)"
    and release_block: "ok s \<Longrightarrow> owns s p R \<Longrightarrow>
      \<exists>s'. release p s = Some s' \<and> ok s' \<and> used s' = used s - R \<and> (\<forall>x\<in>used s - R. byte s' x = byte s x)"
begin

lemma alloc_ok: "ok s \<Longrightarrow> alloc n s = Some (p, s') \<Longrightarrow> ok s'"
  using alloc_null alloc_block by (cases "p = 0") blast+

lemma alloc_release:
  assumes "ok s" "alloc n s = Some (p, s')" "p \<noteq> 0"
  shows "\<exists>s''. release p s' = Some s'' \<and> ok s'' \<and> used s'' = used s \<and> (\<forall>x\<in>used s. byte s'' x = byte s x)"
proof -
  from alloc_block [OF assms] obtain R where r: "ok s'" "owns s' p R" "R \<inter> used s = {}" "used s' = used s \<union> R"
    "\<forall>x\<in>used s. byte s' x = byte s x" by blast
  from release_block [OF r(1,2)] obtain s'' where "release p s' = Some s''" "ok s''" "used s'' = used s' - R"
    "\<forall>x\<in>used s' - R. byte s'' x = byte s' x" by blast
  moreover have "used s' - R = used s" using r(3,4) by blast
  ultimately show ?thesis using r(5) by (intro exI [of _ s'']) simp
qed

lemma alloc2_disjoint:
  assumes "ok s" "alloc n s = Some (p, s1)" "p \<noteq> 0" "alloc k s1 = Some (q, s2)" "q \<noteq> 0"
  shows "\<exists>R T. owns s1 p R \<and> owns s2 q T \<and> R \<inter> T = {} \<and> used s2 = used s \<union> R \<union> T \<and> (\<forall>x\<in>R. byte s2 x = byte s1 x)"
proof -
  from alloc_block [OF assms(1-3)] obtain R where r: "ok s1" "owns s1 p R" "used s1 = used s \<union> R" by blast
  from alloc_block [OF r(1) assms(4,5)] obtain T where "owns s2 q T" "T \<inter> used s1 = {}" "used s2 = used s1 \<union> T"
    "\<forall>x\<in>used s1. byte s2 x = byte s1 x" by blast
  then show ?thesis using r by (intro exI [of _ R] exI [of _ T]) auto
qed

end

text \<open>The block list is determined by memory.\<close>

lemma heap_at_unique: "heap_at m a bs \<Longrightarrow> heap_at m a cs \<Longrightarrow> bs = cs"
proof (induction bs arbitrary: a cs)
  case Nil
  then show ?case by (cases cs) auto
next
  case (Cons b bs)
  obtain n f where b: "b = (n, f)" by fastforce
  from Cons.prems obtain k g cs' where c: "cs = (k, g) # cs'" by (cases cs) (auto simp: b)
  have bd: "a + 12 + n \<le> 0x400000" "a + 12 + k \<le> 0x400000"
    and e: "(of_nat n :: u32) = of_nat k" "(if f then 1 else 0 :: u32) = (if g then 1 else 0)"
    and t: "heap_at m (a + 12 + n) bs" "heap_at m (a + 12 + k) cs'"
    using Cons.prems by (simp_all add: b c)
  have "unat (of_nat n :: u32) = n" "unat (of_nat k :: u32) = k"
    using bd by (simp_all add: unat_of_nat32)
  with e(1) have n: "n = k" by metis
  moreover have "f = g" using e(2) by (simp split: if_splits)
  moreover have "bs = cs'" using Cons.IH t n by blast
  ultimately show ?case by (simp add: b c)
qed

definition heap_valid :: "kheap \<Rightarrow> bool" where
  "heap_valid s \<longleftrightarrow> (\<exists>bs. heap_ok s bs)"

definition heap_used :: "kheap \<Rightarrow> nat set" where
  "heap_used s = {x. \<exists>bs. heap_ok s bs \<and> x \<in> used_at 0x300000 bs}"

definition heap_owns :: "kheap \<Rightarrow> u32 \<Rightarrow> nat set \<Rightarrow> bool" where
  "heap_owns s p R \<longleftrightarrow> (\<exists>bs i z. heap_ok s bs \<and> blk_at i bs = Some (z, False) \<and> p = of_nat (0x300000 + i + 12) \<and>
     R = {0x300000 + i + 12 ..< 0x300000 + i + 12 + z})"

definition heap_byte :: "kheap \<Rightarrow> nat \<Rightarrow> u8" where
  "heap_byte s x = hram s (of_nat x)"

lemma heap_ok_unique: "heap_ok s bs \<Longrightarrow> heap_ok s cs \<Longrightarrow> bs = cs"
  using heap_at_unique by (auto simp: heap_ok_def)

lemma heap_used_eq: "heap_ok s bs \<Longrightarrow> heap_used s = used_at 0x300000 bs"
  using heap_ok_unique by (auto simp: heap_used_def)

lemma heap_ok_at: "heap_ok s bs \<Longrightarrow> heap_at (hram s) 0x300000 bs"
  by (simp add: heap_ok_def)

lemma used_lt: "heap_ok s bs \<Longrightarrow> x \<in> used_at 0x300000 bs \<Longrightarrow> x < 4294967296"
  using used_at_bounds [OF heap_ok_at] by fastforce

text \<open>No used byte lies in a block's header.\<close>

lemma used_header:
  "heap_at m a bs \<Longrightarrow> blk_at i bs = Some (z, f) \<Longrightarrow> x \<in> used_at a bs \<Longrightarrow> x < a + i \<or> a + i + 12 \<le> x"
proof (induction bs arbitrary: a i)
  case (Cons b bs)
  obtain k g where b: "b = (k, g)" by fastforce
  have t: "heap_at m (a + 12 + k) bs" using Cons.prems(1) by (simp add: b)
  have x: "x \<in> used_at (a + 12 + k) bs \<or> a + 12 \<le> x \<and> x < a + 12 + k"
    using Cons.prems(3) by (auto simp: b split: if_splits)
  show ?case
  proof (cases "i = 0")
    case True
    then show ?thesis using x used_at_bounds [OF t] by fastforce
  next
    case False
    then have i: "12 + k \<le> i" "blk_at (i - (12 + k)) bs = Some (z, f)"
      using Cons.prems(2) by (auto simp: b split: if_splits)
    then show ?thesis using Cons.IH [OF t i(2)] x by auto
  qed
qed simp

text \<open>Both operations, in terms of the used bytes.\<close>

lemma kmalloc_spec:
  assumes ok: "heap_ok s bs" and run: "kmalloc n s = Some (p, s')"
  shows "p = 0 \<Longrightarrow> s' = s \<and> ff_alloc (round8 n) bs = None"
    and "p \<noteq> 0 \<Longrightarrow> \<exists>i z bs'. heap_ok s' bs' \<and> p = of_nat (0x300000 + i + 12) \<and> blk_at i bs' = Some (z, False) \<and>
      round8 n \<le> z \<and> 0x300000 + i + 12 + z \<le> 0x400000 \<and> (0x300000 + i) mod 4 = 0 \<and>
      {0x300000 + i + 12 ..< 0x300000 + i + 12 + z} \<inter> used_at 0x300000 bs = {} \<and>
      used_at 0x300000 bs' = used_at 0x300000 bs \<union> {0x300000 + i + 12 ..< 0x300000 + i + 12 + z} \<and>
      (\<forall>x<4294967296. x < 0x300000 \<or> 0x400000 \<le> x \<or> x \<in> used_at 0x300000 bs \<longrightarrow> hram s' (of_nat x) = hram s (of_nat x))"
proof -
  note r = kmalloc_run [OF ok, of n]
  have "(p = 0 \<longrightarrow> s' = s \<and> ff_alloc (round8 n) bs = None) \<and> (p \<noteq> 0 \<longrightarrow> (\<exists>i bs'. ff_alloc (round8 n) bs = Some (i, bs') \<and>
     p = of_nat (0x300000 + i + 12) \<and> heap_ok s' bs' \<and>
     (\<forall>x<4294967296. x < 0x300000 \<or> 0x400000 \<le> x \<or> x \<in> used_at 0x300000 bs \<longrightarrow> hram s' (of_nat x) = hram s (of_nat x))))"
  proof (cases "ff_alloc (round8 n) bs")
    case None
    with r run show ?thesis by simp
  next
    case (Some q)
    obtain i bs' where q: "q = (i, bs')" by fastforce
    obtain t where t: "kmalloc n s = Some (of_nat (0x300000 + i + 12), t)" "heap_ok t bs'"
      "\<forall>x<4294967296. x < 0x300000 \<or> 0x400000 \<le> x \<or> x \<in> used_at 0x300000 bs \<longrightarrow> hram t (of_nat x) = hram s (of_nat x)"
      using r Some q by (auto simp del: of_nat_add)
    have e: "p = of_nat (0x300000 + i + 12)" "s' = t" using run t(1) by simp_all
    have "0x300000 + i + 12 < (4294967296 :: nat)"
      using ff_alloc_spec [OF Some [unfolded q] heap_ok_at [OF ok]] by auto
    then have "unat p = 0x300000 + i + 12" unfolding e(1) by (rule unat_of_nat32)
    then have "p \<noteq> 0" by (intro notI) simp
    then show ?thesis using e t Some q by blast
  qed
  note m = this
  show "p = 0 \<Longrightarrow> s' = s \<and> ff_alloc (round8 n) bs = None" using m by blast
  assume "p \<noteq> 0"
  with m obtain i bs' where i: "ff_alloc (round8 n) bs = Some (i, bs')" "p = of_nat (0x300000 + i + 12)" "heap_ok s' bs'"
     "\<forall>x<4294967296. x < 0x300000 \<or> 0x400000 \<le> x \<or> x \<in> used_at 0x300000 bs \<longrightarrow> hram s' (of_nat x) = hram s (of_nat x)"
    by blast
  obtain z where z: "round8 n \<le> z" "0x300000 + i + 12 + z \<le> 0x400000" "(0x300000 + i) mod 4 = 0"
    "{0x300000 + i + 12 ..< 0x300000 + i + 12 + z} \<inter> used_at 0x300000 bs = {}"
    "used_at 0x300000 bs' = used_at 0x300000 bs \<union> {0x300000 + i + 12 ..< 0x300000 + i + 12 + z}"
    "blk_at i bs' = Some (z, False)"
    by (rule exE [OF ff_alloc_spec [OF i(1) heap_ok_at [OF ok]]]) (elim conjE, rule that)
  show "\<exists>i z bs'. heap_ok s' bs' \<and> p = of_nat (0x300000 + i + 12) \<and> blk_at i bs' = Some (z, False) \<and>
      round8 n \<le> z \<and> 0x300000 + i + 12 + z \<le> 0x400000 \<and> (0x300000 + i) mod 4 = 0 \<and>
      {0x300000 + i + 12 ..< 0x300000 + i + 12 + z} \<inter> used_at 0x300000 bs = {} \<and>
      used_at 0x300000 bs' = used_at 0x300000 bs \<union> {0x300000 + i + 12 ..< 0x300000 + i + 12 + z} \<and>
      (\<forall>x<4294967296. x < 0x300000 \<or> 0x400000 \<le> x \<or> x \<in> used_at 0x300000 bs \<longrightarrow> hram s' (of_nat x) = hram s (of_nat x))"
    by (intro exI [of _ i] exI [of _ z] exI [of _ bs'] conjI z i)
qed

text \<open>An allocation leaves every block somebody owns where it is.\<close>

lemma ff_alloc_keeps: "ff_alloc k bs = Some (i, bs') \<Longrightarrow> blk_at j bs = Some (z, False) \<Longrightarrow> blk_at j bs' = Some (z, False)"
proof (induction k bs arbitrary: i bs' j rule: ff_alloc.induct)
  case (2 k n f bs)
  show ?case
  proof (cases "f \<and> k \<le> n")
    case True
    then show ?thesis using "2.prems" by (auto split: if_splits)
  next
    case False
    then obtain i' cs where "ff_alloc k bs = Some (i', cs)" "bs' = (n, f) # cs"
      using "2.prems"(1) by (auto split: if_splits)
    then show ?thesis using 2 False by (auto split: if_splits)
  qed
qed simp

lemma kfree_spec:
  assumes ok: "heap_ok s bs" and b: "blk_at i bs = Some (z, f)"
  shows "\<exists>s'. kfree (of_nat (0x300000 + i + 12)) s = Some s' \<and> heap_ok s' (ff_free i bs) \<and>
    used_at 0x300000 (ff_free i bs) = used_at 0x300000 bs - {0x300000 + i + 12 ..< 0x300000 + i + 12 + z} \<and>
    (\<forall>x<4294967296. x < 0x300000 + i \<or> 0x300000 + i + 12 \<le> x \<longrightarrow> hram s' (of_nat x) = hram s (of_nat x))"
proof -
  note at = heap_ok_at [OF ok]
  note u = used_ff_free [OF at b]
  obtain m' where m': "coalesce (of_nat (0x300000 + i)) (set_free (of_nat (0x300000 + i)) 1 (hram s)) = Some m'"
    "heap_at m' 0x300000 (ff_free i bs)"
    "\<forall>x<4294967296. x < 0x300000 + i \<or> 0x300000 + i + 12 \<le> x \<longrightarrow> m' (of_nat x) = hram s (of_nat x)"
    using kfree_list [OF at b] by blast
  have "unat (of_nat (0x300000 + i + 12) :: u32) = 0x300000 + i + 12"
    using u(2) by (intro unat_of_nat32) simp
  then have nz: "(of_nat (0x300000 + i + 12) :: u32) \<noteq> 0" by (intro notI) simp
  have e: "of_nat (0x300000 + i + 12) - BLOCK_HDR = (of_nat (0x300000 + i) :: u32)"
    by (simp add: BLOCK_HDR_def)
  have "kfree (of_nat (0x300000 + i + 12)) s = Some (s\<lparr>hram := m'\<rparr>)"
    using nz by (simp only: kfree_def e Let_def m'(1) option.map if_False)
  moreover have "heap_ok (s\<lparr>hram := m'\<rparr>) (ff_free i bs)"
    using ok m'(2) ff_free_not_Nil by (simp add: heap_ok_def)
  ultimately show ?thesis using u(1) m'(3) by (intro exI [of _ "s\<lparr>hram := m'\<rparr>"]) simp
qed

lemma kmalloc_keeps:
  assumes "kmalloc n s = Some (p, s')" "heap_owns s q R"
  shows "heap_owns s' q R"
proof -
  obtain bs i z where o: "heap_ok s bs" "blk_at i bs = Some (z, False)" "q = of_nat (0x300000 + i + 12)"
    "R = {0x300000 + i + 12 ..< 0x300000 + i + 12 + z}"
    using assms(2) unfolding heap_owns_def by blast
  show ?thesis
  proof (cases "ff_alloc (round8 n) bs")
    case None
    then have "s' = s" using kmalloc_run [OF o(1), of n] assms(1) by simp
    then show ?thesis using assms(2) by simp
  next
    case (Some r)
    obtain j bs' where r: "r = (j, bs')" by fastforce
    then have "heap_ok s' bs'" using kmalloc_run [OF o(1), of n] assms(1) Some by auto
    then show ?thesis
      using ff_alloc_keeps [OF Some [unfolded r] o(2)] o(3,4) unfolding heap_owns_def by blast
  qed
qed

text \<open>Nor does a release, but for the block released; and what is allocated was nobody's.\<close>

lemma merge_keeps: "blk_at j ((n, f) # bs) = Some (z, False) \<Longrightarrow> j \<noteq> 0 \<Longrightarrow> blk_at j (merge_free n bs) = Some (z, False)"
  by (induction n bs arbitrary: f rule: merge_free.induct) (auto split: if_splits simp: ac_simps)

lemma ff_free_keeps: "blk_at j bs = Some (z, False) \<Longrightarrow> j \<noteq> i \<Longrightarrow> blk_at j (ff_free i bs) = Some (z, False)"
proof (induction i bs arbitrary: j rule: ff_free.induct)
  case (2 i n f bs)
  then show ?case using merge_keeps [of j n f bs z] by (auto split: if_splits)
qed simp

lemma ff_alloc_was_free: "ff_alloc k bs = Some (i, bs') \<Longrightarrow> \<exists>n. blk_at i bs = Some (n, True)"
  by (induction k bs arbitrary: i bs' rule: ff_alloc.induct) (fastforce split: if_splits)+

lemma used_blk: "blk_at i bs = Some (z, False) \<Longrightarrow> {a + i + 12 ..< a + i + 12 + z} \<subseteq> used_at a bs"
proof (induction bs arbitrary: a i)
  case (Cons b bs)
  obtain n f where b: "b = (n, f)" by fastforce
  show ?case
  proof (cases "i = 0")
    case True
    then show ?thesis using Cons.prems by (auto simp: b)
  next
    case False
    then have i: "12 + n \<le> i" "blk_at (i - (12 + n)) bs = Some (z, False)"
      using Cons.prems by (auto simp: b split: if_splits)
    have "a + 12 + n + (i - (12 + n)) = a + i" using i(1) by simp
    then show ?thesis using Cons.IH [OF i(2), of "a + 12 + n"] by (auto simp: b)
  qed
qed simp

lemma owns_used: "heap_owns s p R \<Longrightarrow> R \<subseteq> heap_used s"
  using used_blk heap_used_eq unfolding heap_owns_def by fast

lemma kfree_keeps:
  assumes "kfree p s = Some s'" "heap_owns s p S" "heap_owns s q R" "q \<noteq> p"
  shows "heap_owns s' q R"
proof -
  obtain bs i z where p: "heap_ok s bs" "blk_at i bs = Some (z, False)" "p = of_nat (0x300000 + i + 12)"
    using assms(2) unfolding heap_owns_def by blast
  then obtain j y where q: "blk_at j bs = Some (y, False)" "q = of_nat (0x300000 + j + 12)"
    "R = {0x300000 + j + 12 ..< 0x300000 + j + 12 + y}"
    using assms(3) heap_ok_unique unfolding heap_owns_def by blast
  have "heap_ok s' (ff_free i bs)" using kfree_spec [OF p(1,2)] assms(1) p(3) by auto
  moreover have "j \<noteq> i" using assms(4) p(3) q(2) by auto
  then have "blk_at j (ff_free i bs) = Some (y, False)" by (rule ff_free_keeps [OF q(1)])
  ultimately show ?thesis using q(2,3) unfolding heap_owns_def by blast
qed

lemma kmalloc_fresh:
  assumes "kmalloc n s = Some (p, s')" "p \<noteq> 0" "heap_owns s q R"
  shows "q \<noteq> p"
proof
  assume e: "q = p"
  obtain bs j z where q: "heap_ok s bs" "blk_at j bs = Some (z, False)" "q = of_nat (0x300000 + j + 12)"
    using assms(3) unfolding heap_owns_def by blast
  obtain i bs' where a: "ff_alloc (round8 n) bs = Some (i, bs')" "p = of_nat (0x300000 + i + 12)"
    using kmalloc_run [OF q(1), of n] assms(1,2) kmalloc_spec(1) [OF q(1) assms(1)] by (auto split: option.splits)
  obtain y where i: "blk_at i bs = Some (y, True)" using ff_alloc_was_free [OF a(1)] by blast
  have "0x300000 + j + 12 < 4294967296" "0x300000 + i + 12 < 4294967296"
    using used_ff_free(2) [OF heap_ok_at [OF q(1)] q(2)] used_ff_free(2) [OF heap_ok_at [OF q(1)] i] by simp_all
  then have "unat q = 0x300000 + j + 12" "unat p = 0x300000 + i + 12"
    unfolding q(3) a(2) by (simp_all only: unat_of_nat32)
  then have "i = j" using e by simp
  then show False using i q(2) by simp
qed

interpretation kh: heap_iface kmalloc kfree heap_valid heap_used heap_owns heap_byte
proof unfold_locales
  fix s s' :: kheap and n p R
  assume "heap_valid s"
  then obtain bs where ok: "heap_ok s bs" by (auto simp: heap_valid_def)
  note eq = heap_used_eq [OF ok]
  show "kmalloc n s \<noteq> None"
    using kmalloc_run [OF ok, of n] by (auto split: option.splits)
  show "kmalloc n s = Some (0, s') \<Longrightarrow> s' = s"
    using kmalloc_spec(1) [OF ok] by blast
  show "heap_valid s' \<and> (\<exists>R. heap_owns s' p R \<and> R \<inter> heap_used s = {} \<and> heap_used s' = heap_used s \<union> R) \<and>
      (\<forall>x\<in>heap_used s. heap_byte s' x = heap_byte s x)" if run: "kmalloc n s = Some (p, s')" "p \<noteq> 0"
  proof -
    obtain i z bs' where k: "heap_ok s' bs'" "p = of_nat (0x300000 + i + 12)" "blk_at i bs' = Some (z, False)"
      "{0x300000 + i + 12 ..< 0x300000 + i + 12 + z} \<inter> used_at 0x300000 bs = {}"
      "used_at 0x300000 bs' = used_at 0x300000 bs \<union> {0x300000 + i + 12 ..< 0x300000 + i + 12 + z}"
      "\<forall>x<4294967296. x < 0x300000 \<or> 0x400000 \<le> x \<or> x \<in> used_at 0x300000 bs \<longrightarrow> hram s' (of_nat x) = hram s (of_nat x)"
      using kmalloc_spec(2) [OF ok run] by blast
    have "heap_owns s' p {0x300000 + i + 12 ..< 0x300000 + i + 12 + z}"
      using k(1-3) unfolding heap_owns_def by blast
    moreover have "heap_used s' = heap_used s \<union> {0x300000 + i + 12 ..< 0x300000 + i + 12 + z}"
      using k(5) by (simp only: eq heap_used_eq [OF k(1)])
    moreover have "\<forall>x\<in>heap_used s. heap_byte s' x = heap_byte s x"
      using k(6) used_lt [OF ok] by (simp add: eq heap_byte_def)
    ultimately show ?thesis using k(1,4) unfolding heap_valid_def eq by blast
  qed
  show "\<exists>s'. kfree p s = Some s' \<and> heap_valid s' \<and> heap_used s' = heap_used s - R \<and>
      (\<forall>x\<in>heap_used s - R. heap_byte s' x = heap_byte s x)" if o: "heap_owns s p R"
  proof -
    from o ok obtain i z where o: "blk_at i bs = Some (z, False)" "p = of_nat (0x300000 + i + 12)"
      "R = {0x300000 + i + 12 ..< 0x300000 + i + 12 + z}"
      using heap_ok_unique unfolding heap_owns_def by blast
    obtain t where t: "kfree (of_nat (0x300000 + i + 12)) s = Some t" "heap_ok t (ff_free i bs)"
      "used_at 0x300000 (ff_free i bs) = used_at 0x300000 bs - {0x300000 + i + 12 ..< 0x300000 + i + 12 + z}"
      "\<forall>x<4294967296. x < 0x300000 + i \<or> 0x300000 + i + 12 \<le> x \<longrightarrow> hram t (of_nat x) = hram s (of_nat x)"
      using kfree_spec [OF ok o(1)] by blast
    have "heap_byte t x = heap_byte s x" if "x \<in> used_at 0x300000 bs" for x
      using t(4) used_lt [OF ok that] used_header [OF heap_ok_at [OF ok] o(1) that]
      by (auto simp: heap_byte_def)
    then show ?thesis
      using t(1-3) by (auto simp: eq heap_used_eq [OF t(2)] o(2,3) heap_valid_def simp del: of_nat_add)
  qed
qed


subsection \<open>Properties\<close>

text \<open>C11: on a well-formed heap \<open>kmalloc\<close> always returns.  A null result changes nothing and means
  that no free block is large enough; otherwise, for any request below 0xFFFFFFF9 bytes, it
  returns a word-aligned block of the arena at least that large, disjoint from every block in use, and
  no byte in use (or outside the arena) changes.\<close>

theorem kmalloc_fresh_block:
  assumes "heap_ok s bs"
  shows "\<exists>p s'. kmalloc n s = Some (p, s') \<and>
    (if p = 0 then s' = s \<and> ff_alloc (round8 n) bs = None
     else \<exists>i z bs'. heap_ok s' bs' \<and> p = of_nat (0x300000 + i + 12) \<and> (0x300000 + i) mod 4 = 0 \<and>
       (n \<le> 0xFFFFFFF8 \<longrightarrow> unat n \<le> z) \<and> 0x300000 + i + 12 + z \<le> 0x400000 \<and>
       {0x300000 + i + 12 ..< 0x300000 + i + 12 + z} \<inter> used_at 0x300000 bs = {} \<and>
       used_at 0x300000 bs' = used_at 0x300000 bs \<union> {0x300000 + i + 12 ..< 0x300000 + i + 12 + z} \<and>
       (\<forall>x<4294967296. x < 0x300000 \<or> 0x400000 \<le> x \<or> x \<in> used_at 0x300000 bs \<longrightarrow>
          hram s' (of_nat x) = hram s (of_nat x)))"
proof -
  have v: "heap_valid s" using assms by (auto simp: heap_valid_def)
  obtain p s' where run: "kmalloc n s = Some (p, s')" using kh.alloc_returns [OF v, of n] by fastforce
  show ?thesis
  proof (cases "p = 0")
    case True
    then show ?thesis using kmalloc_spec(1) [OF assms run] run by auto
  next
    case False
    obtain i z bs' where k: "heap_ok s' bs'" "p = of_nat (0x300000 + i + 12)"
      "round8 n \<le> z" "0x300000 + i + 12 + z \<le> 0x400000" "(0x300000 + i) mod 4 = 0"
      "{0x300000 + i + 12 ..< 0x300000 + i + 12 + z} \<inter> used_at 0x300000 bs = {}"
      "used_at 0x300000 bs' = used_at 0x300000 bs \<union> {0x300000 + i + 12 ..< 0x300000 + i + 12 + z}"
      "\<forall>x<4294967296. x < 0x300000 \<or> 0x400000 \<le> x \<or> x \<in> used_at 0x300000 bs \<longrightarrow> hram s' (of_nat x) = hram s (of_nat x)"
      using kmalloc_spec(2) [OF assms run False] by (elim exE conjE) (rule that)
    have "n \<le> 0xFFFFFFF8 \<longrightarrow> unat n \<le> z" using round8_bounds(3) k(3) le_trans by blast
    with k have "\<exists>i z bs'. heap_ok s' bs' \<and> p = of_nat (0x300000 + i + 12) \<and> (0x300000 + i) mod 4 = 0 \<and>
       (n \<le> 0xFFFFFFF8 \<longrightarrow> unat n \<le> z) \<and> 0x300000 + i + 12 + z \<le> 0x400000 \<and>
       {0x300000 + i + 12 ..< 0x300000 + i + 12 + z} \<inter> used_at 0x300000 bs = {} \<and>
       used_at 0x300000 bs' = used_at 0x300000 bs \<union> {0x300000 + i + 12 ..< 0x300000 + i + 12 + z} \<and>
       (\<forall>x<4294967296. x < 0x300000 \<or> 0x400000 \<le> x \<or> x \<in> used_at 0x300000 bs \<longrightarrow>
          hram s' (of_nat x) = hram s (of_nat x))"
      by (intro exI [of _ i] exI [of _ z] exI [of _ bs'] conjI)
    then show ?thesis
      using run False by (intro exI [of _ p] exI [of _ s'] conjI run) (simp only: if_False)
  qed
qed

definition empty_heap :: kheap where
  "empty_heap = kheap_init \<lparr>hram = (\<lambda>_. 0), heap_head = 0\<rparr>"

theorem kmalloc_fresh_block_witness:
  "\<exists>p s'. kmalloc 100 empty_heap = Some (p, s') \<and> p \<noteq> 0"
proof -
  have "ff_alloc (round8 100) [(0xFFFF4, True)] \<noteq> None"
    by (simp add: round8_def)
  then show ?thesis
    using kmalloc_fresh_block [OF kheap_init_ok, of 100 "\<lparr>hram = (\<lambda>_. 0), heap_head = 0\<rparr>"]
    unfolding empty_heap_def by (metis (no_types))
qed

text \<open>C12: freeing the block a successful \<open>kmalloc\<close> returned brings the bytes in use back to what they
  were, with the contents of every other block intact.\<close>

theorem kmalloc_kfree_roundtrip:
  assumes "heap_valid s" "kmalloc n s = Some (p, s')" "p \<noteq> 0"
  shows "\<exists>s''. kfree p s' = Some s'' \<and> heap_valid s'' \<and> heap_used s'' = heap_used s \<and>
    (\<forall>x\<in>heap_used s. heap_byte s'' x = heap_byte s x)"
  by (rule kh.alloc_release [OF assms])

theorem kmalloc_kfree_roundtrip_witness:
  "\<exists>p s' s''. kmalloc 24 empty_heap = Some (p, s') \<and> kfree p s' = Some s'' \<and> heap_used s'' = {}"
proof -
  have ok: "heap_ok empty_heap [(0xFFFF4, True)]" by (simp add: empty_heap_def kheap_init_ok)
  then have v: "heap_valid empty_heap" by (auto simp: heap_valid_def)
  have "ff_alloc (round8 24) [(0xFFFF4, True)] \<noteq> None" by (simp add: round8_def)
  then obtain p s' where k: "kmalloc 24 empty_heap = Some (p, s')" "p \<noteq> 0"
    using kh.alloc_returns [OF v, of 24] kmalloc_spec(1) [OF ok] by fastforce
  moreover have "heap_used empty_heap = {}" by (simp add: heap_used_eq [OF ok])
  ultimately show ?thesis using kmalloc_kfree_roundtrip [OF v k] by auto
qed

text \<open>\<open>kfree\<close> of a live block releases exactly its payload, merges it with the free blocks that
  follow, and \<open>kheap_used\<close> reports the number of payload bytes in use before and after.\<close>

lemma kfree_releases:
  assumes "heap_ok s bs" and "blk_at i bs = Some (z, False)"
  shows "\<exists>s'. kfree (of_nat (0x300000 + i + 12)) s = Some s' \<and> heap_ok s' (ff_free i bs) \<and>
    heap_used s' = heap_used s - {0x300000 + i + 12 ..< 0x300000 + i + 12 + z} \<and>
    kheap_used s = Some (of_nat (card (heap_used s))) \<and> kheap_used s' = Some (of_nat (card (heap_used s')))"
proof -
  obtain t where t: "kfree (of_nat (0x300000 + i + 12)) s = Some t" "heap_ok t (ff_free i bs)"
      "used_at 0x300000 (ff_free i bs) = used_at 0x300000 bs - {0x300000 + i + 12 ..< 0x300000 + i + 12 + z}"
    using kfree_spec [OF assms] by blast
  have u: "kheap_used h = Some (of_nat (card (heap_used h)))" if "heap_ok h cs" for h cs
  proof -
    have "heap_head h = of_nat 0x300000" "cs \<noteq> []" using that by (simp_all add: heap_ok_def HEAP_START_def)
    then show ?thesis
      using used_walk_sum [OF heap_ok_at [OF that], of 0] card_used_at [OF heap_ok_at [OF that]]
      by (simp add: kheap_used_def heap_used_eq [OF that] del: of_nat_numeral)
  qed
  show ?thesis
    using t u [OF assms(1)] u [OF t(2)]
    by (intro exI [of _ t] conjI) (simp_all only: heap_used_eq [OF t(2)] heap_used_eq [OF assms(1)])
qed

lemma kfree_releases_witness:
  "\<exists>p s' s''. kmalloc 64 empty_heap = Some (p, s') \<and> kfree p s' = Some s'' \<and> kheap_used s'' = Some 0"
proof -
  have ok: "heap_ok empty_heap [(0xFFFF4, True)]" by (simp add: empty_heap_def kheap_init_ok)
  have r: "round8 64 = 64" by (simp add: round8_def)
  from kmalloc_run [OF ok, of 64] obtain s' where k: "kmalloc 64 empty_heap = Some (of_nat (0x300000 + 0 + 12), s')"
    "heap_ok s' [(64, False), (0xFFFA8, True)]"
    by (auto simp: r)
  have b: "blk_at 0 [(64, False), (0xFFFA8, True)] = Some (64, False)" by simp
  from kfree_releases [OF k(2) b] have "\<exists>s''. kfree (of_nat (0x300000 + 0 + 12)) s' = Some s'' \<and>
    kheap_used s'' = Some (of_nat (card (heap_used s''))) \<and> heap_used s'' = heap_used s' - {0x300000 + 0 + 12 ..< 0x300000 + 0 + 12 + 64}"
    by blast
  moreover have "heap_used s' = {0x300000 + 0 + 12 ..< 0x300000 + 0 + 12 + 64}"
    by (simp add: heap_used_eq [OF k(2)])
  ultimately show ?thesis using k(1) by auto
qed

text \<open>A request of 0xFFFFFFF9 bytes or more wraps to a zero-byte one when \<open>kmalloc\<close> rounds it
  up: whenever any block is free the call succeeds, with a block of any size.\<close>

lemma kmalloc_huge_succeeds:
  assumes "heap_ok s bs" "0xFFFFFFF8 < n" "\<exists>z. (z, True) \<in> set bs"
  shows "\<exists>p s'. kmalloc n s = Some (p, s') \<and> p \<noteq> 0"
proof -
  have v: "heap_valid s" using assms(1) by (auto simp: heap_valid_def)
  have "ff_alloc 0 bs \<noteq> None" using assms(3) by (induction bs) fastforce+
  then have "ff_alloc (round8 n) bs \<noteq> None" using round8_bounds(4) [OF assms(2)] by simp
  then show ?thesis
    using kh.alloc_returns [OF v, of n] kmalloc_spec(1) [OF assms(1)] by fastforce
qed

lemma kmalloc_huge_succeeds_witness:
  "\<exists>p s'. kmalloc 0xFFFFFFFF empty_heap = Some (p, s') \<and> p \<noteq> 0"
  unfolding empty_heap_def by (rule kmalloc_huge_succeeds [OF kheap_init_ok]) simp_all

end
