(* ===== verification/CString.thy ===== *)
theory CString
  imports NovaPrelude
begin

section \<open>Memory and string primitives (libc/string.c)\<close>

text \<open>
  The routines of string.c over byte-addressed memory: a pointer is an address, \<open>char\<close> is a
  byte, and an operation that writes returns the new memory (its C result, \<open>dst\<close>, is its
  argument).  The loops that look for a terminator are partial functions: over memory without
  a zero byte they do not return.  The lemmas relate them to lists of bytes, which the other
  components use for their strings.
\<close>

fun memcpy :: "mem \<Rightarrow> u32 \<Rightarrow> u32 \<Rightarrow> nat \<Rightarrow> mem" where
  "memcpy m d s 0 = m"
| "memcpy m d s (Suc n) = memcpy (m(d := m s)) (d + 1) (s + 1) n"

fun memset :: "mem \<Rightarrow> u32 \<Rightarrow> u32 \<Rightarrow> nat \<Rightarrow> mem" where
  "memset m d c 0 = m"
| "memset m d c (Suc n) = memset (m(d := d2b c)) (d + 1) c n"

fun memcmp :: "mem \<Rightarrow> u32 \<Rightarrow> u32 \<Rightarrow> nat \<Rightarrow> int" where
  "memcmp m x y 0 = 0"
| "memcmp m x y (Suc n) =
     (if m x \<noteq> m y then uint (m x) - uint (m y) else memcmp m (x + 1) (y + 1) n)"

partial_function (option) strlen_loop :: "mem \<Rightarrow> u32 \<Rightarrow> u32 \<Rightarrow> u32 option" where
  "strlen_loop m s n = (if m s \<noteq> 0 then strlen_loop m (s + 1) (n + 1) else Some n)"

definition strlen :: "mem \<Rightarrow> u32 \<Rightarrow> u32 option" where
  "strlen m s = strlen_loop m s 0"

partial_function (option) strcmp :: "mem \<Rightarrow> u32 \<Rightarrow> u32 \<Rightarrow> int option" where
  "strcmp m a b =
     (if m a \<noteq> 0 \<and> m a = m b then strcmp m (a + 1) (b + 1)
      else Some (uint (m a) - uint (m b)))"

text \<open>The counter runs down to \<open>(u32)-1\<close>; reaching it means no difference within \<open>n\<close>.\<close>

partial_function (option) strncmp :: "mem \<Rightarrow> u32 \<Rightarrow> u32 \<Rightarrow> u32 \<Rightarrow> int option" where
  "strncmp m a b n =
     (if n \<noteq> 0 \<and> m a \<noteq> 0 \<and> m a = m b then strncmp m (a + 1) (b + 1) (n - 1)
      else if n - 1 = minus1 then Some 0
      else Some (uint (m a) - uint (m b)))"

partial_function (option) strcpy :: "mem \<Rightarrow> u32 \<Rightarrow> u32 \<Rightarrow> mem option" where
  "strcpy m d s =
     (let m' = m(d := m s) in if m s \<noteq> 0 then strcpy m' (d + 1) (s + 1) else Some m')"

fun zero_fill :: "mem \<Rightarrow> u32 \<Rightarrow> nat \<Rightarrow> mem" where
  "zero_fill m d 0 = m"
| "zero_fill m d (Suc n) = zero_fill (m(d := 0)) (d + 1) n"

fun strncpy :: "mem \<Rightarrow> u32 \<Rightarrow> u32 \<Rightarrow> nat \<Rightarrow> mem" where
  "strncpy m d s 0 = m"
| "strncpy m d s (Suc n) =
     (let m' = m(d := m s)
      in if m s \<noteq> 0 then strncpy m' (d + 1) (s + 1) n else zero_fill m' (d + 1) (Suc n))"

partial_function (option) str_end :: "mem \<Rightarrow> u32 \<Rightarrow> u32 option" where
  "str_end m d = (if m d \<noteq> 0 then str_end m (d + 1) else Some d)"

definition strcat :: "mem \<Rightarrow> u32 \<Rightarrow> u32 \<Rightarrow> mem option" where
  "strcat m d s = Option.bind (str_end m d) (\<lambda>e. strcpy m e s)"

partial_function (option) strchr :: "mem \<Rightarrow> u32 \<Rightarrow> u32 \<Rightarrow> u32 option" where
  "strchr m s c =
     (if m s \<noteq> 0 then if m s = d2b c then Some s else strchr m (s + 1) c
      else Some (if c = 0 then s else 0))"

subsection \<open>Strings and blocks in memory\<close>

fun cstr :: "mem \<Rightarrow> u32 \<Rightarrow> u8 list \<Rightarrow> bool" where
  "cstr m a [] \<longleftrightarrow> m a = 0"
| "cstr m a (x # xs) \<longleftrightarrow> m a = x \<and> x \<noteq> 0 \<and> cstr m (a + 1) xs"

primrec put_bytes :: "u8 list \<Rightarrow> u32 \<Rightarrow> mem \<Rightarrow> mem" where
  "put_bytes [] d m = m"
| "put_bytes (x # xs) d m = put_bytes xs (d + 1) (m(d := x))"

definition get_bytes :: "mem \<Rightarrow> u32 \<Rightarrow> nat \<Rightarrow> u8 list" where
  "get_bytes m a n = map (\<lambda>i. m (a + of_nat i)) [0 ..< n]"

definition span :: "u32 \<Rightarrow> nat \<Rightarrow> u32 set" where
  "span a n = (\<lambda>i. a + of_nat i) ` {..< n}"

lemma span_Suc: "span a (Suc n) = insert a (span (a + 1) n)"
  unfolding span_def lessThan_Suc_eq_insert_0
  by (force simp: image_image ac_simps)

lemma span_0 [simp]: "span a 0 = {}"
  by (simp add: span_def)

lemma get_bytes_Suc: "get_bytes m a (Suc n) = m a # get_bytes m (a + 1) n"
proof -
  have "[0 ..< Suc n] = 0 # map Suc [0 ..< n]"
    by (simp add: map_Suc_upt upt_conv_Cons)
  then show ?thesis
    by (simp add: get_bytes_def ac_simps)
qed

lemma get_bytes_0 [simp]: "get_bytes m a 0 = []"
  by (simp add: get_bytes_def)

lemma get_bytes_cong: "(\<And>x. x \<in> span a n \<Longrightarrow> m x = m' x) \<Longrightarrow> get_bytes m a n = get_bytes m' a n"
  by (auto simp: get_bytes_def span_def)

lemma span_bound: "x \<in> span a n \<Longrightarrow> unat (x - a) < n"
  by (auto simp: span_def unat_of_nat intro: le_less_trans [OF mod_less_eq_dividend])

lemma unat_numeral_u32: "unat minus1 = 4294967295"
  by (simp only: unat_numeral) simp

lemma not_in_later_span: "n < 4294967296 \<Longrightarrow> d \<notin> span (d + 1) n"
proof
  assume n: "n < 4294967296" and "d \<in> span (d + 1) n"
  then have "unat (d - (d + 1)) < n"
    by (intro span_bound)
  moreover have "d - (d + 1) = minus1"
    by simp
  moreover have "unat minus1 = 4294967295"
    by (rule unat_numeral_u32)
  ultimately show False
    using n by simp
qed

lemma put_bytes_outside: "x \<notin> span d (length xs) \<Longrightarrow> put_bytes xs d m x = m x"
  by (induction xs arbitrary: d m) (auto simp: span_Suc)

lemma get_put_bytes:
  "length xs \<le> 4294967296 \<Longrightarrow> get_bytes (put_bytes xs d m) d (length xs) = xs"
proof (induction xs arbitrary: d m)
  case (Cons x xs)
  then have "put_bytes xs (d + 1) (m(d := x)) d = x"
    by (subst put_bytes_outside) (simp_all add: not_in_later_span)
  with Cons show ?case
    by (simp add: get_bytes_Suc)
qed simp

lemma put_bytes_append:
  "put_bytes (xs @ ys) d m = put_bytes ys (d + of_nat (length xs)) (put_bytes xs d m)"
  by (induction xs arbitrary: d m) (simp_all add: ac_simps)

lemma cstr_cong: "cstr m a xs \<Longrightarrow> (\<And>x. x \<in> span a (Suc (length xs)) \<Longrightarrow> m x = m' x) \<Longrightarrow> cstr m' a xs"
  by (induction xs arbitrary: a) (force simp: span_Suc)+

lemma cstr_put_bytes:
  "0 \<notin> set xs \<Longrightarrow> length xs < 4294967296 \<Longrightarrow> cstr (put_bytes (xs @ [0]) d m) d xs"
proof (induction xs arbitrary: d m)
  case (Cons x xs)
  then have "put_bytes (xs @ [0]) (d + 1) (m(d := x)) d = x"
    by (subst put_bytes_outside) (simp_all add: not_in_later_span)
  with Cons show ?case by simp
qed simp


subsection \<open>What the routines compute\<close>

lemma unat_Suc_u32: "n \<noteq> (0 :: u32) \<Longrightarrow> unat n = Suc (unat (n - 1))"
  by (metis Suc_pred' unat_gt_0 unat_minus_one)

text \<open>Comparison of byte strings, the sign convention included.\<close>

fun str_cmp :: "u8 list \<Rightarrow> u8 list \<Rightarrow> int" where
  "str_cmp [] [] = 0"
| "str_cmp [] (y # ys) = - uint y"
| "str_cmp (x # xs) [] = uint x"
| "str_cmp (x # xs) (y # ys) = (if x = y then str_cmp xs ys else uint x - uint y)"

lemma str_cmp_0_iff: "0 \<notin> set xs \<Longrightarrow> 0 \<notin> set ys \<Longrightarrow> str_cmp xs ys = 0 \<longleftrightarrow> xs = ys"
  by (induction xs ys rule: str_cmp.induct) (auto simp: uint_0_iff dest: unsigned_word_eqI)

lemma cstr_nonzero: "cstr m a xs \<Longrightarrow> 0 \<notin> set xs"
  by (induction xs arbitrary: a) auto

lemma cstr_unique: "cstr m a xs \<Longrightarrow> cstr m a ys \<Longrightarrow> xs = ys"
proof (induction xs arbitrary: a ys)
  case Nil
  then show ?case by (cases ys) auto
next
  case (Cons x xs)
  then show ?case by (cases ys) auto
qed

lemma strlen_loop_cstr: "cstr m a xs \<Longrightarrow> strlen_loop m a n = Some (n + of_nat (length xs))"
proof (induction xs arbitrary: a n)
  case Nil
  then show ?case by (subst strlen_loop.simps) simp
next
  case (Cons x xs)
  then show ?case by (subst strlen_loop.simps) (simp add: ac_simps)
qed

lemma strlen_cstr: "cstr m a xs \<Longrightarrow> strlen m a = Some (of_nat (length xs))"
  by (simp add: strlen_def strlen_loop_cstr)

lemma strcmp_cstr: "cstr m a xs \<Longrightarrow> cstr m b ys \<Longrightarrow> strcmp m a b = Some (str_cmp xs ys)"
proof (induction xs ys arbitrary: a b rule: str_cmp.induct)
  case (4 x xs y ys)
  then show ?case by (subst strcmp.simps) auto
qed (subst strcmp.simps; force)+

lemma strncmp_cstr:
  "cstr m a xs \<Longrightarrow> cstr m b ys \<Longrightarrow> strncmp m a b n = Some (str_cmp (take (unat n) xs) (take (unat n) ys))"
proof (induction xs ys arbitrary: a b n rule: str_cmp.induct)
  case 1
  then show ?case by (subst strncmp.simps) auto
next
  case (2 y ys)
  then show ?case
    by (cases "n = 0"; subst strncmp.simps) (auto simp: unat_Suc_u32)
next
  case (3 x xs)
  then show ?case
    by (cases "n = 0"; subst strncmp.simps) (auto simp: unat_Suc_u32)
next
  case (4 x xs y ys)
  show ?case
  proof (cases "n = 0")
    case True
    then show ?thesis by (subst strncmp.simps) simp
  next
    case False
    then have n: "unat n = Suc (unat (n - 1))"
      by (rule unat_Suc_u32)
    have "n - 1 \<noteq> minus1"
      using False by (metis add_0 add_diff_cancel_right' all_ones32 diff_add_cancel uminus_add_conv_diff add.right_inverse)
    with 4 n False show ?thesis
      by (subst strncmp.simps) auto
  qed
qed

lemma memcmp_blocks: "memcmp m x y n = str_cmp (get_bytes m x n) (get_bytes m y n)"
  by (induction n arbitrary: x y) (simp_all add: get_bytes_Suc)

lemma memcpy_put: "span d n \<inter> span s n = {} \<Longrightarrow> n < 4294967296 \<Longrightarrow>
   memcpy m d s n = put_bytes (get_bytes m s n) d m"
proof (induction n arbitrary: d s m)
  case (Suc n)
  have "get_bytes (m(d := m s)) (s + 1) n = get_bytes m (s + 1) n"
    using Suc.prems by (intro get_bytes_cong) (auto simp: span_Suc)
  with Suc show ?case
    by (simp add: get_bytes_Suc span_Suc)
qed simp

lemma memset_put: "memset m d c n = put_bytes (replicate n (d2b c)) d m"
  by (induction n arbitrary: d m) simp_all

lemma zero_fill_put: "zero_fill m d n = put_bytes (replicate n 0) d m"
  by (induction n arbitrary: d m) simp_all

lemma strcpy_put:
  "cstr m s xs \<Longrightarrow> span d (Suc (length xs)) \<inter> span s (Suc (length xs)) = {} \<Longrightarrow>
   strcpy m d s = Some (put_bytes (xs @ [0]) d m)"
proof (induction xs arbitrary: d s m)
  case Nil
  then show ?case by (subst strcpy.simps) simp
next
  case (Cons x xs)
  have "cstr (m(d := x)) (s + 1) xs"
    using Cons.prems by (auto simp: span_Suc intro!: cstr_cong [of m "s + 1" xs])
  moreover have "span (d + 1) (Suc (length xs)) \<inter> span (s + 1) (Suc (length xs)) = {}"
    using Cons.prems(2) unfolding length_Cons span_Suc [of d] span_Suc [of s] by blast
  ultimately show ?case
    using Cons.prems(1) Cons.IH by (subst strcpy.simps) simp
qed

lemma str_end_cstr: "cstr m d xs \<Longrightarrow> str_end m d = Some (d + of_nat (length xs))"
proof (induction xs arbitrary: d)
  case Nil
  then show ?case by (subst str_end.simps) simp
next
  case (Cons x xs)
  then show ?case by (subst str_end.simps) (simp add: ac_simps)
qed

text \<open>What \<open>strncpy\<close> leaves at the destination: all of a string shorter than the limit is
  followed by zeros up to one byte past the limit.\<close>

definition strncpy_bytes :: "u8 list \<Rightarrow> nat \<Rightarrow> u8 list" where
  "strncpy_bytes xs n =
     (if n \<le> length xs then take n xs else xs @ replicate (Suc n - length xs) 0)"

lemma strncpy_put:
  "cstr m s xs \<Longrightarrow> span d (Suc n) \<inter> span s (Suc (length xs)) = {} \<Longrightarrow>
   strncpy m d s n = put_bytes (strncpy_bytes xs n) d m"
proof (induction n arbitrary: d s m xs)
  case 0
  then show ?case by (simp add: strncpy_bytes_def)
next
  case (Suc n)
  show ?case
  proof (cases xs)
    case Nil
    with Suc.prems show ?thesis
      by (simp add: strncpy_bytes_def zero_fill_put)
  next
    case (Cons x ys)
    have "cstr (m(d := x)) (s + 1) ys"
      using Suc.prems Cons by (auto simp: span_Suc intro!: cstr_cong [of m "s + 1" ys])
    moreover have "span (d + 1) (Suc n) \<inter> span (s + 1) (Suc (length ys)) = {}"
      using Suc.prems(2) unfolding Cons length_Cons span_Suc [of d] span_Suc [of s "Suc (length ys)"]
      by blast
    ultimately have "strncpy (m(d := x)) (d + 1) (s + 1) n = put_bytes (strncpy_bytes ys n) (d + 1) (m(d := x))"
      by (rule Suc.IH)
    with Cons Suc.prems show ?thesis
      by (simp add: strncpy_bytes_def)
  qed
qed

lemma strchr_cstr:
  assumes "cstr m s xs"
  shows "strchr m s c = Some
    (if d2b c \<in> set xs then s + of_nat (length (takeWhile (\<lambda>x. x \<noteq> d2b c) xs))
     else if c = 0 then s + of_nat (length xs) else 0)"
  using assms
proof (induction xs arbitrary: s)
  case Nil
  then show ?case by (subst strchr.simps) simp
next
  case (Cons x xs)
  then show ?case by (subst strchr.simps) (auto simp: ac_simps)
qed


subsection \<open>Properties\<close>

lemma span_small:
  "span a (Suc (Suc 0)) = {a, a + 1}"
  "span a (Suc (Suc (Suc 0))) = {a, a + 1, a + 2}"
  "span a (Suc (Suc (Suc (Suc (Suc 0))))) = {a, a + 1, a + 2, a + 3, a + 4}"
  by (simp_all add: span_Suc ac_simps)

lemma get_bytes_2: "get_bytes m a 2 = [m a, m (a + 1)]"
  by (simp only: numeral_2_eq_2 get_bytes_Suc get_bytes_0)

lemma set_take_sub: "0 \<notin> set xs \<Longrightarrow> 0 \<notin> set (take n xs)"
  using set_take_subset [of n xs] by blast

lemma length_strncpy_bytes: "length (strncpy_bytes xs n) = (if n \<le> length xs then n else Suc n)"
  by (simp add: strncpy_bytes_def)

text \<open>C23: \<open>strlen\<close>, \<open>strcmp\<close> and \<open>strncmp\<close> return on terminated strings; \<open>strlen\<close> gives the
  length, \<open>strcmp\<close> gives 0 exactly for equal strings, and \<open>strncmp\<close> gives 0 exactly when the
  first \<open>n\<close> characters agree.\<close>

theorem string_compare:
  assumes "cstr m a xs" and "cstr m b ys"
  shows "strlen m a = Some (of_nat (length xs)) \<and>
    (\<exists>r. strcmp m a b = Some r \<and> (r = 0 \<longleftrightarrow> xs = ys)) \<and>
    (\<exists>r. strncmp m a b n = Some r \<and> (r = 0 \<longleftrightarrow> take (unat n) xs = take (unat n) ys))"
  using strlen_cstr [OF assms(1)] strcmp_cstr [OF assms] strncmp_cstr [OF assms]
    str_cmp_0_iff cstr_nonzero [OF assms(1)] cstr_nonzero [OF assms(2)]
  by (simp add: set_take_sub)

definition two_strings :: mem where
  "two_strings = put_bytes [108, 115, 0, 108, 111, 103, 0] 0x100 (\<lambda>_. 0)"

theorem string_compare_witness:
  "strlen two_strings 0x100 = Some 2 \<and>
   (\<exists>r. strcmp two_strings 0x100 0x103 = Some r \<and> r \<noteq> 0) \<and>
   strncmp two_strings 0x100 0x103 1 = Some 0"
proof -
  have "cstr two_strings 0x100 [108, 115]" "cstr two_strings 0x103 [108, 111, 103]"
    by (simp_all add: two_strings_def)
  from string_compare [OF this, of 1] show ?thesis by auto
qed

text \<open>\<open>memcpy\<close> between disjoint regions makes the destination equal to the source
  (\<open>memcmp\<close> says 0 afterwards), leaves the source as it was, and writes nothing else.\<close>

lemma memcpy_copies:
  assumes "span d n \<inter> span s n = {}" and "n < 4294967296"
  shows "get_bytes (memcpy m d s n) d n = get_bytes m s n \<and>
    get_bytes (memcpy m d s n) s n = get_bytes m s n \<and>
    memcmp (memcpy m d s n) d s n = 0 \<and>
    (\<forall>x. x \<notin> span d n \<longrightarrow> memcpy m d s n x = m x)"
proof -
  have put: "memcpy m d s n = put_bytes (get_bytes m s n) d m"
    by (rule memcpy_put [OF assms])
  have len: "length (get_bytes m s n) = n"
    by (simp add: get_bytes_def)
  have out: "\<forall>x. x \<notin> span d n \<longrightarrow> memcpy m d s n x = m x"
    unfolding put using put_bytes_outside len by metis
  have d: "get_bytes (memcpy m d s n) d n = get_bytes m s n"
    unfolding put using get_put_bytes [of "get_bytes m s n" d m] assms(2) len by simp
  have src: "get_bytes (memcpy m d s n) s n = get_bytes m s n"
    using out assms(1) by (intro get_bytes_cong) blast
  have eq: "str_cmp xs xs = 0" for xs
    by (induction xs) simp_all
  show ?thesis
    using d src out by (simp add: memcmp_blocks eq)
qed

lemma memcpy_copies_witness:
  "get_bytes (memcpy two_strings 0x200 0x100 2) 0x200 2 = [108, 115] \<and>
   memcpy two_strings 0x200 0x100 2 0x300 = two_strings 0x300"
proof -
  have "span 0x200 2 \<inter> span 0x100 2 = {}"
    by (simp only: numeral_2_eq_2 span_small) simp
  moreover have "(0x300 :: u32) \<notin> span 0x200 2"
    by (simp only: numeral_2_eq_2 span_small) simp
  moreover have "get_bytes two_strings 0x100 2 = [108, 115]"
    by (simp only: get_bytes_2) (simp add: two_strings_def)
  ultimately show ?thesis
    using memcpy_copies [of "0x200" 2 "0x100" two_strings] by simp
qed

text \<open>For a string shorter than the limit, \<open>strncpy\<close> writes the string and zeros up to
  and including \<open>dst[n]\<close>: one byte more than the \<open>n\<close> the C library writes.  Nothing beyond is
  touched, and a string of \<open>n\<close> or more characters is cut at \<open>n\<close> without a terminator.\<close>

lemma strncpy_writes:
  assumes "cstr m s xs" and "span d (Suc n) \<inter> span s (Suc (length xs)) = {}"
    and "Suc n < 4294967296"
  shows "(length xs < n \<longrightarrow>
      get_bytes (strncpy m d s n) d (Suc n) = xs @ replicate (Suc n - length xs) 0) \<and>
    (n \<le> length xs \<longrightarrow> get_bytes (strncpy m d s n) d n = take n xs \<and>
      strncpy m d s n (d + of_nat n) = m (d + of_nat n)) \<and>
    (\<forall>x. x \<notin> span d (Suc n) \<longrightarrow> strncpy m d s n x = m x)"
proof -
  have put: "strncpy m d s n = put_bytes (strncpy_bytes xs n) d m"
    by (rule strncpy_put [OF assms(1,2)])
  have got: "get_bytes (strncpy m d s n) d (length (strncpy_bytes xs n)) = strncpy_bytes xs n"
    unfolding put using assms(3) by (intro get_put_bytes) (simp add: length_strncpy_bytes)
  have sub: "span d (length (strncpy_bytes xs n)) \<subseteq> span d (Suc n)"
    by (auto simp: span_def length_strncpy_bytes)
  have out: "strncpy m d s n x = m x" if "x \<notin> span d (length (strncpy_bytes xs n))" for x
    unfolding put using that by (rule put_bytes_outside)
  have end': "d + of_nat n \<notin> span d n"
  proof
    assume "d + of_nat n \<in> span d n"
    from span_bound [OF this] show False
      using assms(3) by (simp add: unat_of_nat32)
  qed
  have "strncpy m d s n (d + of_nat n) = m (d + of_nat n)" if "n \<le> length xs"
    using out [of "d + of_nat n"] end' that by (simp add: length_strncpy_bytes)
  moreover have "get_bytes (strncpy m d s n) d n = take n xs" if "n \<le> length xs"
    using got that by (simp add: strncpy_bytes_def)
  moreover have "get_bytes (strncpy m d s n) d (Suc n) = xs @ replicate (Suc n - length xs) 0"
    if "length xs < n"
    using got that by (simp add: length_strncpy_bytes) (simp add: strncpy_bytes_def)
  ultimately show ?thesis
    using out sub by blast
qed

lemma strncpy_writes_witness:
  "get_bytes (strncpy two_strings 0x200 0x100 4) 0x200 5 = [108, 115, 0, 0, 0]"
proof -
  have "cstr two_strings 0x100 [108, 115]"
    by (simp add: two_strings_def)
  moreover have "span 0x200 (Suc (Suc (Suc (Suc (Suc 0))))) \<inter> span 0x100 (Suc (Suc (Suc 0))) = {}"
    by (simp only: span_small) simp
  then have "span 0x200 (Suc 4) \<inter> span 0x100 (Suc (length [108 :: u8, 115])) = {}"
    by (simp add: eval_nat_numeral)
  ultimately have "get_bytes (strncpy two_strings 0x200 0x100 4) 0x200 (Suc 4) =
      [108, 115] @ replicate (Suc 4 - length [108 :: u8, 115]) 0"
    using strncpy_writes [of two_strings "0x100" "[108, 115]" "0x200" 4] by simp
  then show ?thesis
    by (simp add: eval_nat_numeral)
qed

end
