(* ===== verification/Sched.thy ===== *)
theory Sched
  imports Paging KHeap CString
begin

section \<open>The scheduler (kernel/sched.c, TSS part of kernel/user.c)\<close>

text \<open>
  The task table and every operation of sched.c.  A task's stacks and saved frames come from
  the kernel heap, which all address spaces map one to one, so the scheduler's own loads and
  stores are plain ones; the paging operations it calls may fault (\<open>None\<close>, a kernel panic).
  A context switch ends in \<open>iret\<close>: instead of returning it resumes the frame at a stack
  pointer, the outcome \<open>Resume esp\<close>.  Serial log lines and the interrupt flag are left out.
\<close>

definition MAX_TASKS :: u32 where "MAX_TASKS = 16"
definition TASK_STACK :: u32 where "TASK_STACK = 0x4000"
definition IRQ_STACK :: u32 where "IRQ_STACK = 0x2000"
definition FRAME_BYTES :: u32 where "FRAME_BYTES = 0x100"
definition TASK_KERNEL :: u32 where "TASK_KERNEL = 0"
definition TASK_USER :: u32 where "TASK_USER = 1"
definition USER_STACK_TOP :: u32 where "USER_STACK_TOP = 0x2F0000"
definition GDT_UCODE_SEL :: u32 where "GDT_UCODE_SEL = 0x1B"
definition GDT_UDATA_SEL :: u32 where "GDT_UDATA_SEL = 0x23"

record task =
  pid :: u32
  ready :: bool
  flags :: u32
  esp :: u32
  stack_bottom :: u32
  irq_stack_top :: u32
  task_cr3 :: u32
  slice_left :: u32
  tname :: "u8 list"

record sched =
  tasks :: "task list"
  task_count :: u32
  current :: u32
  next_pid :: u32
  sched_ready :: bool
  cur_frame :: u32
  zombie_cr3 :: u32
  tss_esp0 :: u32
  hhead :: u32
  pg :: pg_state

text \<open>How a switch leaves the kernel: back to its caller, into a saved frame, or never.\<close>

datatype outcome = Stay | Resume u32 | Halted

definition zero_task :: task where
  "zero_task = \<lparr>pid = 0, ready = False, flags = 0, esp = 0, stack_bottom = 0, irq_stack_top = 0,
     task_cr3 = 0, slice_left = 0, tname = replicate 16 0\<rparr>"

definition task_at :: "sched \<Rightarrow> u32 \<Rightarrow> task" where
  "task_at s i = tasks s ! unat i"

definition upd_task :: "u32 \<Rightarrow> (task \<Rightarrow> task) \<Rightarrow> sched \<Rightarrow> sched" where
  "upd_task i f s = s\<lparr>tasks := (tasks s)[unat i := f (tasks s ! unat i)]\<rparr>"

subsection \<open>Heap and stack primitives\<close>

definition s_kmalloc :: "u32 \<Rightarrow> sched \<Rightarrow> (u32 \<times> sched) option" where
  "s_kmalloc n s =
     map_option (\<lambda>(p, h). (p, s\<lparr>pg := (pg s)\<lparr>ram := hram h\<rparr>, hhead := heap_head h\<rparr>))
       (kmalloc n \<lparr>hram = ram (pg s), heap_head = hhead s\<rparr>)"

definition s_kfree :: "u32 \<Rightarrow> sched \<Rightarrow> sched option" where
  "s_kfree p s =
     map_option (\<lambda>h. s\<lparr>pg := (pg s)\<lparr>ram := hram h\<rparr>, hhead := heap_head h\<rparr>)
       (kfree p \<lparr>hram = ram (pg s), heap_head = hhead s\<rparr>)"

definition set_ram :: "(mem \<Rightarrow> mem) \<Rightarrow> sched \<Rightarrow> sched" where
  "set_ram f s = s\<lparr>pg := (pg s)\<lparr>ram := f (ram (pg s))\<rparr>\<rparr>"

text \<open>\<open>*--sp = v\<close> for each value in turn; the result is the final \<open>sp\<close>.\<close>

primrec push_all :: "u32 list \<Rightarrow> u32 \<Rightarrow> mem \<Rightarrow> u32 \<times> mem" where
  "push_all [] sp m = (sp, m)"
| "push_all (v # vs) sp m = push_all vs (sp - 4) (store32 m (sp - 4) v)"

text \<open>\<open>strncpy(name, s, 15)\<close> into the 16-byte field, then the terminator.\<close>

definition set_name :: "u8 list \<Rightarrow> u8 list \<Rightarrow> u8 list" where
  "set_name xs field =
     (let bs = strncpy_bytes xs 15 in (bs @ drop (length bs) field)[15 := 0])"

subsection \<open>The kernel stack the CPU enters on (user.c)\<close>

definition user_set_kernel_stack :: "u32 \<Rightarrow> sched \<Rightarrow> sched" where
  "user_set_kernel_stack t s = (if t \<noteq> 0 then s\<lparr>tss_esp0 := t\<rparr> else s)"

definition user_kernel_stack_top :: "sched \<Rightarrow> u32" where
  "user_kernel_stack_top s = tss_esp0 s"

subsection \<open>Operations\<close>

definition sched_init :: "sched \<Rightarrow> sched" where
  "sched_init s = s\<lparr>tasks := replicate 16 zero_task, task_count := 0, current := 0, sched_ready := False\<rparr>"

definition sched_enter_irq :: "u32 \<Rightarrow> sched \<Rightarrow> sched" where
  "sched_enter_irq r s =
     (let s = (if \<not> sched_ready s \<and> task_count s > 0 \<and> esp (task_at s (current s)) = 0
               then upd_task (current s) (esp_update (\<lambda>_. r)) s else s)
      in s\<lparr>cur_frame := r, sched_ready := True\<rparr>)"

definition sched_adopt_current :: "u8 list \<Rightarrow> sched \<Rightarrow> u32 \<times> sched" where
  "sched_adopt_current name s =
     (if MAX_TASKS \<le> task_count s then (0, s)
      else let p = next_pid s;
               s = upd_task (task_count s)
                     (\<lambda>t. t\<lparr>pid := p, ready := True, flags := TASK_KERNEL, stack_bottom := 0,
                           task_cr3 := 0, slice_left := 5, esp := 0, tname := set_name name (tname t)\<rparr>) s
           in (p, s\<lparr>next_pid := p + 1, current := task_count s, task_count := task_count s + 1\<rparr>))"

definition task_setup_stack :: "u32 \<Rightarrow> u32 \<Rightarrow> sched \<Rightarrow> sched" where
  "task_setup_stack k fn s =
     (let (sp, m) = push_all ([0x202, 0x08, fn] @ replicate 14 0)
                      (stack_bottom (task_at s k) + TASK_STACK) (ram (pg s))
      in upd_task k (esp_update (\<lambda>_. sp)) (set_ram (\<lambda>_. m) s))"

definition task_setup_user_stack :: "u32 \<Rightarrow> u32 \<Rightarrow> sched \<Rightarrow> sched option" where
  "task_setup_user_stack k entry s = do {
     (area, s) \<leftarrow> s_kmalloc 0x1000 s;
     if area = 0 then Some s
     else let (sp, m) = push_all ([GDT_UDATA_SEL, USER_STACK_TOP, 0x202, GDT_UCODE_SEL, entry] @ replicate 14 0)
                          (area + 0x1000) (ram (pg s))
          in Some (upd_task k (esp_update (\<lambda>_. sp)) (set_ram (\<lambda>_. m) s)) }"

definition find_dead :: "sched \<Rightarrow> nat option" where
  "find_dead s = List.find (\<lambda>i. \<not> ready (tasks s ! i)) [0 ..< unat (task_count s)]"

definition alloc_slot :: "sched \<Rightarrow> u32 \<times> sched" where
  "alloc_slot s =
     (case find_dead s of
        Some i \<Rightarrow> (of_nat i, s)
      | None \<Rightarrow> if task_count s < MAX_TASKS
                then (task_count s, s\<lparr>task_count := task_count s + 1\<rparr>) else (MAX_TASKS, s))"

text \<open>The Boolean is the C result.\<close>

definition alloc_irq_stack :: "u32 \<Rightarrow> sched \<Rightarrow> (bool \<times> sched) option" where
  "alloc_irq_stack k s =
     (if irq_stack_top (task_at s k) \<noteq> 0 then Some (True, s)
      else do {
        (base, s) \<leftarrow> s_kmalloc IRQ_STACK s;
        if base = 0 then Some (False, s)
        else Some (True, upd_task k (irq_stack_top_update (\<lambda>_. base + IRQ_STACK)) s) })"

text \<open>\<open>memset(t, 0)\<close>, a fresh pid, state and flags: the common start of the three creators.\<close>

definition init_slot :: "u32 \<Rightarrow> u32 \<Rightarrow> sched \<Rightarrow> sched" where
  "init_slot k fl s =
     (upd_task k (\<lambda>t. zero_task\<lparr>pid := next_pid s, ready := True, flags := fl\<rparr>) s)\<lparr>next_pid := next_pid s + 1\<rparr>"

definition kill_slot :: "u32 \<Rightarrow> sched \<Rightarrow> sched" where
  "kill_slot k s = upd_task k (ready_update (\<lambda>_. False)) s"

definition name_slot :: "u32 \<Rightarrow> u8 list \<Rightarrow> sched \<Rightarrow> sched" where
  "name_slot k name s =
     upd_task k (\<lambda>t. t\<lparr>tname := set_name name (tname t), slice_left := 5\<rparr>) s"

definition task_create :: "u8 list \<Rightarrow> u32 \<Rightarrow> sched \<Rightarrow> (u32 \<times> sched) option" where
  "task_create name fn s =
     (let (k, s) = alloc_slot s
      in if MAX_TASKS \<le> k then Some (0, s)
         else do {
           let s = init_slot k TASK_KERNEL s;
           (stk, s) \<leftarrow> s_kmalloc TASK_STACK s;
           let s = upd_task k (stack_bottom_update (\<lambda>_. stk)) s;
           if stk = 0 then Some (0, kill_slot k s)
           else do {
             (ok, s) \<leftarrow> alloc_irq_stack k s;
             if \<not> ok then Some (0, kill_slot k s)
             else do {
               let s = set_ram (\<lambda>m. memset m stk 0xCC (unat TASK_STACK)) s;
               let s = name_slot k name s;
               let s = task_setup_stack k fn s;
               Some (pid (task_at s k), s) } } })"

definition task_create_user :: "u8 list \<Rightarrow> u32 \<Rightarrow> u32 \<Rightarrow> sched \<Rightarrow> (u32 \<times> sched) option" where
  "task_create_user name entry c s =
     (let (k, s) = alloc_slot s
      in if MAX_TASKS \<le> k then Some (0, s)
         else do {
           let s = init_slot k TASK_USER s;
           (ok, s) \<leftarrow> alloc_irq_stack k s;
           if \<not> ok then Some (0, kill_slot k s)
           else do {
             let s = upd_task k (task_cr3_update (\<lambda>_. c)) s;
             let s = name_slot k name s;
             s \<leftarrow> task_setup_user_stack k entry s;
             Some (pid (task_at s k), s) } })"

definition in_pg :: "(pg_state \<Rightarrow> ('a \<times> pg_state) option) \<Rightarrow> sched \<Rightarrow> ('a \<times> sched) option" where
  "in_pg f s = map_option (\<lambda>(r, p). (r, s\<lparr>pg := p\<rparr>)) (f (pg s))"

definition destroy_space :: "u32 \<Rightarrow> sched \<Rightarrow> sched option" where
  "destroy_space c s = map_option (\<lambda>p. s\<lparr>pg := p\<rparr>) (paging_destroy_addr_space c (pg s))"

definition task_fork_user :: "u8 list \<Rightarrow> u32 \<Rightarrow> u32 \<Rightarrow> sched \<Rightarrow> (u32 \<times> sched) option" where
  "task_fork_user name parent_frame parent_cr3 s =
     (let (k, s) = alloc_slot s
      in if MAX_TASKS \<le> k then Some (0, s)
         else do {
           (child_cr3, s) \<leftarrow> in_pg (paging_fork_addr_space parent_cr3) s;
           if child_cr3 = 0 then Some (0, s)
           else do {
             (frame_copy, s) \<leftarrow> s_kmalloc FRAME_BYTES s;
             if frame_copy = 0 then do { s \<leftarrow> destroy_space child_cr3 s; Some (0, s) }
             else do {
               let s = set_ram (\<lambda>m. memcpy m frame_copy parent_frame (unat FRAME_BYTES)) s;
               let s = init_slot k TASK_USER s;
               (ok, s) \<leftarrow> alloc_irq_stack k s;
               if \<not> ok then do {
                 let s = kill_slot k s;
                 s \<leftarrow> s_kfree frame_copy s;
                 s \<leftarrow> destroy_space child_cr3 s;
                 Some (0, s) }
               else do {
                 let s = upd_task k (task_cr3_update (\<lambda>_. child_cr3)) s;
                 let s = name_slot k name s;
                 let s = upd_task k (esp_update (\<lambda>_. frame_copy)) s;
                 let s = set_ram (\<lambda>m. store32 m (frame_copy + 44) 0) s;
                 Some (pid (task_at s k), s) } } } })"

definition reap_zombies :: "sched \<Rightarrow> sched option" where
  "reap_zombies s =
     (if zombie_cr3 s \<noteq> 0
      then map_option (\<lambda>s. s\<lparr>zombie_cr3 := 0\<rparr>) (destroy_space (zombie_cr3 s) s) else Some s)"

definition switch_cr3 :: "u32 \<Rightarrow> sched \<Rightarrow> sched" where
  "switch_cr3 next s =
     s\<lparr>pg := paging_switch (if flags (task_at s next) = TASK_USER then task_cr3 (task_at s next) else KERNEL_PD) (pg s)\<rparr>"

definition switch_to :: "u32 \<Rightarrow> u32 \<Rightarrow> sched \<Rightarrow> outcome \<times> sched" where
  "switch_to frame next s =
     (let old = current s
      in if MAX_TASKS \<le> next \<or> MAX_TASKS \<le> old \<or> \<not> ready (task_at s next) then (Stay, s)
         else let s = (if flags (task_at s old) = TASK_USER \<or> flags (task_at s next) = TASK_USER
                       then switch_cr3 next s else s);
                  s = upd_task old (esp_update (\<lambda>_. frame)) s;
                  s = (if irq_stack_top (task_at s next) \<noteq> 0
                       then user_set_kernel_stack (irq_stack_top (task_at s next)) s else s);
                  s = s\<lparr>current := next\<rparr>
              in (Resume (esp (task_at s next)), s))"

definition sched_yield :: "sched \<Rightarrow> outcome \<times> sched" where
  "sched_yield s =
     (if task_count s < 2 then (Stay, s)
      else let next = (current s + 1) mod task_count s
           in if \<not> ready (task_at s next) then (Stay, s)
              else if cur_frame s = 0 then (Stay, s)
              else let s = (if esp (task_at s (current s)) = 0
                            then upd_task (current s) (esp_update (\<lambda>_. cur_frame s)) s else s)
                   in switch_to (cur_frame s) next s)"

text \<open>The search of \<open>sched_tick\<close> for the next ready k, over the offsets 1 to \<open>task_count\<close>.\<close>

definition next_ready :: "sched \<Rightarrow> u32 option" where
  "next_ready s =
     List.find (\<lambda>n. n < task_count s \<and> ready (task_at s n))
       (map (\<lambda>i. (current s + of_nat i) mod task_count s) [1 ..< Suc (unat (task_count s))])"

definition sched_tick :: "sched \<Rightarrow> outcome \<times> sched" where
  "sched_tick s =
     (if task_count s < 2 then (Stay, s)
      else if task_count s \<le> current s then (Stay, s)
      else if \<not> sched_ready s then (Stay, s)
      else if 0 < slice_left (task_at s (current s))
           then (Stay, upd_task (current s) (\<lambda>t. t\<lparr>slice_left := slice_left t - 1\<rparr>) s)
      else case next_ready s of
             None \<Rightarrow> (Stay, s)
           | Some next \<Rightarrow>
               if cur_frame s = 0 then (Stay, s)
               else let s = upd_task (current s) (\<lambda>t. t\<lparr>esp := cur_frame s, slice_left := 5\<rparr>) s;
                        s = upd_task next (slice_left_update (\<lambda>_. 5)) s
                    in switch_to (cur_frame s) next s)"

definition sched_current_pid :: "sched \<Rightarrow> u32" where
  "sched_current_pid s = pid (task_at s (current s))"

definition sched_current_task :: "sched \<Rightarrow> task" where
  "sched_current_task s = task_at s (current s)"

definition sched_task_count :: "sched \<Rightarrow> nat" where
  "sched_task_count s = length (filter (\<lambda>i. ready (tasks s ! i)) [0 ..< unat (task_count s)])"

definition sched_task_pid :: "u32 \<Rightarrow> sched \<Rightarrow> u32" where
  "sched_task_pid k s = (if k < task_count s then pid (task_at s k) else 0)"

definition sched_task_state :: "u32 \<Rightarrow> sched \<Rightarrow> bool" where
  "sched_task_state k s \<longleftrightarrow> k < task_count s \<and> ready (task_at s k)"

definition sched_task_name :: "u32 \<Rightarrow> sched \<Rightarrow> u8 list" where
  "sched_task_name k s = (if k < task_count s then tname (task_at s k) else [0x3F, 0])"

text \<open>The other ready tasks in the order \<open>sched_exit_current\<close> looks for them.\<close>

definition next_other :: "sched \<Rightarrow> u32 option" where
  "next_other s =
     List.find (\<lambda>n. n \<noteq> current s \<and> ready (task_at s n))
       (map (\<lambda>i. (current s + of_nat i) mod task_count s) [1 ..< unat (task_count s)])"

text \<open>The running task parks its address space and dies; then the CPU state moves to the next
  one, up to the point where parked address spaces are reaped.\<close>

definition park_current :: "sched \<Rightarrow> sched" where
  "park_current s =
     (let me = current s;
          s = (if flags (task_at s me) = TASK_USER \<and> task_cr3 (task_at s me) \<noteq> 0
               then upd_task me (task_cr3_update (\<lambda>_. 0)) (s\<lparr>zombie_cr3 := task_cr3 (task_at s me)\<rparr>) else s)
      in upd_task me (ready_update (\<lambda>_. False)) s)"

definition enter_space :: "u32 \<Rightarrow> sched \<Rightarrow> sched" where
  "enter_space next s =
     (let s = upd_task next (slice_left_update (\<lambda>_. 5)) s;
          s = switch_cr3 next s
      in if irq_stack_top (task_at s next) \<noteq> 0
         then user_set_kernel_stack (irq_stack_top (task_at s next)) s else s)"

definition sched_exit_current :: "sched \<Rightarrow> (outcome \<times> sched) option" where
  "sched_exit_current s =
     (let s = park_current s
      in case next_other s of
           None \<Rightarrow> Some (Halted, s)
         | Some next \<Rightarrow> do {
             s \<leftarrow> reap_zombies (enter_space next s);
             let s = s\<lparr>current := next\<rparr>;
             Some (Resume (esp (task_at s next)), s) })"

subsection \<open>The invariant of the task table\<close>

text \<open>What the table itself must satisfy, apart from memory: its size, unused slots dead, names
  terminated, and the pids of ready tasks distinct and below the next one.\<close>

definition name_ok :: "u8 list \<Rightarrow> bool" where
  "name_ok n \<longleftrightarrow> length n = 16 \<and> n ! 15 = 0"

definition table_ok :: "task list \<Rightarrow> nat \<Rightarrow> nat \<Rightarrow> bool" where
  "table_ok ts n p \<longleftrightarrow> length ts = 16 \<and> n \<le> 16 \<and>
     (\<forall>i<16. name_ok (tname (ts ! i)) \<and>
        (ready (ts ! i) \<longrightarrow> i < n \<and> 0 < unat (pid (ts ! i)) \<and> unat (pid (ts ! i)) < p) \<and>
        (\<forall>j<16. ready (ts ! i) \<longrightarrow> ready (ts ! j) \<longrightarrow> pid (ts ! i) = pid (ts ! j) \<longrightarrow> i = j))"

definition sched_inv :: "sched \<Rightarrow> bool" where
  "sched_inv s \<longleftrightarrow> table_ok (tasks s) (unat (task_count s)) (unat (next_pid s)) \<and>
     current s < task_count s \<and> ready (task_at s (current s)) \<and> 0 < unat (next_pid s)"

text \<open>An update that keeps the pid and the name's shape and revives nothing.\<close>

definition tame :: "(task \<Rightarrow> task) \<Rightarrow> bool" where
  "tame f \<longleftrightarrow> (\<forall>t. pid (f t) = pid t \<and> (ready (f t) \<longrightarrow> ready t) \<and> (name_ok (tname t) \<longrightarrow> name_ok (tname (f t))))"

lemma set_name_ok: "length field = 16 \<Longrightarrow> name_ok (set_name xs field)"
  by (auto simp: name_ok_def set_name_def length_strncpy_bytes Let_def)

lemma tame_intros [intro, simp]:
  "tame (esp_update g)" "tame (stack_bottom_update g)" "tame (irq_stack_top_update g)"
  "tame (task_cr3_update g)" "tame (slice_left_update g)" "tame (ready_update (\<lambda>_. False))"
  "tame (\<lambda>t. t\<lparr>esp := e, slice_left := n\<rparr>)" "tame (\<lambda>t. t\<lparr>slice_left := g' t\<rparr>)"
  "tame (\<lambda>t. t\<lparr>tname := set_name xs (tname t), slice_left := n\<rparr>)"
  by (simp_all add: tame_def set_name_ok) (simp_all add: name_ok_def set_name_ok [unfolded name_ok_def])

lemma table_ok_upd:
  assumes "table_ok ts n p" and "tame f"
  shows "table_ok (ts[k := f (ts ! k)]) n p"
proof (cases "k < 16")
  case False
  then show ?thesis using assms(1) by (simp add: table_ok_def)
next
  case True
  from assms(1) have l: "length ts = 16" "n \<le> 16" by (simp_all add: table_ok_def)
  have at: "(ts[k := f (ts ! k)]) ! i = (if i = k then f (ts ! i) else ts ! i)" if "i < 16" for i
    using that l by (simp add: nth_list_update)
  have f: "pid (f t) = pid t" "ready (f t) \<Longrightarrow> ready t" "name_ok (tname t) \<Longrightarrow> name_ok (tname (f t))" for t
    using assms(2) by (simp_all add: tame_def)
  note old = assms(1) [unfolded table_ok_def, THEN conjunct2, THEN conjunct2, rule_format]
  show ?thesis
    unfolding table_ok_def
  proof (intro conjI allI impI)
    fix i :: nat assume i: "i < 16"
    show "name_ok (tname (ts[k := f (ts ! k)] ! i))"
      using old [OF i] f(3) by (auto simp: at [OF i])
    assume r: "ready (ts[k := f (ts ! k)] ! i)"
    then have r': "ready (ts ! i)" using f(2) by (auto simp: at [OF i] split: if_splits)
    then show "i < n" "0 < unat (pid (ts[k := f (ts ! k)] ! i))" "unat (pid (ts[k := f (ts ! k)] ! i)) < p"
      using old [OF i] f(1) by (auto simp: at [OF i])
    fix j :: nat assume j: "j < 16" "ready (ts[k := f (ts ! k)] ! j)"
      "pid (ts[k := f (ts ! k)] ! i) = pid (ts[k := f (ts ! k)] ! j)"
    then have "ready (ts ! j)" "pid (ts ! i) = pid (ts ! j)"
      using f(1,2) i by (auto simp: at split: if_splits)
    with old [OF i] r' j(1) show "i = j" by blast
  qed (use l in simp_all)
qed

lemma upd_task_table: "table_ok (tasks s) n p \<Longrightarrow> tame f \<Longrightarrow> table_ok (tasks (upd_task k f s)) n p"
  unfolding upd_task_def using table_ok_upd by simp

text \<open>Starting a task in a dead slot with the next pid.\<close>

lemma table_ok_init:
  assumes "table_ok ts n p" and "k < n" and "\<not> ready (ts ! k)" and "0 < p" "p = unat q" "name_ok (tname t)"
    and "pid t = q"
  shows "table_ok (ts[k := t]) n (Suc p)"
proof -
  from assms(1) have l: "length ts = 16" "n \<le> 16" by (simp_all add: table_ok_def)
  have k: "k < 16" using assms(2) l by simp
  have at: "(ts[k := t]) ! i = (if i = k then t else ts ! i)" if "i < 16" for i
    using that l by (simp add: nth_list_update)
  note old = assms(1) [unfolded table_ok_def, THEN conjunct2, THEN conjunct2, rule_format]
  have ne: "pid (ts ! i) \<noteq> q" if "i < 16" "ready (ts ! i)" for i
    using old [OF that(1)] that(2) assms(5) by auto
  show ?thesis
    unfolding table_ok_def
  proof (intro conjI allI impI)
    fix i :: nat assume i: "i < 16"
    show "name_ok (tname (ts[k := t] ! i))"
      using old [OF i] assms(6) by (simp add: at [OF i])
    assume r: "ready (ts[k := t] ! i)"
    then show "i < n" "0 < unat (pid (ts[k := t] ! i))" "unat (pid (ts[k := t] ! i)) < Suc p"
      using old [OF i] assms(2,4,5,7) by (auto simp: at [OF i] split: if_splits)
    fix j :: nat assume j: "j < 16" "ready (ts[k := t] ! j)" "pid (ts[k := t] ! i) = pid (ts[k := t] ! j)"
    show "i = j"
      using j r ne [OF i] ne [OF j(1)] assms(7) old [OF i] by (auto simp: at i split: if_splits)
  qed (use l in simp_all)
qed

lemma table_ok_grow: "table_ok ts n p \<Longrightarrow> n < 16 \<Longrightarrow> table_ok ts (Suc n) p"
  unfolding table_ok_def by fastforce

subsection \<open>What the primitives leave alone\<close>

text \<open>\<open>same_table s s'\<close>: only memory, the heap and the address spaces may differ.\<close>

definition same_table :: "sched \<Rightarrow> sched \<Rightarrow> bool" where
  "same_table s s' \<longleftrightarrow> tasks s' = tasks s \<and> task_count s' = task_count s \<and> current s' = current s \<and>
     next_pid s' = next_pid s \<and> sched_ready s' = sched_ready s \<and> cur_frame s' = cur_frame s \<and>
     zombie_cr3 s' = zombie_cr3 s \<and> tss_esp0 s' = tss_esp0 s"

lemma same_table_ops:
  "s_kmalloc n s = Some (p, s') \<Longrightarrow> same_table s s'"
  "s_kfree q s = Some s' \<Longrightarrow> same_table s s'"
  "destroy_space c s = Some s' \<Longrightarrow> same_table s s'"
  "in_pg f s = Some (r, s') \<Longrightarrow> same_table s s'"
  by (auto simp: s_kmalloc_def s_kfree_def destroy_space_def in_pg_def same_table_def)

lemma same_table_simps:
  assumes "same_table s s'"
  shows "tasks s' = tasks s" "task_count s' = task_count s" "current s' = current s"
    "next_pid s' = next_pid s" "sched_ready s' = sched_ready s" "cur_frame s' = cur_frame s"
    "zombie_cr3 s' = zombie_cr3 s" "tss_esp0 s' = tss_esp0 s"
  using assms by (simp_all add: same_table_def)

lemma sched_inv_same: "same_table s s' \<Longrightarrow> sched_inv s' = sched_inv s"
  by (simp add: sched_inv_def task_at_def same_table_simps)

lemma sched_inv_cong:
  "tasks s' = tasks s \<Longrightarrow> task_count s' = task_count s \<Longrightarrow> current s' = current s \<Longrightarrow>
   next_pid s' = next_pid s \<Longrightarrow> sched_inv s' = sched_inv s"
  by (simp add: sched_inv_def task_at_def)

lemma set_ram_simps [simp]:
  "tasks (set_ram f s) = tasks s" "task_count (set_ram f s) = task_count s" "current (set_ram f s) = current s"
  "next_pid (set_ram f s) = next_pid s" "task_at (set_ram f s) k = task_at s k"
  by (simp_all add: set_ram_def task_at_def)

lemma upd_task_simps [simp]:
  "task_count (upd_task k f s) = task_count s" "current (upd_task k f s) = current s"
  "next_pid (upd_task k f s) = next_pid s" "sched_ready (upd_task k f s) = sched_ready s"
  "cur_frame (upd_task k f s) = cur_frame s" "zombie_cr3 (upd_task k f s) = zombie_cr3 s"
  "pg (upd_task k f s) = pg s" "hhead (upd_task k f s) = hhead s" "tss_esp0 (upd_task k f s) = tss_esp0 s"
  by (simp_all add: upd_task_def)

lemma length_upd_task [simp]: "length (tasks (upd_task k f s)) = length (tasks s)"
  by (simp add: upd_task_def)

lemma task_at_upd:
  "unat k < length (tasks s) \<Longrightarrow> task_at (upd_task k f s) j = (if j = k then f (task_at s k) else task_at s j)"
  by (auto simp: task_at_def upd_task_def nth_list_update intro: u32_eqI)

lemma upd_task_inv:
  assumes "sched_inv s" and "tame f" and "k \<noteq> current s \<or> (\<forall>t. ready (f t) = ready t)"
  shows "sched_inv (upd_task k f s)"
proof -
  have t: "table_ok (tasks s) (unat (task_count s)) (unat (next_pid s))"
    using assms(1) by (simp add: sched_inv_def)
  have "table_ok (tasks (upd_task k f s)) (unat (task_count s)) (unat (next_pid s))"
    unfolding upd_task_def using table_ok_upd [OF t assms(2)] by simp
  moreover have "ready (task_at (upd_task k f s) (current s))"
  proof (cases "unat k < length (tasks s)")
    case True
    then show ?thesis using assms(1,3) by (auto simp: task_at_upd sched_inv_def)
  next
    case False
    then have "upd_task k f s = s" by (simp add: upd_task_def list_update_beyond)
    then show ?thesis using assms(1) by (simp add: sched_inv_def)
  qed
  ultimately show ?thesis using assms(1) by (simp add: sched_inv_def)
qed

lemma sched_inv_facts:
  assumes "sched_inv s"
  shows "length (tasks s) = 16" "unat (task_count s) \<le> 16" "unat (current s) < unat (task_count s)"
    "unat (current s) < 16" "ready (task_at s (current s))"
  using assms by (auto simp: sched_inv_def table_ok_def word_less_nat_alt)

text \<open>The slot the allocator gives: free, inside the grown table, and never the running one.\<close>

lemma alloc_slot_spec:
  assumes "sched_inv s" and "alloc_slot s = (k, s')" and "\<not> MAX_TASKS \<le> k"
  shows "sched_inv s'" "unat k < unat (task_count s')" "unat k < 16" "\<not> ready (task_at s' k)"
    "k \<noteq> current s'" "next_pid s' = next_pid s" "tasks s' = tasks s" "current s' = current s"
    "pg s' = pg s" "hhead s' = hhead s"
proof -
  note f = sched_inv_facts [OF assms(1)]
  have "sched_inv s' \<and> unat k < unat (task_count s') \<and> unat k < 16 \<and> \<not> ready (task_at s' k) \<and>
    next_pid s' = next_pid s \<and> tasks s' = tasks s \<and> current s' = current s \<and> pg s' = pg s \<and> hhead s' = hhead s"
  proof (cases "find_dead s")
    case (Some i)
    then have i: "i < unat (task_count s)" "\<not> ready (tasks s ! i)"
      by (auto simp: find_dead_def find_Some_iff)
    then have "unat (of_nat i :: u32) = i"
      using f(2) by (intro unat_of_nat32) simp
    with i f(2) assms Some show ?thesis
      by (auto simp: alloc_slot_def task_at_def)
  next
    case None
    then have d: "k = task_count s" "s' = s\<lparr>task_count := task_count s + 1\<rparr>" "task_count s < MAX_TASKS"
      using assms(2,3) by (auto simp: alloc_slot_def split: if_splits)
    then have n: "unat (task_count s) < 16"
      by (simp add: MAX_TASKS_def word_less_nat_alt)
    have u: "unat (task_count s + 1) = Suc (unat (task_count s))"
      using n by (subst unat_add_no_wrap) simp_all
    have "\<not> ready (tasks s ! unat (task_count s))"
      using assms(1) n by (auto simp: sched_inv_def table_ok_def)
    moreover have "sched_inv s'"
      using assms(1) table_ok_grow [OF _ n] f(3) u
      by (simp add: d(2) sched_inv_def task_at_def word_less_nat_alt)
    ultimately show ?thesis
      using n u by (simp add: d(1,2) task_at_def)
  qed
  then show "sched_inv s'" "unat k < unat (task_count s')" "unat k < 16" "\<not> ready (task_at s' k)"
    "next_pid s' = next_pid s" "tasks s' = tasks s" "current s' = current s" "pg s' = pg s" "hhead s' = hhead s"
    by blast+
  then show "k \<noteq> current s'"
    using sched_inv_facts(5) [of s'] by auto
qed


text \<open>Slot 16 means that all 16 slots hold ready tasks, and nothing has changed.\<close>

lemma alloc_slot_full:
  assumes "sched_inv s" and "alloc_slot s = (k, s')" and "MAX_TASKS \<le> k"
  shows "s' = s" and "\<forall>i<16. ready (tasks s ! i)"
proof -
  note f = sched_inv_facts [OF assms(1)]
  have d: "find_dead s = None"
  proof (rule ccontr)
    assume "find_dead s \<noteq> None"
    then obtain i where i: "find_dead s = Some i" by auto
    then have "i < 16" using f(2) by (auto simp: find_dead_def find_Some_iff)
    moreover from this have "unat (of_nat i :: u32) = i" by (intro unat_of_nat32) simp
    ultimately show False
      using assms(2,3) i by (auto simp: alloc_slot_def MAX_TASKS_def word_le_nat_alt)
  qed
  then have n: "\<not> task_count s < MAX_TASKS"
    using assms(2,3) by (auto simp: alloc_slot_def split: if_splits)
  with d show "s' = s" using assms(2) by (simp add: alloc_slot_def)
  have "unat (task_count s) = 16"
    using n f(2) by (simp add: MAX_TASKS_def word_less_nat_alt)
  with d show "\<forall>i<16. ready (tasks s ! i)"
    by (auto simp: find_dead_def find_None_iff)
qed

lemma init_slot_inv:
  assumes "sched_inv s" and "unat k < unat (task_count s)" and "\<not> ready (task_at s k)"
    and "next_pid s < minus1"
  shows "sched_inv (init_slot k fl s)" "k \<noteq> current (init_slot k fl s)" "unat k < 16"
    "current (init_slot k fl s) = current s"
    "pid (task_at (init_slot k fl s) k) = next_pid s" "flags (task_at (init_slot k fl s) k) = fl"
    "ready (task_at (init_slot k fl s) k)" "irq_stack_top (task_at (init_slot k fl s) k) = 0"
    "length (tasks (init_slot k fl s)) = 16"
    "pg (init_slot k fl s) = pg s" "hhead (init_slot k fl s) = hhead s"
    "task_count (init_slot k fl s) = task_count s"
    "\<And>j. j \<noteq> k \<Longrightarrow> task_at (init_slot k fl s) j = task_at s j"
proof -
  note f = sched_inv_facts [OF assms(1)]
  show k: "unat k < 16" using assms(2) f(2) by simp
  show c: "current (init_slot k fl s) = current s" by (simp add: init_slot_def)
  have ne: "k \<noteq> current s" using assms(3) f(5) by auto
  then show "k \<noteq> current (init_slot k fl s)" by (simp add: c)
  let ?t = "zero_task\<lparr>pid := next_pid s, ready := True, flags := fl\<rparr>"
  have at: "task_at (init_slot k fl s) j = (if j = k then ?t else task_at s j)" for j
    using k f(1) task_at_upd [of k s "\<lambda>_. ?t" j] by (simp add: init_slot_def task_at_def)
  have u: "unat (next_pid s + 1) = Suc (unat (next_pid s))"
    using assms(4) unat_numeral_u32 by (subst unat_add_no_wrap) (simp_all add: word_less_nat_alt)
  have "table_ok (tasks (init_slot k fl s)) (unat (task_count s)) (Suc (unat (next_pid s)))"
    unfolding init_slot_def upd_task_def using assms(1-3)
    by (simp, intro table_ok_init [where q = "next_pid s"])
      (auto simp: sched_inv_def task_at_def zero_task_def name_ok_def)
  then show "sched_inv (init_slot k fl s)"
    using assms(1) ne u at [of "current s"] c by (simp add: sched_inv_def) (simp add: init_slot_def)
  show "pid (task_at (init_slot k fl s) k) = next_pid s" "flags (task_at (init_slot k fl s) k) = fl"
    "ready (task_at (init_slot k fl s) k)" "irq_stack_top (task_at (init_slot k fl s) k) = 0"
    "\<And>j. j \<noteq> k \<Longrightarrow> task_at (init_slot k fl s) j = task_at s j"
    by (simp_all add: at zero_task_def)
  show "length (tasks (init_slot k fl s)) = 16" "pg (init_slot k fl s) = pg s"
    "hhead (init_slot k fl s) = hhead s" "task_count (init_slot k fl s) = task_count s"
    using f(1) by (simp_all add: init_slot_def)
qed

lemma set_ram_inv [simp]: "sched_inv (set_ram f s) = sched_inv s"
  by (rule sched_inv_cong) simp_all

lemma kill_slot_inv: "sched_inv s \<Longrightarrow> k \<noteq> current s \<Longrightarrow> sched_inv (kill_slot k s)"
  unfolding kill_slot_def by (rule upd_task_inv) simp_all

lemma name_slot_inv: "sched_inv s \<Longrightarrow> sched_inv (name_slot k n s)"
  unfolding name_slot_def by (rule upd_task_inv) simp_all

lemma name_slot_current [simp]: "current (name_slot k n s) = current s"
  by (simp add: name_slot_def)

lemma alloc_irq_stack_inv:
  assumes "alloc_irq_stack k s = Some (ok, s')" and "sched_inv s"
  shows "sched_inv s'" "current s' = current s"
proof -
  have "sched_inv s' \<and> current s' = current s"
    using assms
    by (auto simp: alloc_irq_stack_def sched_inv_same [OF same_table_ops(1)]
        same_table_simps(3) [OF same_table_ops(1)] split: if_splits bind_splits intro!: upd_task_inv)
  then show "sched_inv s'" "current s' = current s" by blast+
qed

lemma task_setup_stack_inv: "sched_inv s \<Longrightarrow> sched_inv (task_setup_stack k fn s)"
  by (auto simp: task_setup_stack_def intro!: upd_task_inv split: prod.splits)

lemma task_setup_user_stack_inv:
  "task_setup_user_stack k e s = Some s' \<Longrightarrow> sched_inv s \<Longrightarrow> sched_inv s'"
  by (auto simp: task_setup_user_stack_def sched_inv_same [OF same_table_ops(1)]
      split: if_splits bind_splits prod.splits intro!: upd_task_inv)

text \<open>The three ways to make a task keep the invariant, whether they succeed or fail.\<close>

lemma task_create_inv:
  assumes "task_create name fn s = Some (p, s')" and "sched_inv s" and "next_pid s < minus1"
  shows "sched_inv s'"
proof -
  obtain k s1 where a: "alloc_slot s = (k, s1)" by (cases "alloc_slot s")
  show ?thesis
  proof (cases "MAX_TASKS \<le> k")
    case True
    then have "s' = s1" using assms(1) a by (simp add: task_create_def)
    then show ?thesis using alloc_slot_full(1) [OF assms(2) a True] assms(2) by simp
  next
    case False
    note sl = alloc_slot_spec [OF assms(2) a False]
    have lt: "next_pid s1 < minus1" using sl(6) assms(3) by simp
    note i = init_slot_inv [OF sl(1,2,4) lt]
    obtain stk s2 where m: "s_kmalloc TASK_STACK (init_slot k TASK_KERNEL s1) = Some (stk, s2)"
      using assms(1) a False by (auto simp: task_create_def split: bind_splits)
    let ?s3 = "upd_task k (stack_bottom_update (\<lambda>_. stk)) s2"
    have i3: "sched_inv ?s3" "current ?s3 = current s1"
      using i(1,4) same_table_ops(1) [OF m]
      by (simp_all add: sched_inv_same same_table_simps upd_task_inv)
    have ne: "k \<noteq> current s1" by (rule sl(5))
    show ?thesis
    proof (cases "stk = 0")
      case True
      then show ?thesis using assms(1) a False m i3 ne
        by (auto simp: task_create_def intro!: kill_slot_inv)
    next
      case stk: False
      obtain ok s4 where al: "alloc_irq_stack k ?s3 = Some (ok, s4)"
        using assms(1) a False m stk by (auto simp: task_create_def Let_def split: bind_splits)
      note i4 = alloc_irq_stack_inv [OF al i3(1)]
      have ne4: "k \<noteq> current s4" using i4(2) i3(2) ne by simp
      show ?thesis
        using assms(1) a False m stk al i4(1) ne4
        by (auto simp: task_create_def Let_def split: if_splits
            intro!: kill_slot_inv task_setup_stack_inv name_slot_inv)
    qed
  qed
qed

lemma task_create_user_inv:
  assumes "task_create_user name e c s = Some (p, s')" and "sched_inv s" and "next_pid s < minus1"
  shows "sched_inv s'"
proof -
  obtain k s1 where a: "alloc_slot s = (k, s1)" by (cases "alloc_slot s")
  show ?thesis
  proof (cases "MAX_TASKS \<le> k")
    case True
    then have "s' = s1" using assms(1) a by (simp add: task_create_user_def)
    then show ?thesis using alloc_slot_full(1) [OF assms(2) a True] assms(2) by simp
  next
    case False
    note sl = alloc_slot_spec [OF assms(2) a False]
    have lt: "next_pid s1 < minus1" using sl(6) assms(3) by simp
    note i = init_slot_inv [OF sl(1,2,4) lt]
    obtain ok s2 where m: "alloc_irq_stack k (init_slot k TASK_USER s1) = Some (ok, s2)"
      using assms(1) a False by (auto simp: task_create_user_def split: bind_splits)
    note i2 = alloc_irq_stack_inv [OF m i(1)]
    have ne: "k \<noteq> current s2" using i2 i(2) by simp
    show ?thesis
      using assms(1) a False m i2 ne
      by (auto simp: task_create_user_def split: bind_splits if_splits
          intro!: kill_slot_inv name_slot_inv upd_task_inv elim!: task_setup_user_stack_inv)
  qed
qed


lemma task_fork_user_inv:
  assumes "task_fork_user name fr c s = Some (p, s')" and "sched_inv s" and "next_pid s < minus1"
  shows "sched_inv s'"
proof -
  obtain k s1 where a: "alloc_slot s = (k, s1)" by (cases "alloc_slot s")
  show ?thesis
  proof (cases "MAX_TASKS \<le> k")
    case True
    then have "s' = s1" using assms(1) a by (simp add: task_fork_user_def)
    then show ?thesis using alloc_slot_full(1) [OF assms(2) a True] assms(2) by simp
  next
    case False
    note sl = alloc_slot_spec [OF assms(2) a False]
    obtain cc s2 where f: "in_pg (paging_fork_addr_space c) s1 = Some (cc, s2)"
      using assms(1) a False by (auto simp: task_fork_user_def split: bind_splits)
    note f' = same_table_ops(4) [OF f]
    have i2: "sched_inv s2" using sl(1) by (simp add: sched_inv_same [OF f'])
    show ?thesis
    proof (cases "cc = 0")
      case True
      then show ?thesis using assms(1) a False f i2 by (simp add: task_fork_user_def)
    next
      case cc: False
      obtain fc s3 where m: "s_kmalloc FRAME_BYTES s2 = Some (fc, s3)"
        using assms(1) a False f cc by (auto simp: task_fork_user_def split: bind_splits)
      note m' = same_table_ops(1) [OF m]
      have i3: "sched_inv s3" using i2 by (simp add: sched_inv_same [OF m'])
      show ?thesis
      proof (cases "fc = 0")
        case True
        then show ?thesis using assms(1) a False f cc m i3
          by (auto simp: task_fork_user_def sched_inv_same [OF same_table_ops(3)] split: bind_splits)
      next
        case fc: False
        let ?s4 = "set_ram (\<lambda>m. memcpy m fc fr (unat FRAME_BYTES)) s3"
        have t: "task_count ?s4 = task_count s1" "next_pid ?s4 = next_pid s1" "task_at ?s4 k = task_at s1 k"
          "current ?s4 = current s1"
          by (simp_all add: same_table_simps [OF m'] same_table_simps [OF f'] task_at_def)
        have i4: "sched_inv ?s4" using i3 by simp
        have pre: "unat k < unat (task_count ?s4)" "\<not> ready (task_at ?s4 k)" "next_pid ?s4 < minus1"
          unfolding t using sl(2,4,6) assms(3) by simp_all
        note i = init_slot_inv [OF i4 pre]
        obtain ok s5 where al: "alloc_irq_stack k (init_slot k TASK_USER ?s4) = Some (ok, s5)"
          using assms(1) a False f cc m fc by (auto simp: task_fork_user_def split: bind_splits)
        note i5 = alloc_irq_stack_inv [OF al i(1)]
        have ne: "k \<noteq> current s5" using i5(2) i(2) by simp
        show ?thesis
        proof (cases ok)
          case True
          then show ?thesis using assms(1) a False f cc m fc al i5(1) ne
            by (auto simp: task_fork_user_def Let_def intro!: upd_task_inv name_slot_inv)
        next
          case no: False
          have "sched_inv (kill_slot k s5)" by (rule kill_slot_inv [OF i5(1) ne])
          with assms(1) a False f cc m fc al no show ?thesis
            by (auto simp: task_fork_user_def sched_inv_same [OF same_table_ops(3)]
                sched_inv_same [OF same_table_ops(2)] split: bind_splits)
        qed
      qed
    qed
  qed
qed

text \<open>Moving to another ready slot.\<close>

lemma sched_inv_move:
  assumes "sched_inv s" and "tasks s' = tasks s" "task_count s' = task_count s" "next_pid s' = next_pid s"
    and "current s' < task_count s'" "ready (task_at s' (current s'))"
  shows "sched_inv s'"
  using assms by (simp add: sched_inv_def task_at_def)

lemma stack_cr3_simps [simp]:
  "tasks (user_set_kernel_stack t s) = tasks s" "task_count (user_set_kernel_stack t s) = task_count s"
  "current (user_set_kernel_stack t s) = current s" "next_pid (user_set_kernel_stack t s) = next_pid s"
  "pg (user_set_kernel_stack t s) = pg s" "zombie_cr3 (user_set_kernel_stack t s) = zombie_cr3 s"
  "task_at (user_set_kernel_stack t s) k = task_at s k"
  "tasks (switch_cr3 k s) = tasks s" "task_count (switch_cr3 k s) = task_count s"
  "current (switch_cr3 k s) = current s" "next_pid (switch_cr3 k s) = next_pid s"
  "zombie_cr3 (switch_cr3 k s) = zombie_cr3 s" "tss_esp0 (switch_cr3 k s) = tss_esp0 s"
  "task_at (switch_cr3 k s) j = task_at s j"
  by (simp_all add: user_set_kernel_stack_def switch_cr3_def task_at_def)

lemma switch_to_inv:
  assumes "sched_inv s" and "n < task_count s"
  shows "sched_inv (snd (switch_to fr n s))"
proof (cases "MAX_TASKS \<le> n \<or> MAX_TASKS \<le> current s \<or> \<not> ready (task_at s n)")
  case True
  then show ?thesis using assms(1) by (simp add: switch_to_def)
next
  case False
  let ?s1 = "upd_task (current s) (esp_update (\<lambda>_. fr)) s"
  have i1: "sched_inv ?s1" using assms(1) by (rule upd_task_inv) simp_all
  have "ready (task_at ?s1 n)"
    using False sched_inv_facts(1,4) [OF assms(1)] by (auto simp: task_at_upd)
  then show ?thesis
    using False i1 assms(2)
    by (intro sched_inv_move [OF i1])
      (simp_all add: switch_to_def upd_task_def task_at_def user_set_kernel_stack_def switch_cr3_def Let_def)
qed

lemma ring_slot:
  assumes "unat n \<noteq> 0" and "unat n \<le> 16" "unat c < 16" "i \<le> 16"
  shows "unat ((c + of_nat i) mod n :: u32) = (unat c + i) mod unat n"
    and "(c + of_nat i) mod n < n"
proof -
  have "unat (c + of_nat i :: u32) = unat c + i"
    using assms(3,4) by (subst unat_add_no_wrap) (simp_all add: unat_of_nat32)
  then show u: "unat ((c + of_nat i) mod n :: u32) = (unat c + i) mod unat n"
    by (simp add: unat_mod)
  show "(c + of_nat i) mod n < n"
    unfolding word_less_nat_alt u using assms(1) by simp
qed

lemma next_ready_range:
  assumes "next_ready s = Some n" shows "n < task_count s \<and> ready (task_at s n)"
  using assms by (auto simp: next_ready_def find_Some_iff)

lemma sched_tick_inv: "sched_inv s \<Longrightarrow> sched_inv (snd (sched_tick s))"
  by (auto simp: sched_tick_def split: option.splits dest!: next_ready_range intro!: switch_to_inv upd_task_inv)

lemma sched_yield_inv:
  assumes "sched_inv s" shows "sched_inv (snd (sched_yield s))"
proof -
  have "(current s + 1) mod task_count s < task_count s"
    using ring_slot(2) [of "task_count s" "current s" 1] sched_inv_facts [OF assms] by simp
  then show ?thesis
    using assms by (auto simp: sched_yield_def Let_def intro!: switch_to_inv upd_task_inv)
qed

lemma sched_enter_irq_inv: "sched_inv s \<Longrightarrow> sched_inv (sched_enter_irq r s)"
proof -
  assume "sched_inv s"
  then have "sched_inv (upd_task (current s) (esp_update (\<lambda>_. r)) s)"
    by (rule upd_task_inv) simp_all
  with \<open>sched_inv s\<close> show ?thesis
    by (auto simp: sched_enter_irq_def Let_def intro: sched_inv_cong [THEN iffD2, rotated 4])
qed

lemma next_other_range:
  assumes "next_other s = Some n"
  shows "n \<noteq> current s" "ready (task_at s n)"
    "\<exists>i. 1 \<le> i \<and> i < unat (task_count s) \<and> n = (current s + of_nat i) mod task_count s"
proof -
  let ?xs = "map (\<lambda>i. (current s + of_nat i) mod task_count s) [1 ..< unat (task_count s)]"
  obtain j where "j < length ?xs" "n = ?xs ! j" "n \<noteq> current s \<and> ready (task_at s n)"
    using assms unfolding next_other_def find_Some_iff by blast
  moreover from this have "n \<in> set ?xs" using nth_mem by blast
  ultimately show "n \<noteq> current s" "ready (task_at s n)"
    "\<exists>i. 1 \<le> i \<and> i < unat (task_count s) \<and> n = (current s + of_nat i) mod task_count s"
    by auto
qed

text \<open>Exit: the running task dies, and unless none is left another ready one is adopted.\<close>

lemma park_current_simps [simp]:
  "task_count (park_current s) = task_count s" "current (park_current s) = current s"
  "next_pid (park_current s) = next_pid s" "pg (park_current s) = pg s"
  by (simp_all add: park_current_def Let_def)

lemma enter_space_simps [simp]:
  "tasks (enter_space n s) = tasks (upd_task n (slice_left_update (\<lambda>_. 5)) s)"
  "task_count (enter_space n s) = task_count s" "next_pid (enter_space n s) = next_pid s"
  "current (enter_space n s) = current s" "zombie_cr3 (enter_space n s) = zombie_cr3 s"
  by (simp_all add: enter_space_def Let_def)

lemma reap_zombies_simps:
  assumes "reap_zombies s = Some s'"
  shows "tasks s' = tasks s" "task_count s' = task_count s" "next_pid s' = next_pid s"
    "zombie_cr3 s' = 0"
proof -
  have "tasks s' = tasks s \<and> task_count s' = task_count s \<and> next_pid s' = next_pid s \<and> zombie_cr3 s' = 0"
    using assms by (auto simp: reap_zombies_def same_table_simps [OF same_table_ops(3)] split: if_splits)
  then show "tasks s' = tasks s" "task_count s' = task_count s" "next_pid s' = next_pid s" "zombie_cr3 s' = 0"
    by blast+
qed

lemma sched_exit_inv:
  assumes "sched_exit_current s = Some (Resume e, s')" and "sched_inv s"
  shows "sched_inv s'"
proof -
  let ?s2 = "park_current s"
  obtain n s4 where n: "next_other ?s2 = Some n" "reap_zombies (enter_space n ?s2) = Some s4"
    and s': "s' = s4\<lparr>current := n\<rparr>"
    using assms(1) by (auto simp: sched_exit_current_def Let_def split: option.splits bind_splits)
  note nx = next_other_range [OF n(1)]
  note f = sched_inv_facts [OF assms(2)]
  have lt: "n < task_count s"
    using nx(3) ring_slot(2) [of "task_count s" "current s"] f by auto
  have "table_ok (tasks ?s2) (unat (task_count s)) (unat (next_pid s))"
    using assms(2) by (auto simp: park_current_def Let_def sched_inv_def intro!: upd_task_table)
  then have t3: "table_ok (tasks (upd_task n (slice_left_update (\<lambda>_. 5)) ?s2)) (unat (task_count s)) (unat (next_pid s))"
    by (rule upd_task_table) simp
  have l: "unat n < length (tasks ?s2)"
    using f lt by (simp add: word_less_nat_alt park_current_def Let_def)
  have "ready (task_at (upd_task n (slice_left_update (\<lambda>_. 5)) ?s2) n)"
    using nx(2) by (simp add: task_at_upd [OF l])
  then show ?thesis
    unfolding s' using t3 lt assms(2) by (simp add: sched_inv_def task_at_def reap_zombies_simps [OF n(2)])
qed

subsection \<open>The scheduler as a state machine\<close>

text \<open>
  Everything that happens to the table after the boot thread is adopted, in any order: task
  creation of the three kinds, interrupts, ticks, yields and exits.  Pids are not reused as
  long as fewer than 2^32 tasks are created, which the creation steps require.
\<close>

inductive sched_step :: "sched \<Rightarrow> sched \<Rightarrow> bool" where
  create: "task_create name fn s = Some (p, s') \<Longrightarrow> next_pid s < minus1 \<Longrightarrow> sched_step s s'"
| create_user: "task_create_user name e c s = Some (p, s') \<Longrightarrow> next_pid s < minus1 \<Longrightarrow> sched_step s s'"
| fork: "task_fork_user name fr c s = Some (p, s') \<Longrightarrow> next_pid s < minus1 \<Longrightarrow> sched_step s s'"
| enter_irq: "sched_step s (sched_enter_irq r s)"
| tick: "sched_step s (snd (sched_tick s))"
| yield: "sched_step s (snd (sched_yield s))"
| exit: "sched_exit_current s = Some (Resume e, s') \<Longrightarrow> sched_step s s'"

inductive_cases sched_stepE: "sched_step s s'"

inductive sched_reach :: "sched \<Rightarrow> bool" where
  boot: "next_pid s = 1 \<Longrightarrow> sched_reach (snd (sched_adopt_current name (sched_init s)))"
| step: "sched_reach s \<Longrightarrow> sched_step s s' \<Longrightarrow> sched_reach s'"

lemma sched_step_inv: "sched_step s s' \<Longrightarrow> sched_inv s \<Longrightarrow> sched_inv s'"
  by (elim sched_stepE)
    (auto intro: task_create_inv task_create_user_inv task_fork_user_inv sched_enter_irq_inv
      sched_tick_inv sched_yield_inv sched_exit_inv)

lemma sched_boot_inv:
  assumes "next_pid s = 1"
  shows "sched_inv (snd (sched_adopt_current name (sched_init s)))"
proof -
  let ?t = "zero_task\<lparr>pid := 1, ready := True, flags := TASK_KERNEL, stack_bottom := 0, task_cr3 := 0,
    slice_left := 5, esp := 0, tname := set_name name (tname zero_task)\<rparr>"
  have n: "name_ok (tname zero_task)" "name_ok (set_name name (tname zero_task))"
    by (simp add: name_ok_def zero_task_def) (rule set_name_ok, simp add: zero_task_def)
  have e: "table_ok (replicate 16 zero_task) 1 1"
    using n(1) by (simp add: table_ok_def zero_task_def)
  have "table_ok ((replicate 16 zero_task)[0 := ?t]) 1 (Suc 1)"
    by (rule table_ok_init [OF e, where q = 1]) (use n in \<open>simp_all add: zero_task_def\<close>)
  then have "table_ok ((replicate 16 zero_task)[0 := ?t]) 1 2"
    by (simp add: numeral_2_eq_2)
  then show ?thesis
    using assms by (simp add: sched_adopt_current_def sched_init_def MAX_TASKS_def sched_inv_def upd_task_def task_at_def)
qed

lemma sched_reach_inv: "sched_reach s \<Longrightarrow> sched_inv s"
  by (induction rule: sched_reach.induct) (auto intro: sched_boot_inv sched_step_inv)


subsection \<open>Round robin\<close>

text \<open>The distance from slot \<open>a\<close> forward to slot \<open>b\<close> in a ring of \<open>n\<close>.\<close>

definition ahead :: "nat \<Rightarrow> nat \<Rightarrow> nat \<Rightarrow> nat" where
  "ahead n a b = (b + n - a) mod n"

lemma ahead_less: "0 < n \<Longrightarrow> ahead n a b < n"
  by (simp add: ahead_def)

lemma ahead_self: "a < n \<Longrightarrow> ahead n a a = 0"
  by (simp add: ahead_def)

lemma ahead_reaches: "a < n \<Longrightarrow> b < n \<Longrightarrow> (a + ahead n a b) mod n = b"
  unfolding ahead_def by (simp add: mod_add_right_eq)

lemma ahead_unique:
  assumes "a < n" "d < n" shows "ahead n a ((a + d) mod n) = d"
proof (cases "a + d < n")
  case True
  then show ?thesis using assms by (simp add: ahead_def)
next
  case False
  then have "(a + d) mod n = a + d - n" using assms by (simp add: le_mod_geq)
  then show ?thesis using assms False by (simp add: ahead_def)
qed

lemma ahead_step:
  assumes "a < n" "b < n" "e \<le> ahead n a b"
  shows "ahead n ((a + e) mod n) b = ahead n a b - e"
proof -
  let ?d = "ahead n a b"
  have d: "?d < n" using assms(1) by (intro ahead_less) simp
  have "((a + e) mod n + (?d - e)) mod n = ((a + e) + (?d - e)) mod n"
    by (rule mod_add_left_eq)
  also have "(a + e) + (?d - e) = a + ?d"
    using assms(3) by simp
  also have "(a + ?d) mod n = b" by (rule ahead_reaches [OF assms(1,2)])
  finally show ?thesis
    using ahead_unique [of "(a + e) mod n" n "?d - e"] assms(1) d by simp
qed

text \<open>The slot a tick moves to: the first ready one after the running task, itself last.\<close>

lemma next_ready_spec:
  assumes "sched_inv s"
  obtains e n where "next_ready s = Some n" "1 \<le> e" "e \<le> unat (task_count s)"
    "unat n = (unat (current s) + e) mod unat (task_count s)" "ready (task_at s n)" "n < task_count s"
    "\<forall>j. 1 \<le> j \<longrightarrow> j < e \<longrightarrow> \<not> ready (tasks s ! ((unat (current s) + j) mod unat (task_count s)))"
proof -
  note f = sched_inv_facts [OF assms]
  let ?c = "unat (task_count s)" and ?a = "unat (current s)"
  let ?xs = "map (\<lambda>i. (current s + of_nat i) mod task_count s) [1 ..< Suc ?c]"
  have at: "?xs ! i = (current s + of_nat (Suc i)) mod task_count s" "unat (?xs ! i) = (?a + Suc i) mod ?c"
    "?xs ! i < task_count s" if "i < ?c" for i
  proof -
    show x: "?xs ! i = (current s + of_nat (Suc i)) mod task_count s"
      using that by (simp del: upt_Suc of_nat_Suc)
    have "?c \<noteq> 0" "Suc i \<le> 16" using that f(2) by simp_all
    from ring_slot [OF this(1) f(2,4) this(2)]
    show "unat (?xs ! i) = (?a + Suc i) mod ?c" "?xs ! i < task_count s"
      unfolding x by blast+
  qed
  let ?P = "\<lambda>n. n < task_count s \<and> ready (task_at s n)"
  have "?P (?xs ! (?c - 1))"
  proof -
    have c: "?c - 1 < ?c" "Suc (?c - 1) = ?c" using f(3) by simp_all
    have "unat (?xs ! (?c - 1)) = ?a"
      using at(2) [OF c(1)] f(3) unfolding c(2) by simp
    then have "?xs ! (?c - 1) = current s" by (rule u32_eqI)
    then show ?thesis using at(3) [OF c(1)] f(5) by simp
  qed
  then have "find ?P ?xs \<noteq> None"
    using f(3) by (auto simp: find_None_iff simp del: upt_Suc intro!: bexI [of _ "?c"])
  then obtain n where n: "next_ready s = Some n" by (auto simp: next_ready_def)
  then obtain i where i: "i < length ?xs" "?P (?xs ! i)" "n = ?xs ! i" "\<forall>j<i. \<not> ?P (?xs ! j)"
    unfolding next_ready_def find_Some_iff by blast
  have ic: "i < ?c" using i(1) by (simp del: upt_Suc)
  have "\<not> ready (tasks s ! ((?a + j) mod ?c))" if "1 \<le> j" "j < Suc i" for j
  proof -
    from that obtain j' where j': "j = Suc j'" "j' < i" by (cases j) auto
    then have "j' < ?c" using ic by simp
    note at' = at(2,3) [OF this]
    have "\<not> ?P (?xs ! j')" using i(4) j'(2) by blast
    then show ?thesis
      using at'(2) unfolding task_at_def at'(1) j'(1) by blast
  qed
  with that [OF n, of "Suc i"] ic i(2,3) at(2) [OF ic] show ?thesis by simp
qed

definition tick_ready :: "sched \<Rightarrow> bool" where
  "tick_ready s \<longleftrightarrow> 2 \<le> task_count s \<and> sched_ready s \<and> cur_frame s \<noteq> 0"

lemma task_count_16: "sched_inv s \<Longrightarrow> n < task_count s \<Longrightarrow> \<not> MAX_TASKS \<le> n"
  using sched_inv_facts(2) [of s] by (auto simp: MAX_TASKS_def word_less_nat_alt word_le_nat_alt)

text \<open>A tick whose running task has time left only counts it down.\<close>

lemma tick_counts_down:
  assumes "sched_inv s" and "tick_ready s" and "0 < slice_left (task_at s (current s))"
  shows "sched_tick s = (Stay, upd_task (current s) (\<lambda>t. t\<lparr>slice_left := slice_left t - 1\<rparr>) s)"
  using assms by (auto simp: sched_tick_def tick_ready_def sched_inv_def)

lemma tick_switches:
  assumes "sched_inv s" and "tick_ready s" and "slice_left (task_at s (current s)) = 0"
  obtains e n s' r where "sched_tick s = (Resume r, s')" "1 \<le> e" "e \<le> unat (task_count s)"
    "unat n = (unat (current s) + e) mod unat (task_count s)" "ready (task_at s n)"
    "\<forall>j. 1 \<le> j \<longrightarrow> j < e \<longrightarrow> \<not> ready (tasks s ! ((unat (current s) + j) mod unat (task_count s)))"
    "current s' = n" "task_count s' = task_count s"
    "\<forall>j. task_at s' j = (if j = n then (task_at s n)\<lparr>slice_left := 5, esp := if n = current s then cur_frame s else esp (task_at s n)\<rparr>
       else if j = current s then (task_at s j)\<lparr>slice_left := 5, esp := cur_frame s\<rparr> else task_at s j)"
    "r = (if n = current s then cur_frame s else esp (task_at s n))"
    "cr3 (pg s') = (if flags (task_at s n) = TASK_USER then task_cr3 (task_at s n)
       else if flags (task_at s (current s)) = TASK_USER then KERNEL_PD else cr3 (pg s))"
    "tss_esp0 s' = (if irq_stack_top (task_at s n) \<noteq> 0 then irq_stack_top (task_at s n) else tss_esp0 s)"
proof -
  obtain e n where n: "next_ready s = Some n" "1 \<le> e" "e \<le> unat (task_count s)"
    "unat n = (unat (current s) + e) mod unat (task_count s)" "ready (task_at s n)" "n < task_count s"
    "\<forall>j. 1 \<le> j \<longrightarrow> j < e \<longrightarrow> \<not> ready (tasks s ! ((unat (current s) + j) mod unat (task_count s)))"
    by (rule next_ready_spec [OF assms(1)])
  note f = sched_inv_facts [OF assms(1)]
  define s1 where "s1 = upd_task (current s) (\<lambda>t. t\<lparr>esp := cur_frame s, slice_left := 5\<rparr>) s"
  define s2 where "s2 = upd_task n (slice_left_update (\<lambda>_. 5)) s1"
  have cur: "current s < task_count s" using assms(1) by (simp add: sched_inv_def)
  have tick: "sched_tick s = switch_to (cur_frame s) n s2"
    using assms n(1) cur by (auto simp: sched_tick_def tick_ready_def Let_def s2_def s1_def)
  have nlen: "unat n < 16" using n(6) f(2) by (simp add: word_less_nat_alt)
  have at1: "task_at s1 j = (if j = current s then (task_at s j)\<lparr>esp := cur_frame s, slice_left := 5\<rparr> else task_at s j)" for j
    using f(1,4) by (simp add: s1_def task_at_upd)
  have at2: "task_at s2 j = (if j = n then (task_at s1 n)\<lparr>slice_left := 5\<rparr> else task_at s1 j)" for j
    using f(1) nlen unfolding s2_def by (subst task_at_upd) (simp_all add: s1_def)
  have l2: "unat (current s) < length (tasks s2)" using f(1,4) by (simp add: s2_def s1_def)
  have ok: "\<not> MAX_TASKS \<le> n" "\<not> MAX_TASKS \<le> current s"
    using task_count_16 [OF assms(1)] n(6) cur by blast+
  define s3 where "s3 = (if flags (task_at s2 (current s)) = TASK_USER \<or> flags (task_at s2 n) = TASK_USER
    then switch_cr3 n s2 else s2)"
  have s3: "task_at s3 j = task_at s2 j" "tasks s3 = tasks s2" "task_count s3 = task_count s"
    "tss_esp0 s3 = tss_esp0 s" for j
    by (simp_all add: s3_def task_at_def) (simp_all add: s2_def s1_def)
  have c3: "cr3 (pg s3) = (if flags (task_at s n) = TASK_USER then task_cr3 (task_at s n)
       else if flags (task_at s (current s)) = TASK_USER then KERNEL_PD else cr3 (pg s))"
  proof -
    have "flags (task_at s2 j) = flags (task_at s j)" "task_cr3 (task_at s2 j) = task_cr3 (task_at s j)" for j
      by (simp_all add: at2 at1)
    moreover have "pg s2 = pg s" by (simp add: s2_def s1_def)
    ultimately show ?thesis by (simp add: s3_def switch_cr3_def paging_switch_def)
  qed
  let ?s4 = "upd_task (current s) (esp_update (\<lambda>_. cur_frame s)) s3"
  have at4: "task_at ?s4 j = (if j = current s then (task_at s2 j)\<lparr>esp := cur_frame s\<rparr> else task_at s2 j)" for j
    using l2 s3(2) by (subst task_at_upd) (simp_all add: s3(1))
  define s5 where "s5 = (if irq_stack_top (task_at ?s4 n) \<noteq> 0
    then user_set_kernel_stack (irq_stack_top (task_at ?s4 n)) ?s4 else ?s4)"
  have s5: "task_at s5 j = task_at ?s4 j" "task_count s5 = task_count s" "pg s5 = pg s3"
    "tss_esp0 s5 = (if irq_stack_top (task_at s n) \<noteq> 0 then irq_stack_top (task_at s n) else tss_esp0 s)" for j
  proof -
    have i: "irq_stack_top (task_at ?s4 n) = irq_stack_top (task_at s n)"
      by (simp add: at4 at2 at1)
    show "task_at s5 j = task_at ?s4 j" "task_count s5 = task_count s" "pg s5 = pg s3"
      by (simp_all add: s5_def s3)
    show "tss_esp0 s5 = (if irq_stack_top (task_at s n) \<noteq> 0 then irq_stack_top (task_at s n) else tss_esp0 s)"
      unfolding s5_def i by (simp add: s3 user_set_kernel_stack_def)
  qed
  have "ready (task_at s2 n)" using n(5) by (auto simp: at2 at1)
  moreover have c2: "current s2 = current s" by (simp add: s2_def s1_def)
  ultimately have run: "switch_to (cur_frame s) n s2 = (Resume (esp (task_at (s5\<lparr>current := n\<rparr>) n)), s5\<lparr>current := n\<rparr>)"
    using ok unfolding switch_to_def Let_def c2 s3_def [symmetric] s5_def [symmetric] by simp
  have cu: "task_at (s5\<lparr>current := n\<rparr>) j = task_at s5 j" for j by (simp add: task_at_def)
  show ?thesis
  proof (rule that [of "esp (task_at (s5\<lparr>current := n\<rparr>) n)" "s5\<lparr>current := n\<rparr>" e n])
    show "sched_tick s = (Resume (esp (task_at (s5\<lparr>current := n\<rparr>) n)), s5\<lparr>current := n\<rparr>)"
      using tick run by simp
    show "cr3 (pg (s5\<lparr>current := n\<rparr>)) = (if flags (task_at s n) = TASK_USER then task_cr3 (task_at s n)
       else if flags (task_at s (current s)) = TASK_USER then KERNEL_PD else cr3 (pg s))"
      using s5(3) c3 by simp
    show "\<forall>j. task_at (s5\<lparr>current := n\<rparr>) j = (if j = n then (task_at s n)\<lparr>slice_left := 5, esp := if n = current s then cur_frame s else esp (task_at s n)\<rparr>
       else if j = current s then (task_at s j)\<lparr>slice_left := 5, esp := cur_frame s\<rparr> else task_at s j)"
      by (auto simp: cu s5(1) at4 at2 at1)
    show "esp (task_at (s5\<lparr>current := n\<rparr>) n) = (if n = current s then cur_frame s else esp (task_at s n))"
      by (auto simp: cu s5(1) at4 at2 at1)
  qed (use n s5 in simp_all)
qed


text \<open>Timer interrupts, each with its own frame; slots keep their state across them.\<close>

primrec ticks_from :: "u32 list \<Rightarrow> sched \<Rightarrow> sched" where
  "ticks_from [] s = s"
| "ticks_from (r # rs) s = ticks_from rs (snd (sched_tick (sched_enter_irq r s)))"

lemma enter_irq_facts:
  assumes "sched_inv s"
  shows "task_count (sched_enter_irq r s) = task_count s" "current (sched_enter_irq r s) = current s"
    "sched_ready (sched_enter_irq r s)" "cur_frame (sched_enter_irq r s) = r"
    "slice_left (task_at (sched_enter_irq r s) k) = slice_left (task_at s k)"
    "ready (task_at (sched_enter_irq r s) k) = ready (task_at s k)"
  using sched_inv_facts(1,4) [OF assms]
  by (simp_all add: sched_enter_irq_def Let_def task_at_upd) (simp_all add: task_at_def upd_task_def nth_list_update)

text \<open>Ticks still to come before slot \<open>k\<close> runs: the running slice and six per slot on the way.\<close>

definition wait_bound :: "sched \<Rightarrow> u32 \<Rightarrow> nat" where
  "wait_bound s k = (let d = ahead (unat (task_count s)) (unat (current s)) (unat k)
     in if d = 0 then 0 else unat (slice_left (task_at s (current s))) + 6 * d)"

lemma tick_progress:
  assumes "sched_inv s" and "2 \<le> task_count s" and "r \<noteq> 0" and "k < task_count s" "ready (task_at s k)"
    and "current s \<noteq> k"
  defines "s' \<equiv> snd (sched_tick (sched_enter_irq r s))"
  shows "sched_inv s'" "task_count s' = task_count s" "ready (task_at s' k)" "wait_bound s' k < wait_bound s k"
proof -
  let ?s = "sched_enter_irq r s"
  note e = enter_irq_facts [OF assms(1), of r]
  have inv: "sched_inv ?s" by (rule sched_enter_irq_inv [OF assms(1)])
  then show "sched_inv s'" unfolding s'_def by (rule sched_tick_inv)
  have tr: "tick_ready ?s" using assms(2,3) e by (simp add: tick_ready_def)
  note f = sched_inv_facts [OF inv]
  let ?n = "unat (task_count s)" and ?a = "unat (current s)" and ?k = "unat k"
  have an: "?a < ?n" "?k < ?n" using f(3) assms(4) e by (simp_all add: word_less_nat_alt)
  have d0: "ahead ?n ?a ?k \<noteq> 0"
  proof
    assume "ahead ?n ?a ?k = 0"
    then have "?a = ?k" using ahead_reaches [OF an] an by simp
    with assms(6) show False by (simp add: u32_eqI)
  qed
  have "task_count s' = task_count s \<and> ready (task_at s' k) \<and> wait_bound s' k < wait_bound s k"
  proof (cases "0 < slice_left (task_at ?s (current ?s))")
    case True
    have s': "s' = upd_task (current ?s) (\<lambda>t. t\<lparr>slice_left := slice_left t - 1\<rparr>) ?s"
      unfolding s'_def tick_counts_down [OF inv tr True] by simp
    have "task_at s' j = (if j = current s then (task_at ?s j)\<lparr>slice_left := slice_left (task_at ?s j) - 1\<rparr> else task_at ?s j)" for j
      unfolding s' using f(1,4) e(2) by (simp add: task_at_upd)
    moreover have "unat (slice_left (task_at s (current s)) - 1) < unat (slice_left (task_at s (current s)))"
      using True e(2,5) unat_Suc_u32 [of "slice_left (task_at s (current s))"] by (simp add: word_gt_0)
    moreover have "task_count s' = task_count s" "current s' = current s"
      using e by (simp_all add: s')
    ultimately show ?thesis using e d0 assms(5,6) by (auto simp: wait_bound_def Let_def)
  next
    case False
    then have z: "slice_left (task_at ?s (current ?s)) = 0" by (simp add: word_gt_0)
    obtain i n t q where t: "sched_tick ?s = (Resume q, t)" "1 \<le> i" "i \<le> unat (task_count ?s)"
      "unat n = (unat (current ?s) + i) mod unat (task_count ?s)" "ready (task_at ?s n)"
      "\<forall>j. 1 \<le> j \<longrightarrow> j < i \<longrightarrow> \<not> ready (tasks ?s ! ((unat (current ?s) + j) mod unat (task_count ?s)))"
      "current t = n" "task_count t = task_count ?s"
      "\<forall>j. task_at t j = (if j = n then (task_at ?s n)\<lparr>slice_left := 5, esp := if n = current ?s then cur_frame ?s else esp (task_at ?s n)\<rparr>
         else if j = current ?s then (task_at ?s j)\<lparr>slice_left := 5, esp := cur_frame ?s\<rparr> else task_at ?s j)"
      by (rule tick_switches [OF inv tr z])
    have st: "s' = t" using t(1) by (simp add: s'_def)
    have ik: "i \<le> ahead ?n ?a ?k"
    proof (rule ccontr)
      assume "\<not> i \<le> ahead ?n ?a ?k"
      then have "\<not> ready (tasks ?s ! ((?a + ahead ?n ?a ?k) mod ?n))"
        using t(6) d0 e(1,2) by simp
      then show False
        using ahead_reaches [OF an] assms(5) e(6) [of k] by (simp add: task_at_def)
    qed
    have "ahead ?n (unat n) ?k = ahead ?n ?a ?k - i"
      using ahead_step [OF an ik] t(4) e(1,2) by simp
    moreover have "slice_left (task_at t n) = 5" using t(9) by simp
    moreover have closer: "5 + 6 * (D - i) < x + 6 * D" if "1 \<le> i" "i \<le> D" for x D i :: nat
      using that by linarith
    ultimately have "wait_bound t k < wait_bound s k"
      using d0 t(2,7,8) ik e(1) closer [OF t(2) ik] by (simp add: wait_bound_def Let_def)
    moreover have "ready (task_at t k)"
      using t(9) [rule_format, of k] t(5) assms(5) e(6) [of k] by (cases "k = n") auto
    ultimately show ?thesis using st t(8) e(1) by simp
  qed
  then show "task_count s' = task_count s" "ready (task_at s' k)" "wait_bound s' k < wait_bound s k"
    by blast+
qed

lemma ticks_reach:
  assumes "sched_inv s" and "2 \<le> task_count s" and "k < task_count s" "ready (task_at s k)"
    and "0 \<notin> set rs" and "wait_bound s k \<le> length rs"
  shows "\<exists>m \<le> length rs. current (ticks_from (take m rs) s) = k"
  using assms
proof (induction rs arbitrary: s)
  case Nil
  then have "wait_bound s k = 0" by simp
  then have "ahead (unat (task_count s)) (unat (current s)) (unat k) = 0"
    by (simp add: wait_bound_def Let_def split: if_splits)
  then have "unat (current s) = unat k"
    using ahead_reaches [of "unat (current s)" "unat (task_count s)" "unat k"] sched_inv_facts(3) [OF Nil.prems(1)] Nil.prems(3)
    by (simp add: word_less_nat_alt)
  then show ?case by (simp add: u32_eqI)
next
  case (Cons r rs)
  show ?case
  proof (cases "current s = k")
    case True
    then show ?thesis by (intro exI [of _ 0]) simp
  next
    case False
    have "r \<noteq> 0" using Cons.prems(5) by auto
    note p = tick_progress [OF Cons.prems(1,2) this Cons.prems(3,4) False]
    have "\<exists>m \<le> length rs. current (ticks_from (take m rs) (snd (sched_tick (sched_enter_irq r s)))) = k"
      by (rule Cons.IH) (use p Cons.prems in auto)
    then obtain m where "m \<le> length rs" "current (ticks_from (take m rs) (snd (sched_tick (sched_enter_irq r s)))) = k"
      by blast
    then show ?thesis by (intro exI [of _ "Suc m"]) simp
  qed
qed


subsection \<open>Building an initial frame\<close>

text \<open>Pushing dwords below an aligned address.\<close>

lemma push_all_run:
  assumes "a mod 4 = 0" and "4 * length vs \<le> a" "a < 4294967296"
  shows "fst (push_all vs (of_nat a) m) = of_nat (a - 4 * length vs)"
    and "\<forall>i<length vs. load32 (snd (push_all vs (of_nat a) m)) (of_nat (a - 4 * Suc i)) = vs ! i"
    and "\<forall>x<4294967296. x mod 4 = 0 \<longrightarrow> a \<le> x \<longrightarrow>
      load32 (snd (push_all vs (of_nat a) m)) (of_nat x) = load32 m (of_nat x)"
proof -
  have all: "fst (push_all vs (of_nat a) m) = of_nat (a - 4 * length vs) \<and>
    (\<forall>i<length vs. load32 (snd (push_all vs (of_nat a) m)) (of_nat (a - 4 * Suc i)) = vs ! i) \<and>
    (\<forall>x<4294967296. x mod 4 = 0 \<longrightarrow> a \<le> x \<longrightarrow>
      load32 (snd (push_all vs (of_nat a) m)) (of_nat x) = load32 m (of_nat x))"
    using assms
  proof (induction vs arbitrary: a m)
    case Nil
    then show ?case by simp
  next
    case (Cons v vs)
    let ?m = "store32 m (of_nat (a - 4)) v"
    have a: "4 \<le> a" "of_nat a - 4 = (of_nat (a - 4) :: u32)" using Cons.prems(2) by simp_all
    have b: "(a - 4) mod 4 = 0" "4 * length vs \<le> a - 4" "a - 4 < 4294967296"
    proof -
      obtain q where q: "a = 4 * q" using Cons.prems(1) by auto
      then have "a - 4 = 4 * (q - 1)" by simp
      then show "(a - 4) mod 4 = 0" by simp
    qed (use Cons.prems a in simp_all)
    note ih = Cons.IH [OF b, of ?m]
    note i1 = conjunct1 [OF ih] and i2 = conjunct1 [OF conjunct2 [OF ih]] and i3 = conjunct2 [OF conjunct2 [OF ih]]
    have st: "load32 ?m (of_nat x) = (if a - 4 = x then v else load32 m (of_nat x))"
      if "x < 4294967296" "x mod 4 = 0" for x
      by (rule load_store_nat [OF b(1) that(2) b(3) that(1)])
    have top: "load32 (snd (push_all vs (of_nat (a - 4)) ?m)) (of_nat (a - 4)) = v"
      using i3 [rule_format, OF b(3,1) order_refl] st [OF b(3,1)] by (simp only: simp_thms if_True)
    have new: "load32 (snd (push_all vs (of_nat (a - 4)) ?m)) (of_nat (a - 4 * Suc i)) = (v # vs) ! i"
      if "i < Suc (length vs)" for i
    proof (cases i)
      case 0
      then show ?thesis using top by simp
    next
      case (Suc j)
      have "a - 4 * Suc i = a - 4 - 4 * Suc j" "j < length vs" using Suc that by simp_all
      then show ?thesis using i2 [rule_format, of j] Suc by (simp only: nth_Cons_Suc)
    qed
    have old: "load32 (snd (push_all vs (of_nat (a - 4)) ?m)) (of_nat x) = load32 m (of_nat x)"
      if "x < 4294967296" "x mod 4 = 0" "a \<le> x" for x
    proof -
      have "a - 4 \<le> x" "a - 4 \<noteq> x" using that(3) a(1) by simp_all
      then show ?thesis using i3 [rule_format, OF that(1,2)] st [OF that(1,2)] by (simp only: if_False)
    qed
    have run: "push_all (v # vs) (of_nat a) m = push_all vs (of_nat (a - 4)) ?m"
      by (simp only: push_all.simps a(2))
    have len: "a - 4 - 4 * length vs = a - 4 * length (v # vs)" by simp
    show ?case
      unfolding run
    proof (intro conjI allI impI)
      show "fst (push_all vs (of_nat (a - 4)) ?m) = of_nat (a - 4 * length (v # vs))"
        by (rule i1 [unfolded len])
    next
      fix i assume "i < length (v # vs)"
      then show "load32 (snd (push_all vs (of_nat (a - 4)) ?m)) (of_nat (a - 4 * Suc i)) = (v # vs) ! i"
        by (intro new) (simp only: list.size)
    next
      fix x :: nat assume "x < 4294967296" "x mod 4 = 0" "a \<le> x"
      then show "load32 (snd (push_all vs (of_nat (a - 4)) ?m)) (of_nat x) = load32 m (of_nat x)"
        by (rule old)
    qed
  qed
  show "fst (push_all vs (of_nat a) m) = of_nat (a - 4 * length vs)"
    by (rule conjunct1 [OF all])
  show "\<forall>i<length vs. load32 (snd (push_all vs (of_nat a) m)) (of_nat (a - 4 * Suc i)) = vs ! i"
    by (rule conjunct1 [OF conjunct2 [OF all]])
  show "\<forall>x<4294967296. x mod 4 = 0 \<longrightarrow> a \<le> x \<longrightarrow>
      load32 (snd (push_all vs (of_nat a) m)) (of_nat x) = load32 m (of_nat x)"
    by (rule conjunct2 [OF conjunct2 [OF all]])
qed

text \<open>The heap as the scheduler sees it.\<close>

definition sheap :: "sched \<Rightarrow> kheap" where
  "sheap s = \<lparr>hram = ram (pg s), heap_head = hhead s\<rparr>"

lemma sheap_simps [simp]:
  "sheap (upd_task k f s) = sheap s" "sheap (init_slot k fl s) = sheap s"
  by (simp_all add: sheap_def init_slot_def)

text \<open>\<open>s_kmalloc\<close> on a well-formed heap: null and no change, or a word-aligned block of the arena.\<close>

lemma s_kmalloc_spec:
  assumes "heap_ok (sheap s) bs"
  obtains p s' where "s_kmalloc n s = Some (p, s')" "same_table s s'" "pg s' = (pg s)\<lparr>ram := ram (pg s')\<rparr>"
    "p = 0 \<Longrightarrow> s' = s" "p \<noteq> 0 \<longrightarrow> (\<exists>i bs'. heap_ok (sheap s') bs' \<and> p = of_nat (0x300000 + i + 12) \<and> (0x300000 + i) mod 4 = 0 \<and>
       0x300000 + i + 12 + round8 n \<le> 0x400000)"
proof -
  have v: "heap_valid (sheap s)" using assms by (auto simp: heap_valid_def)
  obtain p h where run: "kmalloc n (sheap s) = Some (p, h)" using kh.alloc_returns [OF v, of n] by fastforce
  let ?s' = "s\<lparr>pg := (pg s)\<lparr>ram := hram h\<rparr>, hhead := heap_head h\<rparr>"
  have s': "s_kmalloc n s = Some (p, ?s')"
    using run by (simp add: s_kmalloc_def sheap_def)
  have z: "?s' = s" if "p = 0"
  proof -
    have "h = sheap s" using kmalloc_spec(1) [OF assms run that] by blast
    then show ?thesis by (simp add: sheap_def)
  qed
  have "p \<noteq> 0 \<longrightarrow> (\<exists>i bs'. heap_ok (sheap ?s') bs' \<and> p = of_nat (0x300000 + i + 12) \<and> (0x300000 + i) mod 4 = 0 \<and>
       0x300000 + i + 12 + round8 n \<le> 0x400000)"
  proof
    assume "p \<noteq> 0"
    have h: "sheap ?s' = h" by (simp add: sheap_def)
    obtain i z bs' where k: "heap_ok h bs'" "p = of_nat (0x300000 + i + 12)" "round8 n \<le> z"
      "0x300000 + i + 12 + z \<le> 0x400000" "(0x300000 + i) mod 4 = 0"
      using kmalloc_spec(2) [OF assms run \<open>p \<noteq> 0\<close>] by (elim exE conjE) (rule that)
    have "0x300000 + i + 12 + round8 n \<le> 0x400000" using k(3,4) by linarith
    with k h show "\<exists>i bs'. heap_ok (sheap ?s') bs' \<and> p = of_nat (0x300000 + i + 12) \<and> (0x300000 + i) mod 4 = 0 \<and>
       0x300000 + i + 12 + round8 n \<le> 0x400000"
      by (intro exI [of _ i] exI [of _ bs'] conjI) (simp_all only:)
  qed
  with that [OF s' same_table_ops(1) [OF s'] _ z] show ?thesis by simp
qed

definition dwords :: "mem \<Rightarrow> u32 \<Rightarrow> nat \<Rightarrow> u32 list" where
  "dwords m a n = map (\<lambda>j. load32 m (a + of_nat (4 * j))) [0 ..< n]"

lemma push_all_dwords:
  assumes "a mod 4 = 0" and "4 * length vs \<le> a" "a < 4294967296"
  shows "dwords (snd (push_all vs (of_nat a) m)) (of_nat (a - 4 * length vs)) (length vs) = rev vs"
proof (rule nth_equalityI)
  fix j assume "j < length (dwords (snd (push_all vs (of_nat a) m)) (of_nat (a - 4 * length vs)) (length vs))"
  then have j: "j < length vs" by (simp add: dwords_def)
  let ?i = "length vs - Suc j"
  have "of_nat (a - 4 * length vs) + of_nat (4 * j) = (of_nat (a - 4 * length vs + 4 * j) :: u32)"
    by (simp only: of_nat_add)
  moreover have "a - 4 * length vs + 4 * j = a - 4 * Suc ?i" "?i < length vs" using j assms(2) by auto
  ultimately show "dwords (snd (push_all vs (of_nat a) m)) (of_nat (a - 4 * length vs)) (length vs) ! j = rev vs ! j"
    using j push_all_run(2) [OF assms, of m] by (simp add: dwords_def rev_nth)
qed (simp add: dwords_def)

lemma heap_addr_mod4: "(0x300000 + i) mod 4 = 0 \<Longrightarrow> (0x300000 + i + 12 + 4 * n) mod 4 = (0 :: nat)"
proof -
  assume "(0x300000 + i) mod 4 = 0"
  then obtain q where "0x300000 + i = 4 * q" by auto
  then have "0x300000 + i + 12 + 4 * n = 4 * (q + 3 + n)" by simp
  then show ?thesis by simp
qed

text \<open>A fresh interrupt stack comes from the heap or is refused; the rest of the slot stays.\<close>

lemma alloc_irq_stack_fresh:
  assumes "heap_ok (sheap s) bs" and "irq_stack_top (task_at s k) = 0" and "unat k < length (tasks s)"
  obtains ok s' base where "alloc_irq_stack k s = Some (ok, s')"
    "\<And>j. task_at s' j = (if j = k \<and> ok then (task_at s k)\<lparr>irq_stack_top := base\<rparr> else task_at s j)"
    "length (tasks s') = length (tasks s)" "task_count s' = task_count s"
proof -
  obtain p s1 where m: "s_kmalloc IRQ_STACK s = Some (p, s1)" "same_table s s1"
    by (rule s_kmalloc_spec [OF assms(1)])
  note t = same_table_simps [OF m(2)]
  have at: "task_at s1 j = task_at s j" for j by (simp add: task_at_def t)
  show ?thesis
  proof (cases "p = 0")
    case True
    show ?thesis by (rule that [of False s1]) (use True m(1) assms(2) in \<open>simp_all add: alloc_irq_stack_def at t\<close>)
  next
    case False
    let ?s2 = "upd_task k (irq_stack_top_update (\<lambda>_. p + IRQ_STACK)) s1"
    show ?thesis
      by (rule that [of True ?s2 "p + IRQ_STACK"])
        (use False m(1) assms(2,3) in \<open>simp_all add: alloc_irq_stack_def task_at_upd at t\<close>)
  qed
qed

text \<open>Making a kernel task on a well-formed heap always returns.  It fails without reviving any
  slot, or starts the task in a slot that was dead, on a frame that returns into \<open>fn\<close>.\<close>

lemma task_create_spec:
  assumes "sched_inv s" and "next_pid s < minus1" and "heap_ok (sheap s) bs"
  obtains p s' where "task_create name fn s = Some (p, s')"
    "p = 0 \<longrightarrow> (\<forall>j. ready (task_at s' j) \<longrightarrow> ready (task_at s j))"
    "p \<noteq> 0 \<longrightarrow> p = next_pid s \<and> (\<exists>k. unat k < 16 \<and> \<not> ready (task_at s k) \<and> ready (task_at s' k) \<and>
       pid (task_at s' k) = p \<and> flags (task_at s' k) = TASK_KERNEL \<and> slice_left (task_at s' k) = 5 \<and>
       tname (task_at s' k) = set_name name (replicate 16 0) \<and>
       (\<forall>j. j \<noteq> k \<longrightarrow> task_at s' j = task_at s j) \<and>
       dwords (ram (pg s')) (esp (task_at s' k)) 17 = replicate 14 0 @ [fn, 0x08, 0x202])"
proof -
  obtain k s1 where a: "alloc_slot s = (k, s1)" by (cases "alloc_slot s")
  show ?thesis
  proof (cases "MAX_TASKS \<le> k")
    case True
    then show ?thesis
      using alloc_slot_full(1) [OF assms(1) a True] a by (intro that [of 0 s]) (simp_all add: task_create_def)
  next
    case False
    note sl = alloc_slot_spec [OF assms(1) a False]
    have lt: "next_pid s1 < minus1" using sl(6) assms(2) by simp
    note i = init_slot_inv [OF sl(1,2,4) lt]
    have at0: "task_at s1 j = task_at s j" for j by (simp add: task_at_def sl(7))
    let ?s1 = "init_slot k TASK_KERNEL s1"
    have "heap_ok (sheap ?s1) bs" using assms(3) sl(9,10) by (simp add: sheap_def i)
    then obtain stk s2 where m: "s_kmalloc TASK_STACK ?s1 = Some (stk, s2)" "same_table ?s1 s2"
      "stk \<noteq> 0 \<longrightarrow> (\<exists>i bs'. heap_ok (sheap s2) bs' \<and> stk = of_nat (0x300000 + i + 12) \<and> (0x300000 + i) mod 4 = 0 \<and>
       0x300000 + i + 12 + round8 TASK_STACK \<le> 0x400000)"
      by (rule s_kmalloc_spec) (rule that)
    have at2: "task_at s2 j = task_at ?s1 j" "length (tasks s2) = 16" for j
      using i(9) by (simp_all add: task_at_def same_table_simps [OF m(2)])
    let ?s3 = "upd_task k (stack_bottom_update (\<lambda>_. stk)) s2"
    have at3: "task_at ?s3 j = (if j = k then (task_at ?s1 k)\<lparr>stack_bottom := stk\<rparr> else task_at s j)" for j
      using sl(3) at2 i(13) at0 by (simp add: task_at_upd)
    have l3: "unat k < length (tasks ?s3)" using sl(3) at2(2) by simp
    show ?thesis
    proof (cases "stk = 0")
      case True
      have "task_at (kill_slot k ?s3) j = (if j = k then (task_at ?s3 k)\<lparr>ready := False\<rparr> else task_at s j)" for j
        unfolding kill_slot_def using l3 at3 by (subst task_at_upd) simp_all
      then show ?thesis
        using True a False m(1) by (intro that [of 0 "kill_slot k ?s3"]) (auto simp: task_create_def)
    next
      case stk: False
      then obtain o' bs' where o': "heap_ok (sheap s2) bs'" "stk = of_nat (0x300000 + o' + 12)" "(0x300000 + o') mod 4 = 0"
       "0x300000 + o' + 12 + round8 TASK_STACK \<le> 0x400000"
        using mp [OF m(3) stk] by (elim exE conjE) (rule that)
      have "heap_ok (sheap ?s3) bs'" "irq_stack_top (task_at ?s3 k) = 0"
        using o'(1) i(8) at3 by simp_all
      then obtain ok s4 base where al: "alloc_irq_stack k ?s3 = Some (ok, s4)"
        "\<And>j. task_at s4 j = (if j = k \<and> ok then (task_at ?s3 k)\<lparr>irq_stack_top := base\<rparr> else task_at ?s3 j)"
        "length (tasks s4) = length (tasks ?s3)"
        by (rule alloc_irq_stack_fresh [OF _ _ l3]) (rule that)
      show ?thesis
      proof (cases ok)
        case False
        have "task_at (kill_slot k s4) j = (if j = k then (task_at s4 k)\<lparr>ready := False\<rparr> else task_at s j)" for j
          unfolding kill_slot_def using l3 al(2,3) at3 by (subst task_at_upd) simp_all
        then show ?thesis
          using False a \<open>\<not> MAX_TASKS \<le> k\<close> m(1) stk al(1)
          by (intro that [of 0 "kill_slot k s4"]) (auto simp: task_create_def Let_def)
      next
        case True
        let ?s5 = "set_ram (\<lambda>m. memset m stk 0xCC (unat TASK_STACK)) s4"
        let ?s6 = "name_slot k name ?s5"
        let ?a = "0x300000 + o' + 12 + 4 * 0x1000"
        let ?vs = "[0x202, 0x08, fn] @ replicate 14 (0 :: u32)"
        let ?r = "push_all ?vs (of_nat ?a) (ram (pg ?s6))"
        have l6: "unat k < length (tasks ?s6)" "length (tasks ?s6) = 16"
          using al(3) at2(2) sl(3) by (simp_all add: name_slot_def)
        have at5: "task_at ?s5 j = task_at s4 j" for j by simp
        have l5: "unat k < length (tasks ?s5)" using al(3) l3 by simp
        have at6: "task_at ?s6 j = (if j = k then (task_at s4 k)\<lparr>tname := set_name name (tname (task_at s4 k)), slice_left := 5\<rparr> else task_at s4 j)" for j
          unfolding name_slot_def task_at_upd [OF l5] at5 ..
        have sb: "stack_bottom (task_at ?s6 k) = stk" by (simp add: at6 al(2) at3 True)
        have top: "stk + TASK_STACK = of_nat ?a"
          by (simp add: o'(2) TASK_STACK_def)
        let ?s7 = "upd_task k (esp_update (\<lambda>_. fst ?r)) (set_ram (\<lambda>_. snd ?r) ?s6)"
        have s7: "task_setup_stack k fn ?s6 = ?s7"
          unfolding task_setup_stack_def sb top by (simp only: case_prod_unfold Let_def)
        have rr: "round8 TASK_STACK = 0x4000" by (simp add: round8_def TASK_STACK_def)
        have pa: "?a mod 4 = 0" "4 * length ?vs \<le> ?a" "?a < 4294967296"
          subgoal by (rule heap_addr_mod4 [OF o'(3)])
          using o'(4) unfolding rr by simp_all
        have at7: "task_at ?s7 j = (if j = k then (task_at ?s6 k)\<lparr>esp := fst ?r\<rparr> else task_at s j)" for j
          using l6(1) by (subst task_at_upd) (simp_all add: at6 al(2) at3)
        have t1: "tname (task_at ?s1 k) = replicate 16 0"
          using l3 at2(2) by (simp add: init_slot_def task_at_def upd_task_def sl(7) zero_task_def sched_inv_facts(1) [OF assms(1)])
        have dw: "dwords (ram (pg ?s7)) (fst ?r) 17 = replicate 14 0 @ [fn, 0x08, 0x202]"
          using push_all_dwords [OF pa, of "ram (pg ?s6)"] push_all_run(1) [OF pa, of "ram (pg ?s6)"]
          by (simp add: set_ram_def rev_replicate del: push_all.simps)
        have run: "task_create name fn s = Some (next_pid s, ?s7)"
          using a \<open>\<not> MAX_TASKS \<le> k\<close> m(1) stk al(1) True s7 at7 [of k]
          by (simp add: task_create_def Let_def at6 al(2) at3 i(5) sl(6))
        show ?thesis
        proof (rule that [OF run], goal_cases)
          case 1
          have "next_pid s \<noteq> 0" using assms(1) by (auto simp: sched_inv_def)
          then show ?case by blast
        next
          case 2
          have "\<not> ready (task_at s k)" using sl(4) at0 by simp
          moreover have e7: "esp (task_at ?s7 k) = fst ?r"
            unfolding at7 by simp
          moreover have "dwords (ram (pg ?s7)) (esp (task_at ?s7 k)) 17 = replicate 14 0 @ [fn, 0x08, 0x202]"
            unfolding e7 by (rule dw)
          moreover have "ready (task_at ?s7 k)" "pid (task_at ?s7 k) = next_pid s"
            "flags (task_at ?s7 k) = TASK_KERNEL" "slice_left (task_at ?s7 k) = 5"
            "tname (task_at ?s7 k) = set_name name (replicate 16 0)"
            unfolding at7 at6 al(2) at3 using True i(5-7) sl(6) t1 by simp_all
          moreover have "\<forall>j. j \<noteq> k \<longrightarrow> task_at ?s7 j = task_at s j"
            unfolding at7 by simp
          ultimately show ?case
            using sl(3) by (intro impI conjI refl exI [of _ k]) assumption+
        qed
      qed
    qed
  qed
qed


subsection \<open>Exit\<close>

text \<open>An address space that can be destroyed from where the CPU now stands: the hypotheses of
  \<open>destroy_spec\<close>.\<close>

definition releasable :: "pg_state \<Rightarrow> u32 \<Rightarrow> bool" where
  "releasable P c \<longleftrightarrow> kernel_ok P \<and> space_ok (ram P) (mm P) c \<and>
     c \<noteq> KERNEL_PD \<and> ptab (ram P) c \<noteq> KERNEL_PT \<and> ptab (ram P) c \<noteq> KERNEL_PD \<and> 0 < fno c \<and> 0 < fno (ptab (ram P) c) \<and>
     (\<forall>d<1024. 0 < d \<longrightarrow> load32 (ram P) (slot c d) AND PTE_P = 0) \<and>
     (\<forall>i j. user_page i \<longrightarrow> user_page j \<longrightarrow> uent (ram P) c i AND PTE_P \<noteq> 0 \<longrightarrow> uent (ram P) c j AND PTE_P \<noteq> 0 \<longrightarrow>
        fno (uent (ram P) c i) = fno (uent (ram P) c j) \<longrightarrow> i = j) \<and>
     (\<forall>f\<in>user_frames (ram P) c. 0 < f \<and> f < FRAME_COUNT)"

lemma release_spec:
  assumes "releasable P c"
  obtains M where "paging_destroy_addr_space c P = Some (P\<lparr>mm := M\<rparr>)" "mm_ok M"
    "free_set M = free_set (mm P) \<union> {fno c, fno (ptab (ram P) c)} \<union> own_frames (ram P) (mm P) c"
  using assms unfolding releasable_def by (elim conjE) (rule destroy_spec [of P c], assumption+)

lemma enter_space_task:
  assumes "unat n < length (tasks s)"
  shows "task_at (enter_space n s) j = (if j = n then (task_at s n)\<lparr>slice_left := 5\<rparr> else task_at s j)"
    and "pg (enter_space n s) = pg (switch_cr3 n s)"
proof -
  let ?s1 = "upd_task n (slice_left_update (\<lambda>_. 5)) s"
  have at: "task_at ?s1 j = (if j = n then (task_at s n)\<lparr>slice_left := 5\<rparr> else task_at s j)" for j
    using assms by (simp add: task_at_upd)
  then show "task_at (enter_space n s) j = (if j = n then (task_at s n)\<lparr>slice_left := 5\<rparr> else task_at s j)"
    by (simp add: enter_space_def Let_def)
  show "pg (enter_space n s) = pg (switch_cr3 n s)"
    by (simp add: enter_space_def Let_def switch_cr3_def at)
qed

lemma park_current_task:
  assumes "unat (current s) < length (tasks s)"
  shows "task_at (park_current s) j = (if j = current s
      then (task_at s j)\<lparr>ready := False, task_cr3 := if flags (task_at s j) = TASK_USER then 0 else task_cr3 (task_at s j)\<rparr>
      else task_at s j)"
    and "length (tasks (park_current s)) = length (tasks s)"
    and "zombie_cr3 (park_current s) = (if flags (task_at s (current s)) = TASK_USER \<and> task_cr3 (task_at s (current s)) \<noteq> 0
      then task_cr3 (task_at s (current s)) else zombie_cr3 s)"
proof -
  have z: "task_at (s\<lparr>zombie_cr3 := z\<rparr>) k = task_at s k" for z k
    by (simp add: task_at_def)
  show "task_at (park_current s) j = (if j = current s
      then (task_at s j)\<lparr>ready := False, task_cr3 := if flags (task_at s j) = TASK_USER then 0 else task_cr3 (task_at s j)\<rparr>
      else task_at s j)"
    using assms by (simp add: park_current_def Let_def task_at_upd z)
  show "length (tasks (park_current s)) = length (tasks s)"
    "zombie_cr3 (park_current s) = (if flags (task_at s (current s)) = TASK_USER \<and> task_cr3 (task_at s (current s)) \<noteq> 0
      then task_cr3 (task_at s (current s)) else zombie_cr3 s)"
    by (simp_all add: park_current_def Let_def)
qed

lemma pg_switch_park: "unat (current s) < length (tasks s) \<Longrightarrow> n \<noteq> current s \<Longrightarrow>
   pg (switch_cr3 n (park_current s)) = pg (switch_cr3 n s)"
  by (simp add: switch_cr3_def park_current_task)

text \<open>The exit of a user process when another task is ready.\<close>

lemma exit_spec:
  assumes "sched_inv s" and "flags (task_at s (current s)) = TASK_USER" "task_cr3 (task_at s (current s)) = c" "c \<noteq> 0"
    and "next_other (park_current s) = Some n" and "releasable (pg (switch_cr3 n s)) c"
  obtains M s' where "sched_exit_current s = Some (Resume (esp (task_at s n)), s')" "sched_inv s'"
    "current s' = n" "n \<noteq> current s" "ready (task_at s n)" "\<not> ready (task_at s' (current s))" "zombie_cr3 s' = 0"
    "pg s' = (pg (switch_cr3 n s))\<lparr>mm := M\<rparr>" "mm_ok M"
    "free_set M = free_set (mm (pg s)) \<union> {fno c, fno (ptab (ram (pg s)) c)} \<union> own_frames (ram (pg s)) (mm (pg s)) c"
proof -
  note f = sched_inv_facts [OF assms(1)]
  have cl: "unat (current s) < length (tasks s)" using f(1,4) by simp
  note pk = park_current_task [OF cl]
  note nx = next_other_range [OF assms(5)]
  have ne: "n \<noteq> current s" using nx(1) by simp
  have rn: "ready (task_at s n)" using nx(2) ne pk(1) by simp
  have lt: "n < task_count s"
    using nx(3) ring_slot(2) [of "task_count s" "current s"] f by auto
  then have nl: "unat n < length (tasks (park_current s))"
    using f(1,2) pk(2) by (simp add: word_less_nat_alt)
  obtain M where M: "paging_destroy_addr_space c (pg (switch_cr3 n s)) = Some ((pg (switch_cr3 n s))\<lparr>mm := M\<rparr>)" "mm_ok M"
    "free_set M = free_set (mm (pg (switch_cr3 n s))) \<union> {fno c, fno (ptab (ram (pg (switch_cr3 n s))) c)} \<union>
       own_frames (ram (pg (switch_cr3 n s))) (mm (pg (switch_cr3 n s))) c"
    by (rule release_spec [OF assms(6)])
  let ?s3 = "enter_space n (park_current s)"
  have p3: "pg ?s3 = pg (switch_cr3 n s)"
    using enter_space_task(2) [OF nl] pg_switch_park [OF cl ne] by simp
  have z3: "zombie_cr3 ?s3 = c" using pk(3) assms(2,3,4) by simp
  let ?s4 = "?s3\<lparr>pg := (pg (switch_cr3 n s))\<lparr>mm := M\<rparr>, zombie_cr3 := 0\<rparr>"
  have reap: "reap_zombies ?s3 = Some ?s4"
    unfolding reap_zombies_def z3 destroy_space_def p3 using assms(4) M(1) by simp
  let ?s' = "?s4\<lparr>current := n\<rparr>"
  have at: "task_at ?s' j = task_at ?s3 j" for j by (simp add: task_at_def)
  have "esp (task_at ?s' n) = esp (task_at s n)"
    unfolding at enter_space_task(1) [OF nl] pk(1) using ne by simp
  then have run: "sched_exit_current s = Some (Resume (esp (task_at s n)), ?s')"
    using assms(5) reap by (simp add: sched_exit_current_def)
  have dead: "\<not> ready (task_at ?s' (current s))"
    unfolding at enter_space_task(1) [OF nl] pk(1) using ne by simp
  have unch: "ram (pg (switch_cr3 n s)) = ram (pg s)" "mm (pg (switch_cr3 n s)) = mm (pg s)"
    by (simp_all add: switch_cr3_def paging_switch_def)
  show ?thesis
    by (rule that [of ?s' M]) (use run sched_exit_inv [OF run assms(1)] ne rn dead M(2,3) in \<open>simp_all add: unch\<close>)
qed

subsection \<open>Properties\<close>

text \<open>C13: whatever the order of creations, forks, interrupts, ticks, yields and exits since the
  boot thread was adopted, the task table stays well formed: at most 16 slots with terminated
  names, ready slots inside the table with distinct nonzero pids below the next one, and the
  running task is one of the ready ones.\<close>

theorem sched_table_invariant:
  assumes "sched_reach s"
  shows "unat (task_count s) \<le> 16 \<and> current s < task_count s \<and> ready (task_at s (current s)) \<and>
    table_ok (tasks s) (unat (task_count s)) (unat (next_pid s))"
  using sched_reach_inv [OF assms] sched_inv_facts(2) [of s] by (simp add: sched_inv_def)

definition fresh_sched :: "pg_state \<Rightarrow> sched" where
  "fresh_sched P = \<lparr>tasks = [], task_count = 0, current = 0, next_pid = 1, sched_ready = False, cur_frame = 0,
     zombie_cr3 = 0, tss_esp0 = 0, hhead = HEAP_START, pg = P\<rparr>"

definition boot_sched :: "pg_state \<Rightarrow> sched" where
  "boot_sched P = snd (sched_adopt_current [109, 97, 105, 110] (sched_init (fresh_sched P)))"

lemma boot_sched_reach: "sched_reach (boot_sched P)"
  unfolding boot_sched_def by (rule sched_reach.boot) (simp add: fresh_sched_def)

lemma boot_sched_fields:
  "pg (boot_sched P) = P" "hhead (boot_sched P) = HEAP_START" "next_pid (boot_sched P) = 2"
  "task_count (boot_sched P) = 1" "current (boot_sched P) = 0"
  by (simp_all add: boot_sched_def sched_adopt_current_def sched_init_def fresh_sched_def MAX_TASKS_def Let_def)

theorem sched_table_invariant_witness:
  "ready (task_at (snd (sched_tick (sched_enter_irq 0x9000 (boot_sched boot_pg)))) 0)"
proof -
  have "sched_reach (snd (sched_tick (sched_enter_irq 0x9000 (boot_sched boot_pg))))"
    by (intro sched_reach.step [OF _ sched_step.tick] sched_reach.step [OF _ sched_step.enter_irq] boot_sched_reach)
  note inv = sched_table_invariant [OF this]
  note e = enter_irq_facts [OF sched_reach_inv [OF boot_sched_reach [of boot_pg]], of "0x9000"]
  have "snd (sched_tick (sched_enter_irq 0x9000 (boot_sched boot_pg))) = sched_enter_irq 0x9000 (boot_sched boot_pg)"
    by (simp add: sched_tick_def e(1) boot_sched_fields)
  with inv show ?thesis
    by (simp add: e(2) boot_sched_fields)
qed

text \<open>C14: a timer tick at the end of a slice moves to the first ready slot after the running one
  (itself last), saves the interrupted frame as the old task's context, resumes the new task's
  saved frame with a full slice, on its own kernel stack and in its own address space (the
  kernel's, for a kernel thread entered from a user task), and changes no other slot.\<close>

theorem tick_round_robin:
  assumes "sched_inv s" and "tick_ready s" and "slice_left (task_at s (current s)) = 0"
  shows "\<exists>e n s'. sched_tick s = (Resume (if n = current s then cur_frame s else esp (task_at s n)), s') \<and>
    1 \<le> e \<and> e \<le> unat (task_count s) \<and> unat n = (unat (current s) + e) mod unat (task_count s) \<and> ready (task_at s n) \<and>
    (\<forall>j. 1 \<le> j \<longrightarrow> j < e \<longrightarrow> \<not> ready (tasks s ! ((unat (current s) + j) mod unat (task_count s)))) \<and>
    current s' = n \<and> slice_left (task_at s' n) = 5 \<and> esp (task_at s' (current s)) = cur_frame s \<and>
    (\<forall>j. j \<noteq> n \<longrightarrow> j \<noteq> current s \<longrightarrow> task_at s' j = task_at s j) \<and>
    cr3 (pg s') = (if flags (task_at s n) = TASK_USER then task_cr3 (task_at s n)
       else if flags (task_at s (current s)) = TASK_USER then KERNEL_PD else cr3 (pg s)) \<and>
    tss_esp0 s' = (if irq_stack_top (task_at s n) \<noteq> 0 then irq_stack_top (task_at s n) else tss_esp0 s)"
proof -
  obtain e n s' r where t: "sched_tick s = (Resume r, s')" "1 \<le> e" "e \<le> unat (task_count s)"
    "unat n = (unat (current s) + e) mod unat (task_count s)" "ready (task_at s n)"
    "\<forall>j. 1 \<le> j \<longrightarrow> j < e \<longrightarrow> \<not> ready (tasks s ! ((unat (current s) + j) mod unat (task_count s)))"
    "current s' = n"
    "\<forall>j. task_at s' j = (if j = n then (task_at s n)\<lparr>slice_left := 5, esp := if n = current s then cur_frame s else esp (task_at s n)\<rparr>
       else if j = current s then (task_at s j)\<lparr>slice_left := 5, esp := cur_frame s\<rparr> else task_at s j)"
    "r = (if n = current s then cur_frame s else esp (task_at s n))"
    "cr3 (pg s') = (if flags (task_at s n) = TASK_USER then task_cr3 (task_at s n)
       else if flags (task_at s (current s)) = TASK_USER then KERNEL_PD else cr3 (pg s))"
    "tss_esp0 s' = (if irq_stack_top (task_at s n) \<noteq> 0 then irq_stack_top (task_at s n) else tss_esp0 s)"
    by (rule tick_switches [OF assms])
  have "slice_left (task_at s' n) = 5" "esp (task_at s' (current s)) = cur_frame s"
    "\<forall>j. j \<noteq> n \<longrightarrow> j \<noteq> current s \<longrightarrow> task_at s' j = task_at s j"
    using t(8) by auto
  then show ?thesis
    using t(1-7,10,11) unfolding t(9) by (intro exI [of _ e] exI [of _ n] exI [of _ s'] conjI) assumption+
qed

definition pair_sched :: sched where
  "pair_sched = (fresh_sched boot_pg)\<lparr>tasks := [zero_task\<lparr>pid := 1, ready := True\<rparr>,
       zero_task\<lparr>pid := 2, ready := True, esp := 0x345000\<rparr>] @ replicate 14 zero_task,
     task_count := 2, next_pid := 3, sched_ready := True, cur_frame := 0x9F000\<rparr>"

lemma pair_sched_inv: "sched_inv pair_sched"
proof -
  have z: "name_ok (replicate 16 0)" by (simp add: name_ok_def)
  have at: "tasks pair_sched ! i = (if i = 0 then zero_task\<lparr>pid := 1, ready := True\<rparr>
      else if i = 1 then zero_task\<lparr>pid := 2, ready := True, esp := 0x345000\<rparr> else zero_task)" if "i < 16" for i
    using that by (auto simp: pair_sched_def nth_Cons nth_append split: nat.splits)
  have "table_ok (tasks pair_sched) 2 3"
    unfolding table_ok_def using z by (auto simp: at zero_task_def split: if_splits) (simp add: pair_sched_def)
  then show ?thesis
    by (simp add: sched_inv_def) (simp add: pair_sched_def task_at_def fresh_sched_def)
qed

theorem tick_round_robin_witness:
  "\<exists>s'. sched_tick pair_sched = (Resume 0x345000, s') \<and> current s' = 1"
proof -
  have r: "tick_ready pair_sched" by (simp add: tick_ready_def pair_sched_def)
  have z: "slice_left (task_at pair_sched (current pair_sched)) = 0"
    by (simp add: pair_sched_def task_at_def fresh_sched_def zero_task_def)
  obtain e n s' where t: "sched_tick pair_sched = (Resume (if n = current pair_sched then cur_frame pair_sched else esp (task_at pair_sched n)), s')"
    "1 \<le> e" "e \<le> unat (task_count pair_sched)" "unat n = (unat (current pair_sched) + e) mod unat (task_count pair_sched)"
    "\<forall>j. 1 \<le> j \<longrightarrow> j < e \<longrightarrow> \<not> ready (tasks pair_sched ! ((unat (current pair_sched) + j) mod unat (task_count pair_sched)))"
    "current s' = n"
    using tick_round_robin [OF pair_sched_inv r z] by blast
  have c: "unat (current pair_sched) = 0" "unat (task_count pair_sched) = 2" "current pair_sched = 0"
    by (simp_all add: pair_sched_def fresh_sched_def)
  have "ready (tasks pair_sched ! 1)" by (simp add: pair_sched_def)
  then have "\<not> 1 < e" using t(5) c by (metis One_nat_def add_0 le_refl mod_less one_less_numeral_iff semiring_norm(76))
  then have "unat n = 1" using t(2,4) c by simp
  then have "n = 1" by (intro u32_eqI) simp
  then show ?thesis
    using t(1,6) c by (simp add: task_at_def) (simp add: pair_sched_def)
qed

text \<open>C15: a ready task is never starved: under timer interrupts alone, slot \<open>k\<close> becomes the
  running one after at most the running task's remaining slice plus six ticks for every slot
  from there to \<open>k\<close>.\<close>

theorem ready_task_runs:
  assumes "sched_inv s" and "2 \<le> task_count s" and "k < task_count s" "ready (task_at s k)"
    and "0 \<notin> set frames" and "unat (slice_left (task_at s (current s))) + 6 * 15 \<le> length frames"
  shows "\<exists>m \<le> length frames. current (ticks_from (take m frames) s) = k"
proof -
  let ?d = "ahead (unat (task_count s)) (unat (current s)) (unat k)"
  have "?d < unat (task_count s)"
    using sched_inv_facts(3) [OF assms(1)] by (intro ahead_less) simp
  then have "?d \<le> 15" using sched_inv_facts(2) [OF assms(1)] by simp
  then have "wait_bound s k \<le> length frames"
    using assms(6) by (simp add: wait_bound_def Let_def)
  then show ?thesis by (rule ticks_reach [OF assms(1-5)])
qed

theorem ready_task_runs_witness:
  "\<exists>m \<le> 90. current (ticks_from (take m (replicate 90 0x9F000)) pair_sched) = 1"
proof -
  have "2 \<le> task_count pair_sched" "1 < task_count pair_sched" "ready (task_at pair_sched 1)"
    "unat (slice_left (task_at pair_sched (current pair_sched))) + 6 * 15 \<le> length (replicate 90 (0x9F000 :: u32))"
    "0 \<notin> set (replicate 90 (0x9F000 :: u32))"
    by (simp_all add: pair_sched_def task_at_def fresh_sched_def zero_task_def)
  from ready_task_runs [OF pair_sched_inv this(1-3,5,4)] show ?thesis by simp
qed


text \<open>C16: when a user process exits and another task is ready, the CPU first moves to that task's
  address space (the kernel's, for a kernel thread) and only then the dead one is torn down:
  its tables and the frames nobody else counts are free, no parked space is left, the process
  is not ready any more and the other task resumes from its saved frame.\<close>

theorem exit_releases_space:
  assumes "sched_inv s" and "flags (task_at s (current s)) = TASK_USER" "task_cr3 (task_at s (current s)) = c" "c \<noteq> 0"
    and "next_other (park_current s) = Some n" and "releasable (pg (switch_cr3 n s)) c"
  shows "\<exists>s'. sched_exit_current s = Some (Resume (esp (task_at s n)), s') \<and> sched_inv s' \<and>
    current s' = n \<and> n \<noteq> current s \<and> ready (task_at s n) \<and> \<not> ready (task_at s' (current s)) \<and> zombie_cr3 s' = 0 \<and>
    cr3 (pg s') = (if flags (task_at s n) = TASK_USER then task_cr3 (task_at s n) else KERNEL_PD) \<and>
    ram (pg s') = ram (pg s) \<and>
    free_set (mm (pg s')) = free_set (mm (pg s)) \<union> {fno c, fno (ptab (ram (pg s)) c)} \<union>
      {f \<in> user_frames (ram (pg s)) c. frame_refs (mm (pg s)) ! f \<le> 1}"
proof -
  obtain M s' where e: "sched_exit_current s = Some (Resume (esp (task_at s n)), s')" "sched_inv s'"
    "current s' = n" "n \<noteq> current s" "ready (task_at s n)" "\<not> ready (task_at s' (current s))" "zombie_cr3 s' = 0"
    "pg s' = (pg (switch_cr3 n s))\<lparr>mm := M\<rparr>"
    "free_set M = free_set (mm (pg s)) \<union> {fno c, fno (ptab (ram (pg s)) c)} \<union> own_frames (ram (pg s)) (mm (pg s)) c"
    by (rule exit_spec [OF assms])
  have "cr3 (pg s') = (if flags (task_at s n) = TASK_USER then task_cr3 (task_at s n) else KERNEL_PD)"
    "ram (pg s') = ram (pg s)" "mm (pg s') = M"
    unfolding e(8) by (simp_all add: switch_cr3_def paging_switch_def)
  moreover from this have "free_set (mm (pg s')) = free_set (mm (pg s)) \<union> {fno c, fno (ptab (ram (pg s)) c)} \<union>
      {f \<in> user_frames (ram (pg s)) c. frame_refs (mm (pg s)) ! f \<le> 1}"
    by (simp only: e(9) own_frames_def)
  ultimately show ?thesis
    using e(1-7) by (intro exI [of _ s'] conjI)
qed

text \<open>A kernel thread and a user process that is running in a space of its own.\<close>

definition user_sched :: "u32 \<Rightarrow> pg_state \<Rightarrow> sched" where
  "user_sched c P = (fresh_sched P)\<lparr>tasks := [zero_task\<lparr>pid := 1, ready := True, esp := 0x9F000\<rparr>,
       zero_task\<lparr>pid := 2, ready := True, flags := TASK_USER, task_cr3 := c\<rparr>] @ replicate 14 zero_task,
     task_count := 2, current := 1, next_pid := 3\<rparr>"

lemma user_sched_facts:
  "sched_inv (user_sched c P)" "task_at (user_sched c P) 0 = zero_task\<lparr>pid := 1, ready := True, esp := 0x9F000\<rparr>"
  "task_at (user_sched c P) 1 = zero_task\<lparr>pid := 2, ready := True, flags := TASK_USER, task_cr3 := c\<rparr>"
  "current (user_sched c P) = 1" "task_count (user_sched c P) = 2" "pg (user_sched c P) = P"
  "length (tasks (user_sched c P)) = 16"
proof -
  have z: "name_ok (replicate 16 0)" by (simp add: name_ok_def)
  have at: "tasks (user_sched c P) ! i = (if i = 0 then zero_task\<lparr>pid := 1, ready := True, esp := 0x9F000\<rparr>
      else if i = 1 then zero_task\<lparr>pid := 2, ready := True, flags := TASK_USER, task_cr3 := c\<rparr> else zero_task)" if "i < 16" for i
    using that by (auto simp: user_sched_def nth_Cons nth_append split: nat.splits)
  show f: "current (user_sched c P) = 1" "task_count (user_sched c P) = 2" "pg (user_sched c P) = P"
    "length (tasks (user_sched c P)) = 16"
    by (simp_all add: user_sched_def fresh_sched_def)
  show "task_at (user_sched c P) 0 = zero_task\<lparr>pid := 1, ready := True, esp := 0x9F000\<rparr>"
    "task_at (user_sched c P) 1 = zero_task\<lparr>pid := 2, ready := True, flags := TASK_USER, task_cr3 := c\<rparr>"
    by (simp_all add: task_at_def at)
  have "table_ok (tasks (user_sched c P)) 2 3"
    unfolding table_ok_def using z f(4) by (auto simp: at zero_task_def split: if_splits)
  then show "sched_inv (user_sched c P)"
    by (simp add: sched_inv_def f task_at_def at) (simp add: user_sched_def)
qed

lemma user_sched_next: "next_other (park_current (user_sched c P)) = Some 0"
proof -
  let ?s = "user_sched c P"
  have cl: "unat (current ?s) < length (tasks ?s)" by (simp add: user_sched_facts)
  have "ready (task_at (park_current ?s) 0)"
    by (simp add: park_current_task(1) [OF cl] user_sched_facts)
  moreover have "[1 ..< 2] = [1 :: nat]" by (simp add: upt_conv_Cons)
  ultimately show ?thesis
    by (simp add: next_other_def user_sched_facts upt_conv_Cons)
qed

lemma kernel_space_created:
  "\<exists>c P. paging_create_addr_space init_pg = Some (c, P) \<and> c \<noteq> 0 \<and> releasable P c \<and> cr3 P = KERNEL_PD"
proof -
  have "2 \<le> card (low_frames init_pg)" by (simp add: init_pg_low)
  then obtain c P where c: "paging_create_addr_space init_pg = Some (c, P)" "cr3 P = cr3 init_pg"
    by (rule create_addr_space_spec [OF init_pg(1)]) (rule that)
  note h = create_destroy_hyps [OF c(1)]
  have "releasable P c"
    unfolding releasable_def using h(1-8) by (auto simp: h(9)) (use h(9) in \<open>auto simp: user_frames_def\<close>)
  moreover have "c \<noteq> 0" using h(6) by (auto simp: fno_def)
  ultimately show ?thesis using c by (auto simp: init_pg)
qed

theorem exit_releases_space_witness:
  "\<exists>c P s'. sched_exit_current (user_sched c P) = Some (Resume 0x9F000, s') \<and> fno c \<in> free_set (mm (pg s')) \<and>
     cr3 (pg s') = KERNEL_PD"
proof -
  obtain c P where c: "c \<noteq> 0" "releasable P c" "cr3 P = KERNEL_PD"
    using kernel_space_created by blast
  let ?s = "user_sched c P"
  note u = user_sched_facts [of c P]
  have "pg (switch_cr3 0 ?s) = P"
    using c(3) by (simp add: switch_cr3_def u paging_switch_def zero_task_def TASK_USER_def)
  then have r: "releasable (pg (switch_cr3 0 ?s)) c" using c(2) by simp
  have f: "flags (task_at ?s (current ?s)) = TASK_USER" "task_cr3 (task_at ?s (current ?s)) = c"
    by (simp_all add: u)
  from exit_releases_space [OF u(1) f c(1) user_sched_next r] show ?thesis
    by (auto simp: u zero_task_def TASK_USER_def intro!: exI [of _ c] exI [of _ P])
qed


definition heap_pg :: pg_state where
  "heap_pg = init_pg\<lparr>ram := hram empty_heap\<rparr>"


end
