(* ===== verification/Fat.thy ===== *)
theory Fat
  imports NovaPrelude
begin

section \<open>The FAT12 volume (kernel/fat.c)\<close>

text \<open>
  The file system over the sectors of the data disk.  What it needs of the drive is an array
  of 512-byte sectors, some of which may fail to read or write: \<open>drive\<close>.  The static
  variables of fat.c are the record \<open>fat\<close>; each operation returns the C result and the state.
  Lists stand for the byte arrays, and a name argument is its characters up to the NUL.
\<close>

record drive =
  present :: bool
  sectors :: "u32 \<Rightarrow> u8 list"
  rd_ok :: "u32 \<Rightarrow> bool"
  wr_ok :: "u32 \<Rightarrow> bool"

record fat =
  mounted :: bool
  root_lba :: u32
  data_lba :: u32
  root_sectors :: u32
  fat_lba :: u32
  fat_sectors :: u32
  spc :: u32
  secbuf :: "u8 list"
  drv :: drive

text \<open>\<open>ata_read_sector(lba, secbuf)\<close> and \<open>ata_write_sector(lba, secbuf)\<close>.\<close>

definition read_sec :: "u32 \<Rightarrow> fat \<Rightarrow> bool \<times> fat" where
  "read_sec lba s =
     (if present (drv s) \<and> rd_ok (drv s) lba then (True, s\<lparr>secbuf := sectors (drv s) lba\<rparr>) else (False, s))"

definition write_sec :: "u32 \<Rightarrow> fat \<Rightarrow> bool \<times> fat" where
  "write_sec lba s =
     (if present (drv s) \<and> wr_ok (drv s) lba
      then (True, s\<lparr>drv := (drv s)\<lparr>sectors := (sectors (drv s))(lba := secbuf s)\<rparr>\<rparr>) else (False, s))"

definition put :: "nat \<Rightarrow> u8 \<Rightarrow> fat \<Rightarrow> fat" where
  "put i v s = s\<lparr>secbuf := (secbuf s)[i := v]\<rparr>"

abbreviation b2w :: "u8 \<Rightarrow> u16" where "b2w \<equiv> ucast"
abbreviation w2b :: "u16 \<Rightarrow> u8" where "w2b \<equiv> ucast"

subsection \<open>Entries of the allocation table\<close>

definition fat_next_cluster :: "u32 \<Rightarrow> fat \<Rightarrow> u16 \<times> fat" where
  "fat_next_cluster cluster s =
     (let offset = cluster + cluster div 2;
          lba = fat_lba s + offset div 512;
          off = unat (offset mod 512);
          (ok, s) = read_sec lba s
      in if \<not> ok then (0x0FFF, s)
         else let fin = (\<lambda>lo hi. let v = b2w lo OR push_bit 8 (b2w hi)
                               in if cluster AND 1 \<noteq> 0 then drop_bit 4 v else v AND 0x0FFF)
              in if off = 511
                 then let lo = secbuf s ! 511; (ok, s) = read_sec (lba + 1) s
                      in if \<not> ok then (0x0FFF, s) else (fin lo (secbuf s ! 0), s)
                 else (fin (secbuf s ! off) (secbuf s ! (off + 1)), s))"

definition fat_get :: "u32 \<Rightarrow> fat \<Rightarrow> u32 \<times> fat" where
  "fat_get cluster s = (let (v, s) = fat_next_cluster cluster s in (ucast v, s))"

text \<open>The two bytes of an entry with the new value merged in.\<close>

definition merge_lo :: "u32 \<Rightarrow> u16 \<Rightarrow> u8 \<Rightarrow> u8" where
  "merge_lo cluster v old =
     (if cluster AND 1 \<noteq> 0 then w2b ((b2w old AND 0x0F) OR (push_bit 4 v AND 0xF0)) else w2b (v AND 0xFF))"

definition merge_hi :: "u32 \<Rightarrow> u16 \<Rightarrow> u8 \<Rightarrow> u8" where
  "merge_hi cluster v old =
     (if cluster AND 1 \<noteq> 0 then w2b (drop_bit 4 v AND 0xFF) else w2b ((b2w old AND 0xF0) OR (drop_bit 8 v AND 0x0F)))"

definition fat_set_copy :: "u32 \<Rightarrow> u16 \<Rightarrow> nat \<Rightarrow> fat \<Rightarrow> bool \<times> fat" where
  "fat_set_copy cluster v f s =
     (let offset = cluster + cluster div 2;
          sec = offset div 512;
          off = unat (offset mod 512);
          lba = fat_lba s + of_nat f * fat_sectors s + sec;
          (ok, s) = read_sec lba s
      in if \<not> ok then (False, s)
         else if off = 511
              then let s = put 511 (merge_lo cluster v (secbuf s ! 511)) s;
                       (ok, s) = write_sec lba s
                   in if \<not> ok then (False, s)
                      else let (ok, s) = read_sec (lba + 1) s
                           in if \<not> ok then (False, s)
                              else write_sec (lba + 1) (put 0 (merge_hi cluster v (secbuf s ! 0)) s)
              else let s = put off (merge_lo cluster v (secbuf s ! off)) s;
                       s = put (off + 1) (merge_hi cluster v (secbuf s ! (off + 1))) s
                   in write_sec lba s)"

definition fat_set :: "u32 \<Rightarrow> u16 \<Rightarrow> fat \<Rightarrow> bool \<times> fat" where
  "fat_set cluster v s =
     (let (ok, s) = fat_set_copy cluster v 0 s
      in if \<not> ok then (False, s) else fat_set_copy cluster v 1 s)"

subsection \<open>Allocating and releasing clusters\<close>

definition data_clusters_max :: "fat \<Rightarrow> u32" where
  "data_clusters_max s = (2880 - data_lba s) div (if spc s \<noteq> 0 then spc s else 1)"

text \<open>Zeroing the sectors of a fresh cluster.\<close>

fun zero_sectors :: "u32 list \<Rightarrow> fat \<Rightarrow> bool \<times> fat" where
  "zero_sectors [] s = (True, s)"
| "zero_sectors (lba # ls) s =
     (let s = s\<lparr>secbuf := map (\<lambda>_. 0) (secbuf s)\<rparr>;
          (ok, s) = write_sec lba s
      in if \<not> ok then (False, s) else zero_sectors ls s)"

definition cluster_sectors :: "u32 \<Rightarrow> fat \<Rightarrow> u32 list" where
  "cluster_sectors c s = map (\<lambda>i. data_lba s + (c - 2) * spc s + of_nat i) [0 ..< unat (spc s)]"

fun alloc_from :: "u32 list \<Rightarrow> fat \<Rightarrow> u32 \<times> fat" where
  "alloc_from [] s = (0, s)"
| "alloc_from (c # cs) s =
     (let (v, s) = fat_get c s
      in if v = 0
         then let (ok, s) = fat_set c 0x0FFF s
              in if \<not> ok then (0, s)
                 else let (ok, s) = zero_sectors (cluster_sectors c s) s
                      in if \<not> ok then (0, s) else (c, s)
         else alloc_from cs s)"

definition all_clusters :: "fat \<Rightarrow> u32 list" where
  "all_clusters s = map of_nat [2 ..< unat (data_clusters_max s + 2)]"

definition fat_alloc_cluster :: "fat \<Rightarrow> u32 \<times> fat" where
  "fat_alloc_cluster s = alloc_from (all_clusters s) s"

text \<open>The guarded walk: at most 65536 clusters are released.\<close>

fun free_chain :: "nat \<Rightarrow> u32 \<Rightarrow> fat \<Rightarrow> fat" where
  "free_chain 0 cluster s = s"
| "free_chain (Suc guard) cluster s =
     (if 2 \<le> cluster \<and> cluster < 0xFF0
      then let (nxt, s) = fat_get cluster s;
               (ok, s) = fat_set cluster 0 s
           in free_chain guard nxt s
      else s)"

definition fat_free_chain :: "u32 \<Rightarrow> fat \<Rightarrow> fat" where
  "fat_free_chain cluster s = free_chain 65536 cluster s"

fun count_free :: "u32 list \<Rightarrow> u32 \<Rightarrow> fat \<Rightarrow> u32 \<times> fat" where
  "count_free [] n s = (n, s)"
| "count_free (c # cs) n s =
     (let (v, s) = fat_get c s in count_free cs (if v = 0 then n + 1 else n) s)"

definition fat_free_bytes :: "fat \<Rightarrow> u32 \<times> fat" where
  "fat_free_bytes s =
     (if \<not> mounted s then (0, s)
      else let (n, s) = count_free (all_clusters s) 0 s in (n * spc s * 512, s))"

subsection \<open>Names\<close>

definition upcase :: "u8 \<Rightarrow> u8" where
  "upcase c = (if 0x61 \<le> c \<and> c \<le> 0x7A then c - 32 else c)"

definition pad :: "nat \<Rightarrow> u8 list \<Rightarrow> u8 list" where
  "pad n xs = xs @ replicate (n - length xs) 0x20"

text \<open>The loop over the base name: what was copied, and the input it stopped at.\<close>

fun copy_base :: "nat \<Rightarrow> u8 list \<Rightarrow> u8 list \<times> u8 list" where
  "copy_base 0 cs = ([], cs)"
| "copy_base (Suc k) [] = ([], [])"
| "copy_base (Suc k) (c # cs) =
     (if c = 0x2E then ([], c # cs)
      else let (b, r) = copy_base k cs in (upcase c # b, r))"

definition norm_name :: "u8 list \<Rightarrow> u8 list" where
  "norm_name nm =
     (let (base, rest) = copy_base 8 nm;
          ext = (case rest of [] \<Rightarrow> [] | c # cs \<Rightarrow> if c = 0x2E then map upcase (take 3 cs) else [])
      in pad 8 base @ pad 3 ext)"

definition dir_match :: "u8 list \<Rightarrow> nat \<Rightarrow> u8 list \<Rightarrow> bool" where
  "dir_match dir off norm \<longleftrightarrow> list_all (\<lambda>i. dir ! (off + i) = norm ! i) [0 ..< 11]"

subsection \<open>Mounting\<close>

definition le16 :: "u8 list \<Rightarrow> nat \<Rightarrow> u32" where
  "le16 b i = b2d (b ! i) OR push_bit 8 (b2d (b ! (i + 1)))"

definition le32 :: "u8 list \<Rightarrow> nat \<Rightarrow> u32" where
  "le32 b i = b2d (b ! i) OR push_bit 8 (b2d (b ! (i + 1))) OR push_bit 16 (b2d (b ! (i + 2)))
     OR push_bit 24 (b2d (b ! (i + 3)))"

text \<open>The fields of the packed \<open>struct fat_bpb\<close> by their offsets; \<open>ata_init\<close> is the probe.\<close>

definition fat_mount :: "fat \<Rightarrow> bool \<times> fat" where
  "fat_mount s =
     (let s = s\<lparr>mounted := False\<rparr>
      in if \<not> present (drv s) then (False, s)
         else let (ok, s) = read_sec 0 s
              in if \<not> ok then (False, s)
                 else let b = secbuf s
                      in if le16 b 11 \<noteq> 512 then (False, s)
                         else let s = s\<lparr>fat_lba := le16 b 14, fat_sectors := le16 b 22\<rparr>;
                                  s = s\<lparr>root_lba := fat_lba s + b2d (b ! 16) * fat_sectors s,
                                        root_sectors := (le16 b 17 * 32 + 511) div 512\<rparr>;
                                  s = s\<lparr>data_lba := root_lba s + root_sectors s,
                                        spc := if b ! 13 \<noteq> 0 then b2d (b ! 13) else 1,
                                        mounted := True\<rparr>
                              in (True, s))"

definition fat_mounted :: "fat \<Rightarrow> bool" where
  "fat_mounted s = mounted s"

subsection \<open>Scanning the root directory\<close>

definition root_list :: "fat \<Rightarrow> u32 list" where
  "root_list s = map (\<lambda>i. root_lba s + of_nat i) [0 ..< unat (root_sectors s)]"

definition entry_offs :: "nat list" where
  "entry_offs = map (\<lambda>i. i * 32) [0 ..< 16]"

datatype scan = Found nat | End_of_dir | More

fun scan_sector :: "u8 list \<Rightarrow> u8 list \<Rightarrow> nat list \<Rightarrow> scan" where
  "scan_sector norm b [] = More"
| "scan_sector norm b (off # offs) =
     (if b ! off = 0x00 then End_of_dir
      else if b ! off = 0xE5 \<or> b ! (off + 11) = 0x0F then scan_sector norm b offs
      else if dir_match b off norm then Found off
      else scan_sector norm b offs)"

text \<open>The lookup loop of \<open>fat_read\<close> and \<open>fat_stat\<close>; on a hit the sector stays in \<open>secbuf\<close>.\<close>

fun dir_lookup :: "u8 list \<Rightarrow> u32 list \<Rightarrow> fat \<Rightarrow> nat option \<times> fat" where
  "dir_lookup norm [] s = (None, s)"
| "dir_lookup norm (lba # ls) s =
     (let (ok, s) = read_sec lba s
      in if \<not> ok then (None, s)
         else case scan_sector norm (secbuf s) entry_offs of
                Found off \<Rightarrow> (Some off, s)
              | End_of_dir \<Rightarrow> (None, s)
              | More \<Rightarrow> dir_lookup norm ls s)"

text \<open>\<open>fat_stat\<close>: size, first cluster and attribute byte.\<close>

definition fat_stat :: "u8 list \<Rightarrow> fat \<Rightarrow> (u32 \<times> u32 \<times> u8) option \<times> fat" where
  "fat_stat nm s =
     (if \<not> mounted s then (None, s)
      else let (r, s) = dir_lookup (norm_name nm) (root_list s) s
           in case r of
                None \<Rightarrow> (None, s)
              | Some off \<Rightarrow> (Some (le32 (secbuf s) (off + 28), le16 (secbuf s) (off + 26), secbuf s ! (off + 11)), s))"

text \<open>One listed file: the stripped name (at most 15 characters kept) and the size.\<close>

definition strip_name :: "u8 list \<Rightarrow> u8 list" where
  "strip_name e =
     (let base = takeWhile (\<lambda>c. c \<noteq> 0x20) (take 8 e);
          ext = take 3 (drop 8 e)
      in if e ! 8 \<noteq> 0x20 then base @ 0x2E # takeWhile (\<lambda>c. c \<noteq> 0x20) ext else base)"

text \<open>\<open>list_sector\<close>: the entries taken from one sector, and whether the end mark was met.\<close>

fun list_sector :: "u8 list \<Rightarrow> nat \<Rightarrow> nat list \<Rightarrow> (u8 list \<times> u32) list \<Rightarrow> (u8 list \<times> u32) list \<times> bool" where
  "list_sector b mx [] acc = (acc, False)"
| "list_sector b mx (off # offs) acc =
     (if mx \<le> length acc then (acc, False)
      else if b ! off = 0x00 then (acc, True)
      else if b ! off = 0xE5 \<or> b ! (off + 11) = 0x0F \<or> b ! (off + 11) AND 0x08 \<noteq> 0 then list_sector b mx offs acc
      else list_sector b mx offs
        (acc @ [(takeWhile (\<lambda>c. c \<noteq> 0) (strip_name (take 11 (drop off b))), le32 b (off + 28))]))"

fun list_root :: "nat \<Rightarrow> u32 list \<Rightarrow> (u8 list \<times> u32) list \<Rightarrow> fat \<Rightarrow> (u8 list \<times> u32) list \<times> fat" where
  "list_root mx [] acc s = (acc, s)"
| "list_root mx (lba # ls) acc s =
     (if mx \<le> length acc then (acc, s)
      else let (ok, s) = read_sec lba s
           in if \<not> ok then (acc, s)
              else let (acc, stop) = list_sector (secbuf s) mx entry_offs acc
                   in if stop then (acc, s) else list_root mx ls acc s)"

definition fat_list :: "u32 \<Rightarrow> fat \<Rightarrow> (u8 list \<times> u32) list option \<times> fat" where
  "fat_list mx s =
     (if \<not> mounted s then (None, s)
      else let (acc, s) = list_root (unat mx) (root_list s) [] s in (Some acc, s))"

subsection \<open>Reading a file\<close>

text \<open>The sectors of one cluster: what is still missing of \<open>fsize\<close> and of the caller's buffer.\<close>

primrec read_sectors :: "u32 list \<Rightarrow> nat \<Rightarrow> nat \<Rightarrow> u8 list \<Rightarrow> fat \<Rightarrow> u8 list option" where
  "read_sectors [] fsize mx out s = Some out"
| "read_sectors (lba # ls) fsize mx out s =
     (if length out < fsize \<and> length out < mx
      then if present (drv s) \<and> rd_ok (drv s) lba
           then let n = min (min (fsize - length out) 512) (mx - length out)
                in read_sectors ls fsize mx (out @ take n (sectors (drv s) lba)) s
           else None
      else Some out)"

fun read_chain :: "nat \<Rightarrow> u32 \<Rightarrow> nat \<Rightarrow> nat \<Rightarrow> u8 list \<Rightarrow> fat \<Rightarrow> u8 list option \<times> fat" where
  "read_chain 0 cluster fsize mx out s = (Some out, s)"
| "read_chain (Suc guard) cluster fsize mx out s =
     (if 2 \<le> cluster \<and> cluster < 0xFF0 \<and> length out < fsize \<and> length out < mx
      then case read_sectors (cluster_sectors cluster s) fsize mx out s of
             None \<Rightarrow> (None, s)
           | Some out \<Rightarrow> let (nxt, s) = fat_next_cluster cluster s
                         in read_chain guard (ucast nxt) fsize mx out s
      else (Some out, s))"

text \<open>\<open>fat_read\<close>: the bytes written to the caller's buffer; the C \<open>*size\<close> is their number.\<close>

definition fat_read :: "u8 list \<Rightarrow> u32 \<Rightarrow> fat \<Rightarrow> u8 list option \<times> fat" where
  "fat_read nm mx s =
     (if \<not> mounted s then (None, s)
      else let (r, s) = dir_lookup (norm_name nm) (root_list s) s
           in case r of
                None \<Rightarrow> (None, s)
              | Some off \<Rightarrow> read_chain 65536 (le16 (secbuf s) (off + 26)) (unat (le32 (secbuf s) (off + 28))) (unat mx) [] s)"

subsection \<open>Writing and deleting\<close>

text \<open>\<open>dir_find_slot\<close>: the first free slot seen so far rides along; the Boolean is \<open>existed\<close>.\<close>

fun slot_in_sector :: "u8 list \<Rightarrow> u32 \<Rightarrow> u8 list \<Rightarrow> nat list \<Rightarrow> (u32 \<times> nat) option \<Rightarrow> ((u32 \<times> nat) \<times> bool) option option \<times> (u32 \<times> nat) option" where
  "slot_in_sector norm lba b [] fr = (None, fr)"
| "slot_in_sector norm lba b (off # offs) fr =
     (if b ! off = 0xE5 \<or> b ! off = 0x00
      then let fr = (case fr of None \<Rightarrow> Some (lba, off) | Some _ \<Rightarrow> fr)
           in if b ! off = 0x00 then (Some (map_option (\<lambda>p. (p, False)) fr), fr)
              else slot_in_sector norm lba b offs fr
      else if b ! (off + 11) = 0x0F then slot_in_sector norm lba b offs fr
      else if dir_match b off norm then (Some (Some ((lba, off), True)), fr)
      else slot_in_sector norm lba b offs fr)"

fun slot_in_root :: "u8 list \<Rightarrow> u32 list \<Rightarrow> (u32 \<times> nat) option \<Rightarrow> fat \<Rightarrow> ((u32 \<times> nat) \<times> bool) option \<times> fat" where
  "slot_in_root norm [] fr s = (map_option (\<lambda>p. (p, False)) fr, s)"
| "slot_in_root norm (lba # ls) fr s =
     (let (ok, s) = read_sec lba s
      in if \<not> ok then (None, s)
         else case slot_in_sector norm lba (secbuf s) entry_offs fr of
                (Some r, fr) \<Rightarrow> (r, s)
              | (None, fr) \<Rightarrow> slot_in_root norm ls fr s)"

definition dir_find_slot :: "u8 list \<Rightarrow> fat \<Rightarrow> ((u32 \<times> nat) \<times> bool) option \<times> fat" where
  "dir_find_slot norm s = slot_in_root norm (root_list s) None s"

definition fat_delete :: "u8 list \<Rightarrow> fat \<Rightarrow> bool \<times> fat" where
  "fat_delete nm s =
     (if \<not> mounted s then (False, s)
      else let (r, s) = dir_find_slot (norm_name nm) s
           in case r of
                Some ((lba, off), True) \<Rightarrow>
                  let (ok, s) = read_sec lba s
                  in if \<not> ok then (False, s)
                     else let cluster = le16 (secbuf s) (off + 26);
                              (ok, s) = write_sec lba (put off 0xE5 s)
                          in if \<not> ok then (False, s) else (True, fat_free_chain cluster s)
              | _ \<Rightarrow> (False, s))"

text \<open>The allocation loop of \<open>fat_write\<close>: (first, prev), or failure after unwinding.\<close>

fun alloc_chain :: "nat \<Rightarrow> u32 \<Rightarrow> u32 \<Rightarrow> fat \<Rightarrow> u32 option \<times> fat" where
  "alloc_chain 0 first prev s = (Some first, s)"
| "alloc_chain (Suc n) first prev s =
     (let (c, s) = fat_alloc_cluster s
      in if c = 0 then (None, if first \<noteq> 0 then fat_free_chain first s else s)
         else let first = (if first = 0 then c else first);
                  s = (if prev \<noteq> 0 then snd (fat_set prev (ucast c) s) else s)
              in alloc_chain n first c s)"

text \<open>One sector of payload, zero-filled past the end of the data.\<close>

fun write_sectors :: "u32 list \<Rightarrow> u8 list \<Rightarrow> fat \<Rightarrow> u8 list option \<times> fat" where
  "write_sectors [] dat s = (Some dat, s)"
| "write_sectors (lba # ls) dat s =
     (if dat = [] then (Some dat, s)
      else let s = s\<lparr>secbuf := take 512 dat @ replicate (512 - length dat) 0\<rparr>;
               (ok, s) = write_sec lba s
           in if \<not> ok then (None, s) else write_sectors ls (drop 512 dat) s)"

text \<open>The payload loop; each round writes a sector at least, so \<open>length dat\<close> rounds are enough.\<close>

fun write_chain :: "nat \<Rightarrow> u32 \<Rightarrow> u32 \<Rightarrow> u8 list \<Rightarrow> fat \<Rightarrow> bool \<times> fat" where
  "write_chain 0 first c dat s = (True, s)"
| "write_chain (Suc k) first c dat s =
     (if 2 \<le> c \<and> dat \<noteq> []
      then case write_sectors (cluster_sectors c s) dat s of
             (None, s) \<Rightarrow> (False, fat_free_chain first s)
           | (Some dat, s) \<Rightarrow>
               let (c, s) = (if dat \<noteq> [] then fat_get c s else (c, s))
               in write_chain k first c dat s
      else (True, s))"

text \<open>The 32 bytes of a directory entry.\<close>

definition dir_entry :: "u8 list \<Rightarrow> u32 \<Rightarrow> u32 \<Rightarrow> u8 list" where
  "dir_entry norm first len =
     norm @ [0x20, 0, 0] @ replicate 12 0 @
     [d2b first, d2b (drop_bit 8 first), d2b len, d2b (drop_bit 8 len), d2b (drop_bit 16 len), d2b (drop_bit 24 len)]"

definition splice :: "nat \<Rightarrow> u8 list \<Rightarrow> u8 list \<Rightarrow> u8 list" where
  "splice off new b = take off b @ new @ drop (off + length new) b"

definition fat_write :: "u8 list \<Rightarrow> u8 list \<Rightarrow> fat \<Rightarrow> bool \<times> fat" where
  "fat_write nm dat s =
     (if \<not> mounted s then (False, s)
      else let norm = norm_name nm; len = of_nat (length dat); (r, s) = dir_find_slot norm s
           in case r of
                None \<Rightarrow> (False, s)
              | Some ((lba, off), existed) \<Rightarrow>
                  let (ok, s) = (if existed then read_sec lba s else (True, s))
                  in if \<not> ok then (False, s)
                     else let s = (if existed then fat_free_chain (le16 (secbuf s) (off + 26)) s else s);
                              per = spc s * 512;
                              (first, s) = alloc_chain (unat ((len + per - 1) div per)) 0 0 s
                          in case first of
                               None \<Rightarrow> (False, s)
                             | Some first \<Rightarrow>
                                 let (ok, s) = write_chain (length dat) first first dat s
                                 in if \<not> ok then (False, s)
                                    else let (ok, s) = read_sec lba s
                                         in if \<not> ok then (False, s)
                                            else write_sec lba (s\<lparr>secbuf := splice off (dir_entry norm first len) (secbuf s)\<rparr>))"

subsection \<open>The table as an array of 12-bit entries\<close>

text \<open>
  \<open>ent g c\<close> is the entry of cluster \<open>c\<close> in a table whose bytes are \<open>g\<close>; \<open>ent_upd\<close> says that
  the two merged bytes change that entry and no other, although neighbours share a byte.
\<close>

definition ent :: "(nat \<Rightarrow> u8) \<Rightarrow> nat \<Rightarrow> u16" where
  "ent g c = (let o1 = c + c div 2; v = b2w (g o1) OR push_bit 8 (b2w (g (o1 + 1)))
              in if odd c then drop_bit 4 v else v AND 0x0FFF)"

definition ent_bytes :: "nat \<Rightarrow> u16 \<Rightarrow> (nat \<Rightarrow> u8) \<Rightarrow> (nat \<Rightarrow> u8)" where
  "ent_bytes c v g = (let o1 = c + c div 2
     in g(o1 := merge_lo (of_nat c) v (g o1), o1 + 1 := merge_hi (of_nat c) v (g (o1 + 1))))"

lemma odd_word: "(of_nat c :: u32) AND 1 \<noteq> 0 \<longleftrightarrow> odd c"
proof -
  have "(of_nat c :: u32) AND 1 = of_nat c mod 2" by (rule and_one_eq)
  moreover have "unat ((of_nat c :: u32) mod 2) = c mod 2"
    by (simp add: unat_mod unat_of_nat mod_mod_cancel)
  ultimately show ?thesis by (metis odd_iff_mod_2_eq_one unat_0 unat_eq_zero even_iff_mod_2_eq_zero)
qed

lemma mask_bits:
  "bit (0x0FFF :: int) n = (n < 12)" "bit (0xFF :: int) n = (n < 8)"
  "bit (0xF0 :: int) n = (4 \<le> n \<and> n < 8)" "bit (0x0F :: int) n = (n < 4)"
proof -
  have m: "(0x0FFF :: int) = mask 12" "(0xFF :: int) = mask 8" "(0x0F :: int) = mask 4"
    "(0xF0 :: int) = push_bit 4 (mask 4)"
    by (simp_all add: mask_eq_exp_minus_1 push_bit_eq_mult)
  show "bit (0x0FFF :: int) n = (n < 12)" "bit (0xFF :: int) n = (n < 8)"
    "bit (0xF0 :: int) n = (4 \<le> n \<and> n < 8)" "bit (0x0F :: int) n = (n < 4)"
    unfolding m by (auto simp: bit_simps)
qed

lemma merge_words:
  fixes v x y :: u16 and l h :: u8
  shows "(b2w (w2b (v AND 0xFF)) OR push_bit 8 (b2w (w2b ((b2w h AND 0xF0) OR (drop_bit 8 v AND 0x0F))))) AND 0x0FFF
      = v AND 0x0FFF"
    and "drop_bit 4 (b2w (w2b ((b2w l AND 0x0F) OR (push_bit 4 v AND 0xF0))) OR push_bit 8 (b2w (w2b (drop_bit 4 v AND 0xFF))))
      = v AND 0x0FFF"
    and "drop_bit 4 (b2w (w2b ((b2w h AND 0xF0) OR (x AND 0x0F))) OR y) = drop_bit 4 (b2w h OR y)"
    and "(y OR push_bit 8 (b2w (w2b ((b2w h AND 0x0F) OR (x AND 0xF0))))) AND 0x0FFF = (y OR push_bit 8 (b2w h)) AND 0x0FFF"
proof -
  have e: "4 + (n - 4) = n" if "\<not> n < 4" for n :: nat using that by simp
  show "(b2w (w2b (v AND 0xFF)) OR push_bit 8 (b2w (w2b ((b2w h AND 0xF0) OR (drop_bit 8 v AND 0x0F))))) AND 0x0FFF
      = v AND 0x0FFF"
    by (rule bit_word_eqI) (auto simp: bit_simps mask_bits)
  show "drop_bit 4 (b2w (w2b ((b2w l AND 0x0F) OR (push_bit 4 v AND 0xF0))) OR push_bit 8 (b2w (w2b (drop_bit 4 v AND 0xFF))))
      = v AND 0x0FFF"
  proof (rule bit_word_eqI)
    fix n :: nat
    show "bit (drop_bit 4 (b2w (w2b ((b2w l AND 0x0F) OR (push_bit 4 v AND 0xF0))) OR push_bit 8 (b2w (w2b (drop_bit 4 v AND 0xFF))))) n
      = bit (v AND 0x0FFF) n"
      by (cases "n < 4") (auto simp: bit_simps mask_bits e)
  qed
  show "drop_bit 4 (b2w (w2b ((b2w h AND 0xF0) OR (x AND 0x0F))) OR y) = drop_bit 4 (b2w h OR y)"
    by (rule bit_word_eqI) (auto simp: bit_simps mask_bits dest: bit_imp_le_length)
  show "(y OR push_bit 8 (b2w (w2b ((b2w h AND 0x0F) OR (x AND 0xF0))))) AND 0x0FFF = (y OR push_bit 8 (b2w h)) AND 0x0FFF"
    by (rule bit_word_eqI) (auto simp: bit_simps mask_bits dest: bit_imp_le_length)
qed

lemma ent_apart:
  fixes c d :: nat
  shows "d = c \<or> even c \<and> d = c + 1 \<or> odd c \<and> d + 1 = c \<or>
    d \<noteq> c \<and> d + d div 2 \<noteq> c + c div 2 \<and> d + d div 2 \<noteq> c + c div 2 + 1 \<and> d + d div 2 + 1 \<noteq> c + c div 2"
proof -
  obtain k j x y where "c = 2 * k + x" "d = 2 * j + y" "x < 2" "y < (2 :: nat)"
    by (metis mod_less_divisor mult_div_mod_eq zero_less_numeral)
  moreover from this have "x = 0 \<or> x = 1" "y = 0 \<or> y = 1" by auto
  ultimately show ?thesis by auto
qed

lemma ent_upd: "ent (ent_bytes c v g) d = (if d = c then v AND 0x0FFF else ent g d)"
proof -
  consider (same) "d = c" | (succ) "even c" "d = c + 1" | (prev) "odd c" "d + 1 = c"
    | (far) "d \<noteq> c" "d + d div 2 \<noteq> c + c div 2" "d + d div 2 \<noteq> c + c div 2 + 1" "d + d div 2 + 1 \<noteq> c + c div 2"
  proof -
    show thesis using that ent_apart [of d c] by blast
  qed
  then show ?thesis
  proof cases
    case same
    then show ?thesis
      by (simp add: ent_def ent_bytes_def merge_lo_def merge_hi_def odd_word Let_def merge_words del: drop_bit_or)
  next
    case succ
    then obtain k where k: "c = 2 * k" by (elim evenE)
    have o: "(of_nat (2 * k) :: u32) AND 1 = 0" using odd_word [of "2 * k"] by simp
    have e: "2 * k + 1 + (2 * k + 1) div 2 = 2 * k + 2 * k div 2 + 1" by simp
    show ?thesis
      unfolding succ(2) k ent_def ent_bytes_def Let_def e
      by (simp add: merge_hi_def o merge_words(3) del: of_nat_mult drop_bit_or)
  next
    case prev
    then obtain k where k: "d = 2 * k" "c = 2 * k + 1" by (metis Suc_eq_plus1 dvdE even_Suc)
    have o: "((of_nat (Suc (2 * k)) :: u32) AND 1 = 0) = False" using odd_word [of "Suc (2 * k)"] by (simp del: of_nat_Suc)
    have e: "2 * k + 1 + (2 * k + 1) div 2 = 2 * k + 2 * k div 2 + 1" by simp
    show ?thesis
      unfolding k ent_def ent_bytes_def Let_def e
      by (simp add: merge_lo_def o merge_words(4) del: of_nat_add of_nat_mult of_nat_Suc)
  next
    case far
    then show ?thesis by (simp add: ent_def ent_bytes_def Let_def)
  qed
qed


subsection \<open>Bytes of a run of sectors\<close>

definition dget :: "(u32 \<Rightarrow> u8 list) \<Rightarrow> u32 \<Rightarrow> nat \<Rightarrow> u8" where
  "dget S a k = S (a + of_nat (k div 512)) ! (k mod 512)"

definition dput :: "(u32 \<Rightarrow> u8 list) \<Rightarrow> u32 \<Rightarrow> nat \<Rightarrow> u8 \<Rightarrow> (u32 \<Rightarrow> u8 list)" where
  "dput S a k v = (let l = a + of_nat (k div 512) in S(l := (S l)[k mod 512 := v]))"

lemma sector_index:
  assumes "i < 4294967296" "j < 4294967296"
  shows "a + of_nat i = (a + of_nat j :: u32) \<longleftrightarrow> i = j"
  using assms by (metis add_left_cancel unat_of_nat32)

lemma length_dput [simp]: "length (dput S a k v l) = length (S l)"
  by (simp add: dput_def Let_def)

lemma dget_dput:
  assumes "\<And>l. length (S l) = 512" "k < 4294967296" "j < 4294967296"
  shows "dget (dput S a k v) a j = (if j = k then v else dget S a j)"
proof -
  have "k div 512 < 4294967296" "j div 512 < 4294967296" using assms(2,3) by simp_all
  note i = sector_index [OF this, of a]
  have m: "k mod 512 < length (S l)" for l using assms(1) by simp
  have "j = k \<longleftrightarrow> j div 512 = k div 512 \<and> j mod 512 = k mod 512" by (metis div_mult_mod_eq)
  then show ?thesis
    using i m by (auto simp: dget_def dput_def Let_def nth_list_update)
qed

lemma dput_other: "l \<noteq> a + of_nat (k div 512) \<Longrightarrow> dput S a k v l = S l"
  by (simp add: dput_def Let_def)

lemma ent_cong: "(\<And>k. k \<le> d + d div 2 + 1 \<Longrightarrow> g k = h k) \<Longrightarrow> ent g d = ent h d"
  by (simp add: ent_def Let_def)

text \<open>A volume on a drive without bad sectors.\<close>

definition good :: "fat \<Rightarrow> bool" where
  "good s \<longleftrightarrow> present (drv s) \<and> (\<forall>l. rd_ok (drv s) l \<and> wr_ok (drv s) l \<and> length (sectors (drv s) l) = 512) \<and>
     length (secbuf s) = 512"

lemma good_sec:
  assumes "good s"
  shows "read_sec l s = (True, s\<lparr>secbuf := sectors (drv s) l\<rparr>)"
    and "write_sec l s = (True, s\<lparr>drv := (drv s)\<lparr>sectors := (sectors (drv s))(l := secbuf s)\<rparr>\<rparr>)"
  using assms by (simp_all add: good_def read_sec_def write_sec_def)

lemma good_secbuf: "good s \<Longrightarrow> length b = 512 \<Longrightarrow> good (s\<lparr>secbuf := b\<rparr>)"
  by (simp add: good_def)

lemma good_drv: "good s \<Longrightarrow> (\<And>l. length (S l) = 512) \<Longrightarrow> length b = 512 \<Longrightarrow>
    good (s\<lparr>secbuf := b, drv := (drv s)\<lparr>sectors := S\<rparr>\<rparr>)"
  by (simp add: good_def)

text \<open>The table offsets of a cluster number, as the code computes them on words.\<close>

lemma entry_offset:
  assumes "c < 65536"
  defines "o1 \<equiv> c + c div 2"
  shows "(of_nat c + of_nat c div 2 :: u32) div 512 = of_nat (o1 div 512)"
    and "unat ((of_nat c + of_nat c div 2 :: u32) mod 512) = o1 mod 512" and "o1 < 98304"
proof -
  have "unat (of_nat c :: u32) = c" using assms(1) by (simp add: unat_of_nat32)
  then have "unat ((of_nat c :: u32) div 2) = c div 2" by (simp add: unat_div)
  then have "(of_nat c :: u32) div 2 = of_nat (c div 2)" by (metis word_of_unat)
  then have w: "(of_nat c + of_nat c div 2 :: u32) = of_nat o1" by (simp add: o1_def)
  show o: "o1 < 98304" using assms by simp
  then have u: "unat (of_nat o1 :: u32) = o1" by (simp add: unat_of_nat32)
  show "unat ((of_nat c + of_nat c div 2 :: u32) mod 512) = o1 mod 512"
    unfolding w by (simp add: unat_mod u)
  have "unat ((of_nat o1 :: u32) div 512) = o1 div 512" by (simp add: unat_div u)
  then show "(of_nat c + of_nat c div 2 :: u32) div 512 = of_nat (o1 div 512)"
    unfolding w by (metis word_of_unat)
qed

text \<open>Reading an entry: the split case reads a second sector and gives the same value.\<close>

lemma straddle:
  assumes "k mod 512 = (511 :: nat)"
  shows "Suc k div 512 = Suc (k div 512)" "Suc k mod 512 = 0"
  using assms by (simp_all add: div_Suc mod_Suc)

lemma no_straddle:
  assumes "k mod 512 \<noteq> (511 :: nat)"
  shows "Suc k div 512 = k div 512" "Suc k mod 512 = Suc (k mod 512)"
  using assms by (simp_all add: div_Suc mod_Suc)

lemma fat_next_cluster_ent:
  assumes "good s" "c < 65536"
  shows "\<exists>b. length b = 512 \<and> fat_next_cluster (of_nat c) s =
    (ent (dget (sectors (drv s)) (fat_lba s)) c, s\<lparr>secbuf := b\<rparr>)"
proof -
  let ?o = "c + c div 2" and ?S = "sectors (drv s)"
  note e = entry_offset [OF assms(2)]
  have len: "length (?S l) = 512" for l using assms(1) by (simp add: good_def)
  show ?thesis
  proof (cases "?o mod 512 = 511")
    case True
    note st = straddle [OF True]
    let ?s = "s\<lparr>secbuf := ?S (fat_lba s + of_nat (?o div 512))\<rparr>"
    have g: "good ?s" using assms(1) len by (simp add: good_secbuf)
    have "fat_next_cluster (of_nat c) s = (ent (dget ?S (fat_lba s)) c, s\<lparr>secbuf := ?S (fat_lba s + of_nat (?o div 512) + 1)\<rparr>)"
      using True good_sec(1) [OF assms(1)] good_sec(1) [OF g]
      by (simp only: fat_next_cluster_def Let_def e) (simp add: ent_def dget_def st Let_def odd_word add.assoc add.commute [of 1])
    then show ?thesis using len by blast
  next
    case False
    note st = no_straddle [OF False]
    have "fat_next_cluster (of_nat c) s = (ent (dget ?S (fat_lba s)) c, s\<lparr>secbuf := ?S (fat_lba s + of_nat (?o div 512))\<rparr>)"
      using False good_sec(1) [OF assms(1)]
      by (simp only: fat_next_cluster_def Let_def e) (simp add: ent_def dget_def st Let_def odd_word)
    then show ?thesis using len by blast
  qed
qed

text \<open>Writing an entry into one copy of the table: exactly its two bytes change.\<close>

definition copy_lba :: "fat \<Rightarrow> nat \<Rightarrow> u32" where
  "copy_lba s f = fat_lba s + of_nat f * fat_sectors s"

lemma fat_set_copy_run:
  fixes f :: nat and v :: u16
  assumes "good s" "c < 65536"
  defines "o1 \<equiv> c + c div 2" and "a \<equiv> copy_lba s f" and "S \<equiv> sectors (drv s)"
  defines "S' \<equiv> dput (dput S a o1 (merge_lo (of_nat c) v (dget S a o1))) a (o1 + 1) (merge_hi (of_nat c) v (dget S a (o1 + 1)))"
  shows "\<exists>b. length b = 512 \<and> fat_set_copy (of_nat c) v f s = (True, s\<lparr>secbuf := b, drv := (drv s)\<lparr>sectors := S'\<rparr>\<rparr>)"
proof -
  note e = entry_offset [OF assms(2), folded o1_def]
  have len: "length (S l) = 512" for l using assms(1) by (simp add: good_def S_def)
  have a: "fat_lba s + of_nat f * fat_sectors s = a" by (simp add: a_def copy_lba_def)
  show ?thesis
  proof (cases "o1 mod 512 = 511")
    case True
    note st = straddle [OF True]
    let ?l = "a + of_nat (o1 div 512)"
    let ?b1 = "(S ?l)[511 := merge_lo (of_nat c) v (S ?l ! 511)]"
    let ?S1 = "S(?l := ?b1)"
    let ?b2 = "(S (?l + 1))[0 := merge_hi (of_nat c) v (S (?l + 1) ! 0)]"
    have ne: "?l + 1 \<noteq> ?l" by simp
    have "fat_set_copy (of_nat c) v f s = (True, s\<lparr>secbuf := ?b2, drv := (drv s)\<lparr>sectors := ?S1(?l + 1 := ?b2)\<rparr>\<rparr>)"
      using True assms(1) ne len unfolding good_def S_def
      by (simp only: fat_set_copy_def Let_def e a)
        (simp add: read_sec_def write_sec_def put_def Let_def)
    moreover have "?S1(?l + 1 := ?b2) = S'"
      using True by (simp add: S'_def dput_def dget_def st Let_def add.assoc add.commute [of 1])
    ultimately show ?thesis using len by (intro exI [of _ ?b2]) simp
  next
    case False
    note st = no_straddle [OF False]
    let ?l = "a + of_nat (o1 div 512)"
    let ?b = "(S ?l)[o1 mod 512 := merge_lo (of_nat c) v (S ?l ! (o1 mod 512)),
        o1 mod 512 + 1 := merge_hi (of_nat c) v (S ?l ! (o1 mod 512 + 1))]"
    have "fat_set_copy (of_nat c) v f s = (True, s\<lparr>secbuf := ?b, drv := (drv s)\<lparr>sectors := S(?l := ?b)\<rparr>\<rparr>)"
      using False assms(1) len unfolding good_def S_def
      by (simp only: fat_set_copy_def Let_def e a)
        (simp add: read_sec_def write_sec_def put_def Let_def)
    moreover have "S(?l := ?b) = S'"
      using False by (simp add: S'_def dput_def dget_def st Let_def)
    ultimately show ?thesis using len by (intro exI [of _ ?b]) simp
  qed
qed


text \<open>
  A mounted volume of sensible geometry, and the clusters whose table entry lies inside a copy.
\<close>

definition geometry :: "fat \<Rightarrow> bool" where
  "geometry s \<longleftrightarrow> unat (fat_lba s) < 65536 \<and> unat (fat_sectors s) < 65536 \<and>
     unat (spc s) < 256 \<and> 0 < unat (spc s) \<and> unat (root_sectors s) < 8192 \<and> unat (data_lba s) < 2880 \<and>
     unat (fat_lba s) + 2 * unat (fat_sectors s) \<le> unat (root_lba s) \<and> data_lba s = root_lba s + root_sectors s \<and>
     unat (root_lba s) + unat (root_sectors s) < 2880"

definition in_table :: "fat \<Rightarrow> nat \<Rightarrow> bool" where
  "in_table s c \<longleftrightarrow> c < 65536 \<and> (c + c div 2 + 1) div 512 < unat (fat_sectors s)"

abbreviation fat_entry :: "fat \<Rightarrow> nat \<Rightarrow> nat \<Rightarrow> u16" where
  "fat_entry s f c \<equiv> ent (dget (sectors (drv s)) (copy_lba s f)) c"

text \<open>The sectors of the two copies of the table.\<close>

definition table_secs :: "fat \<Rightarrow> u32 set" where
  "table_secs s = {copy_lba s f + of_nat i |f i. f < 2 \<and> i < unat (fat_sectors s)}"

lemma unat_copy:
  assumes "geometry s" "f < 2" "i < unat (fat_sectors s)"
  shows "unat (copy_lba s f + of_nat i) = unat (fat_lba s) + f * unat (fat_sectors s) + i"
proof -
  have b: "unat (fat_lba s) < 65536" "unat (fat_sectors s) < 65536" using assms(1) by (simp_all add: geometry_def)
  have i: "unat (of_nat i :: u32) = i" using assms(3) b(2) by (simp add: unat_of_nat32)
  have f: "f = 0 \<or> f = 1" using assms(2) by auto
  have c: "unat (copy_lba s f) = unat (fat_lba s) + f * unat (fat_sectors s)"
    using f unat_add_no_wrap [of "fat_lba s" "fat_sectors s"] b by (auto simp: copy_lba_def)
  have "unat (copy_lba s f) + unat (of_nat i :: u32) < 4294967296"
    using c i f b assms(3) by auto
  from unat_add_no_wrap [OF this] show ?thesis using c i by simp
qed

lemma copies_apart:
  assumes "geometry s" "f < 2" "g < 2" "i < unat (fat_sectors s)" "j < unat (fat_sectors s)" "f \<noteq> g"
  shows "copy_lba s f + of_nat i \<noteq> copy_lba s g + of_nat j"
proof
  assume "copy_lba s f + of_nat i = copy_lba s g + of_nat j"
  then have "unat (fat_lba s) + f * unat (fat_sectors s) + i = unat (fat_lba s) + g * unat (fat_sectors s) + j"
    using unat_copy [OF assms(1,2,4)] unat_copy [OF assms(1,3,5)] by simp
  moreover have "f = 0 \<and> g = 1 \<or> f = 1 \<and> g = 0" using assms(2,3,6) by auto
  ultimately show False using assms(4,5) by auto
qed

lemma in_table_bytes:
  assumes "in_table s c" "k \<le> c + c div 2 + 1"
  shows "k div 512 < unat (fat_sectors s)" "k < 98304"
proof -
  have "k div 512 \<le> (c + c div 2 + 1) div 512" using assms(2) by (rule div_le_mono)
  then show "k div 512 < unat (fat_sectors s)" using assms(1) by (simp add: in_table_def)
  have "c < 65536" using assms(1) by (simp add: in_table_def)
  then have "c div 2 \<le> 32767" by simp
  then show "k < 98304" using assms(2) \<open>c < 65536\<close> by linarith
qed

text \<open>One copy: its entry changes; the other copy, and all sectors outside the table, do not.\<close>

lemma fat_set_copy_spec:
  assumes g: "good s" "geometry s" and c: "in_table s c" and f: "f < 2"
  shows "\<exists>b S. fat_set_copy (of_nat c) v f s = (True, s\<lparr>secbuf := b, drv := (drv s)\<lparr>sectors := S\<rparr>\<rparr>) \<and>
    length b = 512 \<and> (\<forall>l. length (S l) = 512) \<and>
    (\<forall>d h. in_table s d \<longrightarrow> h < 2 \<longrightarrow>
       ent (dget S (copy_lba s h)) d = (if h = f \<and> d = c then v AND 0x0FFF else fat_entry s h d)) \<and>
    (\<forall>l. l \<notin> table_secs s \<longrightarrow> S l = sectors (drv s) l)"
proof -
  let ?a = "copy_lba s f" and ?o = "c + c div 2" and ?D = "sectors (drv s)"
  have c': "c < 65536" using c by (simp add: in_table_def)
  let ?S1 = "dput ?D ?a ?o (merge_lo (of_nat c) v (dget ?D ?a ?o))"
  let ?S = "dput ?S1 ?a (?o + 1) (merge_hi (of_nat c) v (dget ?D ?a (?o + 1)))"
  obtain b where b: "length b = 512" "fat_set_copy (of_nat c) v f s = (True, s\<lparr>secbuf := b, drv := (drv s)\<lparr>sectors := ?S\<rparr>\<rparr>)"
    using fat_set_copy_run [OF g(1) c', of v f] by blast
  have len: "length (?D l) = 512" "length (?S1 l) = 512" for l using g(1) by (simp_all add: good_def)
  note o = in_table_bytes [OF c, of ?o] in_table_bytes [OF c, of "?o + 1"]
  have own: "ent (dget ?S ?a) d = (if d = c then v AND 0x0FFF else fat_entry s f d)" if d: "in_table s d" for d
  proof -
    have "dget ?S ?a k = ent_bytes c v (dget ?D ?a) k" if "k \<le> d + d div 2 + 1" for k
      using in_table_bytes(2) [OF d that] o len
      by (simp add: dget_dput ent_bytes_def Let_def)
    then have "ent (dget ?S ?a) d = ent (ent_bytes c v (dget ?D ?a)) d" by (rule ent_cong)
    then show ?thesis by (simp add: ent_upd)
  qed
  have other: "ent (dget ?S (copy_lba s h)) d = fat_entry s h d" if d: "in_table s d" and h: "h < 2" "h \<noteq> f" for d h
  proof (rule ent_cong)
    fix k assume k: "k \<le> d + d div 2 + 1"
    note kd = in_table_bytes(1) [OF d k]
    have "copy_lba s h + of_nat (k div 512) \<noteq> ?a + of_nat (?o div 512)"
      "copy_lba s h + of_nat (k div 512) \<noteq> ?a + of_nat ((?o + 1) div 512)"
      using copies_apart [OF g(2) h(1) f kd _ h(2)] o by simp_all
    then show "dget ?S (copy_lba s h) k = dget ?D (copy_lba s h) k"
      by (simp add: dget_def dput_other)
  qed
  have out: "?S l = ?D l" if "l \<notin> table_secs s" for l
  proof -
    have "l \<noteq> ?a + of_nat (?o div 512)" "l \<noteq> ?a + of_nat ((?o + 1) div 512)"
      using that o f by (auto simp: table_secs_def)
    then show ?thesis by (simp add: dput_other)
  qed
  have all: "\<forall>d h. in_table s d \<longrightarrow> h < 2 \<longrightarrow>
      ent (dget ?S (copy_lba s h)) d = (if h = f \<and> d = c then v AND 0x0FFF else fat_entry s h d)"
  proof (intro allI impI)
    fix d h assume "in_table s d" "h < (2 :: nat)"
    then show "ent (dget ?S (copy_lba s h)) d = (if h = f \<and> d = c then v AND 0x0FFF else fat_entry s h d)"
      using own other by (cases "h = f") simp_all
  qed
  show ?thesis
    by (intro exI [of _ b] exI [of _ ?S] conjI b all) (use len out in simp_all)
qed


subsection \<open>Both copies of the table\<close>

text \<open>\<open>s'\<close> is \<open>s\<close> with other buffer and sector contents, on the same healthy drive.\<close>

definition same_vol :: "fat \<Rightarrow> fat \<Rightarrow> bool" where
  "same_vol s s' \<longleftrightarrow> (\<exists>b S. s' = s\<lparr>secbuf := b, drv := (drv s)\<lparr>sectors := S\<rparr>\<rparr> \<and> length b = 512 \<and> (\<forall>l. length (S l) = 512))"

lemma same_volD:
  assumes "same_vol s s'"
  shows "good s \<Longrightarrow> good s'" "geometry s' = geometry s" "in_table s' c = in_table s c"
    "copy_lba s' f = copy_lba s f" "table_secs s' = table_secs s" "cluster_sectors w s' = cluster_sectors w s"
    "all_clusters s' = all_clusters s" "spc s' = spc s" "mounted s' = mounted s" "root_list s' = root_list s"
proof -
  obtain b S where s': "s' = s\<lparr>secbuf := b, drv := (drv s)\<lparr>sectors := S\<rparr>\<rparr>" "length b = 512" "\<forall>l. length (S l) = 512"
    using assms unfolding same_vol_def by blast
  show "good s \<Longrightarrow> good s'" "geometry s' = geometry s" "in_table s' c = in_table s c"
    "copy_lba s' f = copy_lba s f" "table_secs s' = table_secs s" "cluster_sectors w s' = cluster_sectors w s"
    "all_clusters s' = all_clusters s" "spc s' = spc s" "mounted s' = mounted s" "root_list s' = root_list s"
    using s'(2,3) by (simp_all add: s'(1) good_def geometry_def in_table_def copy_lba_def table_secs_def
      cluster_sectors_def all_clusters_def data_clusters_max_def root_list_def)
qed

lemma same_vol_refl: "good s \<Longrightarrow> same_vol s s"
  unfolding same_vol_def good_def
  by (intro exI [of _ "secbuf s"] exI [of _ "sectors (drv s)"]) simp

lemma same_vol_trans:
  assumes "same_vol s t" "same_vol t u"
  shows "same_vol s u"
proof -
  obtain b S where t: "t = s\<lparr>secbuf := b, drv := (drv s)\<lparr>sectors := S\<rparr>\<rparr>"
    using assms(1) unfolding same_vol_def by blast
  obtain b' S' where u: "u = t\<lparr>secbuf := b', drv := (drv t)\<lparr>sectors := S'\<rparr>\<rparr>" "length b' = 512" "\<forall>l. length (S' l) = 512"
    using assms(2) unfolding same_vol_def by blast
  show ?thesis unfolding same_vol_def
    by (rule exI [of _ b'], rule exI [of _ S']) (use u in \<open>simp add: t\<close>)
qed

lemma fat_set_spec:
  assumes g: "good s" "geometry s" and c: "in_table s c"
  obtains s' where "fat_set (of_nat c) v s = (True, s')" "same_vol s s'"
    "\<And>d h. in_table s d \<Longrightarrow> h < 2 \<Longrightarrow> fat_entry s' h d = (if d = c then v AND 0x0FFF else fat_entry s h d)"
    "\<And>l. l \<notin> table_secs s \<Longrightarrow> sectors (drv s') l = sectors (drv s) l"
proof -
  obtain b S where 1: "fat_set_copy (of_nat c) v 0 s = (True, s\<lparr>secbuf := b, drv := (drv s)\<lparr>sectors := S\<rparr>\<rparr>)"
    "length b = 512" "\<forall>l. length (S l) = 512"
    "\<forall>d h. in_table s d \<longrightarrow> h < 2 \<longrightarrow>
       ent (dget S (copy_lba s h)) d = (if h = 0 \<and> d = c then v AND 0x0FFF else fat_entry s h d)"
    "\<forall>l. l \<notin> table_secs s \<longrightarrow> S l = sectors (drv s) l"
    using fat_set_copy_spec [OF g c, of 0 v] by auto
  define t where "t = s\<lparr>secbuf := b, drv := (drv s)\<lparr>sectors := S\<rparr>\<rparr>"
  have st: "same_vol s t" using 1(2,3) by (auto simp: same_vol_def t_def)
  note v1 = same_volD [OF st]
  have g': "good t" "geometry t" "in_table t c" using g c v1 by simp_all
  obtain b' S' where 2: "fat_set_copy (of_nat c) v 1 t = (True, t\<lparr>secbuf := b', drv := (drv t)\<lparr>sectors := S'\<rparr>\<rparr>)"
    "length b' = 512" "\<forall>l. length (S' l) = 512"
    "\<forall>d h. in_table t d \<longrightarrow> h < 2 \<longrightarrow>
       ent (dget S' (copy_lba t h)) d = (if h = 1 \<and> d = c then v AND 0x0FFF else fat_entry t h d)"
    "\<forall>l. l \<notin> table_secs t \<longrightarrow> S' l = sectors (drv t) l"
    using fat_set_copy_spec [OF g', of 1 v] by auto
  define u where "u = t\<lparr>secbuf := b', drv := (drv t)\<lparr>sectors := S'\<rparr>\<rparr>"
  have tu: "same_vol t u" using 2(2,3) by (auto simp: same_vol_def u_def)
  have cl: "copy_lba u h = copy_lba s h" "copy_lba t h = copy_lba s h" for h
    using same_volD(4) [OF tu] v1(4) by simp_all
  show thesis
  proof (rule that)
    show "fat_set (of_nat c) v s = (True, u)"
      using 1(1) 2(1) by (simp add: fat_set_def t_def u_def)
    show "same_vol s u" by (rule same_vol_trans [OF st tu])
    show "sectors (drv u) l = sectors (drv s) l" if "l \<notin> table_secs s" for l
      using that 1(5) 2(5) v1(5) by (simp add: u_def t_def)
    show "fat_entry u h d = (if d = c then v AND 0x0FFF else fat_entry s h d)" if d: "in_table s d" "h < 2" for d h
    proof -
      have "fat_entry u h d = (if h = 1 \<and> d = c then v AND 0x0FFF else fat_entry t h d)"
        using 2(4) d v1(3) unfolding cl by (simp add: u_def)
      moreover have "fat_entry t h d = (if h = 0 \<and> d = c then v AND 0x0FFF else fat_entry s h d)"
        using 1(4) d unfolding cl by (simp add: t_def)
      moreover have "h = 0 \<or> h = 1" using d(2) by auto
      ultimately show ?thesis by auto
    qed
  qed
qed

lemma fat_get_spec:
  assumes "good s" "c < 65536"
  obtains s' where "fat_get (of_nat c) s = (ucast (fat_entry s 0 c), s')" "same_vol s s'" "drv s' = drv s"
proof -
  obtain b where b: "length b = 512"
    "fat_next_cluster (of_nat c) s = (ent (dget (sectors (drv s)) (fat_lba s)) c, s\<lparr>secbuf := b\<rparr>)"
    using fat_next_cluster_ent [OF assms] by blast
  have "same_vol s (s\<lparr>secbuf := b\<rparr>)"
    using assms(1) b(1) unfolding same_vol_def good_def
    by (intro exI [of _ b] exI [of _ "sectors (drv s)"]) simp
  then show thesis
    using that [of "s\<lparr>secbuf := b\<rparr>"] b(2) by (simp add: fat_get_def copy_lba_def)
qed

subsection \<open>Chains\<close>

text \<open>\<open>chain e c cs\<close>: following the entries \<open>e\<close> from \<open>c\<close> visits exactly the clusters \<open>cs\<close>.\<close>

fun chain :: "(nat \<Rightarrow> u16) \<Rightarrow> nat \<Rightarrow> nat list \<Rightarrow> bool" where
  "chain e c [] = (\<not> (2 \<le> c \<and> c < 0xFF0))"
| "chain e c (x # xs) = (x = c \<and> 2 \<le> c \<and> c < 0xFF0 \<and> chain e (unat (e c)) xs)"

lemma chain_unique: "chain e c xs \<Longrightarrow> chain e c ys \<Longrightarrow> xs = ys"
proof (induction xs arbitrary: c ys)
  case Nil
  then show ?case by (cases ys) auto
next
  case (Cons x xs)
  then show ?case by (cases ys) auto
qed

lemma chain_suffix: "chain e c (xs @ y # ys) \<Longrightarrow> chain e y (y # ys)"
  by (induction xs arbitrary: c) auto

lemma chain_distinct: "chain e c xs \<Longrightarrow> distinct xs"
proof (induction xs arbitrary: c)
  case (Cons x xs)
  have "x \<notin> set xs"
  proof
    assume "x \<in> set xs"
    then obtain as bs where s: "xs = as @ x # bs" by (meson split_list)
    have "chain e x (x # xs)" using Cons.prems by auto
    then have "chain e x (x # as @ x # bs)" unfolding s .
    moreover have "chain e x (x # bs)" using Cons.prems chain_suffix [of e c "x # as" x bs] unfolding s by auto
    ultimately have "x # as @ x # bs = x # bs" by (rule chain_unique)
    then show False by simp
  qed
  then show ?case using Cons by auto
qed simp

lemma chain_cong: "chain e c xs \<Longrightarrow> (\<And>x. x \<in> set xs \<Longrightarrow> e' x = e x) \<Longrightarrow> chain e' c xs"
  by (induction xs arbitrary: c) auto

text \<open>The chain is followed on the table as it was: an entry is read before it is cleared.\<close>

lemma free_chain_spec:
  assumes "good s" "geometry s" "chain (fat_entry s 0) c cs" "\<forall>x\<in>set cs. in_table s x" "length cs \<le> guard" "c < 65536"
  obtains s' where "free_chain guard (of_nat c) s = s'" "same_vol s s'"
    "\<And>d h. in_table s d \<Longrightarrow> h < 2 \<Longrightarrow> fat_entry s' h d = (if d \<in> set cs then 0 else fat_entry s h d)"
    "\<And>l. l \<notin> table_secs s \<Longrightarrow> sectors (drv s') l = sectors (drv s) l"
  using assms
proof (induction cs arbitrary: guard c s thesis)
  case Nil
  have "free_chain guard (of_nat c) s = s"
  proof (cases guard)
    case (Suc g)
    have "(2 \<le> (of_nat c :: u32) \<and> (of_nat c :: u32) < 0xFF0) = False"
      using Nil.prems by (auto simp: word_le_nat_alt word_less_nat_alt unat_of_nat32)
    then show ?thesis by (simp only: Suc free_chain.simps if_False)
  qed simp
  then show ?case using Nil.prems same_vol_refl by (intro Nil.prems(1) [of s]) simp_all
next
  case (Cons x xs)
  obtain g where gd: "guard = Suc g" using Cons.prems(6) by (cases guard) auto
  have x: "x = c" "2 \<le> c" "c < 0xFF0" "chain (fat_entry s 0) (unat (fat_entry s 0 c)) xs"
    using Cons.prems(4) by simp_all
  have c: "in_table s c" using Cons.prems(5) x(1) by simp
  obtain t where t: "fat_get (of_nat c) s = (ucast (fat_entry s 0 c), t)" "same_vol s t" "drv t = drv s"
    by (rule fat_get_spec [OF Cons.prems(2,7)]) (rule that)
  note vt = same_volD [OF t(2)]
  have et: "fat_entry t h d = fat_entry s h d" for h d by (simp add: t(3) vt(4))
  have gt: "good t" "geometry t" "in_table t c" using Cons.prems(2,3) vt c by simp_all
  obtain u where u: "fat_set (of_nat c) 0 t = (True, u)" "same_vol t u"
    "\<And>d h. in_table t d \<Longrightarrow> h < 2 \<Longrightarrow> fat_entry u h d = (if d = c then 0 AND 0x0FFF else fat_entry t h d)"
    "\<And>l. l \<notin> table_secs t \<Longrightarrow> sectors (drv u) l = sectors (drv t) l"
    using fat_set_spec [OF gt, of 0] by blast
  note vu = same_volD [OF u(2)]
  have eu: "fat_entry u h d = (if d = c then 0 else fat_entry s h d)" if "in_table s d" "h < 2" for h d
    using u(3) [of d h] that vt(3) et by simp
  have d: "c \<notin> set xs" using chain_distinct [OF Cons.prems(4)] x(1) by simp
  let ?n = "unat (fat_entry s 0 c)"
  have n16: "?n < 65536" using unsigned_less [of "fat_entry s 0 c", where 'a = nat] by simp
  have ch: "chain (fat_entry u 0) ?n xs"
    using x(4) by (rule chain_cong) (use eu d Cons.prems(5) in auto)
  have gu: "good u" "geometry u" "\<forall>y\<in>set xs. in_table u y"
    using vu vt gt Cons.prems(3,5) by simp_all
  obtain s' where s': "free_chain g (of_nat ?n) u = s'" "same_vol u s'"
    "\<And>d h. in_table u d \<Longrightarrow> h < 2 \<Longrightarrow> fat_entry s' h d = (if d \<in> set xs then 0 else fat_entry u h d)"
    "\<And>l. l \<notin> table_secs u \<Longrightarrow> sectors (drv s') l = sectors (drv u) l"
    using Cons.IH [OF _ gu(1,2) ch gu(3) _ n16, of g] Cons.prems(6) gd by auto
  have nx: "(ucast (fat_entry s 0 c) :: u32) = of_nat ?n" by simp
  have rng: "2 \<le> (of_nat c :: u32)" "(of_nat c :: u32) < 0xFF0"
    using x(2,3) by (simp_all add: word_le_nat_alt word_less_nat_alt unat_of_nat32)
  have run: "free_chain guard (of_nat c) s = s'"
    using rng s'(1) unfolding gd nx [symmetric] by (simp add: t(1) u(1))
  show ?case
  proof (rule Cons.prems(1) [OF run])
    show "same_vol s s'" using t(2) u(2) s'(2) same_vol_trans by blast
    show "fat_entry s' h d = (if d \<in> set (x # xs) then 0 else fat_entry s h d)" if "in_table s d" "h < 2" for d h
      using s'(3) [of d h] eu [of d h] that vu(3) vt(3) unfolding x(1) by (cases "d = c") simp_all
    show "sectors (drv s') l = sectors (drv s) l" if "l \<notin> table_secs s" for l
      using s'(4) u(4) that vu(5) vt(5) t(3) by simp
  qed
qed


subsection \<open>Allocating a cluster\<close>

lemma zero_sectors_spec:
  assumes "good s"
  obtains s' where "zero_sectors ls s = (True, s')" "same_vol s s'"
    "\<And>l. sectors (drv s') l = (if l \<in> set ls then replicate 512 0 else sectors (drv s) l)"
  using assms
proof (induction ls arbitrary: s thesis)
  case Nil
  show ?case by (rule Nil.prems(1) [of s]) (use Nil.prems(2) same_vol_refl in simp_all)
next
  case (Cons l ls)
  have sb: "length (secbuf s) = 512" using Cons.prems(2) by (simp add: good_def)
  then have z: "map (\<lambda>_. 0) (secbuf s) = replicate 512 (0 :: u8)"
    by (simp add: map_replicate_const)
  define t where "t = s\<lparr>secbuf := replicate 512 0, drv := (drv s)\<lparr>sectors := (sectors (drv s))(l := replicate 512 0)\<rparr>\<rparr>"
  have len: "length (sectors (drv s) k) = 512" for k using Cons.prems(2) by (simp add: good_def)
  have w: "write_sec l (s\<lparr>secbuf := replicate 512 0\<rparr>) = (True, t)"
    using good_sec(2) [OF good_secbuf [OF Cons.prems(2)]] by (simp add: t_def)
  have st: "same_vol s t"
    unfolding same_vol_def t_def using len
    by (intro exI [of _ "replicate 512 0"] exI [of _ "(sectors (drv s))(l := replicate 512 0)"]) simp
  have gt: "good t" using same_volD(1) [OF st Cons.prems(2)] .
  obtain s' where s': "zero_sectors ls t = (True, s')" "same_vol t s'"
    "\<And>k. sectors (drv s') k = (if k \<in> set ls then replicate 512 0 else sectors (drv t) k)"
    using Cons.IH [OF _ gt] by blast
  show ?case
  proof (rule Cons.prems(1))
    show "zero_sectors (l # ls) s = (True, s')" using s'(1) by (simp add: z w)
    show "same_vol s s'" using same_vol_trans [OF st s'(2)] .
    show "sectors (drv s') k = (if k \<in> set (l # ls) then replicate 512 0 else sectors (drv s) k)" for k
      unfolding s'(3) by (simp add: t_def)
  qed
qed

lemma ucast16_eq_0: "(ucast (x :: u16) :: u32) = 0 \<longleftrightarrow> x = 0"
proof
  assume "(ucast x :: u32) = 0"
  then have "unat (of_nat (unat x) :: u32) = 0" by simp
  moreover have "unat x < 4294967296" using unsigned_less [of x, where 'a = nat] by simp
  ultimately have "unat x = 0" using unat_of_nat32 [of "unat x"] by simp
  then show "x = 0" by (simp add: unat_eq_zero)
qed simp

text \<open>The cluster numbers of a volume, and where their sectors lie.\<close>

definition last_cluster :: "fat \<Rightarrow> nat" where
  "last_cluster s = (2880 - unat (data_lba s)) div unat (spc s) + 2"

lemma all_clusters_range:
  assumes "geometry s"
  shows "all_clusters s = map of_nat [2 ..< last_cluster s]"
proof -
  have g: "0 < unat (spc s)" "unat (data_lba s) < 2880" using assms unfolding geometry_def by blast+
  have "spc s \<noteq> 0" using g(1) by (auto simp: unat_gt_0)
  moreover have "unat (2880 - data_lba s) = 2880 - unat (data_lba s)"
    using g(2) by (subst unat_sub) (simp_all add: word_le_nat_alt)
  ultimately have m: "unat (data_clusters_max s) = (2880 - unat (data_lba s)) div unat (spc s)"
    by (simp add: data_clusters_max_def unat_div)
  have "(2880 - unat (data_lba s)) div unat (spc s) \<le> 2880 - unat (data_lba s)" by (rule div_le_dividend)
  then have "(2880 - unat (data_lba s)) div unat (spc s) < 4294967294" by linarith
  then have "unat (data_clusters_max s + 2) = last_cluster s"
    using m by (subst unat_add_no_wrap) (simp_all add: last_cluster_def)
  then show ?thesis by (simp add: all_clusters_def)
qed

lemma cluster_sector_range:
  assumes "geometry s" "2 \<le> c" "c < last_cluster s" "l \<in> set (cluster_sectors (of_nat c) s)"
  obtains i where "i < unat (spc s)" "unat l = unat (data_lba s) + (c - 2) * unat (spc s) + i" "unat l < 2880"
proof -
  obtain i where i: "i < unat (spc s)" "l = data_lba s + (of_nat c - 2) * spc s + of_nat i"
    using assms(4) by (auto simp: cluster_sectors_def)
  have g: "0 < unat (spc s)" "unat (data_lba s) < 2880" using assms(1) unfolding geometry_def by blast+
  have "c - 2 < (2880 - unat (data_lba s)) div unat (spc s)" using assms(2,3) by (simp add: last_cluster_def)
  then have "Suc (c - 2) * unat (spc s) \<le> (2880 - unat (data_lba s)) div unat (spc s) * unat (spc s)"
    by (intro mult_le_mono1) simp
  also have "\<dots> \<le> 2880 - unat (data_lba s)" by (rule div_times_less_eq_dividend)
  finally have b: "(c - 2) * unat (spc s) + unat (spc s) \<le> 2880 - unat (data_lba s)" by simp
  have "(of_nat c - 2 :: u32) = of_nat (c - 2)" using assms(2) by (simp add: of_nat_diff)
  then have "l = of_nat (unat (data_lba s) + (c - 2) * unat (spc s) + i)"
    by (simp add: i(2))
  moreover have lt: "unat (data_lba s) + (c - 2) * unat (spc s) + i < 2880" using b i(1) g(2) by linarith
  ultimately have "unat l = unat (data_lba s) + (c - 2) * unat (spc s) + i"
    by (simp only: unat_of_nat32)
  with i(1) lt that show thesis by simp
qed

lemma cluster_not_table:
  assumes "geometry s" "2 \<le> c" "c < last_cluster s" "l \<in> set (cluster_sectors (of_nat c) s)"
  shows "l \<notin> table_secs s"
proof
  assume "l \<in> table_secs s"
  then obtain f i where f: "f < 2" "i < unat (fat_sectors s)" "l = copy_lba s f + of_nat i"
    by (auto simp: table_secs_def)
  obtain j where j: "unat l = unat (data_lba s) + (c - 2) * unat (spc s) + j"
    by (rule cluster_sector_range [OF assms])
  have d: "unat (data_lba s) = unat (root_lba s) + unat (root_sectors s)"
    "unat (fat_lba s) + 2 * unat (fat_sectors s) \<le> unat (root_lba s)"
    using assms(1) unat_add_no_wrap [of "root_lba s" "root_sectors s"] by (simp_all add: geometry_def)
  have "unat l = unat (fat_lba s) + f * unat (fat_sectors s) + i"
    using unat_copy [OF assms(1) f(1,2)] f(3) by simp
  moreover have "f * unat (fat_sectors s) \<le> 1 * unat (fat_sectors s)" using f(1) by (intro mult_le_mono1) simp
  ultimately show False using j d f(2) by linarith
qed

text \<open>Every cluster number has its entry in the table.\<close>

definition table_covers :: "fat \<Rightarrow> bool" where
  "table_covers s \<longleftrightarrow> (\<forall>c<last_cluster s. in_table s c)"

lemma alloc_from_spec:
  assumes "good s" "geometry s" "\<forall>c\<in>set ns. 2 \<le> c \<and> c < last_cluster s \<and> in_table s c"
  obtains (full) s' where "alloc_from (map of_nat ns) s = (0, s')" "same_vol s s'" "drv s' = drv s"
      "\<forall>c\<in>set ns. fat_entry s 0 c \<noteq> 0"
    | (found) c s' where "alloc_from (map of_nat ns) s = (of_nat c, s')" "same_vol s s'" "c \<in> set ns"
      "fat_entry s 0 c = 0"
      "\<And>d h. in_table s d \<Longrightarrow> h < 2 \<Longrightarrow> fat_entry s' h d = (if d = c then 0x0FFF else fat_entry s h d)"
      "\<And>l. l \<in> set (cluster_sectors (of_nat c) s) \<Longrightarrow> sectors (drv s') l = replicate 512 0"
      "\<And>l. l \<notin> table_secs s \<Longrightarrow> l \<notin> set (cluster_sectors (of_nat c) s) \<Longrightarrow> sectors (drv s') l = sectors (drv s) l"
  using assms
proof (induction ns arbitrary: s thesis)
  case Nil
  show ?case by (rule Nil.prems(1) [of s]) (use Nil.prems same_vol_refl in simp_all)
next
  case (Cons c ns)
  have c: "2 \<le> c" "c < last_cluster s" "in_table s c" using Cons.prems(5) by simp_all
  then have c': "c < 65536" by (simp add: in_table_def)
  obtain t where t: "fat_get (of_nat c) s = (ucast (fat_entry s 0 c), t)" "same_vol s t" "drv t = drv s"
    by (rule fat_get_spec [OF Cons.prems(3) c']) (rule that)
  note vt = same_volD [OF t(2)]
  have lc: "last_cluster t = last_cluster s"
    using t(2) by (auto simp: same_vol_def last_cluster_def)
  have et: "fat_entry t h d = fat_entry s h d" for h d by (simp add: t(3) vt(4))
  have gt: "good t" "geometry t" "in_table t c" using Cons.prems(3,4) vt c by simp_all
  have z: "(ucast (fat_entry s 0 c) :: u32) = 0 \<longleftrightarrow> fat_entry s 0 c = 0"
    by (rule ucast16_eq_0)
  show ?case
  proof (cases "fat_entry s 0 c = 0")
    case True
    obtain u where u: "fat_set (of_nat c) 0x0FFF t = (True, u)" "same_vol t u"
      "\<And>d h. in_table t d \<Longrightarrow> h < 2 \<Longrightarrow> fat_entry u h d = (if d = c then 0x0FFF AND 0x0FFF else fat_entry t h d)"
      "\<And>l. l \<notin> table_secs t \<Longrightarrow> sectors (drv u) l = sectors (drv t) l"
      using fat_set_spec [OF gt, of "0x0FFF"] by blast
    note vu = same_volD [OF u(2)]
    obtain w where w: "zero_sectors (cluster_sectors (of_nat c) u) u = (True, w)" "same_vol u w"
      "\<And>l. sectors (drv w) l = (if l \<in> set (cluster_sectors (of_nat c) u) then replicate 512 0 else sectors (drv u) l)"
      using zero_sectors_spec [OF vu(1) [OF gt(1)], of "cluster_sectors (of_nat c) u"] by blast
    note vw = same_volD [OF w(2)]
    have cs: "cluster_sectors (of_nat c) u = cluster_sectors (of_nat c) s" by (simp add: vu vt)
    show ?thesis
    proof (rule Cons.prems(2) [of c w])
      show "alloc_from (map of_nat (c # ns)) s = (of_nat c, w)"
        using t(1) u(1) w(1) True z by simp
      show "same_vol s w" using same_vol_trans t(2) u(2) w(2) by blast
      show "c \<in> set (c # ns)" by simp
      show "fat_entry s 0 c = 0" by (rule True)
      show "sectors (drv w) l = replicate 512 0" if "l \<in> set (cluster_sectors (of_nat c) s)" for l
        using that w(3) by (simp add: cs)
      show "sectors (drv w) l = sectors (drv s) l" if "l \<notin> table_secs s" "l \<notin> set (cluster_sectors (of_nat c) s)" for l
        using that w(3) u(4) by (simp add: cs vt t(3))
      show "fat_entry w h d = (if d = c then 0x0FFF else fat_entry s h d)" if d: "in_table s d" "h < 2" for d h
      proof -
        have "fat_entry w h d = fat_entry u h d"
        proof (rule ent_cong)
          fix k assume k: "k \<le> d + d div 2 + 1"
          have "copy_lba s h + of_nat (k div 512) \<in> table_secs s"
            using in_table_bytes(1) [OF d(1) k] d(2) by (auto simp: table_secs_def)
          then have "copy_lba s h + of_nat (k div 512) \<notin> set (cluster_sectors (of_nat c) s)"
            using cluster_not_table [OF Cons.prems(4) c(1,2)] by blast
          then show "dget (sectors (drv w)) (copy_lba w h) k = dget (sectors (drv u)) (copy_lba u h) k"
            by (simp add: dget_def w(3) cs vw vu vt)
        qed
        then show ?thesis using u(3) [of d h] d by (simp add: vt t(3))
      qed
    qed
  next
    case False
    have st: "alloc_from (map of_nat (c # ns)) s = alloc_from (map of_nat ns) t"
      using t(1) False z by simp
    have nt: "\<forall>c\<in>set ns. 2 \<le> c \<and> c < last_cluster t \<and> in_table t c"
      using Cons.prems(5) by (simp add: lc vt)
    show ?thesis
    proof (rule Cons.IH [OF _ _ gt(1,2) nt])
      fix s' assume a: "alloc_from (map of_nat ns) t = (0, s')" "same_vol t s'" "drv s' = drv t" "\<forall>c\<in>set ns. fat_entry t 0 c \<noteq> 0"
      show thesis
        by (rule Cons.prems(1) [of s']) (use a st t(2,3) False same_vol_trans et in auto)
    next
      fix d s' assume a: "alloc_from (map of_nat ns) t = (of_nat d, s')" "same_vol t s'" "d \<in> set ns" "fat_entry t 0 d = 0"
        "\<And>e h. in_table t e \<Longrightarrow> h < 2 \<Longrightarrow> fat_entry s' h e = (if e = d then 0x0FFF else fat_entry t h e)"
        "\<And>l. l \<in> set (cluster_sectors (of_nat d) t) \<Longrightarrow> sectors (drv s') l = replicate 512 0"
        "\<And>l. l \<notin> table_secs t \<Longrightarrow> l \<notin> set (cluster_sectors (of_nat d) t) \<Longrightarrow> sectors (drv s') l = sectors (drv t) l"
      have ss: "same_vol s s'" using same_vol_trans [OF t(2) a(2)] .
      show thesis
        by (rule Cons.prems(2) [of d s']) (use a ss st t(3) vt et in simp_all)
    qed
  qed
qed


subsection \<open>Names\<close>

lemma copy_base_stop:
  "0x2E \<notin> set b \<Longrightarrow> length b \<le> k \<Longrightarrow> copy_base k (b @ 0x2E # r) = (map upcase b, 0x2E # r) \<and>
    copy_base k b = (map upcase b, [])"
proof (induction b arbitrary: k)
  case Nil
  then show ?case by (cases k) simp_all
next
  case (Cons c b)
  then obtain j where "k = Suc j" by (cases k) auto
  with Cons show ?case by simp
qed

lemma upcase_range: "upcase c = 0x2E \<longleftrightarrow> c = 0x2E" "upcase (upcase c) = upcase c"
proof -
  have r: "unat (c - 32) = unat c - 32" if "0x61 \<le> c"
    using that by (subst unat_sub) (simp_all add: word_le_nat_alt)
  show "upcase c = 0x2E \<longleftrightarrow> c = 0x2E"
  proof (cases "0x61 \<le> c \<and> c \<le> 0x7A")
    case True
    then have "97 \<le> unat c" "unat (c - 32) = unat c - 32" using r by (simp_all add: word_le_nat_alt)
    then have "unat (c - 32) \<noteq> 46" by linarith
    then have "unat (c - 32) \<noteq> unat (0x2E :: u8)" by simp
    then have "c - 32 \<noteq> 0x2E" by metis
    moreover have "c \<noteq> 0x2E" using True by auto
    ultimately show ?thesis using True by (simp add: upcase_def)
  next
    case False
    then have "upcase c = c" by (simp add: upcase_def)
    then show ?thesis by simp
  qed
  show "upcase (upcase c) = upcase c"
  proof (cases "0x61 \<le> c \<and> c \<le> 0x7A")
    case True
    then have "unat c \<le> 122" "unat (c - 32) = unat c - 32" using r by (simp_all add: word_le_nat_alt)
    then have "unat (c - 32) < 97" by linarith
    then have "\<not> 0x61 \<le> c - 32" by (simp add: word_le_nat_alt)
    then show ?thesis using True by (simp add: upcase_def)
  next
    case False
    then have "upcase c = c" by (simp add: upcase_def)
    then show ?thesis by simp
  qed
qed

lemma copy_base_length: "length (fst (copy_base k nm)) \<le> k"
  by (induction k nm rule: copy_base.induct) (auto split: prod.splits)

lemma copy_base_upcase:
  "copy_base k (map upcase nm) = (fst (copy_base k nm), map upcase (snd (copy_base k nm)))"
  by (induction k nm rule: copy_base.induct) (auto simp: upcase_range split: prod.splits)

lemma length_norm_name: "length (norm_name nm) = 11"
proof -
  obtain b r where cb: "copy_base 8 nm = (b, r)" by fastforce
  then have "length b \<le> 8" using copy_base_length [of 8 nm] by simp
  then show ?thesis by (auto simp: norm_name_def cb pad_def split: list.splits)
qed

lemma norm_name_case: "norm_name (map upcase nm) = norm_name nm"
proof -
  obtain b r where cb: "copy_base 8 nm = (b, r)" by fastforce
  then have "copy_base 8 (map upcase nm) = (b, map upcase r)" by (simp add: copy_base_upcase)
  with cb show ?thesis
    by (cases r) (simp_all add: norm_name_def upcase_range take_map comp_def)
qed

subsection \<open>Properties\<close>

text \<open>\<open>norm_name\<close> always yields 11 bytes, is blind to letter case, and puts a name of the
  form base.ext (at most 8 and 3 characters) into the space-padded fields of a directory entry.\<close>

lemma norm_name_83:
  "length (norm_name nm) = 11 \<and> norm_name (map upcase nm) = norm_name nm \<and>
   (0x2E \<notin> set b \<and> length b \<le> 8 \<and> length e \<le> 3 \<longrightarrow>
      norm_name (b @ 0x2E # e) = pad 8 (map upcase b) @ pad 3 (map upcase e) \<and>
      norm_name b = pad 8 (map upcase b) @ pad 3 [])"
  using copy_base_stop [of b 8 e] length_norm_name [of nm] norm_name_case [of nm]
  by (auto simp: norm_name_def)

lemma norm_name_83_witness:
  "norm_name (map of_char ''hello.elf'') = map of_char ''HELLO   ELF''"
proof -
  have "norm_name (map of_char ''hello'' @ 0x2E # map of_char ''elf'') =
      pad 8 (map upcase (map of_char ''hello'')) @ pad 3 (map upcase (map of_char ''elf''))"
    using norm_name_83 [of "[]" "map of_char ''hello''" "map of_char ''elf''"] by simp
  moreover have "replicate 3 (0x20 :: u8) = [0x20, 0x20, 0x20]" by (simp add: numeral_3_eq_3)
  ultimately show ?thesis by (simp add: pad_def upcase_def)
qed

text \<open>C18: on a sound drive \<open>fat_set\<close> succeeds and stores the low 12 bits of the value in both copies
  of the table, also where the entry straddles two sectors: \<open>fat_get\<close> of that cluster returns it,
  \<open>fat_get\<close> of any other cluster returns what it did, and no sector outside the table changes.\<close>

theorem fat_set_get:
  assumes "good s" "geometry s" "in_table s c" "in_table s d"
  shows "\<exists>s'. fat_set (of_nat c) v s = (True, s') \<and>
    fst (fat_get (of_nat d) s') = (if d = c then ucast (v AND 0x0FFF) else fst (fat_get (of_nat d) s)) \<and>
    (\<forall>h<2. fat_entry s' h d = (if d = c then v AND 0x0FFF else fat_entry s h d)) \<and>
    (\<forall>l. l \<notin> table_secs s \<longrightarrow> sectors (drv s') l = sectors (drv s) l)"
proof -
  obtain s' where s': "fat_set (of_nat c) v s = (True, s')" "same_vol s s'"
    "\<And>d h. in_table s d \<Longrightarrow> h < 2 \<Longrightarrow> fat_entry s' h d = (if d = c then v AND 0x0FFF else fat_entry s h d)"
    "\<And>l. l \<notin> table_secs s \<Longrightarrow> sectors (drv s') l = sectors (drv s) l"
    using fat_set_spec [OF assms(1-3), of v] by blast
  have d: "d < 65536" using assms(4) by (simp add: in_table_def)
  obtain t where t: "fat_get (of_nat d) s = (ucast (fat_entry s 0 d), t)"
    by (rule fat_get_spec [OF assms(1) d]) (rule that)
  obtain u where u: "fat_get (of_nat d) s' = (ucast (fat_entry s' 0 d), u)"
    by (rule fat_get_spec [OF same_volD(1) [OF s'(2) assms(1)] d]) (rule that)
  show ?thesis
    using s' t u assms(4) by (intro exI [of _ s']) auto
qed

text \<open>A freshly formatted 1.44 MB volume.\<close>

definition blank_vol :: fat where
  "blank_vol = \<lparr>mounted = True, root_lba = 19, data_lba = 33, root_sectors = 14, fat_lba = 1, fat_sectors = 9,
     spc = 1, secbuf = replicate 512 0,
     drv = \<lparr>present = True, sectors = (\<lambda>_. replicate 512 0), rd_ok = (\<lambda>_. True), wr_ok = (\<lambda>_. True)\<rparr>\<rparr>"

lemma blank_vol:
  "good blank_vol" "geometry blank_vol" "last_cluster blank_vol = 2849" "c < 2849 \<Longrightarrow> in_table blank_vol c"
  "fat_entry blank_vol h c = 0"
proof -
  show "good blank_vol" "geometry blank_vol" "last_cluster blank_vol = 2849"
    by (simp_all add: blank_vol_def good_def geometry_def last_cluster_def)
  show "in_table blank_vol c" if "c < 2849"
  proof -
    have "(c + c div 2 + 1) div 512 < 9" using that by (intro less_mult_imp_div_less) linarith
    then show ?thesis using that by (simp add: in_table_def blank_vol_def)
  qed
  have "dget (sectors (drv blank_vol)) (copy_lba blank_vol h) = (\<lambda>_. 0)"
    by (simp add: fun_eq_iff dget_def blank_vol_def)
  then show "fat_entry blank_vol h c = 0" by (simp add: ent_def)
qed

theorem fat_set_get_witness:
  "\<exists>s'. fat_set 341 0xABC blank_vol = (True, s') \<and> fst (fat_get 341 s') = 0xABC"
  using fat_set_get [of blank_vol 341 341 "0xABC"] blank_vol by auto

text \<open>C19: on a sound volume \<open>fat_alloc_cluster\<close> returns 0 only when no cluster is free; otherwise the
  cluster it returns was free, is now marked end of chain and reads as zeros, and no other entry,
  no other data sector and nothing else on the disk has changed.\<close>

theorem alloc_cluster_fresh:
  assumes "good s" "geometry s" "table_covers s"
  shows "\<exists>c s'. fat_alloc_cluster s = (of_nat c, s') \<and> same_vol s s' \<and>
    (if c = 0 then drv s' = drv s \<and> (\<forall>d. 2 \<le> d \<longrightarrow> d < last_cluster s \<longrightarrow> fat_entry s 0 d \<noteq> 0)
     else 2 \<le> c \<and> c < last_cluster s \<and> fat_entry s 0 c = 0 \<and>
       (\<forall>d<last_cluster s. \<forall>h<2. fat_entry s' h d = (if d = c then 0x0FFF else fat_entry s h d)) \<and>
       (\<forall>l\<in>set (cluster_sectors (of_nat c) s). sectors (drv s') l = replicate 512 0) \<and>
       (\<forall>l. l \<notin> table_secs s \<longrightarrow> l \<notin> set (cluster_sectors (of_nat c) s) \<longrightarrow> sectors (drv s') l = sectors (drv s) l))"
proof -
  have r: "fat_alloc_cluster s = alloc_from (map of_nat [2 ..< last_cluster s]) s"
    by (simp only: fat_alloc_cluster_def all_clusters_range [OF assms(2)])
  have t: "\<forall>c\<in>set [2 ..< last_cluster s]. 2 \<le> c \<and> c < last_cluster s \<and> in_table s c"
    using assms(3) by (simp add: table_covers_def)
  show ?thesis
  proof (rule alloc_from_spec [OF assms(1,2) t])
    fix s' assume "alloc_from (map of_nat [2 ..< last_cluster s]) s = (0, s')" "same_vol s s'" "drv s' = drv s"
      "\<forall>c\<in>set [2 ..< last_cluster s]. fat_entry s 0 c \<noteq> 0"
    then show ?thesis by (intro exI [of _ 0] exI [of _ s']) (simp add: r)
  next
    fix c s' assume a: "alloc_from (map of_nat [2 ..< last_cluster s]) s = (of_nat c, s')" "same_vol s s'"
      "c \<in> set [2 ..< last_cluster s]" "fat_entry s 0 c = 0"
      "\<And>d h. in_table s d \<Longrightarrow> h < 2 \<Longrightarrow> fat_entry s' h d = (if d = c then 0x0FFF else fat_entry s h d)"
      "\<And>l. l \<in> set (cluster_sectors (of_nat c) s) \<Longrightarrow> sectors (drv s') l = replicate 512 0"
      "\<And>l. l \<notin> table_secs s \<Longrightarrow> l \<notin> set (cluster_sectors (of_nat c) s) \<Longrightarrow> sectors (drv s') l = sectors (drv s) l"
    then show ?thesis
      using assms(3) by (intro exI [of _ c] exI [of _ s']) (simp add: r table_covers_def)
  qed
qed

theorem alloc_cluster_fresh_witness:
  "\<exists>c s'. fat_alloc_cluster blank_vol = (of_nat c, s') \<and> c \<noteq> 0 \<and> fat_entry s' 1 c = 0x0FFF"
proof -
  have t: "table_covers blank_vol" using blank_vol(3,4) by (simp add: table_covers_def)
  obtain c s' where c: "fat_alloc_cluster blank_vol = (of_nat c, s')"
    "if c = 0 then drv s' = drv blank_vol \<and> (\<forall>d. 2 \<le> d \<longrightarrow> d < last_cluster blank_vol \<longrightarrow> fat_entry blank_vol 0 d \<noteq> 0)
     else 2 \<le> c \<and> c < last_cluster blank_vol \<and> fat_entry blank_vol 0 c = 0 \<and>
       (\<forall>d<last_cluster blank_vol. \<forall>h<2. fat_entry s' h d = (if d = c then 0x0FFF else fat_entry blank_vol h d)) \<and>
       (\<forall>l\<in>set (cluster_sectors (of_nat c) blank_vol). sectors (drv s') l = replicate 512 0) \<and>
       (\<forall>l. l \<notin> table_secs blank_vol \<longrightarrow> l \<notin> set (cluster_sectors (of_nat c) blank_vol) \<longrightarrow>
          sectors (drv s') l = sectors (drv blank_vol) l)"
    using alloc_cluster_fresh [OF blank_vol(1,2) t] by (elim exE conjE) (rule that)
  have "c \<noteq> 0"
  proof
    assume "c = 0"
    then have "\<forall>d. 2 \<le> d \<longrightarrow> d < 2849 \<longrightarrow> fat_entry blank_vol 0 d \<noteq> 0" using c(2) by (simp only: if_True blank_vol(3) refl) (elim conjE)
    then have "fat_entry blank_vol 0 2 \<noteq> 0" by simp
    then show False by (simp only: blank_vol(5))
  qed
  moreover from this have "c < last_cluster blank_vol" "\<forall>d<last_cluster blank_vol. \<forall>h<2.
      fat_entry s' h d = (if d = c then 0x0FFF else fat_entry blank_vol h d)"
    using c(2) by (simp_all only: if_False) (elim conjE, assumption)+
  then have "fat_entry s' 1 c = 0x0FFF" by simp
  ultimately show ?thesis using c(1) by (intro exI [of _ c] exI [of _ s'] conjI)
qed

text \<open>C20: \<open>fat_free_chain\<close> started on a cluster releases exactly the clusters of its chain: their
  entries become free in both copies of the table, all other entries and all other sectors stay.\<close>

theorem free_chain_releases:
  assumes "good s" "geometry s" "chain (fat_entry s 0) c cs" "\<forall>x\<in>set cs. in_table s x" "length cs \<le> 65536" "c < 65536"
  shows "same_vol s (fat_free_chain (of_nat c) s) \<and>
    (\<forall>d h. in_table s d \<longrightarrow> h < 2 \<longrightarrow>
       fat_entry (fat_free_chain (of_nat c) s) h d = (if d \<in> set cs then 0 else fat_entry s h d)) \<and>
    (\<forall>l. l \<notin> table_secs s \<longrightarrow> sectors (drv (fat_free_chain (of_nat c) s)) l = sectors (drv s) l)"
proof -
  obtain s' where "free_chain 65536 (of_nat c) s = s'" "same_vol s s'"
    "\<And>d h. in_table s d \<Longrightarrow> h < 2 \<Longrightarrow> fat_entry s' h d = (if d \<in> set cs then 0 else fat_entry s h d)"
    "\<And>l. l \<notin> table_secs s \<Longrightarrow> sectors (drv s') l = sectors (drv s) l"
    by (rule free_chain_spec [OF assms]) (rule that)
  then show ?thesis by (simp add: fat_free_chain_def)
qed

theorem free_chain_releases_witness:
  "\<exists>s. fat_set 2 0x0FFF blank_vol = (True, s) \<and> fat_entry s 1 2 = 0x0FFF \<and> fat_entry (fat_free_chain 2 s) 1 2 = 0"
proof -
  have i: "in_table blank_vol 2" using blank_vol(4) [of 2] by simp
  obtain s where s: "fat_set (of_nat 2) 0x0FFF blank_vol = (True, s)" "same_vol blank_vol s"
    "\<And>d h. in_table blank_vol d \<Longrightarrow> h < 2 \<Longrightarrow>
       fat_entry s h d = (if d = 2 then 0x0FFF AND 0x0FFF else fat_entry blank_vol h d)"
    by (rule fat_set_spec [OF blank_vol(1,2) i]) (rule that)
  note v = same_volD [OF s(2)]
  have e: "fat_entry s h 2 = 0x0FFF" if "h < 2" for h using s(3) [OF i that] by simp
  have h: "chain (fat_entry s 0) 2 [2]" "\<forall>x\<in>set [2]. in_table s x"
    using e [of 0] i v(3) by simp_all
  have "good s" "geometry s" using v blank_vol by simp_all
  from free_chain_releases [OF this h] have "fat_entry (fat_free_chain (of_nat 2) s) 1 2 = 0"
    using i v(3) by simp
  then show ?thesis using s(1) e [of 1] by (intro exI [of _ s]) simp
qed

end
