(* ===== verification/PortIO.thy ===== *)
theory PortIO
  imports NovaPrelude "HOL-Library.State_Monad"
begin

section \<open>Port-mapped devices (kernel/io.h, irq.c, timer.c, serial.c, ata.c)\<close>

text \<open>
  The drivers that talk to hardware through \<open>in\<close> and \<open>out\<close> instructions.  The hardware is not
  part of the program: a device is a function of everything done to it so far, the list of
  port accesses, and the drivers are computations in the state monad over that list, so a
  status register may give a different answer at every poll.  What a property needs from a
  device is a hypothesis about this function.
\<close>

datatype ioev = InB u16 | OutB u16 u8 | InW u16 | OutW u16 u16

record device =
  rd8 :: "ioev list \<Rightarrow> u16 \<Rightarrow> u8"
  rd16 :: "ioev list \<Rightarrow> u16 \<Rightarrow> u16"

type_synonym 'a io = "(ioev list, 'a) state"

definition inb :: "device \<Rightarrow> u16 \<Rightarrow> u8 io" where
  "inb dev p = State (\<lambda>h. (rd8 dev h p, h @ [InB p]))"

definition outb :: "u16 \<Rightarrow> u8 \<Rightarrow> unit io" where
  "outb p v = State (\<lambda>h. ((), h @ [OutB p v]))"

definition inw :: "device \<Rightarrow> u16 \<Rightarrow> u16 io" where
  "inw dev p = State (\<lambda>h. (rd16 dev h p, h @ [InW p]))"

definition outw :: "u16 \<Rightarrow> u16 \<Rightarrow> unit io" where
  "outw p v = State (\<lambda>h. ((), h @ [OutW p v]))"

definition io_wait :: "unit io" where
  "io_wait = outb 0x80 0"

named_theorems io_simps \<open>running the port primitives\<close>

lemma run_inb [io_simps]: "run_state (inb dev p) h = (rd8 dev h p, h @ [InB p])"
  by (simp add: inb_def)

lemma run_outb [io_simps]: "run_state (outb p v) h = ((), h @ [OutB p v])"
  by (simp add: outb_def)

lemma run_inw [io_simps]: "run_state (inw dev p) h = (rd16 dev h p, h @ [InW p])"
  by (simp add: inw_def)

lemma run_outw [io_simps]: "run_state (outw p v) h = ((), h @ [OutW p v])"
  by (simp add: outw_def)

lemma run_io_wait [io_simps]: "run_state io_wait h = ((), h @ [OutB 0x80 0])"
  by (simp add: io_wait_def io_simps)

subsection \<open>The 8259 interrupt controllers (irq.c)\<close>

definition PIC1_CMD :: u16 where "PIC1_CMD = 0x20"
definition PIC1_DATA :: u16 where "PIC1_DATA = 0x21"
definition PIC2_CMD :: u16 where "PIC2_CMD = 0xA0"
definition PIC2_DATA :: u16 where "PIC2_DATA = 0xA1"

definition pic_init :: "unit io" where
  "pic_init = do {
     outb PIC1_CMD 0x11; io_wait;
     outb PIC2_CMD 0x11; io_wait;
     outb PIC1_DATA 0x20; io_wait;
     outb PIC2_DATA 0x28; io_wait;
     outb PIC1_DATA 0x04; io_wait;
     outb PIC2_DATA 0x02; io_wait;
     outb PIC1_DATA 0x01; io_wait;
     outb PIC2_DATA 0x01; io_wait;
     outb PIC1_DATA 0xFF;
     outb PIC2_DATA 0xFF }"

definition pic_eoi :: "u8 \<Rightarrow> unit io" where
  "pic_eoi irq = do {
     (if 8 \<le> irq then outb PIC2_CMD 0x20 else State_Monad.return ());
     outb PIC1_CMD 0x20 }"

definition irq_port :: "u8 \<Rightarrow> u16" where
  "irq_port irq = (if irq < 8 then PIC1_DATA else PIC2_DATA)"

definition irq_bit :: "u8 \<Rightarrow> u8" where
  "irq_bit irq = (if irq < 8 then irq else irq - 8)"

definition irq_enable :: "device \<Rightarrow> u8 \<Rightarrow> unit io" where
  "irq_enable dev irq = do {
     mask \<leftarrow> inb dev (irq_port irq);
     outb (irq_port irq) (mask AND NOT (push_bit (unat (irq_bit irq)) 1)) }"

definition irq_disable :: "device \<Rightarrow> u8 \<Rightarrow> unit io" where
  "irq_disable dev irq = do {
     mask \<leftarrow> inb dev (irq_port irq);
     outb (irq_port irq) (mask OR push_bit (unat (irq_bit irq)) 1) }"

subsection \<open>The interval timer (timer.c)\<close>

record timer =
  ticks :: u32
  freq :: u32

text \<open>\<open>None\<close> is the divide error of \<open>timer_init(0)\<close>.\<close>

definition timer_init :: "device \<Rightarrow> u32 \<Rightarrow> timer \<Rightarrow> timer io option" where
  "timer_init dev hz t =
     (if hz = 0 then None
      else let divisor = 1193180 div hz
           in Some (do {
                outb 0x43 0x36;
                outb 0x40 (ucast (divisor AND 0xFF));
                outb 0x40 (ucast (drop_bit 8 divisor AND 0xFF));
                irq_enable dev 0;
                State_Monad.return (t\<lparr>freq := hz\<rparr>) }))"

definition timer_tick :: "timer \<Rightarrow> timer" where
  "timer_tick t = t\<lparr>ticks := ticks t + 1\<rparr>"

definition timer_ticks :: "timer \<Rightarrow> u32" where
  "timer_ticks t = ticks t"

text \<open>\<open>timer_wait\<close> halts until the next interrupt; the recursion takes the ticks that arrive
  one by one, so \<open>None\<close> would be a wait that never ends.\<close>

partial_function (option) wait_until :: "u32 \<Rightarrow> timer \<Rightarrow> timer option" where
  "wait_until target t = (if ticks t < target then wait_until target (timer_tick t) else Some t)"

definition timer_wait :: "u32 \<Rightarrow> timer \<Rightarrow> timer option" where
  "timer_wait n t = wait_until (ticks t + n) t"

subsection \<open>The serial port (serial.c)\<close>

definition COM1 :: u16 where "COM1 = 0x3F8"

definition serial_ready_tx :: "device \<Rightarrow> bool io" where
  "serial_ready_tx dev = do { s \<leftarrow> inb dev (COM1 + 5); State_Monad.return (s AND 0x20 \<noteq> 0) }"

definition serial_init :: "unit io" where
  "serial_init = do {
     outb (COM1 + 1) 0x00; outb (COM1 + 3) 0x80; outb (COM1 + 0) 0x03; outb (COM1 + 1) 0x00;
     outb (COM1 + 3) 0x03; outb (COM1 + 2) 0xC7; outb (COM1 + 4) 0x0B }"

primrec wait_tx :: "device \<Rightarrow> nat \<Rightarrow> unit io" where
  "wait_tx dev 0 = State_Monad.return ()"
| "wait_tx dev (Suc n) = do {
     r \<leftarrow> serial_ready_tx dev;
     if r then State_Monad.return () else wait_tx dev n }"

definition serial_putc :: "device \<Rightarrow> u8 \<Rightarrow> unit io" where
  "serial_putc dev c = do { wait_tx dev 100000; outb COM1 c }"

primrec serial_write :: "device \<Rightarrow> u8 list \<Rightarrow> unit io" where
  "serial_write dev [] = State_Monad.return ()"
| "serial_write dev (c # cs) = do { serial_putc dev c; serial_write dev cs }"

definition serial_getc :: "device \<Rightarrow> int io" where
  "serial_getc dev = do {
     s \<leftarrow> inb dev (COM1 + 5);
     if s AND 0x01 = 0 then State_Monad.return (-1)
     else do { c \<leftarrow> inb dev COM1; State_Monad.return (uint c) } }"

subsection \<open>The ATA disk (ata.c)\<close>

definition ATA :: u16 where "ATA = 0x170"

primrec poll_busy :: "device \<Rightarrow> nat \<Rightarrow> unit io" where
  "poll_busy dev 0 = State_Monad.return ()"
| "poll_busy dev (Suc n) = do {
     s \<leftarrow> inb dev (ATA + 7);
     if s AND 0x80 = 0 then State_Monad.return () else poll_busy dev n }"

definition ata_poll_busy :: "device \<Rightarrow> unit io" where
  "ata_poll_busy dev = poll_busy dev 2000000"

primrec poll_ready :: "device \<Rightarrow> nat \<Rightarrow> unit io" where
  "poll_ready dev 0 = State_Monad.return ()"
| "poll_ready dev (Suc n) = do {
     s \<leftarrow> inb dev (ATA + 7);
     if s AND 0x80 = 0 \<and> s AND 0x40 \<noteq> 0 then State_Monad.return () else poll_ready dev n }"

text \<open>The result is the new \<open>ata_present\<close>.\<close>

definition ata_init :: "device \<Rightarrow> bool io" where
  "ata_init dev = do {
     outb (ATA + 6) 0xE0;
     io_wait;
     ata_poll_busy dev;
     s \<leftarrow> inb dev (ATA + 7);
     State_Monad.return (s \<noteq> 0xFF) }"

definition ata_command :: "u32 \<Rightarrow> u8 \<Rightarrow> unit io" where
  "ata_command lba cmd = do {
     outb (ATA + 6) (ucast (0xE0 OR (drop_bit 24 lba AND 0x0F)));
     outb (ATA + 2) 1;
     outb (ATA + 3) (ucast (lba AND 0xFF));
     outb (ATA + 4) (ucast (drop_bit 8 lba AND 0xFF));
     outb (ATA + 5) (ucast (drop_bit 16 lba AND 0xFF));
     outb (ATA + 7) cmd }"

text \<open>\<open>rep insw\<close> and \<open>rep outsw\<close>, with the byte order of memory.\<close>

primrec insw :: "device \<Rightarrow> nat \<Rightarrow> u8 list io" where
  "insw dev 0 = State_Monad.return []"
| "insw dev (Suc n) = do {
     w \<leftarrow> inw dev ATA;
     bs \<leftarrow> insw dev n;
     State_Monad.return (ucast w # ucast (drop_bit 8 w) # bs) }"

fun outsw :: "u8 list \<Rightarrow> unit io" where
  "outsw (lo # hi # bs) = do { outw ATA (ucast lo OR push_bit 8 (ucast hi)); outsw bs }"
| "outsw _ = State_Monad.return ()"

text \<open>\<open>None\<close> is the C result 0: the buffer keeps its contents.\<close>

definition ata_read_sector :: "bool \<Rightarrow> device \<Rightarrow> u32 \<Rightarrow> u8 list option io" where
  "ata_read_sector present dev lba =
     (if \<not> present then State_Monad.return None
      else do {
        ata_command lba 0x20;
        ata_poll_busy dev;
        s \<leftarrow> inb dev (ATA + 7);
        if s AND 0x01 \<noteq> 0 then State_Monad.return None
        else do { bs \<leftarrow> insw dev 256; State_Monad.return (Some bs) } })"

definition ata_write_sector :: "bool \<Rightarrow> device \<Rightarrow> u32 \<Rightarrow> u8 list \<Rightarrow> bool io" where
  "ata_write_sector present dev lba bs =
     (if \<not> present then State_Monad.return False
      else do {
        ata_poll_busy dev;
        poll_ready dev 2000000;
        ata_command lba 0x30;
        outsw bs;
        outb (ATA + 7) 0xE7;
        ata_poll_busy dev;
        s \<leftarrow> inb dev (ATA + 7);
        State_Monad.return (s AND 0x01 = 0) })"


subsection \<open>Reading the history of a device\<close>

fun last_out :: "u16 \<Rightarrow> ioev list \<Rightarrow> u8" where
  "last_out p [] = 0"
| "last_out p (OutB q v # es) = (if q = p then v else last_out p es)"
| "last_out p (_ # es) = last_out p es"

text \<open>The value last written to a port, and the bytes written to it.\<close>

definition port_val :: "ioev list \<Rightarrow> u16 \<Rightarrow> u8" where
  "port_val h p = last_out p (rev h)"

fun sent :: "u16 \<Rightarrow> ioev list \<Rightarrow> u8 list" where
  "sent p [] = []"
| "sent p (OutB q v # es) = (if q = p then v # sent p es else sent p es)"
| "sent p (_ # es) = sent p es"

fun sent_words :: "u16 \<Rightarrow> ioev list \<Rightarrow> u16 list" where
  "sent_words p [] = []"
| "sent_words p (OutW q v # es) = (if q = p then v # sent_words p es else sent_words p es)"
| "sent_words p (_ # es) = sent_words p es"

lemma sent_append [io_simps]: "sent p (h @ h') = sent p h @ sent p h'"
  by (induction p h rule: sent.induct) auto

lemma sent_words_append [io_simps]: "sent_words p (h @ h') = sent_words p h @ sent_words p h'"
  by (induction p h rule: sent_words.induct) auto

lemma port_val_app [io_simps]:
  "port_val (h @ [OutB q v]) p = (if q = p then v else port_val h p)"
  "port_val (h @ [InB q]) p = port_val h p"
  "port_val (h @ [InW q]) p = port_val h p"
  "port_val (h @ [OutW q w]) p = port_val h p"
  by (simp_all add: port_val_def)

lemma port_val_inputs:
  "port_val (h @ replicate k (InB q)) p = port_val h p"
  "port_val (h @ replicate k (InW q)) p = port_val h p"
proof (induction k)
  case (Suc k)
  have "h @ replicate (Suc k) e = (h @ replicate k e) @ [e]" for e :: ioev
    by (simp add: replicate_append_same)
  with Suc show
    "port_val (h @ replicate (Suc k) (InB q)) p = port_val h p"
    "port_val (h @ replicate (Suc k) (InW q)) p = port_val h p"
    by (simp_all only: port_val_app)
qed simp_all

lemma sent_inputs [io_simps]: "sent p (replicate k (InB q)) = []"
  by (induction k) simp_all

lemma sent_words_inputs [io_simps]: "sent_words p (replicate k (InB q)) = []"
  by (induction k) simp_all

lemma io_assoc:
  fixes h :: "ioev list"
  shows "(h @ xs) @ ys = h @ xs @ ys"
  by simp

subsection \<open>Interrupt lines\<close>

lemma bit_clear_set:
  assumes "n < 8"
  shows "bit (m AND NOT (push_bit k 1) :: u8) n \<longleftrightarrow> bit m n \<and> n \<noteq> k"
    and "bit (m OR push_bit k 1 :: u8) n \<longleftrightarrow> bit m n \<or> n = k"
  using assms by (auto simp: bit_simps simp del: push_bit_of_1)

lemma irq_enable_run:
  "run_state (irq_enable dev irq) h =
     ((), h @ [InB (irq_port irq), OutB (irq_port irq)
        (rd8 dev h (irq_port irq) AND NOT (push_bit (unat (irq_bit irq)) 1))])"
  by (simp add: irq_enable_def io_simps)

lemma irq_disable_run:
  "run_state (irq_disable dev irq) h =
     ((), h @ [InB (irq_port irq), OutB (irq_port irq)
        (rd8 dev h (irq_port irq) OR push_bit (unat (irq_bit irq)) 1)])"
  by (simp add: irq_disable_def io_simps)

lemma unat_irq_bit: "irq < 16 \<Longrightarrow> unat (irq_bit irq) = unat irq mod 8"
proof -
  assume "irq < 16"
  then have n: "unat irq < 16" by (simp add: word_less_nat_alt)
  show ?thesis
  proof (cases "irq < 8")
    case True
    then have "unat irq < 8" by (simp add: word_less_nat_alt)
    with True show ?thesis by (simp add: irq_bit_def)
  next
    case False
    then have "8 \<le> irq" by simp
    then have "unat (irq - 8) = unat irq - 8" "8 \<le> unat irq"
      by (simp_all add: unat_sub word_le_nat_alt)
    moreover have "unat irq - 8 = unat irq mod 8"
      using n calculation(2) by (simp add: mod_if)
    ultimately show ?thesis using False by (simp add: irq_bit_def)
  qed
qed

text \<open>The mask registers of the two controllers as the drivers last wrote them; a device that
  reads back what was written to its mask register, as the 8259 does.\<close>

definition masked :: "ioev list \<Rightarrow> nat \<Rightarrow> bool" where
  "masked h n = bit (port_val h (if n < 8 then PIC1_DATA else PIC2_DATA)) (n mod 8)"

definition pic_device :: "device \<Rightarrow> bool" where
  "pic_device dev \<longleftrightarrow> (\<forall>h. rd8 dev h PIC1_DATA = port_val h PIC1_DATA \<and>
                          rd8 dev h PIC2_DATA = port_val h PIC2_DATA)"

lemmas pic_ports = PIC1_CMD_def PIC1_DATA_def PIC2_CMD_def PIC2_DATA_def

lemma masked_pic_init: "masked (snd (run_state pic_init h)) n"
proof -
  have "(0xFF :: u8) = - 1"
    by simp
  then have "bit (0xFF :: u8) (n mod 8)"
    by (simp only: bit_minus_1_iff) simp
  then show ?thesis
    by (simp add: pic_init_def masked_def io_simps pic_ports port_val_def)
qed

lemma masked_after:
  assumes "pic_device dev" and "irq < 16" and "n < 16"
  shows "masked (snd (run_state (irq_enable dev irq) h)) n \<longleftrightarrow> masked h n \<and> n \<noteq> unat irq"
    and "masked (snd (run_state (irq_disable dev irq) h)) n \<longleftrightarrow> masked h n \<or> n = unat irq"
proof -
  have i: "unat irq < 16" "irq < 8 \<longleftrightarrow> unat irq < 8"
    using assms(2) by (simp_all add: word_less_nat_alt)
  have same: "n mod 8 = unat irq mod 8 \<longleftrightarrow> n = unat irq" if "(n < 8) = (unat irq < 8)"
    using that i assms(3) by (auto simp: mod_if split: if_splits)
  have rd: "rd8 dev h (irq_port irq) = port_val h (irq_port irq)"
    using assms(1) by (simp add: pic_device_def irq_port_def)
  have p: "irq_port irq = (if n < 8 then PIC1_DATA else PIC2_DATA) \<longleftrightarrow> (n < 8) = (unat irq < 8)"
    using i by (simp add: irq_port_def pic_ports)
  have new: "port_val (h @ [InB q, OutB q v]) r = (if q = r then v else port_val h r)" for q v r
  proof -
    have "h @ [InB q, OutB q v] = (h @ [InB q]) @ [OutB q v]"
      by simp
    then show ?thesis
      by (simp only: port_val_app)
  qed
  note en = irq_enable_run [of dev irq h] irq_disable_run [of dev irq h]
  have b: "n mod 8 < 8"
    by simp
  let ?en = "masked (snd (run_state (irq_enable dev irq) h)) n \<longleftrightarrow> masked h n \<and> n \<noteq> unat irq"
  let ?dis = "masked (snd (run_state (irq_disable dev irq) h)) n \<longleftrightarrow> masked h n \<or> n = unat irq"
  have "?en \<and> ?dis"
  proof (cases "(n < 8) = (unat irq < 8)")
    case True
    then have q: "(if n < 8 then PIC1_DATA else PIC2_DATA) = irq_port irq"
      using p by simp
    show ?thesis
      unfolding masked_def q en snd_conv new simp_thms if_True rd unat_irq_bit [OF assms(2)] bit_clear_set [OF b]
      using same [OF True] by simp
  next
    case False
    then have q: "irq_port irq \<noteq> (if n < 8 then PIC1_DATA else PIC2_DATA)" and ne: "n \<noteq> unat irq"
      using p by auto
    show ?thesis
      unfolding masked_def en snd_conv new using q ne by (simp only: if_False simp_thms)
  qed
  then show ?en and ?dis
    by blast+
qed


subsection \<open>Polling loops only read\<close>

lemma poll_busy_run: "\<exists>k. run_state (poll_busy dev n) h = ((), h @ replicate k (InB (ATA + 7)))"
proof (induction n arbitrary: h)
  case 0
  show ?case by (auto intro: exI [of _ 0])
next
  case (Suc n)
  obtain k where "run_state (poll_busy dev n) (h @ [InB (ATA + 7)]) =
      ((), (h @ [InB (ATA + 7)]) @ replicate k (InB (ATA + 7)))"
    using Suc by blast
  then show ?case
    by (auto simp: io_simps split: if_splits intro: exI [of _ 1] exI [of _ "Suc k"])
qed

lemma poll_ready_run: "\<exists>k. run_state (poll_ready dev n) h = ((), h @ replicate k (InB (ATA + 7)))"
proof (induction n arbitrary: h)
  case 0
  show ?case by (auto intro: exI [of _ 0])
next
  case (Suc n)
  obtain k where "run_state (poll_ready dev n) (h @ [InB (ATA + 7)]) =
      ((), (h @ [InB (ATA + 7)]) @ replicate k (InB (ATA + 7)))"
    using Suc by blast
  then show ?case
    by (auto simp: io_simps split: if_splits intro: exI [of _ 1] exI [of _ "Suc k"])
qed

lemma wait_tx_run: "\<exists>k. run_state (wait_tx dev n) h = ((), h @ replicate k (InB (COM1 + 5)))"
proof (induction n arbitrary: h)
  case 0
  show ?case by (auto intro: exI [of _ 0])
next
  case (Suc n)
  obtain k where "run_state (wait_tx dev n) (h @ [InB (COM1 + 5)]) =
      ((), (h @ [InB (COM1 + 5)]) @ replicate k (InB (COM1 + 5)))"
    using Suc by blast
  then show ?case
    by (auto simp: io_simps serial_ready_tx_def split: if_splits intro: exI [of _ 1] exI [of _ "Suc k"])
qed

lemma serial_putc_run:
  obtains k where "run_state (serial_putc dev c) h = ((), h @ replicate k (InB (COM1 + 5)) @ [OutB COM1 c])"
proof -
  obtain k where "run_state (wait_tx dev 100000) h = ((), h @ replicate k (InB (COM1 + 5)))"
    using wait_tx_run by blast
  then show ?thesis
    using that by (simp add: serial_putc_def io_simps)
qed

lemma serial_write_run:
  "\<exists>h'. run_state (serial_write dev cs) h = ((), h @ h') \<and> sent COM1 h' = cs \<and>
     (\<forall>e \<in> set h'. e = InB (COM1 + 5) \<or> e \<in> OutB COM1 ` set cs)"
proof (induction cs arbitrary: h)
  case Nil
  show ?case by simp
next
  case (Cons c cs)
  obtain k where k: "run_state (serial_putc dev c) h =
      ((), h @ replicate k (InB (COM1 + 5)) @ [OutB COM1 c])"
    by (rule serial_putc_run)
  obtain h' where h': "run_state (serial_write dev cs) (h @ replicate k (InB (COM1 + 5)) @ [OutB COM1 c]) =
      ((), (h @ replicate k (InB (COM1 + 5)) @ [OutB COM1 c]) @ h')" "sent COM1 h' = cs"
      "\<forall>e \<in> set h'. e = InB (COM1 + 5) \<or> e \<in> OutB COM1 ` set cs"
    using Cons by meson
  show ?case
    by (rule exI [of _ "replicate k (InB (COM1 + 5)) @ [OutB COM1 c] @ h'"])
      (use k h' in \<open>auto simp: io_simps\<close>)
qed

subsection \<open>The disk\<close>

text \<open>The sector a drive is addressed at, and the words read since the last command.\<close>

definition lba_of :: "ioev list \<Rightarrow> nat" where
  "lba_of h = unat (port_val h (ATA + 3)) + 256 * unat (port_val h (ATA + 4)) +
     65536 * unat (port_val h (ATA + 5)) + 16777216 * (unat (port_val h (ATA + 6)) mod 16)"

fun words_since :: "ioev list \<Rightarrow> nat" where
  "words_since [] = 0"
| "words_since (InW q # es) = (if q = ATA then Suc (words_since es) else words_since es)"
| "words_since (OutB q v # es) = (if q = ATA + 7 then 0 else words_since es)"
| "words_since (_ # es) = words_since es"

definition words_read :: "ioev list \<Rightarrow> nat" where
  "words_read h = words_since (rev h)"

text \<open>A drive that answers a READ SECTORS command with the words of the addressed sector.\<close>

definition ata_disk :: "device \<Rightarrow> (nat \<Rightarrow> u16 list) \<Rightarrow> bool" where
  "ata_disk dev sec \<longleftrightarrow> (\<forall>h. port_val h (ATA + 7) = 0x20 \<longrightarrow>
     rd8 dev h (ATA + 7) AND 0x01 = 0 \<and>
     (words_read h < 256 \<longrightarrow> rd16 dev h ATA = sec (lba_of h) ! words_read h))"

fun word_bytes :: "u16 list \<Rightarrow> u8 list" where
  "word_bytes [] = []"
| "word_bytes (w # ws) = ucast w # ucast (drop_bit 8 w) # word_bytes ws"

lemma words_read_app [io_simps]:
  "words_read (h @ [InW q]) = (if q = ATA then Suc (words_read h) else words_read h)"
  "words_read (h @ [OutB q v]) = (if q = ATA + 7 then 0 else words_read h)"
  "words_read (h @ [InB q]) = words_read h"
  by (simp_all add: words_read_def)

lemma words_read_inputs: "words_read (h @ replicate k (InB q)) = words_read h"
proof (induction k)
  case (Suc k)
  have "h @ replicate (Suc k) (InB q) = (h @ replicate k (InB q)) @ [InB q]"
    by (simp add: replicate_append_same)
  with Suc show ?case by (simp only: words_read_app)
qed simp

lemma lba_of_inputs:
  "lba_of (h @ replicate k (InB q)) = lba_of h" "lba_of (h @ [InB q]) = lba_of h"
  "lba_of (h @ [InW q]) = lba_of h"
  by (simp_all add: lba_of_def port_val_inputs port_val_app)

lemma nat_lba:
  fixes n :: nat
  shows "n mod 256 + 256 * (n div 256 mod 256) + 65536 * (n div 65536 mod 256) +
    16777216 * (n div 16777216 mod 16) = n mod 268435456"
proof -
  have "n mod 268435456 = n mod (256 * (256 * (256 * 16)))"
    by simp
  also have "\<dots> = 256 * (n div 256 mod (256 * (256 * 16))) + n mod 256"
    by (rule mod_mult2_eq)
  also have "n div 256 mod (256 * (256 * 16)) = 256 * (n div 256 div 256 mod (256 * 16)) + n div 256 mod 256"
    by (rule mod_mult2_eq)
  also have "n div 256 div 256 mod (256 * 16) = 256 * (n div 256 div 256 div 256 mod 16) + n div 256 div 256 mod 256"
    by (rule mod_mult2_eq)
  also have "n div 256 div 256 = n div 65536"
    by (simp flip: div_mult2_eq)
  also have "n div 65536 div 256 = n div 16777216"
    by (simp flip: div_mult2_eq)
  also have "256 * (256 * (256 * d + c) + b) + a = a + 256 * b + 65536 * c + 16777216 * d"
    for a b c d :: nat
    by simp
  finally show ?thesis
    by (rule sym)
qed

lemma unat_low_byte: "unat (ucast (x AND 0xFF :: u32) :: u8) = unat x mod 256"
proof -
  have "x AND 0xFF = (take_bit 8 x :: u32)"
    by (simp only: take_bit_eq_mask) (simp add: mask_eq_exp_minus_1)
  then show ?thesis
    by (simp only: unsigned_ucast_eq unat_low) (simp add: take_bit_eq_mod)
qed

lemma nat_less_4: "n < 4 \<Longrightarrow> n = 0 \<or> n = 1 \<or> n = 2 \<or> n = (3 :: nat)"
  by linarith

lemma unat_drive_reg:
  "unat (ucast (0xE0 OR (x AND 0x0F :: u32)) :: u8) mod 16 = unat x mod 16"
proof -
  have e: "take_bit 4 (ucast (0xE0 OR (x AND 0x0F)) :: u8) = ucast (take_bit 4 x)"
    by (rule bit_word_eqI) (auto simp: bit_simps mask_eq_exp_minus_1 dest!: nat_less_4)
  have low: "unat y mod 16 = unat (take_bit 4 y)" for y :: u8
    by (simp add: unat_low)
  have small: "unat (ucast (take_bit 4 x) :: u8) = unat x mod 16"
    by (simp only: unsigned_ucast_eq unat_low) (simp add: take_bit_eq_mod)
  show ?thesis
    by (simp only: low e small)
qed


lemma ata_command_run:
  "\<exists>h'. run_state (ata_command lba cmd) h = ((), h') \<and> lba_of h' = unat lba mod 268435456 \<and>
     port_val h' (ATA + 7) = cmd \<and> port_val h' (ATA + 2) = 1 \<and> words_read h' = 0 \<and>
     sent_words ATA h' = sent_words ATA h"
proof -
  have split: "h @ a # b # es = (h @ [a]) @ b # es" "h @ (a # b # es) = (h @ [a]) @ (b # es)"
    for h es and a b :: ioev
    by simp_all
  have r: "run_state (ata_command lba cmd) h = ((), (((((h @
      [OutB (ATA + 6) (ucast (0xE0 OR (drop_bit 24 lba AND 0x0F)))]) @
      [OutB (ATA + 2) 1]) @ [OutB (ATA + 3) (ucast (lba AND 0xFF))]) @
      [OutB (ATA + 4) (ucast (drop_bit 8 lba AND 0xFF))]) @
      [OutB (ATA + 5) (ucast (drop_bit 16 lba AND 0xFF))]) @ [OutB (ATA + 7) cmd])"
    by (simp add: ata_command_def io_simps)
  have p: "ATA + 7 \<noteq> ATA + k" "ATA + 6 \<noteq> ATA + l" "ATA + 5 \<noteq> ATA + 4" "ATA + 5 \<noteq> ATA + 3"
    "ATA + 5 \<noteq> ATA + 2" "ATA + 4 \<noteq> ATA + 3" "ATA + 4 \<noteq> ATA + 2" "ATA + 3 \<noteq> ATA + 2"
    if "k \<in> {2, 3, 4, 5, 6}" "l \<in> {2, 3, 4, 5}" for k l
    using that by (auto simp: ATA_def)
  have l: "unat (drop_bit k lba) = unat lba div 2 ^ k" for k
    by (rule unat_shr)
  show ?thesis
    by (rule exI, rule conjI, rule r)
      (simp add: lba_of_def port_val_app words_read_app p unat_low_byte unat_drive_reg l
        nat_lba [symmetric] sent_words_append del: append_assoc)
qed

lemma insw_run:
  assumes "ata_disk dev sec" and "port_val h (ATA + 7) = 0x20" and "words_read h + n \<le> 256"
  shows "run_state (insw dev n) h =
    (word_bytes (map (\<lambda>i. sec (lba_of h) ! (words_read h + i)) [0 ..< n]), h @ replicate n (InW ATA))"
  using assms(2,3)
proof (induction n arbitrary: h)
  case (Suc n)
  let ?h = "h @ [InW ATA]"
  have w: "rd16 dev h ATA = sec (lba_of h) ! words_read h"
    using assms(1) Suc.prems by (simp add: ata_disk_def)
  have "[0 ..< Suc n] = 0 # map Suc [0 ..< n]"
    by (simp add: map_Suc_upt upt_conv_Cons)
  moreover have "run_state (insw dev n) ?h =
      (word_bytes (map (\<lambda>i. sec (lba_of h) ! (Suc (words_read h) + i)) [0 ..< n]), ?h @ replicate n (InW ATA))"
    using Suc.IH [of ?h] Suc.prems by (simp add: port_val_app words_read_app lba_of_inputs)
  ultimately show ?case
    by (simp add: io_simps w comp_def)
qed simp

text \<open>The bytes of a buffer as the words the drive receives.\<close>

fun bytes_words :: "u8 list \<Rightarrow> u16 list" where
  "bytes_words (lo # hi # bs) = (ucast lo OR push_bit 8 (ucast hi)) # bytes_words bs"
| "bytes_words _ = []"

lemma outsw_run: "run_state (outsw bs) h = ((), h @ map (OutW ATA) (bytes_words bs))"
  by (induction bs arbitrary: h rule: bytes_words.induct) (simp_all add: io_simps)

lemma word_bytes_words: "word_bytes (bytes_words bs) = bs" if "even (length bs)"
  using that
proof (induction bs rule: bytes_words.induct)
  case (1 lo hi bs)
  have "ucast ((ucast lo :: u16) OR push_bit 8 (ucast hi)) = lo"
    "ucast (drop_bit 8 ((ucast lo :: u16) OR push_bit 8 (ucast hi))) = hi"
    by (rule bit_word_eqI; auto simp: bit_simps dest: bit_imp_le_length)+
  with 1 show ?case by simp
qed simp_all

lemma sent_words_map [io_simps]: "sent_words p (map (OutW p) ws) = ws"
  by (induction ws) simp_all

lemma wait_until_runs:
  "unat (ticks t) + n = unat target \<Longrightarrow> wait_until target t = Some (t\<lparr>ticks := target\<rparr>)"
proof (induction n arbitrary: t)
  case 0
  then have "ticks t = target" by (simp add: u32_eqI)
  then show ?case by (subst wait_until.simps) auto
next
  case (Suc n)
  then have "ticks t < target" by (simp add: word_less_nat_alt)
  moreover have "unat (ticks t + 1) = Suc (unat (ticks t))"
    using Suc.prems unat_less_2p32 [of target] by (subst unat_add_no_wrap) simp_all
  then have "wait_until target (timer_tick t) = Some ((timer_tick t)\<lparr>ticks := target\<rparr>)"
    using Suc.prems by (intro Suc.IH) (simp add: timer_tick_def)
  ultimately show ?case
    by (subst wait_until.simps) (simp add: timer_tick_def)
qed


lemma port_val_words: "port_val (h @ map (OutW q) ws) p = port_val h p"
proof (induction ws rule: rev_induct)
  case (snoc w ws)
  have "h @ map (OutW q) (ws @ [w]) = (h @ map (OutW q) ws) @ [OutW q w]"
    by simp
  with snoc show ?case by (simp only: port_val_app)
qed simp

subsection \<open>Properties\<close>

text \<open>On controllers that read back their mask, \<open>irq_enable\<close> unmasks and \<open>irq_disable\<close>
  masks exactly the given line, and \<open>pic_init\<close> masks all of them.  Enabling a line of the
  second controller therefore leaves line 2, through which it reaches the CPU, masked.\<close>

lemma irq_lines:
  assumes "pic_device dev" and "irq < 16" and "n < 16"
  shows "(masked (snd (run_state (irq_enable dev irq) h)) n \<longleftrightarrow> masked h n \<and> n \<noteq> unat irq) \<and>
    (masked (snd (run_state (irq_disable dev irq) h)) n \<longleftrightarrow> masked h n \<or> n = unat irq) \<and>
    masked (snd (run_state pic_init h)) n \<and>
    (8 \<le> irq \<longrightarrow> masked (snd (run_state (do { pic_init; irq_enable dev irq }) h)) 2)"
proof -
  have "masked (snd (run_state (irq_enable dev irq) (snd (run_state pic_init h)))) 2" if "8 \<le> irq"
    using masked_after(1) [OF assms(1,2), of 2 "snd (run_state pic_init h)"] that
    by (simp add: masked_pic_init word_le_nat_alt)
  then show ?thesis
    using masked_after [OF assms] by (simp add: masked_pic_init case_prod_unfold)
qed

definition plain_pic :: device where
  "plain_pic = \<lparr>rd8 = port_val, rd16 = (\<lambda>h p. 0)\<rparr>"

lemma irq_lines_witness:
  "\<not> masked (snd (run_state (irq_enable plain_pic 1) [])) 1 \<and>
   masked (snd (run_state (do { pic_init; irq_enable plain_pic 12 }) [])) 2"
proof -
  have "pic_device plain_pic"
    by (simp add: pic_device_def plain_pic_def)
  from irq_lines [OF this, of 1 1 "[]"] irq_lines [OF this, of 12 2 "[]"] show ?thesis
    by (simp add: masked_def port_val_def)
qed

text \<open>C22: \<open>timer_wait\<close> returns, after exactly \<open>n\<close> ticks when the counter does not wrap
  meanwhile; when it would wrap, it returns at once without waiting.\<close>

theorem timer_wait_ticks:
  "(unat (ticks t) + unat n < 4294967296 \<longrightarrow> timer_wait n t = Some (t\<lparr>ticks := ticks t + n\<rparr>)) \<and>
   (4294967296 \<le> unat (ticks t) + unat n \<longrightarrow> timer_wait n t = Some t)"
proof (intro conjI impI)
  assume "unat (ticks t) + unat n < 4294967296"
  then show "timer_wait n t = Some (t\<lparr>ticks := ticks t + n\<rparr>)"
    unfolding timer_wait_def by (intro wait_until_runs [of _ "unat n"]) (simp add: unat_add_no_wrap)
next
  assume wrap: "4294967296 \<le> unat (ticks t) + unat n"
  have "unat (ticks t + n) = (unat (ticks t) + unat n) mod 4294967296"
    by (simp add: unat_word_ariths)
  also have "\<dots> = unat (ticks t) + unat n - 4294967296"
    using wrap unat_less_2p32 [of "ticks t"] unat_less_2p32 [of n] by (subst mod_if) simp
  finally have "\<not> ticks t < ticks t + n"
    using unat_less_2p32 [of n] by (simp add: word_less_nat_alt)
  then show "timer_wait n t = Some t"
    unfolding timer_wait_def by (subst wait_until.simps) simp
qed

theorem timer_wait_ticks_witness:
  "timer_wait 3 \<lparr>ticks = 5, freq = 100\<rparr> = Some \<lparr>ticks = 8, freq = 100\<rparr> \<and>
   timer_wait 3 \<lparr>ticks = 0xFFFFFFFE, freq = 100\<rparr> = Some \<lparr>ticks = 0xFFFFFFFE, freq = 100\<rparr>"
  using timer_wait_ticks [of "\<lparr>ticks = 5, freq = 100\<rparr>" 3]
    timer_wait_ticks [of "\<lparr>ticks = 0xFFFFFFFE, freq = 100\<rparr>" 3]
  by simp

text \<open>\<open>serial_write\<close> returns on every device and sends exactly its bytes, in order, to
  the data port; its only other accesses are reads of the line status.\<close>

lemma serial_write_emits:
  "\<exists>h'. run_state (serial_write dev cs) h = ((), h @ h') \<and> sent COM1 h' = cs \<and>
     (\<forall>e \<in> set h'. e = InB (COM1 + 5) \<or> e \<in> OutB COM1 ` set cs)"
  by (rule serial_write_run)

lemma serial_write_emits_witness:
  "sent COM1 (snd (run_state (serial_write \<lparr>rd8 = (\<lambda>h p. 0), rd16 = (\<lambda>h p. 0)\<rparr> [111, 107]) [])) = [111, 107]"
  using serial_write_emits [of "\<lparr>rd8 = (\<lambda>h p. 0), rd16 = (\<lambda>h p. 0)\<rparr>" "[111, 107]" "[]"] by auto

text \<open>On a drive that serves the addressed sector, \<open>ata_read_sector\<close> returns the bytes of
  sector \<open>lba\<close> taken modulo 2^28 (the registers hold 28 bits), low byte of each word first.
  Without a drive it fails and touches no port.\<close>

lemma ata_read_sector_reads:
  assumes "ata_disk dev sec" and "length (sec (unat lba mod 268435456)) = 256"
  shows "fst (run_state (ata_read_sector True dev lba) h) =
      Some (word_bytes (sec (unat lba mod 268435456))) \<and>
    run_state (ata_read_sector False dev lba) h = (None, h)"
proof -
  obtain h1 where h1: "run_state (ata_command lba 0x20) h = ((), h1)"
    "lba_of h1 = unat lba mod 268435456" "port_val h1 (ATA + 7) = 0x20" "words_read h1 = 0"
    using ata_command_run by meson
  obtain k where k: "run_state (poll_busy dev 2000000) h1 = ((), h1 @ replicate k (InB (ATA + 7)))"
    using poll_busy_run by blast
  let ?h2 = "h1 @ replicate k (InB (ATA + 7))"
  have status: "rd8 dev ?h2 (ATA + 7) AND 0x01 = 0"
    using assms(1) h1(3) by (simp add: ata_disk_def port_val_inputs)
  let ?h3 = "?h2 @ [InB (ATA + 7)]"
  have p: "port_val ?h3 (ATA + 7) = 0x20"
    unfolding port_val_app port_val_inputs by (rule h1(3))
  have w: "words_read ?h3 = 0"
    unfolding words_read_app words_read_inputs by (rule h1(4))
  have l: "lba_of ?h3 = unat lba mod 268435456"
    unfolding lba_of_inputs by (rule h1(2))
  have ins: "run_state (insw dev 256) ?h3 = (word_bytes (sec (unat lba mod 268435456)),
      ?h3 @ replicate 256 (InW ATA))"
    using insw_run [OF assms(1) p, of 256] map_nth [of "sec (unat lba mod 268435456)"] assms(2)
    by (simp only: w l) simp
  show ?thesis
    unfolding ata_read_sector_def ata_poll_busy_def
    using h1(1) k status ins by (simp add: run_inb)
qed

definition ata_dev :: device where
  "ata_dev = \<lparr>rd8 = (\<lambda>h p. 0x40), rd16 = (\<lambda>h p. of_nat (lba_of h))\<rparr>"

lemma ata_read_sector_reads_witness:
  "fst (run_state (ata_read_sector True ata_dev 7) []) = Some (word_bytes (replicate 256 7))"
proof -
  have "ata_disk ata_dev (\<lambda>n. replicate 256 (of_nat n))"
    by (simp add: ata_disk_def ata_dev_def)
  from ata_read_sector_reads [OF this, of 7 "[]"] show ?thesis
    by simp
qed

text \<open>With a drive, \<open>ata_write_sector\<close> selects sector \<open>lba\<close> modulo 2^28, sends exactly the
  buffer as words that read back to its bytes, ends with a cache flush, and reports success
  exactly when the drive's last status has no error.\<close>

lemma ata_write_sector_sends:
  assumes "even (length bs)"
  shows "\<exists>h'. run_state (ata_write_sector True dev lba bs) h =
       (rd8 dev h' (ATA + 7) AND 0x01 = 0, h' @ [InB (ATA + 7)]) \<and>
     sent_words ATA h' = sent_words ATA h @ bytes_words bs \<and> word_bytes (bytes_words bs) = bs \<and>
     lba_of h' = unat lba mod 268435456 \<and> port_val h' (ATA + 2) = 1 \<and> port_val h' (ATA + 7) = 0xE7"
proof -
  obtain i where i: "run_state (poll_busy dev 2000000) h = ((), h @ replicate i (InB (ATA + 7)))"
    using poll_busy_run by blast
  let ?h1 = "h @ replicate i (InB (ATA + 7))"
  obtain j where j: "run_state (poll_ready dev 2000000) ?h1 = ((), ?h1 @ replicate j (InB (ATA + 7)))"
    using poll_ready_run by blast
  let ?h2 = "?h1 @ replicate j (InB (ATA + 7))"
  obtain h3 where h3: "run_state (ata_command lba 0x30) ?h2 = ((), h3)"
    "lba_of h3 = unat lba mod 268435456" "port_val h3 (ATA + 2) = 1"
    "sent_words ATA h3 = sent_words ATA ?h2"
    using ata_command_run by meson
  let ?h4 = "(h3 @ map (OutW ATA) (bytes_words bs)) @ [OutB (ATA + 7) 0xE7]"
  obtain k where k: "run_state (poll_busy dev 2000000) ?h4 = ((), ?h4 @ replicate k (InB (ATA + 7)))"
    using poll_busy_run by blast
  let ?h5 = "?h4 @ replicate k (InB (ATA + 7))"
  have n: "ATA + 7 \<noteq> ATA + 2" "ATA + 7 \<noteq> ATA + 3" "ATA + 7 \<noteq> ATA + 4" "ATA + 7 \<noteq> ATA + 5"
    "ATA + 7 \<noteq> ATA + 6"
    by (simp_all add: ATA_def)
  have pv: "port_val ?h5 q = (if ATA + 7 = q then 0xE7 else port_val h3 q)" for q
    unfolding port_val_inputs port_val_app port_val_words by (rule refl)
  have sw: "sent_words ATA ?h5 = sent_words ATA h @ bytes_words bs"
    by (simp add: io_simps h3(4))
  have "run_state (ata_write_sector True dev lba bs) h =
      (rd8 dev ?h5 (ATA + 7) AND 0x01 = 0, ?h5 @ [InB (ATA + 7)])"
    unfolding ata_write_sector_def ata_poll_busy_def
    using i j h3(1) k by (simp add: run_inb run_outb outsw_run)
  moreover have "lba_of ?h5 = unat lba mod 268435456"
    unfolding h3(2) [symmetric] lba_of_def pv using n by simp
  moreover have "port_val ?h5 (ATA + 2) = 1" "port_val ?h5 (ATA + 7) = 0xE7"
    unfolding pv using h3(3) n by simp_all
  ultimately show ?thesis
    using sw word_bytes_words [OF assms] by blast
qed

lemma ata_write_sector_sends_witness:
  "\<exists>h'. run_state (ata_write_sector True ata_dev 7 (replicate 512 9)) [] = (True, h') \<and>
     sent_words ATA h' = bytes_words (replicate 512 9)"
  using ata_write_sector_sends [of "replicate 512 9" ata_dev 7 "[]"]
  by (force simp: ata_dev_def sent_words_append)

end
