(* ===== verification/Vga.thy ===== *)
theory Vga
  imports PortIO
begin

section \<open>The display (kernel/vga.c)\<close>

text \<open>
  Text mode and mode 13h.  The text memory at \<open>0xB8000\<close> and the framebuffer at \<open>0xA0000\<close> are
  functions from the index the code uses, so an index outside the screen is a write outside
  it and not an error.  The port writes of the driver go to one history, \<open>ports\<close>, which the
  console shares with the serial port.  C's \<open>int\<close> is \<open>int\<close>: signed overflow is undefined.
\<close>

record screen =
  cells :: "int \<Rightarrow> u16"
  fb :: "int \<Rightarrow> u8"
  tx :: int
  ty :: int
  cur_attr :: u8
  ports :: "ioev list"

definition VGA_WIDTH :: int where "VGA_WIDTH = 80"
definition VGA_HEIGHT :: int where "VGA_HEIGHT = 25"
definition GFX_W :: int where "GFX_W = 320"
definition GFX_H :: int where "GFX_H = 200"

definition on_ports :: "unit io \<Rightarrow> screen \<Rightarrow> screen" where
  "on_ports f s = s\<lparr>ports := snd (run_state f (ports s))\<rparr>"

primrec out_seq :: "(u16 \<times> u8) list \<Rightarrow> unit io" where
  "out_seq [] = State_Monad.return ()"
| "out_seq (pv # pvs) = do { outb (fst pv) (snd pv); out_seq pvs }"

subsection \<open>Text mode\<close>

definition mk_cell :: "u8 \<Rightarrow> u8 \<Rightarrow> u16" where
  "mk_cell attr c = push_bit 8 (ucast attr) OR ucast c"

definition vga_set_cursor :: "int \<Rightarrow> int \<Rightarrow> screen \<Rightarrow> screen" where
  "vga_set_cursor x y s =
     (let pos = word_of_int (y * VGA_WIDTH + x) :: u16
      in on_ports (out_seq [(0x3D4, 0x0F), (0x3D5, ucast (pos AND 0xFF)),
                            (0x3D4, 0x0E), (0x3D5, ucast (drop_bit 8 pos AND 0xFF))]) s)"

definition vga_clear :: "u8 \<Rightarrow> screen \<Rightarrow> screen" where
  "vga_clear attr s =
     s\<lparr>cells := (\<lambda>i. if 0 \<le> i \<and> i < VGA_WIDTH * VGA_HEIGHT then mk_cell attr 0x20 else cells s i)\<rparr>"

definition vga_init :: "screen \<Rightarrow> screen" where
  "vga_init s = vga_set_cursor 0 0 ((vga_clear 0x0F s)\<lparr>tx := 0, ty := 0, cur_attr := 0x0F\<rparr>)"

definition copy_row :: "nat \<Rightarrow> (int \<Rightarrow> u16) \<Rightarrow> (int \<Rightarrow> u16)" where
  "copy_row row m = fold (\<lambda>col m. m(int ((row - 1) * 80 + col) := m (int (row * 80 + col)))) [0 ..< 80] m"

definition vga_scroll_once :: "screen \<Rightarrow> screen" where
  "vga_scroll_once s =
     (let m = fold copy_row [1 ..< 25] (cells s)
      in s\<lparr>cells := fold (\<lambda>col m. m(int (24 * 80 + col) := mk_cell (cur_attr s) 0x20)) [0 ..< 80] m\<rparr>)"

definition vga_scroll :: "screen \<Rightarrow> screen" where
  "vga_scroll s =
     (let s = (vga_scroll_once s)\<lparr>ty := VGA_HEIGHT - 1, tx := 0\<rparr> in vga_set_cursor (tx s) (ty s) s)"

definition vga_place :: "u8 \<Rightarrow> u8 \<Rightarrow> screen \<Rightarrow> screen" where
  "vga_place c attr s =
     (if c = 0x0A then s\<lparr>ty := ty s + 1, tx := 0\<rparr>
      else if c = 0x0D then s\<lparr>tx := 0\<rparr>
      else if c = 0x09 then s\<lparr>tx := (tx s + 4) AND NOT 3\<rparr>
      else if c = 0x08 then (if 0 < tx s then s\<lparr>tx := tx s - 1\<rparr> else s)
      else s\<lparr>cells := (cells s)(ty s * VGA_WIDTH + tx s := mk_cell attr c), tx := tx s + 1\<rparr>)"

definition vga_putc :: "u8 \<Rightarrow> u8 \<Rightarrow> screen \<Rightarrow> screen" where
  "vga_putc c attr s =
     (let s = vga_place c attr (s\<lparr>cur_attr := attr\<rparr>);
          s = (if VGA_WIDTH \<le> tx s then s\<lparr>tx := 0, ty := ty s + 1\<rparr> else s);
          s = (if VGA_HEIGHT \<le> ty s then vga_scroll_once s else s)
      in vga_set_cursor (tx s) (ty s) s)"

text \<open>A C string is the list of its bytes before the terminator.\<close>

definition vga_write :: "u8 list \<Rightarrow> u8 \<Rightarrow> screen \<Rightarrow> screen" where
  "vga_write str attr s = fold (\<lambda>c. vga_putc c attr) str s"

definition vga_get_x :: "screen \<Rightarrow> int" where "vga_get_x s = tx s"
definition vga_get_y :: "screen \<Rightarrow> int" where "vga_get_y s = ty s"

subsection \<open>The kernel console\<close>

text \<open>
  Console output goes to the text screen and to the serial port.  A character is put on the
  screen first; a string goes to the screen as a whole and then to the serial port.
\<close>

definition con_putc :: "device \<Rightarrow> u8 \<Rightarrow> screen \<Rightarrow> screen" where
  "con_putc dev c s = on_ports (serial_putc dev c) (vga_putc c 0x0F s)"

definition con_write :: "device \<Rightarrow> u8 list \<Rightarrow> u8 \<Rightarrow> screen \<Rightarrow> screen" where
  "con_write dev str attr s = on_ports (serial_write dev str) (vga_write str attr s)"

subsection \<open>Mode 13h\<close>

definition vga_pal16 :: "(u8 \<times> u8 \<times> u8) list" where
  "vga_pal16 = [
     (0, 0, 0), (0, 0, 42), (0, 42, 0), (0, 42, 42),
     (42, 0, 0), (42, 0, 42), (42, 21, 0), (42, 42, 42),
     (21, 21, 21), (21, 21, 63), (21, 63, 21), (21, 63, 63),
     (63, 21, 21), (63, 21, 63), (63, 63, 21), (63, 63, 63)]"

definition dac_writes :: "nat \<Rightarrow> (u16 \<times> u8) list" where
  "dac_writes i = (case vga_pal16 ! (i mod 16) of (r, g, b) \<Rightarrow> [(0x3C9, r), (0x3C9, g), (0x3C9, b)])"

definition vga_load_palette :: "screen \<Rightarrow> screen" where
  "vga_load_palette s =
     on_ports (out_seq ((0x3C8, 0) # concat (map dac_writes [0 ..< 16]) @ concat (map dac_writes [16 ..< 256]))) s"

definition crtc :: "u8 list" where
  "crtc = [0x5F, 0x4F, 0x50, 0x82, 0x54, 0x80,
           0xBF, 0x1F, 0x00, 0x41, 0x00, 0x00,
           0x00, 0x00, 0x00, 0x00,
           0x9C, 0x8E, 0x8F, 0x28,
           0x40, 0x96, 0xB9, 0xA3, 0xFF]"

definition gdc :: "u8 list" where
  "gdc = [0x00, 0x00, 0x00, 0x00, 0x00, 0x40, 0x05, 0x0F, 0xFF]"

text \<open>The pairs of writes that load an indexed register file.\<close>

definition indexed :: "u16 \<Rightarrow> u16 \<Rightarrow> nat \<Rightarrow> (nat \<Rightarrow> u8) \<Rightarrow> (u16 \<times> u8) list" where
  "indexed ip dp n v = concat (map (\<lambda>i. [(ip, of_nat i), (dp, v i)]) [0 ..< n])"

definition gfx_clear :: "u8 \<Rightarrow> screen \<Rightarrow> screen" where
  "gfx_clear color s = s\<lparr>fb := (\<lambda>i. if 0 \<le> i \<and> i < GFX_W * GFX_H then color else fb s i)\<rparr>"

definition vga_set_mode13h :: "device \<Rightarrow> screen \<Rightarrow> screen" where
  "vga_set_mode13h dev s =
     (let s = on_ports (do {
            out_seq ([(0x3C4, 0x00), (0x3C5, 0x03), (0x3C4, 0x01), (0x3C5, 0x01),
                      (0x3C4, 0x02), (0x3C5, 0x0F), (0x3C4, 0x03), (0x3C5, 0x00),
                      (0x3C4, 0x04), (0x3C5, 0x0E), (0x3C4, 0x00), (0x3C5, 0x03),
                      (0x3C2, 0x63), (0x3D4, 0x11), (0x3D5, 0x00)]
                     @ indexed 0x3D4 0x3D5 25 (\<lambda>i. crtc ! i)
                     @ indexed 0x3CE 0x3CF 9 (\<lambda>i. gdc ! i));
            inb dev 0x3DA;
            out_seq (indexed 0x3C0 0x3C0 16 of_nat
                     @ [(0x3C0, 0x10), (0x3C0, 0x41), (0x3C0, 0x11), (0x3C0, 0x00), (0x3C0, 0x20), (0x3C6, 0xFF)])
          }) s
      in gfx_clear 0x00 (vga_load_palette s))"

definition gfx_putpixel :: "int \<Rightarrow> int \<Rightarrow> u8 \<Rightarrow> screen \<Rightarrow> screen" where
  "gfx_putpixel x y color s =
     (if x < 0 \<or> GFX_W \<le> x \<or> y < 0 \<or> GFX_H \<le> y then s
      else s\<lparr>fb := (fb s)(y * GFX_W + x := color)\<rparr>)"

text \<open>Clipped on the right and at the bottom only, as in the code.\<close>

definition gfx_fillrect :: "int \<Rightarrow> int \<Rightarrow> int \<Rightarrow> int \<Rightarrow> u8 \<Rightarrow> screen \<Rightarrow> screen" where
  "gfx_fillrect x0 y0 x1 y1 color s =
     fold (\<lambda>y. fold (\<lambda>x s. s\<lparr>fb := (fb s)(y * GFX_W + x := color)\<rparr>) [x0 .. min x1 (GFX_W - 1)])
       [y0 .. min y1 (GFX_H - 1)] s"

definition font8x8 :: "u8 list list" where
  "font8x8 = replicate 32 (replicate 8 0) @ [
    [0x00, 0x00, 0x00, 0x00, 0x00, 0x00, 0x00, 0x00],
    [0x18, 0x3C, 0x3C, 0x18, 0x18, 0x00, 0x18, 0x00],
    [0x36, 0x36, 0x00, 0x00, 0x00, 0x00, 0x00, 0x00],
    [0x36, 0x36, 0x7F, 0x36, 0x7F, 0x36, 0x36, 0x00],
    [0x0C, 0x3E, 0x03, 0x1E, 0x30, 0x1F, 0x0C, 0x00],
    [0x00, 0x63, 0x33, 0x18, 0x0C, 0x66, 0x63, 0x00],
    [0x1C, 0x36, 0x1C, 0x6E, 0x3B, 0x33, 0x6E, 0x00],
    [0x06, 0x06, 0x03, 0x00, 0x00, 0x00, 0x00, 0x00],
    [0x18, 0x0C, 0x06, 0x06, 0x06, 0x0C, 0x18, 0x00],
    [0x06, 0x0C, 0x18, 0x18, 0x18, 0x0C, 0x06, 0x00],
    [0x00, 0x66, 0x3C, 0xFF, 0x3C, 0x66, 0x00, 0x00],
    [0x00, 0x0C, 0x0C, 0x3F, 0x0C, 0x0C, 0x00, 0x00],
    [0x00, 0x00, 0x00, 0x00, 0x00, 0x0C, 0x0C, 0x06],
    [0x00, 0x00, 0x00, 0x3F, 0x00, 0x00, 0x00, 0x00],
    [0x00, 0x00, 0x00, 0x00, 0x00, 0x0C, 0x0C, 0x00],
    [0x60, 0x30, 0x18, 0x0C, 0x06, 0x03, 0x01, 0x00],
    [0x3E, 0x63, 0x73, 0x7B, 0x6F, 0x67, 0x3E, 0x00],
    [0x0C, 0x0E, 0x0C, 0x0C, 0x0C, 0x0C, 0x3F, 0x00],
    [0x1E, 0x33, 0x30, 0x1C, 0x06, 0x33, 0x3F, 0x00],
    [0x1E, 0x33, 0x30, 0x1C, 0x30, 0x33, 0x1E, 0x00],
    [0x38, 0x3C, 0x36, 0x33, 0x7F, 0x30, 0x78, 0x00],
    [0x3F, 0x03, 0x1F, 0x30, 0x30, 0x33, 0x1E, 0x00],
    [0x1C, 0x06, 0x03, 0x1F, 0x33, 0x33, 0x1E, 0x00],
    [0x3F, 0x33, 0x30, 0x18, 0x0C, 0x0C, 0x0C, 0x00],
    [0x1E, 0x33, 0x33, 0x1E, 0x33, 0x33, 0x1E, 0x00],
    [0x1E, 0x33, 0x33, 0x3E, 0x30, 0x18, 0x0E, 0x00],
    [0x00, 0x0C, 0x0C, 0x00, 0x00, 0x0C, 0x0C, 0x00],
    [0x00, 0x0C, 0x0C, 0x00, 0x00, 0x0C, 0x0C, 0x06],
    [0x18, 0x0C, 0x06, 0x03, 0x06, 0x0C, 0x18, 0x00],
    [0x00, 0x00, 0x3F, 0x00, 0x00, 0x3F, 0x00, 0x00],
    [0x0C, 0x18, 0x30, 0x60, 0x30, 0x18, 0x0C, 0x00],
    [0x1E, 0x33, 0x30, 0x18, 0x0C, 0x00, 0x0C, 0x00],
    [0x3E, 0x63, 0x7B, 0x7B, 0x7B, 0x03, 0x1E, 0x00],
    [0x0C, 0x1E, 0x33, 0x33, 0x3F, 0x33, 0x33, 0x00],
    [0x3F, 0x66, 0x66, 0x3E, 0x66, 0x66, 0x3F, 0x00],
    [0x3C, 0x66, 0x03, 0x03, 0x03, 0x66, 0x3C, 0x00],
    [0x1F, 0x36, 0x66, 0x66, 0x66, 0x36, 0x1F, 0x00],
    [0x7F, 0x46, 0x16, 0x1E, 0x16, 0x46, 0x7F, 0x00],
    [0x7F, 0x46, 0x16, 0x1E, 0x16, 0x06, 0x0F, 0x00],
    [0x3C, 0x66, 0x03, 0x03, 0x73, 0x66, 0x7C, 0x00],
    [0x33, 0x33, 0x33, 0x3F, 0x33, 0x33, 0x33, 0x00],
    [0x1E, 0x0C, 0x0C, 0x0C, 0x0C, 0x0C, 0x1E, 0x00],
    [0x78, 0x30, 0x30, 0x30, 0x33, 0x33, 0x1E, 0x00],
    [0x67, 0x66, 0x36, 0x1E, 0x36, 0x66, 0x67, 0x00],
    [0x0F, 0x06, 0x06, 0x06, 0x46, 0x66, 0x7F, 0x00],
    [0x63, 0x77, 0x7F, 0x7F, 0x6B, 0x63, 0x63, 0x00],
    [0x63, 0x67, 0x6F, 0x7B, 0x73, 0x63, 0x63, 0x00],
    [0x1C, 0x36, 0x63, 0x63, 0x63, 0x36, 0x1C, 0x00],
    [0x3F, 0x66, 0x66, 0x3E, 0x06, 0x06, 0x0F, 0x00],
    [0x1E, 0x33, 0x33, 0x33, 0x3B, 0x1E, 0x38, 0x00],
    [0x3F, 0x66, 0x66, 0x3E, 0x36, 0x66, 0x67, 0x00],
    [0x1E, 0x33, 0x07, 0x0E, 0x38, 0x33, 0x1E, 0x00],
    [0x3F, 0x2D, 0x0C, 0x0C, 0x0C, 0x0C, 0x1E, 0x00],
    [0x33, 0x33, 0x33, 0x33, 0x33, 0x33, 0x3F, 0x00],
    [0x33, 0x33, 0x33, 0x33, 0x33, 0x1E, 0x0C, 0x00],
    [0x63, 0x63, 0x63, 0x6B, 0x7F, 0x77, 0x63, 0x00],
    [0x63, 0x63, 0x36, 0x1C, 0x1C, 0x36, 0x63, 0x00],
    [0x33, 0x33, 0x33, 0x1E, 0x0C, 0x0C, 0x1E, 0x00],
    [0x7F, 0x63, 0x31, 0x18, 0x4C, 0x66, 0x7F, 0x00],
    [0x1E, 0x06, 0x06, 0x06, 0x06, 0x06, 0x1E, 0x00],
    [0x03, 0x06, 0x0C, 0x18, 0x30, 0x60, 0x40, 0x00],
    [0x1E, 0x18, 0x18, 0x18, 0x18, 0x18, 0x1E, 0x00],
    [0x08, 0x1C, 0x36, 0x63, 0x00, 0x00, 0x00, 0x00],
    [0x00, 0x00, 0x00, 0x00, 0x00, 0x00, 0x00, 0xFF],
    [0x0C, 0x0C, 0x18, 0x00, 0x00, 0x00, 0x00, 0x00],
    [0x00, 0x00, 0x1E, 0x30, 0x3E, 0x33, 0x6E, 0x00],
    [0x07, 0x06, 0x06, 0x3E, 0x66, 0x66, 0x3B, 0x00],
    [0x00, 0x00, 0x1E, 0x33, 0x03, 0x33, 0x1E, 0x00],
    [0x38, 0x30, 0x30, 0x3E, 0x33, 0x33, 0x6E, 0x00],
    [0x00, 0x00, 0x1E, 0x33, 0x3F, 0x03, 0x1E, 0x00],
    [0x1C, 0x36, 0x06, 0x0F, 0x06, 0x06, 0x0F, 0x00],
    [0x00, 0x00, 0x6E, 0x33, 0x33, 0x3E, 0x30, 0x1F],
    [0x07, 0x06, 0x36, 0x6E, 0x66, 0x66, 0x67, 0x00],
    [0x0C, 0x00, 0x0E, 0x0C, 0x0C, 0x0C, 0x1E, 0x00],
    [0x30, 0x00, 0x30, 0x30, 0x30, 0x33, 0x33, 0x1E],
    [0x07, 0x06, 0x66, 0x36, 0x1E, 0x36, 0x67, 0x00],
    [0x0E, 0x0C, 0x0C, 0x0C, 0x0C, 0x0C, 0x1E, 0x00],
    [0x00, 0x00, 0x33, 0x7F, 0x7F, 0x6B, 0x63, 0x00],
    [0x00, 0x00, 0x1F, 0x33, 0x33, 0x33, 0x33, 0x00],
    [0x00, 0x00, 0x1E, 0x33, 0x33, 0x33, 0x1E, 0x00],
    [0x00, 0x00, 0x3B, 0x66, 0x66, 0x3E, 0x06, 0x0F],
    [0x00, 0x00, 0x6E, 0x33, 0x33, 0x3E, 0x30, 0x78],
    [0x00, 0x00, 0x3B, 0x6E, 0x66, 0x06, 0x0F, 0x00],
    [0x00, 0x00, 0x3E, 0x03, 0x1E, 0x30, 0x1F, 0x00],
    [0x08, 0x0C, 0x3E, 0x0C, 0x0C, 0x2C, 0x18, 0x00],
    [0x00, 0x00, 0x33, 0x33, 0x33, 0x33, 0x6E, 0x00],
    [0x00, 0x00, 0x33, 0x33, 0x33, 0x1E, 0x0C, 0x00],
    [0x00, 0x00, 0x63, 0x6B, 0x7F, 0x7F, 0x36, 0x00],
    [0x00, 0x00, 0x63, 0x36, 0x1C, 0x36, 0x63, 0x00],
    [0x00, 0x00, 0x33, 0x33, 0x33, 0x3E, 0x30, 0x1F],
    [0x00, 0x00, 0x3F, 0x19, 0x0C, 0x26, 0x3F, 0x00],
    [0x38, 0x0C, 0x0C, 0x07, 0x0C, 0x0C, 0x38, 0x00],
    [0x18, 0x18, 0x18, 0x00, 0x18, 0x18, 0x18, 0x00],
    [0x07, 0x0C, 0x0C, 0x38, 0x0C, 0x0C, 0x07, 0x00],
    [0x6E, 0x3B, 0x00, 0x00, 0x00, 0x00, 0x00, 0x00]] @ [replicate 8 0]"

definition gfx_drawchar :: "int \<Rightarrow> int \<Rightarrow> u8 \<Rightarrow> u8 \<Rightarrow> u8 \<Rightarrow> screen \<Rightarrow> screen" where
  "gfx_drawchar x y c fg bg s =
     (let glyph = font8x8 ! unat (c AND 0x7F)
      in fold (\<lambda>row. fold (\<lambda>col. gfx_putpixel (x + int col) (y + int row) (if bit (glyph ! row) col then fg else bg))
                       [0 ..< 8]) [0 ..< 8] s)"

primrec gfx_drawstring :: "int \<Rightarrow> int \<Rightarrow> u8 list \<Rightarrow> u8 \<Rightarrow> u8 \<Rightarrow> screen \<Rightarrow> screen" where
  "gfx_drawstring x y [] fg bg s = s"
| "gfx_drawstring x y (c # cs) fg bg s = gfx_drawstring (x + 8) y cs fg bg (gfx_drawchar x y c fg bg s)"

subsection \<open>What the loops compute\<close>

lemma copy_row_eq:
  assumes "1 \<le> row"
  shows "copy_row row m = (\<lambda>i. if int (row - 1) * 80 \<le> i \<and> i < int row * 80 then m (i + 80) else m i)"
proof -
  have "fold (\<lambda>col m. m(int ((row - 1) * 80 + col) := m (int (row * 80 + col)))) [0 ..< n] m
      = (\<lambda>i. if int (row - 1) * 80 \<le> i \<and> i < int (row - 1) * 80 + int n then m (i + 80) else m i)"
    if "n \<le> 80" for n
    using that
  proof (induction n)
    case (Suc n)
    then show ?case using assms by (auto simp: fun_eq_iff of_nat_diff)
  qed (auto simp: fun_eq_iff)
  from this [of 80] assms show ?thesis
    unfolding copy_row_def by (auto simp: fun_eq_iff of_nat_diff)
qed

lemma copy_rows_eq:
  "fold copy_row [1 ..< Suc n] m = (\<lambda>i. if 0 \<le> i \<and> i < int n * 80 then m (i + 80) else m i)"
proof (induction n)
  case (Suc n)
  have "[1 ..< Suc (Suc n)] = [1 ..< Suc n] @ [Suc n]"
    by simp
  then have "fold copy_row [1 ..< Suc (Suc n)] m
      = copy_row (Suc n) (\<lambda>i. if 0 \<le> i \<and> i < int n * 80 then m (i + 80) else m i)"
    by (simp only: fold_append Suc.IH fold.simps o_apply id_apply)
  then show ?case by (auto simp: fun_eq_iff copy_row_eq)
qed (auto simp: fun_eq_iff)

lemma fold_blank:
  "fold (\<lambda>col m. m(int (b + col) := v)) [0 ..< n] m = (\<lambda>i. if int b \<le> i \<and> i < int b + int n then v else m i)"
  by (induction n) (auto simp: fun_eq_iff)

lemma vga_scroll_once_eq:
  "vga_scroll_once s = s\<lparr>cells := (\<lambda>i. if 0 \<le> i \<and> i < 1920 then cells s (i + 80)
     else if 1920 \<le> i \<and> i < 2000 then mk_cell (cur_attr s) 0x20 else cells s i)\<rparr>"
proof -
  have 25: "[1 ..< 25] = [1 ..< Suc 24]" by simp
  show ?thesis
    unfolding vga_scroll_once_def Let_def 25 copy_rows_eq fold_blank
    by (rule arg_cong [where f = "\<lambda>c. s\<lparr>cells := c\<rparr>"]) (auto simp: fun_eq_iff)
qed

lemma run_out_seq [io_simps]: "run_state (out_seq ps) h = ((), h @ map (\<lambda>p. OutB (fst p) (snd p)) ps)"
  by (induction ps arbitrary: h) (simp_all add: io_simps State_Monad.bind_def State_Monad.return_def)


subsection \<open>The console\<close>

definition printable :: "u8 \<Rightarrow> bool" where
  "printable c \<longleftrightarrow> c \<noteq> 0x08 \<and> c \<noteq> 0x09 \<and> c \<noteq> 0x0A \<and> c \<noteq> 0x0D"

definition cursor_ok :: "screen \<Rightarrow> bool" where
  "cursor_ok s \<longleftrightarrow> 0 \<le> tx s \<and> tx s < VGA_WIDTH \<and> 0 \<le> ty s"

definition cursor :: "screen \<Rightarrow> int" where
  "cursor s = ty s * VGA_WIDTH + tx s"

text \<open>The four port writes that move the hardware cursor to a cell.\<close>

definition cursor_writes :: "int \<Rightarrow> ioev list" where
  "cursor_writes p = [OutB 0x3D4 0x0F, OutB 0x3D5 (word_of_int (p mod 256)),
                      OutB 0x3D4 0x0E, OutB 0x3D5 (word_of_int (p div 256))]"

lemma cursor_bytes:
  fixes p :: int
  shows "ucast ((word_of_int p :: u16) AND 0xFF) = (word_of_int (p mod 256) :: u8)"
    and "0 \<le> p \<Longrightarrow> p < 65536 \<Longrightarrow> ucast (drop_bit 8 (word_of_int p :: u16) AND 0xFF) = (word_of_int (p div 256) :: u8)"
proof -
  have FF: "(0xFF :: u16) = mask 8"
    by (simp add: mask_eq_exp_minus_1)
  show "ucast ((word_of_int p :: u16) AND 0xFF) = (word_of_int (p mod 256) :: u8)"
    unfolding FF by (rule bit_word_eqI) (auto simp: bit_simps take_bit_eq_mod [of 8, symmetric, simplified] bit_take_bit_iff)
next
  have FF: "(0xFF :: u16) = mask 8"
    by (simp add: mask_eq_exp_minus_1)
  assume "0 \<le> p" "p < 65536"
  show "ucast (drop_bit 8 (word_of_int p :: u16) AND 0xFF) = (word_of_int (p div 256) :: u8)"
    unfolding FF by (rule bit_word_eqI) (auto simp: bit_simps drop_bit_eq_div [of 8, symmetric, simplified] bit_drop_bit_eq)
qed

lemma vga_set_cursor_eq:
  assumes "0 \<le> y * 80 + x" and "y * 80 + x < 65536"
  shows "vga_set_cursor x y s = s\<lparr>ports := ports s @ cursor_writes (y * 80 + x)\<rparr>"
proof -
  define p where "p = y * 80 + x"
  have "0 \<le> p" "p < 65536"
    using assms by (simp_all add: p_def)
  then show ?thesis
    unfolding vga_set_cursor_def VGA_WIDTH_def Let_def on_ports_def cursor_writes_def p_def [symmetric]
    by (simp add: io_simps cursor_bytes)
qed

lemma vga_set_cursor_frame [simp]:
  "cells (vga_set_cursor x y s) = cells s" "tx (vga_set_cursor x y s) = tx s" "ty (vga_set_cursor x y s) = ty s"
  "fb (vga_set_cursor x y s) = fb s" "cur_attr (vga_set_cursor x y s) = cur_attr s"
  by (simp_all add: vga_set_cursor_def on_ports_def Let_def)

lemma vga_scroll_once_frame [simp]:
  "tx (vga_scroll_once s) = tx s" "ty (vga_scroll_once s) = ty s" "fb (vga_scroll_once s) = fb s"
  "cur_attr (vga_scroll_once s) = cur_attr s" "ports (vga_scroll_once s) = ports s"
  by (simp_all add: vga_scroll_once_eq)

text \<open>A printable character, away from the end of the screen.\<close>

lemma putc_print:
  assumes "printable c" and "cursor_ok s" and "cursor s + 1 < 2000"
  shows "cells (vga_putc c a s) = (cells s)(cursor s := mk_cell a c)"
    and "cursor (vga_putc c a s) = cursor s + 1"
    and "cursor_ok (vga_putc c a s)"
    and "fb (vga_putc c a s) = fb s"
    and "ports (vga_putc c a s) = ports s @ cursor_writes (cursor s + 1)"
proof -
  have 25: "tx s = 79 \<Longrightarrow> ty s < 24" "ty s < 25" "0 \<le> tx s" "0 \<le> ty s" "tx s < 80"
    using assms by (auto simp: cursor_ok_def cursor_def VGA_WIDTH_def)
  have e: "vga_putc c a s = (let s1 = s\<lparr>cur_attr := a, cells := (cells s)(cursor s := mk_cell a c),
      tx := (if tx s = 79 then 0 else tx s + 1), ty := (if tx s = 79 then ty s + 1 else ty s)\<rparr>
      in s1\<lparr>ports := ports s @ cursor_writes (cursor s + 1)\<rparr>)"
  proof (cases "tx s = 79")
    case True
    have "ty s < 24" "0 \<le> ty s" using 25 True by simp_all
    with True assms(1) show ?thesis
      by (simp add: printable_def vga_putc_def vga_place_def Let_def VGA_WIDTH_def VGA_HEIGHT_def vga_set_cursor_eq
          cursor_def add.commute [of 80])
  next
    case False
    with 25 assms(1) show ?thesis
      by (simp add: printable_def vga_putc_def vga_place_def Let_def VGA_WIDTH_def VGA_HEIGHT_def vga_set_cursor_eq
          cursor_def add.assoc)
  qed
  show "cells (vga_putc c a s) = (cells s)(cursor s := mk_cell a c)"
    and "cursor (vga_putc c a s) = cursor s + 1"
    and "cursor_ok (vga_putc c a s)"
    and "fb (vga_putc c a s) = fb s"
    and "ports (vga_putc c a s) = ports s @ cursor_writes (cursor s + 1)"
    using 25 by (simp_all add: e cursor_def cursor_ok_def Let_def VGA_WIDTH_def)
qed

text \<open>Below the last row every character scrolls the screen, and none is written on it.\<close>

definition below :: "screen \<Rightarrow> bool" where
  "below s \<longleftrightarrow> 25 \<le> ty s \<and> 0 \<le> tx s"

lemma and_not_3_nonneg: "0 \<le> (n :: int) \<Longrightarrow> 0 \<le> n AND NOT 3"
  by simp

lemma vga_place_below:
  assumes "below s"
  shows "below (vga_place c a s)" and "i < 2000 \<Longrightarrow> cells (vga_place c a s) i = cells s i"
    and "cur_attr (vga_place c a s) = cur_attr s"
  using assms by (auto simp: below_def vga_place_def VGA_WIDTH_def)

lemma putc_below:
  assumes "below s"
  shows "below (vga_putc c a s)"
    and "0 \<le> i \<Longrightarrow> i < 1920 \<Longrightarrow> cells (vga_putc c a s) i = cells s (i + 80)"
    and "1920 \<le> i \<Longrightarrow> i < 2000 \<Longrightarrow> cells (vga_putc c a s) i = mk_cell a 0x20"
proof -
  let ?p = "vga_place c a (s\<lparr>cur_attr := a\<rparr>)"
  have s: "below (s\<lparr>cur_attr := a\<rparr>)"
    using assms by (simp add: below_def)
  note p = vga_place_below [OF s]
  have 25: "25 \<le> ty ?p" "0 \<le> tx ?p"
    using p(1) [of c a] by (simp_all add: below_def)
  then show "below (vga_putc c a s)"
    by (simp add: below_def vga_putc_def Let_def VGA_WIDTH_def VGA_HEIGHT_def)
  show "0 \<le> i \<Longrightarrow> i < 1920 \<Longrightarrow> cells (vga_putc c a s) i = cells s (i + 80)"
    and "1920 \<le> i \<Longrightarrow> i < 2000 \<Longrightarrow> cells (vga_putc c a s) i = mk_cell a 0x20"
    using 25 by (simp_all add: vga_putc_def Let_def VGA_WIDTH_def VGA_HEIGHT_def vga_scroll_once_eq p)
qed

lemma vga_write_Cons: "vga_write (c # cs) a s = vga_write cs a (vga_putc c a s)"
  by (simp add: vga_write_def)

lemma vga_write_Nil [simp]: "vga_write [] a s = s"
  by (simp add: vga_write_def)

lemma write_below:
  assumes "below s"
  shows "below (vga_write str a s)"
    and "0 \<le> i \<Longrightarrow> i < 2000 \<Longrightarrow> cells (vga_write str a s) i =
           (if i + 80 * int (length str) < 2000 then cells s (i + 80 * int (length str)) else mk_cell a 0x20)"
proof (use assms in \<open>induction str arbitrary: s i rule: list.induct\<close>)
  case (Cons c cs)
  { case 1 then show ?case using Cons putc_below(1) by (simp add: vga_write_Cons) }
  { case 2
    with Cons(2) [OF _ _ putc_below(1) [OF 2(3)], of i c a]
    show ?case
      by (auto simp: vga_write_Cons algebra_simps putc_below [OF 2(3)]) }
qed simp_all

lemma nat_pred: "nat (x - (k + 1)) = nat (x - k) - Suc 0"
  by simp

lemma write_prints:
  assumes "list_all printable str" and "cursor_ok s" and "cursor s + int (length str) < 2000"
  shows "cells (vga_write str a s) = (\<lambda>i. if cursor s \<le> i \<and> i < cursor s + int (length str)
           then mk_cell a (str ! nat (i - cursor s)) else cells s i)"
    and "cursor (vga_write str a s) = cursor s + int (length str)"
    and "cursor_ok (vga_write str a s)"
    and "fb (vga_write str a s) = fb s"
    and "str \<noteq> [] \<Longrightarrow> \<exists>h. ports (vga_write str a s) = h @ cursor_writes (cursor s + int (length str))"
proof (use assms in \<open>induction str arbitrary: s\<close>)
  case (Cons c cs)
  have p: "printable c" "list_all printable cs" "cursor_ok s" "cursor s + 1 < 2000"
    if "list_all printable (c # cs)" "cursor_ok s" "cursor s + int (length (c # cs)) < 2000" for s
    using that by simp_all
  { case 1
    note q = p [OF 1] and r = putc_print [OF p(1,3,4) [OF 1], of a]
    from 1 Cons(1) [OF q(2) r(3)] r show ?case
      by (auto simp: vga_write_Cons fun_eq_iff nth_Cons' nat_pred) }
  { case 2
    note q = p [OF 2] and r = putc_print [OF p(1,3,4) [OF 2], of a]
    from 2 Cons(2) [OF q(2) r(3)] r show ?case by (simp add: vga_write_Cons) }
  { case 3
    note q = p [OF 3] and r = putc_print [OF p(1,3,4) [OF 3], of a]
    from 3 Cons(3) [OF q(2) r(3)] r show ?case by (simp add: vga_write_Cons) }
  { case 4
    note q = p [OF 4] and r = putc_print [OF p(1,3,4) [OF 4], of a]
    from 4 Cons(4) [OF q(2) r(3)] r show ?case by (simp add: vga_write_Cons) }
  { case 5
    note q = p [OF 5(2-)] and r = putc_print [OF p(1,3,4) [OF 5(2-)], of a]
    from 5 Cons(5) [OF _ q(2) r(3)] r show ?case
      by (cases "cs = []") (auto simp: vga_write_Cons add_ac) }
qed (auto simp: fun_eq_iff)

text \<open>C24: Writing a non-empty string of printable characters puts them one after the other in reading
  order: character \<open>i\<close> lands in cell \<open>cursor + i\<close> with the attribute asked for, no other cell of
  the text memory and no pixel changes, the software cursor stops after the last character,
  and the hardware cursor is moved to the same cell.
\<close>

theorem vga_write_prints:
  assumes "list_all printable str" and "str \<noteq> []" and "cursor_ok s" and "cursor s + int (length str) < 2000"
  shows "cells (vga_write str a s) = (\<lambda>i. if cursor s \<le> i \<and> i < cursor s + int (length str)
           then mk_cell a (str ! nat (i - cursor s)) else cells s i) \<and>
    cursor (vga_write str a s) = cursor s + int (length str) \<and> cursor_ok (vga_write str a s) \<and>
    fb (vga_write str a s) = fb s \<and>
    (\<exists>h. ports (vga_write str a s) = h @ cursor_writes (cursor s + int (length str)))"
  using write_prints [OF assms(1,3,4), of a] assms(2) by blast

definition blank_screen :: screen where
  "blank_screen = vga_init \<lparr>cells = (\<lambda>_. 0), fb = (\<lambda>_. 0), tx = 0, ty = 0, cur_attr = 0, ports = []\<rparr>"

lemma blank_screen_simps [simp]: "tx blank_screen = 0" "ty blank_screen = 0"
  by (simp_all add: blank_screen_def vga_init_def)

theorem vga_write_prints_witness:
  "cursor (vga_write (lit ''nova'') 0x0F blank_screen) = 4"
  using vga_write_prints [where str = "lit ''nova''" and s = blank_screen and a = 15]
  by (simp add: lit_def printable_def cursor_ok_def cursor_def VGA_WIDTH_def)

text \<open>Once the cursor has left the last row it never comes back: nothing written, not even a
  newline or a carriage return, moves it up again, every further character scrolls the screen
  by a whole row, and after 25 of them the screen shows nothing but blanks.
\<close>

lemma console_lost_below_screen:
  assumes "25 \<le> ty s" and "0 \<le> tx s" and "25 \<le> length (str :: u8 list)"
  shows "25 \<le> ty (vga_write str a s) \<and>
    (\<forall>i\<in>{0 ..< 2000 :: int}. cells (vga_write str a s) i = mk_cell a 0x20)"
  using write_below [where s = s and str = str and a = a] assms by (auto simp: below_def)

lemma console_lost_below_screen_witness:
  "25 \<le> ty (vga_write (replicate 30 0x41) 0x0F (blank_screen\<lparr>ty := 25\<rparr>))"
  using console_lost_below_screen [where s = "blank_screen\<lparr>ty := 25\<rparr>" and str = "replicate 30 0x41" and a = 15] by simp

end
