(* ===== verification/Printf.thy ===== *)
theory Printf
  imports PortIO
begin

section \<open>Formatted output (libc/printf.c)\<close>

text \<open>
  The formatting engine: parsing of flags, width and precision, the conversions, the padding
  and the bounded store into the caller's buffer.  A format and a string argument are the
  bytes before their terminator.  \<open>None\<close> marks what C leaves undefined: a conversion without
  a matching argument, and a text that overruns the 80 bytes of the scratch array \<open>tmp\<close> or, in
  \<open>ksprintf\<close>, the caller's array.
\<close>

datatype parg = Word u32 | Str "u8 list option"

text \<open>An output buffer of \<open>size\<close> bytes and the index \<open>idx\<close>.\<close>

type_synonym obuf = "u8 list \<times> nat"

definition putc_into :: "u8 \<Rightarrow> obuf \<Rightarrow> obuf" where
  "putc_into c ob = (case ob of (buf, idx) \<Rightarrow>
     if length buf = 0 then (buf, idx)
     else ((if idx + 1 < length buf then buf[idx := c] else buf), idx + 1))"

primrec putpad :: "u8 \<Rightarrow> nat \<Rightarrow> obuf \<Rightarrow> obuf" where
  "putpad c 0 ob = ob"
| "putpad c (Suc n) ob = putpad c n (putc_into c ob)"

subsection \<open>Numbers\<close>

definition dig :: "bool \<Rightarrow> u32 \<Rightarrow> u8" where
  "dig upper d = (if upper then lit ''0123456789ABCDEF'' else lit ''0123456789abcdef'') ! unat d"

lemma unat_div_less: "v \<noteq> 0 \<Longrightarrow> 2 \<le> base \<Longrightarrow> unat (v div base) < unat (v :: u32)"
proof -
  assume v: "v \<noteq> 0" and base: "2 \<le> base"
  have "unat (2 :: u32) \<le> unat base"
    using base by (simp only: word_le_nat_alt)
  moreover have "0 < unat v"
    using v by (simp add: unat_gt_0)
  ultimately show ?thesis
    by (simp add: unat_div)
qed

text \<open>The digits, least significant first.  The bases are 10 and 16; below 2 the code would not end.\<close>

function rev_digits :: "u32 \<Rightarrow> bool \<Rightarrow> u32 \<Rightarrow> u8 list" where
  "rev_digits base upper v =
     (if v = 0 \<or> base < 2 then [] else dig upper (v mod base) # rev_digits base upper (v div base))"
  by pat_completeness auto

termination
  by (relation "measure (\<lambda>(base, upper, v). unat v)") (simp_all add: unat_div_less not_less)

declare rev_digits.simps [simp del]

definition u32_to_str :: "u32 \<Rightarrow> u32 \<Rightarrow> bool \<Rightarrow> u8 list" where
  "u32_to_str v base upper = rev ((if v = 0 then [0x30] else []) @ rev_digits base upper v)"

subsection \<open>Conversion specifications\<close>

fun flags_of :: "bool \<Rightarrow> bool \<Rightarrow> u8 list \<Rightarrow> bool \<times> bool \<times> u8 list" where
  "flags_of l z [] = (l, z, [])"
| "flags_of l z (c # cs) =
     (if c = 0x2D then flags_of True z cs else if c = 0x30 then flags_of l True cs else (l, z, c # cs))"

fun number_of :: "nat \<Rightarrow> u8 list \<Rightarrow> nat \<times> u8 list" where
  "number_of n [] = (n, [])"
| "number_of n (c # cs) =
     (if 0x30 \<le> c \<and> c \<le> 0x39 then number_of (n * 10 + unat (c - 0x30)) cs else (n, c # cs))"

definition precision_of :: "u8 list \<Rightarrow> nat option \<times> u8 list" where
  "precision_of cs = (case cs of [] \<Rightarrow> (None, [])
     | c # cs' \<Rightarrow> if c = 0x2E then (let (p, r) = number_of 0 cs' in (Some p, r)) else (None, cs))"

record fspec =
  left :: bool
  zero :: bool
  width :: nat
  prec :: "nat option"

definition parse_spec :: "u8 list \<Rightarrow> fspec \<times> u8 list" where
  "parse_spec cs =
     (let (l, z, cs) = flags_of False False cs;
          (w, cs) = number_of 0 cs;
          (p, cs) = precision_of cs
      in (\<lparr>left = l, zero = z, width = w, prec = p\<rparr>, cs))"

text \<open>The bytes placed in \<open>tmp[80]\<close>.\<close>

definition in_tmp :: "u8 list \<Rightarrow> u8 list option" where
  "in_tmp t = (if length t \<le> 80 then Some t else None)"

definition zero_filled :: "nat option \<Rightarrow> u8 list \<Rightarrow> u8 list" where
  "zero_filled p num = (case p of None \<Rightarrow> num | Some k \<Rightarrow> replicate (k - length num) 0x30 @ num)"

definition str_arg :: "nat option \<Rightarrow> u8 list option \<Rightarrow> u8 list" where
  "str_arg p s = (let s = (case s of None \<Rightarrow> lit ''(null)'' | Some s \<Rightarrow> s)
                  in case p of None \<Rightarrow> s | Some k \<Rightarrow> take k s)"

text \<open>The switch on the conversion character: the sign, the text in \<open>tmp\<close>, the arguments left.\<close>

definition convert :: "u8 \<Rightarrow> nat option \<Rightarrow> parg list \<Rightarrow> (bool \<times> u8 list \<times> parg list) option" where
  "convert k p args =
     (if k = 0x63 then
        case args of Word v # as \<Rightarrow> Some (False, [ucast v], as) | _ \<Rightarrow> None
      else if k = 0x73 then
        case args of Str s # as \<Rightarrow> map_option (\<lambda>t. (False, t, as)) (in_tmp (str_arg p s)) | _ \<Rightarrow> None
      else if k = 0x64 \<or> k = 0x69 then
        case args of Word v # as \<Rightarrow>
            (let neg = v <s 0; v = (if neg then - v else v)
             in map_option (\<lambda>t. (neg, t, as)) (in_tmp (zero_filled p (u32_to_str v 10 False))))
          | _ \<Rightarrow> None
      else if k = 0x75 \<or> k = 0x78 \<or> k = 0x58 then
        case args of Word v # as \<Rightarrow>
            map_option (\<lambda>t. (False, t, as))
              (in_tmp (zero_filled p (u32_to_str v (if k = 0x75 then 10 else 16) (k = 0x58))))
          | _ \<Rightarrow> None
      else if k = 0x70 then
        case args of Word v # as \<Rightarrow> Some (False, [0x30, 0x78] @ u32_to_str v 16 False, as) | _ \<Rightarrow> None
      else if k = 0x25 then Some (False, [0x25], args)
      else Some (False, [0x25, k], args))"

subsection \<open>The engine\<close>

definition put_all :: "u8 list \<Rightarrow> obuf \<Rightarrow> obuf" where
  "put_all t ob = fold putc_into t ob"

definition place :: "fspec \<Rightarrow> bool \<Rightarrow> u8 list \<Rightarrow> obuf \<Rightarrow> obuf" where
  "place f negative tmp ob =
     (let pad = (if zero f \<and> \<not> left f then 0x30 else 0x20 :: u8);
          body = length tmp + (if negative then 1 else 0);
          padding = (if body < width f then width f - body else 0);
          ob = (if \<not> left f \<and> pad = 0x20 then putpad 0x20 padding ob else ob);
          ob = (if negative then putc_into 0x2D ob else ob);
          ob = (if \<not> left f \<and> pad = 0x30 \<and> prec f = None then putpad 0x30 padding ob else ob);
          ob = put_all tmp ob
      in if left f then putpad 0x20 padding ob else ob)"

lemma flags_of_length: "flags_of l z cs = (l', z', cs') \<Longrightarrow> length cs' \<le> length cs"
  by (induction l z cs rule: flags_of.induct) (auto split: if_splits)

lemma number_of_length: "number_of n cs = (n', cs') \<Longrightarrow> length cs' \<le> length cs"
  by (induction n cs rule: number_of.induct) (auto split: if_splits)

lemma precision_of_length: "precision_of cs = (p, cs') \<Longrightarrow> length cs' \<le> length cs"
  by (auto simp: precision_of_def split: list.splits if_splits prod.splits dest: number_of_length)

lemma parse_spec_length: "parse_spec cs = (f, cs') \<Longrightarrow> length cs' \<le> length cs"
  by (auto simp: parse_spec_def Let_def split: prod.splits
      dest!: flags_of_length number_of_length precision_of_length)

function fmt_loop :: "u8 list \<Rightarrow> parg list \<Rightarrow> obuf \<Rightarrow> obuf option" where
  "fmt_loop [] args ob = Some ob"
| "fmt_loop (c # cs) args ob =
     (if c \<noteq> 0x25 then fmt_loop cs args (putc_into c ob)
      else case parse_spec cs of
             (f, []) \<Rightarrow> Some (putc_into 0x25 ob)
           | (f, k # rest) \<Rightarrow>
               (case convert k (prec f) args of
                  None \<Rightarrow> None
                | Some (neg, tmp, args) \<Rightarrow> fmt_loop rest args (place f neg tmp ob)))"
  by pat_completeness auto

termination
  by (relation "measure (\<lambda>(cs, args, ob). length cs)") (auto dest!: parse_spec_length sym [of _ "parse_spec _"])

text \<open>The buffer afterwards and the C result, the length of the whole text.\<close>

definition kvsnprintf :: "u8 list \<Rightarrow> u8 list \<Rightarrow> parg list \<Rightarrow> (u8 list \<times> nat) option" where
  "kvsnprintf buf fmt args =
     (if length buf = 0 then Some (buf, 0)
      else map_option (\<lambda>(b, idx). (b[(if idx < length b then idx else length b - 1) := 0], idx))
             (fmt_loop fmt args (buf, 0)))"

text \<open>\<open>ksprintf\<close> claims 4096 bytes whatever the caller's array, of \<open>cap\<close> bytes, really has.\<close>

definition ksprintf :: "nat \<Rightarrow> u8 list \<Rightarrow> parg list \<Rightarrow> u8 list option" where
  "ksprintf cap fmt args =
     Option.bind (kvsnprintf (replicate 0x1000 0) fmt args)
       (\<lambda>(b, n). if n < cap then Some (take n b) else None)"

definition kprintf :: "device \<Rightarrow> u8 list \<Rightarrow> parg list \<Rightarrow> unit io option" where
  "kprintf dev fmt args =
     map_option (\<lambda>(b, n). serial_write dev (takeWhile (\<lambda>c. c \<noteq> 0) b)) (kvsnprintf (replicate 512 0) fmt args)"

subsection \<open>What a format denotes\<close>

text \<open>
  The specification: the text of a format is the concatenation of its plain characters and
  of one field per conversion, with no buffer in sight.  A zero flag with a precision gives
  no padding at all.
\<close>

definition field :: "fspec \<Rightarrow> bool \<Rightarrow> u8 list \<Rightarrow> u8 list" where
  "field f negative tmp =
     (let sgn = (if negative then [0x2D] else []);
          gap = width f - length (sgn @ tmp)
      in if left f then sgn @ tmp @ replicate gap 0x20
         else if \<not> zero f then replicate gap 0x20 @ sgn @ tmp
         else if prec f = None then sgn @ replicate gap 0x30 @ tmp
         else sgn @ tmp)"

function format_text :: "u8 list \<Rightarrow> parg list \<Rightarrow> u8 list option" where
  "format_text [] args = Some []"
| "format_text (c # cs) args =
     (if c \<noteq> 0x25 then map_option (Cons c) (format_text cs args)
      else case parse_spec cs of
             (f, []) \<Rightarrow> Some [0x25]
           | (f, k # rest) \<Rightarrow>
               (case convert k (prec f) args of
                  None \<Rightarrow> None
                | Some (neg, tmp, args) \<Rightarrow> map_option (append (field f neg tmp)) (format_text rest args)))"
  by pat_completeness auto

termination
  by (relation "measure (\<lambda>(cs, args). length cs)") (auto dest!: parse_spec_length sym [of _ "parse_spec _"])

lemma put_all_append: "put_all (s @ t) ob = put_all t (put_all s ob)"
  by (simp add: put_all_def)

lemma put_all_simps [simp]: "put_all [] ob = ob" "put_all (c # cs) ob = put_all cs (putc_into c ob)"
  by (simp_all add: put_all_def)

lemma putpad_put_all: "putpad c n ob = put_all (replicate n c) ob"
  by (induction n arbitrary: ob) simp_all

lemma place_field: "place f neg tmp ob = put_all (field f neg tmp) ob"
  by (simp add: place_def field_def Let_def putpad_put_all put_all_append)

lemma fmt_loop_text: "fmt_loop fmt args ob = map_option (\<lambda>t. put_all t ob) (format_text fmt args)"
proof (induction fmt args ob rule: fmt_loop.induct)
  case (2 c cs args ob)
  show ?case
  proof (cases "c = 0x25")
    case False
    then show ?thesis
      using 2(1) by (simp add: option.map_comp comp_def)
  next
    case True
    obtain f r where p: "parse_spec cs = (f, r)"
      by (cases "parse_spec cs")
    show ?thesis
    proof (cases r)
      case Nil
      then show ?thesis using True p by simp
    next
      case (Cons k rest)
      show ?thesis
      proof (cases "convert k (prec f) args")
        case None
        then show ?thesis using True p Cons by simp
      next
        case (Some x)
        then show ?thesis
          using True p Cons 2(2) [OF _ p [symmetric] Cons Some]
          by (cases x) (simp add: option.map_comp comp_def place_field put_all_append)
      qed
    qed
  qed
qed simp

lemma put_all_buffer:
  "buf \<noteq> [] \<Longrightarrow> put_all t (buf, 0) =
     (take (length buf - 1) t @ drop (min (length t) (length buf - 1)) buf, length t)"
proof (induction t rule: rev_induct)
  case (snoc c t)
  show ?case
  proof (cases "length t + 1 < length buf")
    case True
    with snoc show ?thesis
      by (auto simp: put_all_append putc_into_def list_update_append min_def Cons_nth_drop_Suc [symmetric])
  next
    case False
    then have "min (length t) (length buf - 1) = length buf - 1" "min (length (t @ [c])) (length buf - 1) = length buf - 1"
      "take (length buf - 1) (t @ [c]) = take (length buf - 1) t"
      by simp_all
    with False snoc show ?thesis
      by (simp only: put_all_append snoc.IH [OF snoc.prems]) (cases buf; simp add: putc_into_def)
  qed
qed simp

lemma kvsnprintf_text:
  "kvsnprintf buf fmt args =
     (if buf = [] then Some (buf, 0)
      else map_option (\<lambda>t. (take (length buf - 1) t @ [0] @ drop (min (length t) (length buf - 1) + 1) buf, length t))
             (format_text fmt args))"
proof (cases "buf = []")
  case False
  have "(let b = take (length buf - 1) t @ drop (min (length t) (length buf - 1)) buf
         in b[(if length t < length b then length t else length b - 1) := 0])
      = take (length buf - 1) t @ [0] @ drop (min (length t) (length buf - 1) + 1) buf" for t
    using False by (cases "length t < length buf")
      (auto simp: Let_def list_update_append min_def not_less Cons_nth_drop_Suc [symmetric] simp flip: length_greater_0_conv)
  with False show ?thesis
    by (simp add: kvsnprintf_def fmt_loop_text put_all_buffer option.map_comp comp_def Let_def)
qed (simp add: kvsnprintf_def)


lemma ksprintf_text:
  "cap \<le> 0x1000 \<Longrightarrow>
   ksprintf cap fmt args = Option.bind (format_text fmt args) (\<lambda>t. if length t < cap then Some t else None)"
  by (cases "format_text fmt args") (simp_all add: ksprintf_def kvsnprintf_text)

subsection \<open>Printed numbers read back\<close>

definition digit_val :: "u8 \<Rightarrow> nat" where
  "digit_val c = (if c \<le> 0x39 then unat (c - 0x30) else if c \<le> 0x46 then unat (c - 0x41) + 10 else unat (c - 0x61) + 10)"

definition read_number :: "nat \<Rightarrow> u8 list \<Rightarrow> nat" where
  "read_number base cs = foldl (\<lambda>n c. n * base + digit_val c) 0 cs"

lemma digit_cases:
  assumes "unat d < 16"
  shows "digit_val (dig up d) = unat d \<and> (dig up d = 0x30 \<longleftrightarrow> d = 0)"
proof -
  have "list_all (\<lambda>k. digit_val (dig True (of_nat k)) = k \<and> (dig True (of_nat k) = 0x30 \<longleftrightarrow> k = 0) \<and>
      digit_val (dig False (of_nat k)) = k \<and> (dig False (of_nat k) = 0x30 \<longleftrightarrow> k = 0)) [0 ..< 16]"
    by code_simp
  then have "\<forall>k<16. digit_val (dig up (of_nat k)) = k \<and> (dig up (of_nat k) = 0x30 \<longleftrightarrow> k = 0)"
    by (cases up) (simp_all add: list_all_iff)
  then show ?thesis
    using assms by (auto simp: unat_eq_zero dest!: spec [of _ "unat d"])
qed

lemma base_range:
  assumes "2 \<le> base" and "base \<le> (16 :: u32)"
  shows "2 \<le> unat base" and "unat base \<le> 16" and "\<not> base < 2"
proof -
  have "unat (2 :: u32) \<le> unat base" "unat base \<le> unat (16 :: u32)"
    using assms by (simp_all only: word_le_nat_alt)
  then show "2 \<le> unat base" "unat base \<le> 16" by simp_all
  show "\<not> base < 2" using assms(1) by (simp add: not_less)
qed

lemma mod_range: "2 \<le> unat base \<Longrightarrow> unat base \<le> 16 \<Longrightarrow> unat (v mod base :: u32) < 16"
  unfolding unat_mod by (rule less_le_trans [OF mod_less_divisor]) simp_all

lemma rev_digits_value:
  assumes "2 \<le> base" and "base \<le> 16"
  shows "foldr (\<lambda>c n. n * unat base + digit_val c) (rev_digits base up v) 0 = unat v"
  using assms
proof (induction base up v rule: rev_digits.induct)
  case (1 base up v)
  have 2: "2 \<le> unat base" "unat base \<le> 16" "\<not> base < 2"
    by (rule base_range [OF 1(2,3)])+
  show ?case
  proof (cases "v = 0")
    case False
    have "unat (v mod base) < 16"
      by (rule mod_range [OF 2(1,2)])
    with 1 2 False show ?thesis
      by (subst rev_digits.simps) (simp add: digit_cases unat_mod unat_div)
  qed (simp add: rev_digits.simps)
qed

lemma rev_digits_last: "2 \<le> base \<Longrightarrow> base \<le> 16 \<Longrightarrow> v \<noteq> 0 \<Longrightarrow> rev_digits base up v \<noteq> [] \<and> last (rev_digits base up v) \<noteq> 0x30"
proof (induction base up v rule: rev_digits.induct)
  case (1 base up v)
  have 2: "2 \<le> unat base" "unat base \<le> 16" "\<not> base < 2"
    by (rule base_range [OF 1(2,3)])+
  have m: "unat (v mod base) < 16"
    by (rule mod_range [OF 2(1,2)])
  have "v div base = 0 \<Longrightarrow> v mod base \<noteq> 0"
    using 1(4) by (metis add_0 mult_zero_left div_mult_mod_eq)
  with 1 2 m show ?case
    by (cases "v div base = 0"; subst (1 2) rev_digits.simps) (auto simp: digit_cases rev_digits.simps [of base up 0])
qed

text \<open>C26: For every base from 2 to 16 the digits printed for a number read back as that number, whatever
  the case of the letters, and nothing but zero itself starts with the digit \<open>0\<close>.
\<close>

theorem printed_number_reads_back:
  assumes "2 \<le> base" and "base \<le> 16"
  shows "read_number (unat base) (u32_to_str v base up) = unat v \<and>
    (hd (u32_to_str v base up) = 0x30 \<longleftrightarrow> v = 0)"
  using rev_digits_value [OF assms, of up v] rev_digits_last [OF assms, of v up]
  by (auto simp: read_number_def u32_to_str_def foldl_conv_foldr hd_rev rev_digits.simps [of base up 0] digit_val_def)

theorem printed_number_reads_back_witness:
  "read_number 16 (u32_to_str 0xBEEF 16 True) = 0xBEEF \<and> u32_to_str 0xBEEF 16 True = lit ''BEEF''"
  using printed_number_reads_back [where base = 16 and v = "0xBEEF" and up = True]
  by (simp add: u32_to_str_def rev_digits.simps dig_def lit_def)

end
