(* ===== verification/Syscall.thy ===== *)
theory Syscall
  imports Sched Fat Vga Printf
begin

section \<open>System calls (kernel/syscall.c)\<close>

text \<open>
  The open-file table, the thirteen calls and their dispatcher, on the state of the kernel
  components they reach.  Pointers from user space are followed through the page tables of
  the running process; an access the processor refuses is a kernel page fault, which the
  interrupt layer turns into a panic.  An access past the end of one of the kernel's own
  arrays is \<open>Overrun\<close>: the code has no check there, and the model stops.
\<close>

datatype trap = Panic | Overrun

record open_file =
  o_used :: bool
  o_writable :: bool
  o_dirty :: bool
  o_size :: u32
  o_pos :: u32
  o_name :: "u8 list"
  o_data :: "u8 list"

record kernel =
  ks :: sched
  kfat :: fat
  ktimer :: timer
  scr :: screen
  ofiles :: "open_file list"

type_synonym 'a sysret = "trap + ('a \<times> kernel)"

definition USER_MEM_START :: u32 where "USER_MEM_START = 0x200000"
definition USER_MEM_END :: u32 where "USER_MEM_END = 0x300000"
definition MAX_OPEN_FILES :: u32 where "MAX_OPEN_FILES = 8"
definition OFILE_CAP :: u32 where "OFILE_CAP = 2048"
definition FD_FIRST_FILE :: nat where "FD_FIRST_FILE = 3"
definition O_WRONLY :: u32 where "O_WRONLY = 1"
definition O_CREAT :: u32 where "O_CREAT = 2"
definition O_TRUNC :: u32 where "O_TRUNC = 4"

definition user_range_ok :: "u32 \<Rightarrow> u32 \<Rightarrow> bool" where
  "user_range_ok addr len \<longleftrightarrow>
     (if len = 0 then True
      else if addr < USER_MEM_START then False
      else if USER_MEM_END < addr then False
      else if USER_MEM_END - addr < len then False
      else True)"

definition ofile :: "u32 \<Rightarrow> kernel \<Rightarrow> open_file" where
  "ofile fd k = ofiles k ! unat fd"

definition upd_file :: "u32 \<Rightarrow> (open_file \<Rightarrow> open_file) \<Rightarrow> kernel \<Rightarrow> kernel" where
  "upd_file fd f k = k\<lparr>ofiles := (ofiles k)[unat fd := f (ofiles k ! unat fd)]\<rparr>"

definition upg :: "kernel \<Rightarrow> pg_state" where
  "upg k = pg (ks k)"

definition set_upg :: "pg_state \<Rightarrow> kernel \<Rightarrow> kernel" where
  "set_upg p k = k\<lparr>ks := (ks k)\<lparr>pg := p\<rparr>\<rparr>"

subsection \<open>Copy loops between user memory and the kernel's arrays\<close>

fun user_bytes :: "u32 \<Rightarrow> nat \<Rightarrow> pg_state \<Rightarrow> u8 list option" where
  "user_bytes a 0 s = Some []"
| "user_bytes a (Suc n) s =
     (case kld8 a s of None \<Rightarrow> None | Some b \<Rightarrow> map_option (Cons b) (user_bytes (a + 1) n s))"

text \<open>\<open>arr[i + j] = buf[j]\<close> for \<open>j < n\<close>.\<close>

fun copy_in :: "u32 \<Rightarrow> nat \<Rightarrow> nat \<Rightarrow> pg_state \<Rightarrow> u8 list \<Rightarrow> trap + u8 list" where
  "copy_in buf i 0 s arr = Inr arr"
| "copy_in buf i (Suc n) s arr =
     (case kld8 buf s of
        None \<Rightarrow> Inl Panic
      | Some b \<Rightarrow> if i < length arr then copy_in (buf + 1) (i + 1) n s (arr[i := b]) else Inl Overrun)"

text \<open>\<open>buf[j] = arr[i + j]\<close> for \<open>j < n\<close>.\<close>

fun copy_out :: "u32 \<Rightarrow> nat \<Rightarrow> nat \<Rightarrow> u8 list \<Rightarrow> pg_state \<Rightarrow> trap + pg_state" where
  "copy_out buf i 0 arr s = Inr s"
| "copy_out buf i (Suc n) arr s =
     (if i < length arr
      then case kst8 buf (arr ! i) s of None \<Rightarrow> Inl Panic | Some s \<Rightarrow> copy_out (buf + 1) (i + 1) n arr s
      else Inl Overrun)"

text \<open>A kernel array as a C string.\<close>

definition cstring :: "u8 list \<Rightarrow> u8 list" where
  "cstring bs = takeWhile (\<lambda>b. b \<noteq> 0) bs"

subsection \<open>Files\<close>

definition sys_write_file :: "u32 \<Rightarrow> u32 \<Rightarrow> u32 \<Rightarrow> kernel \<Rightarrow> u32 sysret" where
  "sys_write_file fd buf len k =
     (if MAX_OPEN_FILES \<le> fd then Inr (minus1, k)
      else let f = ofile fd k
      in if \<not> o_used f \<or> \<not> o_writable f then Inr (minus1, k)
      else if \<not> user_range_ok buf len then Inr (minus1, k)
      else let room = OFILE_CAP - o_pos f;
               len = (if room < len then room else len)
      in case copy_in buf (unat (o_pos f)) (unat len) (upg k) (o_data f) of
           Inl e \<Rightarrow> Inl e
         | Inr d \<Rightarrow>
             let pos = o_pos f + len;
                 size = (if o_size f < pos then pos else o_size f)
             in Inr (len, upd_file fd (\<lambda>f. f\<lparr>o_data := d, o_pos := pos, o_size := size, o_dirty := True\<rparr>) k))"

definition sys_sync :: "u32 \<Rightarrow> kernel \<Rightarrow> u32 sysret" where
  "sys_sync fd k =
     (if MAX_OPEN_FILES \<le> fd then Inr (minus1, k)
      else let f = ofile fd k
      in if \<not> o_used f \<or> \<not> o_dirty f then Inr (0, k)
      else if length (o_data f) < unat (o_size f) then Inl Overrun
      else let (ok, v) = fat_write (cstring (o_name f)) (take (unat (o_size f)) (o_data f)) (kfat k);
               k = k\<lparr>kfat := v\<rparr>
      in if \<not> ok then Inr (minus1, k)
         else Inr (1, upd_file fd (\<lambda>f. f\<lparr>o_dirty := False\<rparr>) k))"

primrec echo_user :: "device \<Rightarrow> u32 \<Rightarrow> nat \<Rightarrow> pg_state \<Rightarrow> screen \<Rightarrow> screen option" where
  "echo_user dev buf 0 s v = Some v"
| "echo_user dev buf (Suc n) s v =
     (case kld8 buf s of None \<Rightarrow> None | Some c \<Rightarrow> echo_user dev (buf + 1) n s (con_putc dev c v))"

definition refusal :: "u32 \<Rightarrow> u32 \<Rightarrow> u8 list option" where
  "refusal buf len =
     ksprintf 80 (lit ''[sec] sys_write refused %x len=%u'' @ [0x0A]) [Word buf, Word len]"

definition sys_write :: "device \<Rightarrow> u32 \<Rightarrow> u32 \<Rightarrow> u32 \<Rightarrow> kernel \<Rightarrow> u32 sysret" where
  "sys_write dev fd buf len k =
     (if 3 \<le> fd then sys_write_file fd buf len k
      else if 2 < fd then Inr (minus1, k)
      else if \<not> user_range_ok buf len
      then (case refusal buf len of
              None \<Rightarrow> Inl Overrun
            | Some d \<Rightarrow> Inr (minus1, k\<lparr>scr := on_ports (serial_write dev d) (scr k)\<rparr>))
      else (case echo_user dev buf (unat len) (upg k) (scr k) of
              None \<Rightarrow> Inl Panic
            | Some v \<Rightarrow> Inr (len, k\<lparr>scr := v\<rparr>)))"

definition alloc_fd :: "kernel \<Rightarrow> nat option" where
  "alloc_fd k = List.find (\<lambda>i. \<not> o_used (ofiles k ! i)) [FD_FIRST_FILE ..< unat MAX_OPEN_FILES]"

text \<open>\<open>strncpy(f->name, local, 31); f->name[31] = 0\<close>, and \<open>fat_read\<close> into the data array.\<close>

definition copy_name :: "u8 list \<Rightarrow> u8 list \<Rightarrow> u8 list" where
  "copy_name xs old =
     (let bs = strncpy_bytes xs 31 in (bs @ drop (length bs) old)[31 := 0])"

definition overlay :: "u8 list \<Rightarrow> u8 list \<Rightarrow> u8 list" where
  "overlay bs arr = bs @ drop (length bs) arr"

text \<open>\<open>fat_read\<close> straight into the descriptor's data, then its fields.\<close>

definition loaded :: "u8 list option \<Rightarrow> open_file \<Rightarrow> open_file" where
  "loaded r f = (case r of None \<Rightarrow> f | Some d \<Rightarrow> f\<lparr>o_data := overlay d (o_data f)\<rparr>)"

definition opened :: "u8 list \<Rightarrow> u8 list option \<Rightarrow> u32 \<Rightarrow> open_file \<Rightarrow> open_file" where
  "opened path r fl f =
     (let size = (case r of None \<Rightarrow> 0 | Some d \<Rightarrow> of_nat (length d));
          trunc = fl AND O_TRUNC \<noteq> 0
      in f\<lparr>o_used := True, o_writable := fl AND (O_WRONLY OR O_CREAT OR O_TRUNC) \<noteq> 0, o_dirty := trunc,
           o_size := (if trunc then 0 else size), o_pos := 0, o_name := copy_name path (o_name f)\<rparr>)"

definition sys_open :: "u32 \<Rightarrow> u32 \<Rightarrow> u32 \<Rightarrow> kernel \<Rightarrow> u32 sysret" where
  "sys_open name len fl k =
     (if \<not> user_range_ok name len then Inr (minus1, k)
      else if len = 0 \<or> 31 < len then Inr (minus1, k)
      else case user_bytes name (unat len) (upg k) of
        None \<Rightarrow> Inl Panic
      | Some bs \<Rightarrow>
          let path = cstring bs
          in case alloc_fd k of
               None \<Rightarrow> Inr (minus1, k)
             | Some i \<Rightarrow>
                 let (r, v) = fat_read path OFILE_CAP (kfat k);
                     k = k\<lparr>kfat := v\<rparr>
                 in if r = None \<and> fl AND O_CREAT = 0 then Inr (minus1, k)
                    else Inr (of_nat i, upd_file (of_nat i) (\<lambda>f. opened path r fl (loaded r f)) k))"

definition sys_read :: "u32 \<Rightarrow> u32 \<Rightarrow> u32 \<Rightarrow> kernel \<Rightarrow> u32 sysret" where
  "sys_read fd buf len k =
     (if MAX_OPEN_FILES \<le> fd then Inr (minus1, k)
      else let f = ofile fd k
      in if \<not> o_used f then Inr (minus1, k)
      else if \<not> user_range_ok buf len then Inr (minus1, k)
      else let avail = o_size f - o_pos f;
               len = (if avail < len then avail else len)
      in case copy_out buf (unat (o_pos f)) (unat len) (o_data f) (upg k) of
           Inl e \<Rightarrow> Inl e
         | Inr p \<Rightarrow> Inr (len, upd_file fd (\<lambda>f. f\<lparr>o_pos := o_pos f + len\<rparr>) (set_upg p k)))"

definition sys_close :: "u32 \<Rightarrow> kernel \<Rightarrow> u32 sysret" where
  "sys_close fd k =
     (if MAX_OPEN_FILES \<le> fd then Inr (minus1, k)
      else if \<not> o_used (ofile fd k) then Inr (minus1, k)
      else case sys_sync fd k of
             Inl e \<Rightarrow> Inl e
           | Inr (rc, k) \<Rightarrow>
               Inr ((if rc = minus1 then minus1 else 0),
                    upd_file fd (\<lambda>f. f\<lparr>o_used := False, o_writable := False, o_dirty := False\<rparr>) k))"

text \<open>Bytes stored through a user pointer, one access each.\<close>

primrec store_user :: "u8 list \<Rightarrow> u32 \<Rightarrow> pg_state \<Rightarrow> pg_state option" where
  "store_user [] a s = Some s"
| "store_user (b # bs) a s = Option.bind (kst8 a b s) (store_user bs (a + 1))"

definition u32_bytes :: "u32 \<Rightarrow> u8 list" where
  "u32_bytes v = [d2b v, d2b (drop_bit 8 v), d2b (drop_bit 16 v), d2b (drop_bit 24 v)]"

subsection \<open>The calls handled in the dispatcher itself\<close>

text \<open>All arithmetic on 32 bits: \<open>np\<close> is the wrapped sum, clamped between 0 and the capacity.\<close>

definition lseek_to :: "u32 \<Rightarrow> u32 \<Rightarrow> open_file \<Rightarrow> u32" where
  "lseek_to off whence f =
     (let base = (if whence = 0 then 0 else if whence = 1 then o_pos f else o_size f);
          np = base + off;
          np = (if np <s 0 then 0 else np)
      in if OFILE_CAP < np then OFILE_CAP else np)"

definition sys_lseek :: "u32 \<Rightarrow> u32 \<Rightarrow> u32 \<Rightarrow> kernel \<Rightarrow> u32 sysret" where
  "sys_lseek fd off whence k =
     (if MAX_OPEN_FILES \<le> fd then Inr (minus1, k)
      else if \<not> o_used (ofile fd k) then Inr (minus1, k)
      else let p = lseek_to off whence (ofile fd k)
           in Inr (p, upd_file fd (\<lambda>f. f\<lparr>o_pos := p\<rparr>) k))"

definition sys_unlink :: "u32 \<Rightarrow> u32 \<Rightarrow> kernel \<Rightarrow> u32 sysret" where
  "sys_unlink name len k =
     (if \<not> user_range_ok name len \<or> len = 0 \<or> 31 < len then Inr (minus1, k)
      else case user_bytes name (unat len) (upg k) of
        None \<Rightarrow> Inl Panic
      | Some bs \<Rightarrow> let (ok, v) = fat_delete (cstring bs) (kfat k)
                   in Inr ((if ok then 0 else minus1), k\<lparr>kfat := v\<rparr>))"

definition sys_stat :: "u32 \<Rightarrow> u32 \<Rightarrow> u32 \<Rightarrow> kernel \<Rightarrow> u32 sysret" where
  "sys_stat name len out k =
     (if \<not> user_range_ok name len \<or> len = 0 \<or> 31 < len then Inr (minus1, k)
      else case user_bytes name (unat len) (upg k) of
        None \<Rightarrow> Inl Panic
      | Some bs \<Rightarrow>
          (case fat_stat (cstring bs) (kfat k) of
             (None, v) \<Rightarrow> Inr (minus1, k\<lparr>kfat := v\<rparr>)
           | (Some (sz, cluster, attr), v) \<Rightarrow>
               if out \<noteq> 0 \<and> user_range_ok out 4
               then (case store_user (u32_bytes sz) out (upg k) of
                       None \<Rightarrow> Inl Panic
                     | Some p \<Rightarrow> Inr (0, set_upg p (k\<lparr>kfat := v\<rparr>)))
               else Inr (0, k\<lparr>kfat := v\<rparr>)))"

definition sys_sleep :: "u32 \<Rightarrow> kernel \<Rightarrow> u32 sysret" where
  "sys_sleep want k =
     (let want = (if 1000 < want then 1000 else want)
      in Inr (0, k\<lparr>ks := upd_task (current (ks k)) (slice_left_update (\<lambda>_. if want \<noteq> 0 then want else 1)) (ks k)\<rparr>))"

definition sys_brk :: "u32 \<Rightarrow> u32" where
  "sys_brk addr = (if addr = 0 then USER_MEM_END else minus1)"

text \<open>\<open>r\<close> is the address of the caller's frame, which the child's is copied from.\<close>

definition sys_fork :: "u32 \<Rightarrow> kernel \<Rightarrow> u32 sysret" where
  "sys_fork r k =
     (let cur = sched_current_task (ks k)
      in if flags cur = TASK_USER
         then (case task_fork_user (cstring (tname cur)) r (task_cr3 cur) (ks k) of
                 None \<Rightarrow> Inl Panic
               | Some (child, s) \<Rightarrow> Inr (child, k\<lparr>ks := s\<rparr>))
         else Inr (minus1, k))"

subsection \<open>The dispatcher\<close>

text \<open>
  The frame \<open>struct regs\<close> the interrupt stub pushed, at address \<open>r\<close>: \<open>ebx\<close>, \<open>edx\<close>, \<open>ecx\<close> and \<open>eax\<close>
  are at offsets 32, 36, 40 and 44.  The result goes back in \<open>eax\<close>, and the call returns to its
  caller unless the process ended.
\<close>

definition frame_reg :: "u32 \<Rightarrow> u32 \<Rightarrow> kernel \<Rightarrow> u32" where
  "frame_reg r off k = load32 (ram (upg k)) (r + off)"

definition set_eax :: "u32 \<Rightarrow> u32 \<Rightarrow> kernel \<Rightarrow> kernel" where
  "set_eax r v k = k\<lparr>ks := set_ram (\<lambda>m. store32 m (r + 44) v) (ks k)\<rparr>"

definition syscall_result :: "device \<Rightarrow> u32 \<Rightarrow> u32 \<Rightarrow> u32 \<Rightarrow> u32 \<Rightarrow> u32 \<Rightarrow> kernel \<Rightarrow> u32 sysret" where
  "syscall_result dev r nr b c d k =
     (if nr = 0 then sys_write dev b c d k
      else if nr = 1 then Inr (sched_current_pid (ks k), k)
      else if nr = 3 then sys_fork r k
      else if nr = 4 then sys_open b c d k
      else if nr = 5 then sys_read b c d k
      else if nr = 6 then sys_close b k
      else if nr = 7 then sys_sleep b k
      else if nr = 9 then sys_lseek b c d k
      else if nr = 10 then sys_unlink b c k
      else if nr = 11 then sys_stat b c d k
      else if nr = 12 then Inr (timer_ticks (ktimer k), k)
      else if nr = 8 then Inr (sys_brk b, k)
      else Inr (minus1, k))"

definition syscall_dispatch :: "device \<Rightarrow> u32 \<Rightarrow> kernel \<Rightarrow> outcome sysret" where
  "syscall_dispatch dev r k =
     (if frame_reg r 44 k = 2
      then (case sched_exit_current (ks k) of
              None \<Rightarrow> Inl Panic
            | Some (oc, s) \<Rightarrow> Inr (oc, k\<lparr>ks := s\<rparr>))
      else (case syscall_result dev r (frame_reg r 44 k) (frame_reg r 32 k) (frame_reg r 40 k) (frame_reg r 36 k) k of
              Inl e \<Rightarrow> Inl e
            | Inr (v, k) \<Rightarrow> Inr (Stay, set_eax r v k)))"

subsection \<open>Ranges a process may name\<close>

lemma range_ok_nat:
  "user_range_ok addr len \<longleftrightarrow>
     len = 0 \<or> (0x200000 \<le> unat addr \<and> unat addr + unat len \<le> 0x300000)"
proof -
  have le: "USER_MEM_START \<le> addr \<longleftrightarrow> 0x200000 \<le> unat addr" "addr \<le> USER_MEM_END \<longleftrightarrow> unat addr \<le> 0x300000"
    by (simp_all add: USER_MEM_START_def USER_MEM_END_def word_le_nat_alt)
  have "len \<le> USER_MEM_END - addr \<longleftrightarrow> unat addr + unat len \<le> 0x300000" if "addr \<le> USER_MEM_END"
    using that by (subst word_le_nat_alt) (auto simp: unat_sub USER_MEM_END_def word_le_nat_alt)
  with le show ?thesis
    by (auto simp: user_range_ok_def not_less not_le simp del: not_le)
qed

subsection \<open>The open-file table\<close>

definition file_ok :: "open_file \<Rightarrow> bool" where
  "file_ok f \<longleftrightarrow> length (o_data f) = 2048 \<and> length (o_name f) = 32 \<and> o_name f ! 31 = 0 \<and>
     o_size f \<le> 2048 \<and> o_pos f \<le> 2048"

definition files_ok :: "open_file list \<Rightarrow> bool" where
  "files_ok fs \<longleftrightarrow> length fs = 8 \<and> list_all file_ok fs \<and> \<not> o_used (fs ! 0) \<and> \<not> o_used (fs ! 1) \<and> \<not> o_used (fs ! 2)"

lemma files_okD: "files_ok fs \<Longrightarrow> i < 8 \<Longrightarrow> file_ok (fs ! i)"
  by (simp add: files_ok_def list_all_length)

lemma files_ok_update:
  assumes "files_ok fs" and "i < 8" and "file_ok f" and "o_used f \<Longrightarrow> o_used (fs ! i) \<or> 3 \<le> i"
  shows "files_ok (fs[i := f])"
  using assms by (auto simp: files_ok_def list_all_length nth_list_update numeral_2_eq_2)

lemma fd_index: "\<not> MAX_OPEN_FILES \<le> fd \<Longrightarrow> unat fd < 8"
  by (simp add: MAX_OPEN_FILES_def not_le word_less_nat_alt)

lemma upd_file_sel [simp]:
  "ofiles (upd_file fd f k) = (ofiles k)[unat fd := f (ofiles k ! unat fd)]"
  "ks (upd_file fd f k) = ks k" "kfat (upd_file fd f k) = kfat k" "scr (upd_file fd f k) = scr k"
  "ktimer (upd_file fd f k) = ktimer k"
  by (simp_all add: upd_file_def)

lemma set_upg_sel [simp]: "ofiles (set_upg p k) = ofiles k" "kfat (set_upg p k) = kfat k" "upg (set_upg p k) = p"
  by (simp_all add: set_upg_def upg_def)

lemma copy_in_length: "copy_in buf i n s arr = Inr arr' \<Longrightarrow> length arr' = length arr"
  by (induction buf i n s arr rule: copy_in.induct) (auto split: option.splits if_splits)

lemma copy_in_bound: "copy_in buf i n s arr = Inr arr' \<Longrightarrow> n = 0 \<or> i + n \<le> length arr"
  by (induction buf i n s arr rule: copy_in.induct) (fastforce split: option.splits if_splits)+

lemma copy_out_bound: "copy_out buf i n arr s = Inr s' \<Longrightarrow> n = 0 \<or> i + n \<le> length arr"
  by (induction buf i n arr s rule: copy_out.induct) (fastforce split: option.splits if_splits)+

lemma pos_bound:
  assumes "unat p \<le> 2048" and "unat n = 0 \<or> unat p + unat n \<le> 2048"
  shows "p + n \<le> (2048 :: u32)"
proof -
  have "unat (p + n) = unat p + unat n"
    using assms by (intro unat_add_no_wrap) auto
  then show ?thesis
    using assms by (auto simp: word_le_nat_alt)
qed

lemma strncpy_bytes_31: "length (strncpy_bytes xs 31) \<le> 32"
  by (simp add: strncpy_bytes_def)

lemma copy_name_ok: "length old = 32 \<Longrightarrow> length (copy_name xs old) = 32 \<and> copy_name xs old ! 31 = 0"
  using strncpy_bytes_31 [of xs] by (simp add: copy_name_def Let_def)

lemma overlay_length: "length bs \<le> length arr \<Longrightarrow> length (overlay bs arr) = length arr"
  by (simp add: overlay_def)

lemma read_sectors_length:
  "read_sectors ls fsize mx out s = Some out' \<Longrightarrow> length out \<le> mx \<Longrightarrow> length out' \<le> mx"
  by (induction ls arbitrary: out) (fastforce simp: Let_def split: if_splits)+

lemma read_chain_length:
  "read_chain g c fsize mx out s = (Some out', s') \<Longrightarrow> length out \<le> mx \<Longrightarrow> length out' \<le> mx"
proof (induction g c fsize mx out s rule: read_chain.induct)
  case (2 g c fsize mx out s)
  then show ?case
    by (auto simp: Let_def split: if_splits option.splits prod.splits dest: read_sectors_length)
qed simp

lemma fat_read_length: "fat_read nm mx s = (Some d, s') \<Longrightarrow> length d \<le> unat mx"
  by (auto simp: fat_read_def Let_def split: if_splits option.splits prod.splits dest: read_chain_length)

text \<open>What the calls leave of the table; \<open>file_cases\<close> opens their definitions.\<close>

lemmas file_cases = sum.splits option.splits if_splits prod.splits

lemma sys_write_file_ok:
  assumes "files_ok (ofiles k)" and "sys_write_file fd buf len k = Inr (v, k')"
  shows "files_ok (ofiles k')"
proof (cases "k' = k")
  case False
  define f where "f = ofile fd k"
  define n where "n = (if OFILE_CAP - o_pos f < len then OFILE_CAP - o_pos f else len)"
  from False assms(2) obtain d where fd: "\<not> MAX_OPEN_FILES \<le> fd" and u: "o_used f"
    and c: "copy_in buf (unat (o_pos f)) (unat n) (upg k) (o_data f) = Inr d"
    and k': "k' = upd_file fd (\<lambda>f. f\<lparr>o_data := d, o_pos := o_pos (ofile fd k) + n,
       o_size := (if o_size (ofile fd k) < o_pos (ofile fd k) + n then o_pos (ofile fd k) + n else o_size (ofile fd k)),
       o_dirty := True\<rparr>) k"
    unfolding sys_write_file_def Let_def f_def n_def by (auto split: file_cases)
  have i: "unat fd < 8" by (rule fd_index [OF fd])
  have f: "file_ok f" using files_okD [OF assms(1) i] by (simp add: f_def ofile_def)
  have "unat (o_pos f) \<le> 2048" using f by (simp add: file_ok_def word_le_nat_alt)
  then have p: "o_pos f + n \<le> 2048"
    using copy_in_bound [OF c] f by (intro pos_bound) (auto simp: file_ok_def)
  show ?thesis
    unfolding k' upd_file_sel
    using f p u copy_in_length [OF c] i
    by (intro files_ok_update [OF assms(1) i]) (auto simp: file_ok_def f_def ofile_def)
qed (use assms in simp)

lemma sys_read_ok:
  assumes "files_ok (ofiles k)" and "sys_read fd buf len k = Inr (v, k')"
  shows "files_ok (ofiles k')"
proof (cases "k' = k")
  case False
  define f where "f = ofile fd k"
  define n where "n = (if o_size f - o_pos f < len then o_size f - o_pos f else len)"
  from False assms(2) obtain p where fd: "\<not> MAX_OPEN_FILES \<le> fd" and u: "o_used f"
    and c: "copy_out buf (unat (o_pos f)) (unat n) (o_data f) (upg k) = Inr p"
    and k': "k' = upd_file fd (\<lambda>f. f\<lparr>o_pos := o_pos f + n\<rparr>) (set_upg p k)"
    unfolding sys_read_def Let_def f_def n_def by (auto split: file_cases)
  have i: "unat fd < 8" by (rule fd_index [OF fd])
  have f: "file_ok f" using files_okD [OF assms(1) i] by (simp add: f_def ofile_def)
  have "unat (o_pos f) \<le> 2048" using f by (simp add: file_ok_def word_le_nat_alt)
  then have p: "o_pos f + n \<le> 2048"
    using copy_out_bound [OF c] f by (intro pos_bound) (auto simp: file_ok_def)
  show ?thesis
    unfolding k' upd_file_sel set_upg_sel
    using f p u i
    by (intro files_ok_update [OF assms(1) i]) (auto simp: file_ok_def f_def ofile_def)
qed (use assms in simp)

lemma sys_sync_ok:
  assumes "files_ok (ofiles k)" and "sys_sync fd k = Inr (v, k')"
  shows "files_ok (ofiles k')"
proof (cases "MAX_OPEN_FILES \<le> fd")
  case False
  note i = fd_index [OF False]
  note f = files_okD [OF assms(1) i]
  have "files_ok ((ofiles k)[unat fd := (ofiles k ! unat fd)\<lparr>o_dirty := False\<rparr>])"
    using f by (intro files_ok_update [OF assms(1) i]) (auto simp: file_ok_def)
  with assms i show ?thesis
    unfolding sys_sync_def Let_def
    by (auto split: file_cases)
qed (use assms in \<open>simp add: sys_sync_def\<close>)

lemma sys_close_ok:
  assumes "files_ok (ofiles k)" and "sys_close fd k = Inr (v, k')"
  shows "files_ok (ofiles k')"
proof (cases "k' = k")
  case False
  with assms(2) obtain rc k1 where fd: "\<not> MAX_OPEN_FILES \<le> fd" and s: "sys_sync fd k = Inr (rc, k1)"
    and k': "k' = upd_file fd (\<lambda>f. f\<lparr>o_used := False, o_writable := False, o_dirty := False\<rparr>) k1"
    unfolding sys_close_def Let_def by (auto split: file_cases)
  note i = fd_index [OF fd]
  have ok: "files_ok (ofiles k1)"
    by (rule sys_sync_ok [OF assms(1) s])
  show ?thesis
    unfolding k' upd_file_sel
    using files_okD [OF ok i] by (intro files_ok_update [OF ok i]) (auto simp: file_ok_def)
qed (use assms in simp)

lemma sys_lseek_ok:
  assumes "files_ok (ofiles k)" and "sys_lseek fd off whence k = Inr (v, k')"
  shows "files_ok (ofiles k')"
proof (cases "k' = k")
  case False
  define p where "p = lseek_to off whence (ofile fd k)"
  from False assms(2) have fd: "\<not> MAX_OPEN_FILES \<le> fd" and k': "k' = upd_file fd (\<lambda>f. f\<lparr>o_pos := p\<rparr>) k"
    unfolding sys_lseek_def Let_def p_def by (auto split: file_cases)
  note i = fd_index [OF fd]
  have "p \<le> 2048"
    by (auto simp: p_def lseek_to_def Let_def OFILE_CAP_def not_less)
  then show ?thesis
    unfolding k' upd_file_sel
    using files_okD [OF assms(1) i] by (intro files_ok_update [OF assms(1) i]) (auto simp: file_ok_def)
qed (use assms in simp)

lemma find_SomeD: "List.find P xs = Some x \<Longrightarrow> x \<in> set xs \<and> P x"
  by (induction xs) (auto split: if_splits)

lemma alloc_fd_range: "alloc_fd k = Some i \<Longrightarrow> 3 \<le> i \<and> i < 8 \<and> \<not> o_used (ofiles k ! i)"
  unfolding alloc_fd_def by (drule find_SomeD) (auto simp: FD_FIRST_FILE_def MAX_OPEN_FILES_def)

lemma loaded_ok:
  assumes "file_ok f" and "\<And>d. r = Some d \<Longrightarrow> length d \<le> 2048"
  shows "file_ok (loaded r f)"
  using assms by (auto simp: loaded_def file_ok_def overlay_length split: option.splits)

lemma opened_ok:
  assumes "file_ok f" and "\<And>d. r = Some d \<Longrightarrow> length d \<le> 2048"
  shows "file_ok (opened path r fl f)"
proof -
  have "r = Some d \<Longrightarrow> (of_nat (length d) :: u32) \<le> 2048" for d
    using assms(2) [of d] by (simp add: word_le_nat_alt unat_of_nat32)
  then show ?thesis
    using assms(1) by (auto simp: opened_def file_ok_def copy_name_ok Let_def split: option.splits)
qed

lemma sys_open_ok:
  assumes "files_ok (ofiles k)" and "sys_open name len fl k = Inr (v, k')"
  shows "files_ok (ofiles k')"
proof (cases "ofiles k' = ofiles k")
  case False
  obtain bs where bs: "user_bytes name (unat len) (upg k) = Some bs"
    using assms(2) False by (cases "user_bytes name (unat len) (upg k)") (auto simp: sys_open_def split: if_splits)
  obtain i where fd: "alloc_fd k = Some i"
    using assms(2) False bs by (cases "alloc_fd k") (auto simp: sys_open_def Let_def split: if_splits)
  obtain r u where r: "fat_read (cstring bs) OFILE_CAP (kfat k) = (r, u)"
    by (cases "fat_read (cstring bs) OFILE_CAP (kfat k)")
  have k': "k' = upd_file (of_nat i) (\<lambda>f. opened (cstring bs) r fl (loaded r f)) (k\<lparr>kfat := u\<rparr>)"
    using assms(2) False by (auto simp: sys_open_def bs fd r Let_def split: if_splits)
  have i: "3 \<le> i" "i < 8" "unat (of_nat i :: u32) = i"
    using alloc_fd_range [OF fd] by (auto simp: unat_of_nat32)
  have l: "r = Some d \<Longrightarrow> length d \<le> 2048" for d
    using fat_read_length [of "cstring bs" OFILE_CAP "kfat k" d u] r by (auto simp: OFILE_CAP_def)
  show ?thesis
    unfolding k' upd_file_sel i(3) using i(1,2) files_okD [OF assms(1) i(2)] l
    by (intro files_ok_update) (auto simp: assms(1) intro!: opened_ok loaded_ok)
qed (use assms in simp)

lemma other_calls_ok:
  "sys_write dev fd buf len k = Inr (v, k') \<Longrightarrow> files_ok (ofiles k) \<Longrightarrow> files_ok (ofiles k')"
  "sys_fork r k = Inr (v, k') \<Longrightarrow> files_ok (ofiles k) \<Longrightarrow> files_ok (ofiles k')"
  "sys_sleep w k = Inr (v, k') \<Longrightarrow> files_ok (ofiles k) \<Longrightarrow> files_ok (ofiles k')"
  "sys_unlink nm len k = Inr (v, k') \<Longrightarrow> files_ok (ofiles k) \<Longrightarrow> files_ok (ofiles k')"
  "sys_stat nm len out k = Inr (v, k') \<Longrightarrow> files_ok (ofiles k) \<Longrightarrow> files_ok (ofiles k')"
proof -
  show "sys_write dev fd buf len k = Inr (v, k') \<Longrightarrow> files_ok (ofiles k) \<Longrightarrow> files_ok (ofiles k')"
    unfolding sys_write_def by (auto split: file_cases dest: sys_write_file_ok)
  show "sys_fork r k = Inr (v, k') \<Longrightarrow> files_ok (ofiles k) \<Longrightarrow> files_ok (ofiles k')"
    unfolding sys_fork_def Let_def by (auto split: file_cases)
  show "sys_sleep w k = Inr (v, k') \<Longrightarrow> files_ok (ofiles k) \<Longrightarrow> files_ok (ofiles k')"
    unfolding sys_sleep_def Let_def by auto
  show "sys_unlink nm len k = Inr (v, k') \<Longrightarrow> files_ok (ofiles k) \<Longrightarrow> files_ok (ofiles k')"
    unfolding sys_unlink_def Let_def by (auto split: file_cases)
  show "sys_stat nm len out k = Inr (v, k') \<Longrightarrow> files_ok (ofiles k) \<Longrightarrow> files_ok (ofiles k')"
    unfolding sys_stat_def Let_def by (auto split: file_cases)
qed

lemma syscall_result_ok:
  "syscall_result dev r nr b c d k = Inr (v, k') \<Longrightarrow> files_ok (ofiles k) \<Longrightarrow> files_ok (ofiles k')"
  unfolding syscall_result_def
  by (auto split: if_splits dest: other_calls_ok sys_open_ok sys_read_ok sys_close_ok sys_lseek_ok)

lemma set_eax_files [simp]: "ofiles (set_eax r v k) = ofiles k"
  by (simp add: set_eax_def)

lemma open_files_ok: "files_ok (ofiles k) \<Longrightarrow> syscall_dispatch dev r k = Inr (oc, k') \<Longrightarrow> files_ok (ofiles k')"
  unfolding syscall_dispatch_def by (auto split: file_cases dest: syscall_result_ok)


text \<open>C27: The range check admits exactly the ranges all of whose bytes, counted without wrap-around,
  lie in the user window from \<open>0x200000\<close> to \<open>0x300000\<close>; the empty range is always admitted.
\<close>

theorem user_range_confines:
  "user_range_ok addr len \<longleftrightarrow> (\<forall>i\<in>{..< unat len}. 0x200000 \<le> unat addr + i \<and> unat addr + i < 0x300000)"
proof (cases "len = 0")
  case False
  then have "0 < unat len" by (simp add: unat_gt_0)
  then have "(\<forall>i\<in>{..< unat len}. 0x200000 \<le> unat addr + i \<and> unat addr + i < 0x300000) \<longleftrightarrow>
      0x200000 \<le> unat addr \<and> unat addr + (unat len - 1) < 0x300000"
    by (auto dest: bspec [of _ _ 0] bspec [of _ _ "unat len - 1"])
  with False \<open>0 < unat len\<close> show ?thesis
    by (auto simp: range_ok_nat)
qed (simp add: range_ok_nat)

theorem user_range_confines_witness:
  "user_range_ok 0x2FFFFF 1 \<and> \<not> user_range_ok 0x2FFFFF 2 \<and> \<not> user_range_ok 0x200000 0xFFFFFFFF"
  unfolding user_range_confines by (auto dest: bspec [of _ _ 1] bspec [of _ _ "0x200000"])

subsection \<open>Reading back what was written\<close>

lemma copy_in_bytes:
  "copy_in buf i n s arr = Inr arr' \<Longrightarrow>
   \<exists>bs. user_bytes buf n s = Some bs \<and> length bs = n \<and> (n = 0 \<or> i + n \<le> length arr) \<and>
     arr' = take i arr @ bs @ drop (i + n) arr"
proof (induction buf i n s arr rule: copy_in.induct)
  case (2 buf i n s arr)
  from 2(2) obtain b where b: "kld8 buf s = Some b" and i: "i < length arr"
    and c: "copy_in (buf + 1) (i + 1) n s (arr[i := b]) = Inr arr'"
    by (auto split: option.splits if_splits)
  from 2(1) [OF b i c] obtain bs where bs: "user_bytes (buf + 1) n s = Some bs" "length bs = n"
    "n = 0 \<or> i + 1 + n \<le> length arr" "arr' = take (i + 1) (arr[i := b]) @ bs @ drop (i + 1 + n) (arr[i := b])"
    by auto
  from bs(4) i have "arr' = take i arr @ (b # bs) @ drop (i + Suc n) arr"
    by (simp add: take_Suc_conv_app_nth)
  with b bs i show ?case by auto
qed simp

lemma copy_out_bytes:
  "i + length bs \<le> length arr \<Longrightarrow> take (length bs) (drop i arr) = bs \<Longrightarrow>
   copy_out dst i (length bs) arr s = (case store_user bs dst s of None \<Rightarrow> Inl Panic | Some p \<Rightarrow> Inr p)"
proof (induction bs arbitrary: dst i s)
  case (Cons b bs)
  then have "arr ! i = b" "take (length bs) (drop (i + 1) arr) = bs"
    by (simp_all add: Cons_nth_drop_Suc [symmetric])
  with Cons show ?case
    by (auto split: option.splits)
qed simp

lemma small_not_negative: "p \<le> 2048 \<Longrightarrow> \<not> p <s (0 :: u32)"
proof -
  assume "p \<le> 2048"
  then have "uint p \<le> 2048" by (simp add: word_le_def)
  moreover have "- (2 ^ 31) \<le> uint p"
    by (rule order_trans [OF _ uint_ge_0]) simp
  ultimately have "sint p = uint p"
    unfolding sint_uint by (intro signed_take_bit_int_eq_self) simp_all
  then show ?thesis by (simp add: word_sless_alt)
qed

text \<open>C29: What a process writes to a file it reads back: after a write that stored \<open>n\<close> bytes, seeking to
  where the write began succeeds, and a read of \<open>n\<close> bytes delivers to any admissible buffer
  exactly the \<open>n\<close> bytes the write took from memory.
\<close>

theorem write_seek_read:
  assumes "files_ok (ofiles k)" and "3 \<le> fd"
    and "sys_write dev fd buf len k = Inr (n, k1)" and "n \<noteq> minus1" and "user_range_ok dst n"
  shows "\<exists>bs k2. user_bytes buf (unat n) (upg k) = Some bs \<and> length bs = unat n \<and>
    sys_lseek fd (o_pos (ofile fd k)) 0 k1 = Inr (o_pos (ofile fd k), k2) \<and>
    sys_read fd dst n k2 =
      (case store_user bs dst (upg k) of
         None \<Rightarrow> Inl Panic
       | Some p \<Rightarrow> Inr (n, upd_file fd (\<lambda>f. f\<lparr>o_pos := o_pos (ofile fd k1)\<rparr>) (set_upg p k2)))"
proof -
  define f where "f = ofile fd k"
  have w: "sys_write_file fd buf len k = Inr (n, k1)"
    using assms(2,3) by (simp add: sys_write_def)
  define sz where "sz = (if o_size f < o_pos f + n then o_pos f + n else o_size f)"
  from w assms(4) obtain d where fd: "\<not> MAX_OPEN_FILES \<le> fd" and u: "o_used f"
    and c: "copy_in buf (unat (o_pos f)) (unat n) (upg k) (o_data f) = Inr d"
    and k1: "k1 = upd_file fd (\<lambda>f. f\<lparr>o_data := d, o_pos := o_pos (ofile fd k) + n, o_size := sz, o_dirty := True\<rparr>) k"
    unfolding sys_write_file_def Let_def f_def [symmetric] sz_def
    by (auto split: file_cases)
  have i: "unat fd < 8" by (rule fd_index [OF fd])
  have f: "file_ok f" using files_okD [OF assms(1) i] by (simp add: f_def ofile_def)
  have l: "length (ofiles k) = 8" using assms(1) by (simp add: files_ok_def)
  have f1: "ofile fd k1 = f\<lparr>o_data := d, o_pos := o_pos f + n, o_size := sz, o_dirty := True\<rparr>"
    using i l by (simp add: k1 ofile_def f_def)
  obtain bs where bs: "user_bytes buf (unat n) (upg k) = Some bs" "length bs = unat n"
    "unat n = 0 \<or> unat (o_pos f) + unat n \<le> length (o_data f)"
    "d = take (unat (o_pos f)) (o_data f) @ bs @ drop (unat (o_pos f) + unat n) (o_data f)"
    using copy_in_bytes [OF c] by auto
  have p: "o_pos f \<le> 2048" "unat (o_pos f) \<le> 2048" "length (o_data f) = 2048"
    using f by (auto simp: file_ok_def word_le_nat_alt)
  have pn: "unat (o_pos f + n) = unat (o_pos f) + unat n"
    using bs(3) p by (intro unat_add_no_wrap) auto
  have "unat (o_pos f) + unat n \<le> unat sz"
    unfolding sz_def using pn by (auto simp: word_less_nat_alt)
  then have avail: "\<not> sz - o_pos f < n" 
    by (simp add: word_less_nat_alt unat_sub word_le_nat_alt)
  define k2 where "k2 = upd_file fd (\<lambda>f. f\<lparr>o_pos := o_pos (ofile fd k)\<rparr>) k1"
  have seek: "sys_lseek fd (o_pos f) 0 k1 = Inr (o_pos f, k2)"
    using fd u p(1) by (simp add: sys_lseek_def f1 lseek_to_def small_not_negative OFILE_CAP_def k2_def f_def Let_def leD)
  have f2: "ofile fd k2 = f\<lparr>o_data := d, o_size := sz, o_dirty := True\<rparr>"
    using i l by (simp add: k2_def k1 ofile_def f_def)
  have copy: "copy_out dst (unat (o_pos f)) (unat n) d (upg k2)
      = (case store_user bs dst (upg k2) of None \<Rightarrow> Inl Panic | Some p \<Rightarrow> Inr p)"
    using copy_out_bytes [of "unat (o_pos f)" bs d dst "upg k2"] bs p by auto
  have "upg k2 = upg k"
    by (simp add: k2_def k1 upg_def)
  with copy have "sys_read fd dst n k2 =
      (case store_user bs dst (upg k) of
         None \<Rightarrow> Inl Panic
       | Some p \<Rightarrow> Inr (n, upd_file fd (\<lambda>f. f\<lparr>o_pos := o_pos (ofile fd k1)\<rparr>) (set_upg p k2)))"
    using fd u assms(5) avail by (simp add: sys_read_def f2 f1 f2 [unfolded ofile_def] Let_def upd_file_def split: option.splits)
  with bs(1,2) seek show ?thesis
    by (auto simp: f_def)
qed


subsection \<open>A kernel with one process and one open file\<close>

definition idle_dev :: device where
  "idle_dev = \<lparr>rd8 = (\<lambda>h p. 0x20), rd16 = (\<lambda>h p. 0)\<rparr>"

definition closed_file :: open_file where
  "closed_file = \<lparr>o_used = False, o_writable = False, o_dirty = False, o_size = 0, o_pos = 0,
     o_name = replicate 32 0, o_data = replicate 2048 0\<rparr>"

definition file_kernel :: "open_file \<Rightarrow> kernel" where
  "file_kernel f = \<lparr>ks = fresh_sched run_pg, kfat = blank_vol, ktimer = \<lparr>ticks = 0, freq = 100\<rparr>, scr = blank_screen,
     ofiles = [closed_file, closed_file, closed_file, f, closed_file, closed_file, closed_file, closed_file]\<rparr>"

definition rw_file :: open_file where
  "rw_file = closed_file\<lparr>o_used := True, o_writable := True\<rparr>"

lemma file_kernel_ok: "file_ok f \<Longrightarrow> files_ok (ofiles (file_kernel f))"
  by (simp add: file_kernel_def files_ok_def closed_file_def file_ok_def)

lemma file_kernel_simps [simp]: "ofile 3 (file_kernel f) = f" "upg (file_kernel f) = run_pg"
  by (simp_all add: file_kernel_def ofile_def upg_def fresh_sched_def)

lemma rw_file_ok: "file_ok rw_file"
  by (simp add: rw_file_def closed_file_def file_ok_def)

lemma run_pg_load:
  assumes "fno va = 512"
  shows "\<exists>b. kld8 va run_pg = Some b"
proof -
  have A: "addr_space (ram run_pg) (mm run_pg) (cr3 run_pg)"
    using run_pg(1) by (simp add: proc_ok_def kernel_ok_def)
  have "fno va < 1024" using assms by simp
  then show ?thesis
    using walk_uent [OF A, of va] run_pg(3) assms by (auto simp: kld8_def ktrans_def pte_allows_def uentP_def)
qed

definition zero_kernel :: kernel where
  "zero_kernel = set_upg (run_pg\<lparr>ram := (\<lambda>_. 0)\<rparr>) (file_kernel rw_file)"

lemma zero_kernel_call:
  "syscall_dispatch idle_dev 0x9F000 zero_kernel = Inr (Stay, set_eax 0x9F000 0 zero_kernel)"
proof -
  have "frame_reg r off zero_kernel = 0" for r off
    by (simp add: frame_reg_def zero_kernel_def load32_def)
  then show ?thesis
    by (simp add: syscall_dispatch_def syscall_result_def sys_write_def range_ok_nat)
qed


theorem write_seek_read_witness:
  "\<exists>bs k1 k2. sys_write idle_dev 3 0x200000 2 (file_kernel rw_file) = Inr (2, k1) \<and>
     user_bytes 0x200000 2 run_pg = Some bs \<and> length bs = 2 \<and>
     sys_lseek 3 0 0 k1 = Inr (0, k2)"
proof -
  obtain b b' where b: "kld8 0x200000 run_pg = Some b" "kld8 0x200001 run_pg = Some b'"
    using run_pg_load [of "0x200000"] run_pg_load [of "0x200001"] by (auto simp: fno_def)
  have "copy_in 0x200000 0 2 run_pg (replicate 2048 0) = Inr ((replicate 2048 0)[0 := b, 1 := b'])"
    using b by (simp add: numeral_2_eq_2)
  then obtain k1 where w: "sys_write idle_dev 3 0x200000 2 (file_kernel rw_file) = Inr (2, k1)"
    by (simp add: sys_write_def sys_write_file_def MAX_OPEN_FILES_def OFILE_CAP_def range_ok_nat rw_file_def
        closed_file_def Let_def)
  show ?thesis
    using write_seek_read [OF file_kernel_ok [OF rw_file_ok] _ w, of "0x200100"] w
    by (auto simp: range_ok_nat rw_file_def closed_file_def)
qed


end
