(* ===== verification/Input.thy ===== *)
theory Input
  imports PortIO
begin

section \<open>Keyboard and mouse (kernel/keyboard.c, kernel/mouse.c)\<close>

text \<open>
  The keyboard driver decodes scan codes and puts keys into a ring of 256 slots; the mouse
  driver assembles three-byte packets.  The interrupt handlers take the byte they read from
  port 0x60 as an argument.  An interface for a bounded queue is stated as a locale and
  interpreted on the ring.
\<close>

subsection \<open>Keyboard state and operations\<close>

definition KB_BUF_SIZE :: u32 where "KB_BUF_SIZE = 256"
definition KEY_EXT :: u16 where "KEY_EXT = 0x100"

record kbd =
  kbuf :: "u16 list"
  kbuf_head :: u32
  kbuf_tail :: u32
  kshift :: bool
  kcaps :: bool
  extended :: bool

definition sc_plain :: "u8 list" where
  "sc_plain =
     [0, 27, 0x31, 0x32, 0x33, 0x34, 0x35, 0x36, 0x37, 0x38, 0x39, 0x30, 0x2D, 0x3D, 8, 9,
      0x71, 0x77, 0x65, 0x72, 0x74, 0x79, 0x75, 0x69, 0x6F, 0x70, 0x5B, 0x5D, 10, 0,
      0x61, 0x73, 0x64, 0x66, 0x67, 0x68, 0x6A, 0x6B, 0x6C, 0x3B, 0x27, 0x60, 0, 0x5C,
      0x7A, 0x78, 0x63, 0x76, 0x62, 0x6E, 0x6D, 0x2C, 0x2E, 0x2F, 0, 0x2A, 0, 0x20]
     @ replicate 70 0"

definition sc_shift :: "u8 list" where
  "sc_shift =
     [0, 27, 0x21, 0x40, 0x23, 0x24, 0x25, 0x5E, 0x26, 0x2A, 0x28, 0x29, 0x5F, 0x2B, 8, 9,
      0x51, 0x57, 0x45, 0x52, 0x54, 0x59, 0x55, 0x49, 0x4F, 0x50, 0x7B, 0x7D, 10, 0,
      0x41, 0x53, 0x44, 0x46, 0x47, 0x48, 0x4A, 0x4B, 0x4C, 0x3A, 0x22, 0x7E, 0, 0x7C,
      0x5A, 0x58, 0x43, 0x56, 0x42, 0x4E, 0x4D, 0x3C, 0x3E, 0x3F, 0, 0x2A, 0, 0x20]
     @ replicate 70 0"

definition kb_enqueue_u16 :: "u16 \<Rightarrow> kbd \<Rightarrow> kbd" where
  "kb_enqueue_u16 c s =
     (let next = (kbuf_head s + 1) mod KB_BUF_SIZE
      in if next = kbuf_tail s then s
         else s\<lparr>kbuf := (kbuf s)[unat (kbuf_head s) := c], kbuf_head := next\<rparr>)"

definition kb_enqueue :: "u8 \<Rightarrow> kbd \<Rightarrow> kbd" where
  "kb_enqueue c s =
     (let next = (kbuf_head s + 1) mod KB_BUF_SIZE
      in if next = kbuf_tail s then s
         else s\<lparr>kbuf := (kbuf s)[unat (kbuf_head s) := ucast c], kbuf_head := next\<rparr>)"

definition keyboard_handler :: "u8 \<Rightarrow> kbd \<Rightarrow> kbd" where
  "keyboard_handler sc s =
     (if sc = 0xE0 then s\<lparr>extended := True\<rparr>
      else if extended s then
        let s = s\<lparr>extended := False\<rparr>
        in if sc AND 0x80 \<noteq> 0 then s
           else if sc \<in> {0x48, 0x50, 0x4B, 0x4D, 0x47, 0x4F, 0x49, 0x51, 0x53}
                then kb_enqueue_u16 (KEY_EXT + ucast sc) s
           else s
      else if sc = 0x2A \<or> sc = 0x36 then s\<lparr>kshift := True\<rparr>
      else if sc = 0xAA \<or> sc = 0xB6 then s\<lparr>kshift := False\<rparr>
      else if sc = 0x3A then s\<lparr>kcaps := \<not> kcaps s\<rparr>
      else if sc AND 0x80 \<noteq> 0 then s
      else let c = (if kshift s then sc_shift else sc_plain) ! unat (sc AND 0x7F);
               c = (if 0x61 \<le> c \<and> c \<le> 0x7A \<and> kcaps s then c - 32 else c)
           in if c \<noteq> 0 then kb_enqueue c s else s)"

definition keyboard_init :: "device \<Rightarrow> unit io" where
  "keyboard_init dev = do {
     irq_enable dev 1;
     st \<leftarrow> inb dev 0x64;
     (if st AND 0x01 \<noteq> 0 then do { x \<leftarrow> inb dev 0x60; State_Monad.return () }
      else State_Monad.return ()) }"

definition keyboard_pending :: "kbd \<Rightarrow> bool" where
  "keyboard_pending s \<longleftrightarrow> kbuf_head s \<noteq> kbuf_tail s"

definition keyboard_getc :: "kbd \<Rightarrow> u16 \<times> kbd" where
  "keyboard_getc s =
     (if kbuf_head s = kbuf_tail s then (0, s)
      else (kbuf s ! unat (kbuf_tail s), s\<lparr>kbuf_tail := (kbuf_tail s + 1) mod KB_BUF_SIZE\<rparr>))"

subsection \<open>A bounded queue\<close>

text \<open>
  What a producer in an interrupt handler and a consumer in the main loop rely on: putting
  into a queue with room appends, putting into a full one drops, getting takes the front.
\<close>

locale bounded_queue =
  fixes put :: "'c \<Rightarrow> 's \<Rightarrow> 's" and get :: "'s \<Rightarrow> 'c \<times> 's"
    and contents :: "'s \<Rightarrow> 'c list" and inv :: "'s \<Rightarrow> bool" and cap :: nat
  assumes put_inv: "inv s \<Longrightarrow> inv (put c s)"
    and get_inv: "inv s \<Longrightarrow> inv (snd (get s))"
    and put_room: "inv s \<Longrightarrow> length (contents s) < cap \<Longrightarrow> contents (put c s) = contents s @ [c]"
    and put_full: "inv s \<Longrightarrow> length (contents s) = cap \<Longrightarrow> contents (put c s) = contents s"
    and get_front: "inv s \<Longrightarrow> contents s = x # xs \<Longrightarrow> fst (get s) = x \<and> contents (snd (get s)) = xs"
    and bounded: "inv s \<Longrightarrow> length (contents s) \<le> cap"
begin

primrec get_many :: "nat \<Rightarrow> 's \<Rightarrow> 'c list \<times> 's" where
  "get_many 0 s = ([], s)"
| "get_many (Suc n) s = (let (c, s) = get s; (cs, s) = get_many n s in (c # cs, s))"

lemma put_many_inv: "inv s \<Longrightarrow> inv (fold put cs s)"
  by (induction cs arbitrary: s) (simp_all add: put_inv)

lemma put_contents: "inv s \<Longrightarrow> contents (put c s) = take cap (contents s @ [c])"
  using put_room [of s c] put_full [of s c] bounded [of s]
  by (cases "length (contents s) = cap") auto

lemma put_many: "inv s \<Longrightarrow> contents (fold put cs s) = take cap (contents s @ cs)"
proof (induction cs arbitrary: s)
  case Nil
  then show ?case using bounded by simp
next
  case (Cons c cs)
  then have "contents (fold put cs (put c s)) = take cap (take cap (contents s @ [c]) @ cs)"
    by (simp add: put_inv put_contents)
  also have "\<dots> = take cap (contents s @ c # cs)"
    using bounded [OF Cons.prems]
    by (cases "length (contents s) = cap") (simp_all add: min_def)
  finally show ?case by simp
qed

lemma get_all: "inv s \<Longrightarrow> n \<le> length (contents s) \<Longrightarrow>
  fst (get_many n s) = take n (contents s) \<and> contents (snd (get_many n s)) = drop n (contents s)"
proof (induction n arbitrary: s)
  case (Suc n)
  then obtain x xs where c: "contents s = x # xs" by (cases "contents s") auto
  from get_front [OF Suc.prems(1) c] have g: "fst (get s) = x" "contents (snd (get s)) = xs"
    by simp_all
  have "fst (get_many n (snd (get s))) = take n xs \<and> contents (snd (get_many n (snd (get s)))) = drop n xs"
    using Suc.IH [OF get_inv [OF Suc.prems(1)]] Suc.prems(2) c g by simp
  then show ?case
    by (simp add: c case_prod_unfold Let_def g)
qed simp

lemma fifo:
  assumes "inv s" and "contents s = []" and "length cs \<le> cap"
  shows "fst (get_many (length cs) (fold put cs s)) = cs"
  using get_all [OF put_many_inv [OF assms(1)], of "length cs" cs] assms by (simp add: put_many)

end


subsection \<open>The ring is a bounded queue of 255 keys\<close>

definition kb_ok :: "kbd \<Rightarrow> bool" where
  "kb_ok s \<longleftrightarrow> length (kbuf s) = 256 \<and> unat (kbuf_head s) < 256 \<and> unat (kbuf_tail s) < 256"

definition kb_len :: "kbd \<Rightarrow> nat" where
  "kb_len s = (unat (kbuf_head s) + 256 - unat (kbuf_tail s)) mod 256"

definition kb_queue :: "kbd \<Rightarrow> u16 list" where
  "kb_queue s = map (\<lambda>i. kbuf s ! ((unat (kbuf_tail s) + i) mod 256)) [0 ..< kb_len s]"

lemma unat_ring_next: "unat a < 256 \<Longrightarrow> unat ((a + 1) mod KB_BUF_SIZE) = (unat a + 1) mod 256"
  by (simp add: KB_BUF_SIZE_def unat_mod unat_add_no_wrap)

lemma ring_mod: "n < 512 \<Longrightarrow> n mod 256 = (if n < 256 then n else n - (256 :: nat))"
  by (auto simp: le_mod_geq)

lemma ring_diff:
  fixes h t :: nat
  assumes "h < 256" and "t < 256"
  shows "(h + 256 - t) mod 256 = (if t \<le> h then h - t else h + 256 - t)"
  using assms by (subst ring_mod) auto

lemma ring_arith:
  fixes h t :: nat
  assumes "h < 256" and "t < 256"
  shows "(t + (h + 256 - t) mod 256) mod 256 = h"
    and "(h + 1) mod 256 = t \<longleftrightarrow> (h + 256 - t) mod 256 = 255"
    and "(h + 1) mod 256 \<noteq> t \<Longrightarrow> ((h + 1) mod 256 + 256 - t) mod 256 = Suc ((h + 256 - t) mod 256)"
    and "h = t \<longleftrightarrow> (h + 256 - t) mod 256 = 0"
    and "h \<noteq> t \<Longrightarrow> (h + 256 - (t + 1) mod 256) mod 256 = (h + 256 - t) mod 256 - 1"
proof -
  have succ: "(k + 1) mod 256 = (if k = 255 then 0 else k + 1)" "(k + 1) mod 256 < 256"
    if "k < 256" for k :: nat
    using that by auto
  note s = succ [OF assms(1)] succ [OF assms(2)]
  note d = ring_diff [OF assms] ring_diff [OF s(2) assms(2)] ring_diff [OF assms(1) s(4)]
  show "(t + (h + 256 - t) mod 256) mod 256 = h"
    unfolding d using assms by (subst ring_mod) auto
  show "(h + 1) mod 256 = t \<longleftrightarrow> (h + 256 - t) mod 256 = 255"
    unfolding d s using assms by (auto split: if_splits)
  show "(h + 1) mod 256 \<noteq> t \<Longrightarrow> ((h + 1) mod 256 + 256 - t) mod 256 = Suc ((h + 256 - t) mod 256)"
    unfolding d unfolding s using assms by (auto split: if_splits)
  show "h = t \<longleftrightarrow> (h + 256 - t) mod 256 = 0"
    unfolding d using assms by (auto split: if_splits)
  show "h \<noteq> t \<Longrightarrow> (h + 256 - (t + 1) mod 256) mod 256 = (h + 256 - t) mod 256 - 1"
    unfolding d unfolding s using assms by (auto split: if_splits)
qed

lemma ring_distinct:
  fixes i j t :: nat
  assumes "i < 256" and "j < 256" and "i \<noteq> j" and "t < 256"
  shows "(t + i) mod 256 \<noteq> (t + j) mod 256"
proof -
  have "t + i < 512" "t + j < 512" using assms by simp_all
  then show ?thesis
    using assms by (auto simp: ring_mod split: if_splits)
qed

lemma length_kb_queue [simp]: "length (kb_queue s) = kb_len s"
  by (simp add: kb_queue_def)

lemma kb_enqueue_full:
  "kb_ok s \<Longrightarrow> kb_len s = 255 \<Longrightarrow> kb_enqueue_u16 c s = s"
  using ring_arith(2) [of "unat (kbuf_head s)" "unat (kbuf_tail s)"] unat_ring_next [of "kbuf_head s"]
  by (auto simp: kb_ok_def kb_len_def kb_enqueue_u16_def Let_def intro: u32_eqI)

lemma kb_enqueue_room:
  assumes "kb_ok s" and "kb_len s \<noteq> 255"
  shows "kb_enqueue_u16 c s =
      s\<lparr>kbuf := (kbuf s)[unat (kbuf_head s) := c], kbuf_head := (kbuf_head s + 1) mod KB_BUF_SIZE\<rparr>"
    and "kb_queue (kb_enqueue_u16 c s) = kb_queue s @ [c]"
proof -
  let ?h = "unat (kbuf_head s)" and ?t = "unat (kbuf_tail s)"
  have ok: "?h < 256" "?t < 256" "length (kbuf s) = 256"
    using assms(1) by (simp_all add: kb_ok_def)
  have ne: "(?h + 1) mod 256 \<noteq> ?t"
    using ring_arith(2) [OF ok(1,2)] assms(2) by (simp add: kb_len_def)
  then show eq: "kb_enqueue_u16 c s =
      s\<lparr>kbuf := (kbuf s)[?h := c], kbuf_head := (kbuf_head s + 1) mod KB_BUF_SIZE\<rparr>"
    using unat_ring_next [OF ok(1)] by (auto simp: kb_enqueue_u16_def Let_def)
  have len: "kb_len (kb_enqueue_u16 c s) = Suc (kb_len s)"
    unfolding eq using ring_arith(3) [OF ok(1,2) ne] unat_ring_next [OF ok(1)] by (simp add: kb_len_def)
  have small: "kb_len s < 256"
    by (simp add: kb_len_def)
  have h: "(?t + kb_len s) mod 256 = ?h"
    using ring_arith(1) [OF ok(1,2)] by (simp add: kb_len_def)
  have old: "(kbuf s)[?h := c] ! ((?t + i) mod 256) = kbuf s ! ((?t + i) mod 256)" if "i < kb_len s" for i
    using ring_distinct [of i "kb_len s" ?t] that small ok(2) h by simp
  have "kb_queue (kb_enqueue_u16 c s) =
      map (\<lambda>i. (kbuf s)[?h := c] ! ((?t + i) mod 256)) [0 ..< Suc (kb_len s)]"
    unfolding kb_queue_def len by (simp add: eq del: upt_Suc)
  also have "\<dots> = kb_queue s @ [c]"
    using old ok(1,3) h by (simp add: kb_queue_def)
  finally show "kb_queue (kb_enqueue_u16 c s) = kb_queue s @ [c]" .
qed

lemma kb_enqueue_ok: "kb_ok s \<Longrightarrow> kb_ok (kb_enqueue_u16 c s)"
  by (auto simp: kb_ok_def kb_enqueue_u16_def Let_def unat_ring_next)

lemma kb_enqueue_byte: "kb_enqueue c = kb_enqueue_u16 (ucast c)"
  by (rule ext) (simp add: kb_enqueue_def kb_enqueue_u16_def)

lemma kb_getc_front:
  assumes "kb_ok s" and "kb_queue s = x # xs"
  shows "fst (keyboard_getc s) = x" and "kb_queue (snd (keyboard_getc s)) = xs"
    and "keyboard_pending s"
proof -
  let ?h = "unat (kbuf_head s)" and ?t = "unat (kbuf_tail s)"
  have ok: "?h < 256" "?t < 256"
    using assms(1) by (simp_all add: kb_ok_def)
  have pos: "kb_len s \<noteq> 0"
    using assms(2) by (metis length_kb_queue length_0_conv list.distinct(1))
  then have ne: "?h \<noteq> ?t"
    by (auto simp: kb_len_def)
  then have ne': "kbuf_head s \<noteq> kbuf_tail s"
    by auto
  then show "keyboard_pending s"
    by (simp add: keyboard_pending_def)
  have upt: "[0 ..< kb_len s] = 0 # map Suc [0 ..< kb_len s - 1]"
    using pos by (metis Suc_pred' bot_nat_0.not_eq_extremum map_Suc_upt upt_rec zero_less_Suc)
  have q: "x = kbuf s ! ?t" "xs = map (\<lambda>i. kbuf s ! ((?t + Suc i) mod 256)) [0 ..< kb_len s - 1]"
    using assms(2) ok(2) unfolding kb_queue_def upt by (simp_all add: comp_def)
  show "fst (keyboard_getc s) = x"
    using ne' q by (simp add: keyboard_getc_def)
  have len: "kb_len (snd (keyboard_getc s)) = kb_len s - 1"
    using ne' ring_arith(5) [OF ok ne] unat_ring_next [OF ok(2)]
    by (simp add: keyboard_getc_def kb_len_def)
  have idx: "((?t + 1) mod 256 + i) mod 256 = (?t + Suc i) mod 256" for i
    by (simp add: mod_add_left_eq)
  show "kb_queue (snd (keyboard_getc s)) = xs"
    unfolding kb_queue_def len q(2) using ne' unat_ring_next [OF ok(2)] idx
    by (simp add: keyboard_getc_def)
qed

lemma kb_getc_ok: "kb_ok s \<Longrightarrow> kb_ok (snd (keyboard_getc s))"
  by (auto simp: kb_ok_def keyboard_getc_def unat_ring_next)

interpretation kb: bounded_queue kb_enqueue_u16 keyboard_getc kb_queue kb_ok 255
proof
  show "kb_queue (kb_enqueue_u16 c s) = kb_queue s @ [c]" if "kb_ok s" "length (kb_queue s) < 255" for s c
    using kb_enqueue_room(2) [OF that(1)] that(2) by simp
  show "length (kb_queue s) \<le> 255" for s
    using mod_less_divisor [of 256 "unat (kbuf_head s) + 256 - unat (kbuf_tail s)"]
    by (simp add: kb_len_def)
qed (auto simp: kb_enqueue_ok kb_getc_ok kb_enqueue_full dest: kb_getc_front)


subsection \<open>Decoding scan codes\<close>

text \<open>The keys a sequence of scan codes stands for, given the shift, caps-lock and prefix state.\<close>

definition ext_keys :: "u8 set" where
  "ext_keys = {0x48, 0x50, 0x4B, 0x4D, 0x47, 0x4F, 0x49, 0x51, 0x53}"

definition plain_key :: "bool \<Rightarrow> bool \<Rightarrow> u8 \<Rightarrow> u16 list" where
  "plain_key sh ca sc =
     (let c = (if sh then sc_shift else sc_plain) ! unat (sc AND 0x7F)
      in if sc AND 0x80 \<noteq> 0 \<or> c = 0 then []
         else [ucast (if ca \<and> 0x61 \<le> c \<and> c \<le> 0x7A then c - 32 else c)])"

text \<open>The key one scan code gives, if any, and the state after it.\<close>

definition key_of :: "bool \<times> bool \<times> bool \<Rightarrow> u8 \<Rightarrow> u16 list" where
  "key_of m sc =
     (case m of (sh, ca, ex) \<Rightarrow>
        if sc = 0xE0 then []
        else if ex then (if sc \<in> ext_keys then [KEY_EXT + ucast sc] else [])
        else if sc \<in> {0x2A, 0x36, 0xAA, 0xB6, 0x3A} then []
        else plain_key sh ca sc)"

definition mode_after :: "bool \<times> bool \<times> bool \<Rightarrow> u8 \<Rightarrow> bool \<times> bool \<times> bool" where
  "mode_after m sc =
     (case m of (sh, ca, ex) \<Rightarrow>
        if sc = 0xE0 then (sh, ca, True)
        else if ex then (sh, ca, False)
        else if sc \<in> {0x2A, 0x36} then (True, ca, False)
        else if sc \<in> {0xAA, 0xB6} then (False, ca, False)
        else if sc = 0x3A then (sh, \<not> ca, False)
        else (sh, ca, False))"

fun decode :: "bool \<times> bool \<times> bool \<Rightarrow> u8 list \<Rightarrow> u16 list" where
  "decode m [] = []"
| "decode m (sc # scs) = key_of m sc @ decode (mode_after m sc) scs"

definition kb_mode :: "kbd \<Rightarrow> bool \<times> bool \<times> bool" where
  "kb_mode s = (kshift s, kcaps s, extended s)"

definition set_mode :: "bool \<times> bool \<times> bool \<Rightarrow> kbd \<Rightarrow> kbd" where
  "set_mode m s = (case m of (sh, ca, ex) \<Rightarrow> s\<lparr>kshift := sh, kcaps := ca, extended := ex\<rparr>)"

lemma ext_keys_low: "sc \<in> ext_keys \<Longrightarrow> sc AND 0x80 = 0"
  by (auto simp: ext_keys_def)

lemma lower_minus_32: "0x61 \<le> c \<Longrightarrow> c \<le> 0x7A \<Longrightarrow> c - 32 \<noteq> (0 :: u8)"
proof
  assume "0x61 \<le> c" "c - 32 = 0"
  then have "c = 32" by simp
  with \<open>0x61 \<le> c\<close> show False by simp
qed

lemma set_mode_simps [simp]:
  "kb_ok (set_mode m s) = kb_ok s" "kb_queue (set_mode m s) = kb_queue s" "kb_mode (set_mode m s) = m"
  by (simp_all add: set_mode_def kb_mode_def kb_ok_def kb_queue_def kb_len_def split: prod.splits)

lemma kb_enqueue_mode [simp]: "kb_mode (kb_enqueue_u16 c s) = kb_mode s"
  by (simp add: kb_enqueue_u16_def kb_mode_def Let_def)

lemma fold_enqueue_mode [simp]: "kb_mode (fold kb_enqueue_u16 cs s) = kb_mode s"
  by (induction cs arbitrary: s) simp_all

lemma set_mode_same:
  "s\<lparr>extended := ex\<rparr> = set_mode (kshift s, kcaps s, ex) s"
  "s\<lparr>kshift := sh\<rparr> = set_mode (sh, kcaps s, extended s) s"
  "s\<lparr>kcaps := ca\<rparr> = set_mode (kshift s, ca, extended s) s"
  "set_mode (kshift s, kcaps s, extended s) s = s"
  by (simp_all add: set_mode_def)

text \<open>One interrupt: the modes advance and the ring gains at most the decoded key.\<close>

lemma keyboard_handler_step:
  "keyboard_handler sc s = fold kb_enqueue_u16 (key_of (kb_mode s) sc) (set_mode (mode_after (kb_mode s) sc) s)"
proof -
  consider "sc = 0xE0" | "sc \<noteq> 0xE0" "extended s"
    | "sc \<in> {0x2A, 0x36, 0xAA, 0xB6, 0x3A}" "\<not> extended s"
    | "sc \<noteq> 0xE0" "\<not> extended s" "sc \<notin> {0x2A, 0x36, 0xAA, 0xB6, 0x3A}" by blast
  then show ?thesis
  proof cases
    case 1
    then show ?thesis
      by (simp add: keyboard_handler_def key_of_def mode_after_def kb_mode_def set_mode_same)
  next
    case 2
    then have "key_of (kb_mode s) sc = (if sc \<in> ext_keys then [KEY_EXT + ucast sc] else [])"
      "mode_after (kb_mode s) sc = (kshift s, kcaps s, False)"
      by (simp_all add: key_of_def mode_after_def kb_mode_def)
    with 2 show ?thesis
      using ext_keys_low [of sc]
      by (simp add: keyboard_handler_def ext_keys_def Let_def set_mode_same)
  next
    case 3
    then show ?thesis
      by (auto simp: keyboard_handler_def key_of_def mode_after_def kb_mode_def set_mode_same)
  next
    case 4
    then have m: "key_of (kb_mode s) sc = plain_key (kshift s) (kcaps s) sc"
      "set_mode (mode_after (kb_mode s) sc) s = s"
      using set_mode_same(4) [of s] by (simp_all add: key_of_def mode_after_def kb_mode_def)
    let ?c = "(if kshift s then sc_shift else sc_plain) ! unat (sc AND 0x7F)"
    from 4 have "keyboard_handler sc s =
        (if sc AND 0x80 \<noteq> 0 then s
         else let c = (if 0x61 \<le> ?c \<and> ?c \<le> 0x7A \<and> kcaps s then ?c - 32 else ?c)
              in if c \<noteq> 0 then kb_enqueue c s else s)"
      unfolding keyboard_handler_def Let_def by simp
    with m show ?thesis
      using lower_minus_32 [of ?c] unfolding plain_key_def Let_def kb_enqueue_byte by auto
  qed
qed

lemma keyboard_handler_ok: "kb_ok s \<Longrightarrow> kb_ok (keyboard_handler sc s)"
  by (simp add: keyboard_handler_step kb.put_many_inv)

lemma keyboard_handler_mode: "kb_mode (keyboard_handler sc s) = mode_after (kb_mode s) sc"
  by (simp add: keyboard_handler_step)

lemma keyboard_handler_queue:
  "kb_ok s \<Longrightarrow> kb_queue (keyboard_handler sc s) = take 255 (kb_queue s @ key_of (kb_mode s) sc)"
  by (simp add: keyboard_handler_step kb.put_many)

lemma take_take_append: "take n (take n xs @ ys) = take n (xs @ ys)"
  by (cases "n \<le> length xs") (simp_all add: min_def)

lemma handler_decode:
  "kb_ok s \<Longrightarrow> kb_ok (fold keyboard_handler scs s) \<and>
     kb_queue (fold keyboard_handler scs s) = take 255 (kb_queue s @ decode (kb_mode s) scs)"
proof (induction scs arbitrary: s)
  case Nil
  then show ?case using kb.bounded by simp
next
  case (Cons sc scs)
  from Cons.IH [OF keyboard_handler_ok [OF Cons.prems]] show ?case
    by (simp add: keyboard_handler_mode keyboard_handler_queue [OF Cons.prems] take_take_append
        del: take_append)
qed

subsection \<open>Interrupts and reads in any order\<close>

text \<open>The keyboard as a state machine: scan codes arrive at any time between reads.\<close>

inductive kb_reach :: "kbd \<Rightarrow> bool" where
  boot: "kb_reach \<lparr>kbuf = replicate 256 0, kbuf_head = 0, kbuf_tail = 0,
    kshift = False, kcaps = False, extended = False\<rparr>"
| irq: "kb_reach s \<Longrightarrow> kb_reach (keyboard_handler sc s)"
| getc: "kb_reach s \<Longrightarrow> kb_reach (snd (keyboard_getc s))"

definition key_code :: "u16 \<Rightarrow> bool" where
  "key_code k \<longleftrightarrow> (0 < k \<and> k < 0x80) \<or> k \<in> (\<lambda>sc. 0x100 + ucast sc) ` ext_keys"

lemma tables_ascii: "list_all (\<lambda>c. c < 0x80) sc_plain" "list_all (\<lambda>c. c < 0x80) sc_shift"
  by (simp_all add: sc_plain_def sc_shift_def list_all_iff)

lemma tables_length: "length sc_plain = 128" "length sc_shift = 128"
  by (simp_all add: sc_plain_def sc_shift_def)

lemma unat_low7: "unat (sc AND 0x7F :: u8) < 128"
proof -
  have "sc AND 0x7F \<le> 0x7F" by (rule word_and_le1)
  then show ?thesis by (simp add: word_le_nat_alt)
qed

lemma key_code_byte: "c < (0x80 :: u8) \<Longrightarrow> c \<noteq> 0 \<Longrightarrow> key_code (ucast c)"
  by (simp add: key_code_def word_less_nat_alt unsigned_ucast_eq take_bit_eq_mod unat_gt_0)

lemma plain_key_code: "k \<in> set (plain_key sh ca sc) \<Longrightarrow> key_code k"
proof -
  assume k: "k \<in> set (plain_key sh ca sc)"
  let ?c = "(if sh then sc_shift else sc_plain) ! unat (sc AND 0x7F)"
  have low: "?c < 0x80"
    using tables_ascii tables_length unat_low7 [of sc] by (simp add: list_all_length)
  have "?c - 32 < 0x80" if "0x61 \<le> ?c"
  proof -
    have "unat (?c - 32) = unat ?c - 32"
      using that by (simp add: unat_sub word_le_nat_alt)
    with low show ?thesis
      by (simp add: word_less_nat_alt)
  qed
  with k low show ?thesis
    by (auto simp: plain_key_def Let_def split: if_splits intro!: key_code_byte dest: lower_minus_32)
qed

lemma key_of_code: "k \<in> set (key_of m sc) \<Longrightarrow> key_code k"
  by (cases m) (auto simp: key_of_def key_code_def KEY_EXT_def dest: plain_key_code split: if_splits)

lemma handler_codes:
  assumes "kb_ok s" and "\<forall>k \<in> set (kb_queue s). key_code k"
  shows "\<forall>k \<in> set (kb_queue (keyboard_handler sc s)). key_code k"
proof -
  have "set (kb_queue (keyboard_handler sc s)) \<subseteq> set (kb_queue s @ key_of (kb_mode s) sc)"
    unfolding keyboard_handler_queue [OF assms(1)] by (rule set_take_subset)
  then show ?thesis
    using assms(2) key_of_code [of _ "kb_mode s" sc] unfolding set_append by blast
qed

lemma kb_reach_inv: "kb_reach s \<Longrightarrow> kb_ok s \<and> (\<forall>k \<in> set (kb_queue s). key_code k)"
proof (induction rule: kb_reach.induct)
  case boot
  show ?case by (simp add: kb_ok_def kb_queue_def kb_len_def)
next
  case (irq s sc)
  then show ?case using keyboard_handler_ok handler_codes by blast
next
  case (getc s)
  have "set (kb_queue (snd (keyboard_getc s))) \<subseteq> set (kb_queue s)"
  proof (cases "kb_queue s")
    case Nil
    then have "unat (kbuf_head s) = unat (kbuf_tail s)"
      using getc.IH ring_arith(4) [of "unat (kbuf_head s)" "unat (kbuf_tail s)"]
      by (simp add: kb_queue_def kb_len_def kb_ok_def)
    then have "kbuf_head s = kbuf_tail s" by (rule u32_eqI)
    then show ?thesis by (simp add: keyboard_getc_def)
  next
    case (Cons x xs)
    then show ?thesis using kb_getc_front(2) getc.IH by auto
  qed
  with getc show ?case by (auto simp: kb_getc_ok)
qed


lemma kb_pending_queue: "kb_ok s \<Longrightarrow> keyboard_pending s \<longleftrightarrow> kb_queue s \<noteq> []"
proof -
  assume "kb_ok s"
  then have b: "unat (kbuf_head s) < 256" "unat (kbuf_tail s) < 256"
    by (simp_all add: kb_ok_def)
  from ring_arith(4) [OF b] have "unat (kbuf_head s) = unat (kbuf_tail s) \<longleftrightarrow> kb_len s = 0"
    by (simp only: kb_len_def)
  moreover have "kb_queue s = [] \<longleftrightarrow> kb_len s = 0"
    by (metis length_0_conv length_kb_queue)
  ultimately show ?thesis
    by (auto simp: keyboard_pending_def intro: u32_eqI)
qed

subsection \<open>The mouse\<close>

record mouse =
  m_x :: int
  m_y :: int
  m_buttons :: u8
  m_prev :: u8
  m_pkt0 :: u8
  m_pkt1 :: u8
  m_pkt2 :: u8
  m_cycle :: int
  m_enabled :: bool

text \<open>The two polling loops: \<open>wait_out\<close> waits for bit 1 of the status to be set.\<close>

primrec wait_status :: "device \<Rightarrow> u8 \<Rightarrow> nat \<Rightarrow> unit io" where
  "wait_status dev b 0 = State_Monad.return ()"
| "wait_status dev b (Suc n) = do {
     s \<leftarrow> inb dev 0x64;
     (if s AND b \<noteq> 0 then State_Monad.return () else wait_status dev b n) }"

definition wait_out :: "device \<Rightarrow> unit io" where
  "wait_out dev = wait_status dev 0x02 100000"

definition wait_in :: "device \<Rightarrow> unit io" where
  "wait_in dev = wait_status dev 0x01 100000"

definition mouse_write :: "device \<Rightarrow> u8 \<Rightarrow> unit io" where
  "mouse_write dev b = do { wait_out dev; outb 0x64 0xD4; wait_out dev; outb 0x60 b }"

definition mouse_read :: "device \<Rightarrow> u8 io" where
  "mouse_read dev = do { wait_in dev; inb dev 0x60 }"

definition mouse_init :: "device \<Rightarrow> mouse \<Rightarrow> mouse io" where
  "mouse_init dev s = do {
     wait_out dev; outb 0x64 0xA8;
     wait_out dev; outb 0x64 0x20;
     wait_in dev; cmd \<leftarrow> inb dev 0x60;
     wait_out dev; outb 0x64 0x60;
     wait_out dev; outb 0x60 (cmd OR 0x02);
     mouse_write dev 0xF6; x \<leftarrow> mouse_read dev;
     mouse_write dev 0xF4; x \<leftarrow> mouse_read dev;
     irq_enable dev 12;
     State_Monad.return (s\<lparr>m_enabled := True\<rparr>) }"

definition mouse_process :: "mouse \<Rightarrow> mouse" where
  "mouse_process s =
     (let dx = sint (m_pkt1 s);
          dy = - sint (m_pkt2 s);
          x = m_x s + dx;
          y = m_y s + dy;
          x = (if x < 0 then 0 else x);
          x = (if 319 < x then 319 else x);
          y = (if y < 0 then 0 else y);
          y = (if 199 < y then 199 else y)
      in s\<lparr>m_x := x, m_y := y, m_buttons := m_pkt0 s AND 0x07\<rparr>)"

definition mouse_handler :: "u8 \<Rightarrow> mouse \<Rightarrow> mouse" where
  "mouse_handler d s =
     (if \<not> m_enabled s then s
      else if m_cycle s = 0 then s\<lparr>m_pkt0 := d, m_cycle := 1\<rparr>
      else if m_cycle s = 1 then s\<lparr>m_pkt1 := d, m_cycle := 2\<rparr>
      else if m_cycle s = 2 then mouse_process (s\<lparr>m_pkt2 := d, m_cycle := 0\<rparr>)
      else s\<lparr>m_cycle := 0\<rparr>)"

definition mouse_left_down :: "mouse \<Rightarrow> bool" where
  "mouse_left_down s \<longleftrightarrow> m_buttons s AND 1 \<noteq> 0"

definition mouse_left_clicked :: "mouse \<Rightarrow> bool \<times> mouse" where
  "mouse_left_clicked s =
     (m_buttons s AND 1 \<noteq> 0 \<and> m_prev s AND 1 = 0, s\<lparr>m_prev := m_buttons s\<rparr>)"

definition mouse_left_released :: "mouse \<Rightarrow> bool \<times> mouse" where
  "mouse_left_released s =
     (m_buttons s AND 1 = 0 \<and> m_prev s AND 1 \<noteq> 0, s\<lparr>m_prev := m_buttons s\<rparr>)"

definition clamp :: "int \<Rightarrow> int \<Rightarrow> int" where
  "clamp hi v = max 0 (min hi v)"

definition on_screen :: "mouse \<Rightarrow> bool" where
  "on_screen s \<longleftrightarrow> 0 \<le> m_x s \<and> m_x s \<le> 319 \<and> 0 \<le> m_y s \<and> m_y s \<le> 199 \<and> m_cycle s \<in> {0, 1, 2}"

lemma mouse_handler_on_screen: "on_screen s \<Longrightarrow> on_screen (mouse_handler d s)"
  by (auto simp: on_screen_def mouse_handler_def mouse_process_def Let_def)

lemma left_button: "(b AND 7) AND 1 \<noteq> 0 \<longleftrightarrow> bit (b :: u8) 0"
proof -
  have "(b AND 7) AND 1 = b AND 1"
    by (simp only: and.assoc) simp
  then show ?thesis
    by (simp only: and_one_eq bit_0 even_iff_mod_2_eq_zero)
qed

lemma mouse_packet:
  assumes "m_enabled s" and "m_cycle s = 0"
  shows "fold mouse_handler [b0, b1, b2] s =
    s\<lparr>m_x := clamp 319 (m_x s + sint b1), m_y := clamp 199 (m_y s - sint b2),
      m_buttons := b0 AND 0x07, m_pkt0 := b0, m_pkt1 := b1, m_pkt2 := b2, m_cycle := 0\<rparr>"
  using assms by (simp add: mouse_handler_def mouse_process_def clamp_def Let_def)

subsection \<open>Properties\<close>

definition boot_kbd :: kbd where
  "boot_kbd = \<lparr>kbuf = replicate 256 0, kbuf_head = 0, kbuf_tail = 0,
     kshift = False, kcaps = False, extended = False\<rparr>"

text \<open>C21: for any sequence of keyboard interrupts from an empty ring, the ring holds the first
  255 keys the scan codes decode to, and reading them with \<open>keyboard_getc\<close> yields them in the
  order they were typed.\<close>

theorem keyboard_fifo:
  assumes "kb_ok s" and "kb_queue s = []"
  shows "kb_queue (fold keyboard_handler scs s) = take 255 (decode (kb_mode s) scs) \<and>
    fst (kb.get_many (min 255 (length (decode (kb_mode s) scs))) (fold keyboard_handler scs s)) =
      take 255 (decode (kb_mode s) scs)"
proof -
  from handler_decode [OF assms(1), of scs] assms(2)
  have q: "kb_ok (fold keyboard_handler scs s)"
    "kb_queue (fold keyboard_handler scs s) = take 255 (decode (kb_mode s) scs)"
    by simp_all
  have "min 255 (length (decode (kb_mode s) scs)) = length (kb_queue (fold keyboard_handler scs s))"
    unfolding q(2) by (simp add: min.commute)
  moreover have "fst (kb.get_many (length (kb_queue (fold keyboard_handler scs s))) (fold keyboard_handler scs s)) =
      take 255 (decode (kb_mode s) scs)"
    using conjunct1 [OF kb.get_all [OF q(1) order_refl]] by (simp only: take_all [OF order_refl] q(2))
  ultimately show ?thesis
    using q(2) by (simp only: conj_absorb)
qed

theorem keyboard_fifo_witness:
  "fst (kb.get_many 3 (fold keyboard_handler [0x2A, 0x1E, 0x9E, 0xAA, 0x30, 0xE0, 0x48] boot_kbd))
     = [0x41, 0x62, 0x148]"
proof -
  let ?scs = "[0x2A, 0x1E, 0x9E, 0xAA, 0x30, 0xE0, 0x48]"
  have ok: "kb_ok boot_kbd" "kb_queue boot_kbd = []"
    by (simp_all add: kb_ok_def kb_queue_def kb_len_def boot_kbd_def)
  have m: "kb_mode boot_kbd = (False, False, False)"
    by (simp add: kb_mode_def boot_kbd_def)
  have d: "decode (kb_mode boot_kbd) ?scs = [0x41, 0x62, 0x148]"
    unfolding m by (simp add: key_of_def mode_after_def plain_key_def sc_plain_def sc_shift_def
        ext_keys_def KEY_EXT_def)
  have "min 255 (length [0x41 :: u16, 0x62, 0x148]) = 3" "take 255 [0x41 :: u16, 0x62, 0x148] = [0x41, 0x62, 0x148]"
    by simp_all
  with conjunct2 [OF keyboard_fifo [OF ok, of ?scs]] show ?thesis
    unfolding d by (simp only:)
qed

text \<open>Whatever the interleaving of interrupts and reads since boot, \<open>keyboard_getc\<close> returns
  0 exactly when nothing is pending, and otherwise an ASCII code or \<open>0x100\<close> plus the scan
  code of one of the nine extended keys; in particular never \<open>0x141\<close> or \<open>0x142\<close>, the values
  the shell compares the arrow keys with.\<close>

lemma keyboard_codes:
  assumes "kb_reach s"
  shows "(keyboard_pending s \<longleftrightarrow> fst (keyboard_getc s) \<noteq> 0) \<and>
    (keyboard_pending s \<longrightarrow> key_code (fst (keyboard_getc s))) \<and>
    fst (keyboard_getc s) \<noteq> 0x141 \<and> fst (keyboard_getc s) \<noteq> 0x142"
proof -
  note inv = kb_reach_inv [OF assms]
  have codes: "\<not> key_code 0" "\<not> key_code 0x141" "\<not> key_code 0x142"
    by (simp_all add: key_code_def ext_keys_def)
  show ?thesis
  proof (cases "kb_queue s")
    case Nil
    then have "\<not> keyboard_pending s" using inv kb_pending_queue by blast
    then show ?thesis by (simp add: keyboard_getc_def keyboard_pending_def)
  next
    case (Cons x xs)
    then have "key_code x" "fst (keyboard_getc s) = x" "keyboard_pending s"
      using inv kb_getc_front by auto
    with codes show ?thesis by metis
  qed
qed

lemma keyboard_codes_witness:
  "key_code (fst (keyboard_getc (keyboard_handler 0x48 (keyboard_handler 0xE0 boot_kbd))))"
proof -
  have r: "kb_reach (keyboard_handler 0x48 (keyboard_handler 0xE0 boot_kbd))"
    unfolding boot_kbd_def by (intro kb_reach.intros)
  have "keyboard_pending (keyboard_handler 0x48 (keyboard_handler 0xE0 boot_kbd))"
    by (simp add: keyboard_pending_def keyboard_handler_def kb_enqueue_u16_def boot_kbd_def KB_BUF_SIZE_def)
  with keyboard_codes [OF r] show ?thesis by blast
qed

text \<open>Three bytes to an enabled, synchronised mouse move the pointer by the two signed
  deltas, up for a positive second one, clamped to the 320 by 200 screen; and no byte sequence
  ever moves it off the screen.\<close>

lemma mouse_moves:
  assumes "on_screen s" and "m_enabled s"
  shows "(m_cycle s = 0 \<longrightarrow>
      m_x (fold mouse_handler [b0, b1, b2] s) = clamp 319 (m_x s + sint b1) \<and>
      m_y (fold mouse_handler [b0, b1, b2] s) = clamp 199 (m_y s - sint b2) \<and>
      (mouse_left_down (fold mouse_handler [b0, b1, b2] s) \<longleftrightarrow> bit b0 0)) \<and>
    on_screen (fold mouse_handler bs s)"
proof -
  have "on_screen (fold mouse_handler bs s)"
    using assms(1) by (induction bs arbitrary: s) (simp_all add: mouse_handler_on_screen)
  moreover have "mouse_left_down (fold mouse_handler [b0, b1, b2] s) \<longleftrightarrow> bit b0 0" if "m_cycle s = 0"
    unfolding mouse_packet [OF assms(2) that] mouse_left_down_def using left_button by simp
  ultimately show ?thesis
    using mouse_packet [OF assms(2), of b0 b1 b2] by (simp del: fold.simps)
qed

definition boot_mouse :: mouse where
  "boot_mouse = \<lparr>m_x = 160, m_y = 100, m_buttons = 0, m_prev = 0, m_pkt0 = 0, m_pkt1 = 0,
     m_pkt2 = 0, m_cycle = 0, m_enabled = True\<rparr>"

lemma mouse_moves_witness:
  "m_x (fold mouse_handler [9, 10, 0x80] boot_mouse) = 170 \<and>
   m_y (fold mouse_handler [9, 10, 0x80] boot_mouse) = 199"
proof -
  have "on_screen boot_mouse" "m_enabled boot_mouse" "m_cycle boot_mouse = 0"
    by (simp_all add: on_screen_def boot_mouse_def)
  from mouse_moves [OF this(1,2), of 9 10 "0x80" "[]"] this(3) show ?thesis
    by (simp add: boot_mouse_def clamp_def)
qed

text \<open>A caller that polls \<open>mouse_left_clicked\<close> and then \<open>mouse_left_released\<close>, as the
  desktop loop does, never sees a release: the first call consumes both edges.\<close>

lemma mouse_release_lost:
  "\<not> fst (mouse_left_released (snd (mouse_left_clicked s)))"
  by (simp add: mouse_left_released_def mouse_left_clicked_def)

end
