(* ===== verification/Gui.thy ===== *)
theory Gui
  imports Syscall Input
begin

section \<open>The graphical desktop (kernel/gui.c)\<close>

text \<open>
  The window table and its operations, the drawing of windows and taskbar in mode 13h, and
  one turn of the desktop's main loop, from the snapshot of the mouse edges to the repaint.
  The loop halts until an interrupt at the end of each turn; the model runs it over the list
  of interrupts that arrive.  Text is formatted into a 40-byte array; \<open>None\<close> would be its overrun.
\<close>

datatype wtype = WIN_CONSOLE | WIN_ABOUT | WIN_MEMINFO | WIN_TASKS | WIN_FILES

record window =
  w_used :: bool
  w_type :: wtype
  w_x :: int
  w_y :: int
  w_w :: int
  w_h :: int
  w_focused :: bool
  w_title :: "u8 list"

record desk =
  wins :: "window list"
  focus :: int
  cascade :: int
  drag :: int
  drag_dx :: int
  drag_dy :: int
  last_mx :: int
  last_my :: int
  need_redraw :: bool
  dmouse :: mouse
  dkbd :: kbd
  kern :: kernel

definition MAX_WIN :: nat where "MAX_WIN = 8"
definition TASKBAR_H :: int where "TASKBAR_H = 12"
definition TITLE_H :: int where "TITLE_H = 12"
definition CASCADE_X :: int where "CASCADE_X = 10"
definition CASCADE_Y :: int where "CASCADE_Y = 14"

definition win_title :: "wtype \<Rightarrow> u8 list" where
  "win_title t = (case t of
     WIN_CONSOLE \<Rightarrow> lit ''Console''
   | WIN_ABOUT \<Rightarrow> lit ''About NovaOS''
   | WIN_MEMINFO \<Rightarrow> lit ''Memory Info''
   | WIN_TASKS \<Rightarrow> lit ''Tasks''
   | WIN_FILES \<Rightarrow> lit ''Files'')"

definition win :: "int \<Rightarrow> desk \<Rightarrow> window" where
  "win i d = wins d ! nat i"

definition upd_win :: "int \<Rightarrow> (window \<Rightarrow> window) \<Rightarrow> desk \<Rightarrow> desk" where
  "upd_win i f d = d\<lparr>wins := (wins d)[nat i := f (wins d ! nat i)]\<rparr>"

subsection \<open>Drawing\<close>

primrec draw_title :: "u8 list \<Rightarrow> int \<Rightarrow> int \<Rightarrow> int \<Rightarrow> u8 \<Rightarrow> screen \<Rightarrow> screen" where
  "draw_title [] x limit y bg s = s"
| "draw_title (c # cs) x limit y bg s =
     (if c = 0 \<or> limit \<le> x then s else draw_title cs (x + 8) limit y bg (gfx_drawchar x y c 0x0F bg s))"

definition win_draw_frame :: "window \<Rightarrow> screen \<Rightarrow> screen" where
  "win_draw_frame w s =
     (let title_bg = (if w_focused w then 0x09 else 0x08 :: u8);
          x = w_x w; y = w_y w; r = x + w_w w; b = y + w_h w;
          s = gfx_fillrect (x + 1) (y + 1) (r - 2) (b - 2) 0x07 s;
          s = gfx_fillrect (x + 1) (y + 1) (r - 2) (y + TITLE_H) title_bg s;
          s = gfx_fillrect x y (r - 1) y 0x0F s;
          s = gfx_fillrect x (b - 1) (r - 1) (b - 1) 0x08 s;
          s = gfx_fillrect x y x (b - 1) 0x0F s;
          s = gfx_fillrect (r - 1) y (r - 1) (b - 1) 0x08 s;
          s = draw_title (w_title w) (x + 4) (r - 10) (y + 3) title_bg s;
          cbx = r - 10;
          s = gfx_fillrect (cbx + 1) (y + 2) (cbx + 8) (y + 9) 0x0C s
      in gfx_drawchar (cbx + 2) (y + 3) 0x78 0x0F 0x0C s)"

definition label :: "int \<Rightarrow> int \<Rightarrow> u8 list \<Rightarrow> u8 \<Rightarrow> kernel \<Rightarrow> kernel" where
  "label x y str fg k = k\<lparr>scr := gfx_drawstring x y str fg 0x07 (scr k)\<rparr>"

definition label_num :: "int \<Rightarrow> int \<Rightarrow> string \<Rightarrow> u32 \<Rightarrow> u8 \<Rightarrow> kernel \<Rightarrow> kernel option" where
  "label_num x y fmt v fg k =
     map_option (\<lambda>t. label x y t fg k) (ksprintf 40 (lit fmt) [Word v])"

definition win_draw_content :: "window \<Rightarrow> kernel \<Rightarrow> kernel option" where
  "win_draw_content w k =
     (let cx = w_x w + 6; cy = w_y w + TITLE_H + 5
      in case w_type w of
        WIN_ABOUT \<Rightarrow>
          Some (label cx (cy + 55) (lit ''close: x or Esc'') 0x0E
               (label cx (cy + 45) (lit ''drag: title bar'') 0x0E
               (label cx (cy + 31) (lit ''ring3 FAT12 mouse'') 0x01
               (label cx (cy + 21) (lit ''GDT IDT paging'') 0x01
               (label cx (cy + 11) (lit ''home-grown kernel'') 0x01
               (label cx cy (lit ''NovaOS v0.6'') 0x04 k))))))
      | WIN_MEMINFO \<Rightarrow> do {
          let k = label cx cy (lit ''phys free:'') 0x01 k;
          k \<leftarrow> label_num (cx + 88) cy ''%u KB'' (of_nat (mm_free_frames (mm (upg k))) * 4) 0x04 k;
          let k = label cx (cy + 12) (lit ''heap used:'') 0x01 k;
          u \<leftarrow> kheap_used (sheap (ks k));
          label_num (cx + 88) (cy + 12) ''%u B'' u 0x04 k }
      | WIN_TASKS \<Rightarrow> do {
          k \<leftarrow> label_num cx cy ''%u task(s)'' (of_nat (sched_task_count (ks k))) 0x01 k;
          k \<leftarrow> label_num cx (cy + 12) ''current pid %u'' (sched_current_pid (ks k)) 0x04 k;
          label_num cx (cy + 24) ''ticks %u'' (timer_ticks (ktimer k)) 0x01 k }
      | WIN_FILES \<Rightarrow> do {
          let k = label cx cy (lit ''FAT12 volume'') 0x01 k;
          k \<leftarrow> (if fat_mounted (kfat k)
               then (let (free, v) = fat_free_bytes (kfat k)
                     in label_num cx (cy + 12) ''free %u KB'' (free div 1024) 0x02 (k\<lparr>kfat := v\<rparr>))
               else Some (label cx (cy + 12) (lit ''no volume'') 0x0C k));
          Some (label cx (cy + 26) (lit ''try: ls / cat'') 0x0E k) }
      | WIN_CONSOLE \<Rightarrow>
          Some (label cx (cy + 38) (lit ''press C A M T F'') 0x0E
               (label cx (cy + 24) (lit ''user: ring3 process'') 0x02
               (label cx (cy + 12) (lit ''boot: loader->pmode'') 0x02
               (label cx cy (lit ''kernel: hello from C'') 0x02 k)))))"

definition draw_window :: "window \<Rightarrow> kernel \<Rightarrow> kernel option" where
  "draw_window w k = win_draw_content w (k\<lparr>scr := win_draw_frame w (scr k)\<rparr>)"

primrec draw_unfocused :: "nat list \<Rightarrow> desk \<Rightarrow> kernel \<Rightarrow> kernel option" where
  "draw_unfocused [] d k = Some k"
| "draw_unfocused (i # is) d k =
     (if \<not> w_used (wins d ! i) \<or> int i = focus d then draw_unfocused is d k
      else Option.bind (draw_window (wins d ! i) k) (draw_unfocused is d))"

primrec taskbar :: "nat list \<Rightarrow> int \<Rightarrow> desk \<Rightarrow> screen \<Rightarrow> screen" where
  "taskbar [] bx d s = s"
| "taskbar (i # is) bx d s =
     (if \<not> w_used (wins d ! i) then taskbar is bx d s
      else let bg = (if int i = focus d then 0x09 else 0x08);
               s = gfx_fillrect (bx - 2) (GFX_H - TASKBAR_H + 1) (bx + 42) (GFX_H - 2) bg s;
               s = gfx_drawchar (bx + 16) (GFX_H - 10) (w_title (wins d ! i) ! 0) 0x0F bg s
           in if GFX_W - 50 < bx + 46 then s else taskbar is (bx + 46) d s)"

text \<open>The dotted grid: rows at \<open>16 * i\<close> below the taskbar, columns at \<open>16 * j\<close>, odd rows shifted by 8.\<close>

definition grid :: "screen \<Rightarrow> screen" where
  "grid s = fold (\<lambda>i. fold (\<lambda>j. gfx_putpixel (16 * int j + (if odd i then 8 else 0)) (16 * int i) 0x09) [0 ..< 20])
              [0 ..< 12] s"

definition redraw_all :: "desk \<Rightarrow> desk option" where
  "redraw_all d = do {
     let k = (kern d)\<lparr>scr := grid (gfx_clear 0x01 (scr (kern d)))\<rparr>;
     k \<leftarrow> draw_unfocused [0 ..< MAX_WIN] d k;
     k \<leftarrow> (if 0 \<le> focus d \<and> w_used (win (focus d) d) then draw_window (win (focus d) d) k else Some k);
     let s = gfx_fillrect 0 (GFX_H - TASKBAR_H) (GFX_W - 1) (GFX_H - 1) 0x00 (scr k);
     let s = gfx_drawstring 4 (GFX_H - 10) (lit ''NovaOS'') 0x0A 0x00 s;
     Some (d\<lparr>kern := k\<lparr>scr := taskbar [0 ..< MAX_WIN] 60 d s\<rparr>\<rparr>) }"

definition draw_cursor :: "int \<Rightarrow> int \<Rightarrow> screen \<Rightarrow> screen" where
  "draw_cursor x y s =
     (let s = fold (\<lambda>i. gfx_putpixel x (y + int i) 0x0F) [0 ..< 7] s;
          s = fold (\<lambda>i. gfx_putpixel (x + int i) (y + 2 + int i) 0x0F) [0 ..< 5] s
      in fold (\<lambda>i. gfx_putpixel (x + int i) (y + 6 - int i) 0x0F) [0 ..< 3] s)"

subsection \<open>The window table\<close>

definition inside :: "int \<Rightarrow> int \<Rightarrow> window \<Rightarrow> bool" where
  "inside x y w \<longleftrightarrow> w_x w \<le> x \<and> x < w_x w + w_w w \<and> w_y w \<le> y \<and> y < w_y w + w_h w"

text \<open>The scan from slot 7 down; \<open>-1\<close> when nothing is hit.\<close>

definition scan_down :: "(window \<Rightarrow> bool) \<Rightarrow> desk \<Rightarrow> int" where
  "scan_down P d = (case List.find (\<lambda>i. w_used (wins d ! i) \<and> P (wins d ! i)) (rev [0 ..< MAX_WIN]) of
                      None \<Rightarrow> -1 | Some i \<Rightarrow> int i)"

definition win_at :: "int \<Rightarrow> int \<Rightarrow> desk \<Rightarrow> int" where
  "win_at x y d =
     (if 0 \<le> focus d \<and> w_used (win (focus d) d) \<and> inside x y (win (focus d) d) then focus d
      else scan_down (inside x y) d)"

definition win_at_title :: "int \<Rightarrow> int \<Rightarrow> desk \<Rightarrow> int" where
  "win_at_title x y d =
     (let i = win_at x y d
      in if 0 \<le> i \<and> w_y (win i d) \<le> y \<and> y \<le> w_y (win i d) + TITLE_H then i else -1)"

definition on_close_box :: "int \<Rightarrow> int \<Rightarrow> window \<Rightarrow> bool" where
  "on_close_box x y w \<longleftrightarrow>
     (let cbx = w_x w + w_w w - 10 in cbx + 1 \<le> x \<and> x \<le> cbx + 8 \<and> w_y w + 2 \<le> y \<and> y \<le> w_y w + 9)"

definition win_at_close :: "int \<Rightarrow> int \<Rightarrow> desk \<Rightarrow> int" where
  "win_at_close x y d = scan_down (on_close_box x y) d"

definition win_raise :: "int \<Rightarrow> desk \<Rightarrow> desk" where
  "win_raise idx d =
     (if idx < 0 \<or> int MAX_WIN \<le> idx \<or> \<not> w_used (win idx d) then d
      else let d = (if 0 \<le> focus d \<and> focus d \<noteq> idx \<and> w_used (win (focus d) d)
                    then upd_win (focus d) (w_focused_update (\<lambda>_. False)) d else d);
               d = d\<lparr>focus := idx\<rparr>
           in upd_win idx (w_focused_update (\<lambda>_. True)) d)"

definition set_title :: "u8 list \<Rightarrow> u8 list \<Rightarrow> u8 list" where
  "set_title t old = (let bs = strncpy_bytes t 23 in (bs @ drop (length bs) old)[23 := 0])"

definition win_open :: "wtype \<Rightarrow> desk \<Rightarrow> int \<times> desk" where
  "win_open t d =
     (case List.find (\<lambda>i. \<not> w_used (wins d ! i)) [0 ..< MAX_WIN] of
        None \<Rightarrow> (-1, d)
      | Some i \<Rightarrow>
          let c = cascade d;
              d = d\<lparr>cascade := c + 1\<rparr>;
              d = upd_win (int i) (\<lambda>w. w\<lparr>w_used := True, w_type := t,
                    w_x := CASCADE_X + (c mod 6) * 16, w_y := CASCADE_Y + (c mod 6) * 14,
                    w_w := 168, w_h := 88, w_title := set_title (win_title t) (w_title w)\<rparr>) d
          in (int i, win_raise (int i) d))"

definition win_close :: "int \<Rightarrow> desk \<Rightarrow> desk" where
  "win_close idx d =
     (if idx < 0 \<or> int MAX_WIN \<le> idx \<or> \<not> w_used (win idx d) then d
      else let d = upd_win idx (w_used_update (\<lambda>_. False)) d;
               d = d\<lparr>focus := scan_down (\<lambda>w. True) d\<rparr>
           in if 0 \<le> focus d then upd_win (focus d) (w_focused_update (\<lambda>_. True)) d else d)"

subsection \<open>The main loop\<close>

definition on_click :: "int \<Rightarrow> int \<Rightarrow> desk \<Rightarrow> desk" where
  "on_click mx my d =
     (let c = win_at_close mx my d
      in if 0 \<le> c then (win_close c d)\<lparr>need_redraw := True, drag := -1\<rparr>
         else let w = win_at_title mx my d
              in if 0 \<le> w
                 then let d = win_raise w d
                      in d\<lparr>drag := w, drag_dx := mx - w_x (win w d), drag_dy := my - w_y (win w d), need_redraw := True\<rparr>
                 else d)"

definition on_drag :: "int \<Rightarrow> int \<Rightarrow> desk \<Rightarrow> desk" where
  "on_drag mx my d =
     (let w = win (drag d) d;
          nx = mx - drag_dx d; ny = my - drag_dy d;
          nx = (if nx < 0 then 0 else nx);
          ny = (if ny < 0 then 0 else ny);
          nx = (if GFX_W < nx + w_w w then GFX_W - w_w w else nx);
          ny = (if GFX_H - TASKBAR_H < ny + w_h w then GFX_H - TASKBAR_H - w_h w else ny)
      in if nx \<noteq> w_x w \<or> ny \<noteq> w_y w
         then (upd_win (drag d) (\<lambda>w. w\<lparr>w_x := nx, w_y := ny\<rparr>) d)\<lparr>need_redraw := True\<rparr> else d)"

primrec cycle :: "nat \<Rightarrow> int \<Rightarrow> desk \<Rightarrow> int" where
  "cycle 0 i d = i"
| "cycle (Suc k) i d = (let i = (i + 1) mod int MAX_WIN in if w_used (win i d) then i else cycle k i d)"

definition open_key :: "u16 \<Rightarrow> wtype option" where
  "open_key c =
     (if c = 0x63 \<or> c = 0x43 then Some WIN_CONSOLE
      else if c = 0x61 \<or> c = 0x41 then Some WIN_ABOUT
      else if c = 0x6D \<or> c = 0x4D then Some WIN_MEMINFO
      else if c = 0x74 \<or> c = 0x54 then Some WIN_TASKS
      else if c = 0x66 \<or> c = 0x46 then Some WIN_FILES
      else None)"

text \<open>A key, and whether it leaves the desktop.\<close>

definition on_key :: "u16 \<Rightarrow> desk \<Rightarrow> bool \<times> desk" where
  "on_key c d =
     (if c = 0 then (False, d)
      else if c = 27 then (False, (if 0 \<le> focus d then win_close (focus d) d else d)\<lparr>need_redraw := True\<rparr>)
      else if c = 0x0D \<or> c = 0x0A then (True, d)
      else case open_key c of
             Some t \<Rightarrow> (False, (snd (win_open t d))\<lparr>need_redraw := True\<rparr>)
           | None \<Rightarrow>
               if c = 9 \<and> list_ex w_used (take MAX_WIN (wins d))
               then (False, (win_raise (cycle MAX_WIN (focus d) d) d)\<lparr>need_redraw := True\<rparr>)
               else (False, d))"

definition repaint :: "int \<Rightarrow> int \<Rightarrow> desk \<Rightarrow> desk option" where
  "repaint mx my d = do {
     let d = (if \<not> need_redraw d \<and> (mx \<noteq> last_mx d \<or> my \<noteq> last_my d) then d\<lparr>need_redraw := True\<rparr> else d);
     d \<leftarrow> (if need_redraw d then map_option (need_redraw_update (\<lambda>_. False)) (redraw_all d) else Some d);
     Some (d\<lparr>kern := (kern d)\<lparr>scr := draw_cursor mx my (scr (kern d))\<rparr>, last_mx := mx, last_my := my\<rparr>) }"

definition gui_frame :: "desk \<Rightarrow> (bool \<times> desk) option" where
  "gui_frame d =
     (let (click, m) = mouse_left_clicked (dmouse d);
          (release, m) = mouse_left_released m;
          down = mouse_left_down m;
          mx = m_x m; my = m_y m;
          d = d\<lparr>dmouse := m\<rparr>;
          d = (if click then on_click mx my d else d);
          d = (if release then d\<lparr>drag := -1\<rparr> else d);
          d = (if 0 \<le> drag d \<and> down then on_drag mx my d else d);
          (c, kb) = keyboard_getc (dkbd d);
          (leave, d) = on_key c (d\<lparr>dkbd := kb\<rparr>)
      in if leave then Some (True, d) else map_option (Pair False) (repaint mx my d))"

definition gui_start :: "device \<Rightarrow> desk \<Rightarrow> desk" where
  "gui_start dev d =
     (let d = d\<lparr>drag := -1, drag_dx := 0, drag_dy := 0, last_mx := -1, last_my := -1, need_redraw := True,
                kern := (kern d)\<lparr>scr := vga_set_mode13h dev (scr (kern d))\<rparr>\<rparr>;
          d = d\<lparr>wins := map (w_used_update (\<lambda>_. False)) (wins d), focus := -1, cascade := 0\<rparr>;
          d = snd (win_open WIN_CONSOLE d);
          d = snd (win_open WIN_ABOUT d);
          d = snd (win_open WIN_MEMINFO d);
          msg = lit ''[gui] mode 13h desktop up (320x200x256), windows=3'' @ [0x0A]
      in d\<lparr>kern := (kern d)\<lparr>scr := on_ports (serial_write dev msg) (scr (kern d))\<rparr>\<rparr>)"

text \<open>The interrupts that end a \<open>hlt\<close>.\<close>

datatype gui_irq = Key_irq u8 | Mouse_irq u8 | Timer_irq

definition gui_interrupt :: "gui_irq \<Rightarrow> desk \<Rightarrow> desk" where
  "gui_interrupt e d = (case e of
     Key_irq sc \<Rightarrow> d\<lparr>dkbd := keyboard_handler sc (dkbd d)\<rparr>
   | Mouse_irq b \<Rightarrow> d\<lparr>dmouse := mouse_handler b (dmouse d)\<rparr>
   | Timer_irq \<Rightarrow> d\<lparr>kern := (kern d)\<lparr>ktimer := timer_tick (ktimer (kern d))\<rparr>\<rparr>)"

primrec gui_loop :: "device \<Rightarrow> gui_irq list \<Rightarrow> desk \<Rightarrow> (bool \<times> desk) option" where
  "gui_loop dev [] d = Some (False, d)"
| "gui_loop dev (e # es) d = do {
     (leave, d) \<leftarrow> gui_frame d;
     if leave
     then Some (True, d\<lparr>kern := (kern d)\<lparr>scr :=
            on_ports (serial_write dev (lit ''[gui] leaving desktop'' @ [0x0A])) (scr (kern d))\<rparr>\<rparr>)
     else gui_loop dev es (gui_interrupt e d) }"

definition gui_enter :: "device \<Rightarrow> gui_irq list \<Rightarrow> desk \<Rightarrow> (bool \<times> desk) option" where
  "gui_enter dev es d = gui_loop dev es (gui_start dev d)"

subsection \<open>The invariant of the desktop\<close>

text \<open>A window lies on the screen, above the taskbar; this holds of closed windows too.\<close>

definition win_ok :: "window \<Rightarrow> bool" where
  "win_ok w \<longleftrightarrow> 0 \<le> w_x w \<and> 0 \<le> w_w w \<and> w_x w + w_w w \<le> 320 \<and>
     0 \<le> w_y w \<and> 0 \<le> w_h w \<and> w_y w + w_h w \<le> 188 \<and> length (w_title w) = 24 \<and> w_title w ! 23 = 0"

definition wins_ok :: "desk \<Rightarrow> bool" where
  "wins_ok d \<longleftrightarrow> length (wins d) = 8 \<and> list_all win_ok (wins d)"

definition focus_ok :: "desk \<Rightarrow> bool" where
  "focus_ok d \<longleftrightarrow> (if focus d = -1 then \<forall>i<8. \<not> w_used (wins d ! i)
     else 0 \<le> focus d \<and> focus d < 8 \<and> w_used (win (focus d) d) \<and> w_focused (win (focus d) d))"

definition desk_ok :: "desk \<Rightarrow> bool" where
  "desk_ok d \<longleftrightarrow> wins_ok d \<and> focus_ok d \<and> 0 \<le> cascade d \<and> -1 \<le> drag d \<and> drag d < 8"

lemma wins_okD: "wins_ok d \<Longrightarrow> 0 \<le> i \<Longrightarrow> i < 8 \<Longrightarrow> win_ok (win i d)"
  by (simp add: wins_ok_def list_all_length win_def nat_less_iff)

lemma upd_win_sel [simp]:
  "focus (upd_win i f d) = focus d" "cascade (upd_win i f d) = cascade d" "drag (upd_win i f d) = drag d"
  "length (wins (upd_win i f d)) = length (wins d)" "kern (upd_win i f d) = kern d"
  by (simp_all add: upd_win_def)

lemma win_upd_win:
  "wins_ok d \<Longrightarrow> 0 \<le> i \<Longrightarrow> i < 8 \<Longrightarrow> 0 \<le> j \<Longrightarrow> win j (upd_win i f d) = (if i = j then f (win i d) else win j d)"
  by (auto simp: win_def upd_win_def wins_ok_def nth_list_update eq_nat_nat_iff)

lemma wins_ok_upd:
  "wins_ok d \<Longrightarrow> 0 \<le> i \<Longrightarrow> i < 8 \<Longrightarrow> win_ok (f (win i d)) \<Longrightarrow> wins_ok (upd_win i f d)"
  by (simp add: wins_ok_def upd_win_def win_def list_all_length nth_list_update)

lemma wins_ok_wins: "wins d' = wins d \<Longrightarrow> wins_ok d' = wins_ok d"
  by (simp add: wins_ok_def)

lemma focus_ok_wins: "wins d' = wins d \<Longrightarrow> focus d' = focus d \<Longrightarrow> focus_ok d' = focus_ok d"
  by (simp add: focus_ok_def win_def)

lemma win_ok_fields [simp]:
  "win_ok (w\<lparr>w_focused := b\<rparr>) = win_ok w" "win_ok (w\<lparr>w_used := b\<rparr>) = win_ok w"
  by (simp_all add: win_ok_def)

lemma win_raise_ok:
  assumes "wins_ok d" and "0 \<le> i" and "i < 8" and "w_used (win i d)"
    and "focus d < 8"
  shows "wins_ok (win_raise i d) \<and> focus (win_raise i d) = i \<and> focus_ok (win_raise i d) \<and>
    cascade (win_raise i d) = cascade d \<and> drag (win_raise i d) = drag d"
proof -
  define d1 where "d1 = (if 0 \<le> focus d \<and> focus d \<noteq> i \<and> w_used (win (focus d) d)
      then upd_win (focus d) (w_focused_update (\<lambda>_. False)) d else d)"
  have d1: "wins_ok d1" "w_used (win i d1)" "cascade d1 = cascade d" "drag d1 = drag d"
    using assms wins_okD [OF assms(1), of "focus d"] by (auto simp: d1_def wins_ok_upd win_upd_win)
  define d2 where "d2 = d1\<lparr>focus := i\<rparr>"
  have d2: "wins_ok d2" "w_used (win i d2)" "focus d2 = i" "cascade d2 = cascade d" "drag d2 = drag d"
    using d1 by (simp_all add: d2_def win_def wins_ok_def)
  have e: "win_raise i d = upd_win i (w_focused_update (\<lambda>_. True)) d2"
    using assms by (simp add: win_raise_def d2_def d1_def MAX_WIN_def Let_def)
  show ?thesis
    using d2 assms(2,3) wins_okD [OF d2(1) assms(2,3)] unfolding e
    by (auto simp: wins_ok_upd focus_ok_def win_upd_win)
qed

lemma focus_ok_bounds: "focus_ok d \<Longrightarrow> -1 \<le> focus d \<and> focus d < 8"
  by (auto simp: focus_ok_def split: if_splits)

lemma scan_down_cases:
  "scan_down P d = -1 \<and> (\<forall>i<8. \<not> (w_used (wins d ! i) \<and> P (wins d ! i))) \<or>
   0 \<le> scan_down P d \<and> scan_down P d < 8 \<and> w_used (win (scan_down P d) d) \<and> P (win (scan_down P d) d)"
proof (cases "List.find (\<lambda>i. w_used (wins d ! i) \<and> P (wins d ! i)) (rev [0 ..< MAX_WIN])")
  case None
  then have "scan_down P d = -1" by (simp add: scan_down_def)
  with None show ?thesis by (auto simp: find_None_iff MAX_WIN_def)
next
  case (Some i)
  from find_SomeD [OF Some] have "i < 8" "w_used (wins d ! i)" "P (wins d ! i)"
    by (auto simp: MAX_WIN_def)
  with Some show ?thesis by (simp add: scan_down_def win_def)
qed

lemma set_title_ok: "length old = 24 \<Longrightarrow> length (set_title t old) = 24 \<and> set_title t old ! 23 = 0"
  by (simp add: set_title_def Let_def length_strncpy_bytes)

lemma win_open_ok:
  assumes "desk_ok d"
  shows "desk_ok (snd (win_open t d))"
proof (cases "List.find (\<lambda>i. \<not> w_used (wins d ! i)) [0 ..< MAX_WIN]")
  case None
  then show ?thesis using assms by (simp add: win_open_def)
next
  case (Some i)
  from find_SomeD [OF Some] have i: "i < 8" "\<not> w_used (wins d ! i)"
    by (auto simp: MAX_WIN_def)
  define c where "c = cascade d"
  define m where "m = c mod 6"
  have m: "0 \<le> m" "m < 6" by (simp_all add: m_def)
  have T: "wins_ok d" "focus d < 8" "0 \<le> cascade d" "-1 \<le> drag d" "drag d < 8"
    using assms focus_ok_bounds by (auto simp: desk_ok_def)
  define opened where "opened = (\<lambda>w :: window. w\<lparr>w_used := True, w_type := t, w_x := CASCADE_X + m * 16, w_y := CASCADE_Y + m * 14,
      w_w := 168, w_h := 88, w_title := set_title (win_title t) (w_title w)\<rparr>)"
  define d1 where "d1 = upd_win (int i) opened (d\<lparr>cascade := c + 1\<rparr>)"
  have t0: "wins_ok (d\<lparr>cascade := c + 1\<rparr>)" using T(1) by (simp add: wins_ok_def)
  have i': "0 \<le> int i" "int i < 8" using i by simp_all
  note w = wins_okD [OF t0 i']
  then have "win_ok (opened (win (int i) (d\<lparr>cascade := c + 1\<rparr>)))"
    using m by (simp add: win_ok_def opened_def set_title_ok CASCADE_X_def CASCADE_Y_def)
  then have d1: "wins_ok d1" "w_used (win (int i) d1)" "focus d1 < 8" "cascade d1 = c + 1" "drag d1 = drag d"
    unfolding d1_def using T
    by (simp_all add: wins_ok_upd [OF t0 i'] win_upd_win [OF t0 i' i'(1)] opened_def)
  have "snd (win_open t d) = win_raise (int i) d1"
    using Some by (simp add: win_open_def d1_def opened_def m_def c_def Let_def)
  then show ?thesis
    using win_raise_ok [OF d1(1) _ _ d1(2,3)] i d1 T by (auto simp: desk_ok_def c_def)
qed

lemma win_close_ok:
  assumes "desk_ok d"
  shows "desk_ok (win_close i d)"
proof (cases "i < 0 \<or> int MAX_WIN \<le> i \<or> \<not> w_used (win i d)")
  case True
  then show ?thesis using assms by (auto simp: win_close_def)
next
  case False
  then have i: "0 \<le> i" "i < 8" by (auto simp: MAX_WIN_def)
  define d1 where "d1 = upd_win i (w_used_update (\<lambda>_. False)) d"
  define d2 where "d2 = d1\<lparr>focus := scan_down (\<lambda>w. True) d1\<rparr>"
  have T: "wins_ok d" using assms by (simp add: desk_ok_def)
  have t1: "wins_ok d1"
    unfolding d1_def using wins_okD [OF T i] by (intro wins_ok_upd [OF T i]) simp
  have t2: "wins_ok d2" using t1 by (simp add: d2_def wins_ok_def)
  have rest: "cascade d2 = cascade d" "drag d2 = drag d" by (simp_all add: d2_def d1_def)
  have e: "win_close i d = (if 0 \<le> focus d2 then upd_win (focus d2) (w_focused_update (\<lambda>_. True)) d2 else d2)"
    using False by (simp add: win_close_def d1_def d2_def Let_def)
  have w: "wins d2 = wins d1" "focus d2 = scan_down (\<lambda>w. True) d1" by (simp_all add: d2_def)
  from scan_down_cases [of "\<lambda>w. True" d1] show ?thesis
  proof
    assume "scan_down (\<lambda>w. True) d1 = -1 \<and> (\<forall>i<8. \<not> (w_used (wins d1 ! i) \<and> True))"
    then show ?thesis
      using t2 rest assms w by (simp add: e desk_ok_def focus_ok_def)
  next
    assume "0 \<le> scan_down (\<lambda>w. True) d1 \<and> scan_down (\<lambda>w. True) d1 < 8 \<and> w_used (win (scan_down (\<lambda>w. True) d1) d1) \<and> True"
    then have f: "0 \<le> focus d2" "focus d2 < 8" "w_used (win (focus d2) d2)"
      by (simp_all add: d2_def win_def)
    then show ?thesis
      using rest assms wins_okD [OF t2 f(1,2)]
      by (auto simp: e desk_ok_def focus_ok_def win_upd_win [OF t2] intro!: wins_ok_upd [OF t2])
  qed
qed

lemma desk_ok_cong:
  "desk_ok d \<Longrightarrow> wins d' = wins d \<Longrightarrow> focus d' = focus d \<Longrightarrow> cascade d' = cascade d \<Longrightarrow>
   -1 \<le> drag d' \<Longrightarrow> drag d' < 8 \<Longrightarrow> desk_ok d'"
  using wins_ok_wins [of d' d] focus_ok_wins [of d' d] by (simp add: desk_ok_def)

lemma desk_okD: "desk_ok d \<Longrightarrow> -1 \<le> drag d \<and> drag d < 8 \<and> -1 \<le> focus d \<and> focus d < 8 \<and> wins_ok d"
  using focus_ok_bounds by (auto simp: desk_ok_def)

lemma win_raise_desk_ok:
  assumes "desk_ok d" and "0 \<le> i" and "i < 8" and "w_used (win i d)"
  shows "desk_ok (win_raise i d)"
  using win_raise_ok [OF _ assms(2-4)] assms(1) desk_okD [OF assms(1)] by (auto simp: desk_ok_def)

lemma win_at_title_cases:
  assumes "desk_ok d" and "0 \<le> win_at_title x y d"
  shows "win_at_title x y d < 8 \<and> w_used (win (win_at_title x y d) d)"
  using assms scan_down_cases [of "inside x y" d] desk_okD [OF assms(1)]
  by (auto simp: win_at_title_def win_at_def Let_def split: if_splits)

lemma on_click_ok:
  assumes "desk_ok d"
  shows "desk_ok (on_click mx my d)"
proof (cases "0 \<le> win_at_close mx my d")
  case True
  show ?thesis
    using win_close_ok [OF assms, of "win_at_close mx my d"] True
    by (auto simp: on_click_def intro: desk_ok_cong)
next
  case False
  show ?thesis
  proof (cases "0 \<le> win_at_title mx my d")
    case True
    from win_at_title_cases [OF assms True] win_raise_desk_ok [OF assms True]
    show ?thesis using False True by (auto simp: on_click_def Let_def intro: desk_ok_cong)
  qed (use assms False in \<open>simp add: on_click_def\<close>)
qed

lemma on_drag_ok:
  assumes "desk_ok d" and "0 \<le> drag d"
  shows "desk_ok (on_drag mx my d)"
proof -
  define nx where "nx = (let n = mx - drag_dx d; n = (if n < 0 then 0 else n)
    in if GFX_W < n + w_w (win (drag d) d) then GFX_W - w_w (win (drag d) d) else n)"
  define ny where "ny = (let n = my - drag_dy d; n = (if n < 0 then 0 else n)
    in if GFX_H - TASKBAR_H < n + w_h (win (drag d) d) then GFX_H - TASKBAR_H - w_h (win (drag d) d) else n)"
  define move where "move = (\<lambda>w :: window. w\<lparr>w_x := nx, w_y := ny\<rparr>)"
  have T: "wins_ok d" and i: "drag d < 8" using desk_okD [OF assms(1)] by simp_all
  have w: "win_ok (win (drag d) d)" by (rule wins_okD [OF T assms(2) i])
  then have "win_ok (move (win (drag d) d))"
    by (simp add: win_ok_def move_def nx_def ny_def Let_def GFX_W_def GFX_H_def TASKBAR_H_def)
  then have t: "wins_ok (upd_win (drag d) move d)"
    by (rule wins_ok_upd [OF T assms(2) i])
  have f: "focus_ok (upd_win (drag d) move d)"
    using assms(1) by (auto simp: desk_ok_def focus_ok_def upd_win_def win_def nth_list_update move_def wins_ok_def split: if_splits)
  have "on_drag mx my d = d \<or> on_drag mx my d = (upd_win (drag d) move d)\<lparr>need_redraw := True\<rparr>"
    unfolding on_drag_def Let_def move_def nx_def ny_def by simp
  moreover have "desk_ok (upd_win (drag d) move d)"
    using t f assms(1) by (simp add: desk_ok_def)
  ultimately show ?thesis
    using assms(1) desk_okD [OF assms(1)] by (auto intro: desk_ok_cong)
qed

lemma cycle_cases:
  "(\<exists>j<k. w_used (win ((i + 1 + int j) mod 8) d)) \<Longrightarrow>
   0 \<le> cycle k i d \<and> cycle k i d < 8 \<and> w_used (win (cycle k i d) d)"
proof (induction k arbitrary: i)
  case (Suc k)
  define i' where "i' = (i + 1) mod 8"
  show ?case
  proof (cases "w_used (win i' d)")
    case False
    from Suc.prems obtain j where j: "j < Suc k" "w_used (win ((i + 1 + int j) mod 8) d)" by blast
    have "j \<noteq> 0"
      using False j(2) by (intro notI) (simp add: i'_def)
    then obtain j' where "j = Suc j'" by (cases j) auto
    moreover have "(i' + 1 + int j') mod 8 = (i + 1 + int (Suc j')) mod 8"
      using mod_add_left_eq [of "i + 1" 8 "1 + int j'"] by (simp add: i'_def add_ac)
    ultimately have "j' < k" "w_used (win ((i' + 1 + int j') mod 8) d)"
      using j by simp_all
    with Suc.IH [of i'] False show ?thesis by (auto simp: i'_def MAX_WIN_def)
  qed (simp add: i'_def MAX_WIN_def)
qed simp

lemma on_key_ok:
  assumes "desk_ok d"
  shows "desk_ok (snd (on_key c d))"
proof -
  have "desk_ok (win_raise (cycle MAX_WIN (focus d) d) d)" if "list_ex w_used (take MAX_WIN (wins d))"
  proof -
    from that desk_okD [OF assms] obtain n where n: "n < 8" "w_used (wins d ! n)"
      by (auto simp: list_ex_iff in_set_conv_nth MAX_WIN_def wins_ok_def)
    define j where "j = nat ((int n - focus d - 1) mod 8)"
    have "int j = (int n - focus d - 1) mod 8" by (simp add: j_def)
    then have "(focus d + 1 + int j) mod 8 = int n" using n(1) by (simp add: mod_simps)
    moreover have "j < 8" by (simp add: j_def nat_less_iff)
    ultimately have "\<exists>j<8. w_used (win ((focus d + 1 + int j) mod 8) d)"
      using n(2) by (auto simp: win_def intro!: exI [of _ j])
    from cycle_cases [OF this] show ?thesis
      by (auto simp: MAX_WIN_def intro!: win_raise_desk_ok [OF assms])
  qed
  moreover have "desk_ok (d'\<lparr>need_redraw := b\<rparr>)" if "desk_ok d'" for d' b
    using that desk_okD [OF that] by (auto intro: desk_ok_cong)
  ultimately show ?thesis
    using assms win_close_ok [OF assms] win_open_ok [OF assms]
    by (auto simp: on_key_def split: option.splits)
qed

lemma redraw_all_frame: "redraw_all d = Some d' \<Longrightarrow> \<exists>k. d' = d\<lparr>kern := k\<rparr>"
  unfolding redraw_all_def Let_def bind_eq_Some_conv option.inject by (elim exE conjE) (rule exI, erule sym)

lemma repaint_ok:
  assumes "desk_ok d" and "repaint mx my d = Some d'"
  shows "desk_ok d'"
proof -
  define b where "b = (\<not> need_redraw d \<and> (mx \<noteq> last_mx d \<or> my \<noteq> last_my d))"
  define d1 where "d1 = (if b then d\<lparr>need_redraw := True\<rparr> else d)"
  from assms(2) obtain d2 where d2: "(if need_redraw d1 then map_option (need_redraw_update (\<lambda>_. False)) (redraw_all d1) else Some d1) = Some d2"
    and d': "d' = d2\<lparr>kern := (kern d2)\<lparr>scr := draw_cursor mx my (scr (kern d2))\<rparr>, last_mx := mx, last_my := my\<rparr>"
    unfolding repaint_def Let_def d1_def b_def by (auto simp: bind_eq_Some_conv simp del: if_split)
  have "wins d2 = wins d1 \<and> focus d2 = focus d1 \<and> cascade d2 = cascade d1 \<and> drag d2 = drag d1"
    using d2 by (auto split: if_splits dest!: redraw_all_frame)
  then have "wins d' = wins d" "focus d' = focus d" "cascade d' = cascade d" "drag d' = drag d"
    by (simp_all add: d' d1_def)
  then show ?thesis
    using assms(1) desk_okD [OF assms(1)] by (auto intro: desk_ok_cong)
qed

text \<open>One turn of the loop, and the loop, keep whatever each of their steps keeps.\<close>

lemma gui_frame_rule:
  assumes "gui_frame d = Some (leave, d')" and "P d"
    and "\<And>d m. P d \<Longrightarrow> m = snd (mouse_left_released (snd (mouse_left_clicked (dmouse d)))) \<Longrightarrow> P (d\<lparr>dmouse := m\<rparr>)"
    and "\<And>mx my d. P d \<Longrightarrow> P (on_click mx my d)" and "\<And>mx my d. P d \<Longrightarrow> 0 \<le> drag d \<Longrightarrow> P (on_drag mx my d)"
    and "\<And>d. P d \<Longrightarrow> P (d\<lparr>drag := -1\<rparr>)" and "\<And>d. P d \<Longrightarrow> P (d\<lparr>dkbd := snd (keyboard_getc (dkbd d))\<rparr>)"
    and "\<And>c d. P d \<Longrightarrow> P (snd (on_key c d))" and "\<And>mx my d d'. P d \<Longrightarrow> repaint mx my d = Some d' \<Longrightarrow> P d'"
  shows "P d'"
proof -
  define m where "m = snd (mouse_left_released (snd (mouse_left_clicked (dmouse d))))"
  define click where "click = fst (mouse_left_clicked (dmouse d))"
  define release where "release = fst (mouse_left_released (snd (mouse_left_clicked (dmouse d))))"
  define d1 where "d1 = (if click then on_click (m_x m) (m_y m) (d\<lparr>dmouse := m\<rparr>) else d\<lparr>dmouse := m\<rparr>)"
  define d2 where "d2 = (if release then d1\<lparr>drag := -1\<rparr> else d1)"
  define d3 where "d3 = (if 0 \<le> drag d2 \<and> mouse_left_down m then on_drag (m_x m) (m_y m) d2 else d2)"
  define d4 where "d4 = d3\<lparr>dkbd := snd (keyboard_getc (dkbd d3))\<rparr>"
  define c where "c = fst (keyboard_getc (dkbd d3))"
  have "P (d\<lparr>dmouse := m\<rparr>)" using assms(2,3) by (simp add: m_def)
  then have "P d1" using assms(4) by (simp add: d1_def)
  then have "P d2" using assms(6) by (simp add: d2_def)
  then have "P d3" using assms(5) by (simp add: d3_def)
  then have "P d4" using assms(7) by (simp add: d4_def)
  then have key: "P (snd (on_key c d4))" using assms(8) by simp
  have "gui_frame d = (if fst (on_key c d4) then Some (True, snd (on_key c d4))
      else map_option (Pair False) (repaint (m_x m) (m_y m) (snd (on_key c d4))))"
    unfolding gui_frame_def Let_def case_prod_unfold fst_conv snd_conv
      d4_def c_def d3_def d2_def d1_def m_def click_def release_def
    by (rule refl)
  with key assms(1) show ?thesis
    by (auto split: if_splits intro: assms(9) [OF key])
qed

declare serial_write.simps [simp del]

lemma gui_loop_rule:
  assumes "gui_loop dev es d = Some (leave, d')" and "P d"
    and "\<And>d leave d'. P d \<Longrightarrow> gui_frame d = Some (leave, d') \<Longrightarrow> P d'" and "\<And>e d. P d \<Longrightarrow> P (gui_interrupt e d)"
    and "\<And>d s. P d \<Longrightarrow> P (d\<lparr>kern := (kern d)\<lparr>scr := s\<rparr>\<rparr>)"
  shows "P d'"
  using assms(1,2)
proof (induction es arbitrary: d)
  case (Cons e es)
  from Cons.prems(1) obtain l d1 where f: "gui_frame d = Some (l, d1)"
    by (auto simp: bind_eq_Some_conv)
  note p = assms(3) [OF Cons.prems(2) f]
  show ?case
  proof (cases l)
    case True
    with Cons.prems(1) f assms(5) [OF p] show ?thesis by auto
  next
    case False
    with Cons.prems(1) f Cons.IH [OF _ assms(4) [OF p]] show ?thesis by simp
  qed
qed simp

lemma gui_frame_ok: "gui_frame d = Some (leave, d') \<Longrightarrow> desk_ok d \<Longrightarrow> desk_ok d'"
proof (erule gui_frame_rule, assumption)
  show "desk_ok (d\<lparr>dmouse := m\<rparr>)" "desk_ok (d\<lparr>drag := -1\<rparr>)" "desk_ok (d\<lparr>dkbd := snd (keyboard_getc (dkbd d))\<rparr>)"
    if "desk_ok d" for d m
    using that desk_okD [OF that] by (auto intro: desk_ok_cong)
qed (simp_all add: on_click_ok on_drag_ok on_key_ok repaint_ok)

lemma gui_interrupt_ok: "desk_ok d \<Longrightarrow> desk_ok (gui_interrupt e d)"
  using desk_okD [of d] by (cases e) (auto simp: gui_interrupt_def intro: desk_ok_cong)

lemma gui_loop_ok: "desk_ok d \<Longrightarrow> gui_loop dev es d = Some (leave, d') \<Longrightarrow> desk_ok d'"
proof (erule gui_loop_rule, assumption)
  show "desk_ok (d\<lparr>kern := (kern d)\<lparr>scr := s\<rparr>\<rparr>)" if "desk_ok d" for d s
    using that desk_okD [OF that] by (auto intro: desk_ok_cong)
qed (rule gui_frame_ok gui_interrupt_ok; assumption)+

lemma gui_start_ok:
  assumes "wins_ok d"
  shows "desk_ok (gui_start dev d)"
proof -
  define d0 where "d0 = d\<lparr>drag := -1, drag_dx := 0, drag_dy := 0, last_mx := -1, last_my := -1, need_redraw := True,
      kern := (kern d)\<lparr>scr := vga_set_mode13h dev (scr (kern d))\<rparr>,
      wins := map (w_used_update (\<lambda>_. False)) (wins d), focus := -1, cascade := 0\<rparr>"
  have "length (wins d0) = 8" "list_all win_ok (wins d0)" "\<forall>i<8. \<not> w_used (wins d0 ! i)"
    using assms by (auto simp: d0_def wins_ok_def list_all_iff)
  then have "desk_ok d0"
    by (simp add: desk_ok_def wins_ok_def focus_ok_def) (simp add: d0_def)
  then have "desk_ok (snd (win_open WIN_MEMINFO (snd (win_open WIN_ABOUT (snd (win_open WIN_CONSOLE d0))))))" (is "desk_ok ?d3")
    by (intro win_open_ok)
  moreover have "gui_start dev d = ?d3\<lparr>kern := kern (gui_start dev d)\<rparr>"
    unfolding gui_start_def Let_def d0_def by simp
  ultimately show ?thesis
    using desk_okD [of ?d3] by (metis desk_ok_cong desk.select_convs(1-4) desk.surjective desk.update_convs(12))
qed

text \<open>C31: Whatever keys, mouse movements and clicks arrive, the desktop stays sound from its start to its
  end: every window lies on the screen and above the taskbar with a terminated title, no slot
  outside the table is focused or dragged, and a window is focused, drawn as such and open,
  whenever any window is open.
\<close>

theorem desktop_invariant:
  assumes "length (wins d) = 8" and "list_all win_ok (wins d)" and "gui_enter dev es d = Some (leave, d')"
  shows "length (wins d') = 8 \<and> list_all win_ok (wins d') \<and> -1 \<le> drag d' \<and> drag d' < 8 \<and>
    (if focus d' = -1 then \<forall>i\<in>{..<8}. \<not> w_used (wins d' ! i)
     else 0 \<le> focus d' \<and> focus d' < 8 \<and> w_used (win (focus d') d') \<and> w_focused (win (focus d') d'))"
proof -
  have "desk_ok d'"
    using gui_loop_ok [OF gui_start_ok] assms by (simp add: gui_enter_def wins_ok_def)
  then show ?thesis
    by (auto simp: desk_ok_def wins_ok_def focus_ok_def)
qed

definition blank_desk :: desk where
  "blank_desk = \<lparr>wins = replicate 8 \<lparr>w_used = False, w_type = WIN_CONSOLE, w_x = 0, w_y = 0, w_w = 0, w_h = 0,
       w_focused = False, w_title = replicate 24 0\<rparr>,
     focus = -1, cascade = 0, drag = -1, drag_dx = 0, drag_dy = 0, last_mx = -1, last_my = -1, need_redraw = True,
     dmouse = \<lparr>m_x = 160, m_y = 100, m_buttons = 0, m_prev = 0, m_pkt0 = 0, m_pkt1 = 0, m_pkt2 = 0, m_cycle = 0,
       m_enabled = True\<rparr>,
     dkbd = kb_enqueue_u16 0x0A boot_kbd, kern = file_kernel closed_file\<rparr>"

lemma win_open_io [simp]:
  "dmouse (snd (win_open t d)) = dmouse d" "dkbd (snd (win_open t d)) = dkbd d"
  by (simp_all add: win_open_def win_raise_def upd_win_def Let_def split: option.splits)

theorem desktop_invariant_witness:
  "\<exists>d'. gui_enter idle_dev [Timer_irq] blank_desk = Some (True, d') \<and> length (wins d') = 8 \<and> drag d' < 8"
proof -
  have "keyboard_getc (kb_enqueue_u16 0x0A boot_kbd) = (0x0A, (kb_enqueue_u16 0x0A boot_kbd)\<lparr>kbuf_tail := 1\<rparr>)"
    by (simp add: keyboard_getc_def kb_enqueue_u16_def boot_kbd_def KB_BUF_SIZE_def)
  then obtain d' where r: "gui_enter idle_dev [Timer_irq] blank_desk = Some (True, d')"
    by (simp add: gui_enter_def gui_frame_def gui_start_def Let_def blank_desk_def mouse_left_clicked_def
        mouse_left_released_def mouse_left_down_def on_key_def)
  have "length (wins blank_desk) = 8" "list_all win_ok (wins blank_desk)"
    by (simp_all add: blank_desk_def list_all_iff win_ok_def)
  from desktop_invariant [OF this r] r show ?thesis by auto
qed

end
