(* ===== verification/UserLoad.thy ===== *)
theory UserLoad
  imports Sched
begin

section \<open>Loading programs (kernel/user.c)\<close>

text \<open>
  The ELF loader and \<open>user_spawn\<close>.  The image lies in kernel memory at \<open>img\<close> and is read, like
  the segments are written, through the page tables in force: those of the new process, which
  \<open>user_spawn\<close> switches to.  All arithmetic on the header's fields wraps at 32 bits.  \<open>None\<close> is a
  page fault in the kernel.  An interrupt between the two switches is not modelled.
\<close>

definition PT_LOAD :: u32 where "PT_LOAD = 1"
definition USER_TEXT_BASE :: u32 where "USER_TEXT_BASE = 0x200000"
definition EHDR_BYTES :: u32 where "EHDR_BYTES = 52"
definition PHDR_BYTES :: u32 where "PHDR_BYTES = 32"

definition kld16 :: "u32 \<Rightarrow> pg_state \<Rightarrow> u16 option" where
  "kld16 a s = do { l \<leftarrow> kld8 a s; h \<leftarrow> kld8 (a + 1) s; Some (ucast l OR push_bit 8 (ucast h)) }"

text \<open>The fields of \<open>struct elf32_hdr\<close> and \<open>struct elf32_phdr\<close> by their offsets.\<close>

definition e_type :: "u32 \<Rightarrow> pg_state \<Rightarrow> u16 option" where "e_type h = kld16 (h + 16)"
definition e_machine :: "u32 \<Rightarrow> pg_state \<Rightarrow> u16 option" where "e_machine h = kld16 (h + 18)"
definition e_entry :: "u32 \<Rightarrow> pg_state \<Rightarrow> u32 option" where "e_entry h = kld32 (h + 24)"
definition e_phoff :: "u32 \<Rightarrow> pg_state \<Rightarrow> u32 option" where "e_phoff h = kld32 (h + 28)"
definition e_phnum :: "u32 \<Rightarrow> pg_state \<Rightarrow> u16 option" where "e_phnum h = kld16 (h + 44)"
definition p_type :: "u32 \<Rightarrow> pg_state \<Rightarrow> u32 option" where "p_type p = kld32 p"
definition p_offset :: "u32 \<Rightarrow> pg_state \<Rightarrow> u32 option" where "p_offset p = kld32 (p + 4)"
definition p_vaddr :: "u32 \<Rightarrow> pg_state \<Rightarrow> u32 option" where "p_vaddr p = kld32 (p + 8)"
definition p_filesz :: "u32 \<Rightarrow> pg_state \<Rightarrow> u32 option" where "p_filesz p = kld32 (p + 16)"
definition p_memsz :: "u32 \<Rightarrow> pg_state \<Rightarrow> u32 option" where "p_memsz p = kld32 (p + 20)"

text \<open>The loop over the program headers; \<open>False\<close> is the early \<open>return 0\<close>.\<close>

fun load_segments :: "u32 \<Rightarrow> u32 \<Rightarrow> u32 \<Rightarrow> u32 list \<Rightarrow> pg_state \<Rightarrow> (bool \<times> pg_state) option" where
  "load_segments c img sz [] s = Some (True, s)"
| "load_segments c img sz (ph # phs) s = do {
     ty \<leftarrow> p_type ph s;
     if ty \<noteq> PT_LOAD then load_segments c img sz phs s
     else do {
       va \<leftarrow> p_vaddr ph s;
       memsz \<leftarrow> p_memsz ph s;
       off \<leftarrow> p_offset ph s;
       filesz \<leftarrow> p_filesz ph s;
       if va < USER_TEXT_BASE then Some (False, s)
       else if USER_STACK_TOP < va + memsz then Some (False, s)
       else if sz < off + filesz then Some (False, s)
       else do {
         (ok, s) \<leftarrow> paging_map_user_region c va memsz s;
         if \<not> ok then Some (False, s)
         else do {
           s \<leftarrow> vmemcpy va (img + off) (unat filesz) s;
           s \<leftarrow> (if filesz < memsz then vmemset (va + filesz) 0 (unat (memsz - filesz)) s else Some s);
           load_segments c img sz phs s } } } }"

definition user_load_elf :: "u32 \<Rightarrow> u32 \<Rightarrow> u32 \<Rightarrow> pg_state \<Rightarrow> (u32 \<times> pg_state) option" where
  "user_load_elf c img sz s =
     (if sz < EHDR_BYTES then Some (0, s)
      else do {
        i0 \<leftarrow> kld8 img s; i1 \<leftarrow> kld8 (img + 1) s; i2 \<leftarrow> kld8 (img + 2) s; i3 \<leftarrow> kld8 (img + 3) s;
        machine \<leftarrow> e_machine img s;
        type \<leftarrow> e_type img s;
        phoff \<leftarrow> e_phoff img s;
        phnum \<leftarrow> e_phnum img s;
        if i0 \<noteq> 0x7F \<or> i1 \<noteq> 0x45 \<or> i2 \<noteq> 0x4C \<or> i3 \<noteq> 0x46 then Some (0, s)
        else if machine \<noteq> 3 then Some (0, s)
        else if type \<noteq> 2 then Some (0, s)
        else if sz < phoff + ucast phnum * PHDR_BYTES then Some (0, s)
        else do {
          (ok, s) \<leftarrow> load_segments c img sz
             (map (\<lambda>i. img + phoff + of_nat i * PHDR_BYTES) [0 ..< unat phnum]) s;
          if \<not> ok then Some (0, s)
          else do { entry \<leftarrow> e_entry img s; Some (entry, s) } } })"

definition switch_space :: "u32 \<Rightarrow> sched \<Rightarrow> sched" where
  "switch_space c s = s\<lparr>pg := paging_switch c (pg s)\<rparr>"

definition user_spawn :: "u8 list \<Rightarrow> u32 \<Rightarrow> u32 \<Rightarrow> sched \<Rightarrow> (u32 \<times> sched) option" where
  "user_spawn name img sz s = do {
     (c, s) \<leftarrow> in_pg paging_create_addr_space s;
     if c = 0 then Some (0, s)
     else do {
       let old = paging_get_cr3 (pg s);
       let s = switch_space c s;
       (entry, s) \<leftarrow> in_pg (user_load_elf c img sz) s;
       if entry = 0 then do {
         s \<leftarrow> destroy_space c (switch_space old s);
         Some (0, s) }
       else do {
         (ok, s) \<leftarrow> in_pg (paging_map_user_region c (USER_STACK_TOP - 0x2000) 0x2000) s;
         if \<not> ok then do {
           s \<leftarrow> destroy_space c (switch_space old s);
           Some (0, s) }
         else do {
           (pid, s) \<leftarrow> task_create_user name entry c s;
           let s = switch_space old s;
           s \<leftarrow> (if pid = 0 then destroy_space c s else Some s);
           Some (pid, s) } } } }"

subsection \<open>Images that are refused by their header\<close>

text \<open>What the header checks compute, on the image's bytes in memory.\<close>

definition half :: "mem \<Rightarrow> u32 \<Rightarrow> u16" where
  "half m a = ucast (m a) OR push_bit 8 (ucast (m (a + 1)))"

definition bad_header :: "mem \<Rightarrow> u32 \<Rightarrow> u32 \<Rightarrow> bool" where
  "bad_header m img sz \<longleftrightarrow> sz < EHDR_BYTES \<or>
     m img \<noteq> 0x7F \<or> m (img + 1) \<noteq> 0x45 \<or> m (img + 2) \<noteq> 0x4C \<or> m (img + 3) \<noteq> 0x46 \<or>
     half m (img + 18) \<noteq> 3 \<or> half m (img + 16) \<noteq> 2 \<or>
     sz < load32 m (img + 28) + ucast (half m (img + 44)) * PHDR_BYTES"

definition header_mapped :: "u32 \<Rightarrow> bool" where
  "header_mapped img \<longleftrightarrow> (\<forall>k<52. kaddr (img + of_nat k))"

lemma header_mappedD: "header_mapped img \<Longrightarrow> k < 52 \<Longrightarrow> kaddr (img + of_nat k)"
  by (simp add: header_mapped_def)

lemmas header_fields = e_type_def e_machine_def e_entry_def e_phoff_def e_phnum_def kld16_def

lemma bad_header_refused:
  assumes "kview s" and "header_mapped img" and "bad_header (ram s) img sz"
  shows "user_load_elf c img sz s = Some (0, s)"
proof -
  note k = header_mappedD [OF assms(2)]
  have "kaddr img" "kaddr (img + 1)" "kaddr (img + 2)" "kaddr (img + 3)" "kaddr (img + 16)" "kaddr (img + 17)"
    "kaddr (img + 18)" "kaddr (img + 19)" "kaddr (img + 28)" "kaddr (img + 44)" "kaddr (img + 45)"
    using k [of 0] k [of 1] k [of 2] k [of 3] k [of 16] k [of 17] k [of 18] k [of 19] k [of 28] k [of 44] k [of 45]
    by simp_all
  then have "kld8 img s = Some (ram s img)" "kld8 (img + 1) s = Some (ram s (img + 1))"
    "kld8 (img + 2) s = Some (ram s (img + 2))" "kld8 (img + 3) s = Some (ram s (img + 3))"
    "e_machine img s = Some (half (ram s) (img + 18))" "e_type img s = Some (half (ram s) (img + 16))"
    "e_phoff img s = Some (load32 (ram s) (img + 28))" "e_phnum img s = Some (half (ram s) (img + 44))"
    by (simp_all add: header_fields half_def kernel_access [OF assms(1)] add.assoc)
  with assms(3) show ?thesis
    by (auto simp: user_load_elf_def bad_header_def Let_def)
qed

text \<open>The header is out of reach of the frames the allocator may hand out.\<close>

definition header_safe :: "pg_state \<Rightarrow> u32 \<Rightarrow> bool" where
  "header_safe s img \<longleftrightarrow> header_mapped img \<and> (\<forall>k<52. fno (img + of_nat k) \<notin> free_set (mm s))"

lemma bad_header_cong:
  assumes "\<And>k. k < 52 \<Longrightarrow> m' (img + of_nat k) = m (img + of_nat k)"
  shows "bad_header m' img sz = bad_header m img sz"
proof -
  note e = assms [of 0] assms [of 1] assms [of 2] assms [of 3] assms [of 16] assms [of 17] assms [of 18]
    assms [of 19] assms [of 28] assms [of 29] assms [of 30] assms [of 31] assms [of 44] assms [of 45]
  show ?thesis
    using e by (simp add: bad_header_def half_def load32_def add.assoc)
qed

text \<open>Starting a program from an image that is too short or whose ELF header is not that of a 32-bit
  i386 executable with its program headers inside the image returns 0 and leaves no trace: the
  address space of the parent is back in force, the task table, the heap and every byte outside
  the two frames that were free before are unchanged, and exactly the same frames are free.
\<close>

lemma spawn_bad_image_leaves_no_trace:
  assumes "kernel_ok (pg s)" and "2 \<le> card (low_frames (pg s))" and "header_safe (pg s) img"
    and "bad_header (ram (pg s)) img sz" and "0 \<notin> free_set (mm (pg s))"
    and "\<forall>d\<in>{0 <..< 1024}. load32 (ram (pg s)) (slot KERNEL_PD d) AND PTE_P = 0"
  shows "\<exists>m M. user_spawn name img sz s = Some (0, s\<lparr>pg := (pg s)\<lparr>ram := m, mm := M\<rparr>\<rparr>) \<and>
    free_set M = free_set (mm (pg s)) \<and>
    (\<forall>x. fno x \<notin> free_set (mm (pg s)) \<longrightarrow> m x = ram (pg s) x)"
proof -
  define P where "P = pg s"
  obtain c P' where c: "paging_create_addr_space P = Some (c, P')" "c \<noteq> 0" "kernel_ok P'"
    "addr_space (ram P') (mm P') c" "\<forall>i. user_page i \<longrightarrow> uent (ram P') c i = 0"
    "fno c \<in> free_set (mm P)" "fno (ptab (ram P') c) \<in> free_set (mm P)" "cr3 P' = cr3 P"
    "c \<noteq> ptab (ram P') c"
    "free_set (mm P') = free_set (mm P) - {fno c, fno (ptab (ram P') c)}"
    "frame_refs (mm P') = frame_refs (mm P)"
    "\<forall>x. fbase x \<noteq> c \<longrightarrow> fbase x \<noteq> ptab (ram P') c \<longrightarrow> ram P' x = ram P x"
    "\<forall>d<1024. 0 < d \<longrightarrow> load32 (ram P') (slot c d) = load32 (ram P) (slot KERNEL_PD d)"
    using assms(1,2) unfolding P_def [symmetric] by (rule create_addr_space_spec) (rule that)
  obtain pd pt s1 where al: "alloc_tables P = (Some (pd, pt), s1)" and ka: "kaddr pd" "kaddr pt"
    using alloc_tables_low [of P] assms(1,2) by (auto simp: P_def kernel_ok_def)
  obtain m M0 where "paging_create_addr_space P = Some (pd, P\<lparr>ram := m, mm := M0\<rparr>)"
    using assms(1) al ka unfolding P_def [symmetric] by (rule create_addr_space_steps) (rule that)
  then have P': "P' = P\<lparr>ram := m, mm := M0\<rparr>" using c(1) by simp
  have A: "kmap (ram P') c" using c(4) by (simp add: addr_space_def)
  have uf: "user_frames (ram P') c = {}" using c(5) by (auto simp: user_frames_def)
  have ne: "c \<noteq> KERNEL_PD" "ptab (ram P') c \<noteq> KERNEL_PT" "ptab (ram P') c \<noteq> KERNEL_PD"
    using fresh_frame [of P, OF _ c(6)] fresh_frame [of P, OF _ c(7)] assms(1) by (simp_all add: P_def)
  have pos: "0 < fno c" "0 < fno (ptab (ram P') c)"
    using c(6,7) assms(5) by (auto simp: P_def intro: gr0I)
  have rel: "releasable P' c"
    unfolding releasable_def space_ok_def using c(3,4) ne pos uf c(13) assms(6)
    by (auto simp: P_def user_frames_def)
  obtain M where M: "paging_destroy_addr_space c P' = Some (P'\<lparr>mm := M\<rparr>)"
    "free_set M = free_set (mm P') \<union> {fno c, fno (ptab (ram P') c)} \<union> own_frames (ram P') (mm P') c"
    by (rule release_spec [OF rel]) (rule that)
  have own: "own_frames (ram P') (mm P') c = {}" by (simp add: own_frames_def uf)
  have same: "ram P' x = ram P x" if "fno x \<notin> free_set (mm P)" for x
    using c(12) c(6,7) that by (metis fno_fbase)
  have hdr: "bad_header (ram P') img sz"
    using bad_header_cong [of "ram P'" img "ram P" sz] same assms(3,4) by (simp add: header_safe_def P_def)
  have load: "user_load_elf c img sz (P'\<lparr>cr3 := c\<rparr>) = Some (0, P'\<lparr>cr3 := c\<rparr>)"
    using A hdr assms(3) by (intro bad_header_refused) (simp_all add: kview_def header_safe_def)
  have "user_spawn name img sz s = Some (0, s\<lparr>pg := P'\<lparr>mm := M\<rparr>\<rparr>)"
    using c(1,2,8) load M(1)
    by (simp add: user_spawn_def in_pg_def switch_space_def paging_switch_def paging_get_cr3_def destroy_space_def
        P_def [symmetric] P')
  moreover have "free_set M = free_set (mm P)"
    using M(2) own c(6,7,10) by auto
  ultimately show ?thesis
    using same by (intro exI [of _ m] exI [of _ M]) (simp add: P' P_def)
qed

lemma heap_header_safe: "header_safe init_pg 0x300000"
proof -
  have "fno (0x300000 + of_nat k) = 768" if "k < 52" for k
  proof -
    have "unat (of_nat k :: u32) = k" using that by (simp add: unat_of_nat32)
    moreover have "unat (0x300000 :: u32) = 3145728" by simp
    ultimately have "unat (0x300000 + of_nat k :: u32) = 3145728 + k"
      using that by (subst unat_add_no_wrap) simp_all
    then show ?thesis using that by (simp add: fno_def)
  qed
  then show ?thesis
    by (simp add: header_safe_def header_mapped_def kaddr_def user_page_def init_pg(3) free_set_mm_init)
qed

lemma spawn_bad_image_leaves_no_trace_witness:
  "\<exists>m M. user_spawn (lit ''x.elf'') 0x300000 10 (fresh_sched init_pg)
       = Some (0, (fresh_sched init_pg)\<lparr>pg := init_pg\<lparr>ram := m, mm := M\<rparr>\<rparr>) \<and> free_set M = {304 ..< 768}"
proof -
  have "kernel_ok (pg (fresh_sched init_pg))" "2 \<le> card (low_frames (pg (fresh_sched init_pg)))"
    by (simp_all add: fresh_sched_def init_pg(1) init_pg_low)
  moreover have "header_safe (pg (fresh_sched init_pg)) 0x300000"
    by (simp add: fresh_sched_def heap_header_safe)
  moreover have "bad_header (ram (pg (fresh_sched init_pg))) 0x300000 10"
    by (simp add: bad_header_def EHDR_BYTES_def)
  moreover have "free_set (mm (pg (fresh_sched init_pg))) = {304 ..< 768}"
    by (simp add: fresh_sched_def init_pg(3) free_set_mm_init)
  moreover have "\<forall>d\<in>{0 <..< 1024}. load32 (ram (pg (fresh_sched init_pg))) (slot KERNEL_PD d) AND PTE_P = 0"
    using init_pg(4) by (simp add: fresh_sched_def)
  ultimately show ?thesis
    using spawn_bad_image_leaves_no_trace [of "fresh_sched init_pg" "0x300000" 10 "lit ''x.elf''"]
    by (auto simp: fresh_sched_def)
qed

end
