(* ===== verification/Shell.thy ===== *)
theory Shell
  imports Gui UserLoad
begin

section \<open>The shell (kernel/shell.c)\<close>

text \<open>
  The line editor, the command history, the splitting of a line into words, tab completion and
  every built-in command, over the state of the whole kernel.  A character array is a list
  of its bytes, and a pointer into the line an index.  \<open>None\<close> stands for what stops the
  kernel: a page fault, or a text that overruns the array it is formatted or copied into.
\<close>

definition LINE_MAX :: nat where "LINE_MAX = 128"
definition ARGV_MAX :: nat where "ARGV_MAX = 16"
definition HIST_MAX :: u32 where "HIST_MAX = 8"
definition FAT_MAX_FILES :: u32 where "FAT_MAX_FILES = 32"
definition FAT_NAME_LEN :: nat where "FAT_NAME_LEN = 16"
definition C_OK :: u8 where "C_OK = 0x0A"
definition C_ERR :: u8 where "C_ERR = 0x0C"
definition C_DIM :: u8 where "C_DIM = 0x07"

record shell =
  sline :: "u8 list"
  line_len :: nat
  hist :: "u8 list list"
  hist_count :: u32
  hist_pos :: int
  sdesk :: desk

subsection \<open>Output\<close>

definition skern :: "shell \<Rightarrow> kernel" where
  "skern sh = kern (sdesk sh)"

definition upd_kern :: "(kernel \<Rightarrow> kernel) \<Rightarrow> shell \<Rightarrow> shell" where
  "upd_kern f sh = sh\<lparr>sdesk := (sdesk sh)\<lparr>kern := f (kern (sdesk sh))\<rparr>\<rparr>"

definition ln :: "string \<Rightarrow> u8 list" where
  "ln s = lit s @ [0x0A]"

definition say :: "device \<Rightarrow> u8 list \<Rightarrow> u8 \<Rightarrow> shell \<Rightarrow> shell" where
  "say dev t attr sh = upd_kern (\<lambda>k. k\<lparr>scr := con_write dev t attr (scr k)\<rparr>) sh"

definition say_char :: "device \<Rightarrow> u8 \<Rightarrow> shell \<Rightarrow> shell" where
  "say_char dev c sh = upd_kern (\<lambda>k. k\<lparr>scr := con_putc dev c (scr k)\<rparr>) sh"

definition puts :: "device \<Rightarrow> u8 list \<Rightarrow> shell \<Rightarrow> shell" where
  "puts dev t sh = say dev t 0x0F sh"

definition putsn :: "device \<Rightarrow> u8 list \<Rightarrow> shell \<Rightarrow> shell" where
  "putsn dev t sh = say dev [0x0A] 0x0F (say dev t 0x0F sh)"

definition err :: "device \<Rightarrow> u8 list \<Rightarrow> shell \<Rightarrow> shell" where
  "err dev t sh = say dev t C_ERR sh"

definition ok :: "device \<Rightarrow> u8 list \<Rightarrow> shell \<Rightarrow> shell" where
  "ok dev t sh = say dev t C_OK sh"

text \<open>\<open>ksprintf\<close> into an array of \<open>cap\<close> bytes, then written.\<close>

definition fmt_to :: "(u8 list \<Rightarrow> shell \<Rightarrow> shell) \<Rightarrow> nat \<Rightarrow> u8 list \<Rightarrow> parg list \<Rightarrow> shell \<Rightarrow> shell option" where
  "fmt_to out cap fmt args sh = map_option (\<lambda>t. out (cstring t) sh) (ksprintf cap fmt args)"

definition prompt :: "device \<Rightarrow> shell \<Rightarrow> shell" where
  "prompt dev sh = say dev (lit ''novaos> '') 0x0B sh"

definition redraw_line :: "device \<Rightarrow> shell \<Rightarrow> shell" where
  "redraw_line dev sh =
     (let sh = say dev [0x0D] 0x0F sh;
          sh = fold (say_char dev) (replicate 80 0x20) sh;
          sh = say dev [0x0D] 0x0F sh;
          sh = prompt dev sh
      in fold (say_char dev) (take (line_len sh) (sline sh)) sh)"

subsection \<open>History\<close>

text \<open>\<open>strncpy(dst, s, 127); dst[127] = 0\<close>.\<close>

definition copy_line :: "u8 list \<Rightarrow> u8 list \<Rightarrow> u8 list" where
  "copy_line s old = (let bs = strncpy_bytes s 127 in (bs @ drop (length bs) old)[127 := 0])"

definition remember :: "u8 list \<Rightarrow> shell \<Rightarrow> shell" where
  "remember cmd sh =
     (if cmd = [] then sh
      else if 0 < hist_count sh \<and> cstring (hist sh ! unat ((hist_count sh - 1) mod HIST_MAX)) = cmd then sh
      else let i = unat (hist_count sh mod HIST_MAX)
           in sh\<lparr>hist := (hist sh)[i := copy_line cmd (hist sh ! i)],
                 hist_count := hist_count sh + 1, hist_pos := -1\<rparr>)"

definition hist_get :: "u32 \<Rightarrow> shell \<Rightarrow> u8 list option" where
  "hist_get back sh =
     (if HIST_MAX \<le> back \<or> hist_count sh \<le> back then None
      else Some (cstring (hist sh ! unat ((hist_count sh - 1 - back) mod HIST_MAX))))"

subsection \<open>Splitting a line\<close>

text \<open>The byte at a position; the line is terminated within its array.\<close>

definition chr :: "u8 list \<Rightarrow> nat \<Rightarrow> u8" where
  "chr l p = (if p < length l then l ! p else 0)"

definition is_blank :: "u8 \<Rightarrow> bool" where
  "is_blank c \<longleftrightarrow> c = 0x20 \<or> c = 0x09"

function skip_blank :: "u8 list \<Rightarrow> nat \<Rightarrow> nat" where
  "skip_blank l p = (if is_blank (chr l p) then skip_blank l (p + 1) else p)"
  by pat_completeness auto

termination
  by (relation "measure (\<lambda>(l, p). length l - p)") (auto simp: is_blank_def chr_def split: if_splits)

function skip_word :: "u8 list \<Rightarrow> nat \<Rightarrow> nat" where
  "skip_word l p = (if chr l p \<noteq> 0 \<and> \<not> is_blank (chr l p) then skip_word l (p + 1) else p)"
  by pat_completeness auto

termination
  by (relation "measure (\<lambda>(l, p). length l - p)") (auto simp: chr_def split: if_splits)

declare skip_blank.simps [simp del] skip_word.simps [simp del]

lemma skip_le: "p \<le> skip_blank l p" "p \<le> skip_word l p"
proof -
  show "p \<le> skip_blank l p"
    by (induction l p rule: skip_blank.induct) (subst skip_blank.simps, auto)
  show "p \<le> skip_word l p"
    by (induction l p rule: skip_word.induct) (subst skip_word.simps, auto)
qed

lemma split_decreases: "chr l q \<noteq> 0 \<Longrightarrow> p \<le> q \<Longrightarrow> length l - Suc q < length l - p"
  by (auto simp: chr_def split: if_splits)

text \<open>The words' positions from word \<open>n\<close> and position \<open>p\<close> on, and the line with its separators cut.\<close>

function split_from :: "nat \<Rightarrow> nat \<Rightarrow> nat \<Rightarrow> u8 list \<Rightarrow> nat list \<times> u8 list" where
  "split_from mx n p l =
     (if chr l p = 0 then ([], l)
      else let p' = skip_blank l p
      in if chr l p' = 0 then ([], l)
         else if mx - 1 \<le> n then ([], l)
         else let q = skip_word l p'
              in if chr l q \<noteq> 0
                 then (case split_from mx (n + 1) (q + 1) (l[q := 0]) of (ps, l') \<Rightarrow> (p' # ps, l'))
                 else ([p'], l))"
  by pat_completeness auto

termination
proof (relation "measure (\<lambda>(mx, n, p, l). length l - p)", goal_cases)
  case (2 mx n p l p' q)
  then have "p \<le> q" using skip_le(1) [of p l] skip_le(2) [of p' l] by simp
  with 2 show ?case using split_decreases [of l q p] by simp
qed simp

declare split_from.simps [simp del]

definition split :: "u8 list \<Rightarrow> nat list \<times> u8 list" where
  "split l = split_from ARGV_MAX 0 0 l"

text \<open>The arguments as strings.\<close>

definition argv_of :: "u8 list \<Rightarrow> u8 list list" where
  "argv_of l = (case split l of (ps, l') \<Rightarrow> map (\<lambda>p. cstring (drop p l')) ps)"

subsection \<open>The commands\<close>

definition help_text :: "u8 list" where
  "help_text =
     ln ''NovaOS shell - built-in commands'' @
     ln ''  help              this text'' @
     ln ''  clear             clear the screen'' @
     ln ''  meminfo           physical / heap memory usage'' @
     ln ''  tasks             running tasks'' @
     ln ''  ps                task table with pid / name / state'' @
     ln ''  ls                list the FAT12 root directory'' @
     ln ''  cat <file>        print a file from the data disk'' @
     ln ''  hexdump <file>    dump a file as hex + ASCII'' @
     ln ''  stat <file>       size / first cluster / attribute'' @
     ln ''  write <f> <text>  create or replace a file with <text>'' @
     ln ''  append <f> <text> add <text> to the end of a file'' @
     ln ''  rm <file>         delete a file'' @
     ln ''  df                free space on the data disk'' @
     ln ''  run <prog>        load a program from disk and run it in ring 3'' @
     ln ''  echo <text>       print the arguments back'' @
     ln ''  uptime            ticks since boot'' @
     ln ''  gui               enter the graphical desktop'' @
     ln ''  about             version / feature summary'' @
     ln ''  reboot            reset the machine'' @
     ln '''' @
     ln ''editing: <backspace> delete, <up>/<down> history, <tab> complete''"

definition cmd_help :: "device \<Rightarrow> shell \<Rightarrow> shell" where
  "cmd_help dev sh = say dev help_text 0x0F sh"

definition about_text :: "u8 list" where
  "about_text =
     ln ''NovaOS v1.0 - a small operating system written from scratch'' @
     ln ''  boot    : 512B stage1 -> stage2 loader -> protected mode -> kernel'' @
     ln ''  drivers : VGA text + mode-13h graphics, PS/2 keyboard & mouse,'' @
     ln ''            8259 PIC, PIT, ATA PIO'' @
     ln ''  memory  : physical frame allocator, kernel heap, per-process page'' @
     ln ''            tables with copy-on-write fork'' @
     ln ''  sched   : preemptive round robin, private ring0 stack per task'' @
     ln ''  syscall : int 0x80 - write getpid exit fork open read close sleep brk'' @
     ln ''  fs      : FAT12 reader (8.3 names, cluster chain, spc aware)'' @
     ln ''  userland: static ELF32 loaded at 0x200000, runs in ring 3''"

definition cmd_about :: "device \<Rightarrow> shell \<Rightarrow> shell" where
  "cmd_about dev sh = say dev about_text 0x0F sh"

definition cmd_clear :: "shell \<Rightarrow> shell" where
  "cmd_clear sh = upd_kern (\<lambda>k. k\<lparr>scr := vga_clear 0x0F (scr k)\<rparr>) sh"

definition MEM_END :: u32 where "MEM_END = 0x400000"

definition cmd_meminfo :: "device \<Rightarrow> shell \<Rightarrow> shell option" where
  "cmd_meminfo dev sh = do {
     let total = (MEM_END - 0x100000) div 1024;
     let freek = of_nat (mm_free_frames (mm (upg (skern sh)))) * 4;
     let used = (if freek < total then total - freek else 0);
     sh \<leftarrow> fmt_to (puts dev) 128 (ln ''physical: %u KB total, %u KB free, %u KB used'') [Word total, Word freek, Word used] sh;
     u \<leftarrow> kheap_used (sheap (ks (skern sh)));
     sh \<leftarrow> fmt_to (puts dev) 128 (ln ''heap    : 0x300000-0x400000, %u B used'') [Word u] sh;
     fmt_to (puts dev) 128 (ln ''paging  : current cr3 = 0x%x'') [Word (paging_get_cr3 (upg (skern sh)))] sh }"

definition cmd_tasks :: "device \<Rightarrow> shell \<Rightarrow> shell option" where
  "cmd_tasks dev sh =
     fmt_to (puts dev) 80 (ln ''tasks: %u total | current pid: %u'')
       [Word (of_nat (sched_task_count (ks (skern sh)))), Word (sched_current_pid (ks (skern sh)))] sh"

primrec ps_rows :: "device \<Rightarrow> nat list \<Rightarrow> shell \<Rightarrow> shell option" where
  "ps_rows dev [] sh = Some sh"
| "ps_rows dev (i # is) sh =
     (let s = ks (skern sh); k = of_nat i
      in Option.bind
           (fmt_to (puts dev) 80 (ln ''  %4u %4u  %5s %s'')
              [Word k, Word (sched_task_pid k s),
               Str (Some (if sched_task_state k s then lit ''ready'' else lit ''dead'')),
               Str (Some (cstring (sched_task_name k s)))] sh)
           (ps_rows dev is))"

definition cmd_ps :: "device \<Rightarrow> shell \<Rightarrow> shell option" where
  "cmd_ps dev sh =
     (let n = sched_task_count (ks (skern sh))
      in ps_rows dev [0 ..< n] (puts dev (ln ''  slot pid  state name'') sh))"

definition cmd_uptime :: "device \<Rightarrow> shell \<Rightarrow> shell option" where
  "cmd_uptime dev sh =
     (let t = timer_ticks (ktimer (skern sh))
      in fmt_to (puts dev) 64 (ln ''up %u ticks (%u.%02u s at 100 Hz)'') [Word t, Word (t div 100), Word (t mod 100)] sh)"

definition cmd_echo :: "device \<Rightarrow> u8 list \<Rightarrow> shell \<Rightarrow> shell" where
  "cmd_echo dev rest sh = putsn dev rest sh"

text \<open>An operation of the file system, and its result.\<close>

definition in_fat :: "(fat \<Rightarrow> 'a \<times> fat) \<Rightarrow> shell \<Rightarrow> 'a \<times> shell" where
  "in_fat f sh = (case f (kfat (skern sh)) of (r, v) \<Rightarrow> (r, upd_kern (\<lambda>k. k\<lparr>kfat := v\<rparr>) sh))"

primrec ls_rows :: "device \<Rightarrow> (u8 list \<times> u32) list \<Rightarrow> shell \<Rightarrow> shell option" where
  "ls_rows dev [] sh = Some sh"
| "ls_rows dev (e # es) sh =
     Option.bind (fmt_to (puts dev) 64 (ln ''  %-14s %8u B'') [Str (Some (fst e)), Word (snd e)] sh) (ls_rows dev es)"

definition cmd_ls :: "device \<Rightarrow> shell \<Rightarrow> shell option" where
  "cmd_ls dev sh =
     (case in_fat (fat_list FAT_MAX_FILES) sh of
        (None, sh) \<Rightarrow> Some (err dev (ln ''ls: no FAT disk mounted'') sh)
      | (Some es, sh) \<Rightarrow>
          if es = [] then Some (puts dev (ln ''(empty)'') sh)
          else do {
            sh \<leftarrow> ls_rows dev es sh;
            fmt_to (puts dev) 64 (ln ''  %u file(s), %u B'') [Word (of_nat (length es)), Word (sum_list (map snd es))] sh })"

text \<open>The heap operations of the commands; a program's memory is \<open>ram\<close> of its page state.\<close>

definition sh_kmalloc :: "u32 \<Rightarrow> shell \<Rightarrow> (u32 \<times> shell) option" where
  "sh_kmalloc n sh =
     map_option (\<lambda>(p, s). (p, upd_kern (\<lambda>k. k\<lparr>ks := s\<rparr>) sh)) (s_kmalloc n (ks (skern sh)))"

definition sh_kfree :: "u32 \<Rightarrow> shell \<Rightarrow> shell option" where
  "sh_kfree p sh = map_option (\<lambda>s. upd_kern (\<lambda>k. k\<lparr>ks := s\<rparr>) sh) (s_kfree p (ks (skern sh)))"

definition sh_store :: "u32 \<Rightarrow> u8 list \<Rightarrow> shell \<Rightarrow> shell" where
  "sh_store p bs sh = upd_kern (\<lambda>k. k\<lparr>ks := set_ram (put_bytes bs p) (ks k)\<rparr>) sh"

text \<open>\<open>fat_read\<close> into a heap buffer at \<open>p\<close>.\<close>

definition read_to :: "u32 \<Rightarrow> u8 list \<Rightarrow> u32 \<Rightarrow> shell \<Rightarrow> u8 list option \<times> shell" where
  "read_to p name mx sh =
     (case in_fat (fat_read name mx) sh of
        (None, sh) \<Rightarrow> (None, sh)
      | (Some d, sh) \<Rightarrow> (Some d, sh_store p d sh))"

definition no_such :: "device \<Rightarrow> string \<Rightarrow> u8 list \<Rightarrow> shell \<Rightarrow> shell" where
  "no_such dev what name sh = say dev [0x0A] C_ERR (err dev name (err dev (lit what) sh))"

definition cmd_cat :: "device \<Rightarrow> u8 list \<Rightarrow> shell \<Rightarrow> shell option" where
  "cmd_cat dev name sh = do {
     (p, sh) \<leftarrow> sh_kmalloc 4096 sh;
     if p = 0 then Some (err dev (ln ''cat: out of heap'') sh)
     else case read_to p name 4096 sh of
       (None, sh) \<Rightarrow> sh_kfree p (no_such dev ''cat: no such file: '' name sh)
     | (Some d, sh) \<Rightarrow>
         if d = [] then sh_kfree p (puts dev (ln ''(empty file)'') sh)
         else let sh = fold (say_char dev) d sh;
                  sh = (if last d \<noteq> 0x0A then say dev [0x0A] 0x0F sh else sh)
              in sh_kfree p sh }"

definition hex_digit :: "u8 \<Rightarrow> u8" where
  "hex_digit v = lit ''0123456789abcdef'' ! unat v"

text \<open>One row of the dump: offset, 16 columns of hex, and the printable characters.\<close>

definition hex_row :: "u8 list \<Rightarrow> nat \<Rightarrow> u8 list option" where
  "hex_row d base =
     map_option (\<lambda>off.
       off @ concat (map (\<lambda>i. if base + i < length d
                              then [hex_digit (drop_bit 4 (d ! (base + i))), hex_digit (d ! (base + i) AND 0xF), 0x20]
                              else [0x20, 0x20, 0x20]) [0 ..< 16])
       @ [0x7C]
       @ map (\<lambda>c. if 32 \<le> c \<and> c < 127 then c else 0x2E) (take 16 (drop base d))
       @ [0x7C, 0x0A]) (ksprintf 80 (lit ''%08x  '') [Word (of_nat base)])"

primrec hex_rows :: "device \<Rightarrow> u8 list \<Rightarrow> nat list \<Rightarrow> shell \<Rightarrow> shell option" where
  "hex_rows dev d [] sh = Some sh"
| "hex_rows dev d (b # bs) sh =
     Option.bind (hex_row d b) (\<lambda>row. if length row < 80 then hex_rows dev d bs (puts dev row sh) else None)"

definition cmd_hexdump :: "device \<Rightarrow> u8 list \<Rightarrow> shell \<Rightarrow> shell option" where
  "cmd_hexdump dev name sh = do {
     (p, sh) \<leftarrow> sh_kmalloc 4096 sh;
     if p = 0 then Some (err dev (ln ''hexdump: out of heap'') sh)
     else case read_to p name 4096 sh of
       (None, sh) \<Rightarrow> sh_kfree p (no_such dev ''hexdump: no such file: '' name sh)
     | (Some d, sh) \<Rightarrow> do {
         sh \<leftarrow> hex_rows dev d (map (\<lambda>i. 16 * i) [0 ..< (length d + 15) div 16]) sh;
         sh \<leftarrow> fmt_to (puts dev) 80 (ln ''%u byte(s)'') [Word (of_nat (length d))] sh;
         sh_kfree p sh } }"

text \<open>The file name of \<open>run\<close>: at most 15 characters of the argument, and \<open>.elf\<close> when it has no dot.\<close>

definition run_name :: "u8 list \<Rightarrow> u8 list option" where
  "run_name name =
     (let f = take 15 name;
          f' = (if 0x2E \<in> set f then f else f @ lit ''.elf'')
      in if length f' < FAT_NAME_LEN then Some f' else None)"

definition sh_spawn :: "u8 list \<Rightarrow> u32 \<Rightarrow> u32 \<Rightarrow> shell \<Rightarrow> (u32 \<times> shell) option" where
  "sh_spawn name img sz sh =
     map_option (\<lambda>(p, s). (p, upd_kern (\<lambda>k. k\<lparr>ks := s\<rparr>) sh)) (user_spawn name img sz (ks (skern sh)))"

definition cmd_run :: "device \<Rightarrow> u8 list \<Rightarrow> shell \<Rightarrow> shell option" where
  "cmd_run dev name sh = do {
     fname \<leftarrow> run_name name;
     (img, sh) \<leftarrow> sh_kmalloc 16384 sh;
     if img = 0 then Some (err dev (ln ''run: out of heap'') sh)
     else case read_to img fname 16384 sh of
       (None, sh) \<Rightarrow> sh_kfree img (no_such dev ''run: cannot load '' fname sh)
     | (Some d, sh) \<Rightarrow> do {
         (child, sh) \<leftarrow> sh_spawn fname img (of_nat (length d)) sh;
         sh \<leftarrow> (if child \<noteq> 0
               then fmt_to (ok dev) 80 (ln ''run: %s started as pid %u'') [Str (Some fname), Word child] sh
               else Some (err dev (ln ''run: not a valid ELF image'') sh));
         sh_kfree img sh } }"

definition cmd_stat :: "device \<Rightarrow> u8 list \<Rightarrow> shell \<Rightarrow> shell option" where
  "cmd_stat dev name sh =
     (case in_fat (fat_stat name) sh of
        (None, sh) \<Rightarrow> Some (no_such dev ''stat: no such file: '' name sh)
      | (Some (sz, cluster, attr), sh) \<Rightarrow> do {
          sh \<leftarrow> fmt_to (puts dev) 96 (ln ''name    : %s'') [Str (Some name)] sh;
          sh \<leftarrow> fmt_to (puts dev) 96 (ln ''size    : %u bytes'') [Word sz] sh;
          sh \<leftarrow> fmt_to (puts dev) 96 (ln ''cluster : %u'') [Word cluster] sh;
          fmt_to (puts dev) 96 (ln ''attr    : 0x%x%s'')
            [Word (ucast attr), Str (Some (if attr AND 0x10 \<noteq> 0 then lit '' (directory)'' else []))] sh })"

definition cmd_df :: "device \<Rightarrow> shell \<Rightarrow> shell option" where
  "cmd_df dev sh =
     (if \<not> fat_mounted (kfat (skern sh)) then Some (err dev (ln ''df: no FAT disk mounted'') sh)
      else case in_fat fat_free_bytes sh of
             (n, sh) \<Rightarrow> fmt_to (puts dev) 80 (ln ''data disk: %u bytes free'') [Word n] sh)"

definition usage :: "bool \<Rightarrow> u8 list" where
  "usage app = (if app then ln ''append: usage: append <file> <text>'' else ln ''write: usage: write <file> <text>'')"

text \<open>What the file is to hold: its old contents, if it is appended to, and the text.\<close>

definition old_contents :: "device \<Rightarrow> bool \<Rightarrow> u8 list \<Rightarrow> nat \<Rightarrow> shell \<Rightarrow> u8 list option \<times> shell" where
  "old_contents dev app name tlen sh =
     (if \<not> app then (Some [], sh)
      else case in_fat (fat_stat name) sh of
        (None, sh) \<Rightarrow> (Some [], sh)
      | (Some (sz, _, _), sh) \<Rightarrow>
          if 4096 - of_nat tlen < sz then (None, err dev (ln ''append: file too large'') sh)
          else case in_fat (fat_read name (4096 - of_nat tlen)) sh of
                 (None, sh) \<Rightarrow> (None, err dev (ln ''append: read failed'') sh)
               | (Some d, sh) \<Rightarrow> (Some d, sh))"

definition cmd_write :: "device \<Rightarrow> u8 list \<Rightarrow> bool \<Rightarrow> shell \<Rightarrow> shell option" where
  "cmd_write dev args app sh =
     (let args = dropWhile (\<lambda>c. c = 0x20) args;
          name = takeWhile (\<lambda>c. c \<noteq> 0x20) args
      in case dropWhile (\<lambda>c. c \<noteq> 0x20) args of
           [] \<Rightarrow> Some (err dev (usage app) sh)
         | _ # rest \<Rightarrow>
             let text = dropWhile (\<lambda>c. c = 0x20) rest
             in case old_contents dev app name (length text) sh of
                  (None, sh) \<Rightarrow> Some sh
                | (Some d, sh) \<Rightarrow>
                    case in_fat (fat_write name (d @ text)) sh of
                      (False, sh) \<Rightarrow> Some (err dev (ln ''write: failed (disk full or directory full)'') sh)
                    | (True, sh) \<Rightarrow>
                        fmt_to (ok dev) 96 (ln ''%s: %s (%u bytes)'')
                          [Str (Some (if app then lit ''appended'' else lit ''wrote'')), Str (Some name),
                           Word (of_nat (length (d @ text)))] sh)"

definition cmd_rm :: "device \<Rightarrow> u8 list \<Rightarrow> shell \<Rightarrow> shell" where
  "cmd_rm dev name sh =
     (case in_fat (fat_delete name) sh of
        (False, sh) \<Rightarrow> no_such dev ''rm: no such file: '' name sh
      | (True, sh) \<Rightarrow> say dev [0x0A] C_OK (ok dev name (ok dev (lit ''removed: '') sh)))"

subsection \<open>Tab completion\<close>

definition builtins :: "u8 list list" where
  "builtins = map lit [''help'', ''clear'', ''meminfo'', ''tasks'', ''ps'', ''ls'', ''cat'', ''hexdump'',
     ''run'', ''echo'', ''uptime'', ''gui'', ''about'', ''reboot'', ''stat'', ''df'', ''write'', ''append'', ''rm'']"

definition upper :: "u8 \<Rightarrow> u8" where
  "upper b = (if 0x61 \<le> b \<and> b \<le> 0x7A then b - 32 else b)"

definition lower :: "u8 \<Rightarrow> u8" where
  "lower c = (if 0x41 \<le> c \<and> c \<le> 0x5A then c + 32 else c)"

text \<open>The token under the cursor, and whether it is the first of the line.\<close>

definition last_token :: "u8 list \<Rightarrow> u8 list" where
  "last_token cur = rev (takeWhile (\<lambda>c. c \<noteq> 0x20) (rev cur))"

definition builtin_matches :: "u8 list \<Rightarrow> u8 list list" where
  "builtin_matches tok = filter (\<lambda>b. take (length tok) b = tok) builtins"

definition file_matches :: "u8 list \<Rightarrow> u8 list list \<Rightarrow> u8 list list" where
  "file_matches tok names =
     filter (\<lambda>nm. length tok \<le> length nm \<and> take (length tok) nm = map upper tok) names"

text \<open>The remainder of the match, in lower case, while the line has room.\<close>

primrec type_rest :: "device \<Rightarrow> u8 list \<Rightarrow> shell \<Rightarrow> shell" where
  "type_rest dev [] sh = sh"
| "type_rest dev (c # cs) sh =
     (if line_len sh < LINE_MAX - 1
      then type_rest dev cs (say_char dev (lower c)
             (sh\<lparr>sline := (sline sh)[line_len sh := lower c], line_len := line_len sh + 1\<rparr>))
      else sh)"

definition complete :: "device \<Rightarrow> shell \<Rightarrow> shell" where
  "complete dev sh =
     (let cur = take (line_len sh) (sline sh);
          tok = last_token cur;
          start = length cur - length tok
      in if tok = [] then sh
         else let (ms, sh) =
                (if start = 0 then (builtin_matches tok, sh)
                 else if fat_mounted (kfat (skern sh))
                 then (case in_fat (fat_list FAT_MAX_FILES) sh of
                         (None, sh) \<Rightarrow> ([], sh)
                       | (Some es, sh) \<Rightarrow> (file_matches tok (map fst es), sh))
                 else ([], sh))
              in case ms of
                   [] \<Rightarrow> sh
                 | [m] \<Rightarrow> type_rest dev (drop (length tok) m) sh
                 | _ \<Rightarrow> say dev ([0x0A] @ ln ''(multiple matches)'') C_DIM sh)"

subsection \<open>Command dispatch\<close>

text \<open>Re-joining the arguments with single spaces, into 126 characters at most.\<close>

definition add_tail :: "u8 \<Rightarrow> u8 list \<Rightarrow> u8 list" where
  "add_tail c t = (if length t < LINE_MAX - 2 then t @ [c] else t)"

fun join_tail :: "u8 list list \<Rightarrow> u8 list \<Rightarrow> u8 list" where
  "join_tail [] t = t"
| "join_tail [a] t = fold add_tail a t"
| "join_tail (a # as) t = join_tail as (add_tail 0x20 (fold add_tail a t))"

text \<open>What a command does to the machine: go on, or reset and halt.\<close>

definition with_arg :: "device \<Rightarrow> u8 list list \<Rightarrow> string \<Rightarrow> (u8 list \<Rightarrow> shell \<Rightarrow> shell option) \<Rightarrow> shell \<Rightarrow> shell option" where
  "with_arg dev argv msg f sh = (if length argv < 2 then Some (err dev (ln msg) sh) else f (argv ! 1) sh)"

definition run_gui :: "device \<Rightarrow> gui_irq list \<Rightarrow> shell \<Rightarrow> shell option" where
  "run_gui dev es sh =
     map_option (\<lambda>(_, d). upd_kern (\<lambda>k. k\<lparr>scr := vga_clear 0x0F (scr k)\<rparr>) (sh\<lparr>sdesk := d\<rparr>))
       (gui_enter dev es (sdesk sh))"

definition unknown :: "device \<Rightarrow> u8 list \<Rightarrow> shell \<Rightarrow> shell" where
  "unknown dev c sh = err dev (ln ''  (try `help`)'') (err dev c (err dev (lit ''unknown command: '') sh))"

definition command :: "device \<Rightarrow> gui_irq list \<Rightarrow> u8 list list \<Rightarrow> shell \<Rightarrow> shell option" where
  "command dev es argv sh =
     (let c = argv ! 0
      in if c = lit ''help'' then Some (cmd_help dev sh)
         else if c = lit ''clear'' then Some (cmd_clear sh)
         else if c = lit ''meminfo'' then cmd_meminfo dev sh
         else if c = lit ''tasks'' then cmd_tasks dev sh
         else if c = lit ''ps'' then cmd_ps dev sh
         else if c = lit ''uptime'' then cmd_uptime dev sh
         else if c = lit ''gui'' then run_gui dev es sh
         else if c = lit ''about'' then Some (cmd_about dev sh)
         else if c = lit ''ls'' then cmd_ls dev sh
         else if c = lit ''cat'' then with_arg dev argv ''cat: missing file operand (try `ls`)'' (cmd_cat dev) sh
         else if c = lit ''hexdump'' then with_arg dev argv ''hexdump: missing file operand'' (cmd_hexdump dev) sh
         else if c = lit ''stat'' then with_arg dev argv ''stat: missing file operand'' (cmd_stat dev) sh
         else if c = lit ''df'' then cmd_df dev sh
         else if c = lit ''write'' \<or> c = lit ''append'' then
           (if length argv < 3 then Some (err dev (usage (c \<noteq> lit ''write'')) sh)
            else cmd_write dev (join_tail (tl argv) []) (c = lit ''append'') sh)
         else if c = lit ''rm'' then with_arg dev argv ''rm: missing file operand'' (\<lambda>a sh. Some (cmd_rm dev a sh)) sh
         else if c = lit ''run'' then with_arg dev argv ''run: missing program name'' (cmd_run dev) sh
         else if c = lit ''echo'' then Some (cmd_echo dev (join_tail (tl argv) []) sh)
         else Some (unknown dev c sh))"

text \<open>The Boolean is true once the machine has been reset.\<close>

definition execute :: "device \<Rightarrow> gui_irq list \<Rightarrow> shell \<Rightarrow> (bool \<times> shell) option" where
  "execute dev es sh =
     (let (ps, l) = split (sline sh);
          argv = map (\<lambda>p. cstring (drop p l)) ps;
          sh = sh\<lparr>sline := l\<rparr>
      in if argv = [] then Some (False, sh)
         else if argv ! 0 = lit ''reboot''
         then Some (True, upd_kern (\<lambda>k. k\<lparr>scr := on_ports (outb 0x64 0xFE) (scr k)\<rparr>) (err dev (ln ''rebooting...'') sh))
         else map_option (Pair False) (command dev es argv sh))"

subsection \<open>The main loop\<close>

definition on_enter :: "device \<Rightarrow> gui_irq list \<Rightarrow> shell \<Rightarrow> (bool \<times> shell) option" where
  "on_enter dev es sh =
     (let sh = say dev [0x0A] 0x0F sh;
          sh = sh\<lparr>sline := (sline sh)[line_len sh := 0]\<rparr>;
          sh = remember (cstring (sline sh)) sh
      in case execute dev es sh of
           None \<Rightarrow> None
         | Some (True, sh) \<Rightarrow> Some (True, sh)
         | Some (False, sh) \<Rightarrow> Some (False, prompt dev (sh\<lparr>line_len := 0, hist_pos := -1\<rparr>)))"

definition recall :: "u8 list \<Rightarrow> shell \<Rightarrow> shell" where
  "recall h sh = sh\<lparr>sline := copy_line h (sline sh)\<rparr>"

definition measure_line :: "shell \<Rightarrow> shell" where
  "measure_line sh = sh\<lparr>line_len := length (cstring (sline sh))\<rparr>"

definition on_up :: "device \<Rightarrow> shell \<Rightarrow> shell" where
  "on_up dev sh =
     (let want = (if hist_pos sh < 0 then 0 else word_of_int (hist_pos sh + 1))
      in case hist_get want sh of
           None \<Rightarrow> sh
         | Some h \<Rightarrow> redraw_line dev (measure_line (recall h (sh\<lparr>hist_pos := uint want\<rparr>))))"

definition on_down :: "device \<Rightarrow> shell \<Rightarrow> shell" where
  "on_down dev sh =
     (let sh = (if 0 < hist_pos sh
                then let sh = sh\<lparr>hist_pos := hist_pos sh - 1\<rparr>
                     in case hist_get (word_of_int (hist_pos sh)) sh of None \<Rightarrow> sh | Some h \<Rightarrow> recall h sh
                else sh\<lparr>hist_pos := -1, sline := (sline sh)[0 := 0]\<rparr>)
      in redraw_line dev (measure_line sh))"

text \<open>\<open>c\<close> is C's \<open>int\<close>: a character, or a code of the keyboard driver from \<open>0x100\<close> on.\<close>

definition shell_key :: "device \<Rightarrow> gui_irq list \<Rightarrow> int \<Rightarrow> shell \<Rightarrow> (bool \<times> shell) option" where
  "shell_key dev es c sh =
     (let c = (if c = 0x0D then 0x0A else c);
          c = (if c = 0x7F then 8 else c)
      in if c = 0x0A then on_enter dev es sh
         else if c = 8 then
           Some (False, (if 0 < line_len sh
             then say_char dev 8 (say_char dev 0x20 (say_char dev 8 (sh\<lparr>line_len := line_len sh - 1\<rparr>))) else sh))
         else if c = 9 then Some (False, complete dev sh)
         else if c = 0x141 then Some (False, on_up dev sh)
         else if c = 0x142 then Some (False, on_down dev sh)
         else if 0x20 \<le> c \<and> c < 0x100 \<and> line_len sh < LINE_MAX - 1 then
           Some (False, say_char dev (word_of_int c)
             (sh\<lparr>sline := (sline sh)[line_len sh := word_of_int c], line_len := line_len sh + 1\<rparr>))
         else Some (False, sh))"

text \<open>One turn of the loop: the keyboard first, then the serial line.\<close>

definition poll_keyboard :: "shell \<Rightarrow> u16 \<times> shell" where
  "poll_keyboard sh =
     (case keyboard_getc (dkbd (sdesk sh)) of (c, kb) \<Rightarrow> (c, sh\<lparr>sdesk := (sdesk sh)\<lparr>dkbd := kb\<rparr>\<rparr>))"

definition poll_serial :: "device \<Rightarrow> shell \<Rightarrow> int \<times> shell" where
  "poll_serial dev sh =
     (case run_state (serial_getc dev) (ports (scr (skern sh))) of
        (c, h) \<Rightarrow> (c, upd_kern (\<lambda>k. k\<lparr>scr := (scr k)\<lparr>ports := h\<rparr>\<rparr>) sh))"

definition shell_turn :: "device \<Rightarrow> gui_irq list \<Rightarrow> shell \<Rightarrow> (bool \<times> shell) option" where
  "shell_turn dev es sh =
     (let (k, sh) = poll_keyboard sh;
          (c, sh) = (if k = 0 then poll_serial dev sh else (uint k, sh))
      in if c \<le> 0 then Some (False, sh) else shell_key dev es c sh)"

text \<open>Between two turns an interrupt arrives; \<open>es\<close> are those that arrive while a desktop runs.\<close>

primrec shell_loop :: "device \<Rightarrow> (gui_irq \<times> gui_irq list) list \<Rightarrow> shell \<Rightarrow> (bool \<times> shell) option" where
  "shell_loop dev [] sh = Some (False, sh)"
| "shell_loop dev (e # evs) sh =
     (case shell_turn dev (snd e) sh of
        None \<Rightarrow> None
      | Some (True, sh) \<Rightarrow> Some (True, sh)
      | Some (False, sh) \<Rightarrow> shell_loop dev evs (sh\<lparr>sdesk := gui_interrupt (fst e) (sdesk sh)\<rparr>))"

definition shell_run :: "device \<Rightarrow> (gui_irq \<times> gui_irq list) list \<Rightarrow> shell \<Rightarrow> (bool \<times> shell) option" where
  "shell_run dev evs sh = shell_loop dev evs (prompt dev sh)"

subsection \<open>Words of a line\<close>

lemma words_decreases:
  assumes "dropWhile is_blank s = c # cs"
  shows "length (dropWhile (\<lambda>c. \<not> is_blank c) (c # cs)) < length s"
proof -
  have "\<not> is_blank c"
    using assms by (metis hd_dropWhile list.distinct(1) list.sel(1))
  then have "length (dropWhile (\<lambda>c. \<not> is_blank c) (c # cs)) \<le> length cs"
    by (simp add: length_dropWhile_le)
  moreover have "length (c # cs) \<le> length s"
    using length_dropWhile_le [of is_blank s] assms by simp
  ultimately show ?thesis by simp
qed

text \<open>The specification of \<open>split\<close>: the maximal runs of characters other than blanks.\<close>

function words :: "u8 list \<Rightarrow> u8 list list" where
  "words s = (case dropWhile is_blank s of
     [] \<Rightarrow> []
   | c # cs \<Rightarrow> takeWhile (\<lambda>c. \<not> is_blank c) (c # cs) # words (dropWhile (\<lambda>c. \<not> is_blank c) (c # cs)))"
  by pat_completeness auto

termination
  by (relation "measure length") (use words_decreases in auto)

declare words.simps [simp del]

lemma is_blank_nz: "is_blank c \<Longrightarrow> c \<noteq> 0"
  by (auto simp: is_blank_def)

lemma cstring_at: "cstring (drop p l) = (if chr l p = 0 then [] else chr l p # cstring (drop (p + 1) l))"
proof (cases "p < length l")
  case True
  then have "drop p l = l ! p # drop (p + 1) l"
    by (simp add: Cons_nth_drop_Suc)
  with True show ?thesis by (simp add: cstring_def chr_def)
qed (simp add: cstring_def chr_def)

lemma skip_blank_cstring: "cstring (drop (skip_blank l p) l) = dropWhile is_blank (cstring (drop p l))"
proof (induction l p rule: skip_blank.induct)
  case (1 l p)
  show ?case
  proof (cases "is_blank (chr l p)")
    case True
    with 1 show ?thesis
      by (subst skip_blank.simps, subst (2) cstring_at) (simp add: is_blank_nz)
  next
    case False
    then show ?thesis
      by (subst skip_blank.simps, subst (2) cstring_at, subst cstring_at) simp
  qed
qed

lemma skip_word_cstring: "cstring (drop (skip_word l p) l) = dropWhile (\<lambda>c. \<not> is_blank c) (cstring (drop p l))"
proof (induction l p rule: skip_word.induct)
  case (1 l p)
  show ?case
  proof (cases "chr l p \<noteq> 0 \<and> \<not> is_blank (chr l p)")
    case True
    with 1 show ?thesis
      by (subst skip_word.simps, subst (2) cstring_at) simp
  next
    case False
    then have "skip_word l p = p" by (subst skip_word.simps) auto
    moreover have "dropWhile (\<lambda>c. \<not> is_blank c) (cstring (drop p l)) = cstring (drop p l)"
      using False by (subst (1 2) cstring_at) auto
    ultimately show ?thesis by simp
  qed
qed

lemma skip_word_cut:
  "skip_word l p < length l \<Longrightarrow>
   cstring (drop p (l[skip_word l p := 0])) = takeWhile (\<lambda>c. \<not> is_blank c) (cstring (drop p l))"
proof (induction l p rule: skip_word.induct)
  case (1 l p)
  show ?case
  proof (cases "chr l p \<noteq> 0 \<and> \<not> is_blank (chr l p)")
    case True
    have q: "skip_word l p = skip_word l (p + 1)" "p + 1 \<le> skip_word l (p + 1)"
      using True skip_le by (simp_all add: skip_word.simps [of l p])
    then have "chr (l[skip_word l p := 0]) p = chr l p" by (simp add: chr_def)
    then show ?thesis
      using 1 True q by (subst (1 2) cstring_at) simp
  next
    case False
    then have q: "skip_word l p = p" by (subst skip_word.simps) auto
    have "cstring (drop p (l[p := 0])) = []"
      using 1(2) q by (subst cstring_at) (simp add: chr_def)
    moreover have "takeWhile (\<lambda>c. \<not> is_blank c) (cstring (drop p l)) = []"
      using False by (subst cstring_at) auto
    ultimately show ?thesis by (simp add: q)
  qed
qed

lemma skip_word_end:
  "chr l (skip_word l p) = 0 \<Longrightarrow> takeWhile (\<lambda>c. \<not> is_blank c) (cstring (drop p l)) = cstring (drop p l)"
proof (induction l p rule: skip_word.induct)
  case (1 l p)
  show ?case
  proof (cases "chr l p \<noteq> 0 \<and> \<not> is_blank (chr l p)")
    case True
    then have "skip_word l p = skip_word l (p + 1)" by (simp add: skip_word.simps [of l p])
    with 1 True show ?thesis by (subst (1 2) cstring_at) simp
  next
    case False
    then have "chr l p = 0" using 1(2) by (auto simp: skip_word.simps [of l p])
    then show ?thesis by (subst (1 2) cstring_at) simp
  qed
qed

lemma skip_word_stop: "chr l (skip_word l p) \<noteq> 0 \<Longrightarrow> is_blank (chr l (skip_word l p))"
  by (induction l p rule: skip_word.induct) (metis skip_word.simps)

lemma split_from_frame:
  "split_from mx n p l = (ps, l') \<Longrightarrow> length l' = length l \<and> (\<forall>i<p. l' ! i = l ! i) \<and> (\<forall>q\<in>set ps. p \<le> q)"
proof (induction mx n p l arbitrary: ps l' rule: split_from.induct)
  case (1 mx n p l)
  define p' where "p' = skip_blank l p"
  define q where "q = skip_word l p'"
  have le: "p \<le> p'" "p' \<le> q" using skip_le by (simp_all add: p'_def q_def)
  show ?case
  proof (cases "chr l p = 0 \<or> chr l p' = 0 \<or> mx - 1 \<le> n \<or> chr l q = 0")
    case True
    then show ?thesis
      using 1(2) le by (auto simp: split_from.simps [of mx n p l] p'_def [symmetric] q_def [symmetric] Let_def split: if_splits)
  next
    case False
    obtain ps1 l1 where r: "split_from mx (n + 1) (q + 1) (l[q := 0]) = (ps1, l1)" by fastforce
    then have "ps = p' # ps1" "l' = l1"
      using 1(2) False by (auto simp: split_from.simps [of mx n p l] p'_def [symmetric] q_def [symmetric] Let_def)
    with 1(1) [OF _ p'_def _ _ q_def _ r] False le show ?thesis
      by auto
  qed
qed

lemma cstring_nz: "0 \<notin> set (cstring s)"
  by (auto simp: cstring_def dest: set_takeWhileD)

lemma words_Nil: "dropWhile is_blank s = [] \<Longrightarrow> words s = []"
  by (subst words.simps) (simp del: dropWhile_eq_Nil_conv)

lemma words_Cons:
  "dropWhile is_blank s \<noteq> [] \<Longrightarrow> words s =
   takeWhile (\<lambda>c. \<not> is_blank c) (dropWhile is_blank s) # words (dropWhile (\<lambda>c. \<not> is_blank c) (dropWhile is_blank s))"
  by (subst words.simps) (cases "dropWhile is_blank s", simp_all)

lemma words_skip: "is_blank c \<Longrightarrow> words (c # cs) = words cs"
  by (subst (1 2) words.simps) simp

lemma split_from_words:
  "split_from mx n p l = (ps, l') \<Longrightarrow>
   map (\<lambda>p. cstring (drop p l')) ps = take (mx - 1 - n) (words (cstring (drop p l)))"
proof (induction mx n p l arbitrary: ps l' rule: split_from.induct)
  case (1 mx n p l)
  define p' where "p' = skip_blank l p"
  define q where "q = skip_word l p'"
  define s where "s = cstring (drop p l)"
  have le: "p \<le> p'" "p' \<le> q" using skip_le by (simp_all add: p'_def q_def)
  have s': "cstring (drop p' l) = dropWhile is_blank s"
    by (simp add: p'_def skip_blank_cstring s_def)
  have e: "chr l p' = 0 \<longleftrightarrow> dropWhile is_blank s = []"
    using s' by (subst (asm) cstring_at) (auto split: if_splits simp del: dropWhile_eq_Nil_conv)
  show ?case
  proof (cases "chr l p = 0 \<or> chr l p' = 0 \<or> mx - 1 \<le> n")
    case True
    then have "ps = []"
      using 1(2) by (auto simp: split_from.simps [of mx n p l] p'_def [symmetric] Let_def split: if_splits)
    moreover have "chr l p = 0 \<Longrightarrow> s = []" by (simp add: s_def cstring_at [of p l])
    ultimately show ?thesis
      using True e by (auto simp: s_def [symmetric] words_Nil)
  next
    case False
    then have w: "words s = takeWhile (\<lambda>c. \<not> is_blank c) (cstring (drop p' l)) # words (cstring (drop q l))"
      using e by (simp add: words_Cons s' skip_word_cstring q_def)
    from False obtain r where r: "mx - 1 - n = Suc r" by (metis Suc_diff_Suc not_le)
    then have r': "mx - Suc (Suc n) = r" by simp
    show ?thesis
    proof (cases "chr l q = 0")
      case True
      then have "ps = [p']" "l' = l"
        using 1(2) False by (auto simp: split_from.simps [of mx n p l] p'_def [symmetric] q_def [symmetric] Let_def split: if_splits)
      moreover have "words (cstring (drop q l)) = []"
        using True by (simp add: cstring_at [of q l] words_Nil)
      moreover have "takeWhile (\<lambda>c. \<not> is_blank c) (cstring (drop p' l)) = cstring (drop p' l)"
        using skip_word_end True by (simp add: q_def del: takeWhile_eq_all_conv)
      ultimately show ?thesis
        using w r by (simp add: s_def [symmetric] del: takeWhile_eq_all_conv)
    next
      case q: False
      then have ql: "q < length l" by (auto simp: chr_def split: if_splits)
      obtain ps1 where ps: "ps = p' # ps1" and sp: "split_from mx (n + 1) (q + 1) (l[q := 0]) = (ps1, l')"
        using 1(2) False q
        by (auto simp: split_from.simps [of mx n p l] p'_def [symmetric] q_def [symmetric] Let_def split: prod.splits)
      have IH: "map (\<lambda>p. cstring (drop p l')) ps1 = take (mx - 1 - (n + 1)) (words (cstring (drop (q + 1) (l[q := 0]))))"
        by (rule 1(1) [OF _ p'_def _ _ q_def q sp]) (use False in auto)
      have fr: "length l' = length l" "\<forall>i<q + 1. l' ! i = (l[q := 0]) ! i"
        using split_from_frame [OF sp] by auto
      have tk: "take (q + 1) l' = take (q + 1) (l[q := 0])"
        using fr ql by (intro nth_equalityI) auto
      have cut: "cstring (drop p' m) = cstring (drop p' (take (q + 1) m))"
        if "length m = length l" "m ! q = 0" for m :: "u8 list"
      proof -
        have "drop p' m = drop p' (take (q + 1) m) @ drop (q + 1) m"
          using le that ql by (metis append_take_drop_id drop_append diff_is_0_eq' drop0 le_SucI length_take min.absorb2 Suc_eq_plus1 Suc_leI)
        moreover have "0 \<in> set (drop p' (take (q + 1) m))"
        proof -
          have "drop p' (take (q + 1) m) ! (q - p') = 0" "q - p' < length (drop p' (take (q + 1) m))"
            using le that ql by (auto simp: min_def)
          then show ?thesis by (metis nth_mem)
        qed
        ultimately show ?thesis
          by (simp add: cstring_def)
      qed
      have "cstring (drop p' l') = cstring (drop p' (l[q := 0]))"
        using cut [of l'] cut [of "l[q := 0]"] fr ql tk by simp
      also have "\<dots> = takeWhile (\<lambda>c. \<not> is_blank c) (cstring (drop p' l))"
        unfolding q_def by (rule skip_word_cut) (use ql in \<open>simp add: q_def\<close>)
      finally have hd: "cstring (drop p' l') = takeWhile (\<lambda>c. \<not> is_blank c) (cstring (drop p' l))" .
      have "is_blank (chr l q)"
        using q by (auto simp: q_def skip_word_stop)
      then have "words (cstring (drop q l)) = words (cstring (drop (q + 1) l))"
        using q by (subst cstring_at) (simp add: words_skip)
      moreover have "drop (q + 1) (l[q := 0]) = drop (q + 1) l" by simp
      ultimately show ?thesis
        using w r r' IH hd ps by (simp add: s_def [symmetric])
    qed
  qed
qed


subsection \<open>The history as a log\<close>

text \<open>
  The specification of the history: all commands entered, the latest first, without empty
  lines and immediate repetitions.  The ring of eight slots shows its first eight.
\<close>

definition log_add :: "u8 list \<Rightarrow> u8 list list \<Rightarrow> u8 list list" where
  "log_add cmd log = (if cmd = [] \<or> (log \<noteq> [] \<and> hd log = cmd) then log else cmd # log)"

definition hist_shows :: "shell \<Rightarrow> u8 list list \<Rightarrow> bool" where
  "hist_shows sh log \<longleftrightarrow> length (hist sh) = 8 \<and> (\<forall>i<8. length (hist sh ! i) = 128) \<and>
     hist_count sh = of_nat (length log) \<and>
     (\<forall>b. b < 8 \<longrightarrow> b < length log \<longrightarrow> cstring (hist sh ! ((length log - 1 - b) mod 8)) = log ! b)"

definition line_text :: "u8 list \<Rightarrow> bool" where
  "line_text cmd \<longleftrightarrow> 0 \<notin> set cmd \<and> length cmd \<le> 127"

lemma copy_line_length: "length old = 128 \<Longrightarrow> length (copy_line s old) = 128"
  by (simp add: copy_line_def Let_def length_strncpy_bytes)

lemma cstring_prefix: "0 \<notin> set xs \<Longrightarrow> cstring (xs @ 0 # ys) = xs"
  by (induction xs) (auto simp: cstring_def)

lemma update_replicate: "(replicate n x)[i := x] = replicate n x"
  by (induction n arbitrary: i) (auto split: nat.splits)

lemma cstring_copy_line:
  assumes "line_text cmd" and "length old = 128"
  shows "cstring (copy_line cmd old) = cmd"
proof (cases "length cmd = 127")
  case True
  then have "copy_line cmd old = (cmd @ drop 127 old)[127 := 0]"
    by (simp add: copy_line_def strncpy_bytes_def Let_def)
  moreover have "drop 127 old = [old ! 127]"
    using assms(2) by (simp add: Cons_nth_drop_Suc [of 127 old, symmetric])
  ultimately have "copy_line cmd old = cmd @ [0]"
    using True by (simp add: list_update_append)
  then show ?thesis
    using cstring_prefix [of cmd "[]"] assms(1) by (simp add: line_text_def)
next
  case False
  then have l: "length cmd < 127" using assms(1) by (simp add: line_text_def)
  then have "copy_line cmd old = cmd @ replicate (128 - length cmd) 0"
    using assms(2) by (simp add: copy_line_def strncpy_bytes_def Let_def list_update_append update_replicate)
  moreover have "replicate (128 - length cmd) (0 :: u8) = 0 # replicate (127 - length cmd) 0"
    using l by (simp add: Suc_diff_le flip: replicate_Suc)
  ultimately show ?thesis
    using cstring_prefix assms(1) by (simp add: line_text_def)
qed

lemma log_add_length: "length (log_add cmd log) \<le> Suc (length log)"
  by (simp add: log_add_def)

lemma ring_apart:
  fixes a k :: nat
  assumes "0 < k" and "k < 8"
  shows "(a + k) mod 8 \<noteq> a mod 8"
proof
  assume "(a + k) mod 8 = a mod 8"
  then have "8 dvd (a + k) - a"
    by (subst (asm) mod_eq_dvd_iff_nat) simp_all
  with assms show False by (auto dest: nat_dvd_not_less [rotated])
qed

lemma hist_index:
  assumes "n < 4294967296" and "b < n"
  shows "unat (((of_nat n :: u32) - 1 - of_nat b) mod HIST_MAX) = (n - 1 - b) mod 8"
proof -
  have "(of_nat n :: u32) - 1 - of_nat b = of_nat (n - 1 - b)"
    using assms(2) by (simp add: of_nat_diff)
  then show ?thesis
    using assms by (simp only: HIST_MAX_def unat_mod) (simp add: unat_of_nat32 del: of_nat_diff)
qed

lemma remember_shows:
  assumes "hist_shows sh log" and "line_text cmd" and "Suc (length log) < 4294967296"
  shows "hist_shows (remember cmd sh) (log_add cmd log)"
proof -
  define L where "L = length log"
  have cnt: "hist_count sh = of_nat L" and len: "length (hist sh) = 8" "\<forall>i<8. length (hist sh ! i) = 128"
    and ring: "\<forall>b. b < 8 \<longrightarrow> b < L \<longrightarrow> cstring (hist sh ! ((L - 1 - b) mod 8)) = log ! b"
    using assms(1) by (simp_all add: hist_shows_def L_def)
  have pos: "0 < hist_count sh \<longleftrightarrow> log \<noteq> []"
    using assms(3) unfolding cnt by (simp add: word_less_nat_alt unat_of_nat32 L_def)
  have last: "cstring (hist sh ! unat ((hist_count sh - 1) mod HIST_MAX)) = hd log" if "log \<noteq> []"
  proof -
    have "0 < L" using that by (simp add: L_def)
    then show ?thesis
      using hist_index [of L 0] ring assms(3) that unfolding cnt by (simp add: L_def hd_conv_nth)
  qed
  show ?thesis
  proof (cases "log_add cmd log = log")
    case True
    then have "remember cmd sh = sh"
      using pos last by (auto simp: log_add_def remember_def split: if_splits)
    with True assms(1) show ?thesis by simp
  next
    case False
    then have add: "log_add cmd log = cmd # log" "cmd \<noteq> []" "log \<noteq> [] \<longrightarrow> hd log \<noteq> cmd"
      by (auto simp: log_add_def split: if_splits)
    define i where "i = L mod 8"
    have i: "i < 8" by (simp add: i_def)
    have "unat (hist_count sh mod HIST_MAX) = i"
      using assms(3) by (simp add: cnt i_def HIST_MAX_def unat_mod unat_of_nat32 L_def)
    then have r: "remember cmd sh = sh\<lparr>hist := (hist sh)[i := copy_line cmd (hist sh ! i)],
        hist_count := of_nat (Suc L), hist_pos := -1\<rparr>"
      using add pos last by (auto simp: remember_def cnt Let_def)
    have "cstring ((hist sh)[i := copy_line cmd (hist sh ! i)] ! ((L - b) mod 8)) = (cmd # log) ! b"
      if b: "b < 8" "b < Suc L" for b
    proof (cases b)
      case 0
      then show ?thesis
        using len i cstring_copy_line [OF assms(2), of "hist sh ! i"] by (simp add: i_def)
    next
      case (Suc c)
      then have "(L - b + b) mod 8 \<noteq> (L - b) mod 8"
        using b by (intro ring_apart) simp_all
      then have "i \<noteq> (L - b) mod 8"
        using b by (simp add: i_def)
      moreover have "L - 1 - c = L - b" using Suc by simp
      ultimately show ?thesis
        using ring Suc b by simp
    qed
    then show ?thesis
      unfolding r add(1) hist_shows_def
      using len i copy_line_length by (simp add: L_def nth_list_update)
  qed
qed

lemma history_shows:
  "hist_shows sh log \<Longrightarrow> list_all line_text cmds \<Longrightarrow> Suc (length log + length cmds) < 4294967296 \<Longrightarrow>
   hist_shows (fold remember cmds sh) (fold log_add cmds log) \<and> length (fold log_add cmds log) \<le> length log + length cmds"
proof (induction cmds arbitrary: sh log)
  case (Cons c cs)
  have n: "Suc (length (log_add c log) + length cs) < 4294967296"
    using Cons.prems(3) log_add_length [of c log] by auto
  have "hist_shows (remember c sh) (log_add c log)"
    using Cons.prems by (intro remember_shows) auto
  then have "hist_shows (fold remember cs (remember c sh)) (fold log_add cs (log_add c log)) \<and>
      length (fold log_add cs (log_add c log)) \<le> length (log_add c log) + length cs"
    using Cons.prems n by (intro Cons.IH) auto
  then show ?case
    using log_add_length [of c log] by auto
qed simp

lemma hist_get_log:
  assumes "hist_shows sh log" and "length log < 4294967296"
  shows "hist_get back sh = (if back < 8 \<and> unat back < length log then Some (log ! unat back) else None)"
proof (cases "back < 8 \<and> unat back < length log")
  case True
  then have b: "unat back < 8" by (simp add: word_less_nat_alt)
  have nb: "\<not> HIST_MAX \<le> back" using True by (simp add: HIST_MAX_def not_le)
  have "\<not> hist_count sh \<le> back"
    using assms True by (simp add: hist_shows_def not_le word_less_nat_alt unat_of_nat32)
  with True b nb show ?thesis
    using assms hist_index [OF assms(2), of "unat back"]
    by (simp add: hist_get_def hist_shows_def)
next
  case False
  then have "HIST_MAX \<le> back \<or> hist_count sh \<le> back"
    using assms by (auto simp: hist_shows_def HIST_MAX_def not_less word_le_nat_alt unat_of_nat32)
  with False show ?thesis by (auto simp: hist_get_def)
qed

text \<open>C33: The command history is the log of the commands entered: whatever the number of commands typed
  since the shell started, the \<open>back\<close>-th recall shows the \<open>back\<close>-th latest command of the log
  without empty lines and immediate repetitions, for each of the eight latest, and nothing else.
\<close>

theorem history_is_log:
  assumes "length (hist sh) = 8" and "list_all (\<lambda>h. length h = 128) (hist sh)" and "hist_count sh = 0"
    and "list_all line_text cmds" and "Suc (length cmds) < 4294967296"
  shows "hist_get back (fold remember cmds sh) =
    (let log = fold log_add cmds []
     in if back < 8 \<and> unat back < length log then Some (log ! unat back) else None)"
proof -
  have "hist_shows sh []"
    using assms(1-3) by (simp add: hist_shows_def list_all_length)
  then have "hist_shows (fold remember cmds sh) (fold log_add cmds [])" "length (fold log_add cmds []) < 4294967296"
    using history_shows [of sh "[]" cmds] assms(4,5) by auto
  then show ?thesis
    by (simp only: hist_get_log Let_def)
qed

definition blank_shell :: shell where
  "blank_shell = \<lparr>sline = replicate 128 0, line_len = 0, hist = replicate 8 (replicate 128 0), hist_count = 0,
     hist_pos = -1, sdesk = blank_desk\<rparr>"

theorem history_is_log_witness:
  "hist_get 1 (fold remember [lit ''ls'', lit ''ps'', lit ''ps''] blank_shell) = Some (lit ''ls'')"
  using history_is_log [of blank_shell "[lit ''ls'', lit ''ps'', lit ''ps'']" 1]
  by (simp add: blank_shell_def line_text_def lit_def log_add_def list_all_iff)

subsection \<open>The line editor\<close>

lemma sh_store_eq: "sh_store p bs sh = upd_kern (\<lambda>k. k\<lparr>ks := set_ram (put_bytes bs p) (ks (skern sh))\<rparr>) sh"
  by (simp add: sh_store_def upd_kern_def skern_def)

text \<open>
  What the commands leave alone, for any view of the state that sees neither the screen, nor the
  disk, nor the heap: every command keeps the view, but for the one process \<open>run\<close> starts and for
  what happens while the desktop runs.
\<close>

lemmas command_cases = prod.splits option.splits if_splits list.splits bool.splits

locale shell_view =
  fixes view :: "shell \<Rightarrow> 'a"
  assumes screen [simp]: "view (upd_kern (\<lambda>k. k\<lparr>scr := f (scr k)\<rparr>) sh) = view sh"
    and disk [simp]: "view (upd_kern (\<lambda>k. k\<lparr>kfat := x\<rparr>) sh) = view sh"
    and heap: "same_table (ks (skern sh)) s \<Longrightarrow> view (upd_kern (\<lambda>k. k\<lparr>ks := s\<rparr>) sh) = view sh"
begin

lemma view_out [simp]:
  "view (say dev t a sh) = view sh" "view (say_char dev c sh) = view sh"
  "view (puts dev t sh) = view sh" "view (putsn dev t sh) = view sh" "view (err dev t sh) = view sh"
  "view (ok dev t sh) = view sh" "view (prompt dev sh) = view sh" "view (no_such dev w t sh) = view sh"
  by (simp_all add: say_def say_char_def puts_def putsn_def err_def ok_def prompt_def no_such_def)

lemma view_chars [simp]: "view (fold (say_char dev) cs sh) = view sh"
  by (induction cs arbitrary: sh) simp_all

lemma view_repeat [simp]: "view ((say_char dev c ^^ n) sh) = view sh"
  by (induction n) simp_all

lemma view_redraw [simp]: "view (redraw_line dev sh) = view sh"
  by (simp add: redraw_line_def Let_def)

lemma view_fmt:
  "fmt_to (puts dev) cap fmt args sh = Some sh' \<Longrightarrow> view sh' = view sh"
  "fmt_to (ok dev) cap fmt args sh = Some sh' \<Longrightarrow> view sh' = view sh"
  by (auto simp: fmt_to_def)

lemma view_store [simp]: "view (sh_store p bs sh) = view sh"
  by (rule heap [of sh "set_ram (put_bytes bs p) (ks (skern sh))", folded sh_store_eq])
    (simp add: same_table_def set_ram_def)

lemma view_fat: "in_fat f sh = (r, sh') \<Longrightarrow> view sh' = view sh"
  by (auto simp: in_fat_def split: prod.splits)

lemma view_heap:
  "sh_kmalloc n sh = Some (p, sh') \<Longrightarrow> view sh' = view sh"
  "sh_kfree q sh = Some sh' \<Longrightarrow> view sh' = view sh"
  "read_to p name mx sh = (r', sh') \<Longrightarrow> view sh' = view sh"
proof -
  show "sh_kmalloc n sh = Some (p, sh') \<Longrightarrow> view sh' = view sh" "sh_kfree q sh = Some sh' \<Longrightarrow> view sh' = view sh"
    by (auto simp: sh_kmalloc_def sh_kfree_def intro!: heap dest: same_table_ops)
  show "read_to p name mx sh = (r', sh') \<Longrightarrow> view sh' = view sh"
    by (auto simp: read_to_def split: prod.splits option.splits dest!: view_fat)
qed

lemma view_rows:
  "ps_rows dev is sh = Some sh' \<Longrightarrow> view sh' = view sh"
  "ls_rows dev es sh = Some sh' \<Longrightarrow> view sh' = view sh"
  "hex_rows dev d bs sh = Some sh' \<Longrightarrow> view sh' = view sh"
proof -
  show "ps_rows dev is sh = Some sh' \<Longrightarrow> view sh' = view sh"
    by (induction "is" arbitrary: sh) (auto simp: Let_def bind_eq_Some_conv dest!: view_fmt)
  show "ls_rows dev es sh = Some sh' \<Longrightarrow> view sh' = view sh"
    by (induction es arbitrary: sh) (auto simp: bind_eq_Some_conv dest!: view_fmt)
  show "hex_rows dev d bs sh = Some sh' \<Longrightarrow> view sh' = view sh"
    by (induction bs arbitrary: sh) (auto simp: bind_eq_Some_conv split: if_splits)
qed

lemmas view_steps = view_fat view_heap view_fmt view_rows

lemma view_reports:
  "cmd_meminfo dev sh = Some sh' \<Longrightarrow> view sh' = view sh" "cmd_tasks dev sh = Some sh' \<Longrightarrow> view sh' = view sh"
  "cmd_ps dev sh = Some sh' \<Longrightarrow> view sh' = view sh" "cmd_uptime dev sh = Some sh' \<Longrightarrow> view sh' = view sh"
  by (auto simp: cmd_meminfo_def cmd_tasks_def cmd_ps_def cmd_uptime_def Let_def bind_eq_Some_conv dest!: view_fmt view_rows(1))

lemma view_files:
  "cmd_ls dev sh = Some sh' \<Longrightarrow> view sh' = view sh" "cmd_stat dev nm sh = Some sh' \<Longrightarrow> view sh' = view sh"
  "cmd_df dev sh = Some sh' \<Longrightarrow> view sh' = view sh" "view (cmd_rm dev nm sh) = view sh"
proof -
  show "cmd_ls dev sh = Some sh' \<Longrightarrow> view sh' = view sh"
    by (auto simp: cmd_ls_def bind_eq_Some_conv split: prod.splits option.splits if_splits dest!: view_fat view_fmt view_rows(2))
  show "cmd_stat dev nm sh = Some sh' \<Longrightarrow> view sh' = view sh"
    by (auto simp: cmd_stat_def bind_eq_Some_conv split: prod.splits option.splits dest!: view_fat view_fmt)
  show "cmd_df dev sh = Some sh' \<Longrightarrow> view sh' = view sh"
    by (auto simp: cmd_df_def split: prod.splits if_splits dest!: view_fat view_fmt)
  show "view (cmd_rm dev nm sh) = view sh"
    by (auto simp: cmd_rm_def split: prod.splits bool.splits dest!: view_fat)
qed

lemma view_cat:
  assumes "cmd_cat dev nm sh = Some sh'"
  shows "view sh' = view sh"
proof -
  obtain p s1 where k: "sh_kmalloc 4096 sh = Some (p, s1)"
    using assms by (cases "sh_kmalloc 4096 sh") (auto simp: cmd_cat_def)
  obtain x s2 where r: "read_to p nm 4096 s1 = (x, s2)"
    by (cases "read_to p nm 4096 s1")
  have "view s1 = view sh" "view s2 = view s1"
    using view_heap(1) [OF k] view_heap(3) [OF r] by simp_all
  then show ?thesis
    using assms k r
    by (auto simp: cmd_cat_def Let_def bind_eq_Some_conv split: option.splits if_splits dest!: view_heap(2) view_fmt)
qed

lemma view_hexdump:
  assumes "cmd_hexdump dev nm sh = Some sh'"
  shows "view sh' = view sh"
proof -
  obtain p s1 where k: "sh_kmalloc 4096 sh = Some (p, s1)"
    using assms by (cases "sh_kmalloc 4096 sh") (auto simp: cmd_hexdump_def)
  obtain x s2 where r: "read_to p nm 4096 s1 = (x, s2)"
    by (cases "read_to p nm 4096 s1")
  have "view s1 = view sh" "view s2 = view s1"
    using view_heap(1) [OF k] view_heap(3) [OF r] by simp_all
  then show ?thesis
    using assms k r
    by (auto simp: cmd_hexdump_def Let_def bind_eq_Some_conv split: option.splits if_splits
        dest!: view_heap(2) view_rows(3) view_fmt)
qed

lemma view_run:
  assumes "cmd_run dev nm sh = Some sh'"
  shows "view sh' = view sh \<or> (\<exists>sh1 n img sz c sh2. view sh1 = view sh \<and> sh_spawn n img sz sh1 = Some (c, sh2) \<and> view sh' = view sh2)"
proof -
  obtain f where f: "run_name nm = Some f"
    using assms by (cases "run_name nm") (auto simp: cmd_run_def)
  obtain p s1 where k: "sh_kmalloc 16384 sh = Some (p, s1)"
    using assms f by (cases "sh_kmalloc 16384 sh") (auto simp: cmd_run_def)
  obtain x s2 where r: "read_to p f 16384 s1 = (x, s2)"
    by (cases "read_to p f 16384 s1")
  have v: "view s2 = view sh"
    using view_heap(1) [OF k] view_heap(3) [OF r] by simp
  show ?thesis
  proof (cases "p = 0 \<or> x = None")
    case True
    with assms k r f v view_heap(1) [OF k] show ?thesis
      by (auto simp: cmd_run_def split: option.splits if_splits dest!: view_heap(2))
  next
    case False
    with assms k r f obtain d c s3 s4 where d: "x = Some d" "sh_spawn f p (of_nat (length d)) s2 = Some (c, s3)"
      and e: "(if c \<noteq> 0 then fmt_to (ok dev) 80 (ln ''run: %s started as pid %u'') [Str (Some f), Word c] s3
               else Some (err dev (ln ''run: not a valid ELF image'') s3)) = Some s4" "sh_kfree p s4 = Some sh'"
      by (auto simp: cmd_run_def bind_eq_Some_conv)
    have "view s4 = view s3"
      using e(1) by (auto split: if_splits dest: view_fmt)
    with v d(2) view_heap(2) [OF e(2)] show ?thesis by metis
  qed
qed

lemma view_old: "old_contents dev app nm n sh = (r, sh') \<Longrightarrow> view sh' = view sh"
  by (auto simp: old_contents_def split: prod.splits option.splits if_splits dest!: view_fat)

lemma view_write: "cmd_write dev args app sh = Some sh' \<Longrightarrow> view sh' = view sh"
  by (auto simp: cmd_write_def Let_def split: command_cases dest!: view_fat view_fmt view_old)

lemma view_plain [simp]:
  "view (cmd_help dev sh) = view sh" "view (cmd_about dev sh) = view sh" "view (cmd_clear sh) = view sh"
  "view (cmd_echo dev t sh) = view sh" "view (unknown dev t sh) = view sh"
  by (simp_all add: cmd_help_def cmd_about_def cmd_clear_def cmd_echo_def unknown_def)

lemma view_with_arg:
  "with_arg dev argv msg f sh = Some sh' \<Longrightarrow> (\<And>a s s'. f a s = Some s' \<Longrightarrow> view s' = view s) \<Longrightarrow> view sh' = view sh"
  by (auto simp: with_arg_def split: if_splits)

lemma view_command:
  assumes "command dev es argv sh = Some sh'"
  obtains (same) "view sh' = view sh"
  | (spawn) sh1 n img sz c sh2 where "view sh1 = view sh" "sh_spawn n img sz sh1 = Some (c, sh2)" "view sh' = view sh2"
  | (gui) "run_gui dev es sh = Some sh'"
proof -
  consider "argv ! 0 = lit ''gui''" | "argv ! 0 = lit ''run''" | "argv ! 0 \<noteq> lit ''gui''" "argv ! 0 \<noteq> lit ''run''"
    by blast
  then show thesis
  proof cases
    case 1
    with assms have "run_gui dev es sh = Some sh'"
      by (simp add: command_def Let_def lit_def)
    then show thesis by (rule gui)
  next
    case 2
    with assms have "with_arg dev argv ''run: missing program name'' (cmd_run dev) sh = Some sh'"
      by (simp add: command_def Let_def lit_def)
    then have "view sh' = view sh \<or> cmd_run dev (argv ! 1) sh = Some sh'"
      by (auto simp: with_arg_def split: if_splits)
    with view_run same spawn show thesis by metis
  next
    case 3
    with assms have "view sh' = view sh"
      unfolding command_def Let_def
      by (auto simp: view_files split: if_splits intro: view_reports view_files view_write
          elim!: view_with_arg dest: view_cat view_hexdump)
    then show thesis by (rule same)
  qed
qed

end

text \<open>The editor's own state is such a view, and neither a new process nor the desktop touches it.\<close>

definition ed :: "shell \<Rightarrow> u8 list \<times> nat \<times> u8 list list \<times> u32 \<times> int" where
  "ed sh = (sline sh, line_len sh, hist sh, hist_count sh, hist_pos sh)"

lemma ed_upd [simp]: "ed (upd_kern f sh) = ed sh" "ed (sh\<lparr>sdesk := d\<rparr>) = ed sh"
  by (simp_all add: ed_def upd_kern_def)

interpretation ed: shell_view ed
  by unfold_locales simp_all

lemma ed_command: "command dev es argv sh = Some sh' \<Longrightarrow> ed sh' = ed sh"
  by (erule ed.view_command) (auto simp: sh_spawn_def run_gui_def)

definition editor_ok :: "shell \<Rightarrow> bool" where
  "editor_ok sh \<longleftrightarrow> length (sline sh) = 128 \<and> sline sh ! 127 = 0 \<and> line_len sh \<le> 127 \<and>
     length (hist sh) = 8 \<and> list_all (\<lambda>h. length h = 128) (hist sh)"

lemma editor_ok_ed: "ed sh' = ed sh \<Longrightarrow> editor_ok sh' = editor_ok sh"
  by (simp add: ed_def editor_ok_def)

lemma split_from_zeros: "split_from mx n p l = (ps, l') \<Longrightarrow> l' ! i = l ! i \<or> l' ! i = 0"
proof (induction mx n p l arbitrary: ps l' rule: split_from.induct)
  case (1 mx n p l)
  define p' where "p' = skip_blank l p"
  define q where "q = skip_word l p'"
  show ?case
  proof (cases "chr l p = 0 \<or> chr l p' = 0 \<or> mx - 1 \<le> n \<or> chr l q = 0")
    case True
    then show ?thesis
      using 1(2) by (auto simp: split_from.simps [of mx n p l] p'_def [symmetric] q_def [symmetric] Let_def split: if_splits)
  next
    case False
    then obtain ps1 where sp: "split_from mx (n + 1) (q + 1) (l[q := 0]) = (ps1, l')" and q: "q < length l"
      using 1(2)
      by (auto simp: split_from.simps [of mx n p l] p'_def [symmetric] q_def [symmetric] Let_def chr_def
          split: prod.splits if_splits)
    have "l' ! i = (l[q := 0]) ! i \<or> l' ! i = 0"
      by (rule 1(1) [OF _ p'_def _ _ q_def _ sp]) (use False in auto)
    then show ?thesis
      using q by (cases "i = q") auto
  qed
qed

lemma split_ok: "split l = (ps, l') \<Longrightarrow> length l' = length l \<and> (l ! 127 = 0 \<longrightarrow> l' ! 127 = 0)"
  unfolding split_def using split_from_frame split_from_zeros by (metis (no_types, lifting))

lemma editor_ok_line:
  "editor_ok sh \<Longrightarrow> length l = 128 \<Longrightarrow> l ! 127 = 0 \<Longrightarrow> editor_ok (sh\<lparr>sline := l\<rparr>)"
  by (simp add: editor_ok_def)

lemma editor_ok_pos [simp]: "editor_ok (sh\<lparr>hist_pos := h\<rparr>) = editor_ok sh"
  by (simp add: editor_ok_def)

lemma remember_ok: "editor_ok sh \<Longrightarrow> editor_ok (remember cmd sh)"
proof -
  assume e: "editor_ok sh"
  have "unat (hist_count sh mod HIST_MAX) < 8"
    by (simp add: HIST_MAX_def unat_mod)
  with e show ?thesis
    by (auto simp: editor_ok_def remember_def Let_def list_all_length nth_list_update copy_line_length)
qed

lemma execute_ok:
  assumes "editor_ok sh" and "execute dev es sh = Some (b, sh')"
  shows "editor_ok sh'"
proof -
  obtain ps l where s: "split (sline sh) = (ps, l)" by fastforce
  have ok: "editor_ok (sh\<lparr>sline := l\<rparr>)"
    using assms(1) split_ok [OF s] by (intro editor_ok_line) (auto simp: editor_ok_def)
  have "ed sh' = ed (sh\<lparr>sline := l\<rparr>)"
    using assms(2) by (auto simp: execute_def s Let_def split: if_splits dest!: ed_command)
  then show ?thesis
    using editor_ok_ed ok by blast
qed

lemma on_enter_ok:
  assumes "editor_ok sh" and "on_enter dev es sh = Some (b, sh')"
  shows "editor_ok sh'"
proof -
  define s1 where "s1 = say dev [0x0A] 0x0F sh"
  define s2 where "s2 = s1\<lparr>sline := (sline s1)[line_len s1 := 0]\<rparr>"
  define s3 where "s3 = remember (cstring (sline s2)) s2"
  have "editor_ok s1" using assms(1) editor_ok_ed [of s1 sh] by (simp add: s1_def)
  then have "editor_ok s2"
    unfolding s2_def by (intro editor_ok_line) (auto simp: editor_ok_def nth_list_update)
  then have s3: "editor_ok s3" by (simp add: s3_def remember_ok)
  from assms(2) obtain b' s4 where e: "execute dev es s3 = Some (b', s4)"
    and r: "sh' = (if b' then s4 else prompt dev (s4\<lparr>line_len := 0, hist_pos := -1\<rparr>))"
    unfolding on_enter_def Let_def s3_def s2_def s1_def by (auto split: option.splits bool.splits prod.splits)
  have s4: "editor_ok s4" by (rule execute_ok [OF s3 e])
  then have "editor_ok (s4\<lparr>line_len := 0, hist_pos := -1\<rparr>)" by (simp add: editor_ok_def)
  then show ?thesis
    using s4 r editor_ok_ed by (metis ed.view_out(7))
qed

lemma cstring_le: "length l = 128 \<Longrightarrow> l ! 127 = 0 \<Longrightarrow> length (cstring l) \<le> 127"
proof -
  assume l: "length l = 128" "l ! 127 = 0"
  have "cstring l ! 127 \<noteq> 0" if "127 < length (cstring l)"
    using that cstring_nz [of l] by (metis nth_mem)
  moreover have "cstring l ! 127 = l ! 127" if "127 < length (cstring l)"
    using that by (simp add: cstring_def takeWhile_nth)
  ultimately show ?thesis using l(2) by fastforce
qed

lemma measure_ok: "editor_ok sh \<Longrightarrow> editor_ok (measure_line sh)"
  by (simp add: editor_ok_def measure_line_def cstring_le)

lemma recall_ok: "editor_ok sh \<Longrightarrow> editor_ok (recall h sh)"
  by (simp add: editor_ok_def recall_def copy_line_length) (simp add: copy_line_def Let_def length_strncpy_bytes)

lemma redraw_ok: "editor_ok sh \<Longrightarrow> editor_ok (redraw_line dev sh)"
  using editor_ok_ed [of "redraw_line dev sh" sh] by simp

lemma on_up_ok: "editor_ok sh \<Longrightarrow> editor_ok (on_up dev sh)"
  by (auto simp: on_up_def Let_def split: option.splits intro!: redraw_ok measure_ok recall_ok)

lemma on_down_ok: "editor_ok sh \<Longrightarrow> editor_ok (on_down dev sh)"
  unfolding on_down_def Let_def
  by (auto split: option.splits intro!: redraw_ok measure_ok recall_ok) (auto simp: editor_ok_def)

lemma type_char_ok:
  "editor_ok sh \<Longrightarrow> line_len sh < 127 \<Longrightarrow>
   editor_ok (say_char dev c' (sh\<lparr>sline := (sline sh)[line_len sh := c], line_len := line_len sh + 1\<rparr>))"
  using editor_ok_ed [OF ed.view_out(2), of dev c' "sh\<lparr>sline := (sline sh)[line_len sh := c], line_len := line_len sh + 1\<rparr>"]
  by (simp add: editor_ok_def)

lemma type_rest_ok: "editor_ok sh \<Longrightarrow> editor_ok (type_rest dev cs sh)"
proof (induction cs arbitrary: sh)
  case (Cons c cs)
  then show ?case
    using type_char_ok [OF Cons.prems, of dev "lower c" "lower c"] by (auto simp: LINE_MAX_def)
qed simp

lemma complete_ok:
  assumes "editor_ok sh"
  shows "editor_ok (complete dev sh)"
proof -
  define tok where "tok = last_token (take (line_len sh) (sline sh))"
  define found where "found =
     (if length (take (line_len sh) (sline sh)) - length tok = 0 then (builtin_matches tok, sh)
      else if fat_mounted (kfat (skern sh))
      then (case in_fat (fat_list FAT_MAX_FILES) sh of
              (None, sh) \<Rightarrow> ([], sh) | (Some es, sh) \<Rightarrow> (file_matches tok (map fst es), sh))
      else ([], sh))"
  obtain ms s1 where f: "found = (ms, s1)" by fastforce
  then have "ed s1 = ed sh"
    by (auto simp: found_def split: if_splits prod.splits option.splits dest!: ed.view_fat)
  then have ok: "editor_ok s1" using assms editor_ok_ed by blast
  have "complete dev sh = (if tok = [] then sh
      else case ms of [] \<Rightarrow> s1 | [m] \<Rightarrow> type_rest dev (drop (length tok) m) s1
           | _ \<Rightarrow> say dev ([0x0A] @ ln ''(multiple matches)'') C_DIM s1)"
    using f unfolding complete_def Let_def tok_def [symmetric] found_def [symmetric] by simp
  then show ?thesis
    using assms ok type_rest_ok [OF ok] editor_ok_ed [OF ed.view_out(1), of dev _ _ s1]
    by (auto split: list.splits)
qed

lemma shell_key_ok:
  assumes "editor_ok sh" and "shell_key dev es c sh = Some (b, sh')"
  shows "editor_ok sh'"
proof -
  have "editor_ok (sh\<lparr>line_len := line_len sh - 1\<rparr>)"
    using assms(1) by (auto simp: editor_ok_def)
  then have del: "editor_ok (say_char dev 8 (say_char dev 0x20 (say_char dev 8 (sh\<lparr>line_len := line_len sh - 1\<rparr>))))"
    using editor_ok_ed [of "say_char dev 8 (say_char dev 0x20 (say_char dev 8 (sh\<lparr>line_len := line_len sh - 1\<rparr>)))"
      "sh\<lparr>line_len := line_len sh - 1\<rparr>"] by simp
  show ?thesis
    using assms del type_char_ok [OF assms(1), of dev "word_of_int c" "word_of_int c"] complete_ok [OF assms(1), of dev]
      on_up_ok [OF assms(1), of dev] on_down_ok [OF assms(1), of dev]
    unfolding shell_key_def Let_def by (auto split: if_splits simp: LINE_MAX_def intro: on_enter_ok [OF assms(1)])
qed

lemma shell_turn_ok:
  assumes "editor_ok sh" and "shell_turn dev es sh = Some (b, sh')"
  shows "editor_ok sh'"
proof -
  obtain k s1 where k: "poll_keyboard sh = (k, s1)" by fastforce
  have s1: "editor_ok s1"
    using k assms(1) by (auto simp: poll_keyboard_def editor_ok_def split: prod.splits)
  obtain c s2 where c: "(if k = 0 then poll_serial dev s1 else (uint k, s1)) = (c, s2)" by fastforce
  have s2: "editor_ok s2"
    using c s1 by (auto simp: poll_serial_def editor_ok_def upd_kern_def split: if_splits prod.splits)
  have "shell_turn dev es sh = (if c \<le> 0 then Some (False, s2) else shell_key dev es c s2)"
    by (simp add: shell_turn_def k c)
  with assms(2) s2 show ?thesis
    by (auto split: if_splits dest: shell_key_ok)
qed

lemma shell_loop_ok: "editor_ok sh \<Longrightarrow> shell_loop dev evs sh = Some (b, sh') \<Longrightarrow> editor_ok sh'"
proof (induction evs arbitrary: sh)
  case (Cons e evs)
  obtain b1 s1 where t: "shell_turn dev (snd e) sh = Some (b1, s1)"
    using Cons.prems(2) by (cases "shell_turn dev (snd e) sh") auto
  have s1: "editor_ok s1" by (rule shell_turn_ok [OF Cons.prems(1) t])
  then have "editor_ok (s1\<lparr>sdesk := gui_interrupt (fst e) (sdesk s1)\<rparr>)"
    by (simp add: editor_ok_def)
  with Cons t s1 show ?case by (cases b1) auto
qed simp



end
