(* ===== verification/Descriptors.thy ===== *)
theory Descriptors
  imports NovaPrelude
begin

section \<open>Segment and interrupt descriptors (kernel/gdt.c, kernel/idt.c)\<close>

text \<open>
  The packed entries of the two descriptor tables and their initialisation, with the
  processor's reading of an entry as the inverse.  The addresses of the assembly stubs, of the
  tables and of the task state segment are arguments; \<open>lgdt\<close>, \<open>lidt\<close> and the reload of the
  segment registers load what the definitions return.
\<close>

subsection \<open>The global descriptor table\<close>

record gdt_entry =
  limit_low :: u16
  base_low :: u16
  base_mid :: u8
  access :: u8
  granularity :: u8
  base_high :: u8

definition null_gdt :: gdt_entry where
  "null_gdt = \<lparr>limit_low = 0, base_low = 0, base_mid = 0, access = 0, granularity = 0, base_high = 0\<rparr>"

definition gdt_set_entry :: "nat \<Rightarrow> u32 \<Rightarrow> u32 \<Rightarrow> u8 \<Rightarrow> u8 \<Rightarrow> gdt_entry list \<Rightarrow> gdt_entry list" where
  "gdt_set_entry i base limit acc gran gdt =
     gdt[i := \<lparr>limit_low = ucast (limit AND 0xFFFF),
               base_low = ucast (base AND 0xFFFF),
               base_mid = ucast (drop_bit 16 base AND 0xFF),
               access = acc,
               granularity = ucast (drop_bit 16 limit AND 0x0F) OR (gran AND 0xF0),
               base_high = ucast (drop_bit 24 base AND 0xFF)\<rparr>]"

definition gdt_init :: "gdt_entry list \<Rightarrow> gdt_entry list" where
  "gdt_init gdt =
     gdt_set_entry 4 0 0xFFFFF 0xF2 0xCF
    (gdt_set_entry 3 0 0xFFFFF 0xFA 0xCF
    (gdt_set_entry 2 0 0xFFFFF 0x92 0xCF
    (gdt_set_entry 1 0 0xFFFFF 0x9A 0xCF
    (gdt_set_entry 0 0 0 0 0 gdt))))"

text \<open>What \<open>lgdt\<close> loads: limit and base.\<close>

definition gdt_pointer :: "u32 \<Rightarrow> u16 \<times> u32" where
  "gdt_pointer table = (6 * 8 - 1, table)"

definition gdt_set_tss :: "u32 \<Rightarrow> u32 \<Rightarrow> gdt_entry list \<Rightarrow> gdt_entry list" where
  "gdt_set_tss base limit gdt = gdt_set_entry 5 base limit 0x89 0x00 gdt"

text \<open>\<open>user_init\<close>: the task state segment's stack fields, and its descriptor.\<close>

record tss =
  ss0 :: u32
  esp0 :: u32

definition GDT_DATA_SEL :: u32 where "GDT_DATA_SEL = 0x10"
definition GDT_TSS_SEL :: u16 where "GDT_TSS_SEL = 0x28"
definition TSS_BYTES :: u32 where "TSS_BYTES = 104"

definition user_init :: "u32 \<Rightarrow> u32 \<Rightarrow> gdt_entry list \<Rightarrow> tss \<times> gdt_entry list \<times> u16" where
  "user_init tss_addr sys_stack_top gdt =
     (\<lparr>ss0 = GDT_DATA_SEL, esp0 = sys_stack_top\<rparr>, gdt_set_tss tss_addr (TSS_BYTES - 1) gdt, GDT_TSS_SEL)"

subsection \<open>The interrupt descriptor table\<close>

record idt_entry =
  i_base_low :: u16
  i_sel :: u16
  i_zero :: u8
  i_flags :: u8
  i_base_high :: u16

definition null_idt :: idt_entry where
  "null_idt = \<lparr>i_base_low = 0, i_sel = 0, i_zero = 0, i_flags = 0, i_base_high = 0\<rparr>"

definition idt_set_entry :: "u8 \<Rightarrow> u32 \<Rightarrow> u16 \<Rightarrow> u8 \<Rightarrow> idt_entry list \<Rightarrow> idt_entry list" where
  "idt_set_entry n base sel fl idt =
     idt[unat n := \<lparr>i_base_low = ucast (base AND 0xFFFF), i_sel = sel, i_zero = 0, i_flags = fl,
                   i_base_high = ucast (drop_bit 16 base AND 0xFFFF)\<rparr>]"

definition stub_vector :: "nat \<Rightarrow> u8" where
  "stub_vector i = (if i < 48 then of_nat i else 128)"

definition stub_flags :: "nat \<Rightarrow> u8" where
  "stub_flags i = (if stub_vector i = 128 then 0xEE else 0x8E)"

text \<open>\<open>stubs\<close> are the addresses of \<open>isr0\<close> to \<open>isr47\<close> and \<open>isr128\<close>.\<close>

definition idt_init :: "u32 list \<Rightarrow> idt_entry list" where
  "idt_init stubs =
     fold (\<lambda>i. idt_set_entry (stub_vector i) (stubs ! i) 0x08 (stub_flags i)) [0 ..< length stubs]
       (replicate 256 null_idt)"

subsection \<open>What the processor reads\<close>

definition seg_base :: "gdt_entry \<Rightarrow> u32" where
  "seg_base e = ucast (base_low e) OR push_bit 16 (ucast (base_mid e)) OR push_bit 24 (ucast (base_high e))"

definition seg_limit :: "gdt_entry \<Rightarrow> u32" where
  "seg_limit e = ucast (limit_low e) OR push_bit 16 (ucast (granularity e AND 0x0F))"

definition seg_dpl :: "gdt_entry \<Rightarrow> u8" where
  "seg_dpl e = drop_bit 5 (access e) AND 3"

definition gate_base :: "idt_entry \<Rightarrow> u32" where
  "gate_base e = ucast (i_base_low e) OR push_bit 16 (ucast (i_base_high e))"

definition gate_present :: "idt_entry \<Rightarrow> bool" where
  "gate_present e \<longleftrightarrow> i_flags e AND 0x80 \<noteq> 0"

definition gate_dpl :: "idt_entry \<Rightarrow> u8" where
  "gate_dpl e = drop_bit 5 (i_flags e) AND 3"

lemma low_masks:
  "(0xFFFF :: u32) = mask 16" "(0xFF :: u32) = mask 8" "(0x0F :: u32) = mask 4" "(0x0F :: u8) = mask 4"
  "(0xFFFFF :: u32) = mask 20" "(0xF0 :: u8) = NOT (mask 4)"
  by (simp_all add: mask_eq_exp_minus_1)

lemma seg_base_entry:
  assumes "i < length gdt"
  shows "seg_base (gdt_set_entry i base limit acc gran gdt ! i) = base"
proof (rule bit_word_eqI)
  fix n assume n: "n < LENGTH(32)"
  show "bit (seg_base (gdt_set_entry i base limit acc gran gdt ! i)) n = bit base n"
    unfolding seg_base_def gdt_set_entry_def low_masks
    using n assms by (cases "n < 16"; cases "n < 24") (auto simp: bit_simps)
qed

lemma seg_limit_entry:
  assumes "i < length gdt"
  shows "seg_limit (gdt_set_entry i base limit acc gran gdt ! i) = limit AND 0xFFFFF"
proof (rule bit_word_eqI)
  fix n assume n: "n < LENGTH(32)"
  show "bit (seg_limit (gdt_set_entry i base limit acc gran gdt ! i)) n = bit (limit AND 0xFFFFF) n"
    unfolding seg_limit_def gdt_set_entry_def low_masks
    using n assms by (cases "n < 16"; cases "n < 20") (auto simp: bit_simps)
qed

lemma gate_base_entry:
  assumes "unat n < length idt"
  shows "gate_base (idt_set_entry n base sel fl idt ! unat n) = base"
proof (rule bit_word_eqI)
  fix k assume k: "k < LENGTH(32)"
  show "bit (gate_base (idt_set_entry n base sel fl idt ! unat n)) k = bit base k"
    unfolding gate_base_def idt_set_entry_def low_masks
    using k assms by (cases "k < 16") (auto simp: bit_simps)
qed

text \<open>A segment descriptor written by the kernel is read back by the processor as it was meant: the
  scattered base and limit are the ones asked for (the limit cut to its 20 bits), the access
  byte and the granularity flags too, and no other entry of the table changes.
\<close>

lemma segment_descriptor_reads_back:
  assumes "i < length gdt"
  shows "let gdt' = gdt_set_entry i base limit acc gran gdt; e = gdt' ! i
    in seg_base e = base \<and> seg_limit e = limit AND 0xFFFFF \<and> access e = acc \<and>
       granularity e AND 0xF0 = gran AND 0xF0 \<and> length gdt' = length gdt \<and> (\<forall>j. j = i \<or> gdt' ! j = gdt ! j)"
proof -
  have "(ucast (drop_bit 16 limit AND 0x0F) OR (gran AND 0xF0)) AND 0xF0 = (gran AND 0xF0 :: u8)"
    unfolding low_masks by (rule bit_word_eqI) (auto simp: bit_simps)
  moreover have "gdt_set_entry i base limit acc gran gdt ! j = gdt ! j" if "j \<noteq> i" for j
    using that by (simp add: gdt_set_entry_def)
  moreover have "access (gdt_set_entry i base limit acc gran gdt ! i) = acc"
    "granularity (gdt_set_entry i base limit acc gran gdt ! i) = ucast (drop_bit 16 limit AND 0x0F) OR (gran AND 0xF0)"
    "length (gdt_set_entry i base limit acc gran gdt) = length gdt"
    using assms by (simp_all add: gdt_set_entry_def)
  ultimately show ?thesis
    using seg_base_entry [OF assms, of base limit acc gran] seg_limit_entry [OF assms, of base limit acc gran]
    unfolding Let_def by metis
qed

lemma segment_descriptor_reads_back_witness:
  "seg_base (gdt_set_tss 0x12345678 0x67 (replicate 6 null_gdt) ! 5) = 0x12345678"
  using segment_descriptor_reads_back [of 5 "replicate 6 null_gdt" "0x12345678" "0x67" "0x89" 0]
  by (simp add: gdt_set_tss_def Let_def)

lemma stub_index: "i \<le> 48 \<Longrightarrow> unat (stub_vector i) = (if i < 48 then i else 128)"
  by (simp add: stub_vector_def unat_of_nat)

definition stub_entry :: "u32 list \<Rightarrow> nat \<Rightarrow> idt_entry" where
  "stub_entry stubs i = idt_set_entry (stub_vector i) (stubs ! i) 0x08 (stub_flags i) (replicate 256 null_idt) ! unat (stub_vector i)"

lemma idt_fold:
  "n \<le> 49 \<Longrightarrow>
   length (fold (\<lambda>i. idt_set_entry (stub_vector i) (stubs ! i) 0x08 (stub_flags i)) [0 ..< n] (replicate 256 null_idt)) = 256 \<and>
   (\<forall>v<256. fold (\<lambda>i. idt_set_entry (stub_vector i) (stubs ! i) 0x08 (stub_flags i)) [0 ..< n] (replicate 256 null_idt) ! v =
     (if v < 48 \<and> v < n then stub_entry stubs v else if v = 128 \<and> 48 < n then stub_entry stubs 48 else null_idt))"
proof (induction n)
  case (Suc n)
  then have n: "n \<le> 48" by simp
  show ?case
    using Suc n by (auto simp: idt_set_entry_def stub_entry_def stub_index nth_list_update less_Suc_eq)
qed simp

text \<open>C35: After \<open>idt_init\<close> the first 48 vectors and vector 128 lead to their own stubs through present
  gates into the kernel's code segment; every other vector is absent, and a program in ring 3
  can raise none of them but the system call, vector 128.
\<close>

theorem gates_installed:
  assumes "length stubs = 49" and "v < 256"
  shows "let g = idt_init stubs ! v
    in (gate_present g \<longleftrightarrow> v < 48 \<or> v = 128) \<and>
       (if v < 48 then gate_base g = stubs ! v \<and> i_sel g = 0x08 \<and> gate_dpl g = 0
        else if v = 128 then gate_base g = stubs ! 48 \<and> i_sel g = 0x08 \<and> gate_dpl g = 3
        else True)"
proof -
  have e: "idt_init stubs ! v =
     (if v < 48 then stub_entry stubs v else if v = 128 then stub_entry stubs 48 else null_idt)"
    using idt_fold [of 49 stubs] assms by (simp add: idt_init_def)
  have b: "gate_base (stub_entry stubs i) = stubs ! i" if "i \<le> 48" for i
    unfolding stub_entry_def using that by (intro gate_base_entry) (simp add: stub_index)
  have f: "i_sel (stub_entry stubs i) = 0x08 \<and> i_flags (stub_entry stubs i) = stub_flags i" if "i \<le> 48" for i
    using that by (simp add: stub_entry_def idt_set_entry_def stub_index)
  have s: "stub_flags i = (if i < 48 then 0x8E else 0xEE)" if "i \<le> 48" for i
  proof -
    have "stub_vector i = 128 \<longleftrightarrow> \<not> i < 48"
    proof (cases "i < 48")
      case True
      then have "unat (stub_vector i) \<noteq> unat (128 :: u8)" using stub_index [OF that] by simp
      then show ?thesis using True by auto
    qed (simp add: stub_vector_def)
    then show ?thesis by (simp add: stub_flags_def)
  qed
  consider "v < 48" | "v = 128" | "\<not> v < 48" "v \<noteq> 128" by blast
  then show ?thesis
    by cases (use e in \<open>simp_all add: b f s gate_present_def gate_dpl_def null_idt_def\<close>)
qed

theorem gates_installed_witness:
  "gate_dpl (idt_init (replicate 49 0x1000) ! 128) = 3 \<and> \<not> gate_present (idt_init (replicate 49 0x1000) ! 129)"
  using gates_installed [of "replicate 49 0x1000" 128] gates_installed [of "replicate 49 0x1000" 129]
  by (simp add: Let_def)

end
