(* ===== verification/Isr.thy ===== *)
theory Isr
  imports Shell Descriptors
begin

section \<open>Interrupt dispatch (kernel/isr.c, handlers of idt.c and timer.c)\<close>

text \<open>
  \<open>isr_common_handler\<close>, which every interrupt stub calls with the frame it pushed: exceptions,
  hardware interrupts and the system call.  The frame at \<open>r\<close> holds the vector at offset 48, the
  error code at 52 and the interrupted \<open>eip\<close> at 56; \<open>cr2\<close> is the faulting address.  The result
  is how the handler leaves the kernel, in \<open>Inr\<close>, with the new state.
\<close>

datatype irq_handler = Timer_handler | Keyboard_handler | Mouse_handler

record machine =
  mdesk :: desk
  handlers :: "irq_handler option list"
  isr_table :: "irq_handler option list"

definition register_irq_handler :: "nat \<Rightarrow> irq_handler \<Rightarrow> machine \<Rightarrow> machine" where
  "register_irq_handler irq h m = (if irq < 16 then m\<lparr>handlers := (handlers m)[irq := Some h]\<rparr> else m)"

text \<open>The table of exception handlers is kept but never consulted.\<close>

definition register_isr_handler :: "u8 \<Rightarrow> irq_handler \<Rightarrow> machine \<Rightarrow> machine" where
  "register_isr_handler n h m = m\<lparr>isr_table := (isr_table m)[unat n := Some h]\<rparr>"

definition mkern :: "machine \<Rightarrow> kernel" where
  "mkern m = kern (mdesk m)"

definition upd_mkern :: "(kernel \<Rightarrow> kernel) \<Rightarrow> machine \<Rightarrow> machine" where
  "upd_mkern f m = m\<lparr>mdesk := (mdesk m)\<lparr>kern := f (kern (mdesk m))\<rparr>\<rparr>"

definition exceptions :: "string list" where
  "exceptions =
    [''Divide-by-zero'', ''Debug'', ''NMI'', ''Breakpoint'', ''Overflow'',
     ''BOUND range'', ''Invalid opcode'', ''Device not available'',
     ''Double fault'', ''Coprocessor overrun'', ''Invalid TSS'',
     ''Segment not present'', ''Stack-segment fault'', ''General protection'',
     ''Page fault'', ''Reserved'', ''x87 FPU error'', ''Alignment check'',
     ''Machine check'', ''SIMD FP exception'', ''Virtualization'',
     ''Control-protection'', ''Reserved'', ''Reserved'', ''Reserved'',
     ''Reserved'', ''Reserved'', ''Reserved'', ''Reserved'', ''Reserved'',
     ''Reserved'', ''Reserved'']"

text \<open>\<open>kprintf\<close> to the serial port.\<close>

definition m_log :: "device \<Rightarrow> u8 list \<Rightarrow> parg list \<Rightarrow> machine \<Rightarrow> trap + machine" where
  "m_log dev fmt args m =
     (case kprintf dev fmt args of
        None \<Rightarrow> Inl Overrun
      | Some io \<Rightarrow> Inr (upd_mkern (\<lambda>k. k\<lparr>scr := on_ports io (scr k)\<rparr>) m))"

definition m_show :: "u8 list \<Rightarrow> machine \<Rightarrow> machine" where
  "m_show t m = upd_mkern (\<lambda>k. k\<lparr>scr := vga_write t 0x4C (scr k)\<rparr>) m"

text \<open>The report that ends in \<open>cli; for (;;) hlt();\<close>.\<close>

definition panic :: "device \<Rightarrow> nat \<Rightarrow> u32 \<Rightarrow> u32 \<Rightarrow> u32 \<Rightarrow> machine \<Rightarrow> trap + (outcome \<times> machine)" where
  "panic dev n code eip cr2 m =
     (let name = lit (exceptions ! n);
          m = m_show [0x0A] (m_show name (m_show ([0x0A] @ lit ''[PANIC] Exception: '') m))
      in case m_log dev (ln ''PANIC: %s (int %u, err 0x%x, eip 0x%x)'') [Str (Some name), Word (of_nat n), Word code, Word eip] m of
           Inl t \<Rightarrow> Inl t
         | Inr m \<Rightarrow>
             if n = 14
             then (case m_log dev (ln ''page fault address: 0x%x'') [Word cr2] m of
                     Inl t \<Rightarrow> Inl t | Inr m \<Rightarrow> Inr (Halted, m))
             else Inr (Halted, m))"

text \<open>A page fault raised in ring 3: copy-on-write, or the end of the process.\<close>

definition user_page_fault :: "device \<Rightarrow> u32 \<Rightarrow> u32 \<Rightarrow> u32 \<Rightarrow> machine \<Rightarrow> trap + (outcome \<times> machine)" where
  "user_page_fault dev code eip cr2 m =
     (case paging_cow_fault cr2 code (upg (mkern m)) of
        None \<Rightarrow> Inl Panic
      | Some (True, p) \<Rightarrow> Inr (Stay, upd_mkern (set_upg p) m)
      | Some (False, p) \<Rightarrow>
          (case m_log dev (ln ''user process killed: bad page fault addr 0x%x err 0x%x eip 0x%x'')
                  [Word cr2, Word code, Word eip] (upd_mkern (set_upg p) m) of
             Inl t \<Rightarrow> Inl t
           | Inr m \<Rightarrow>
               (case sched_exit_current (ks (mkern m)) of
                  None \<Rightarrow> Inl Panic
                | Some (oc, s) \<Rightarrow> Inr (oc, upd_mkern (\<lambda>k. k\<lparr>ks := s\<rparr>) m))))"

definition m_enter_irq :: "u32 \<Rightarrow> machine \<Rightarrow> machine" where
  "m_enter_irq r m = upd_mkern (\<lambda>k. k\<lparr>ks := sched_enter_irq r (ks k)\<rparr>) m"

definition m_ports :: "unit io \<Rightarrow> machine \<Rightarrow> machine" where
  "m_ports f m = upd_mkern (\<lambda>k. k\<lparr>scr := on_ports f (scr k)\<rparr>) m"

text \<open>The data byte of the keyboard and mouse handlers.\<close>

definition read_data :: "device \<Rightarrow> machine \<Rightarrow> u8 \<times> machine" where
  "read_data dev m =
     (case run_state (inb dev 0x60) (ports (scr (mkern m))) of
        (v, h) \<Rightarrow> (v, upd_mkern (\<lambda>k. k\<lparr>scr := (scr k)\<lparr>ports := h\<rparr>\<rparr>) m))"

definition timer_handler :: "machine \<Rightarrow> outcome \<times> machine" where
  "timer_handler m =
     (let m = upd_mkern (\<lambda>k. k\<lparr>ktimer := timer_tick (ktimer k)\<rparr>) m
      in case sched_tick (ks (mkern m)) of (oc, s) \<Rightarrow> (oc, upd_mkern (\<lambda>k. k\<lparr>ks := s\<rparr>) m))"

definition run_handler :: "device \<Rightarrow> irq_handler option \<Rightarrow> machine \<Rightarrow> outcome \<times> machine" where
  "run_handler dev h m =
     (case h of
        None \<Rightarrow> (Stay, m)
      | Some Timer_handler \<Rightarrow> timer_handler m
      | Some Keyboard_handler \<Rightarrow>
          (let (sc, m) = read_data dev m
           in (Stay, m\<lparr>mdesk := (mdesk m)\<lparr>dkbd := keyboard_handler sc (dkbd (mdesk m))\<rparr>\<rparr>))
      | Some Mouse_handler \<Rightarrow>
          if \<not> m_enabled (dmouse (mdesk m)) then (Stay, m)
          else (let (d, m) = read_data dev m
                in (Stay, m\<lparr>mdesk := (mdesk m)\<lparr>dmouse := mouse_handler d (dmouse (mdesk m))\<rparr>\<rparr>)))"

definition irq_dispatch :: "device \<Rightarrow> u32 \<Rightarrow> nat \<Rightarrow> machine \<Rightarrow> outcome \<times> machine" where
  "irq_dispatch dev r irq m =
     (let m = m_ports (pic_eoi (of_nat irq)) (m_enter_irq r m)
      in run_handler dev (handlers m ! irq) m)"

definition isr_common_handler :: "device \<Rightarrow> u32 \<Rightarrow> u32 \<Rightarrow> machine \<Rightarrow> trap + (outcome \<times> machine)" where
  "isr_common_handler dev cr2 r m =
     (let n = unat (frame_reg r 48 (mkern m));
          code = frame_reg r 52 (mkern m);
          eip = frame_reg r 56 (mkern m)
      in if n < 32 then
           (if n = 14 \<and> code AND 4 \<noteq> 0 then user_page_fault dev code eip cr2 m
            else panic dev n code eip cr2 m)
         else if n \<le> 47 then Inr (irq_dispatch dev r (n - 32) m)
         else if n = 128 then
           (let m = m_enter_irq r m
            in case syscall_dispatch dev r (mkern m) of
                 Inl t \<Rightarrow> Inl t
               | Inr (oc, k) \<Rightarrow> Inr (oc, upd_mkern (\<lambda>_. k) m))
         else Inr (Stay, m))"

subsection \<open>Acknowledging interrupts\<close>

lemma machine_sel [simp]:
  "handlers (upd_mkern f m) = handlers m" "mkern (upd_mkern f m) = f (mkern m)"
  "dkbd (mdesk (upd_mkern f m)) = dkbd (mdesk m)" "dmouse (mdesk (upd_mkern f m)) = dmouse (mdesk m)"
  by (simp_all add: upd_mkern_def mkern_def)

lemma sched_tick_kernel [simp]: "mkern (snd (timer_handler m)) =
    (mkern m)\<lparr>ktimer := timer_tick (ktimer (mkern m)), ks := snd (sched_tick (ks (mkern m)))\<rparr>"
  by (simp add: timer_handler_def Let_def split: prod.splits)

text \<open>The commands that acknowledge interrupt \<open>irq\<close>, and what a handler reads afterwards.\<close>

definition eoi_writes :: "nat \<Rightarrow> ioev list" where
  "eoi_writes irq = (if 8 \<le> irq then [OutB 0xA0 0x20] else []) @ [OutB 0x20 0x20]"

definition m_history :: "machine \<Rightarrow> ioev list" where
  "m_history m = ports (scr (mkern m))"

lemma pic_eoi_run:
  assumes "irq < 16"
  shows "run_state (pic_eoi (of_nat irq)) h = ((), h @ eoi_writes irq)"
proof -
  have "unat (of_nat irq :: u8) = irq"
    using assms by (simp add: unat_of_nat)
  then have "(8 :: u8) \<le> of_nat irq \<longleftrightarrow> 8 \<le> irq"
    by (simp add: word_le_nat_alt)
  then show ?thesis
    by (simp add: pic_eoi_def eoi_writes_def io_simps PIC1_CMD_def PIC2_CMD_def)
qed

lemma run_handler_history:
  "\<exists>rest. m_history (snd (run_handler dev h m)) = m_history m @ rest \<and> rest \<in> {[], [InB 0x60]}"
proof (cases h)
  case (Some f)
  then show ?thesis
    by (cases f) (auto simp: run_handler_def m_history_def read_data_def io_simps mkern_def upd_mkern_def
        timer_handler_def Let_def split: prod.splits)
qed (simp add: run_handler_def m_history_def)

text \<open>C36: Every hardware interrupt is acknowledged exactly once, at the slave controller too when it
  came through it, and before its handler runs: the port accesses it causes are the
  end-of-interrupt commands for its line, followed by at most the one read of the keyboard or
  mouse byte.  So a handler that switches to another task and never returns leaves no line latched.\<close>

theorem irq_acknowledged_once:
  assumes "unat (frame_reg r 48 (mkern m)) = 32 + irq" and "irq < 16"
  shows "\<exists>oc m' rest. isr_common_handler dev cr2 r m = Inr (oc, m') \<and>
    m_history m' = m_history m @ eoi_writes irq @ rest \<and> rest \<in> {[], [InB 0x60]}"
proof -
  let ?m1 = "m_ports (pic_eoi (of_nat irq)) (m_enter_irq r m)"
  have "m_history ?m1 = m_history m @ eoi_writes irq"
    using assms(2) by (simp add: m_history_def m_ports_def m_enter_irq_def on_ports_def pic_eoi_run)
  with run_handler_history [of dev "handlers ?m1 ! irq" ?m1]
  have "\<exists>rest. m_history (snd (irq_dispatch dev r irq m)) = m_history m @ eoi_writes irq @ rest \<and> rest \<in> {[], [InB 0x60]}"
    by (simp add: irq_dispatch_def Let_def)
  moreover have "isr_common_handler dev cr2 r m = Inr (irq_dispatch dev r irq m)"
    using assms by (simp add: isr_common_handler_def Let_def)
  ultimately show ?thesis
    by (metis prod.collapse)
qed

text \<open>A keyboard interrupt: vector 33 in an otherwise empty frame.\<close>

definition irq1_machine :: machine where
  "irq1_machine = \<lparr>mdesk = blank_desk\<lparr>kern := set_upg (run_pg\<lparr>ram := (\<lambda>_. 0)(0x9F030 := 33)\<rparr>) (file_kernel rw_file)\<rparr>,
     handlers = (replicate 16 None)[1 := Some Keyboard_handler], isr_table = replicate 256 None\<rparr>"

theorem irq_acknowledged_once_witness:
  "unat (frame_reg 0x9F000 48 (mkern irq1_machine)) = 33 \<and>
   (\<exists>oc m' rest. isr_common_handler idle_dev 0 0x9F000 irq1_machine = Inr (oc, m') \<and>
      m_history m' = m_history irq1_machine @ [OutB 0x20 0x20] @ rest \<and> rest \<in> {[], [InB 0x60]})"
proof
  show v: "unat (frame_reg 0x9F000 48 (mkern irq1_machine)) = 33"
    by (simp add: irq1_machine_def frame_reg_def mkern_def load32_def)
  show "\<exists>oc m' rest. isr_common_handler idle_dev 0 0x9F000 irq1_machine = Inr (oc, m') \<and>
      m_history m' = m_history irq1_machine @ [OutB 0x20 0x20] @ rest \<and> rest \<in> {[], [InB 0x60]}"
    using irq_acknowledged_once [of "0x9F000" irq1_machine 1 idle_dev 0] v by (simp add: eoi_writes_def)
qed

subsection \<open>The machine stays sound\<close>

text \<open>The task table, the open files, the keyboard ring and the mouse, each by its own invariant.\<close>

definition machine_ok :: "machine \<Rightarrow> bool" where
  "machine_ok m \<longleftrightarrow> sched_inv (ks (mkern m)) \<and> files_ok (ofiles (mkern m)) \<and>
     kb_ok (dkbd (mdesk m)) \<and> on_screen (dmouse (mdesk m))"

lemma set_upg_inv [simp]: "sched_inv (ks (set_upg p k)) = sched_inv (ks k)"
  by (rule sched_inv_cong) (simp_all add: set_upg_def)

lemma upd_file_sched [simp]: "ks (upd_file fd f k) = ks k"
  by (simp add: upd_file_def)

lemma set_eax_inv [simp]: "sched_inv (ks (set_eax r v k)) = sched_inv (ks k)"
  by (simp add: set_eax_def)

lemma copy_calls_sched:
  "sys_write_file fd buf len k = Inr (v, k') \<Longrightarrow> sched_inv (ks k') = sched_inv (ks k)"
  "sys_read fd buf len k = Inr (v, k') \<Longrightarrow> sched_inv (ks k') = sched_inv (ks k)"
  by (auto simp: sys_write_file_def sys_read_def Let_def split: file_cases)

lemma sys_sync_sched: "sys_sync fd k = Inr (v, k') \<Longrightarrow> ks k' = ks k"
  by (auto simp: sys_sync_def Let_def split: file_cases)

lemma file_calls_sched:
  "sys_write dev fd buf len k = Inr (v, k') \<Longrightarrow> sched_inv (ks k') = sched_inv (ks k)"
  "sys_open name n fl k = Inr (v, k') \<Longrightarrow> sched_inv (ks k') = sched_inv (ks k)"
  "sys_close fd k = Inr (v, k') \<Longrightarrow> sched_inv (ks k') = sched_inv (ks k)"
  "sys_lseek fd off wh k = Inr (v, k') \<Longrightarrow> sched_inv (ks k') = sched_inv (ks k)"
  "sys_unlink name n k = Inr (v, k') \<Longrightarrow> sched_inv (ks k') = sched_inv (ks k)"
proof -
  show "sys_write dev fd buf len k = Inr (v, k') \<Longrightarrow> sched_inv (ks k') = sched_inv (ks k)"
    by (auto simp: sys_write_def copy_calls_sched split: file_cases)
  show "sys_open name n fl k = Inr (v, k') \<Longrightarrow> sched_inv (ks k') = sched_inv (ks k)"
    by (auto simp: sys_open_def Let_def split: file_cases)
  show "sys_close fd k = Inr (v, k') \<Longrightarrow> sched_inv (ks k') = sched_inv (ks k)"
    by (auto simp: sys_close_def split: file_cases dest: sys_sync_sched)
  show "sys_lseek fd off wh k = Inr (v, k') \<Longrightarrow> sched_inv (ks k') = sched_inv (ks k)"
    by (auto simp: sys_lseek_def Let_def split: file_cases)
  show "sys_unlink name n k = Inr (v, k') \<Longrightarrow> sched_inv (ks k') = sched_inv (ks k)"
    by (auto simp: sys_unlink_def Let_def split: file_cases)
qed

lemma task_calls_sched:
  "sys_stat name n out k = Inr (v, k') \<Longrightarrow> sched_inv (ks k') = sched_inv (ks k)"
  "sys_sleep w k = Inr (v, k') \<Longrightarrow> sched_inv (ks k) \<Longrightarrow> sched_inv (ks k')"
  "sys_fork r k = Inr (v, k') \<Longrightarrow> sched_inv (ks k) \<Longrightarrow> next_pid (ks k) < minus1 \<Longrightarrow> sched_inv (ks k')"
proof -
  show "sys_stat name n out k = Inr (v, k') \<Longrightarrow> sched_inv (ks k') = sched_inv (ks k)"
    by (auto simp: sys_stat_def split: file_cases)
  show "sys_sleep w k = Inr (v, k') \<Longrightarrow> sched_inv (ks k) \<Longrightarrow> sched_inv (ks k')"
    by (auto simp: sys_sleep_def Let_def intro!: upd_task_inv)
  show "sys_fork r k = Inr (v, k') \<Longrightarrow> sched_inv (ks k) \<Longrightarrow> next_pid (ks k) < minus1 \<Longrightarrow> sched_inv (ks k')"
    by (auto simp: sys_fork_def Let_def split: file_cases dest: task_fork_user_inv)
qed

lemma syscall_sched:
  assumes "syscall_dispatch dev r k = Inr (oc, k')" and "oc \<noteq> Halted"
    and "sched_inv (ks k)" and "next_pid (ks k) < minus1"
  shows "sched_inv (ks k')"
proof (cases "frame_reg r 44 k = 2")
  case True
  then obtain s where e: "sched_exit_current (ks k) = Some (oc, s)" "k' = k\<lparr>ks := s\<rparr>"
    using assms(1) by (auto simp: syscall_dispatch_def split: option.splits)
  moreover obtain f where "oc = Resume f"
    using e(1) assms(2) by (auto simp: sched_exit_current_def Let_def split: option.splits bind_splits)
  ultimately show ?thesis
    using sched_exit_inv assms(3) by simp
next
  case False
  then show ?thesis
    using assms unfolding syscall_dispatch_def syscall_result_def
    by (auto split: sum.splits prod.splits if_splits dest: file_calls_sched copy_calls_sched task_calls_sched)
qed

lemma machine_ok_upd:
  "machine_ok m \<Longrightarrow> sched_inv (ks (f (mkern m))) \<Longrightarrow> ofiles (f (mkern m)) = ofiles (mkern m) \<Longrightarrow>
   machine_ok (upd_mkern f m)"
  by (simp add: machine_ok_def)

lemma m_enter_irq_ok: "machine_ok m \<Longrightarrow> machine_ok (m_enter_irq r m)"
  unfolding m_enter_irq_def by (rule machine_ok_upd) (simp_all add: machine_ok_def sched_enter_irq_inv)

lemma run_handler_ok: "machine_ok m \<Longrightarrow> machine_ok (snd (run_handler dev h m))"
proof (cases h)
  case (Some f)
  assume ok: "machine_ok m"
  show ?thesis
  proof (cases f)
    case Timer_handler
    have "mdesk (snd (timer_handler m)) = (mdesk m)\<lparr>kern := mkern (snd (timer_handler m))\<rparr>"
      by (simp add: timer_handler_def upd_mkern_def mkern_def Let_def split: prod.splits)
    with Some ok Timer_handler show ?thesis
      by (simp add: run_handler_def machine_ok_def sched_tick_inv)
  next
    case Keyboard_handler
    with Some ok show ?thesis
      by (simp add: run_handler_def read_data_def io_simps machine_ok_def keyboard_handler_ok mkern_def upd_mkern_def)
  next
    case Mouse_handler
    with Some ok show ?thesis
      by (simp add: run_handler_def read_data_def io_simps machine_ok_def mouse_handler_on_screen mkern_def upd_mkern_def)
  qed
qed (simp add: run_handler_def)

lemma irq_dispatch_ok: "machine_ok m \<Longrightarrow> machine_ok (snd (irq_dispatch dev r irq m))"
  unfolding irq_dispatch_def Let_def m_ports_def
  by (intro run_handler_ok machine_ok_upd m_enter_irq_ok) (use m_enter_irq_ok in \<open>auto simp: machine_ok_def\<close>)

lemma panic_halts: "panic dev n code eip cr2 m = Inr (oc, m') \<Longrightarrow> oc = Halted"
  by (auto simp: panic_def Let_def split: sum.splits if_splits)

lemma m_log_ok: "m_log dev fmt args m = Inr m' \<Longrightarrow> \<exists>io. m' = upd_mkern (\<lambda>k. k\<lparr>scr := on_ports io (scr k)\<rparr>) m"
  by (auto simp: m_log_def split: option.splits)

lemma exit_not_stay: "sched_exit_current s = Some (oc, s') \<Longrightarrow> oc \<noteq> Halted \<Longrightarrow> \<exists>f. oc = Resume f"
  by (auto simp: sched_exit_current_def Let_def split: option.splits bind_splits)

lemma user_page_fault_ok:
  assumes "user_page_fault dev code eip cr2 m = Inr (oc, m')" and "oc \<noteq> Halted" and "machine_ok m"
  shows "machine_ok m'"
proof -
  obtain fixed p where p: "paging_cow_fault cr2 code (upg (mkern m)) = Some (fixed, p)"
    using assms(1) by (auto simp: user_page_fault_def split: option.splits)
  let ?m1 = "upd_mkern (set_upg p) m"
  have ok1: "machine_ok ?m1"
    using assms(3) by (intro machine_ok_upd) (simp_all add: machine_ok_def)
  show ?thesis
  proof (cases fixed)
    case True
    with p assms(1) ok1 show ?thesis by (auto simp: user_page_fault_def)
  next
    case False
    with p assms(1) obtain m2 s where
      m2: "m_log dev (ln ''user process killed: bad page fault addr 0x%x err 0x%x eip 0x%x'') [Word cr2, Word code, Word eip] ?m1 = Inr m2"
      and s: "sched_exit_current (ks (mkern m2)) = Some (oc, s)" and m': "m' = upd_mkern (\<lambda>k. k\<lparr>ks := s\<rparr>) m2"
      by (auto simp: user_page_fault_def split: sum.splits option.splits)
    obtain io where "m2 = upd_mkern (\<lambda>k. k\<lparr>scr := on_ports io (scr k)\<rparr>) ?m1"
      using m_log_ok [OF m2] by blast
    then have ok2: "machine_ok m2"
      using ok1 by (auto intro!: machine_ok_upd simp: machine_ok_def)
    obtain f where "oc = Resume f" using exit_not_stay [OF s assms(2)] by blast
    then show ?thesis
      unfolding m' using ok2 s by (intro machine_ok_upd) (auto simp: machine_ok_def intro: sched_exit_inv)
  qed
qed

lemma isr_ok:
  assumes "isr_common_handler dev cr2 r m = Inr (oc, m')" and "oc \<noteq> Halted" and "machine_ok m"
    and "next_pid (ks (mkern m)) < minus1"
  shows "machine_ok m'"
proof -
  let ?n = "unat (frame_reg r 48 (mkern m))"
  consider "?n < 32" | "32 \<le> ?n" "?n \<le> 47" | "?n = 128" | "47 < ?n" "?n \<noteq> 128" by linarith
  then show ?thesis
  proof cases
    case 1
    with assms show ?thesis
      by (auto simp: isr_common_handler_def Let_def split: if_splits dest: panic_halts intro: user_page_fault_ok)
  next
    case 2
    with assms(1) have "m' = snd (irq_dispatch dev r (?n - 32) m)"
      by (simp add: isr_common_handler_def Let_def)
    with irq_dispatch_ok assms(3) show ?thesis by simp
  next
    case 3
    let ?m1 = "m_enter_irq r m"
    from 3 assms(1) obtain k where k: "syscall_dispatch dev r (mkern ?m1) = Inr (oc, k)" "m' = upd_mkern (\<lambda>_. k) ?m1"
      by (auto simp: isr_common_handler_def Let_def split: sum.splits)
    have ok1: "machine_ok ?m1" by (rule m_enter_irq_ok [OF assms(3)])
    moreover have "next_pid (ks (mkern ?m1)) < minus1"
      using assms(4) by (simp add: m_enter_irq_def sched_enter_irq_def Let_def upd_task_def)
    ultimately have "sched_inv (ks k)"
      using syscall_sched [OF k(1) assms(2)] by (simp add: machine_ok_def)
    moreover have "files_ok (ofiles k)"
      using k(1) ok1 by (auto simp: machine_ok_def intro: open_files_ok)
    ultimately show ?thesis
      using ok1 unfolding k(2) by (simp add: machine_ok_def)
  next
    case 4
    with assms show ?thesis by (simp add: isr_common_handler_def Let_def)
  qed
qed

end
