(* ===== verification/Boot.thy ===== *)
theory Boot
  imports Isr
begin

section \<open>Booting (kernel/entry.c, kernel/kernel.c)\<close>

text \<open>
  The entry stub and \<open>kernel_main\<close> up to the shell: the order in which the kernel brings its parts
  up, over the state of the whole machine.  What the linker and the processor fix, the addresses of
  tables, stubs and the two demonstration threads and the answers of \<open>cpuid\<close>, is a record the
  definitions take.  \<open>sti\<close> and the loads of table registers have no effect on the state modelled
  here beyond the values loaded.
\<close>

record build =
  stubs :: "u32 list"
  gdt_addr :: u32
  idt_addr :: u32
  tss_addr :: u32
  sys_stack :: u32
  task_a :: u32
  task_b :: u32
  cpuid_max :: u32
  cpuid_leaf7 :: u32

record computer =
  mach :: machine
  gdt_tab :: "gdt_entry list"
  gdtr :: "u16 \<times> u32"
  idt_tab :: "idt_entry list"
  idtr :: "u16 \<times> u32"
  tss_seg :: tss
  task_reg :: u16

type_synonym step = "computer \<Rightarrow> trap + computer"

text \<open>The statements of a function run in order; the first trap ends it.\<close>

primrec run_all :: "step list \<Rightarrow> step" where
  "run_all [] c = Inr c"
| "run_all (f # fs) c = (case f c of Inl t \<Rightarrow> Inl t | Inr c \<Rightarrow> run_all fs c)"

definition on_mach :: "(machine \<Rightarrow> machine) \<Rightarrow> step" where
  "on_mach f c = Inr (c\<lparr>mach := f (mach c)\<rparr>)"

definition on_kernel :: "(kernel \<Rightarrow> kernel) \<Rightarrow> step" where
  "on_kernel f = on_mach (upd_mkern f)"

definition on_sched :: "(sched \<Rightarrow> sched option) \<Rightarrow> step" where
  "on_sched f c = (case f (ks (mkern (mach c))) of
     None \<Rightarrow> Inl Panic | Some s \<Rightarrow> on_kernel (\<lambda>k. k\<lparr>ks := s\<rparr>) c)"

definition do_io :: "unit io \<Rightarrow> step" where
  "do_io f = on_mach (m_ports f)"

definition klog :: "device \<Rightarrow> string \<Rightarrow> (kernel \<Rightarrow> parg list) \<Rightarrow> step" where
  "klog dev t args c =
     (case m_log dev (ln t) (args (mkern (mach c))) (mach c) of
        Inl e \<Rightarrow> Inl e | Inr m \<Rightarrow> Inr (c\<lparr>mach := m\<rparr>))"

text \<open>A driver's initialisation that answers something: its port accesses, then the use of the answer.\<close>

definition with_io :: "'a io \<Rightarrow> ('a \<Rightarrow> machine \<Rightarrow> machine) \<Rightarrow> step" where
  "with_io f g = on_mach (\<lambda>m.
     (case run_state f (ports (scr (mkern m))) of
        (v, h) \<Rightarrow> g v (upd_mkern (\<lambda>k. k\<lparr>scr := (scr k)\<lparr>ports := h\<rparr>\<rparr>) m)))"

subsection \<open>The entry stub\<close>

definition early_serial_init :: "unit io" where
  "early_serial_init =
     out_seq [(0x3F9, 0x00), (0x3FB, 0x80), (0x3F8, 0x03), (0x3F9, 0x00), (0x3FB, 0x03), (0x3FA, 0xC7), (0x3FC, 0x0B)]"

text \<open>Unlike \<open>serial_putc\<close> the early routine waits without a bound; \<open>None\<close> is never getting through.\<close>

partial_function (option) early_ready :: "device \<Rightarrow> ioev list \<Rightarrow> ioev list option" where
  "early_ready dev h =
     (if rd8 dev h 0x3FD AND 0x20 \<noteq> 0 then Some (h @ [InB 0x3FD]) else early_ready dev (h @ [InB 0x3FD]))"

primrec early_puts :: "device \<Rightarrow> u8 list \<Rightarrow> ioev list \<Rightarrow> ioev list option" where
  "early_puts dev [] h = Some h"
| "early_puts dev (c # cs) h =
     Option.bind (early_ready dev h) (\<lambda>h. early_puts dev cs (h @ [OutB 0x3F8 c]))"

definition early_hex :: "u32 \<Rightarrow> ioev list" where
  "early_hex v = map (\<lambda>i. let nib = ucast (drop_bit i v AND 0xF) :: u8
                          in OutB 0x3F8 (if nib < 10 then 0x30 + nib else 0x61 + nib - 10))
                   [28, 24, 20, 16, 12, 8, 4, 0]"

definition clear_bss :: "u32 \<Rightarrow> u32 \<Rightarrow> mem \<Rightarrow> mem" where
  "clear_bss from to m = fold (\<lambda>i m. m(from + of_nat i := 0)) [0 ..< unat to - unat from] m"

definition entry_start :: "device \<Rightarrow> u32 \<Rightarrow> u32 \<Rightarrow> mem \<Rightarrow> ioev list \<Rightarrow> (mem \<times> ioev list) option" where
  "entry_start dev bss_start bss_end m h = do {
     h \<leftarrow> early_puts dev (lit ''[entry] _start reached, bss 0x'') (snd (run_state early_serial_init h));
     h \<leftarrow> early_puts dev [0x0A] (h @ early_hex bss_end);
     h \<leftarrow> early_puts dev (ln ''[entry] bss cleared, jumping to kernel_main'') h;
     Some (clear_bss bss_start bss_end m, h) }"

subsection \<open>Bringing up the parts\<close>

definition boot_gdt :: "build \<Rightarrow> step" where
  "boot_gdt b c = Inr (c\<lparr>gdt_tab := gdt_init (gdt_tab c), gdtr := gdt_pointer (gdt_addr b)\<rparr>)"

text \<open>\<open>idt_init\<close> also clears the two handler tables.\<close>

definition boot_idt :: "build \<Rightarrow> step" where
  "boot_idt b c = Inr (c\<lparr>idt_tab := idt_init (stubs b), idtr := (256 * 8 - 1, idt_addr b),
     mach := (mach c)\<lparr>isr_table := replicate 256 None, handlers := replicate 16 None\<rparr>\<rparr>)"

definition boot_timer :: "device \<Rightarrow> u32 \<Rightarrow> step" where
  "boot_timer dev hz c =
     (case timer_init dev hz (ktimer (mkern (mach c))) of
        None \<Rightarrow> Inl Panic
      | Some f \<Rightarrow> with_io f (\<lambda>t m. register_irq_handler 0 Timer_handler (upd_mkern (\<lambda>k. k\<lparr>ktimer := t\<rparr>) m)) c)"

definition boot_keyboard :: "device \<Rightarrow> step" where
  "boot_keyboard dev = run_all [on_mach (register_irq_handler 1 Keyboard_handler), do_io (keyboard_init dev)]"

definition boot_mouse :: "device \<Rightarrow> step" where
  "boot_mouse dev c =
     with_io (mouse_init dev (dmouse (mdesk (mach c))))
       (\<lambda>s m. register_irq_handler 12 Mouse_handler (m\<lparr>mdesk := (mdesk m)\<lparr>dmouse := s\<rparr>\<rparr>)) c"

definition boot_memory :: step where
  "boot_memory = on_sched (\<lambda>s.
     let p = (pg s)\<lparr>mm := mm_init (mm (pg s))\<rparr>;
         h = kheap_init \<lparr>hram = ram p, heap_head = hhead s\<rparr>
     in Some (s\<lparr>pg := p\<lparr>ram := hram h\<rparr>, hhead := heap_head h\<rparr>))"

definition boot_paging :: "build \<Rightarrow> step" where
  "boot_paging b = on_sched (\<lambda>s. map_option (\<lambda>p. s\<lparr>pg := p\<rparr>) (paging_init (cpuid_max b) (cpuid_leaf7 b) (pg s)))"

text \<open>The scheduler's \<open>tss_esp0\<close> is the field of the task state segment.\<close>

definition boot_user :: "device \<Rightarrow> build \<Rightarrow> step" where
  "boot_user dev b = run_all
     [\<lambda>c. case user_init (tss_addr b) (sys_stack b) (gdt_tab c) of
            (t, gdt, sel) \<Rightarrow> Inr (c\<lparr>tss_seg := t, gdt_tab := gdt, task_reg := sel\<rparr>),
      on_sched (\<lambda>s. Some (s\<lparr>tss_esp0 := sys_stack b\<rparr>)),
      klog dev ''user: TSS ready (ring0 stack 0x%x, ring3 supported)'' (\<lambda>k. [Word (tss_esp0 (ks k))])]"

text \<open>\<open>ata_init\<close> decides whether the disk answers; \<open>fat_mount\<close> asks again.\<close>

definition probe_disk :: "device \<Rightarrow> step" where
  "probe_disk dev = with_io (ata_init dev)
     (\<lambda>ok. upd_mkern (\<lambda>k. k\<lparr>kfat := (kfat k)\<lparr>drv := (drv (kfat k))\<lparr>present := ok\<rparr>\<rparr>\<rparr>))"

definition boot_disk :: "device \<Rightarrow> step" where
  "boot_disk dev = run_all
     [probe_disk dev,
      \<lambda>c. if present (drv (kfat (mkern (mach c))))
          then klog dev ''ata: secondary master present'' (\<lambda>k. []) c
          else klog dev ''ata: no secondary drive (run with -fdb build/data.img)'' (\<lambda>k. []) c,
      probe_disk dev,
      on_kernel (\<lambda>k. k\<lparr>kfat := snd (fat_mount (kfat k))\<rparr>),
      \<lambda>c. if fat_mounted (kfat (mkern (mach c)))
          then klog dev ''fat: FAT12 data disk mounted'' (\<lambda>k. []) c
          else klog dev ''fat: mount failed'' (\<lambda>k. []) c]"

subsection \<open>The first tasks\<close>

text \<open>One round of a demonstration thread: a line on the serial port in its first three rounds.\<close>

definition demo_round :: "device \<Rightarrow> string \<Rightarrow> u32 \<Rightarrow> u32 \<Rightarrow> (unit io \<times> u32) option" where
  "demo_round dev name p n =
     (if n < 3
      then map_option (\<lambda>t. (serial_write dev t, n + 1))
             (ksprintf 48 (ln (''[task '' @ name @ ''] pid %u heartbeat %u'')) [Word p, Word n])
      else Some (State_Monad.return (), n + 1))"

definition k_malloc :: "u32 \<Rightarrow> computer \<Rightarrow> trap + (u32 \<times> computer)" where
  "k_malloc n c =
     (case s_kmalloc n (ks (mkern (mach c))) of
        None \<Rightarrow> Inl Panic
      | Some (p, s) \<Rightarrow> Inr (p, c\<lparr>mach := upd_mkern (\<lambda>k. k\<lparr>ks := s\<rparr>) (mach c)\<rparr>))"

definition spawn_hello :: "device \<Rightarrow> u32 \<Rightarrow> u32 \<Rightarrow> step" where
  "spawn_hello dev buf sz c =
     (case user_spawn (lit ''user-hello'') buf sz (ks (mkern (mach c))) of
        None \<Rightarrow> Inl Panic
      | Some (p, s) \<Rightarrow>
          run_all [on_kernel (\<lambda>k. k\<lparr>ks := s\<rparr>),
            if p \<noteq> 0 then klog dev ''user: loaded hello.elf from FAT disk, pid=%u'' (\<lambda>k. [Word p])
            else klog dev ''user: hello.elf load failed (bad image?)'' (\<lambda>k. [])] c)"

definition load_hello :: "device \<Rightarrow> u32 \<Rightarrow> step" where
  "load_hello dev buf c =
     (case fat_read (lit ''hello.elf'') 16384 (kfat (mkern (mach c))) of
        (r, v) \<Rightarrow>
          let missing = klog dev ''user: hello.elf not found (attach data.img as IDE secondary master)'' (\<lambda>k. [])
          in run_all [on_kernel (\<lambda>k. k\<lparr>kfat := v\<rparr>),
               case r of
                 None \<Rightarrow> missing
               | Some d \<Rightarrow>
                   if d = [] then missing
                   else run_all [on_sched (\<lambda>s. Some (set_ram (put_bytes d buf) s)),
                                 spawn_hello dev buf (of_nat (length d))]] c)"

definition try_load_user_app :: "device \<Rightarrow> step" where
  "try_load_user_app dev c =
     (case k_malloc 16384 c of
        Inl t \<Rightarrow> Inl t
      | Inr (buf, c) \<Rightarrow>
          if buf = 0 then klog dev ''user: no heap space for app image'' (\<lambda>k. []) c
          else run_all [load_hello dev buf, on_sched (s_kfree buf)] c)"

definition boot_tasks :: "device \<Rightarrow> build \<Rightarrow> step" where
  "boot_tasks dev b = run_all
     [on_sched (\<lambda>s. Some (snd (sched_adopt_current (lit ''main'') (sched_init s)))),
      on_sched (\<lambda>s. map_option snd (task_create (lit ''demo-a'') (task_a b) s)),
      on_sched (\<lambda>s. map_option snd (task_create (lit ''demo-b'') (task_b b) s)),
      try_load_user_app dev,
      klog dev ''sched: %u tasks ready'' (\<lambda>k. [Word (of_nat (sched_task_count (ks k)))])]"

definition greeting :: "device \<Rightarrow> step" where
  "greeting dev = run_all
     [\<lambda>c. klog dev (CHR 0x0A # ''==============================================='') (\<lambda>k. []) c,
      klog dev ''  NovaOS v1.0 - self-made operating system'' (\<lambda>k. []),
      klog dev ''  boot: stage1 -> stage2 -> pmode -> paging'' (\<lambda>k. []),
      klog dev ''  per-process page tables + COW fork'' (\<lambda>k. []),
      klog dev (''  type 'help', 'gui', 'ls', 'cat', 'run'' @ [CHR 0x27]) (\<lambda>k. []),
      klog dev (''==============================================='' @ [CHR 0x0A]) (\<lambda>k. []),
      klog dev ''shell: enter main loop (pid %u)'' (\<lambda>k. [Word (sched_current_pid (ks k))])]"

text \<open>Up to the call of \<open>shell_run\<close>.\<close>

definition kernel_boot :: "device \<Rightarrow> build \<Rightarrow> step" where
  "kernel_boot dev b = run_all
     [do_io serial_init,
      klog dev ''NovaOS kernel v1.0 booting...'' (\<lambda>k. []),
      boot_gdt b, klog dev ''gdt: ok'' (\<lambda>k. []),
      boot_idt b, klog dev ''idt: ok (int 0x80 open to ring3)'' (\<lambda>k. []),
      do_io pic_init, klog dev ''pic: ok (IRQ remap 32-47)'' (\<lambda>k. []),
      boot_timer dev 100, klog dev ''pit: ok (100Hz)'' (\<lambda>k. []),
      boot_keyboard dev, boot_mouse dev, klog dev ''ps2: ok (keyboard + mouse)'' (\<lambda>k. []),
      boot_memory,
      klog dev ''memory: phys free %u KB, heap 0x%x-0x%x''
        (\<lambda>k. [Word (of_nat (mm_free_frames (mm (upg k))) * 4), Word HEAP_START, Word HEAP_END]),
      boot_paging b, klog dev ''paging: per-process page tables + COW (v1.0)'' (\<lambda>k. []),
      boot_user dev b, boot_disk dev, boot_tasks dev b,
      on_kernel (\<lambda>k. k\<lparr>scr := vga_init (scr k)\<rparr>),
      greeting dev]"

definition kernel_main :: "device \<Rightarrow> build \<Rightarrow> (gui_irq \<times> gui_irq list) list \<Rightarrow> shell \<Rightarrow> computer \<Rightarrow> trap + (bool \<times> shell)" where
  "kernel_main dev b evs sh c =
     (case kernel_boot dev b c of
        Inl t \<Rightarrow> Inl t
      | Inr c \<Rightarrow> (case shell_run dev evs (sh\<lparr>sdesk := mdesk (mach c)\<rparr>) of None \<Rightarrow> Inl Panic | Some r \<Rightarrow> Inr r))"

subsection \<open>What booting leaves behind\<close>

text \<open>Between two statements: the tables of handlers and gates, the devices' state, and \<open>P\<close> of the scheduler.\<close>

definition stage :: "irq_handler option list \<Rightarrow> idt_entry list \<Rightarrow> (sched \<Rightarrow> bool) \<Rightarrow> computer \<Rightarrow> bool" where
  "stage h t P c \<longleftrightarrow> handlers (mach c) = h \<and> idt_tab c = t \<and> P (ks (mkern (mach c))) \<and>
     files_ok (ofiles (mkern (mach c))) \<and> kb_ok (dkbd (mdesk (mach c))) \<and> on_screen (dmouse (mdesk (mach c)))"

definition triple :: "(computer \<Rightarrow> bool) \<Rightarrow> step \<Rightarrow> (computer \<Rightarrow> bool) \<Rightarrow> bool" where
  "triple P f Q \<longleftrightarrow> (\<forall>c c'. P c \<longrightarrow> f c = Inr c' \<longrightarrow> Q c')"

named_theorems boot_rules \<open>what each statement of the boot sequence establishes\<close>

lemma tripleD: "triple P f Q \<Longrightarrow> P c \<Longrightarrow> f c = Inr c' \<Longrightarrow> Q c'"
  by (simp add: triple_def)

lemma triple_Nil [boot_rules]: "triple P (run_all []) P"
  by (simp add: triple_def)

lemma triple_Cons [boot_rules]: "triple P f R \<Longrightarrow> triple R (run_all fs) Q \<Longrightarrow> triple P (run_all (f # fs)) Q"
  by (auto simp: triple_def split: sum.splits)

lemma triple_if [boot_rules]: "triple P f Q \<Longrightarrow> triple P g Q \<Longrightarrow> triple P (\<lambda>c. if b c then f c else g c) Q"
  by (auto simp: triple_def)

lemma triple_const_if [boot_rules]: "triple P f Q \<Longrightarrow> triple P g Q \<Longrightarrow> triple P (if b then f else g) Q"
  by simp

lemma klog_stage [boot_rules]: "triple (stage h t P) (klog dev s args) (stage h t P)"
  by (auto simp: triple_def stage_def klog_def m_log_def split: sum.splits option.splits)

lemma klog_eta_stage [boot_rules]: "triple (stage h t P) (\<lambda>c. klog dev s args c) (stage h t P)"
  by (rule klog_stage)

lemma do_io_stage [boot_rules]: "triple (stage h t P) (do_io f) (stage h t P)"
  by (auto simp: triple_def stage_def do_io_def on_mach_def m_ports_def)

lemma on_kernel_stage:
  "(\<And>k. ks (f k) = ks k \<and> ofiles (f k) = ofiles k) \<Longrightarrow> triple (stage h t P) (on_kernel f) (stage h t P)"
  by (auto simp: triple_def stage_def on_kernel_def on_mach_def)

lemma on_sched_stage:
  "(\<And>s s'. P s \<Longrightarrow> f s = Some s' \<Longrightarrow> Q s') \<Longrightarrow> triple (stage h t P) (on_sched f) (stage h t Q)"
  by (auto simp: triple_def stage_def on_sched_def on_kernel_def on_mach_def split: option.splits)

lemma boot_tables_stage [boot_rules]:
  "triple (stage h t P) (boot_gdt b) (stage h t P)"
  "triple (stage h t P) (boot_idt b) (stage (replicate 16 None) (idt_init (stubs b)) P)"
  by (auto simp: triple_def stage_def boot_gdt_def boot_idt_def mkern_def)

lemma with_io_machine:
  "with_io f g c = Inr c' \<Longrightarrow> \<exists>v h. c' = c\<lparr>mach := g v (upd_mkern (\<lambda>k. k\<lparr>scr := (scr k)\<lparr>ports := h\<rparr>\<rparr>) (mach c))\<rparr> \<and>
     v = fst (run_state f (ports (scr (mkern (mach c)))))"
  by (auto simp: with_io_def on_mach_def split: prod.splits)

lemma register_sel [simp]:
  "mdesk (register_irq_handler i f m) = mdesk m" "mkern (register_irq_handler i f m) = mkern m"
  by (simp_all add: register_irq_handler_def mkern_def)

lemma boot_devices_stage [boot_rules]:
  "triple (stage h t P) (boot_timer dev hz) (stage (h[0 := Some Timer_handler]) t P)"
  "triple (stage h t P) (boot_keyboard dev) (stage (h[1 := Some Keyboard_handler]) t P)"
  "triple (stage h t P) (boot_mouse dev) (stage (h[12 := Some Mouse_handler]) t P)"
  "triple (stage h t P) (probe_disk dev) (stage h t P)"
proof -
  show "triple (stage h t P) (boot_timer dev hz) (stage (h[0 := Some Timer_handler]) t P)"
    by (auto simp: triple_def stage_def boot_timer_def register_irq_handler_def dest!: with_io_machine split: option.splits)
      (simp_all add: mkern_def upd_mkern_def)
  show "triple (stage h t P) (boot_keyboard dev) (stage (h[1 := Some Keyboard_handler]) t P)"
    by (auto simp: triple_def stage_def boot_keyboard_def on_mach_def do_io_def m_ports_def register_irq_handler_def mkern_def
        upd_mkern_def)
  show "triple (stage h t P) (probe_disk dev) (stage h t P)"
    by (auto simp: triple_def stage_def probe_disk_def dest!: with_io_machine)
  have "on_screen (fst (run_state (mouse_init dev s) p))" if "on_screen s" for s p
    using that by (simp add: mouse_init_def on_screen_def run_state_bind split: prod.splits)
  then show "triple (stage h t P) (boot_mouse dev) (stage (h[12 := Some Mouse_handler]) t P)"
    by (auto simp: triple_def stage_def boot_mouse_def register_irq_handler_def mkern_def upd_mkern_def dest!: with_io_machine)
qed

definition fresh :: "sched \<Rightarrow> bool" where
  "fresh s \<longleftrightarrow> next_pid s = 1"

definition live :: "nat \<Rightarrow> sched \<Rightarrow> bool" where
  "live n s \<longleftrightarrow> sched_inv s \<and> unat (next_pid s) \<le> n"

lemma boot_memory_stage [boot_rules]: "triple (stage h t fresh) boot_memory (stage h t fresh)"
  unfolding boot_memory_def by (rule on_sched_stage) (auto simp: fresh_def Let_def)

lemma boot_paging_stage [boot_rules]: "triple (stage h t fresh) (boot_paging b) (stage h t fresh)"
  unfolding boot_paging_def by (rule on_sched_stage) (auto simp: fresh_def)

lemma esp0_stage [boot_rules]: "triple (stage h t fresh) (on_sched (\<lambda>s. Some (s\<lparr>tss_esp0 := v\<rparr>))) (stage h t fresh)"
  by (rule on_sched_stage) (auto simp: fresh_def)

lemma tss_stage [boot_rules]:
  "triple (stage h t P) (\<lambda>c. case f c of (s, gdt, sel) \<Rightarrow> Inr (c\<lparr>tss_seg := s, gdt_tab := gdt, task_reg := sel\<rparr>)) (stage h t P)"
  by (auto simp: triple_def stage_def split: prod.splits)

lemma boot_user_stage [boot_rules]: "triple (stage h t fresh) (boot_user dev b) (stage h t fresh)"
  unfolding boot_user_def by (rule boot_rules)+

lemma kernel_views_stage [boot_rules]:
  "triple (stage h t P) (on_kernel (\<lambda>k. k\<lparr>scr := f (scr k)\<rparr>)) (stage h t P)"
  "triple (stage h t P) (on_kernel (\<lambda>k. k\<lparr>kfat := g (kfat k)\<rparr>)) (stage h t P)"
  by (rule on_kernel_stage, simp)+

lemma boot_disk_stage [boot_rules]: "triple (stage h t P) (boot_disk dev) (stage h t P)"
  unfolding boot_disk_def by (rule boot_rules)+

subsection \<open>The first tasks\<close>

lemma init_slot_pid: "next_pid (init_slot k fl s) = next_pid s + 1"
  by (simp add: init_slot_def)

lemma upd_task_pid [simp]: "next_pid (upd_task k f s) = next_pid s"
  by (simp add: upd_task_def)

lemma alloc_slot_pid: "alloc_slot s = (k, s') \<Longrightarrow> next_pid s' = next_pid s"
  by (auto simp: alloc_slot_def split: option.splits if_splits)

lemma slot_ops_pid [simp]: "next_pid (kill_slot k s) = next_pid s" "next_pid (name_slot k n s) = next_pid s"
  "next_pid (task_setup_stack k fn s) = next_pid s"
  by (simp_all add: kill_slot_def name_slot_def task_setup_stack_def split: prod.splits)

lemma s_kmalloc_pid: "s_kmalloc n s = Some (p, s') \<Longrightarrow> next_pid s' = next_pid s"
  by (rule same_table_simps(4) [OF same_table_ops(1)])

lemma alloc_irq_stack_pid: "alloc_irq_stack k s = Some (r, s') \<Longrightarrow> next_pid s' = next_pid s"
  by (auto simp: alloc_irq_stack_def split: if_splits bind_splits dest!: s_kmalloc_pid)

lemma setup_user_pid: "task_setup_user_stack k e s = Some s' \<Longrightarrow> next_pid s' = next_pid s"
  by (auto simp: task_setup_user_stack_def Let_def split: if_splits bind_splits prod.splits dest!: s_kmalloc_pid)

lemma task_create_pid: "task_create name fn s = Some (p, s') \<Longrightarrow> next_pid s' \<in> {next_pid s, next_pid s + 1}"
  by (auto simp: task_create_def Let_def init_slot_pid split: if_splits bind_splits prod.splits
      dest!: alloc_slot_pid alloc_irq_stack_pid s_kmalloc_pid)

lemma task_create_user_pid: "task_create_user name e c s = Some (p, s') \<Longrightarrow> next_pid s' \<in> {next_pid s, next_pid s + 1}"
  by (auto simp: task_create_user_def Let_def init_slot_pid split: if_splits bind_splits prod.splits
      dest!: alloc_slot_pid alloc_irq_stack_pid setup_user_pid)

lemma pid_step: "unat (x :: u32) \<le> k \<Longrightarrow> unat (x + 1) \<le> Suc k"
proof -
  assume "unat x \<le> k"
  moreover have "unat (x + 1) \<le> unat x + 1"
    by (simp add: unat_word_ariths)
  ultimately show ?thesis by linarith
qed

lemma user_spawn_live:
  assumes "user_spawn n a sz s = Some (p, s')" and "live k s" and "Suc k < 2 ^ 32 - 1"
  shows "live (Suc k) s'"
proof -
  have pg_only: "live k s2" if "live k s1" "same_table s1 s2" for s1 s2
    using that by (simp add: live_def sched_inv_same same_table_simps)
  have sw: "same_table s1 (switch_space c s1)" for c s1
    by (simp add: same_table_def switch_space_def)
  have mono: "live k s1 \<Longrightarrow> live (Suc k) s1" for s1
    by (simp add: live_def)
  have up: "live (Suc k) s2" if "live (Suc k) s1" "same_table s1 s2" for s1 s2
    using that by (simp add: live_def sched_inv_same same_table_simps)
  have small: "next_pid s1 < minus1" if "live k s1" for s1
    using that assms(3) by (simp add: live_def word_less_nat_alt)
  obtain c s1 where c: "in_pg paging_create_addr_space s = Some (c, s1)"
    using assms(1) by (auto simp: user_spawn_def split: bind_splits)
  have l1: "live k s1" using pg_only [OF assms(2) same_table_ops(4) [OF c]] .
  show ?thesis
  proof (cases "c = 0")
    case True
    with assms(1) c l1 mono show ?thesis by (simp add: user_spawn_def)
  next
    case False
    let ?s2 = "switch_space c s1"
    from False assms(1) c obtain e s3 where e: "in_pg (user_load_elf c a sz) ?s2 = Some (e, s3)"
      by (auto simp: user_spawn_def Let_def split: bind_splits)
    have l3: "live k s3" using pg_only [OF pg_only [OF l1 sw] same_table_ops(4) [OF e]] .
    let ?old = "paging_get_cr3 (pg s1)"
    have fail: "live (Suc k) s'" if "destroy_space c (switch_space ?old x) = Some s'" "live k x" for x
      using mono [OF pg_only [OF pg_only [OF that(2) sw] same_table_ops(3) [OF that(1)]]] .
    show ?thesis
    proof (cases "e = 0")
      case True
      with False assms(1) c e l3 fail show ?thesis
        by (auto simp: user_spawn_def Let_def split: bind_splits)
    next
      case nz: False
      from nz False assms(1) c e obtain r s4 where
        r: "in_pg (paging_map_user_region c (USER_STACK_TOP - 0x2000) 0x2000) s3 = Some (r, s4)"
        by (auto simp: user_spawn_def Let_def split: bind_splits)
      have l4: "live k s4" using pg_only [OF l3 same_table_ops(4) [OF r]] .
      show ?thesis
      proof (cases r)
        case False
        with nz \<open>c \<noteq> 0\<close> assms(1) c e r l4 fail show ?thesis
          by (auto simp: user_spawn_def Let_def split: bind_splits)
      next
        case True
        with nz \<open>c \<noteq> 0\<close> assms(1) c e r obtain q s5 where q: "task_create_user n e c s4 = Some (q, s5)"
          and s': "(if q = 0 then destroy_space c (switch_space ?old s5) else Some (switch_space ?old s5)) = Some s'"
          by (auto simp: user_spawn_def Let_def split: bind_splits if_splits)
        have "unat (next_pid s5) \<le> Suc k"
          using task_create_user_pid [OF q] l4 small [OF l4] by (auto simp: live_def intro: pid_step)
        then have "live (Suc k) s5"
          using task_create_user_inv [OF q] l4 small [OF l4] by (simp add: live_def)
        from up [OF this sw] s' show ?thesis
          by (auto split: if_splits dest: up [OF up [OF \<open>live (Suc k) s5\<close> sw] same_table_ops(3)])
      qed
    qed
  qed
qed

lemma task_create_live:
  assumes "task_create n fn s = Some (p, s')" and "live k s" and "Suc k < 2 ^ 32 - 1"
  shows "live (Suc k) s'"
proof -
  have small: "next_pid s < minus1"
    using assms(2,3) by (simp add: live_def word_less_nat_alt)
  then have "unat (next_pid s') \<le> Suc k"
    using task_create_pid [OF assms(1)] assms(2) by (auto simp: live_def intro: pid_step)
  with task_create_inv [OF assms(1)] assms(2) small show ?thesis by (simp add: live_def)
qed

lemma k_malloc_stage: "k_malloc n c = Inr (p, c') \<Longrightarrow> stage h t (live k) c \<Longrightarrow> stage h t (live k) c'"
  by (auto simp: k_malloc_def stage_def live_def sched_inv_same same_table_simps
      split: option.splits dest!: same_table_ops(1))

lemma set_sched_stage: "stage h t P c \<Longrightarrow> Q s \<Longrightarrow> triple ((=) c) (on_kernel (\<lambda>k. k\<lparr>ks := s\<rparr>)) (stage h t Q)"
  by (auto simp: triple_def stage_def on_kernel_def on_mach_def)

lemma set_fat_stage: "stage h t P c \<Longrightarrow> triple ((=) c) (on_kernel (\<lambda>k. k\<lparr>kfat := v\<rparr>)) (stage h t P)"
  by (auto simp: triple_def stage_def on_kernel_def on_mach_def)

lemma spawn_hello_stage [boot_rules]:
  assumes "Suc k < 2 ^ 32 - 1"
  shows "triple (stage h t (live k)) (spawn_hello dev p n) (stage h t (live (Suc k)))"
  unfolding triple_def
proof (intro allI impI)
  fix c c' assume c: "stage h t (live k) c" and r: "spawn_hello dev p n c = Inr c'"
  then obtain q s where q: "user_spawn (lit ''user-hello'') p n (ks (mkern (mach c))) = Some (q, s)"
    by (auto simp: spawn_hello_def split: option.splits)
  have "live (Suc k) s"
    using user_spawn_live [OF q] c assms by (simp add: stage_def)
  note run = set_sched_stage [of h t "live k" c "live (Suc k)", OF c this] klog_stage
  have "triple ((=) c) (run_all [on_kernel (\<lambda>k. k\<lparr>ks := s\<rparr>),
      if q \<noteq> 0 then klog dev ''user: loaded hello.elf from FAT disk, pid=%u'' (\<lambda>k. [Word q])
      else klog dev ''user: hello.elf load failed (bad image?)'' (\<lambda>k. [])]) (stage h t (live (Suc k)))"
    by (rule run boot_rules)+
  from tripleD [OF this refl] r q show "stage h t (live (Suc k)) c'"
    by (simp add: spawn_hello_def)
qed

lemma live_Suc: "triple P f (stage h t (live k)) \<Longrightarrow> triple P f (stage h t (live (Suc k)))"
  by (auto simp: triple_def stage_def live_def)

lemma set_ram_stage [boot_rules]: "triple (stage h t (live k)) (on_sched (\<lambda>s. Some (set_ram f s))) (stage h t (live k))"
  by (rule on_sched_stage) (auto simp: live_def)

lemma kfree_stage [boot_rules]: "triple (stage h t (live k)) (on_sched (s_kfree p)) (stage h t (live k))"
  by (rule on_sched_stage) (auto simp: live_def sched_inv_same same_table_simps dest!: same_table_ops(2))

lemma load_hello_stage [boot_rules]:
  assumes "Suc k < 2 ^ 32 - 1"
  shows "triple (stage h t (live k)) (load_hello dev p) (stage h t (live (Suc k)))"
  unfolding triple_def
proof (intro allI impI)
  fix c c' assume c: "stage h t (live k) c" and r: "load_hello dev p c = Inr c'"
  obtain d v where d: "fat_read (lit ''hello.elf'') 16384 (kfat (mkern (mach c))) = (d, v)"
    by (cases "fat_read (lit ''hello.elf'') 16384 (kfat (mkern (mach c)))")
  let ?missing = "klog dev ''user: hello.elf not found (attach data.img as IDE secondary master)'' (\<lambda>k. [])"
  have "triple (stage h t (live k)) (case d of None \<Rightarrow> ?missing
      | Some d \<Rightarrow> if d = [] then ?missing
                  else run_all [on_sched (\<lambda>s. Some (set_ram (put_bytes d p) s)), spawn_hello dev p (of_nat (length d))])
      (stage h t (live (Suc k)))"
  proof (cases d)
    case None
    then show ?thesis by (simp add: live_Suc [OF klog_stage])
  next
    case (Some bs)
    have "triple (stage h t (live k)) (run_all [on_sched (\<lambda>s. Some (set_ram (put_bytes bs p) s)),
        spawn_hello dev p (of_nat (length bs))]) (stage h t (live (Suc k)))"
      by (rule triple_Cons [OF set_ram_stage] triple_Cons [OF spawn_hello_stage [OF assms]] triple_Nil)+
    with Some show ?thesis by (simp add: live_Suc [OF klog_stage])
  qed
  from tripleD [OF triple_Cons [OF set_fat_stage [OF c] triple_Cons [OF this triple_Nil]] refl] r d
  show "stage h t (live (Suc k)) c'"
    by (simp add: load_hello_def Let_def)
qed

lemma load_user_app_stage:
  assumes "Suc k < 2 ^ 32 - 1"
  shows "triple (stage h t (live k)) (try_load_user_app dev) (stage h t (live (Suc k)))"
  unfolding triple_def
proof (intro allI impI)
  fix c c' assume c: "stage h t (live k) c" and r: "try_load_user_app dev c = Inr c'"
  then obtain p c1 where p: "k_malloc 16384 c = Inr (p, c1)"
    by (auto simp: try_load_user_app_def split: sum.splits)
  note c1 = k_malloc_stage [OF p c]
  show "stage h t (live (Suc k)) c'"
  proof (cases "p = 0")
    case True
    with p r tripleD [OF live_Suc [OF klog_stage] c1] show ?thesis
      by (simp add: try_load_user_app_def)
  next
    case False
    have "triple (stage h t (live k)) (run_all [load_hello dev p, on_sched (s_kfree p)]) (stage h t (live (Suc k)))"
      by (rule triple_Cons [OF load_hello_stage [OF assms]] triple_Cons [OF kfree_stage] triple_Nil)+
    from tripleD [OF this c1] False p r show ?thesis
      by (simp add: try_load_user_app_def)
  qed
qed

lemma adopt_stage:
  "triple (stage h t fresh) (on_sched (\<lambda>s. Some (snd (sched_adopt_current n (sched_init s))))) (stage h t (live 2))"
  by (rule on_sched_stage)
    (auto simp: fresh_def live_def sched_boot_inv, simp add: sched_adopt_current_def sched_init_def MAX_TASKS_def Let_def)

lemma create_stage:
  "Suc k < 2 ^ 32 - 1 \<Longrightarrow>
   triple (stage h t (live k)) (on_sched (\<lambda>s. map_option snd (task_create n fn s))) (stage h t (live (Suc k)))"
  by (rule on_sched_stage) (auto intro: task_create_live)

lemma boot_tasks_stage [boot_rules]: "triple (stage h t fresh) (boot_tasks dev b) (stage h t (live 5))"
proof -
  have n: "(3 :: nat) = Suc 2" "(4 :: nat) = Suc 3" "(5 :: nat) = Suc 4" by simp_all
  note create = create_stage [of 2, folded n] create_stage [of 3, folded n]
  note app = load_user_app_stage [of 4, folded n]
  show ?thesis
    unfolding boot_tasks_def
    by (rule triple_Cons [OF adopt_stage] triple_Cons [OF create(1)] triple_Cons [OF create(2)] triple_Cons [OF app]
        triple_Cons [OF klog_stage] triple_Nil | simp)+
qed

lemma greeting_stage [boot_rules]: "triple (stage h t P) (greeting dev) (stage h t P)"
  unfolding greeting_def by (rule boot_rules)+

text \<open>The handlers after boot: timer, keyboard and mouse on their lines.\<close>

definition boot_handlers :: "irq_handler option list" where
  "boot_handlers = (replicate 16 None)[0 := Some Timer_handler, 1 := Some Keyboard_handler, 12 := Some Mouse_handler]"

lemma kernel_boot_stage: "triple (stage h t fresh) (kernel_boot dev b) (stage boot_handlers (idt_init (stubs b)) (live 5))"
  unfolding kernel_boot_def boot_handlers_def by (rule boot_rules)+

end
