(* ===== verification/Bringup.thy ===== *)
theory Bringup
  imports Boot
begin

section \<open>Booting succeeds\<close>

text \<open>
  Nothing in the boot sequence can fail on a machine without a data disk: every message fits the
  buffers of \<open>kprintf\<close>, the page tables the boot loader left are enough for \<open>paging_init\<close>, and the
  fresh heap has room for the stacks of the first tasks.  The heap lemmas say what writing into
  an allocated block does to the rest of the heap: nothing.
\<close>

subsection \<open>Writing into allocated blocks\<close>

lemma heap_at_payload:
  "heap_at m a bs \<Longrightarrow> (\<And>x. a \<le> x \<Longrightarrow> x < 0x400000 \<Longrightarrow> x \<notin> used_at a bs \<Longrightarrow> m' (of_nat x) = m (of_nat x)) \<Longrightarrow>
   heap_at m' a bs"
proof (induction bs arbitrary: a)
  case (Cons b bs)
  obtain n f where b: "b = (n, f)" by fastforce
  have t: "heap_at m (a + 12 + n) bs" using Cons.prems(1) by (simp add: b)
  have "heap_at m' (a + 12 + n) bs"
    using t by (rule Cons.IH) (use Cons.prems(2) in \<open>auto simp: b\<close>)
  moreover have "m' (of_nat x) = m (of_nat x)" if "a \<le> x" "x < a + 12" for x
  proof (rule Cons.prems(2) [OF that(1)])
    show "x < 0x400000" using that Cons.prems(1) by (simp add: b)
    show "x \<notin> used_at a (b # bs)" using that used_at_bounds [OF t, of x] by (auto simp: b)
  qed
  note blk_cong [of a m' m, OF this]
  ultimately show ?case using Cons.prems(1) b by simp
qed simp

lemma heap_ok_payload:
  assumes "heap_ok (sheap s) bs"
    and "\<And>x. x < 4294967296 \<Longrightarrow> x \<notin> used_at 0x300000 bs \<Longrightarrow> f (ram (pg s)) (of_nat x) = ram (pg s) (of_nat x)"
  shows "heap_ok (sheap (set_ram f s)) bs"
  using assms heap_at_payload [of "ram (pg s)" "0x300000" bs "f (ram (pg s))"]
  by (simp add: heap_ok_def sheap_def set_ram_def)

lemma span_nat: "x < 4294967296 \<Longrightarrow> a + n \<le> 4294967296 \<Longrightarrow> x < a \<or> a + n \<le> x \<Longrightarrow> of_nat x \<notin> span (of_nat a) n"
proof
  assume x: "x < 4294967296" "a + n \<le> 4294967296" "x < a \<or> a + n \<le> x" and "of_nat x \<in> span (of_nat a) n"
  then obtain i where i: "i < n" "(of_nat x :: u32) = of_nat (a + i)"
    by (auto simp: span_def)
  with x(2) have "a + i < 4294967296" by linarith
  with i(2) x(1) have "x = a + i" by (metis unat_of_nat32)
  with i(1) x(3) show False by linarith
qed

lemma push_all_outside:
  "a mod 4 = 0 \<Longrightarrow> 4 * length vs \<le> a \<Longrightarrow> a < 4294967296 \<Longrightarrow> x < 4294967296 \<Longrightarrow> x < a - 4 * length vs \<or> a \<le> x \<Longrightarrow>
   snd (push_all vs (of_nat a) m) (of_nat x) = m (of_nat x)"
proof (induction vs arbitrary: a m)
  case (Cons v vs)
  then have a: "(a - 4) mod 4 = 0" "4 \<le> a"
    using dvd_diff_nat [of 4 a 4] by (simp_all add: mod_eq_0_iff_dvd)
  have e: "of_nat a - 4 = (of_nat (a - 4) :: u32)" using a(2) by (simp add: of_nat_diff)
  have "store32 m (of_nat (a - 4)) v (of_nat x) = m (of_nat x)"
    by (rule store_nat_outside [OF a(1)]) (use Cons.prems in auto)
  moreover have "snd (push_all vs (of_nat (a - 4)) (store32 m (of_nat (a - 4)) v)) (of_nat x)
      = store32 m (of_nat (a - 4)) v (of_nat x)"
    by (rule Cons.IH [OF a(1)]) (use Cons.prems in auto)
  ultimately show ?case by (simp only: push_all.simps e)
qed simp

subsection \<open>Making a task on a heap with room\<close>

lemma s_kmalloc_fits:
  assumes "heap_ok (sheap s) bs" and "ff_alloc (round8 n) bs = Some (i, bs')"
  obtains s' where "s_kmalloc n s = Some (of_nat (0x300000 + i + 12), s')" "same_table s s'" "heap_ok (sheap s') bs'"
proof -
  obtain h where h: "kmalloc n (sheap s) = Some (of_nat (0x300000 + i + 12), h)" "heap_ok h bs'"
    using kmalloc_run [OF assms(1), of n] assms(2) by (auto simp del: of_nat_add)
  let ?s' = "s\<lparr>pg := (pg s)\<lparr>ram := hram h\<rparr>, hhead := heap_head h\<rparr>"
  have "s_kmalloc n s = Some (of_nat (0x300000 + i + 12), ?s')"
    using h(1) by (simp add: s_kmalloc_def sheap_def del: of_nat_add)
  moreover have "heap_ok (sheap ?s') bs'" using h(2) by (simp add: sheap_def heap_ok_def)
  ultimately show thesis using that same_table_ops(1) by blast
qed

text \<open>The stack is filled and given its first frame within its own block.\<close>

lemma stack_set_up_heap:
  assumes "heap_ok (sheap s) bs" and "{a ..< a + 0x4000} \<subseteq> used_at 0x300000 bs" and "a mod 4 = 0" and "a + 0x4000 \<le> 0x400000"
    and "stack_bottom (task_at s k) = of_nat a"
  shows "heap_ok (sheap (task_setup_stack k fn (name_slot k n (set_ram (\<lambda>m. memset m (of_nat a) 0xCC (unat TASK_STACK)) s)))) bs"
proof -
  let ?s1 = "set_ram (\<lambda>m. memset m (of_nat a) 0xCC (unat TASK_STACK)) s"
  have "heap_ok (sheap ?s1) bs"
  proof (rule heap_ok_payload [OF assms(1)])
    fix x :: nat assume x: "x < 4294967296" "x \<notin> used_at 0x300000 bs"
    then have "x < a \<or> a + 0x4000 \<le> x" using assms(2) by (meson atLeastLessThan_iff not_less subsetD)
    then show "memset (ram (pg s)) (of_nat a) 0xCC (unat TASK_STACK) (of_nat x) = ram (pg s) (of_nat x)"
      using x(1) assms(4) unfolding memset_put
      by (intro put_bytes_outside) (simp add: TASK_STACK_def span_nat)
  qed
  then have 2: "heap_ok (sheap (name_slot k n ?s1)) bs"
    by (simp add: name_slot_def)
  have sb: "stack_bottom (task_at (name_slot k n ?s1) k) + TASK_STACK = of_nat (a + 0x4000)"
  proof (cases "unat k < length (tasks s)")
    case True
    then have "task_at (name_slot k n ?s1) k = (task_at s k)\<lparr>tname := set_name n (tname (task_at s k)), slice_left := 5\<rparr>"
      unfolding name_slot_def by (subst task_at_upd) simp_all
    then show ?thesis using assms(5) by (simp add: TASK_STACK_def)
  next
    case False
    then have "task_at (name_slot k n ?s1) k = task_at s k"
      by (simp add: name_slot_def upd_task_def task_at_def list_update_beyond)
    then show ?thesis using assms(5) by (simp add: TASK_STACK_def)
  qed
  let ?s2 = "name_slot k n ?s1"
  let ?r = "push_all ([0x202, 0x08, fn] @ replicate 14 (0 :: u32)) (of_nat (a + 0x4000)) (ram (pg ?s2))"
  have run: "task_setup_stack k fn ?s2 = upd_task k (esp_update (\<lambda>_. fst ?r)) (set_ram (\<lambda>_. snd ?r) ?s2)"
    unfolding task_setup_stack_def sb by (simp only: case_prod_unfold Let_def)
  have "heap_ok (sheap (set_ram (\<lambda>_. snd ?r) ?s2)) bs"
  proof (rule heap_ok_payload [OF 2])
    fix x :: nat assume x: "x < 4294967296" "x \<notin> used_at 0x300000 bs"
    then have "x < a \<or> a + 0x4000 \<le> x" using assms(2) by (meson atLeastLessThan_iff not_less subsetD)
    then show "snd ?r (of_nat x) = ram (pg ?s2) (of_nat x)"
      by (intro push_all_outside) (use x(1) assms(3,4) in \<open>auto simp: mod_add_eq [symmetric]\<close>)
  qed
  then show ?thesis unfolding run by simp
qed

lemma task_create_fits:
  assumes "sched_inv s" and "next_pid s < minus1" and "unat (task_count s) < 16" and "heap_ok (sheap s) bs"
    and "ff_alloc 0x4000 bs = Some (i, bs1)" and "ff_alloc 0x2000 bs1 = Some (j, bs2)"
    and "{0x300000 + i + 12 ..< 0x300000 + i + 12 + 0x4000} \<subseteq> used_at 0x300000 bs2" and "i mod 4 = 0"
    and "0x300000 + i + 12 + 0x4000 \<le> 0x400000" and "j < 0x100000"
  obtains s' where "task_create name fn s = Some (next_pid s, s')" "heap_ok (sheap s') bs2"
    "unat (task_count s') \<le> Suc (unat (task_count s))" "current s' = current s" "next_pid s' = next_pid s + 1"
proof -
  let ?a = "0x300000 + i + 12"
  define stk irq :: u32 where p: "stk = of_nat ?a" "irq = of_nat (0x300000 + j + 12)"
  obtain k s1 where a: "alloc_slot s = (k, s1)" by (cases "alloc_slot s")
  have k: "\<not> MAX_TASKS \<le> k" and tc: "unat (task_count s1) \<le> Suc (unat (task_count s))"
  proof -
    have "unat (task_count s + 1) \<le> Suc (unat (task_count s))" by (rule pid_step) simp
    moreover have "\<not> 16 \<le> unat (of_nat n :: u32)" if "n < unat (task_count s)" for n
      using that assms(3) by (simp add: unat_of_nat32)
    moreover have "task_count s < 16" using assms(3) by (simp add: word_less_nat_alt)
    ultimately show "\<not> MAX_TASKS \<le> k" "unat (task_count s1) \<le> Suc (unat (task_count s))"
      using a assms(3) by (auto simp: alloc_slot_def MAX_TASKS_def word_le_nat_alt find_dead_def find_Some_iff
          split: option.splits if_splits)
  qed
  note sl = alloc_slot_spec [OF assms(1) a k]
  have lt: "next_pid s1 < minus1" using sl(6) assms(2) by simp
  note n = init_slot_inv [OF sl(1,2,4) lt]
  let ?s1 = "init_slot k TASK_KERNEL s1"
  have r: "round8 TASK_STACK = 0x4000" "round8 IRQ_STACK = 0x2000"
    by (simp_all add: round8_def TASK_STACK_def IRQ_STACK_def)
  have "heap_ok (sheap ?s1) bs" using assms(4) sl(9,10) by (simp add: sheap_def n)
  then obtain s2 where m: "s_kmalloc TASK_STACK ?s1 = Some (stk, s2)" "same_table ?s1 s2" "heap_ok (sheap s2) bs1"
    by (rule s_kmalloc_fits [where n = TASK_STACK]) (use assms(5) r p in auto)
  note t2 = same_table_simps [OF m(2)]
  let ?s3 = "upd_task k (stack_bottom_update (\<lambda>_. stk)) s2"
  have l2: "unat k < length (tasks s2)" using sl(3) n(9) by (simp add: t2)
  have at3: "task_at ?s3 k = (task_at ?s1 k)\<lparr>stack_bottom := stk\<rparr>"
    using l2 by (simp add: task_at_upd) (simp add: task_at_def t2)
  have "heap_ok (sheap ?s3) bs1" using m(3) by simp
  then obtain s4 where i: "s_kmalloc IRQ_STACK ?s3 = Some (irq, s4)" "same_table ?s3 s4" "heap_ok (sheap s4) bs2"
    by (rule s_kmalloc_fits [where n = IRQ_STACK]) (use assms(6) r p in auto)
  note t4 = same_table_simps [OF i(2)]
  let ?s5 = "upd_task k (irq_stack_top_update (\<lambda>_. irq + IRQ_STACK)) s4"
  have l4: "unat k < length (tasks s4)" using l2 by (simp add: t4)
  have at5: "task_at ?s5 k = (task_at ?s3 k)\<lparr>irq_stack_top := irq + IRQ_STACK\<rparr>"
    using l4 by (simp add: task_at_upd) (simp add: task_at_def t4)
  have nz: "stk \<noteq> 0" "irq \<noteq> 0"
    unfolding p using assms(9,10) unat_of_nat32 [of ?a] unat_of_nat32 [of "0x300000 + j + 12"] by fastforce+
  have al: "alloc_irq_stack k ?s3 = Some (True, ?s5)"
    using n(8) nz(2) i(1) at3 by (simp add: alloc_irq_stack_def)
  let ?s6 = "name_slot k name (set_ram (\<lambda>m. memset m stk 0xCC (unat TASK_STACK)) ?s5)"
  let ?s7 = "task_setup_stack k fn ?s6"
  have "heap_ok (sheap ?s5) bs2" using i(3) by simp
  then have h7: "heap_ok (sheap ?s7) bs2"
    unfolding p(1) by (rule stack_set_up_heap) (use assms(7-9) at5 at3 p(1) in \<open>auto simp: mod_add_eq [symmetric]\<close>)
  have at6: "pid (task_at ?s6 k) = pid (task_at ?s5 k)"
    using l4 unfolding name_slot_def by (subst task_at_upd) simp_all
  have "pid (task_at ?s7 k) = pid (task_at ?s6 k)"
    using l4 unfolding task_setup_stack_def case_prod_unfold Let_def by (subst task_at_upd) (simp_all add: name_slot_def)
  then have "pid (task_at ?s7 k) = next_pid s"
    using n(5) sl(6) by (simp add: at6 at5 at3)
  moreover have "task_create name fn s = Some (pid (task_at ?s7 k), ?s7)"
    using k a m(1) nz(1) al by (simp add: task_create_def Let_def)
  ultimately have run: "task_create name fn s = Some (next_pid s, ?s7)" by simp
  have "task_count ?s7 = task_count s1" "current ?s7 = current s" "next_pid ?s7 = next_pid s + 1"
    using n(4,12) sl(6,8)
    by (simp_all add: task_setup_stack_def name_slot_def t4 t2 init_slot_pid upd_task_def split: prod.splits)
  then show thesis using that [OF run h7] tc by simp
qed

subsection \<open>Messages\<close>

text \<open>A format with its arguments that has a text: nothing overruns on the way to it.\<close>

definition prints :: "u8 list \<Rightarrow> parg list \<Rightarrow> bool" where
  "prints fmt args \<longleftrightarrow> format_text fmt args \<noteq> None"

lemma rev_digits_length: "unat v < 2 ^ n \<Longrightarrow> length (rev_digits base up v) \<le> n"
proof (induction n arbitrary: v)
  case 0
  then have "v = 0" by (simp add: unat_eq_0)
  then show ?case by (simp add: rev_digits.simps)
next
  case (Suc n)
  show ?case
  proof (cases "v = 0 \<or> base < 2")
    case True
    then show ?thesis by (simp add: rev_digits.simps)
  next
    case False
    then have "2 \<le> unat base" by (simp add: not_less word_le_nat_alt)
    then have "unat v div unat base \<le> unat v div 2" by (intro div_le_mono2) simp_all
    then have "unat (v div base) < 2 ^ n" using Suc.prems by (simp add: unat_div)
    then have "length (rev_digits base up (v div base)) \<le> n" by (rule Suc.IH)
    with False show ?thesis by (subst rev_digits.simps) simp
  qed
qed

lemma number_fits: "length (u32_to_str v base up) \<le> 33"
proof -
  have "unat v < 2 ^ 32" using unsigned_less [of v, where 'a = nat] by simp
  from rev_digits_length [OF this, of base up] show ?thesis
    by (cases "v = 0") (simp_all add: u32_to_str_def rev_digits.simps [of _ _ 0])
qed

lemma prints_simps [simp]:
  "prints [] args"
  "c \<noteq> 0x25 \<Longrightarrow> prints (c # cs) args = prints cs args"
  "prints (0x25 # 0x75 # cs) (Word v # args) = prints cs args"
  "prints (0x25 # 0x78 # cs) (Word v # args) = prints cs args"
proof -
  have "parse_spec (0x75 # cs) = (\<lparr>left = False, zero = False, width = 0, prec = None\<rparr>, 0x75 # cs)"
    "parse_spec (0x78 # cs) = (\<lparr>left = False, zero = False, width = 0, prec = None\<rparr>, 0x78 # cs)"
    by (simp_all add: parse_spec_def precision_of_def)
  moreover have "in_tmp (u32_to_str v b up) = Some (u32_to_str v b up)" for b up
    using number_fits [of v b up] by (simp add: in_tmp_def)
  ultimately show "prints (0x25 # 0x75 # cs) (Word v # args) = prints cs args"
    "prints (0x25 # 0x78 # cs) (Word v # args) = prints cs args"
    by (simp_all add: prints_def convert_def zero_filled_def)
qed (simp_all add: prints_def)

lemma m_log_prints: "prints fmt args \<Longrightarrow> \<exists>io. m_log dev fmt args m = Inr (upd_mkern (\<lambda>k. k\<lparr>scr := on_ports io (scr k)\<rparr>) m)"
  by (auto simp: m_log_def kprintf_def kvsnprintf_text prints_def split: option.splits)

subsection \<open>Statements that cannot fail\<close>

text \<open>The dual of \<open>triple\<close>: from \<open>P\<close> the statement ends without a trap, in \<open>Q\<close>.\<close>

definition completes :: "(computer \<Rightarrow> bool) \<Rightarrow> step \<Rightarrow> (computer \<Rightarrow> bool) \<Rightarrow> bool" where
  "completes P f Q \<longleftrightarrow> (\<forall>c. P c \<longrightarrow> (\<exists>c'. f c = Inr c' \<and> Q c'))"

definition kat :: "(sched \<Rightarrow> fat \<Rightarrow> bool) \<Rightarrow> computer \<Rightarrow> bool" where
  "kat P c = P (ks (mkern (mach c))) (kfat (mkern (mach c)))"

named_theorems total_rules \<open>statements of the boot sequence that end without a trap\<close>

lemma completes_Nil [total_rules]: "completes P (run_all []) P"
  by (simp add: completes_def)

lemma completes_Cons [total_rules]:
  assumes "completes P f R" and "completes R (run_all fs) Q"
  shows "completes P (run_all (f # fs)) Q"
  unfolding completes_def
proof (intro allI impI)
  fix c assume "P c"
  with assms(1) obtain c1 where c1: "f c = Inr c1" "R c1" by (auto simp: completes_def)
  with assms(2) obtain c2 where "run_all fs c1 = Inr c2" "Q c2" by (auto simp: completes_def)
  with c1 show "\<exists>c'. run_all (f # fs) c = Inr c' \<and> Q c'" by simp
qed

lemma completes_quiet:
  assumes "\<And>c. \<exists>c'. f c = Inr c' \<and> ks (mkern (mach c')) = ks (mkern (mach c)) \<and> kfat (mkern (mach c')) = kfat (mkern (mach c))"
  shows "completes (kat P) f (kat P)"
  unfolding completes_def kat_def using assms by metis

lemma completes_klog:
  assumes "\<And>k. prints (ln t) (args k)"
  shows "completes (kat P) (klog dev t args) (kat P)"
proof (rule completes_quiet)
  fix c :: computer
  obtain io where "m_log dev (ln t) (args (mkern (mach c))) (mach c) = Inr (upd_mkern (\<lambda>k. k\<lparr>scr := on_ports io (scr k)\<rparr>) (mach c))"
    using m_log_prints [OF assms] by blast
  then show "\<exists>c'. klog dev t args c = Inr c' \<and> ks (mkern (mach c')) = ks (mkern (mach c)) \<and> kfat (mkern (mach c')) = kfat (mkern (mach c))"
    by (simp add: klog_def)
qed

lemma completes_sched:
  assumes "\<And>s v. P s v \<Longrightarrow> \<exists>s'. f s = Some s' \<and> Q s' v"
  shows "completes (kat P) (on_sched f) (kat Q)"
  unfolding completes_def
proof (intro allI impI)
  fix c assume "kat P c"
  then obtain s' where "f (ks (mkern (mach c))) = Some s'" "Q s' (kfat (mkern (mach c)))"
    using assms by (auto simp: kat_def)
  then show "\<exists>c'. on_sched f c = Inr c' \<and> kat Q c'"
    by (simp add: on_sched_def on_kernel_def on_mach_def kat_def)
qed

lemma completes_devices [total_rules]:
  "completes (kat P) (do_io f) (kat P)"
  "completes (kat P) (boot_gdt b) (kat P)"
  "completes (kat P) (boot_idt b) (kat P)"
  "completes (kat P) (boot_timer dev 100) (kat P)"
  "completes (kat P) (boot_keyboard dev) (kat P)"
  "completes (kat P) (boot_mouse dev) (kat P)"
  "completes (kat P) (on_kernel (\<lambda>k. k\<lparr>scr := g (scr k)\<rparr>)) (kat P)"
  by (rule completes_quiet, simp add: do_io_def on_mach_def m_ports_def boot_gdt_def boot_idt_def boot_timer_def timer_init_def
      boot_keyboard_def boot_mouse_def on_kernel_def with_io_def mkern_def upd_mkern_def register_irq_handler_def
      split: prod.splits)+

text \<open>Without a drive the status register floats high.\<close>

definition no_disk :: "device \<Rightarrow> bool" where
  "no_disk dev \<longleftrightarrow> (\<forall>h. rd8 dev h 0x177 = 0xFF)"

lemma ata_init_no_disk: "no_disk dev \<Longrightarrow> fst (run_state (ata_init dev) h) = False"
  by (simp add: ata_init_def run_state_bind run_inb ATA_def no_disk_def split: prod.splits)

lemma completes_probe [total_rules]:
  assumes "no_disk dev"
  shows "completes (kat (\<lambda>s v. P s)) (probe_disk dev) (kat (\<lambda>s v. P s \<and> \<not> present (drv v)))"
  using ata_init_no_disk [OF assms]
  by (auto simp: completes_def kat_def probe_disk_def with_io_def on_mach_def split: prod.splits) (metis fst_conv)+

lemma completes_mount:
  "completes (kat (\<lambda>s v. P s \<and> \<not> present (drv v))) (on_kernel (\<lambda>k. k\<lparr>kfat := snd (fat_mount (kfat k))\<rparr>))
     (kat (\<lambda>s v. P s \<and> \<not> mounted v))"
  by (simp add: completes_def kat_def on_kernel_def on_mach_def fat_mount_def Let_def)

lemma completes_weaken: "completes P f R \<Longrightarrow> (\<And>c. R c \<Longrightarrow> Q c) \<Longrightarrow> completes P f Q"
  by (fastforce simp: completes_def)

lemma completes_strengthen: "completes R f Q \<Longrightarrow> (\<And>c. P c \<Longrightarrow> R c) \<Longrightarrow> completes P f Q"
  by (fastforce simp: completes_def)

lemma completes_choice:
  "completes P f Q \<Longrightarrow> completes P g Q \<Longrightarrow> completes P (\<lambda>c. if b c then f c else g c) Q"
  by (simp add: completes_def)

subsection \<open>The phases of a boot without a disk\<close>

definition has_task :: "u32 \<Rightarrow> u8 list \<Rightarrow> sched \<Rightarrow> bool" where
  "has_task p n s \<longleftrightarrow> (\<exists>k. unat k < 16 \<and> ready (task_at s k) \<and> pid (task_at s k) = p \<and>
     tname (task_at s k) = set_name n (replicate 16 0) \<and> flags (task_at s k) = TASK_KERNEL)"

text \<open>What the boot loader leaves: its page tables, and zeroed variables.\<close>

definition loaded :: "sched \<Rightarrow> bool" where
  "loaded s \<longleftrightarrow> fresh s \<and> cr3 (pg s) = KERNEL_PD \<and> kmap (ram (pg s)) KERNEL_PD \<and> ptab (ram (pg s)) KERNEL_PD = KERNEL_PT"

definition with_memory :: "sched \<Rightarrow> bool" where
  "with_memory s \<longleftrightarrow> fresh s \<and> boot_tables (pg s) \<and> heap_ok (sheap s) [(0xFFFF4, True)]"

definition with_paging :: "sched \<Rightarrow> bool" where
  "with_paging s \<longleftrightarrow> fresh s \<and> heap_ok (sheap s) [(0xFFFF4, True)]"

definition populated :: "nat \<Rightarrow> (nat \<times> bool) list \<Rightarrow> sched \<Rightarrow> bool" where
  "populated n bs s \<longleftrightarrow> sched_inv s \<and> next_pid s = of_nat (Suc n) \<and> unat (task_count s) \<le> n \<and> heap_ok (sheap s) bs"

lemma kheap_init_frame:
  assumes "unat x < 0x300000"
  shows "hram (kheap_init h) x = hram h x"
proof -
  have "store32 m a v x = m x" if "a \<in> {0x300000, 0x300004, 0x300008}" for m a v
    using store_nat_outside [of "unat a" "unat x" m v] assms that by auto
  then show ?thesis
    by (simp add: kheap_init_def set_size_def set_free_def set_next_def Let_def HEAP_START_def)
qed

lemma completes_memory: "completes (kat (\<lambda>s v. loaded s)) boot_memory (kat (\<lambda>s v. with_memory s))"
  unfolding boot_memory_def
proof (rule completes_sched, intro exI conjI)
  fix s v assume s: "loaded s"
  let ?h = "kheap_init \<lparr>hram = ram (pg s), heap_head = hhead s\<rparr>"
  let ?s = "s\<lparr>pg := (pg s)\<lparr>mm := mm_init (mm (pg s)), ram := hram ?h\<rparr>, hhead := heap_head ?h\<rparr>"
  show "(let p = (pg s)\<lparr>mm := mm_init (mm (pg s))\<rparr>; h = kheap_init \<lparr>hram = ram p, heap_head = hhead s\<rparr>
     in Some (s\<lparr>pg := p\<lparr>ram := hram h\<rparr>, hhead := heap_head h\<rparr>)) = Some ?s"
    by (simp add: Let_def)
  have low: "hram ?h x = ram (pg s) x" if "fbase x = KERNEL_PT \<or> fbase x = KERNEL_PD" for x
  proof -
    have "unat x div 4096 * 4096 \<in> {0x9000, 0xA000}"
      using that unat_fbase [of x] by (auto simp: pg_consts)
    then have "unat x < 0x300000" by auto
    from kheap_init_frame [OF this] show ?thesis by simp
  qed
  have "kmap (hram ?h) KERNEL_PD" "ptab (hram ?h) KERNEL_PD = ptab (ram (pg s)) KERNEL_PD"
    by (rule kmap_outside [of "ram (pg s)"]; use s low in \<open>auto simp: loaded_def\<close>)+
  with s have "kmap (hram ?h) KERNEL_PD" "ptab (hram ?h) KERNEL_PD = KERNEL_PT"
    by (simp_all add: loaded_def)
  moreover have "heap_ok (sheap ?s) [(0xFFFF4, True)]"
    using kheap_init_ok [of "\<lparr>hram = ram (pg s), heap_head = hhead s\<rparr>"] by (simp add: sheap_def heap_ok_def)
  ultimately show "with_memory ?s"
    using s by (simp add: with_memory_def loaded_def fresh_def boot_tables_def mm_init_ok free_set_mm_init)
      (simp add: pg_consts fno_def)
qed

lemma completes_paging: "completes (kat (\<lambda>s v. with_memory s)) (boot_paging b) (kat (\<lambda>s v. with_paging s))"
  unfolding boot_paging_def
proof (rule completes_sched)
  fix s v assume s: "with_memory s"
  then have "boot_tables (pg s)" by (simp add: with_memory_def)
  then obtain p where p: "paging_init (cpuid_max b) (cpuid_leaf7 b) (pg s) = Some p"
    "\<forall>x. fbase x \<noteq> KERNEL_PT \<and> fbase x \<noteq> KERNEL_PD \<longrightarrow> ram p x = ram (pg s) x"
    by (rule paging_init_spec) (rule that)
  have heap: "ram p (of_nat x) = ram (pg s) (of_nat x)" if "0x300000 \<le> x" "x < 0x400000" for x
  proof -
    have "unat (fbase (of_nat x)) = x div 4096 * 4096"
      using that by (simp add: unat_fbase unat_of_nat32)
    then have "unat (fbase (of_nat x)) \<noteq> 0x9000" "unat (fbase (of_nat x)) \<noteq> 0xA000"
      using that by auto
    then have "fbase (of_nat x) \<noteq> KERNEL_PT" "fbase (of_nat x) \<noteq> KERNEL_PD"
      by (auto simp: pg_consts)
    then show ?thesis using p(2) by blast
  qed
  have "heap_ok (sheap (s\<lparr>pg := p\<rparr>)) [(0xFFFF4, True)]"
    using s heap_at_cong [of "ram (pg s)" "0x300000" "[(0xFFFF4, True)]" "ram p"] heap
    by (simp add: with_memory_def heap_ok_def sheap_def del: heap_at.simps)
  with s show "\<exists>s'. map_option (\<lambda>p. s\<lparr>pg := p\<rparr>) (paging_init (cpuid_max b) (cpuid_leaf7 b) (pg s)) = Some s' \<and> with_paging s'"
    using p(1) by (simp add: with_memory_def with_paging_def fresh_def)
qed

lemma completes_user: "completes (kat (\<lambda>s v. with_paging s)) (boot_user dev b) (kat (\<lambda>s v. with_paging s))"
proof -
  have 1: "completes (kat (\<lambda>s v. with_paging s)) (\<lambda>c. case user_init x y (gdt_tab c) of
      (t, gdt, sel) \<Rightarrow> Inr (c\<lparr>tss_seg := t, gdt_tab := gdt, task_reg := sel\<rparr>)) (kat (\<lambda>s v. with_paging s))" for x y
    by (rule completes_quiet) (simp split: prod.splits)
  have 2: "completes (kat (\<lambda>s v. with_paging s)) (on_sched (\<lambda>s. Some (s\<lparr>tss_esp0 := x\<rparr>))) (kat (\<lambda>s v. with_paging s))" for x
    by (rule completes_sched) (simp add: with_paging_def fresh_def sheap_def)
  have 3: "completes (kat (\<lambda>s v. with_paging s))
      (klog dev ''user: TSS ready (ring0 stack 0x%x, ring3 supported)'' (\<lambda>k. [Word (tss_esp0 (ks k))])) (kat (\<lambda>s v. with_paging s))"
    by (rule completes_klog) (simp add: ln_def lit_def)
  show ?thesis
    unfolding boot_user_def by (rule completes_Cons [OF 1] completes_Cons [OF 2] completes_Cons [OF 3] completes_Nil)+
qed

lemma completes_disk:
  assumes "no_disk dev"
  shows "completes (kat (\<lambda>s v. P s)) (boot_disk dev) (kat (\<lambda>s v. P s \<and> \<not> mounted v))"
proof -
  have plain: "completes (kat Q) (klog dev t (\<lambda>k. [])) (kat Q)" if "prints (ln t) []" for t Q
    by (rule completes_klog) (rule that)
  have again: "completes (kat (\<lambda>s v. P s \<and> \<not> present (drv v))) (probe_disk dev) (kat (\<lambda>s v. P s \<and> \<not> present (drv v)))"
    by (rule completes_strengthen [OF completes_probe [OF assms]]) (simp add: kat_def)
  show ?thesis
    unfolding boot_disk_def
    by (rule completes_Cons completes_probe [OF assms] completes_choice plain again completes_mount completes_Nil
        | simp add: ln_def lit_def)+
qed

subsection \<open>The first tasks\<close>

lemma task_create_has:
  assumes "task_create n fn s = Some (p, s')" and "p \<noteq> 0" and "sched_inv s" and "next_pid s < minus1"
    and "heap_ok (sheap s) bs"
  shows "has_task p n s'" and "has_task q m s \<Longrightarrow> has_task q m s'"
proof -
  obtain k where k: "unat k < 16" "\<not> ready (task_at s k)" "ready (task_at s' k)" "pid (task_at s' k) = p"
    "flags (task_at s' k) = TASK_KERNEL" "tname (task_at s' k) = set_name n (replicate 16 0)"
    "\<And>j. j \<noteq> k \<Longrightarrow> task_at s' j = task_at s j"
    by (rule task_create_spec [OF assms(3-5), of n fn]) (use assms(1,2) in auto)
  then show "has_task p n s'" by (auto simp: has_task_def)
  assume "has_task q m s"
  then obtain j where "unat j < 16" "ready (task_at s j)" "pid (task_at s j) = q"
    "tname (task_at s j) = set_name m (replicate 16 0)" "flags (task_at s j) = TASK_KERNEL"
    by (auto simp: has_task_def)
  moreover from this have "task_at s' j = task_at s j" using k(2,7) by metis
  ultimately show "has_task q m s'" by (auto simp: has_task_def intro: exI [of _ j])
qed

lemma completes_create:
  assumes "ff_alloc 0x4000 bs = Some (i, bs1)" and "ff_alloc 0x2000 bs1 = Some (j, bs2)"
    and "{0x300000 + i + 12 ..< 0x300000 + i + 12 + 0x4000} \<subseteq> used_at 0x300000 bs2" and "i mod 4 = 0"
    and "0x300000 + i + 12 + 0x4000 \<le> 0x400000" and "j < 0x100000" and "0 < k" "k < 16"
  shows "completes (kat (\<lambda>s v. populated k bs s \<and> T s \<and> V v)) (on_sched (\<lambda>s. map_option snd (task_create n fn s)))
    (kat (\<lambda>s v. populated (Suc k) bs2 s \<and> has_task (of_nat (Suc k)) n s \<and> (\<exists>s0. T s0 \<and> (\<forall>q m. has_task q m s0 \<longrightarrow> has_task q m s)) \<and> V v))"
proof (rule completes_sched)
  fix s v assume s: "populated k bs s \<and> T s \<and> V v"
  have p: "unat (next_pid s) = Suc k"
    using s assms(8) by (simp add: populated_def unat_of_nat32 del: of_nat_Suc)
  then have lt: "next_pid s < minus1" "next_pid s \<noteq> 0"
    using assms(8) by (auto simp: word_less_nat_alt)
  from s have inv: "sched_inv s" "heap_ok (sheap s) bs" "unat (task_count s) < 16"
    using assms(8) by (simp_all add: populated_def)
  obtain s' where s': "task_create n fn s = Some (next_pid s, s')" "heap_ok (sheap s') bs2"
    "unat (task_count s') \<le> Suc (unat (task_count s))" "next_pid s' = next_pid s + 1"
    by (rule task_create_fits [OF inv(1) lt(1) inv(3,2) assms(1-6), of n fn]) (rule that)
  have "sched_inv s'" using task_create_inv [OF s'(1)] inv(1) lt(1) by simp
  moreover have "next_pid s' = of_nat (Suc (Suc k))" using s s'(4) by (simp add: populated_def)
  ultimately have "populated (Suc k) bs2 s'" using s s'(2,3) by (auto simp: populated_def)
  moreover have "has_task (of_nat (Suc k)) n s'" "\<forall>q m. has_task q m s \<longrightarrow> has_task q m s'"
    using task_create_has [OF s'(1) lt(2) inv(1) lt(1) inv(2)] s by (auto simp: populated_def)
  ultimately show "\<exists>s'. map_option snd (task_create n fn s) = Some s' \<and> populated (Suc k) bs2 s' \<and> has_task (of_nat (Suc k)) n s' \<and>
      (\<exists>s0. T s0 \<and> (\<forall>q m. has_task q m s0 \<longrightarrow> has_task q m s')) \<and> V v"
    using s s'(1) by auto
qed

lemma adopt_has: "next_pid s = 1 \<Longrightarrow> has_task 1 n (snd (sched_adopt_current n (sched_init s)))"
  by (auto simp: has_task_def sched_adopt_current_def sched_init_def MAX_TASKS_def Let_def task_at_def upd_task_def zero_task_def
      intro!: exI [of _ 0])

lemma completes_adopt:
  "completes (kat (\<lambda>s v. with_paging s \<and> V v)) (on_sched (\<lambda>s. Some (snd (sched_adopt_current n (sched_init s)))))
     (kat (\<lambda>s v. populated 1 [(0xFFFF4, True)] s \<and> has_task 1 n s \<and> V v))"
proof (rule completes_sched, intro exI conjI)
  fix s v assume s: "with_paging s \<and> V v"
  let ?s = "snd (sched_adopt_current n (sched_init s))"
  show "Some ?s = Some ?s" "V v" using s by simp_all
  have p: "next_pid s = 1" using s by (simp add: with_paging_def fresh_def)
  then show "has_task 1 n ?s" by (rule adopt_has)
  have "sheap ?s = sheap s" "next_pid ?s = 2" "task_count ?s = 1"
    using p by (simp_all add: sched_adopt_current_def sched_init_def MAX_TASKS_def Let_def sheap_def upd_task_def)
  with s show "populated 1 [(0xFFFF4, True)] ?s"
    using sched_boot_inv [OF p] by (simp add: populated_def with_paging_def)
qed

lemma has_task_same: "same_table s s' \<Longrightarrow> has_task p n s' = has_task p n s"
  by (simp add: has_task_def task_at_def same_table_simps)

text \<open>The heap after the boot: the stacks and interrupt stacks of the two demonstration threads, and the rest.\<close>

definition boot_blocks :: "(nat \<times> bool) list" where
  "boot_blocks = [(0x4000, False), (0x2000, False), (0x4000, False), (0x2000, False), (0xF3FC4, True)]"

text \<open>Three tasks, a sound table, the heap of the boot, and no volume.\<close>

definition three_tasks :: "sched \<Rightarrow> fat \<Rightarrow> bool" where
  "three_tasks s v \<longleftrightarrow> sched_inv s \<and> next_pid s = 4 \<and> heap_ok (sheap s) boot_blocks \<and> \<not> mounted v \<and>
     has_task 1 (lit ''main'') s \<and> has_task 2 (lit ''demo-a'') s \<and> has_task 3 (lit ''demo-b'') s"

lemma three_tasks_same: "same_table s s' \<Longrightarrow> heap_ok (sheap s') boot_blocks \<Longrightarrow> three_tasks s v \<Longrightarrow> three_tasks s' v"
  by (simp add: three_tasks_def has_task_same sched_inv_same same_table_simps)

text \<open>The buffer for the missing program is cut from the free block and merges with it again.\<close>

lemma app_buffer:
  assumes "heap_ok s boot_blocks"
  obtains p h h2 where "kmalloc 16384 s = Some (p, h)" "p \<noteq> 0" "kfree p h = Some h2" "heap_ok h2 boot_blocks"
proof -
  let ?bs = "[(0x4000, False), (0x2000, False), (0x4000, False), (0x2000, False), (0x4000, False), (0xEFFB8, True)]"
  have al: "ff_alloc (round8 16384) boot_blocks = Some (0xC030, ?bs)" by (simp add: boot_blocks_def round8_def)
  obtain h where h: "kmalloc 16384 s = Some (of_nat (0x300000 + 0xC030 + 12), h)" "heap_ok h ?bs"
    using kmalloc_run [OF assms, of 16384] al by auto
  have b: "blk_at 0xC030 ?bs = Some (0x4000, False)" by simp
  have f: "ff_free 0xC030 ?bs = boot_blocks" by (simp add: boot_blocks_def)
  from kfree_spec [OF h(2) b] obtain h2 where "kfree (of_nat (0x300000 + 0xC030 + 12)) h = Some h2" "heap_ok h2 boot_blocks"
    unfolding f by blast
  then show thesis using h by (intro that [of "of_nat (0x300000 + 0xC030 + 12)" h h2]) simp_all
qed

lemma completes_plain: "prints (ln t) [] \<Longrightarrow> completes (kat P) (klog dev t (\<lambda>k. [])) (kat P)"
  by (rule completes_klog)

lemma completes_no_app: "completes (kat three_tasks) (try_load_user_app dev) (kat three_tasks)"
  unfolding completes_def
proof (intro allI impI)
  fix c :: computer assume c: "kat three_tasks c"
  let ?s = "ks (mkern (mach c))" and ?v = "kfat (mkern (mach c))"
  have t: "three_tasks ?s ?v" "heap_ok (sheap ?s) boot_blocks" "\<not> mounted ?v"
    using c by (simp_all add: kat_def three_tasks_def)
  obtain p h h2 where h: "kmalloc 16384 (sheap ?s) = Some (p, h)" "p \<noteq> 0" "kfree p h = Some h2" "heap_ok h2 boot_blocks"
    by (rule app_buffer [OF t(2)]) (rule that)
  let ?s1 = "?s\<lparr>pg := (pg ?s)\<lparr>ram := hram h\<rparr>, hhead := heap_head h\<rparr>"
  let ?c1 = "c\<lparr>mach := upd_mkern (\<lambda>k. k\<lparr>ks := ?s1\<rparr>) (mach c)\<rparr>"
  have m: "s_kmalloc 16384 ?s = Some (p, ?s1)" using h(1) by (simp add: s_kmalloc_def sheap_def)
  then have r: "k_malloc 16384 c = Inr (p, ?c1)" by (simp add: k_malloc_def)
  have h1: "sheap ?s1 = h" by (simp add: sheap_def)
  let ?s2 = "?s1\<lparr>pg := (pg ?s1)\<lparr>ram := hram h2\<rparr>, hhead := heap_head h2\<rparr>"
  have f: "s_kfree p ?s1 = Some ?s2"
    by (simp only: s_kfree_def sheap_def [symmetric] h1 h(3) option.map)
  have "same_table ?s ?s2"
    using same_table_ops(1) [OF m] same_table_ops(2) [OF f] by (auto simp: same_table_def)
  moreover have "sheap ?s2 = h2" by (simp add: sheap_def)
  ultimately have t2: "three_tasks ?s2 ?v" using h(4) by (intro three_tasks_same [OF _ _ t(1)]) simp_all
  have missing: "completes (kat (\<lambda>s v. s = ?s1 \<and> v = ?v))
        (klog dev ''user: hello.elf not found (attach data.img as IDE secondary master)'' (\<lambda>k. [])) (kat (\<lambda>s v. s = ?s1 \<and> v = ?v))"
    by (rule completes_plain) (simp add: ln_def lit_def)
  have "fat_read (lit ''hello.elf'') 16384 ?v = (None, ?v)"
    using t(3) by (simp add: fat_read_def)
  then have "load_hello dev p ?c1 = run_all [on_kernel (\<lambda>k. k\<lparr>kfat := ?v\<rparr>),
      klog dev ''user: hello.elf not found (attach data.img as IDE secondary master)'' (\<lambda>k. [])] ?c1"
    by (simp add: load_hello_def Let_def on_kernel_def on_mach_def)
  moreover have "completes ((=) ?c1) (on_kernel (\<lambda>k. k\<lparr>kfat := ?v\<rparr>)) (kat (\<lambda>s v. s = ?s1 \<and> v = ?v))"
    by (simp add: completes_def on_kernel_def on_mach_def kat_def)
  note completes_Cons [OF this completes_Cons [OF missing completes_Nil]]
  ultimately have l: "completes ((=) ?c1) (load_hello dev p) (kat (\<lambda>s v. s = ?s1 \<and> v = ?v))"
    by (simp add: completes_def)
  have "completes (kat (\<lambda>s v. s = ?s1 \<and> v = ?v)) (on_sched (s_kfree p)) (kat three_tasks)"
    by (rule completes_sched) (use f t2 in auto)
  from completes_Cons [OF l completes_Cons [OF this completes_Nil]] h(2) r
  show "\<exists>c'. try_load_user_app dev c = Inr c' \<and> kat three_tasks c'"
    by (simp add: try_load_user_app_def completes_def)
qed

lemma completes_tasks:
  "completes (kat (\<lambda>s v. with_paging s \<and> \<not> mounted v)) (boot_tasks dev b) (kat three_tasks)"
proof -
  let ?b1 = "[(0x4000, False), (0x2000, False), (0xF9FDC, True)]"
  let ?b2 = "[(0x4000, False), (0x2000, False), (0x4000, False), (0x2000, False), (0xF3FC4, True)]"
  have 1: "completes (kat (\<lambda>s v. populated 1 [(0xFFFF4, True)] s \<and> has_task 1 (lit ''main'') s \<and> \<not> mounted v))
      (on_sched (\<lambda>s. map_option snd (task_create (lit ''demo-a'') (task_a b) s)))
      (kat (\<lambda>s v. populated 2 ?b1 s \<and> (has_task 1 (lit ''main'') s \<and> has_task 2 (lit ''demo-a'') s) \<and> \<not> mounted v))"
    by (rule completes_weaken [OF completes_create [where i = 0 and j = "0x400C"]])
      (auto simp: kat_def numeral_2_eq_2)
  have 2: "completes (kat (\<lambda>s v. populated 2 ?b1 s \<and> (has_task 1 (lit ''main'') s \<and> has_task 2 (lit ''demo-a'') s) \<and> \<not> mounted v))
      (on_sched (\<lambda>s. map_option snd (task_create (lit ''demo-b'') (task_b b) s)))
      (kat (\<lambda>s v. populated 3 ?b2 s \<and> (has_task 1 (lit ''main'') s \<and> has_task 2 (lit ''demo-a'') s) \<and>
        has_task 3 (lit ''demo-b'') s \<and> \<not> mounted v))"
    by (rule completes_weaken [OF completes_create [where i = "0x6018" and j = "0xA024"]])
      (auto simp: kat_def numeral_2_eq_2 numeral_3_eq_3)
  have 3: "completes (kat (\<lambda>s v. populated 3 ?b2 s \<and> (has_task 1 (lit ''main'') s \<and> has_task 2 (lit ''demo-a'') s) \<and>
        has_task 3 (lit ''demo-b'') s \<and> \<not> mounted v)) (try_load_user_app dev) (kat three_tasks)"
    by (rule completes_strengthen [OF completes_no_app])
      (auto simp: kat_def three_tasks_def populated_def boot_blocks_def)
  have 4: "completes (kat three_tasks) (klog dev ''sched: %u tasks ready'' (\<lambda>k. [Word (of_nat (sched_task_count (ks k)))])) (kat three_tasks)"
    by (rule completes_klog) (simp add: ln_def lit_def)
  show ?thesis
    unfolding boot_tasks_def
    by (rule completes_Cons [OF completes_adopt] completes_Cons [OF 1] completes_Cons [OF 2] completes_Cons [OF 3]
        completes_Cons [OF 4] completes_Nil)+
qed

lemma completes_greeting: "completes (kat three_tasks) (greeting dev) (kat three_tasks)"
proof -
  have w: "completes (kat three_tasks) (klog dev ''shell: enter main loop (pid %u)'' (\<lambda>k. [Word (sched_current_pid (ks k))])) (kat three_tasks)"
    by (rule completes_klog) (simp add: ln_def lit_def)
  show ?thesis
    unfolding greeting_def
    by (rule completes_Cons completes_plain w completes_Nil | simp add: ln_def lit_def)+
qed

lemma kernel_boot_completes:
  assumes "no_disk dev"
  shows "completes (kat (\<lambda>s v. loaded s)) (kernel_boot dev b) (kat three_tasks)"
proof -
  have mem: "completes (kat P) (klog dev ''memory: phys free %u KB, heap 0x%x-0x%x''
        (\<lambda>k. [Word (of_nat (mm_free_frames (mm (upg k))) * 4), Word HEAP_START, Word HEAP_END])) (kat P)" for P
    by (rule completes_klog) (simp add: ln_def lit_def)
  show ?thesis
    unfolding kernel_boot_def
    by (rule completes_Cons [OF completes_memory] completes_Cons [OF completes_paging] completes_Cons [OF completes_user]
        completes_Cons [OF completes_disk [OF assms]] completes_Cons [OF completes_tasks] completes_Cons [OF completes_greeting]
        completes_Cons [OF mem] completes_Cons [OF completes_plain] completes_Cons [OF completes_devices(1)]
        completes_Cons [OF completes_devices(2)] completes_Cons [OF completes_devices(3)] completes_Cons [OF completes_devices(4)]
        completes_Cons [OF completes_devices(5)] completes_Cons [OF completes_devices(6)] completes_Cons [OF completes_devices(7)]
        completes_Nil | simp add: ln_def lit_def)+
qed

text \<open>The machine as the boot loader leaves it: its page tables, and every variable of the kernel as it starts.\<close>

definition cold :: "computer \<Rightarrow> bool" where
  "cold c \<longleftrightarrow> loaded (ks (mkern (mach c))) \<and> files_ok (ofiles (mkern (mach c))) \<and>
     kb_ok (dkbd (mdesk (mach c))) \<and> on_screen (dmouse (mdesk (mach c)))"

lemma cold_stage: "cold c \<Longrightarrow> stage (handlers (mach c)) (idt_tab c) fresh c"
  by (simp add: cold_def stage_def loaded_def)

lemma boot_ends:
  assumes "no_disk dev" and "cold c"
  obtains c' where "kernel_boot dev b c = Inr c'" "kat three_tasks c'"
proof -
  have "kat (\<lambda>s v. loaded s) c" using assms(2) by (simp add: kat_def cold_def)
  then show thesis using kernel_boot_completes [OF assms(1), of b] that by (auto simp: completes_def)
qed

text \<open>C37: The kernel boots.  On a machine without a data disk, from the state the boot loader leaves, every step
  of \<open>kernel_main\<close> up to the shell ends without a fault: the boot thread and the two
  demonstration threads are ready in the task table under the process numbers 1, 2 and 3, the
  heap holds their stacks and nothing else, all that was borrowed for the missing program given back, the timer,
  keyboard and mouse handlers are installed on their lines, and the gates are those of \<open>idt_init\<close>.\<close>

theorem kernel_boots:
  assumes "no_disk dev" and "cold c"
  shows "\<exists>c'. kernel_boot dev b c = Inr c' \<and>
    (let s = ks (mkern (mach c')) in
       sched_inv s \<and> next_pid s = 4 \<and> has_task 1 (lit ''main'') s \<and> has_task 2 (lit ''demo-a'') s \<and>
       has_task 3 (lit ''demo-b'') s \<and> heap_ok (sheap s) boot_blocks) \<and>
    handlers (mach c') = boot_handlers \<and> idt_tab c' = idt_init (stubs b) \<and> \<not> fat_mounted (kfat (mkern (mach c')))"
proof -
  obtain c' where c': "kernel_boot dev b c = Inr c'" "kat three_tasks c'"
    by (rule boot_ends [OF assms]) (rule that)
  have "stage boot_handlers (idt_init (stubs b)) (live 5) c'"
    by (rule tripleD [OF kernel_boot_stage cold_stage [OF assms(2)] c'(1)])
  with c' show ?thesis
    by (auto simp: stage_def kat_def three_tasks_def fat_mounted_def Let_def)
qed

definition bare_dev :: device where
  "bare_dev = \<lparr>rd8 = (\<lambda>h p. 0xFF), rd16 = (\<lambda>h p. 0xFFFF)\<rparr>"

definition cold_computer :: computer where
  "cold_computer = \<lparr>
     mach = \<lparr>mdesk = blank_desk\<lparr>dkbd := boot_kbd, kern := (file_kernel closed_file)\<lparr>ks := fresh_sched boot_pg\<rparr>\<rparr>,
             handlers = replicate 16 None, isr_table = replicate 256 None\<rparr>,
     gdt_tab = [], gdtr = (0, 0), idt_tab = [], idtr = (0, 0), tss_seg = \<lparr>ss0 = 0, esp0 = 0\<rparr>, task_reg = 0\<rparr>"

lemma cold_computer: "cold cold_computer" "no_disk bare_dev"
proof -
  have "file_ok closed_file" by (simp add: closed_file_def file_ok_def)
  then show "cold cold_computer"
    using boot_pg_ok file_kernel_ok [of closed_file]
    by (simp add: cold_def cold_computer_def loaded_def fresh_def fresh_sched_def boot_tables_def blank_desk_def mkern_def
        kb_ok_def boot_kbd_def on_screen_def)
qed (simp add: no_disk_def bare_dev_def)

definition some_build :: build where
  "some_build = \<lparr>stubs = map of_nat [0x100000 ..< 0x100031], gdt_addr = 0x110000, idt_addr = 0x110100, tss_addr = 0x111000,
     sys_stack = 0x114000, task_a = 0x102000, task_b = 0x102100, cpuid_max = 7, cpuid_leaf7 = 0x80\<rparr>"

theorem kernel_boots_witness:
  "\<exists>c'. kernel_boot bare_dev some_build cold_computer = Inr c' \<and> has_task 3 (lit ''demo-b'') (ks (mkern (mach c'))) \<and>
     handlers (mach c') ! 12 = Some Mouse_handler"
  using kernel_boots [OF cold_computer(2,1), of some_build] by (auto simp: Let_def boot_handlers_def)

end
