(* ===== verification/System.thy ===== *)
theory System
  imports Bringup
begin

section \<open>The running system\<close>

text \<open>
  The kernel from boot on: the shell, the desktop it starts, and the interrupts, in any order.
  Each of them changes the same state, and what the components promise separately, the task table
  of the scheduler, the open files of the system calls, the rings of the drivers, is shown
  to survive all of them together.
\<close>

definition desk_sound :: "desk \<Rightarrow> bool" where
  "desk_sound d \<longleftrightarrow> sched_inv (ks (kern d)) \<and> files_ok (ofiles (kern d)) \<and> kb_ok (dkbd d) \<and> on_screen (dmouse d)"

lemma machine_ok_desk: "machine_ok m = desk_sound (mdesk m)"
  by (simp add: machine_ok_def desk_sound_def mkern_def)

text \<open>What the invariants are about, in a desktop.\<close>

definition core :: "desk \<Rightarrow> sched \<times> open_file list \<times> kbd \<times> mouse" where
  "core d = (ks (kern d), ofiles (kern d), dkbd d, dmouse d)"

lemma desk_sound_core: "core d' = core d \<Longrightarrow> desk_sound d' = desk_sound d"
  by (simp add: core_def desk_sound_def)

subsection \<open>The desktop\<close>

lemma core_upd [simp]:
  "core (upd_win i f d) = core d" "core (d\<lparr>focus := x\<rparr>) = core d" "core (d\<lparr>drag := x\<rparr>) = core d"
  "core (d\<lparr>need_redraw := b\<rparr>) = core d" "core (d\<lparr>cascade := x\<rparr>) = core d" "core (d\<lparr>wins := ws\<rparr>) = core d"
  "core (d\<lparr>drag_dx := x\<rparr>) = core d" "core (d\<lparr>drag_dy := x\<rparr>) = core d"
  "core (d\<lparr>last_mx := x\<rparr>) = core d" "core (d\<lparr>last_my := x\<rparr>) = core d"
  by (simp_all add: core_def upd_win_def)

lemma core_kern [simp]: "ks k = ks (kern d) \<Longrightarrow> ofiles k = ofiles (kern d) \<Longrightarrow> core (d\<lparr>kern := k\<rparr>) = core d"
  by (simp add: core_def)

lemma core_windows [simp]:
  "core (win_raise i d) = core d" "core (snd (win_open t d)) = core d" "core (win_close i d) = core d"
  "core (on_click mx my d) = core d" "core (on_drag mx my d) = core d"
proof -
  show raise: "core (win_raise i d) = core d" for i d
    by (simp add: win_raise_def Let_def)
  show "core (snd (win_open t d)) = core d"
    by (simp add: win_open_def raise Let_def split: option.splits)
  show close: "core (win_close i d) = core d" for i d
    by (simp add: win_close_def Let_def)
  show "core (on_click mx my d) = core d"
    by (simp add: on_click_def raise close Let_def)
  show "core (on_drag mx my d) = core d"
    by (simp add: on_drag_def Let_def)
qed

lemma core_key [simp]: "core (snd (on_key c d)) = core d"
  by (simp add: on_key_def split: option.splits)

lemma label_core: "ks (label x y t fg k) = ks k" "ofiles (label x y t fg k) = ofiles k"
  by (simp_all add: label_def)

lemma label_num_core: "label_num x y fmt v fg k = Some k' \<Longrightarrow> ks k' = ks k \<and> ofiles k' = ofiles k"
  by (auto simp: label_num_def label_core)

lemma draw_window_core: "draw_window w k = Some k' \<Longrightarrow> ks k' = ks k \<and> ofiles k' = ofiles k"
  by (auto simp: draw_window_def win_draw_content_def Let_def bind_eq_Some_conv label_core
      split: wtype.splits if_splits prod.splits dest!: label_num_core)

lemma draw_unfocused_core: "draw_unfocused is d k = Some k' \<Longrightarrow> ks k' = ks k \<and> ofiles k' = ofiles k"
  by (induction "is" arbitrary: k) (auto simp: bind_eq_Some_conv split: if_splits dest!: draw_window_core)

lemma redraw_core:
  assumes "redraw_all d = Some d'"
  shows "core d' = core d"
proof -
  obtain k1 k2 s where "draw_unfocused [0 ..< MAX_WIN] d ((kern d)\<lparr>scr := grid (gfx_clear 0x01 (scr (kern d)))\<rparr>) = Some k1"
    and "(if 0 \<le> focus d \<and> w_used (win (focus d) d) then draw_window (win (focus d) d) k1 else Some k1) = Some k2"
    and d': "d' = d\<lparr>kern := k2\<lparr>scr := s\<rparr>\<rparr>"
    using assms unfolding redraw_all_def Let_def bind_eq_Some_conv option.inject by (elim exE conjE) blast
  then have "ks k1 = ks (kern d) \<and> ofiles k1 = ofiles (kern d)" "ks k2 = ks k1 \<and> ofiles k2 = ofiles k1"
    by (auto split: if_splits dest: draw_unfocused_core draw_window_core)
  then show ?thesis by (simp add: d')
qed

lemma repaint_core: "repaint mx my d = Some d' \<Longrightarrow> core d' = core d"
  by (auto simp: repaint_def Let_def bind_eq_Some_conv split: if_splits dest!: redraw_core)

lemma gui_frame_sound: "gui_frame d = Some (leave, d') \<Longrightarrow> desk_sound d \<Longrightarrow> desk_sound d'"
proof (erule gui_frame_rule, assumption)
  show "desk_sound (d\<lparr>dmouse := m\<rparr>)"
    if "desk_sound d" "m = snd (mouse_left_released (snd (mouse_left_clicked (dmouse d))))" for d m
    using that by (simp add: desk_sound_def mouse_left_clicked_def mouse_left_released_def on_screen_def)
  show "desk_sound (d\<lparr>dkbd := snd (keyboard_getc (dkbd d))\<rparr>)" if "desk_sound d" for d
    using that by (simp add: desk_sound_def kb_getc_ok)
qed (erule desk_sound_core [THEN iffD2, rotated], simp add: repaint_core)+

lemma gui_interrupt_sound: "desk_sound d \<Longrightarrow> desk_sound (gui_interrupt e d)"
  by (auto simp: gui_interrupt_def desk_sound_def keyboard_handler_ok mouse_handler_on_screen split: gui_irq.splits)

lemma gui_loop_sound: "gui_loop dev es d = Some (leave, d') \<Longrightarrow> desk_sound d \<Longrightarrow> desk_sound d'"
proof (erule gui_loop_rule, assumption)
  show "desk_sound (d\<lparr>kern := (kern d)\<lparr>scr := s\<rparr>\<rparr>)" if "desk_sound d" for d s
    using that by (simp add: desk_sound_def)
qed (erule gui_frame_sound gui_interrupt_sound, assumption?)+

lemma gui_start_core: "core (gui_start dev d) = core d"
  by (simp add: gui_start_def Let_def)

lemma gui_enter_sound: "gui_enter dev es d = Some (leave, d') \<Longrightarrow> desk_sound d \<Longrightarrow> desk_sound d'"
  unfolding gui_enter_def by (erule gui_loop_sound) (simp add: desk_sound_core [OF gui_start_core])

subsection \<open>The shell\<close>

text \<open>The second view of the shell's state: what the invariants of the kernel are about.\<close>

definition footprint :: "shell \<Rightarrow> task list \<times> u32 \<times> u32 \<times> u32 \<times> open_file list \<times> kbd \<times> mouse" where
  "footprint sh = (let s = ks (skern sh) in
     (tasks s, task_count s, current s, next_pid s, ofiles (skern sh), dkbd (sdesk sh), dmouse (sdesk sh)))"

interpretation foot: shell_view footprint
  by unfold_locales (simp_all add: footprint_def skern_def upd_kern_def Let_def same_table_simps)

lemma sound_footprint:
  "footprint sh' = footprint sh \<Longrightarrow> desk_sound (sdesk sh') = desk_sound (sdesk sh)"
  "footprint sh' = footprint sh \<Longrightarrow> next_pid (ks (skern sh')) = next_pid (ks (skern sh))"
  by (auto simp: footprint_def desk_sound_def skern_def Let_def sched_inv_def task_at_def)

lemma footprint_editor [simp]:
  "footprint (sh\<lparr>sline := l\<rparr>) = footprint sh" "footprint (sh\<lparr>line_len := n\<rparr>) = footprint sh"
  "footprint (sh\<lparr>hist := h\<rparr>) = footprint sh" "footprint (sh\<lparr>hist_count := k\<rparr>) = footprint sh"
  "footprint (sh\<lparr>hist_pos := p\<rparr>) = footprint sh"
  by (simp_all add: footprint_def skern_def)

lemma footprint_keys [simp]:
  "footprint (remember t sh) = footprint sh" "footprint (on_up dev sh) = footprint sh"
  "footprint (on_down dev sh) = footprint sh" "footprint (type_rest dev cs sh) = footprint sh"
  "footprint (complete dev sh) = footprint sh"
proof -
  show "footprint (remember t sh) = footprint sh"
    by (simp add: remember_def Let_def)
  have r: "footprint (recall h sh) = footprint sh" "footprint (measure_line sh) = footprint sh" for h sh
    by (simp_all add: recall_def measure_line_def)
  show "footprint (on_up dev sh) = footprint sh" "footprint (on_down dev sh) = footprint sh"
    by (simp_all add: on_up_def on_down_def r Let_def split: option.splits)
  show type: "footprint (type_rest dev cs sh) = footprint sh" for cs sh
    by (induction cs arbitrary: sh) simp_all
  show "footprint (complete dev sh) = footprint sh"
    by (auto simp: complete_def Let_def type split: prod.splits option.splits list.splits if_splits dest!: foot.view_fat)
qed

text \<open>While fewer than 2^32 - 2 processes have been made, another one fits.\<close>

definition pids_left :: "kernel \<Rightarrow> bool" where
  "pids_left k \<longleftrightarrow> next_pid (ks k) < 0xFFFFFFFE"

lemma spawn_sound:
  assumes "sh_spawn n img sz sh = Some (p, sh')" and "desk_sound (sdesk sh)" and "pids_left (skern sh)"
  shows "desk_sound (sdesk sh')"
proof -
  obtain s where s: "user_spawn n img sz (ks (skern sh)) = Some (p, s)" "sh' = upd_kern (\<lambda>k. k\<lparr>ks := s\<rparr>) sh"
    using assms(1) by (auto simp: sh_spawn_def)
  have "live (unat (next_pid (ks (skern sh)))) (ks (skern sh))"
    using assms(2) by (simp add: live_def desk_sound_def skern_def)
  moreover have "Suc (unat (next_pid (ks (skern sh)))) < 2 ^ 32 - 1"
    using assms(3) by (simp add: pids_left_def word_less_nat_alt)
  ultimately have "sched_inv s"
    using user_spawn_live [OF s(1)] by (auto simp: live_def)
  then show ?thesis
    using assms(2) by (simp add: s(2) upd_kern_def desk_sound_def)
qed

lemma command_sound:
  assumes "command dev es argv sh = Some sh'" and "desk_sound (sdesk sh)" and "pids_left (skern sh)"
  shows "desk_sound (sdesk sh')"
  using assms(1)
proof (cases rule: foot.view_command)
  case same
  from sound_footprint(1) [OF this] assms(2) show ?thesis by simp
next
  case (spawn sh1 n img sz c sh2)
  have "desk_sound (sdesk sh1)" "pids_left (skern sh1)"
    using sound_footprint [OF spawn(1)] assms(2,3) by (simp_all add: pids_left_def)
  with spawn(2) have "desk_sound (sdesk sh2)" by (rule spawn_sound)
  then show ?thesis using sound_footprint(1) [OF spawn(3)] by simp
next
  case gui
  then obtain l d where "gui_enter dev es (sdesk sh) = Some (l, d)"
    "sdesk sh' = d\<lparr>kern := (kern d)\<lparr>scr := vga_clear 0x0F (scr (kern d))\<rparr>\<rparr>"
    by (auto simp: run_gui_def upd_kern_def)
  with gui_enter_sound assms(2) show ?thesis by (auto simp: desk_sound_def)
qed

text \<open>A step of the editor that keeps the footprint keeps the invariant and the process numbers.\<close>

lemma sound_step:
  "footprint sh' = footprint sh \<Longrightarrow> desk_sound (sdesk sh) \<and> pids_left (skern sh) \<Longrightarrow>
   desk_sound (sdesk sh') \<and> pids_left (skern sh')"
  using sound_footprint [of sh' sh] by (simp add: pids_left_def)

lemma execute_sound:
  assumes "execute dev es sh = Some (b, sh')" and "desk_sound (sdesk sh) \<and> pids_left (skern sh)"
  shows "desk_sound (sdesk sh')"
proof -
  obtain ps l where s: "split (sline sh) = (ps, l)" by fastforce
  have l: "desk_sound (sdesk (sh\<lparr>sline := l\<rparr>)) \<and> pids_left (skern (sh\<lparr>sline := l\<rparr>))"
    using assms(2) by (simp add: skern_def)
  have "footprint (upd_kern (\<lambda>k. k\<lparr>scr := on_ports (outb 0x64 0xFE) (scr k)\<rparr>) (err dev (ln ''rebooting...'') (sh\<lparr>sline := l\<rparr>)))
      = footprint (sh\<lparr>sline := l\<rparr>)"
    by simp
  from sound_step [OF this l] l assms(1) show ?thesis
    by (auto simp: execute_def s Let_def split: if_splits dest: command_sound)
qed

lemma on_enter_sound:
  assumes "on_enter dev es sh = Some (b, sh')" and "desk_sound (sdesk sh) \<and> pids_left (skern sh)"
  shows "desk_sound (sdesk sh')"
proof -
  define s1 where "s1 = say dev [0x0A] 0x0F sh"
  define s2 where "s2 = s1\<lparr>sline := (sline s1)[line_len s1 := 0]\<rparr>"
  define s3 where "s3 = remember (cstring (sline s2)) s2"
  have "footprint s3 = footprint sh" by (simp add: s1_def s2_def s3_def)
  note s3 = sound_step [OF this assms(2)]
  from assms(1) obtain b' s4 where e: "execute dev es s3 = Some (b', s4)"
    and r: "sh' = (if b' then s4 else prompt dev (s4\<lparr>line_len := 0, hist_pos := -1\<rparr>))"
    unfolding on_enter_def Let_def s3_def s2_def s1_def by (auto split: option.splits bool.splits prod.splits)
  have "footprint sh' = footprint s4" by (simp add: r)
  then show ?thesis using execute_sound [OF e s3] sound_footprint(1) [of sh' s4] by simp
qed

lemma shell_key_sound:
  assumes "shell_key dev es c sh = Some (b, sh')" and "desk_sound (sdesk sh) \<and> pids_left (skern sh)"
  shows "desk_sound (sdesk sh')"
proof -
  have "footprint sh' = footprint sh \<or> on_enter dev es sh = Some (b, sh')"
    using assms(1) unfolding shell_key_def Let_def by (auto split: if_splits)
  then show ?thesis
    using assms(2) on_enter_sound sound_footprint(1) [of sh' sh] by blast
qed

lemma shell_turn_sound:
  assumes "shell_turn dev es sh = Some (b, sh')" and "desk_sound (sdesk sh) \<and> pids_left (skern sh)"
  shows "desk_sound (sdesk sh')"
proof -
  obtain k s1 where k: "poll_keyboard sh = (k, s1)" by fastforce
  have s1: "desk_sound (sdesk s1) \<and> pids_left (skern s1)"
    using k assms(2) kb_getc_ok [of "dkbd (sdesk sh)"]
    by (auto simp: poll_keyboard_def desk_sound_def skern_def split: prod.splits)
  obtain c s2 where c: "(if k = 0 then poll_serial dev s1 else (uint k, s1)) = (c, s2)" by fastforce
  have "footprint s2 = footprint s1"
    using c by (auto simp: poll_serial_def footprint_def skern_def upd_kern_def split: if_splits prod.splits)
  note s2 = sound_step [OF this s1]
  have "shell_turn dev es sh = (if c \<le> 0 then Some (False, s2) else shell_key dev es c s2)"
    by (simp add: shell_turn_def k c)
  with assms(1) s2 show ?thesis
    by (auto split: if_splits dest: shell_key_sound)
qed

subsection \<open>Every state the system reaches\<close>

text \<open>
  A running system: the shell, whose desktop and kernel state is the live one, and the tables of the
  machine.  It moves by a turn of the shell's loop, by an interrupt of any kind with any frame, or
  by whatever the programs and threads do to memory between interrupts.
\<close>

type_synonym system = "shell \<times> computer"

inductive sys_step :: "device \<Rightarrow> system \<Rightarrow> system \<Rightarrow> bool" for dev where
  Turn: "pids_left (skern sh) \<Longrightarrow> shell_turn dev es sh = Some (rebooting, sh') \<Longrightarrow> sys_step dev (sh, c) (sh', c)"
| Interrupt: "pids_left (skern sh) \<Longrightarrow>
    isr_common_handler dev cr2 r ((mach c)\<lparr>mdesk := sdesk sh\<rparr>) = Inr (oc, m) \<Longrightarrow> oc \<noteq> Halted \<Longrightarrow>
    sys_step dev (sh, c) (sh\<lparr>sdesk := mdesk m\<rparr>, c\<lparr>mach := m\<rparr>)"
| Program: "sys_step dev (sh, c) (upd_kern (\<lambda>k. k\<lparr>ks := set_ram (\<lambda>_. ram') (ks k)\<rparr>) sh, c)"

inductive reached :: "device \<Rightarrow> build \<Rightarrow> system \<Rightarrow> bool" for dev b where
  Boot: "cold c \<Longrightarrow> kernel_boot dev b c = Inr c' \<Longrightarrow> editor_ok sh \<Longrightarrow>
    reached dev b (prompt dev (sh\<lparr>sdesk := mdesk (mach c')\<rparr>), c')"
| Step: "reached dev b x \<Longrightarrow> sys_step dev x y \<Longrightarrow> reached dev b y"

inductive_cases sys_stepE: "sys_step dev (sh, c) y"

text \<open>The tables of handlers and gates are written only while booting.\<close>

lemma run_handler_tables: "handlers (snd (run_handler dev h m)) = handlers m"
  by (auto simp: run_handler_def timer_handler_def read_data_def io_simps Let_def split: option.splits irq_handler.splits prod.splits)

lemma m_log_handlers: "m_log dev f as m = Inr m' \<Longrightarrow> handlers m' = handlers m"
  by (auto simp: m_log_def split: option.splits)

lemma m_show_handlers [simp]: "handlers (m_show t m) = handlers m"
  by (simp add: m_show_def)

lemma isr_handlers:
  assumes "isr_common_handler dev cr2 r m = Inr (oc, m')"
  shows "handlers m' = handlers m"
proof -
  have p: "panic dev n code eip cr2 m = Inr (oc, m') \<Longrightarrow> handlers m' = handlers m" for n code eip
    unfolding panic_def Let_def by (auto split: sum.splits if_splits dest!: m_log_handlers)
  have f: "user_page_fault dev code eip cr2 m = Inr (oc, m') \<Longrightarrow> handlers m' = handlers m" for code eip
    by (auto simp: user_page_fault_def split: sum.splits option.splits bool.splits dest!: m_log_handlers)
  have "handlers (snd (irq_dispatch dev r n m)) = handlers m" for n
    by (simp add: irq_dispatch_def Let_def m_ports_def m_enter_irq_def run_handler_tables)
  then have i: "irq_dispatch dev r n m = (oc, m') \<Longrightarrow> handlers m' = handlers m" for n
    by (metis snd_conv)
  show ?thesis
    using assms unfolding isr_common_handler_def Let_def
    by (auto simp: m_enter_irq_def split: if_splits sum.splits dest: p f i)
qed

definition system_ok :: "build \<Rightarrow> system \<Rightarrow> bool" where
  "system_ok b x = (case x of (sh, c) \<Rightarrow> desk_sound (sdesk sh) \<and> editor_ok sh \<and>
     handlers (mach c) = boot_handlers \<and> idt_tab c = idt_init (stubs b))"

lemma system_boot:
  assumes "cold c" and "kernel_boot dev b c = Inr c'" and "editor_ok sh"
  shows "system_ok b (prompt dev (sh\<lparr>sdesk := mdesk (mach c')\<rparr>), c')"
proof -
  let ?sh = "sh\<lparr>sdesk := mdesk (mach c')\<rparr>"
  have s: "stage boot_handlers (idt_init (stubs b)) (live 5) c'"
    by (rule tripleD [OF kernel_boot_stage cold_stage [OF assms(1)] assms(2)])
  have "desk_sound (sdesk ?sh)"
    using s by (simp add: stage_def live_def desk_sound_def mkern_def)
  then have "desk_sound (sdesk (prompt dev ?sh))"
    using sound_footprint(1) [of "prompt dev ?sh" ?sh] by simp
  moreover have "editor_ok ?sh"
    using assms(3) by (simp add: editor_ok_def)
  then have "editor_ok (prompt dev ?sh)"
    using editor_ok_ed [of "prompt dev ?sh" ?sh] by simp
  ultimately show ?thesis
    using s by (simp add: system_ok_def stage_def)
qed

lemma system_step:
  assumes "sys_step dev x y" and "system_ok b x"
  shows "system_ok b y"
  using assms
proof cases
  case (Turn sh es rebooting sh' c)
  with assms(2) shell_turn_sound [OF Turn(4)] shell_turn_ok [OF _ Turn(4)] show ?thesis
    by (simp add: system_ok_def)
next
  case (Interrupt sh cr2 r c oc m)
  let ?m = "(mach c)\<lparr>mdesk := sdesk sh\<rparr>"
  have "machine_ok ?m" "next_pid (ks (mkern ?m)) < minus1"
    using assms(2) Interrupt(1,3) by (simp_all add: system_ok_def machine_ok_desk mkern_def pids_left_def skern_def word_less_nat_alt)
  then have "machine_ok m"
    by (rule isr_ok [OF Interrupt(4,5)])
  moreover have "editor_ok (sh\<lparr>sdesk := mdesk m\<rparr>)"
    using assms(2) Interrupt(1) by (simp add: system_ok_def editor_ok_def)
  ultimately show ?thesis
    using assms(2) Interrupt(1,2) isr_handlers [OF Interrupt(4)] by (simp add: system_ok_def machine_ok_desk)
next
  case (Program sh c m)
  have "sched_inv (set_ram (\<lambda>_. m) s) = sched_inv s" for s
    by (rule sched_inv_cong) (simp_all add: set_ram_def)
  with Program assms(2) show ?thesis
    by (simp add: system_ok_def upd_kern_def desk_sound_def editor_ok_def)
qed

lemma system_reached: "reached dev b x \<Longrightarrow> system_ok b x"
  by (induction rule: reached.induct) (auto intro: system_boot system_step)



end
