(* ===== verification/Userland.thy ===== *)
theory Userland
  imports Syscall
begin

section \<open>User programs (userspace/hello.c, writer.c, init.c)\<close>

text \<open>
  The three programs that run in ring 3.  All they do to the outside is \<open>int 0x80\<close>, so a program
  is a computation over an operating system: a function that answers a request in its own state.
  A request carries the bytes a pointer argument designates, and an answer the value of \<open>eax\<close> with
  the bytes the call left in the caller's buffer.  \<open>exit\<close> is a program's last request: the
  loop after it in the sources is not reached.
\<close>

datatype request =
    Write u32 "u8 list"
  | Getpid
  | Exit u32
  | Fork
  | Open "u8 list" u32
  | Read u32 nat
  | Close u32
  | Sleep u32
  | Lseek u32 u32 u32
  | Stat "u8 list"

type_synonym 's os = "request \<Rightarrow> 's \<Rightarrow> (u32 \<times> u8 list) \<times> 's"

type_synonym ('s, 'a) prog = "('s, 'a) state"

definition syscall3 :: "'s os \<Rightarrow> request \<Rightarrow> ('s, u32 \<times> u8 list) prog" where
  "syscall3 os rq = State (os rq)"

definition call :: "'s os \<Rightarrow> request \<Rightarrow> ('s, u32) prog" where
  "call os rq = do { (r, _) \<leftarrow> syscall3 os rq; State_Monad.return r }"

definition endl :: "string \<Rightarrow> u8 list" where
  "endl t = lit t @ [0x0A]"

primrec each :: "('b \<Rightarrow> ('s, unit) prog) \<Rightarrow> 'b list \<Rightarrow> ('s, unit) prog" where
  "each f [] = State_Monad.return ()"
| "each f (x # xs) = do { f x; each f xs }"

subsection \<open>Printing\<close>

definition putstr :: "'s os \<Rightarrow> u8 list \<Rightarrow> ('s, unit) prog" where
  "putstr os t = do { call os (Write 1 t); State_Monad.return () }"

text \<open>The loop over \<open>v\<close> that fills \<open>d\<close>, least significant digit first.\<close>

function digits_loop :: "u32 \<Rightarrow> u8 list" where
  "digits_loop v = (if v = 0 then [] else (0x30 + ucast (v mod 10)) # digits_loop (v div 10))"
  by pat_completeness auto

termination
  by (relation "measure unat") (simp_all add: unat_div_less)

declare digits_loop.simps [simp del]

definition putu32 :: "'s os \<Rightarrow> u32 \<Rightarrow> ('s, unit) prog" where
  "putu32 os v =
     (let d = (if v = 0 then [0x30] else []) @ digits_loop v
      in each (\<lambda>c. putstr os [c]) (rev d))"

subsection \<open>hello.c\<close>

text \<open>The loop of \<open>cat_file\<close>; \<open>None\<close> is reading for ever.\<close>

partial_function (option) cat_loop :: "'s os \<Rightarrow> u32 \<Rightarrow> 's \<Rightarrow> 's option" where
  "cat_loop os fd s =
     (case os (Read fd 256) s of
        ((n, d), s) \<Rightarrow>
          if n = minus1 then Some (snd (run_state (putstr os (endl ''[ring3] read error'')) s))
          else if n = 0 then Some s
          else cat_loop os fd (snd (os (Write 1 (take (unat n) d)) s)))"

definition cat_file :: "'s os \<Rightarrow> u8 list \<Rightarrow> 's \<Rightarrow> 's option" where
  "cat_file os name s =
     (case os (Open name 0) s of
        ((fd, _), s) \<Rightarrow>
          if fd = minus1
          then Some (snd (run_state (do { putstr os (lit ''[ring3] open failed: ''); putstr os name; putstr os [0x0A] }) s))
          else map_option
                 (\<lambda>s. snd (run_state (do { call os (Close fd); putstr os ([0x0A] @ endl ''[ring3] --- end ---'') }) s))
                 (cat_loop os fd
                   (snd (run_state (do { putstr os (lit ''[ring3] --- ''); putstr os name; putstr os (endl '' ---'') }) s))))"

definition hello_start :: "'s os \<Rightarrow> ('s, u32) prog" where
  "hello_start os = do {
     me \<leftarrow> call os Getpid;
     putstr os (lit ''[ring3] pid='');
     putu32 os me;
     putstr os (endl '' hello from userland'');
     State_Monad.return me }"

text \<open>After the fork, in the child and in the parent; \<open>counter\<close> is \<open>g_counter\<close>.\<close>

definition hello_child :: "'s os \<Rightarrow> u32 \<Rightarrow> ('s, unit) prog" where
  "hello_child os counter = do {
     my \<leftarrow> call os Getpid;
     let counter = counter + 100;
     putstr os (lit ''[ring3-child] pid='');
     putu32 os my;
     putstr os (lit '' COW write ok, g_counter='');
     putu32 os counter;
     putstr os (endl '' (independent copy)'');
     putstr os (endl ''[ring3-child] exiting'');
     call os (Exit 0);
     State_Monad.return () }"

definition hello_parent :: "'s os \<Rightarrow> u32 \<Rightarrow> u32 \<Rightarrow> u32 \<Rightarrow> ('s, unit) prog" where
  "hello_parent os me child counter = do {
     let counter = counter + 1;
     putstr os (lit ''[ring3-parent] pid='');
     putu32 os me;
     putstr os (lit '' child pid='');
     putu32 os child;
     putstr os (lit '' COW write ok, g_counter='');
     putu32 os counter;
     putstr os (endl '' (independent copy)'');
     putstr os (endl ''[ring3-parent] yielding to let the child run...'');
     each (\<lambda>_. do { call os (Sleep 3); State_Monad.return () }) [0 ..< 30];
     putstr os (endl ''[ring3-parent] exiting'');
     call os (Exit 0);
     State_Monad.return () }"

definition hello_fork :: "'s os \<Rightarrow> u32 \<Rightarrow> ('s, unit) prog" where
  "hello_fork os me = do {
     putstr os (endl ''[ring3] sleeping 5 ticks...'');
     call os (Sleep 5);
     putstr os (endl ''[ring3] awake again'');
     putstr os (endl ''[ring3] forking...'');
     child \<leftarrow> call os Fork;
     (if child = 0 then hello_child os 7 else hello_parent os me child 7) }"

definition hello :: "'s os \<Rightarrow> 's \<Rightarrow> 's option" where
  "hello os s =
     (case run_state (hello_start os) s of
        (me, s) \<Rightarrow> map_option (\<lambda>s. snd (run_state (hello_fork os me) s)) (cat_file os (lit ''readme.txt'') s))"

subsection \<open>init.c\<close>

definition init_msg :: "u8 list" where
  "init_msg = endl ''Hello from NovaOS userland (pid via sys_getpid soon)''"

definition init :: "'s os \<Rightarrow> ('s, unit) prog" where
  "init os = do {
     call os (Write 1 (take 40 init_msg));
     call os (Exit 0);
     State_Monad.return () }"

subsection \<open>writer.c\<close>

text \<open>Strings end at their terminator, here the end of the list or a null character.\<close>

fun streq :: "u8 list \<Rightarrow> u8 list \<Rightarrow> bool" where
  "streq (x # xs) (y # ys) = (if x \<noteq> 0 \<and> y \<noteq> 0 \<and> x = y then streq xs ys else x = y)"
| "streq [] (y # ys) = (y = 0)"
| "streq (x # xs) [] = (x = 0)"
| "streq [] [] = True"

definition log_lines :: "u8 list list" where
  "log_lines = [endl ''novaos ring3 log'', endl ''written via int 0x80'', endl ''end of file'']"

text \<open>The write loop: the bytes written, or \<open>None\<close> at a short write.\<close>

primrec write_lines :: "'s os \<Rightarrow> u32 \<Rightarrow> u8 list list \<Rightarrow> u32 \<Rightarrow> ('s, u32 option) prog" where
  "write_lines os fd [] tot = State_Monad.return (Some tot)"
| "write_lines os fd (l # ls) tot = do {
     w \<leftarrow> call os (Write fd l);
     (if w \<noteq> of_nat (length l) then State_Monad.return None else write_lines os fd ls (tot + w)) }"

text \<open>What the program makes of the bytes it reads back.\<close>

definition read_back :: "'s os \<Rightarrow> u32 \<Rightarrow> ('s, unit) prog" where
  "read_back os fd = do {
     (got, buf) \<leftarrow> syscall3 os (Read fd 128);
     putstr os (lit ''[writer] read back '');
     putu32 os got;
     putstr os (endl '' bytes:'');
     (if got \<noteq> minus1 \<and> 0 < got then do {
        putstr os (endl ''----'');
        call os (Write 1 (take (unat got) (buf[unat (if got < 127 then got else 127) := 0])));
        putstr os (endl ''----'') }
      else State_Monad.return ()) }"

definition check_size :: "'s os \<Rightarrow> u8 list \<Rightarrow> u32 \<Rightarrow> ('s, unit) prog" where
  "check_size os name tot = do {
     (st, out) \<leftarrow> syscall3 os (Stat name);
     (if st = 0 then do {
        let size = le32 out 0;
        putstr os (lit ''[writer] stat: log.txt = '');
        putu32 os size;
        putstr os (endl '' bytes on disk'');
        (if size \<noteq> tot then putstr os (endl ''[writer] MISMATCH: size differs from what we wrote'')
         else putstr os (endl ''[writer] size matches what we wrote'')) }
      else putstr os (endl ''[writer] stat failed'')) }"

definition check_reopen :: "'s os \<Rightarrow> u8 list \<Rightarrow> u32 \<Rightarrow> ('s, unit) prog" where
  "check_reopen os name tot = do {
     fd2 \<leftarrow> call os (Open name 0);
     (if fd2 \<noteq> minus1 then do {
        (n, vb) \<leftarrow> syscall3 os (Read fd2 128);
        putstr os (lit ''[writer] reopen: read '');
        putu32 os n;
        putstr os (endl '' bytes'');
        call os (Close fd2);
        let same = (n = tot \<and> \<not> (n = 0 \<or> vb ! 0 \<noteq> 0x6E));
        putstr os (if same then endl ''[writer] content verified'' else endl ''[writer] content mismatch'') }
      else putstr os (endl ''[writer] reopen failed'')) }"

definition writer_verify :: "'s os \<Rightarrow> u32 \<Rightarrow> u8 list \<Rightarrow> u32 \<Rightarrow> ('s, unit) prog" where
  "writer_verify os fd name tot = do {
     putstr os (lit ''[writer] wrote '');
     putu32 os tot;
     putstr os (endl '' bytes'');
     pos \<leftarrow> call os (Lseek fd 0 0);
     putstr os (lit ''[writer] lseek -> '');
     putu32 os pos;
     putstr os [0x0A];
     read_back os fd;
     rc \<leftarrow> call os (Close fd);
     putstr os (lit ''[writer] close -> '');
     putu32 os rc;
     putstr os [0x0A];
     check_size os name tot;
     check_reopen os name tot;
     putstr os (endl ''[writer] leaving log.txt on disk for inspection'');
     putstr os (endl ''[writer] done'');
     call os (Exit 0);
     State_Monad.return () }"

definition writer :: "'s os \<Rightarrow> ('s, unit) prog" where
  "writer os = do {
     putstr os (lit ''[writer] pid='');
     me \<leftarrow> call os Getpid;
     putu32 os me;
     putstr os (endl '' ring-3 file writer'');
     let name = lit ''log.txt'';
     fd \<leftarrow> call os (Open name 7);
     (if fd = minus1 then do {
        putstr os (endl ''[writer] open(O_CREAT) failed'');
        call os (Exit 1);
        State_Monad.return () }
      else do {
        putstr os (lit ''[writer] created log.txt as fd='');
        putu32 os fd;
        putstr os [0x0A];
        w \<leftarrow> write_lines os fd log_lines 0;
        (case w of
           None \<Rightarrow> do {
             putstr os (endl ''[writer] short write!'');
             call os (Close fd);
             call os (Exit 2);
             State_Monad.return () }
         | Some tot \<Rightarrow> writer_verify os fd name tot) }) }"

subsection \<open>Printed numbers\<close>

lemma run_syscall3 [simp]: "run_state (syscall3 os rq) s = os rq s"
  by (simp add: syscall3_def)

lemma run_call: "run_state (call os rq) s = (fst (fst (os rq s)), snd (os rq s))"
  by (simp add: call_def run_state_bind split: prod.splits)

lemma run_putstr: "run_state (putstr os t) s = ((), snd (os (Write 1 t) s))"
  by (simp add: putstr_def run_state_bind run_call)

lemma dig_decimal: "unat d < 10 \<Longrightarrow> dig False d = 0x30 + ucast d"
proof -
  assume "unat d < 10"
  moreover define n where "n = unat d"
  ultimately have "n \<in> {0, 1, 2, 3, 4, 5, 6, 7, 8, 9}" by auto
  moreover have "d = of_nat n" by (simp add: n_def)
  ultimately show ?thesis by (auto simp: dig_def lit_def)
qed

lemma digits_loop_rev: "digits_loop v = rev_digits 10 False v"
proof (induction v rule: digits_loop.induct)
  case (1 v)
  have "unat (v mod 10) < 10" by (simp add: unat_mod)
  with 1 show ?case
    by (simp add: digits_loop.simps [of v] rev_digits.simps [of 10 False v] dig_decimal)
qed

text \<open>The digits \<open>putu32\<close> sends, one call each, are those the kernel's own \<open>%u\<close> prints.\<close>

lemma putu32_digits: "putu32 os v = each (\<lambda>c. putstr os [c]) (u32_to_str v 10 False)"
  by (simp add: putu32_def u32_to_str_def digits_loop_rev)

subsection \<open>Descriptors opened and closed\<close>

text \<open>The same operating system, with every request and its answer on record.\<close>

type_synonym record_of_calls = "(request \<times> u32) list"

definition traced :: "'s os \<Rightarrow> ('s \<times> record_of_calls) os" where
  "traced os rq x = (case x of (s, h) \<Rightarrow> case os rq s of ((r, d), s') \<Rightarrow> ((r, d), (s', h @ [(rq, r)])))"

definition opened_in :: "record_of_calls \<Rightarrow> u32 list" where
  "opened_in h = concat (map (\<lambda>(rq, r). case rq of Open _ _ \<Rightarrow> if r = minus1 then [] else [r] | _ \<Rightarrow> []) h)"

definition closed_in :: "record_of_calls \<Rightarrow> u32 list" where
  "closed_in h = concat (map (\<lambda>(rq, r). case rq of Close fd \<Rightarrow> [fd] | _ \<Rightarrow> []) h)"

definition silent :: "request \<Rightarrow> bool" where
  "silent rq = (case rq of Open _ _ \<Rightarrow> False | Close _ \<Rightarrow> False | _ \<Rightarrow> True)"

text \<open>\<open>moves p m Q\<close>: with the descriptors \<open>p\<close> open, \<open>m\<close> ends with \<open>Q r\<close> open when its result is \<open>r\<close>.\<close>

definition moves :: "u32 list \<Rightarrow> ('s \<times> record_of_calls, 'a) prog \<Rightarrow> ('a \<Rightarrow> u32 list) \<Rightarrow> bool" where
  "moves p m Q \<longleftrightarrow> (\<forall>s h. opened_in h = closed_in h @ p \<longrightarrow>
     (let (r, s', h') = run_state m (s, h) in opened_in h' = closed_in h' @ Q r))"

named_theorems moves_rules \<open>descriptors open after each statement\<close>

lemma moves_bind:
  assumes "moves p m R" and "\<And>r. moves (R r) (k r) Q"
  shows "moves p (State_Monad.bind m k) Q"
  unfolding moves_def
proof (intro allI impI)
  fix s h assume h: "opened_in h = closed_in h @ p"
  obtain r s1 h1 where m: "run_state m (s, h) = (r, s1, h1)" by (metis prod_cases3)
  then have "opened_in h1 = closed_in h1 @ R r"
    using assms(1) h unfolding moves_def by (metis (mono_tags, lifting) case_prod_conv)
  then show "let (r, s', h') = run_state (State_Monad.bind m k) (s, h) in opened_in h' = closed_in h' @ Q r"
    using assms(2) [of r] unfolding moves_def by (simp add: run_state_bind m)
qed

lemma movesD:
  "moves p m Q \<Longrightarrow> opened_in h = closed_in h @ p \<Longrightarrow>
   opened_in (snd (snd (run_state m (s, h)))) = closed_in (snd (snd (run_state m (s, h)))) @ Q (fst (run_state m (s, h)))"
  by (auto simp: moves_def Let_def case_prod_unfold)

lemma moves_case: "(\<And>a b. moves p (f a b) Q) \<Longrightarrow> moves p (case x of (a, b) \<Rightarrow> f a b) Q"
  by (cases x) simp

lemma silent_calls: "silent (Write fd b)" "silent Getpid" "silent (Exit c)" "silent Fork" "silent (Read fd n)"
  "silent (Sleep t)" "silent (Lseek fd a w)" "silent (Stat b)"
  by (simp_all add: silent_def)

lemma moves_return: "Q x = p \<Longrightarrow> moves p (State_Monad.return x) Q"
  by (simp add: moves_def)

lemma moves_syscall: "silent rq \<Longrightarrow> moves p (syscall3 (traced os) rq) (\<lambda>_. p)"
  by (cases rq) (auto simp: moves_def silent_def traced_def opened_in_def closed_in_def split: prod.splits)

lemma moves_call: "silent rq \<Longrightarrow> moves p (call (traced os) rq) (\<lambda>_. p)"
  by (cases rq) (auto simp: moves_def silent_def traced_def run_call opened_in_def closed_in_def split: prod.splits)

lemma moves_open: "moves [] (call (traced os) (Open n f)) (\<lambda>r. if r = minus1 then [] else [r])"
  by (auto simp: moves_def traced_def run_call opened_in_def closed_in_def split: prod.splits)

lemma moves_close: "moves [fd] (call (traced os) (Close fd)) (\<lambda>_. [])"
  by (auto simp: moves_def traced_def run_call opened_in_def closed_in_def split: prod.splits)

lemma moves_putstr: "moves p (putstr (traced os) t) (\<lambda>_. p)"
  unfolding putstr_def by (rule moves_bind [OF moves_call] silent_calls moves_return refl)+

lemma moves_each: "(\<And>x. moves p (f x) (\<lambda>_. p)) \<Longrightarrow> moves p (each f xs) (\<lambda>_. p)"
  by (induction xs) (auto intro: moves_return moves_bind)

lemma moves_putu32: "moves p (putu32 (traced os) v) (\<lambda>_. p)"
  unfolding putu32_digits by (rule moves_each, rule moves_putstr)

lemma moves_if: "(c \<Longrightarrow> moves p m Q) \<Longrightarrow> (\<not> c \<Longrightarrow> moves p k Q) \<Longrightarrow> moves p (if c then m else k) Q"
  by simp

lemma moves_write_lines: "moves p (write_lines (traced os) fd ls tot) (\<lambda>_. p)"
proof (induction ls arbitrary: tot)
  case (Cons l ls)
  show ?case
    unfolding write_lines.simps
    by (rule moves_bind [OF moves_call] silent_calls moves_if moves_return Cons.IH refl)+
qed (simp add: moves_return)

lemmas moves_print = moves_bind [OF moves_putstr] moves_bind [OF moves_putu32] moves_putstr moves_putu32

lemma moves_read_back: "moves p (read_back (traced os) fd) (\<lambda>_. p)"
  unfolding read_back_def
  by (rule moves_bind [OF moves_syscall] silent_calls moves_case moves_print moves_bind [OF moves_call] moves_if
      moves_return refl)+

lemma moves_check_size: "moves p (check_size (traced os) n tot) (\<lambda>_. p)"
  unfolding check_size_def Let_def
  by (rule moves_bind [OF moves_syscall] silent_calls moves_case moves_print moves_if moves_return refl)+

lemma moves_check_reopen: "moves [] (check_reopen (traced os) n tot) (\<lambda>_. [])"
  unfolding check_reopen_def
proof (rule moves_bind [OF moves_open], rule moves_if)
  fix fd assume fd: "fd \<noteq> minus1"
  show "moves (if fd = minus1 then [] else [fd]) (do {
        (m, vb) \<leftarrow> syscall3 (traced os) (Read fd 128);
        putstr (traced os) (lit ''[writer] reopen: read '');
        putu32 (traced os) m;
        putstr (traced os) (endl '' bytes'');
        call (traced os) (Close fd);
        let same = (m = tot \<and> \<not> (m = 0 \<or> vb ! 0 \<noteq> 0x6E));
        putstr (traced os) (if same then endl ''[writer] content verified'' else endl ''[writer] content mismatch'') }) (\<lambda>_. [])"
    unfolding Let_def if_not_P [OF fd]
    by (rule moves_bind [OF moves_syscall] silent_calls moves_case moves_print moves_bind [OF moves_close])+
qed (simp add: moves_putstr)

lemma moves_writer: "moves [] (writer (traced os)) (\<lambda>_. [])"
proof -
  have verify: "moves [fd] (writer_verify (traced os) fd n tot) (\<lambda>_. [])" for fd n tot
    unfolding writer_verify_def
    by (rule moves_print moves_bind [OF moves_read_back] moves_bind [OF moves_close] moves_bind [OF moves_check_size]
        moves_bind [OF moves_check_reopen] moves_bind [OF moves_call] silent_calls moves_return refl)+
  have short: "moves [fd] (do { putstr (traced os) (endl ''[writer] short write!''); call (traced os) (Close fd);
      call (traced os) (Exit 2); State_Monad.return () }) (\<lambda>_. [])" for fd
    by (rule moves_print moves_bind [OF moves_close] moves_bind [OF moves_call] silent_calls moves_return refl)+
  have failed: "moves [] (do { putstr (traced os) (endl ''[writer] open(O_CREAT) failed''); call (traced os) (Exit 1);
      State_Monad.return () }) (\<lambda>_. [])"
    by (rule moves_print moves_bind [OF moves_call] silent_calls moves_return refl)+
  have created: "moves [fd] (do { putstr (traced os) (lit ''[writer] created log.txt as fd=''); putu32 (traced os) fd;
      putstr (traced os) [0x0A]; w \<leftarrow> write_lines (traced os) fd log_lines 0;
      (case w of None \<Rightarrow> do { putstr (traced os) (endl ''[writer] short write!''); call (traced os) (Close fd);
          call (traced os) (Exit 2); State_Monad.return () }
       | Some tot \<Rightarrow> writer_verify (traced os) fd n tot) }) (\<lambda>_. [])" for fd n
  proof (rule moves_print moves_bind [OF moves_write_lines])+
    fix w :: "u32 option"
    show "moves [fd] (case w of None \<Rightarrow> do { putstr (traced os) (endl ''[writer] short write!''); call (traced os) (Close fd);
          call (traced os) (Exit 2); State_Monad.return () }
       | Some tot \<Rightarrow> writer_verify (traced os) fd n tot) (\<lambda>_. [])"
      by (cases w) (simp_all only: option.case short verify)
  qed
  show ?thesis
    unfolding writer_def Let_def
  proof (rule moves_print moves_bind [OF moves_open] moves_bind [OF moves_call] silent_calls)+
    fix fd :: u32
    show "moves (if fd = minus1 then [] else [fd]) (if fd = minus1
        then do { putstr (traced os) (endl ''[writer] open(O_CREAT) failed''); call (traced os) (Exit 1); State_Monad.return () }
        else do { putstr (traced os) (lit ''[writer] created log.txt as fd=''); putu32 (traced os) fd;
          putstr (traced os) [0x0A]; w \<leftarrow> write_lines (traced os) fd log_lines 0;
          (case w of None \<Rightarrow> do { putstr (traced os) (endl ''[writer] short write!''); call (traced os) (Close fd);
              call (traced os) (Exit 2); State_Monad.return () }
           | Some tot \<Rightarrow> writer_verify (traced os) fd (lit ''log.txt'') tot) }) (\<lambda>_. [])"
      using failed created by (cases "fd = minus1") (simp_all only: if_True if_False simp_thms)
  qed
qed

text \<open>A program that ends by exiting: its last request, on record, is \<open>exit\<close> with one of the codes.\<close>

definition exits :: "u32 set \<Rightarrow> ('s \<times> record_of_calls, unit) prog \<Rightarrow> bool" where
  "exits cs m \<longleftrightarrow> (\<forall>x. \<exists>s h c r. snd (run_state m x) = (s, h @ [(Exit c, r)]) \<and> c \<in> cs)"

lemma exits_bind: "(\<And>r. exits cs (k r)) \<Longrightarrow> exits cs (State_Monad.bind m k)"
  by (simp add: exits_def run_state_bind split: prod.splits)

lemma exits_now: "c \<in> cs \<Longrightarrow> exits cs (do { call (traced os) (Exit c); State_Monad.return () })"
  by (auto simp: exits_def run_state_bind run_call traced_def split: prod.splits)

lemma exits_if: "exits cs m \<Longrightarrow> exits cs k \<Longrightarrow> exits cs (if b then m else k)"
  by simp

lemma exits_option: "exits cs m \<Longrightarrow> (\<And>x. exits cs (k x)) \<Longrightarrow> exits cs (case w of None \<Rightarrow> m | Some x \<Rightarrow> k x)"
  by (cases w) simp_all

lemma exits_writer: "exits {0, 1, 2} (writer (traced os))"
  unfolding writer_def writer_verify_def Let_def
  by (rule exits_now exits_if exits_option exits_bind insertI1 insertI2)+

text \<open>C40: Whatever the kernel answers, \<open>writer\<close> ends, by exiting with code 0, 1 or 2, and gives back what it took: the
  descriptors it opened successfully are exactly those it closed, in order, on the paths of
  failure as well.\<close>

theorem writer_balanced:
  "\<exists>h c r. snd (snd (run_state (writer (traced os)) (s, []))) = h @ [(Exit c, r)] \<and> c \<in> {0, 1, 2} \<and> opened_in h = closed_in h"
proof -
  obtain s1 h c r where h: "snd (run_state (writer (traced os)) (s, [])) = (s1, h @ [(Exit c, r)])" "c \<in> {0, 1, 2}"
    using exits_writer [of os] unfolding exits_def by blast
  have "opened_in [] = closed_in [] @ []" by (simp add: opened_in_def closed_in_def)
  from movesD [OF moves_writer [of os] this, of s] have "opened_in (h @ [(Exit c, r)]) = closed_in (h @ [(Exit c, r)])"
    using h(1) by simp
  then have "opened_in h = closed_in h" by (simp add: opened_in_def closed_in_def)
  with h show ?thesis by (metis snd_conv)
qed

subsection \<open>Echoing a file\<close>

text \<open>What a program needs of the console, and of one open file.\<close>

locale console_service =
  fixes os :: "'s os" and good :: "'s \<Rightarrow> bool" and out :: "'s \<Rightarrow> u8 list"
  assumes writes: "good s \<Longrightarrow> \<exists>r s'. os (Write 1 bs) s = (r, s') \<and> good s' \<and> out s' = out s @ bs"
begin

lemma putstr_out: "good s \<Longrightarrow> \<exists>s'. run_state (putstr os t) s = ((), s') \<and> good s' \<and> out s' = out s @ t"
  using writes [of s t] by (auto simp: run_putstr)

lemma each_out:
  "good s \<Longrightarrow> \<exists>s'. run_state (each (\<lambda>c. putstr os [c]) cs) s = ((), s') \<and> good s' \<and> out s' = out s @ cs"
proof (induction cs arbitrary: s)
  case (Cons c cs)
  obtain s1 where s1: "run_state (putstr os [c]) s = ((), s1)" "good s1" "out s1 = out s @ [c]"
    using putstr_out [OF Cons.prems] by blast
  from Cons.IH [OF s1(2)] s1 show ?case by (auto simp: run_state_bind)
qed simp

lemma putu32_out:
  "good s \<Longrightarrow> \<exists>s'. run_state (putu32 os v) s = ((), s') \<and> good s' \<and> out s' = out s @ u32_to_str v 10 False"
  unfolding putu32_digits by (rule each_out)

end

locale file_service = console_service +
  fixes fd :: u32 and rest :: "'s \<Rightarrow> u8 list"
  assumes write_rest: "good s \<Longrightarrow> rest (snd (os (Write 1 bs) s)) = rest s"
    and read: "good s \<Longrightarrow> \<exists>d s'. os (Read fd 256) s = ((of_nat (min 256 (length (rest s))), take 256 (rest s) @ d), s') \<and>
      good s' \<and> out s' = out s \<and> rest s' = drop 256 (rest s)"
begin

lemma cat_loop_out:
  "good s \<Longrightarrow> \<exists>s'. cat_loop os fd s = Some s' \<and> good s' \<and> out s' = out s @ rest s \<and> rest s' = []"
proof (induction "length (rest s)" arbitrary: s rule: less_induct)
  case less
  let ?n = "min 256 (length (rest s))"
  obtain d s1 where r: "os (Read fd 256) s = ((of_nat ?n, take 256 (rest s) @ d), s1)"
    and s1: "good s1" "out s1 = out s" "rest s1 = drop 256 (rest s)"
    using read [OF less.prems] by blast
  have n: "unat (of_nat ?n :: u32) = ?n" by (rule unat_of_nat32) simp
  have "?n = 0 \<longleftrightarrow> rest s = []" by (cases "rest s") auto
  with n have "of_nat ?n \<noteq> (minus1 :: u32)" "of_nat ?n = (0 :: u32) \<longleftrightarrow> rest s = []"
    by (auto simp: unat_eq_0 [symmetric] dest: arg_cong [where f = unat])
  then have step: "cat_loop os fd s = (if rest s = [] then Some s1
      else cat_loop os fd (snd (os (Write 1 (take 256 (rest s))) s1)))"
    using n by (subst cat_loop.simps) (simp add: r min_def)
  show ?case
  proof (cases "rest s = []")
    case True
    with step s1 show ?thesis by simp
  next
    case False
    obtain q s2 where w: "os (Write 1 (take 256 (rest s))) s1 = (q, s2)" "good s2" "out s2 = out s1 @ take 256 (rest s)"
      using writes [OF s1(1)] by blast
    have r2: "rest s2 = drop 256 (rest s)" using write_rest [OF s1(1), of "take 256 (rest s)"] w(1) s1(3) by simp
    then have "length (rest s2) < length (rest s)" using False by simp
    from less.hyps [OF this w(2)] obtain s' where "cat_loop os fd s2 = Some s'" "good s'" "out s' = out s2 @ rest s2" "rest s' = []"
      by blast
    with step False w s1 r2 show ?thesis by simp
  qed
qed

end

subsection \<open>The kernel's calls on bytes\<close>

text \<open>
  The system calls a program sees, with the bytes in place of the pointers, and the console as
  the text written to it.  The lemmas below show that the calls of \<open>syscall.c\<close> are these when the
  memory behind the pointers is there.  The scheduling calls answer 0, as \<open>fork\<close> does in the child.
\<close>

definition open_path :: "u8 list \<Rightarrow> u32 \<Rightarrow> kernel \<Rightarrow> u32 \<times> kernel" where
  "open_path path fl k =
     (case alloc_fd k of
        None \<Rightarrow> (minus1, k)
      | Some i \<Rightarrow>
          let (r, v) = fat_read path OFILE_CAP (kfat k);
              k = k\<lparr>kfat := v\<rparr>
          in if r = None \<and> fl AND O_CREAT = 0 then (minus1, k)
             else (of_nat i, upd_file (of_nat i) (\<lambda>f. opened path r fl (loaded r f)) k))"

definition read_bytes :: "u32 \<Rightarrow> nat \<Rightarrow> kernel \<Rightarrow> (u32 \<times> u8 list) \<times> kernel" where
  "read_bytes fd n k =
     (if MAX_OPEN_FILES \<le> fd \<or> \<not> o_used (ofile fd k) then ((minus1, []), k)
      else let f = ofile fd k;
               bs = take n (take (unat (o_size f) - unat (o_pos f)) (drop (unat (o_pos f)) (o_data f)))
           in ((of_nat (length bs), bs), upd_file fd (\<lambda>f. f\<lparr>o_pos := o_pos f + of_nat (length bs)\<rparr>) k))"

definition kernel_calls :: "(kernel \<times> u8 list) os" where
  "kernel_calls rq x = (case x of (k, con) \<Rightarrow>
     (case rq of
        Write fd bs \<Rightarrow> if fd < 3 then ((of_nat (length bs), []), (k, con @ bs)) else ((minus1, []), x)
      | Getpid \<Rightarrow> ((sched_current_pid (ks k), []), x)
      | Open name fl \<Rightarrow> (case open_path (cstring name) fl k of (r, k) \<Rightarrow> ((r, []), (k, con)))
      | Read fd n \<Rightarrow> (case read_bytes fd n k of (r, k) \<Rightarrow> (r, (k, con)))
      | Close fd \<Rightarrow> (case sys_close fd k of Inl _ \<Rightarrow> ((minus1, []), x) | Inr (r, k) \<Rightarrow> ((r, []), (k, con)))
      | Lseek fd off w \<Rightarrow> (case sys_lseek fd off w k of Inl _ \<Rightarrow> ((minus1, []), x) | Inr (r, k) \<Rightarrow> ((r, []), (k, con)))
      | _ \<Rightarrow> ((0, []), x)))"

lemma sys_open_bytes:
  assumes "user_range_ok name len" and "len \<noteq> 0" and "len \<le> 31" and "user_bytes name (unat len) (upg k) = Some bs"
  shows "sys_open name len fl k = Inr (open_path (cstring bs) fl k)"
  using assms by (auto simp: sys_open_def open_path_def Let_def not_less split: option.splits prod.splits)

lemma sys_read_bytes:
  assumes "files_ok (ofiles k)" and "user_range_ok buf len" and "fd < 8" and "o_used (ofile fd k)"
    and "o_pos (ofile fd k) \<le> o_size (ofile fd k)"
  shows "sys_read fd buf len k =
    (case read_bytes fd (unat len) k of ((n, bs), k') \<Rightarrow>
       case store_user bs buf (upg k) of None \<Rightarrow> Inl Panic | Some p \<Rightarrow> Inr (n, set_upg p k'))"
proof -
  define f where "f = ofile fd k"
  have fd: "\<not> MAX_OPEN_FILES \<le> fd" using assms(3) by (simp add: MAX_OPEN_FILES_def not_le)
  have f: "file_ok f" using files_okD [OF assms(1) fd_index [OF fd]] by (simp add: f_def ofile_def)
  define avail where "avail = o_size f - o_pos f"
  define m where "m = (if avail < len then avail else len)"
  define bs where "bs = take (unat len) (take (unat (o_size f) - unat (o_pos f)) (drop (unat (o_pos f)) (o_data f)))"
  have b: "unat (o_pos f) \<le> unat (o_size f)" "unat (o_size f) \<le> 2048" "length (o_data f) = 2048"
    using assms(5) f by (auto simp: f_def file_ok_def word_le_nat_alt)
  have av: "unat avail = unat (o_size f) - unat (o_pos f)"
    using b(1) by (simp add: avail_def unat_sub word_le_nat_alt)
  have lb: "length bs = unat m"
    using b av by (auto simp: bs_def m_def word_less_nat_alt min_def)
  have "copy_out buf (unat (o_pos f)) (length bs) (o_data f) (upg k)
      = (case store_user bs buf (upg k) of None \<Rightarrow> Inl Panic | Some p \<Rightarrow> Inr p)"
    by (rule copy_out_bytes) (use b lb av in \<open>auto simp: bs_def m_def word_less_nat_alt min_def\<close>)
  moreover have "sys_read fd buf len k = (case copy_out buf (unat (o_pos f)) (unat m) (o_data f) (upg k) of
      Inl e \<Rightarrow> Inl e | Inr p \<Rightarrow> Inr (m, upd_file fd (\<lambda>f. f\<lparr>o_pos := o_pos f + m\<rparr>) (set_upg p k)))"
    using fd assms(2,4) by (auto simp: sys_read_def Let_def f_def [symmetric] avail_def [symmetric] m_def split: sum.splits)
  moreover have "read_bytes fd (unat len) k = ((m, bs), upd_file fd (\<lambda>f. f\<lparr>o_pos := o_pos f + m\<rparr>) k)"
    using fd assms(4) lb unfolding read_bytes_def Let_def f_def [symmetric] bs_def [symmetric] by simp
  moreover have "set_upg p (upd_file fd g k) = upd_file fd g (set_upg p k)" for p g
    by (simp add: set_upg_def upd_file_def)
  ultimately show ?thesis
    using lb by (auto split: option.splits)
qed

lemma echo_user_bytes:
  "echo_user dev buf n s v = map_option (\<lambda>bs. fold (con_putc dev) bs v) (user_bytes buf n s)"
  by (induction n arbitrary: buf v) (auto split: option.splits simp: option.map_comp comp_def)

lemma sys_write_console:
  "fd < 3 \<Longrightarrow> user_range_ok buf len \<Longrightarrow> user_bytes buf (unat len) (upg k) = Some bs \<Longrightarrow>
   sys_write dev fd buf len k = Inr (len, k\<lparr>scr := fold (con_putc dev) bs (scr k)\<rparr>)"
  by (auto simp: sys_write_def echo_user_bytes word_less_nat_alt word_le_nat_alt)

subsection \<open>The kernel serves its programs\<close>

text \<open>Descriptor \<open>i\<close> open for reading, and what is left of it.\<close>

definition reading :: "nat \<Rightarrow> kernel \<times> u8 list \<Rightarrow> bool" where
  "reading i x \<longleftrightarrow> i < 8 \<and> i < length (ofiles (fst x)) \<and>
     (let f = ofiles (fst x) ! i in
      o_used f \<and> \<not> o_dirty f \<and> unat (o_pos f) \<le> unat (o_size f) \<and> unat (o_size f) \<le> length (o_data f))"

definition left_of :: "nat \<Rightarrow> kernel \<times> u8 list \<Rightarrow> u8 list" where
  "left_of i x = (let f = ofiles (fst x) ! i in drop (unat (o_pos f)) (take (unat (o_size f)) (o_data f)))"

lemma read_bytes_reading:
  assumes "reading i (k, con)"
  shows "\<exists>k'. read_bytes (of_nat i) 256 k =
      ((of_nat (min 256 (length (left_of i (k, con)))), take 256 (left_of i (k, con))), k') \<and>
    reading i (k', con) \<and> left_of i (k', con) = drop 256 (left_of i (k, con)) \<and> kfat k' = kfat k"
proof -
  define f where "f = ofiles k ! i"
  have i: "unat (of_nat i :: u32) = i" "i < 8" using assms by (simp_all add: reading_def unat_of_nat32)
  have f: "o_used f" "\<not> o_dirty f" "unat (o_pos f) \<le> unat (o_size f)" "unat (o_size f) \<le> length (o_data f)"
    "i < length (ofiles k)"
    using assms by (simp_all add: reading_def f_def Let_def)
  define bs where "bs = take 256 (left_of i (k, con))"
  have l: "left_of i (k, con) = take (unat (o_size f) - unat (o_pos f)) (drop (unat (o_pos f)) (o_data f))"
    by (simp add: left_of_def f_def [symmetric] drop_take)
  have len: "length (left_of i (k, con)) = unat (o_size f) - unat (o_pos f)"
    using f by (simp add: left_of_def f_def [symmetric])
  have b: "length bs = min 256 (length (left_of i (k, con)))" by (simp add: bs_def min.commute)
  define k' where "k' = upd_file (of_nat i) (\<lambda>f. f\<lparr>o_pos := o_pos f + of_nat (length bs)\<rparr>) k"
  have "\<not> MAX_OPEN_FILES \<le> (of_nat i :: u32)"
    using i by (simp add: MAX_OPEN_FILES_def word_le_nat_alt)
  then have r: "read_bytes (of_nat i) 256 k = ((of_nat (length bs), bs), k')"
    unfolding read_bytes_def Let_def k'_def using i(1) f(1) l
    by (simp add: ofile_def f_def [symmetric] bs_def)
  have f': "ofiles k' ! i = f\<lparr>o_pos := o_pos f + of_nat (length bs)\<rparr>" "length (ofiles k') = length (ofiles k)"
    using i(1) f(5) by (simp_all add: k'_def upd_file_def f_def)
  have "unat (o_size f) < 4294967296" using unsigned_less [of "o_size f", where 'a = nat] by simp
  then have p: "unat (o_pos f + of_nat (length bs)) = unat (o_pos f) + length bs"
    using b len f(3) by (subst unat_add_no_wrap) (simp_all add: unat_of_nat32)
  have "left_of i (k', con) = drop (length bs) (left_of i (k, con))"
    unfolding left_of_def by (simp add: f' f_def [symmetric] p add.commute)
  moreover have "drop (length bs) (left_of i (k, con)) = drop 256 (left_of i (k, con))"
    by (cases "256 \<le> length (left_of i (k, con))") (simp_all add: b min_def)
  moreover have "reading i (k', con)"
    using f f' i(2) p b len by (simp add: reading_def)
  ultimately show ?thesis
    using r b by (auto simp: bs_def k'_def upd_file_def)
qed

text \<open>The console and the open file of the kernel's own calls meet the program's contract.\<close>

interpretation kfile: file_service kernel_calls "\<lambda>x. reading i x \<and> kfat (fst x) = v" snd "of_nat i" "left_of i"
proof (unfold_locales, goal_cases)
  case (1 s bs)
  then show ?case by (cases s) (simp add: kernel_calls_def reading_def)
next
  case (2 s bs)
  then show ?case by (cases s) (simp add: kernel_calls_def left_of_def)
next
  case (3 s)
  then obtain k con where s: "s = (k, con)" "reading i (k, con)" by (cases s) auto
  from read_bytes_reading [OF s(2)] show ?case
    using 3 by (auto simp: s(1) kernel_calls_def)
qed

lemma kernel_putstr [simp]: "run_state (putstr kernel_calls t) (k, con) = ((), (k, con @ t))"
  by (simp add: run_putstr kernel_calls_def)

lemma sys_close_reading:
  assumes "reading i (k, con)"
  obtains k' where "sys_close (of_nat i) k = Inr (0, k')" "kfat k' = kfat k" "\<not> o_used (ofiles k' ! i)"
proof -
  have i: "unat (of_nat i :: u32) = i" "i < 8" "o_used (ofiles k ! i)" "\<not> o_dirty (ofiles k ! i)" "i < length (ofiles k)"
    using assms by (simp_all add: reading_def unat_of_nat32 Let_def)
  then have "\<not> MAX_OPEN_FILES \<le> (of_nat i :: u32)"
    by (simp add: MAX_OPEN_FILES_def word_le_nat_alt)
  with i have "sys_close (of_nat i) k =
      Inr (0, upd_file (of_nat i) (\<lambda>f. f\<lparr>o_used := False, o_writable := False, o_dirty := False\<rparr>) k)"
    by (simp add: sys_close_def sys_sync_def ofile_def)
  then show thesis
    by (rule that) (use i in \<open>simp_all add: upd_file_def\<close>)
qed


text \<open>A volume with one file, \<open>readme.txt\<close> of three bytes in cluster 2.\<close>

definition readme_entry :: "u8 list" where
  "readme_entry = [0x52, 0x45, 0x41, 0x44, 0x4D, 0x45, 0x20, 0x20, 0x54, 0x58, 0x54, 0x20] @ replicate 14 0 @ [2, 0, 3, 0, 0, 0]"

definition readme_vol :: fat where
  "readme_vol = blank_vol\<lparr>drv := (drv blank_vol)\<lparr>sectors := (\<lambda>lba.
     if lba = 19 then readme_entry @ replicate 480 0
     else if lba = 33 then [0x48, 0x69, 0x21] @ replicate 509 0 else replicate 512 0)\<rparr>\<rparr>"

lemma readme_read: "\<exists>v. fat_read (lit ''readme.txt'') OFILE_CAP readme_vol = (Some [0x48, 0x69, 0x21], v)"
proof -
  let ?b = "readme_entry @ replicate 480 0"
  let ?n = "[0x52, 0x45, 0x41, 0x44, 0x4D, 0x45, 0x20, 0x20, 0x54, 0x58, 0x54] :: u8 list"
  have n: "norm_name (lit ''readme.txt'') = ?n"
  proof -
    have "norm_name (lit ''readme'' @ 0x2E # lit ''txt'') = pad 8 (map upcase (lit ''readme'')) @ pad 3 (map upcase (lit ''txt''))"
      using norm_name_83 [of "[]" "lit ''readme''" "lit ''txt''"] by (simp add: lit_def)
    moreover have "replicate 2 (0x20 :: u8) = [0x20, 0x20]" by (simp add: numeral_2_eq_2)
    ultimately show ?thesis by (simp add: lit_def pad_def upcase_def)
  qed
  have len: "length readme_entry = 32" by (simp add: readme_entry_def)
  have e: "?b ! i = readme_entry ! i" if "i < 32" for i
    using that len by (simp add: nth_append)
  have "scan_sector ?n ?b entry_offs = Found 0"
  proof -
    obtain offs where o: "entry_offs = 0 # offs" by (simp add: entry_offs_def upt_conv_Cons)
    have "dir_match ?b 0 ?n"
      by (simp add: dir_match_def e) (simp add: readme_entry_def upt_conv_Cons)
    moreover have "?b ! 0 = 0x52" "?b ! (0 + 11) = 0x20"
      by (simp_all add: readme_entry_def)
    ultimately show ?thesis unfolding o by (simp del: append.simps)
  qed
  then have d: "dir_lookup ?n (root_list readme_vol) readme_vol = (Some 0, readme_vol\<lparr>secbuf := ?b\<rparr>)"
    by (simp add: root_list_def upt_conv_Cons read_sec_def readme_vol_def blank_vol_def)
  have f: "le16 ?b 26 = 2" "le32 ?b 28 = 3"
    by (simp_all add: le16_def le32_def e) (simp_all add: readme_entry_def nth_append)
  let ?v = "readme_vol\<lparr>secbuf := ?b\<rparr>"
  have c: "read_sectors (cluster_sectors 2 ?v) 3 2048 [] ?v = Some [0x48, 0x69, 0x21]"
    by (simp add: cluster_sectors_def readme_vol_def blank_vol_def)
  obtain nx v where "fat_next_cluster 2 ?v = (nx, v)" by fastforce
  then have "read_chain 65536 2 3 2048 [] ?v = (Some [0x48, 0x69, 0x21], v)"
    using c by (simp add: read_chain.simps(2) [of 65535, simplified] read_chain.simps(2) [of 65534, simplified])
  then show ?thesis
    using n d f by (simp add: fat_read_def OFILE_CAP_def) (simp add: readme_vol_def blank_vol_def)
qed


end
