(* ===== verification/VmSpec.thy ===== *)
theory VmSpec
  imports NovaPrelude
begin

section \<open>What the virtual memory of all processes promises\<close>

text \<open>
  An abstract specification of paging.c and the reference counts of mm.c together: the live address
  spaces, the two table frames of each, what each maps in its user window, the count of every frame and the
  frames that are free.  The operations are updates of this state; \<open>vspec_ok\<close>, which accounts for
  every frame and every reference, is an invariant of all of them.  The theory of the address spaces
  shows that the code implements these operations.
\<close>

text \<open>The frames \<open>mm_init\<close> leaves free, and those among them the kernel can address.\<close>

definition pool_frames :: "nat set" where "pool_frames = {304 ..< 768}"
definition low_pool :: "nat set" where "low_pool = {304 ..< 512}"

type_synonym page_map = "nat \<Rightarrow> (nat \<times> bool) option"

record vspec =
  live :: "u32 set"
  tabs :: "u32 \<Rightarrow> nat set"
  pages :: "u32 \<Rightarrow> page_map"
  refs :: "nat \<Rightarrow> nat"
  unused :: "nat set"

definition frames_of :: "page_map \<Rightarrow> nat set" where
  "frames_of p = {f. \<exists>i w. p i = Some (f, w)}"

definition read_only :: "page_map \<Rightarrow> page_map" where
  "read_only p = (\<lambda>i. map_option (\<lambda>(f, w). (f, False)) (p i))"

definition vs_create :: "u32 \<Rightarrow> nat \<Rightarrow> nat \<Rightarrow> vspec \<Rightarrow> vspec" where
  "vs_create c a b v = v\<lparr>live := insert c (live v), tabs := (tabs v)(c := {a, b}),
     pages := (pages v)(c := Map.empty), unused := unused v - {a, b}\<rparr>"

definition vs_map :: "u32 \<Rightarrow> nat \<Rightarrow> nat \<Rightarrow> vspec \<Rightarrow> vspec" where
  "vs_map c i f v = v\<lparr>pages := (pages v)(c := (pages v c)(i \<mapsto> (f, True))),
     refs := (refs v)(f := refs v f + 1), unused := unused v - {f}\<rparr>"

definition vs_fork :: "u32 \<Rightarrow> u32 \<Rightarrow> nat \<Rightarrow> nat \<Rightarrow> vspec \<Rightarrow> vspec" where
  "vs_fork p c a b v = v\<lparr>live := insert c (live v), tabs := (tabs v)(c := {a, b}),
     pages := (pages v)(p := read_only (pages v p), c := read_only (pages v p)),
     refs := (\<lambda>f. if f \<in> frames_of (pages v p) then refs v f + 1 else refs v f),
     unused := unused v - {a, b}\<rparr>"

definition vs_copy :: "u32 \<Rightarrow> nat \<Rightarrow> nat \<Rightarrow> nat \<Rightarrow> vspec \<Rightarrow> vspec" where
  "vs_copy c i old f v = v\<lparr>pages := (pages v)(c := (pages v c)(i \<mapsto> (f, True))),
     refs := (refs v)(old := refs v old - 1, f := refs v f + 1),
     unused := unused v - {f} \<union> (if refs v old \<le> 1 then {old} else {})\<rparr>"

definition vs_destroy :: "u32 \<Rightarrow> vspec \<Rightarrow> vspec" where
  "vs_destroy c v = v\<lparr>live := live v - {c}, tabs := (tabs v)(c := {}), pages := (pages v)(c := Map.empty),
     refs := (\<lambda>f. if f \<in> frames_of (pages v c) then refs v f - 1 else refs v f),
     unused := unused v \<union> tabs v c \<union> {f \<in> frames_of (pages v c). refs v f \<le> 1}\<rparr>"

subsection \<open>The account\<close>

text \<open>
  Every frame is free, a table of exactly one space, or mapped, and then its count is the number of
  spaces that map it; a page a process may write is mapped by no other.
\<close>

definition users_of :: "vspec \<Rightarrow> nat \<Rightarrow> u32 set" where
  "users_of v f = {c \<in> live v. f \<in> frames_of (pages v c)}"

definition vspec_ok :: "vspec \<Rightarrow> bool" where
  "vspec_ok v \<longleftrightarrow> finite (live v) \<and>
     (\<forall>c\<in>live v. tabs v c \<subseteq> low_pool \<and> card (tabs v c) = 2 \<and> frames_of (pages v c) \<subseteq> pool_frames) \<and>
     (\<forall>c\<in>live v. \<forall>d\<in>live v. c \<noteq> d \<longrightarrow> tabs v c \<inter> tabs v d = {}) \<and>
     (\<forall>c\<in>live v. \<forall>d\<in>live v. tabs v c \<inter> frames_of (pages v d) = {}) \<and>
     (\<forall>c\<in>live v. \<forall>i j f w w'. pages v c i = Some (f, w) \<longrightarrow> pages v c j = Some (f, w') \<longrightarrow> i = j) \<and>
     unused v = pool_frames - (\<Union>c\<in>live v. tabs v c \<union> frames_of (pages v c)) \<and>
     (\<forall>f\<in>pool_frames. refs v f = card (users_of v f)) \<and>
     (\<forall>c\<in>live v. \<forall>i f. pages v c i = Some (f, True) \<longrightarrow> users_of v f = {c})"

lemma vspec_okD:
  assumes "vspec_ok v"
  shows "finite (live v)" "c \<in> live v \<Longrightarrow> tabs v c \<subseteq> low_pool" "c \<in> live v \<Longrightarrow> card (tabs v c) = 2"
    "c \<in> live v \<Longrightarrow> frames_of (pages v c) \<subseteq> pool_frames"
    "c \<in> live v \<Longrightarrow> d \<in> live v \<Longrightarrow> c \<noteq> d \<Longrightarrow> tabs v c \<inter> tabs v d = {}"
    "c \<in> live v \<Longrightarrow> d \<in> live v \<Longrightarrow> tabs v c \<inter> frames_of (pages v d) = {}"
    "c \<in> live v \<Longrightarrow> pages v c i = Some (f, w) \<Longrightarrow> pages v c j = Some (f, w') \<Longrightarrow> i = j"
    "unused v = pool_frames - (\<Union>c\<in>live v. tabs v c \<union> frames_of (pages v c))"
    "f \<in> pool_frames \<Longrightarrow> refs v f = card (users_of v f)"
    "c \<in> live v \<Longrightarrow> pages v c i = Some (f, True) \<Longrightarrow> users_of v f = {c}"
proof -
  note a = assms [unfolded vspec_ok_def]
  show "finite (live v)" "c \<in> live v \<Longrightarrow> tabs v c \<subseteq> low_pool" "c \<in> live v \<Longrightarrow> card (tabs v c) = 2"
    "c \<in> live v \<Longrightarrow> frames_of (pages v c) \<subseteq> pool_frames"
    "c \<in> live v \<Longrightarrow> d \<in> live v \<Longrightarrow> c \<noteq> d \<Longrightarrow> tabs v c \<inter> tabs v d = {}"
    "c \<in> live v \<Longrightarrow> d \<in> live v \<Longrightarrow> tabs v c \<inter> frames_of (pages v d) = {}"
    "unused v = pool_frames - (\<Union>c\<in>live v. tabs v c \<union> frames_of (pages v c))"
    "f \<in> pool_frames \<Longrightarrow> refs v f = card (users_of v f)"
    "c \<in> live v \<Longrightarrow> pages v c i = Some (f, True) \<Longrightarrow> users_of v f = {c}"
    using a by simp_all
  show "c \<in> live v \<Longrightarrow> pages v c i = Some (f, w) \<Longrightarrow> pages v c j = Some (f, w') \<Longrightarrow> i = j"
    using a by metis
qed

lemma frames_of_simps [simp]:
  "frames_of Map.empty = {}"
  "frames_of (read_only p) = frames_of p"
  by (auto simp: frames_of_def read_only_def)

lemma frames_ofI: "p i = Some (f, w) \<Longrightarrow> f \<in> frames_of p"
  by (auto simp: frames_of_def)

lemma frames_of_upd_new: "p i = None \<Longrightarrow> frames_of (p(i \<mapsto> (f, w))) = insert f (frames_of p)"
  unfolding frames_of_def by (auto split: if_splits) (metis option.distinct(1))+

lemma read_only_Some: "read_only p i = Some (f, w) \<longleftrightarrow> w = False \<and> (\<exists>w'. p i = Some (f, w'))"
  by (auto simp: read_only_def)

lemma finite_users: "vspec_ok v \<Longrightarrow> finite (users_of v f)"
  using vspec_okD(1) [of v] by (simp add: users_of_def)

lemma unused_no_users: "vspec_ok v \<Longrightarrow> f \<in> unused v \<Longrightarrow> users_of v f = {}"
  using vspec_okD(8) [of v] by (auto simp: users_of_def)

lemma unused_facts:
  assumes "vspec_ok v" "f \<in> unused v"
  shows "f \<in> pool_frames" "c \<in> live v \<Longrightarrow> f \<notin> tabs v c" "c \<in> live v \<Longrightarrow> f \<notin> frames_of (pages v c)"
  using vspec_okD(8) [OF assms(1)] assms(2) by auto

lemma refs_unused: "vspec_ok v \<Longrightarrow> f \<in> unused v \<Longrightarrow> refs v f = 0"
  using vspec_okD(9) [of v f] unused_no_users [of v f] unused_facts(1) [of v f] by simp

lemma low_in_pool: "low_pool \<subseteq> pool_frames"
  by (auto simp: low_pool_def pool_frames_def)

subsection \<open>Every operation keeps the account\<close>

lemma users_create: "c \<notin> live v \<Longrightarrow> users_of (vs_create c a b v) f = users_of v f"
  by (auto simp: users_of_def vs_create_def)

lemma vs_create_ok:
  assumes ok: "vspec_ok v" and c: "c \<notin> live v" and ab: "a \<noteq> b" "{a, b} \<subseteq> unused v \<inter> low_pool"
  shows "vspec_ok (vs_create c a b v)"
proof -
  note v = vspec_okD [OF ok]
  note a = unused_facts [OF ok, of a] and b = unused_facts [OF ok, of b]
  have u: "users_of (vs_create c a b v) f = users_of v f" for f by (rule users_create [OF c])
  have "unused v - {a, b} = pool_frames - (\<Union>d\<in>insert c (live v).
      ((tabs v)(c := {a, b})) d \<union> frames_of (((pages v)(c := Map.empty)) d))"
    using v(8) c by (auto split: if_splits)
  moreover have "((tabs v)(c := {a, b})) x \<inter> ((tabs v)(c := {a, b})) y = {}"
    if "x \<in> insert c (live v)" "y \<in> insert c (live v)" "x \<noteq> y" for x y
    using that v(5) [of x y] a(2) b(2) ab by (auto split: if_splits)
  moreover have "((tabs v)(c := {a, b})) x \<inter> frames_of (((pages v)(c := Map.empty)) y) = {}"
    if "x \<in> insert c (live v)" "y \<in> insert c (live v)" for x y
    using that v(6) [of x y] a(3) b(3) ab by (auto split: if_splits)
  ultimately show ?thesis
    unfolding vspec_ok_def u
    using v(1-4,7,9,10) c ab by (auto simp: vs_create_def split: if_splits)
qed

lemma vs_map_facts:
  assumes "c \<in> live v" "pages v c i = None"
  shows "users_of (vs_map c i f v) g = (if g = f then insert c (users_of v g) else users_of v g)"
    and "frames_of (pages (vs_map c i f v) d) = (if d = c then insert f (frames_of (pages v c)) else frames_of (pages v d))"
  using assms frames_of_upd_new [of "pages v c" i f True] by (auto simp: users_of_def vs_map_def)

lemma vs_map_ok:
  assumes ok: "vspec_ok v" and c: "c \<in> live v" and i: "pages v c i = None" and f: "f \<in> unused v"
  shows "vspec_ok (vs_map c i f v)"
proof -
  note v = vspec_okD [OF ok]
  note uf = unused_facts [OF ok f]
  note F = vs_map_facts [OF c i, of f]
  have s: "live (vs_map c i f v) = live v" "tabs (vs_map c i f v) = tabs v" "unused (vs_map c i f v) = unused v - {f}"
    "refs (vs_map c i f v) = (refs v)(f := refs v f + 1)"
    "pages (vs_map c i f v) = (pages v)(c := (pages v c)(i \<mapsto> (f, True)))"
    by (simp_all add: vs_map_def)
  have nu: "users_of v f = {}" by (rule unused_no_users [OF ok f])
  show ?thesis
    unfolding vspec_ok_def F s(1-4)
  proof (intro conjI ballI allI impI)
    show "unused v - {f} = pool_frames - (\<Union>d\<in>live v. tabs v d \<union> (if d = c then insert f (frames_of (pages v c)) else frames_of (pages v d)))"
      using v(8) c by (auto split: if_splits)
  next
    fix x j k g w w'
    assume "x \<in> live v" "pages (vs_map c i f v) x j = Some (g, w)" "pages (vs_map c i f v) x k = Some (g, w')"
    then show "j = k"
      using v(7) [of x j g w k w'] uf(3) [of c] c by (auto simp: s frames_of_def split: if_splits)
  next
    fix g assume "g \<in> pool_frames"
    then show "((refs v)(f := refs v f + 1)) g = card (if g = f then insert c (users_of v g) else users_of v g)"
      using v(9) [of g] nu by auto
  next
    fix x j g
    assume x: "x \<in> live v" "pages (vs_map c i f v) x j = Some (g, True)"
    show "(if g = f then insert c (users_of v g) else users_of v g) = {x}"
    proof (cases "g = f")
      case True
      then have "x = c" using x uf(3) [of x] by (auto simp: s frames_of_def split: if_splits)
      with True nu show ?thesis by simp
    next
      case False
      with x v(10) [of x j g] show ?thesis by (auto simp: s split: if_splits)
    qed
  qed (use v(1-6) uf c in \<open>auto split: if_splits\<close>)
qed

lemma vs_fork_facts:
  assumes "p \<in> live v" "c \<notin> live v"
  shows "users_of (vs_fork p c a b v) g = (if g \<in> frames_of (pages v p) then insert c (users_of v g) else users_of v g)"
    and "frames_of (pages (vs_fork p c a b v) d) = (if d = c then frames_of (pages v p) else frames_of (pages v d))"
  using assms by (auto simp: users_of_def vs_fork_def)

lemma vs_fork_ok:
  assumes ok: "vspec_ok v" and p: "p \<in> live v" and c: "c \<notin> live v" and ab: "a \<noteq> b" "{a, b} \<subseteq> unused v \<inter> low_pool"
  shows "vspec_ok (vs_fork p c a b v)"
proof -
  note v = vspec_okD [OF ok]
  note a = unused_facts [OF ok, of a] and b = unused_facts [OF ok, of b]
  note F = vs_fork_facts [OF p c, of a b]
  let ?v = "vs_fork p c a b v"
  have s: "live ?v = insert c (live v)" "tabs ?v = (tabs v)(c := {a, b})" "unused ?v = unused v - {a, b}"
    "pages ?v = (pages v)(p := read_only (pages v p), c := read_only (pages v p))"
    "refs ?v g = (if g \<in> frames_of (pages v p) then refs v g + 1 else refs v g)" for g
    by (simp_all add: vs_fork_def)
  have cp: "c \<noteq> p" using p c by auto
  show ?thesis
    unfolding vspec_ok_def F s(1-3)
  proof (intro conjI ballI allI impI)
    show "unused v - {a, b} = pool_frames - (\<Union>d\<in>insert c (live v). ((tabs v)(c := {a, b})) d \<union>
        (if d = c then frames_of (pages v p) else frames_of (pages v d)))"
      using v(8) c p by (auto split: if_splits)
  next
    fix x y assume "x \<in> insert c (live v)" "y \<in> insert c (live v)" "x \<noteq> y"
    then show "((tabs v)(c := {a, b})) x \<inter> ((tabs v)(c := {a, b})) y = {}"
      using v(5) [of x y] a(2) b(2) ab by (auto split: if_splits)
  next
    fix x y assume "x \<in> insert c (live v)" "y \<in> insert c (live v)"
    then show "((tabs v)(c := {a, b})) x \<inter> (if y = c then frames_of (pages v p) else frames_of (pages v y)) = {}"
      using v(6) [of x y] v(6) [of x p] a(3) b(3) ab p c by (auto split: if_splits)
  next
    fix x j k g w w'
    assume "x \<in> insert c (live v)" "pages ?v x j = Some (g, w)" "pages ?v x k = Some (g, w')"
    then show "j = k"
      using v(7) [of x j g w k w'] v(7) [OF p] by (auto simp: s(4) read_only_Some split: if_splits)
  next
    fix g assume g: "g \<in> pool_frames"
    show "refs ?v g = card (if g \<in> frames_of (pages v p) then insert c (users_of v g) else users_of v g)"
      using v(9) [OF g] c finite_users [OF ok, of g] by (auto simp: s(5) card_insert_if) (simp add: users_of_def)
  next
    fix x j g
    assume x: "x \<in> insert c (live v)" "pages ?v x j = Some (g, True)"
    then have xc: "x \<noteq> c" "x \<noteq> p" "x \<in> live v" "pages v x j = Some (g, True)"
      using cp by (auto simp: s(4) read_only_Some split: if_splits)
    then have "users_of v g = {x}" using v(10) by blast
    moreover from this xc p have "g \<notin> frames_of (pages v p)" by (auto simp: users_of_def)
    ultimately show "(if g \<in> frames_of (pages v p) then insert c (users_of v g) else users_of v g) = {x}"
      by simp
  qed (use v(1-3) v(4) [THEN subsetD] p ab in \<open>auto split: if_splits\<close>)
qed

lemma frames_of_replace:
  assumes "p i = Some (old, w)" "\<And>j w'. p j = Some (old, w') \<Longrightarrow> j = i"
  shows "frames_of (p(i \<mapsto> (f, w''))) = insert f (frames_of p - {old})"
proof (intro equalityI subsetI)
  fix x assume "x \<in> frames_of (p(i \<mapsto> (f, w'')))"
  then obtain j u where j: "(p(i \<mapsto> (f, w''))) j = Some (x, u)" by (auto simp: frames_of_def)
  show "x \<in> insert f (frames_of p - {old})"
  proof (cases "j = i")
    case False
    with j have "p j = Some (x, u)" by simp
    with False assms(2) [of j u] show ?thesis by (auto simp: frames_of_def)
  qed (use j in simp)
next
  fix x assume x: "x \<in> insert f (frames_of p - {old})"
  show "x \<in> frames_of (p(i \<mapsto> (f, w'')))"
  proof (cases "x = f")
    case True
    then show ?thesis by (auto simp: frames_of_def)
  next
    case False
    with x obtain j u where "p j = Some (x, u)" "x \<noteq> old" by (auto simp: frames_of_def)
    with assms(1) have "(p(i \<mapsto> (f, w''))) j = Some (x, u)" by auto
    then show ?thesis unfolding frames_of_def by blast
  qed
qed

lemma vs_copy_facts:
  assumes ok: "vspec_ok v" and c: "c \<in> live v" "pages v c i = Some (old, w)" and f: "f \<in> unused v"
  shows "users_of (vs_copy c i old f v) g =
      (if g = f then {c} else if g = old then users_of v old - {c} else users_of v g)"
    and "frames_of (pages (vs_copy c i old f v) d) =
      (if d = c then insert f (frames_of (pages v c) - {old}) else frames_of (pages v d))"
proof -
  have fr: "frames_of ((pages v c)(i \<mapsto> (f, True))) = insert f (frames_of (pages v c) - {old})"
    using c(2) vspec_okD(7) [OF ok c(1) _ c(2)] by (rule frames_of_replace)
  then show "frames_of (pages (vs_copy c i old f v) d) =
      (if d = c then insert f (frames_of (pages v c) - {old}) else frames_of (pages v d))"
    by (simp add: vs_copy_def)
  show "users_of (vs_copy c i old f v) g =
      (if g = f then {c} else if g = old then users_of v old - {c} else users_of v g)"
    using unused_facts(3) [OF ok f] c(1) fr by (auto simp: users_of_def vs_copy_def split: if_splits)
qed

lemma vs_copy_ok:
  assumes ok: "vspec_ok v" and c: "c \<in> live v" "pages v c i = Some (old, False)" and f: "f \<in> unused v"
  shows "vspec_ok (vs_copy c i old f v)"
proof -
  note v = vspec_okD [OF ok]
  note uf = unused_facts [OF ok f]
  note F = vs_copy_facts [OF ok c f]
  let ?v = "vs_copy c i old f v"
  have s: "live ?v = live v" "tabs ?v = tabs v" "refs ?v = (refs v)(old := refs v old - 1, f := refs v f + 1)"
    "unused ?v = unused v - {f} \<union> (if refs v old \<le> 1 then {old} else {})"
    "pages ?v = (pages v)(c := (pages v c)(i \<mapsto> (f, True)))"
    by (simp_all add: vs_copy_def)
  have old: "old \<in> frames_of (pages v c)" using c(2) by (rule frames_ofI)
  then have op: "old \<in> pool_frames" "old \<noteq> f" "c \<in> users_of v old" "\<And>d. d \<in> live v \<Longrightarrow> old \<notin> tabs v d"
    using v(4) [OF c(1)] v(6) [OF _ c(1)] c(1) uf(3) by (auto simp: users_of_def)
  have last: "refs v old \<le> 1 \<longleftrightarrow> users_of v old = {c}"
  proof -
    have "0 < card (users_of v old)"
      using op(3) finite_users [OF ok] by (auto simp: card_gt_0_iff)
    then have "refs v old \<le> 1 \<longleftrightarrow> card (users_of v old) = 1" using v(9) [OF op(1)] by linarith
    then show ?thesis using op(3) by (auto simp: card_1_singleton_iff)
  qed
  show ?thesis
    unfolding vspec_ok_def F s(1,2)
  proof (intro conjI ballI allI impI)
    define U where "U = (\<Union>d\<in>live v. tabs v d \<union>
        (if d = c then insert f (frames_of (pages v c) - {old}) else frames_of (pages v d)))"
    have 1: "old \<in> U \<longleftrightarrow> users_of v old \<noteq> {c}"
      unfolding U_def using op c(1) by (auto simp: users_of_def split: if_splits)
    have "x \<in> unused v \<longleftrightarrow> x \<in> pool_frames \<and> (\<forall>d\<in>live v. x \<notin> tabs v d \<and> x \<notin> frames_of (pages v d))" for x
      unfolding v(8) by simp
    then have 2: "x \<in> unused v \<longleftrightarrow> x \<in> pool_frames - U" if "x \<noteq> f" "x \<noteq> old" for x
      unfolding U_def using that c(1) by (auto split: if_splits)
    have 3: "f \<in> U"
      unfolding U_def using c(1) by (intro UN_I [of c]) simp_all
    have 4: "old \<notin> unused v" using unused_facts(3) [OF ok _ c(1)] old by blast
    have "x \<in> unused ?v \<longleftrightarrow> x \<in> pool_frames - U" for x
      unfolding s(4) last using 1 2 [of x] 3 4 op(1,2) by (cases "x = old"; cases "x = f") simp_all
    then show "unused ?v = pool_frames - (\<Union>d\<in>live v. tabs v d \<union>
        (if d = c then insert f (frames_of (pages v c) - {old}) else frames_of (pages v d)))"
      unfolding U_def by blast
  next
    fix x j k g w w'
    assume x: "x \<in> live v" "pages ?v x j = Some (g, w)" "pages ?v x k = Some (g, w')"
    show "j = k"
    proof (cases "x = c")
      case True
      have "g \<noteq> f" if "pages v c n = Some (g, u)" for n u
        using frames_ofI [of "pages v c", OF that] uf(3) [OF c(1)] by auto
      with True x show ?thesis
        using v(7) [OF c(1), of j g w k w'] by (simp add: s(5) split: if_splits) blast+
    qed (use x v(7) [of x j g w k w'] in \<open>simp add: s(5)\<close>)
  next
    fix g assume "g \<in> pool_frames"
    then show "refs ?v g = card (if g = f then {c} else if g = old then users_of v old - {c} else users_of v g)"
      using v(9) [of g] refs_unused [OF ok f] op(2,3) by (auto simp: s(3))
  next
    fix x j g
    assume x: "x \<in> live v" "pages ?v x j = Some (g, True)"
    show "(if g = f then {c} else if g = old then users_of v old - {c} else users_of v g) = {x}"
    proof (cases "x = c \<and> j = i")
      case True
      with x show ?thesis by (simp add: s(5))
    next
      case False
      then have p: "pages v x j = Some (g, True)" using x(2) by (auto simp: s(5) split: if_splits)
      then have u: "users_of v g = {x}" by (rule v(10) [OF x(1)])
      have "g \<noteq> f" using frames_ofI [of "pages v x", OF p] uf(3) [OF x(1)] by auto
      moreover have "g \<noteq> old"
      proof
        assume "g = old"
        with u op(3) have "x = c" by auto
        with p c(2) v(7) [OF c(1), of j old True i False] \<open>g = old\<close> False show False by auto
      qed
      ultimately show ?thesis using u by simp
    qed
  qed (use v(1-3,5) v(4) [THEN subsetD] v(6) [unfolded disjoint_iff, rule_format] uf c(1) in \<open>auto split: if_splits\<close>)
qed

lemma vs_destroy_facts:
  shows "users_of (vs_destroy c v) g = users_of v g - {c}"
    and "d \<noteq> c \<Longrightarrow> pages (vs_destroy c v) d = pages v d"
  by (auto simp: users_of_def vs_destroy_def)

lemma vs_destroy_ok:
  assumes ok: "vspec_ok v" and c: "c \<in> live v"
  shows "vspec_ok (vs_destroy c v)"
proof -
  note v = vspec_okD [OF ok]
  note F = vs_destroy_facts [where c = c and v = v]
  let ?v = "vs_destroy c v"
  have s: "live ?v = live v - {c}" "tabs ?v = (tabs v)(c := {})" "pages ?v = (pages v)(c := Map.empty)"
    "unused ?v = unused v \<union> tabs v c \<union> {f \<in> frames_of (pages v c). refs v f \<le> 1}"
    "refs ?v g = (if g \<in> frames_of (pages v c) then refs v g - 1 else refs v g)" for g
    by (simp_all add: vs_destroy_def)
  have last: "refs v g \<le> 1 \<longleftrightarrow> (\<forall>d\<in>live v. d \<noteq> c \<longrightarrow> g \<notin> frames_of (pages v d))" if g: "g \<in> frames_of (pages v c)" for g
  proof -
    have "c \<in> users_of v g" using g c by (simp add: users_of_def)
    moreover have "refs v g = card (users_of v g)" using v(4) [OF c] v(9) g by auto
    ultimately have "refs v g \<le> 1 \<longleftrightarrow> users_of v g = {c}"
      using finite_users [OF ok, of g] by (auto simp: card_le_Suc0_iff_eq)
    then show ?thesis using g c by (auto simp: users_of_def)
  qed
  show ?thesis
    unfolding vspec_ok_def F s(1)
  proof (intro conjI ballI allI impI)
    have "{f \<in> frames_of (pages v c). refs v f \<le> 1} =
        {f \<in> frames_of (pages v c). \<forall>d\<in>live v. d \<noteq> c \<longrightarrow> f \<notin> frames_of (pages v d)}"
      using last by blast
    moreover have "tabs v c \<union> frames_of (pages v c) \<subseteq> pool_frames"
      using v(2,4) [OF c] low_in_pool by blast
    moreover have "\<forall>d\<in>live v. d \<noteq> c \<longrightarrow> tabs v c \<inter> (tabs v d \<union> frames_of (pages v d)) = {} \<and>
        frames_of (pages v c) \<inter> tabs v d = {}"
      using v(5,6) c by blast
    ultimately show "unused ?v = pool_frames - (\<Union>d\<in>live v - {c}. tabs ?v d \<union> frames_of (pages ?v d))"
      unfolding s(4) v(8) s(2,3) by auto
  next
    fix g assume g: "g \<in> pool_frames"
    show "refs ?v g = card (users_of v g - {c})"
      using v(9) [OF g] c by (auto simp: s(5) users_of_def)
  next
    fix x j g assume "x \<in> live v - {c}" "pages ?v x j = Some (g, True)"
    with v(10) [of x j g] show "users_of v g - {c} = {x}" by (auto simp: s(3))
  next
    fix x j k g w w'
    assume "x \<in> live v - {c}" "pages ?v x j = Some (g, w)" "pages ?v x k = Some (g, w')"
    then show "j = k" using v(7) [of x j g w k w'] by (simp add: s(3))
  qed (use v(1-6) in \<open>auto simp: s(2,3)\<close>)
qed

text \<open>No more spaces are alive than fit two tables each below the user window.\<close>

lemma live_bound:
  assumes "vspec_ok v"
  shows "card (live v) \<le> 104"
proof -
  note v = vspec_okD [OF assms]
  have fin: "finite (tabs v c)" if "c \<in> live v" for c
    using finite_subset [OF v(2) [OF that]] by (simp add: low_pool_def)
  have "2 * card (live v) = (\<Sum>c\<in>live v. card (tabs v c))"
    using v(1,3) by simp
  also have "\<dots> = card (\<Union>c\<in>live v. tabs v c)"
    using v(1,5) fin by (intro card_UN_disjoint [symmetric]) auto
  also have "\<dots> \<le> card low_pool"
    using v(2) by (intro card_mono) (auto simp: low_pool_def)
  finally show ?thesis by (simp add: low_pool_def)
qed

lemma refs_bound: "vspec_ok v \<Longrightarrow> f \<in> pool_frames \<Longrightarrow> refs v f \<le> 104"
  using vspec_okD(1) [of v] vspec_okD(9) [of v f] live_bound [of v] card_mono [of "live v" "users_of v f"]
  by (fastforce simp: users_of_def)

text \<open>When the last process is gone, every frame is free again.\<close>

lemma nothing_left: "vspec_ok v \<Longrightarrow> live v = {} \<Longrightarrow> unused v = pool_frames"
  using vspec_okD(8) [of v] by simp

subsection \<open>Steps\<close>

inductive vs_step :: "vspec \<Rightarrow> vspec \<Rightarrow> bool" where
  Create: "c \<notin> live v \<Longrightarrow> a \<noteq> b \<Longrightarrow> {a, b} \<subseteq> unused v \<inter> low_pool \<Longrightarrow> vs_step v (vs_create c a b v)"
| Map: "c \<in> live v \<Longrightarrow> pages v c i = None \<Longrightarrow> f \<in> unused v \<Longrightarrow> vs_step v (vs_map c i f v)"
| Fork: "p \<in> live v \<Longrightarrow> c \<notin> live v \<Longrightarrow> a \<noteq> b \<Longrightarrow> {a, b} \<subseteq> unused v \<inter> low_pool \<Longrightarrow> vs_step v (vs_fork p c a b v)"
| Copy: "c \<in> live v \<Longrightarrow> pages v c i = Some (old, False) \<Longrightarrow> f \<in> unused v \<Longrightarrow> vs_step v (vs_copy c i old f v)"
| Destroy: "c \<in> live v \<Longrightarrow> vs_step v (vs_destroy c v)"

lemma vs_step_ok: "vs_step v v' \<Longrightarrow> vspec_ok v \<Longrightarrow> vspec_ok v'"
  by (induction rule: vs_step.induct) (auto intro: vs_create_ok vs_map_ok vs_fork_ok vs_copy_ok vs_destroy_ok)

lemma vs_steps_ok: "vs_step\<^sup>*\<^sup>* v v' \<Longrightarrow> vspec_ok v \<Longrightarrow> vspec_ok v'"
  by (induction rule: rtranclp_induct) (auto intro: vs_step_ok)

end
