(* ===== verification/Spaces.thy ===== *)
theory Spaces
  imports Paging VmSpec
begin

section \<open>All address spaces together\<close>

text \<open>
  The operations of paging.c, run in any order on the memory of the machine, implement those of
  \<open>VmSpec\<close>: \<open>vm_abs\<close> reads the abstract state off the page tables and the allocator's two
  arrays, for a set \<open>L\<close> of directories the kernel holds on to (those the task table and the caller
  know of; nothing in memory lists them).  Memory operations use frames below the user window only:
  the allocator also has higher ones, which the kernel cannot address.
\<close>

definition pmap :: "mem \<Rightarrow> u32 \<Rightarrow> page_map" where
  "pmap m c i = (if user_page i \<and> uent m c i AND PTE_P \<noteq> 0
     then Some (fno (uent m c i), uent m c i AND PTE_W \<noteq> 0) else None)"

definition vm_abs :: "u32 set \<Rightarrow> pg_state \<Rightarrow> vspec" where
  "vm_abs L s = \<lparr>live = L, tabs = (\<lambda>c. if c \<in> L then {fno c, fno (ptab (ram s) c)} else {}),
     pages = (\<lambda>c. if c \<in> L then pmap (ram s) c else Map.empty),
     refs = (\<lambda>f. if f \<in> pool_frames then unat (frame_refs (mm s) ! f) else 0),
     unused = free_set (mm s)\<rparr>"

lemma vm_abs_sel [simp]:
  "live (vm_abs L s) = L" "unused (vm_abs L s) = free_set (mm s)"
  "c \<in> L \<Longrightarrow> tabs (vm_abs L s) c = {fno c, fno (ptab (ram s) c)}"
  "c \<in> L \<Longrightarrow> pages (vm_abs L s) c = pmap (ram s) c"
  "f \<in> pool_frames \<Longrightarrow> refs (vm_abs L s) f = unat (frame_refs (mm s) ! f)"
  by (simp_all add: vm_abs_def)

lemma vm_absI:
  fixes v :: vspec
  assumes "live v = L" "unused v = free_set (mm s)"
    and "\<And>c. tabs v c = (if c \<in> L then {fno c, fno (ptab (ram s) c)} else {})"
    and "\<And>c. pages v c = (if c \<in> L then pmap (ram s) c else Map.empty)"
    and "\<And>f. refs v f = (if f \<in> pool_frames then unat (frame_refs (mm s) ! f) else 0)"
  shows "vm_abs L s = v"
  using assms by (simp add: vm_abs_def fun_eq_iff)

lemma vm_abs_cr3 [simp]: "vm_abs L (s\<lparr>cr3 := c\<rparr>) = vm_abs L s"
  by (rule vm_absI) (auto simp: vm_abs_def)

text \<open>The shape of the tables in memory: one page table, the kernel's identity map, user bits set.\<close>

definition space_shape :: "mem \<Rightarrow> u32 \<Rightarrow> bool" where
  "space_shape m c \<longleftrightarrow> kmap m c \<and> load32 m c AND 7 = 7 \<and>
     (\<forall>d<1024. 0 < d \<longrightarrow> load32 m (slot c d) AND PTE_P = 0) \<and>
     (\<forall>i. user_page i \<longrightarrow> uent m c i AND PTE_P \<noteq> 0 \<longrightarrow> uent m c i AND PTE_U \<noteq> 0)"

definition vm_shape :: "u32 set \<Rightarrow> pg_state \<Rightarrow> bool" where
  "vm_shape L s \<longleftrightarrow> mm_ok (mm s) \<and> cr3 s \<in> insert KERNEL_PD L \<and> ptab (ram s) KERNEL_PD = KERNEL_PT \<and>
     pmap (ram s) KERNEL_PD = Map.empty \<and> (\<forall>c\<in>insert KERNEL_PD L. space_shape (ram s) c)"

definition vm_ok :: "u32 set \<Rightarrow> pg_state \<Rightarrow> bool" where
  "vm_ok L s \<longleftrightarrow> vm_shape L s \<and> vspec_ok (vm_abs L s)"

lemma frames_of_pmap: "frames_of (pmap m c) = user_frames m c"
  by (auto simp: frames_of_def pmap_def user_frames_def)

lemma space_shape_aligned: "space_shape m c \<Longrightarrow> page_aligned c"
  by (simp add: space_shape_def kmap_def)

text \<open>What a live space, and the kernel's own, look like.\<close>

lemma vm_space:
  assumes "vm_ok L s" "c \<in> L"
  shows "addr_space (ram s) (mm s) c" "space_shape (ram s) c" "page_aligned c"
    "fno c \<in> low_pool" "fno (ptab (ram s) c) \<in> low_pool" "fno c \<noteq> fno (ptab (ram s) c)"
    "user_frames (ram s) c \<subseteq> pool_frames" "user_frames (ram s) c \<inter> free_set (mm s) = {}"
    "fno c \<notin> user_frames (ram s) c" "fno (ptab (ram s) c) \<notin> user_frames (ram s) c"
proof -
  have ok: "vspec_ok (vm_abs L s)" and sh: "space_shape (ram s) c"
    using assms by (simp_all add: vm_ok_def vm_shape_def)
  note v = vspec_okD [OF ok]
  show "space_shape (ram s) c" by (rule sh)
  then show al: "page_aligned c" by (rule space_shape_aligned)
  have "{fno c, fno (ptab (ram s) c)} \<subseteq> low_pool" using v(2) [of c] assms(2) by simp
  then show low: "fno c \<in> low_pool" "fno (ptab (ram s) c) \<in> low_pool" by simp_all
  show ne: "fno c \<noteq> fno (ptab (ram s) c)"
    using v(3) [of c] assms(2) by (auto simp: card_insert_if split: if_splits)
  show "user_frames (ram s) c \<subseteq> pool_frames"
    using v(4) [of c] assms(2) by (simp add: frames_of_pmap)
  have f: "free_set (mm s) = pool_frames - (\<Union>c\<in>L. {fno c, fno (ptab (ram s) c)} \<union> user_frames (ram s) c)"
    using v(8) by (auto simp: frames_of_pmap)
  then show "user_frames (ram s) c \<inter> free_set (mm s) = {}" using assms(2) by auto
  show "fno c \<notin> user_frames (ram s) c" "fno (ptab (ram s) c) \<notin> user_frames (ram s) c"
    using v(6) [of c c] assms(2) by (simp_all add: frames_of_pmap)
  show "addr_space (ram s) (mm s) c"
    using sh ne low f assms(2) by (auto simp: addr_space_def space_shape_def kaddr_def user_page_def low_pool_def)
qed

lemma vm_kernel:
  assumes "vm_ok L s"
  shows "kernel_ok s" "KERNEL_PD \<notin> L" "mm_ok (mm s)" "free_set (mm s) \<subseteq> pool_frames"
proof -
  have ok: "vspec_ok (vm_abs L s)" and sh: "vm_shape L s"
    using assms by (simp_all add: vm_ok_def)
  show "free_set (mm s) \<subseteq> pool_frames" using vspec_okD(8) [OF ok] by auto
  then have "fno KERNEL_PD \<notin> free_set (mm s)" "fno KERNEL_PT \<notin> free_set (mm s)"
    by (auto simp: pool_frames_def pg_consts fno_def)
  then have A: "addr_space (ram s) (mm s) KERNEL_PD"
    using sh by (auto simp: vm_shape_def space_shape_def addr_space_def)
  show "mm_ok (mm s)" using sh by (simp add: vm_shape_def)
  then show "kernel_ok s"
    using sh A vm_space(1) [OF assms, of "cr3 s"] by (auto simp: vm_shape_def kernel_ok_def)
  show "KERNEL_PD \<notin> L"
    using vm_space(4) [OF assms, of KERNEL_PD] by (auto simp: low_pool_def pg_consts fno_def)
qed

lemma kernel_frames: "fno KERNEL_PD \<notin> pool_frames" "fno KERNEL_PT \<notin> pool_frames"
  by (simp_all add: pool_frames_def pg_consts fno_def)

lemma vm_proc:
  assumes "vm_ok L s" "cr3 s \<in> L"
  shows "proc_ok s"
proof -
  note c = vm_space [OF assms] and k = vm_kernel [OF assms(1)]
  have "cr3 s \<noteq> KERNEL_PD" "cr3 s \<noteq> KERNEL_PT" "ptab (ram s) (cr3 s) \<noteq> KERNEL_PD" "ptab (ram s) (cr3 s) \<noteq> KERNEL_PT"
    using c(4,5) low_in_pool kernel_frames by auto
  then show ?thesis using c(1,8) k(1) by (simp add: proc_ok_def space_ok_def)
qed

subsection \<open>Changes of memory confined to some frames\<close>

definition touches :: "nat set \<Rightarrow> mem \<Rightarrow> mem \<Rightarrow> bool" where
  "touches F m m' \<longleftrightarrow> (\<forall>x. fno x \<notin> F \<longrightarrow> m' x = m x)"

lemma space_untouched:
  assumes "touches F m m'" "page_aligned c" "fno c \<notin> F" "fno (ptab m c) \<notin> F"
  shows "ptab m' c = ptab m c" "pmap m' c = pmap m c" "space_shape m' c = space_shape m c"
    "i < 1024 \<Longrightarrow> uent m' c i = uent m c i"
proof -
  have l: "load32 m' a = load32 m a" if "aligned4 a" "fno a \<notin> F" for a
    using that assms(1) fno_fbase unfolding touches_def by (intro load32_page_other) metis+
  have s: "fno (slot p i) = fno p" if "page_aligned p" "i < 1024" for p i
    using fbase_slot [OF that] fno_fbase [of "slot p i"] by simp
  have pd: "load32 m' (slot c d) = load32 m (slot c d)" if "d < 1024" for d
    using that assms by (simp add: l aligned4_slot s)
  show pt: "ptab m' c = ptab m c"
    using pd [of 0] by (simp add: ptab_def)
  have u: "uent m' c i = uent m c i" if "i < 1024" for i
    unfolding uent_def pt using that assms by (simp add: l aligned4_slot s)
  then show "i < 1024 \<Longrightarrow> uent m' c i = uent m c i" .
  show "pmap m' c = pmap m c"
    using u user_page_less by (auto simp: pmap_def fun_eq_iff)
  have "kmap m' c = kmap m c"
    using u pd [of 0] pt by (auto simp: kmap_def uent_def)
  then show "space_shape m' c = space_shape m c"
    using u pd user_page_less unfolding space_shape_def by (auto simp del: One_nat_def) (metis slot_0 zero_less_numeral)+
qed

text \<open>Free frames are no tables; nor are the frames a live space maps.\<close>

lemma vm_tables_apart:
  assumes "vm_ok L s" "d \<in> insert KERNEL_PD L"
  shows "fno d \<notin> free_set (mm s)" "fno (ptab (ram s) d) \<notin> free_set (mm s)"
    "c \<in> L \<Longrightarrow> fno d \<notin> user_frames (ram s) c" "c \<in> L \<Longrightarrow> fno (ptab (ram s) d) \<notin> user_frames (ram s) c"
    "c \<in> L \<Longrightarrow> c \<noteq> d \<Longrightarrow> fno d \<noteq> fno (ptab (ram s) c) \<and> fno (ptab (ram s) d) \<noteq> fno (ptab (ram s) c)"
    "page_aligned d" "space_shape (ram s) d"
proof -
  have sh: "vm_shape L s" and ok: "vspec_ok (vm_abs L s)" using assms(1) by (simp_all add: vm_ok_def)
  note k = kernel_frames vm_kernel [OF assms(1)]
  note v = vspec_okD [OF ok]
  have K: "ptab (ram s) KERNEL_PD = KERNEL_PT" using sh by (simp add: vm_shape_def)
  show "space_shape (ram s) d" using sh assms(2) by (auto simp: vm_shape_def)
  then show "page_aligned d" by (rule space_shape_aligned)
  show "fno d \<notin> free_set (mm s)" "fno (ptab (ram s) d) \<notin> free_set (mm s)"
    using vm_space(1) [OF assms(1), of d] k assms(2) K by (auto simp: addr_space_def)
  show "fno d \<notin> user_frames (ram s) c" "fno (ptab (ram s) d) \<notin> user_frames (ram s) c" if "c \<in> L"
    using v(6) [of d c] vm_space(7) [OF assms(1) that] k(1,2) assms(2) that K by (auto simp: frames_of_pmap)
  show "fno d \<noteq> fno (ptab (ram s) c) \<and> fno (ptab (ram s) d) \<noteq> fno (ptab (ram s) c)" if c: "c \<in> L" "c \<noteq> d"
  proof (cases "d = KERNEL_PD")
    case True
    then show ?thesis using vm_space(5) [OF assms(1) c(1)] low_in_pool k(1,2) K by auto
  next
    case False
    then show ?thesis using v(5) [of d c] c assms(2) by auto
  qed
qed

lemma vm_others_free:
  assumes "vm_ok L s" "touches (free_set (mm s)) (ram s) m'" "d \<in> insert KERNEL_PD L"
  shows "ptab m' d = ptab (ram s) d" "pmap m' d = pmap (ram s) d" "space_shape m' d"
    "i < 1024 \<Longrightarrow> uent m' d i = uent (ram s) d i"
  using space_untouched [OF assms(2)] vm_tables_apart [OF assms(1,3)]
  by simp_all

text \<open>What a live space does to its page table, its pages and free frames, no other space sees.\<close>

lemma vm_others:
  assumes "vm_ok L s" "c \<in> L"
    and "touches (free_set (mm s) \<union> {fno (ptab (ram s) c)} \<union> user_frames (ram s) c) (ram s) m'"
    and "d \<in> insert KERNEL_PD L" "d \<noteq> c"
  shows "ptab m' d = ptab (ram s) d" "pmap m' d = pmap (ram s) d" "space_shape m' d"
    "i < 1024 \<Longrightarrow> uent m' d i = uent (ram s) d i"
  using space_untouched [OF assms(3)] vm_tables_apart [OF assms(1,4)] assms(2,5)
  by simp_all

subsection \<open>The operations implement their specifications\<close>

lemma pmap_empty: "(\<And>i. user_page i \<Longrightarrow> uent m c i AND PTE_P = 0) \<Longrightarrow> pmap m c = Map.empty"
  by (auto simp: pmap_def fun_eq_iff)

lemma low_poolI: "kaddr a \<Longrightarrow> fno a \<in> pool_frames \<Longrightarrow> fno a \<in> low_pool"
  by (auto simp: kaddr_def user_page_def low_pool_def pool_frames_def)

lemma create_refines:
  assumes ok: "vm_ok L s" and low: "2 \<le> card (low_frames s)"
  obtains c s' a b where "paging_create_addr_space s = Some (c, s')" "c \<noteq> 0" "c \<notin> L" "a \<noteq> b"
    "{a, b} \<subseteq> unused (vm_abs L s) \<inter> low_pool"
    "vm_abs (insert c L) s' = vs_create c a b (vm_abs L s)" "vm_shape (insert c L) s'"
proof -
  note k = vm_kernel [OF ok]
  have sh: "vm_shape L s" using ok by (simp add: vm_ok_def)
  obtain c s' where c: "paging_create_addr_space s = Some (c, s')" "c \<noteq> 0" "kernel_ok s'"
    "addr_space (ram s') (mm s') c" "\<forall>i. user_page i \<longrightarrow> uent (ram s') c i = 0"
    "fno c \<in> free_set (mm s)" "fno (ptab (ram s') c) \<in> free_set (mm s)" "cr3 s' = cr3 s"
    "c \<noteq> ptab (ram s') c" "free_set (mm s') = free_set (mm s) - {fno c, fno (ptab (ram s') c)}"
    "frame_refs (mm s') = frame_refs (mm s)"
    "\<forall>x. fbase x \<noteq> c \<longrightarrow> fbase x \<noteq> ptab (ram s') c \<longrightarrow> ram s' x = ram s x"
    "\<forall>d<1024. 0 < d \<longrightarrow> load32 (ram s') (slot c d) = load32 (ram s) (slot KERNEL_PD d)"
    by (rule create_addr_space_spec [OF k(1) low]) (rule that)
  have al: "page_aligned c" using c(4) by (simp add: addr_space_def kmap_def)
  have t: "touches (free_set (mm s)) (ram s) (ram s')"
    unfolding touches_def using c(6,7,12) fno_fbase by metis
  note o = vm_others_free [OF ok t]
  have cL: "c \<notin> L" using vm_tables_apart(1) [OF ok, of c] c(6) by auto
  have pm: "pmap (ram s') c = Map.empty" using c(5) by (intro pmap_empty) simp
  show thesis
  proof (rule that [OF c(1,2) cL])
    show "fno c \<noteq> fno (ptab (ram s') c)" using c(9) al by (simp add: fno_inject)
    show "{fno c, fno (ptab (ram s') c)} \<subseteq> unused (vm_abs L s) \<inter> low_pool"
      using c(4,6,7) k(4) by (auto simp: addr_space_def intro!: low_poolI)
    show "vm_abs (insert c L) s' = vs_create c (fno c) (fno (ptab (ram s') c)) (vm_abs L s)"
      using o cL pm c(10,11) by (auto simp: vm_abs_def vs_create_def fun_eq_iff)
    have "space_shape (ram s') c"
      using c(4,5,13) sh by (auto simp: space_shape_def addr_space_def vm_shape_def)
    then show "vm_shape (insert c L) s'"
      using o sh c(3,8) by (auto simp: vm_shape_def kernel_ok_def)
  qed
qed

lemma or7_flags:
  assumes "page_aligned f"
  shows "(f OR 7) AND PTE_P \<noteq> 0" "(f OR 7) AND PTE_W \<noteq> 0" "(f OR 7) AND PTE_U \<noteq> 0" "fno (f OR 7) = fno f"
  using and7D [OF flags_7(1) [OF assms]] fno_or_flags [OF assms, of 7]
  by (simp_all add: PTE_P_def PTE_W_def PTE_U_def)

lemma pmap_write:
  assumes "page_aligned f" "user_page i" "\<And>j. j < 1024 \<Longrightarrow> uent m' c j = (if j = i then f OR 7 else uent m c j)"
  shows "pmap m' c = (pmap m c)(i \<mapsto> (fno f, True))"
  using or7_flags [OF assms(1)] assms(2,3) user_page_less by (auto simp: pmap_def fun_eq_iff split: if_splits)

text \<open>The counts never reach the 255 at which they would stick.\<close>

lemma vm_count:
  assumes "vm_ok L s" "f \<in> pool_frames"
  shows "unat (frame_refs (mm s) ! f) \<le> 104"
  using refs_bound [of "vm_abs L s" f] assms by (simp add: vm_ok_def)

lemma unat_inc_count: "unat (x :: u8) \<le> 104 \<Longrightarrow> x < 255 \<and> unat (x + 1) = unat x + 1"
  by (simp add: word_less_nat_alt unat_word_ariths)

lemma pool_frame_count: "pool_frames \<subseteq> {0 <..< FRAME_COUNT}"
  by (auto simp: pool_frames_def FRAME_COUNT_def)

lemma ref_inc_count:
  assumes "mm_ok M" "f \<in> pool_frames" "unat (frame_refs M ! f) \<le> 104"
  shows "unat (frame_refs (mm_ref_inc f M) ! g) = (if g = f then unat (frame_refs M ! f) + 1 else unat (frame_refs M ! g))"
  using mm_ref_inc_spec(3) [OF assms(1), of f g] pool_frame_count assms(2) unat_inc_count [OF assms(3)] by auto

lemma page_table_pde:
  assumes "page_aligned c" "d < 1024" "\<And>x. fbase x = c \<Longrightarrow> m' x = m x"
  shows "load32 m' (slot c d) = load32 m (slot c d)"
  using assms by (intro load32_page_other) (auto simp: aligned4_slot fbase_slot)

text \<open>The shape of the running space after a change of its page table.\<close>

lemma shape_after:
  assumes "vm_ok L s" "c \<in> L" "addr_space m' M c"
    and "\<And>x. fbase x = c \<Longrightarrow> m' x = ram s x"
    and "\<And>i. user_page i \<Longrightarrow> uent m' c i AND PTE_P \<noteq> 0 \<Longrightarrow> uent m' c i AND PTE_U \<noteq> 0"
  shows "space_shape m' c"
proof -
  note c = vm_space [OF assms(1,2)]
  have "load32 m' (slot c d) AND PTE_P = 0" if "d < 1024" "0 < d" for d
    using page_table_pde [OF c(3) that(1), of m' "ram s"] assms(4) c(2) that by (simp add: space_shape_def)
  then show ?thesis using assms(3,5) by (simp add: space_shape_def addr_space_def)
qed

lemma vm_user_flag:
  "vm_ok L s \<Longrightarrow> c \<in> L \<Longrightarrow> user_page i \<Longrightarrow> uent (ram s) c i AND PTE_P \<noteq> 0 \<Longrightarrow> uent (ram s) c i AND PTE_U \<noteq> 0"
  using vm_space(2) [of L s c] by (simp add: space_shape_def)

lemma map_page_refines:
  assumes ok: "vm_ok L s" and c: "cr3 s \<in> L" and i: "user_page i"
  obtains r s' where "map_user_page (ptab (ram s) (cr3 s)) i s = Some (r, s')"
    "vs_step\<^sup>*\<^sup>* (vm_abs L s) (vm_abs L s')" "vm_shape L s'" "cr3 s' = cr3 s"
    "ptab (ram s') (cr3 s) = ptab (ram s) (cr3 s)" "\<forall>x. fbase x \<noteq> ptab (ram s) (cr3 s) \<longrightarrow> ram s' x = ram s x"
proof -
  note p = vm_proc [OF ok c] and k = vm_kernel [OF ok] and x = vm_space [OF ok c]
  have sh: "vm_shape L s" using ok by (simp add: vm_ok_def)
  show thesis
  proof (rule map_user_page_cases [OF p i], goal_cases)
    case 1
    then show ?case using that sh by blast
  next
    case 2
    then show ?case using that sh by blast
  next
    case (3 f s')
    have t: "touches (free_set (mm s) \<union> {fno (ptab (ram s) (cr3 s))} \<union> user_frames (ram s) (cr3 s)) (ram s) (ram s')"
      unfolding touches_def using 3(11) fno_fbase by (metis UnCI insertI1)
    note o = vm_others [OF ok c t]
    have f: "fno f \<in> pool_frames" using 3(5) k(4) by auto
    have pn: "pmap (ram s) (cr3 s) i = None" using 3(1) by (simp add: pmap_def)
    have pm: "pmap (ram s') (cr3 s) = (pmap (ram s) (cr3 s))(i \<mapsto> (fno f, True))"
      using 3(4,10) i by (intro pmap_write) simp_all
    have rf: "unat (frame_refs (mm s') ! g) =
        (if g = fno f then unat (frame_refs (mm s) ! g) + 1 else unat (frame_refs (mm s) ! g))" for g
      unfolding 3(12) using ref_inc_count [OF k(3) f vm_count [OF ok f]] by simp
    have pt: "ptab (ram s') d = ptab (ram s) d" if "d \<in> L" for d
      using o(1) 3(9) that by (cases "d = cr3 s") auto
    have "vm_abs L s' = vs_map (cr3 s) i (fno f) (vm_abs L s)"
      using pt o(2) c pm 3(6) rf f by (intro vm_absI) (auto simp: vs_map_def vm_abs_def)
    moreover have "vs_step (vm_abs L s) (vs_map (cr3 s) i (fno f) (vm_abs L s))"
      by (rule vs_step.Map) (use c pn 3(5) in simp_all)
    ultimately have st: "vs_step\<^sup>*\<^sup>* (vm_abs L s) (vm_abs L s')" by simp
    have A: "addr_space (ram s') (mm s') (cr3 s)" "mm_ok (mm s')"
      using 3(7,8) by (simp_all add: proc_ok_def kernel_ok_def)
    have "space_shape (ram s') (cr3 s)"
    proof (rule shape_after [OF ok c A(1)])
      show "ram s' y = ram s y" if "fbase y = cr3 s" for y
        using 3(11) that x(3,6) by (auto simp: fno_inject)
      show "uent (ram s') (cr3 s) j AND PTE_U \<noteq> 0" if "user_page j" "uent (ram s') (cr3 s) j AND PTE_P \<noteq> 0" for j
        using 3(10) that vm_user_flag [OF ok c that(1)] or7_flags [OF 3(4)] user_page_less [OF that(1)]
        by (auto split: if_splits)
    qed
    then have "vm_shape L s'"
      using o(1-3) sh A(2) 3(8) k(2) c unfolding vm_shape_def by (metis insert_iff)
    with st 3(3,8,9,11) that show ?case by blast
  qed
qed

text \<open>Every other page of the table is the kernel's and present: mapping it does nothing.\<close>

lemma map_kernel_page:
  assumes "kernel_ok s" "i < 1024" "\<not> user_page i"
  shows "map_user_page (ptab (ram s) (cr3 s)) i s = Some (True, s)"
proof -
  note k = kernel_okD [OF assms(1)]
  have "load32 (ram s) (slot (ptab (ram s) (cr3 s)) i) = of_nat i * 4096 OR 3"
    using assms by (auto simp: kernel_ok_def addr_space_def kmap_def)
  then have "load32 (ram s) (slot (ptab (ram s) (cr3 s)) i) AND PTE_P \<noteq> 0"
    using kmap_entry(3) [OF assms(2), of False] by (simp add: pte_allows_def)
  then show ?thesis
    using k assms(2) by (simp add: map_user_page_def kernel_access kaddr_slot)
qed

lemma map_any_page:
  assumes ok: "vm_ok L s" and c: "cr3 s \<in> L" and i: "i < 1024"
  obtains r s' where "map_user_page (ptab (ram s) (cr3 s)) i s = Some (r, s')"
    "vs_step\<^sup>*\<^sup>* (vm_abs L s) (vm_abs L s')" "vm_ok L s'" "cr3 s' = cr3 s"
    "ptab (ram s') (cr3 s) = ptab (ram s) (cr3 s)" "\<forall>x. fbase x \<noteq> ptab (ram s) (cr3 s) \<longrightarrow> ram s' x = ram s x"
proof (cases "user_page i")
  case True
  obtain r s' where m: "map_user_page (ptab (ram s) (cr3 s)) i s = Some (r, s')"
    "vs_step\<^sup>*\<^sup>* (vm_abs L s) (vm_abs L s')" "vm_shape L s'" "cr3 s' = cr3 s"
    "ptab (ram s') (cr3 s) = ptab (ram s) (cr3 s)" "\<forall>x. fbase x \<noteq> ptab (ram s) (cr3 s) \<longrightarrow> ram s' x = ram s x"
    by (rule map_page_refines [OF ok c True])
  then have "vm_ok L s'" using vs_steps_ok ok by (auto simp: vm_ok_def)
  with m that show thesis by blast
next
  case False
  then show thesis using map_kernel_page [OF vm_kernel(1) [OF ok] i] ok that [of True s] by blast
qed

lemma map_pages_refines:
  assumes "vm_ok L s" "cr3 s \<in> L" "\<forall>i\<in>set is. i < 1024"
  shows "\<exists>r s'. map_pages (ptab (ram s) (cr3 s)) is s = Some (r, s') \<and>
    vs_step\<^sup>*\<^sup>* (vm_abs L s) (vm_abs L s') \<and> vm_shape L s'"
  using assms
proof (induction "is" arbitrary: s)
  case Nil
  then show ?case by (auto simp: vm_ok_def)
next
  case (Cons i js)
  obtain r t where t: "map_user_page (ptab (ram s) (cr3 s)) i s = Some (r, t)"
    "vs_step\<^sup>*\<^sup>* (vm_abs L s) (vm_abs L t)" "vm_ok L t" "cr3 t = cr3 s"
    "ptab (ram t) (cr3 s) = ptab (ram s) (cr3 s)"
    by (rule map_any_page [OF Cons.prems(1,2)]) (use Cons.prems(3) in auto)
  show ?case
  proof (cases r)
    case False
    then show ?thesis using t by (auto simp: vm_ok_def)
  next
    case True
    obtain r' u where "map_pages (ptab (ram t) (cr3 t)) js t = Some (r', u)"
      "vs_step\<^sup>*\<^sup>* (vm_abs L t) (vm_abs L u)" "vm_shape L u"
      using Cons.IH [OF t(3)] t(4) Cons.prems(2,3) by auto
    then show ?thesis
      using True t rtranclp_trans [OF t(2)] by auto
  qed
qed

lemma pde_present: "kernel_ok s \<Longrightarrow> load32 (ram s) (cr3 s) AND PTE_P \<noteq> 0"
  using and7D [of "load32 (ram s) (cr3 s)"] by (simp add: kernel_ok_def addr_space_def PTE_P_def)

text \<open>Any request to map, from any caller: beyond the first 4 MB there is no table, and it fails.\<close>

lemma map_region_cases:
  assumes ok: "vm_ok L s" and c: "cr3 s \<in> L"
  obtains (nothing) r where "paging_map_user_region (cr3 s) v n s = Some (r, s)"
      "r \<longleftrightarrow> n = 0"
    | (run) "fno v < 1024" "n \<noteq> 0" "paging_map_user_region (cr3 s) v n s = map_pages (ptab (ram s) (cr3 s))
        [fno v ..< Suc (unat (drop_bit 12 (v + n - 1) AND 0x3FF))] s"
proof (cases "n = 0")
  case True
  then have "paging_map_user_region (cr3 s) v n s = Some (True, s)" by (simp add: paging_map_user_region_def)
  then show thesis by (rule nothing) (simp add: True)
next
  case False
  note k = kernel_okD [OF vm_kernel(1) [OF ok]]
  let ?d = "unat (drop_bit 22 v AND 0x3FF)"
  have d: "?d < 1024" by (simp add: unat_and_0x3FF)
  have ld: "kld32 (slot (cr3 s) ?d) s = Some (load32 (ram s) (slot (cr3 s) ?d))"
    using k d by (simp add: kernel_access kaddr_slot)
  show thesis
  proof (cases "?d = 0")
    case True
    have "fno v < 1024"
    proof -
      have "unat v < 2 ^ 32" using unsigned_less [of v, where 'a = nat] by simp
      then have "unat v div 4194304 < 1024" by simp
      moreover have "unat (drop_bit 22 v AND 0x3FF) = unat v div 4194304 mod 1024"
        by (simp only: unat_and_0x3FF unat_shr) simp
      ultimately have "unat v div 4194304 = 0" using True by simp
      then show ?thesis by (simp add: fno_def div_eq_0_iff)
    qed
    then have "unat (drop_bit 12 v AND 0x3FF) = fno v" by (simp add: kaddr_index)
    with True False ld pde_present [OF vm_kernel(1) [OF ok]] \<open>fno v < 1024\<close> show thesis
      by (intro run) (simp_all add: paging_map_user_region_def Let_def ptab_def fbase_def slot_0 del: upt_Suc)
  next
    case F: False
    then have "load32 (ram s) (slot (cr3 s) ?d) AND PTE_P = 0"
      using vm_space(2) [OF ok c] d by (simp add: space_shape_def)
    with False ld have "paging_map_user_region (cr3 s) v n s = Some (False, s)"
      by (simp add: paging_map_user_region_def)
    then show thesis by (rule nothing) (simp add: False)
  qed
qed

text \<open>The counts after a fork and after a destruction.\<close>

lemma share_refs_count:
  assumes "mm_ok M" "distinct js" "\<forall>j\<in>set js. e j AND PTE_P \<noteq> 0 \<longrightarrow> fno (e j) \<in> pool_frames"
    and "\<forall>f\<in>pool_frames. unat (frame_refs M ! f) \<le> 104"
    and "\<forall>i\<in>set js. \<forall>j\<in>set js. e i AND PTE_P \<noteq> 0 \<longrightarrow> e j AND PTE_P \<noteq> 0 \<longrightarrow> fno (e i) = fno (e j) \<longrightarrow> i = j"
  shows "unat (frame_refs (share_refs e js M) ! g) =
    unat (frame_refs M ! g) + (if g \<in> (\<lambda>j. fno (e j)) ` {j \<in> set js. e j AND PTE_P \<noteq> 0} then 1 else 0)"
  using assms(2,3,5)
proof (induction js arbitrary: g rule: rev_induct)
  case (snoc j js)
  let ?N = "share_refs e js M"
  have IH: "unat (frame_refs ?N ! g) =
    unat (frame_refs M ! g) + (if g \<in> (\<lambda>j. fno (e j)) ` {j \<in> set js. e j AND PTE_P \<noteq> 0} then 1 else 0)" for g
    using snoc.IH snoc.prems by simp
  show ?case
  proof (cases "e j AND PTE_P = 0")
    case True
    then have "{i \<in> set (js @ [j]). e i AND PTE_P \<noteq> 0} = {i \<in> set js. e i AND PTE_P \<noteq> 0}" by auto
    with True IH show ?thesis by (simp add: share_refs_def)
  next
    case False
    have f: "fno (e j) \<in> pool_frames" using snoc.prems False by simp
    have new: "fno (e j) \<notin> (\<lambda>j. fno (e j)) ` {j \<in> set js. e j AND PTE_P \<noteq> 0}"
      using snoc.prems False by auto
    then have le: "unat (frame_refs ?N ! fno (e j)) \<le> 104" using IH assms(4) f by simp
    have "frame_refs (share_refs e (js @ [j]) M) = frame_refs (mm_ref_inc (fno (e j)) ?N)"
      using False by (simp add: share_refs_def)
    moreover have "{i \<in> set (js @ [j]). e i AND PTE_P \<noteq> 0} = insert j {i \<in> set js. e i AND PTE_P \<noteq> 0}"
      using False by auto
    ultimately show ?thesis
      using new ref_inc_count [OF share_refs_ok [OF assms(1)] f le] IH by auto
  qed
qed (simp add: share_refs_def)

lemma ref_dec_count:
  assumes "mm_ok M" "f \<in> pool_frames"
  shows "unat (frame_refs (mm_ref_dec f M) ! g) = (if g = f then unat (frame_refs M ! f) - 1 else unat (frame_refs M ! g))"
proof -
  have f: "0 < f" "f < FRAME_COUNT" using pool_frame_count assms(2) by auto
  have "length (frame_refs M) = FRAME_COUNT" using assms(1) by (simp add: mm_ok_def mm_wf_def)
  then show ?thesis
    using mm_ref_dec_spec(3) [OF assms(1) f] f(2)
    by (auto simp: nth_list_update word_gt_0 unat_minus_one)
qed

lemma drop_refs_count:
  assumes "mm_ok M" "distinct js" "\<forall>j\<in>set js. e j AND PTE_P \<noteq> 0 \<longrightarrow> fno (e j) \<in> pool_frames"
    and "\<forall>i\<in>set js. \<forall>j\<in>set js. e i AND PTE_P \<noteq> 0 \<longrightarrow> e j AND PTE_P \<noteq> 0 \<longrightarrow> fno (e i) = fno (e j) \<longrightarrow> i = j"
  shows "mm_ok (drop_refs e js M) \<and> unat (frame_refs (drop_refs e js M) ! g) =
    unat (frame_refs M ! g) - (if g \<in> (\<lambda>j. fno (e j)) ` {j \<in> set js. e j AND PTE_P \<noteq> 0} then 1 else 0)"
  using assms(2-4)
proof (induction js arbitrary: g rule: rev_induct)
  case (snoc j js)
  let ?N = "drop_refs e js M"
  have IH: "mm_ok ?N" "unat (frame_refs ?N ! g) =
    unat (frame_refs M ! g) - (if g \<in> (\<lambda>j. fno (e j)) ` {j \<in> set js. e j AND PTE_P \<noteq> 0} then 1 else 0)" for g
    using snoc.IH snoc.prems by simp_all
  show ?case
  proof (cases "e j AND PTE_P = 0")
    case True
    then have "{i \<in> set (js @ [j]). e i AND PTE_P \<noteq> 0} = {i \<in> set js. e i AND PTE_P \<noteq> 0}" by auto
    with True IH show ?thesis by (simp add: drop_refs_def)
  next
    case False
    have f: "fno (e j) \<in> pool_frames" using snoc.prems False by simp
    have new: "fno (e j) \<notin> (\<lambda>j. fno (e j)) ` {j \<in> set js. e j AND PTE_P \<noteq> 0}"
      using snoc.prems False by auto
    have "drop_refs e (js @ [j]) M = mm_ref_dec (fno (e j)) ?N"
      using False by (simp add: drop_refs_def)
    moreover have "{i \<in> set (js @ [j]). e i AND PTE_P \<noteq> 0} = insert j {i \<in> set js. e i AND PTE_P \<noteq> 0}"
      using False by auto
    ultimately show ?thesis
      using new ref_dec_count [OF IH(1) f] mm_ref_dec_spec(2) [OF IH(1)] f pool_frame_count IH(2) by auto
  qed
qed (use assms(1) in \<open>simp add: drop_refs_def\<close>)

lemma vm_inj:
  assumes "vm_ok L s" "c \<in> L" "user_page i" "user_page j" "uent (ram s) c i AND PTE_P \<noteq> 0" "uent (ram s) c j AND PTE_P \<noteq> 0"
    and "fno (uent (ram s) c i) = fno (uent (ram s) c j)"
  shows "i = j"
  using vspec_okD(7) [of "vm_abs L s" c i "fno (uent (ram s) c i)" _ j] assms by (simp add: vm_ok_def pmap_def)

lemma user_frames_list:
  "user_frames m c = (\<lambda>j. fno (uent m c j)) ` {j \<in> set [512 ..< 768]. uent m c j AND PTE_P \<noteq> 0}"
  by (auto simp: user_frames_def user_page_def)

lemma pmap_shared:
  assumes "\<And>i. user_page i \<Longrightarrow> uent m' c' i = shared_entry (uent m c i)"
  shows "pmap m' c' = read_only (pmap m c)"
  using assms by (auto simp: pmap_def read_only_def shared_entry_flags fun_eq_iff)

lemma fork_refines:
  assumes ok: "vm_ok L s" and p: "cr3 s \<in> L" and low: "2 \<le> card (low_frames s)"
  obtains c s' a b where "paging_fork_addr_space (cr3 s) s = Some (c, s')" "c \<noteq> 0" "c \<notin> L" "a \<noteq> b"
    "{a, b} \<subseteq> unused (vm_abs L s) \<inter> low_pool"
    "vm_abs (insert c L) s' = vs_fork (cr3 s) c a b (vm_abs L s)" "vm_shape (insert c L) s'" "cr3 s' = cr3 s"
proof -
  note pr = vm_proc [OF ok p] and k = vm_kernel [OF ok] and x = vm_space [OF ok p]
  have sh: "vm_shape L s" using ok by (simp add: vm_ok_def)
  obtain c s' where c: "paging_fork_addr_space (cr3 s) s = Some (c, s')" "c \<noteq> 0" "cr3 s' = cr3 s"
    "fno c \<in> free_set (mm s)" "fno (ptab (ram s') c) \<in> free_set (mm s)" "c \<noteq> ptab (ram s') c"
    "addr_space (ram s') (mm s') c" "addr_space (ram s') (mm s') (cr3 s)" "ptab (ram s') (cr3 s) = ptab (ram s) (cr3 s)"
    "\<forall>i. user_page i \<longrightarrow> uent (ram s') c i = shared_entry (uent (ram s) (cr3 s) i) \<and>
       uent (ram s') (cr3 s) i = shared_entry (uent (ram s) (cr3 s) i)"
    "\<forall>x. fno x \<notin> free_set (mm s) \<longrightarrow> fbase x \<noteq> ptab (ram s) (cr3 s) \<longrightarrow> ram s' x = ram s x"
    "free_set (mm s') = free_set (mm s) - {fno c, fno (ptab (ram s') c)}" "mm_ok (mm s')"
    "frame_refs (mm s') = frame_refs (share_refs (uent (ram s) (cr3 s)) [512 ..< 768] (mm s))"
    "\<forall>d<1024. 0 < d \<longrightarrow> load32 (ram s') (slot c d) = load32 (ram s) (slot (cr3 s) d)"
    by (rule fork_spec [OF pr low]) (rule that)
  have al: "page_aligned c" using c(7) by (simp add: addr_space_def kmap_def)
  have t: "touches (free_set (mm s) \<union> {fno (ptab (ram s) (cr3 s))} \<union> user_frames (ram s) (cr3 s)) (ram s) (ram s')"
    unfolding touches_def using c(11) fno_fbase by (metis UnCI insertI1)
  note o = vm_others [OF ok p t]
  have cL: "c \<notin> L" using vm_tables_apart(1) [OF ok, of c] c(4) by auto
  have pm: "pmap (ram s') c = read_only (pmap (ram s) (cr3 s))" "pmap (ram s') (cr3 s) = read_only (pmap (ram s) (cr3 s))"
    using c(10) by (simp_all add: pmap_shared)
  have rf: "unat (frame_refs (mm s') ! g) =
      unat (frame_refs (mm s) ! g) + (if g \<in> user_frames (ram s) (cr3 s) then 1 else 0)" for g
    unfolding c(14) user_frames_list
    by (rule share_refs_count [OF k(3)])
      (use x(7) vm_count [OF ok] vm_inj [OF ok p] in \<open>auto simp: user_frames_def user_page_def\<close>)
  have pt: "ptab (ram s') d = ptab (ram s) d" if "d \<in> L" for d
    using o(1) c(9) that by (cases "d = cr3 s") auto
  have ushape: "space_shape (ram s') (cr3 s)"
  proof (rule shape_after [OF ok p c(8)])
    show "ram s' y = ram s y" if "fbase y = cr3 s" for y
      using c(11) that x(3,6) vm_tables_apart(1) [OF ok, of "cr3 s"] p fno_fbase [of y] by (auto simp: fno_inject)
  qed (use c(10) vm_user_flag [OF ok p] shared_entry_flags in auto)
  have cshape: "space_shape (ram s') c"
    using c(7,10,15) x(2) shared_entry_flags by (auto simp: space_shape_def addr_space_def)
  show thesis
  proof (rule that [OF c(1,2) cL])
    show "fno c \<noteq> fno (ptab (ram s') c)" using c(6) al by (simp add: fno_inject)
    show "{fno c, fno (ptab (ram s') c)} \<subseteq> unused (vm_abs L s) \<inter> low_pool"
      using c(4,5,7) k(4) by (auto simp: addr_space_def intro!: low_poolI)
    show "vm_abs (insert c L) s' = vs_fork (cr3 s) c (fno c) (fno (ptab (ram s') c)) (vm_abs L s)"
      using pt o(2) cL p pm c(12) rf x(7)
      by (intro vm_absI) (auto simp: vs_fork_def vm_abs_def frames_of_pmap)
    show "vm_shape (insert c L) s'"
      using o(1-3) sh c(3,13) k(2) p ushape cshape unfolding vm_shape_def by (metis insert_iff)
  qed (rule c(3))
qed

lemma copy_counts:
  assumes "mm_ok M" "f \<in> pool_frames" "old \<in> pool_frames" "f \<noteq> old" "unat (frame_refs M ! f) \<le> 104" "old \<notin> free_set M"
  shows "mm_ok (mm_ref_inc f (mm_ref_dec old M))"
    "free_set (mm_ref_inc f (mm_ref_dec old M)) = free_set M \<union> (if unat (frame_refs M ! old) \<le> 1 then {old} else {})"
    "unat (frame_refs (mm_ref_inc f (mm_ref_dec old M)) ! g) = (if g = f then unat (frame_refs M ! g) + 1
      else if g = old then unat (frame_refs M ! g) - 1 else unat (frame_refs M ! g))"
proof -
  have b: "0 < old" "old < FRAME_COUNT" "f < FRAME_COUNT" using assms(2,3) pool_frame_count by auto
  let ?D = "mm_ref_dec old M"
  have D: "mm_ok ?D" "free_set ?D = free_set M \<union> (if unat (frame_refs M ! old) \<le> 1 then {old} else {})"
    using mm_ref_dec_spec [OF assms(1) b(1,2)] assms(6) by (auto simp: ref_drops_def word_le_nat_alt)
  note dc = ref_dec_count [OF assms(1,3)]
  have le: "unat (frame_refs ?D ! f) \<le> 104" using dc [of f] assms(4,5) by simp
  show "mm_ok (mm_ref_inc f ?D)" "free_set (mm_ref_inc f ?D) = free_set M \<union> (if unat (frame_refs M ! old) \<le> 1 then {old} else {})"
    using mm_ref_inc_spec(1,2) [OF D(1) b(3)] D(2) by simp_all
  show "unat (frame_refs (mm_ref_inc f ?D) ! g) = (if g = f then unat (frame_refs M ! g) + 1
      else if g = old then unat (frame_refs M ! g) - 1 else unat (frame_refs M ! g))"
    using ref_inc_count [OF D(1) assms(2) le, of g] dc [of g] dc [of f] assms(4) by simp
qed

lemma cow_refines:
  assumes ok: "vm_ok L s" and c: "cr3 s \<in> L" and i: "user_page (fno va)"
    and err: "err AND PTE_U \<noteq> 0" "err AND PTE_W \<noteq> 0"
    and e: "pmap (ram s) (cr3 s) (fno va) = Some (old, False)" and low: "old \<in> low_pool" "low_frames s \<noteq> {}"
  obtains s' f where "paging_cow_fault va err s = Some (True, s')" "f \<in> unused (vm_abs L s)"
    "vm_abs L s' = vs_copy (cr3 s) (fno va) old f (vm_abs L s)" "vm_shape L s'" "cr3 s' = cr3 s"
proof -
  note pr = vm_proc [OF ok c] and k = vm_kernel [OF ok] and x = vm_space [OF ok c]
  have sh: "vm_shape L s" using ok by (simp add: vm_ok_def)
  let ?e = "uent (ram s) (cr3 s) (fno va)"
  have u: "uentP s (fno va)" "?e AND PTE_W = 0" "fno ?e = old"
    using e by (auto simp: pmap_def uentP_def split: if_splits)
  have ke: "kaddr ?e" using u(3) low(1) by (simp add: kaddr_def user_page_def low_pool_def)
  obtain nf M s' where n: "paging_cow_fault va err s = Some (True, s')"
    "page_aligned nf" "fno nf \<in> free_set (mm s)" "fno nf < 512" "nf \<noteq> ptab (ram s) (cr3 s)"
    "mm_ok M" "free_set M = free_set (mm s) - {fno nf}" "frame_refs M = frame_refs (mm s)"
    "s' = s\<lparr>ram := store32 (page_copy (ram s) nf (fbase ?e)) (slot (ptab (ram s) (cr3 s)) (fno va)) (nf OR 7),
            mm := mm_ref_inc (fno nf) (mm_ref_dec (fno ?e) M)\<rparr>"
    by (rule cow_fault_spec [OF pr i err u(1,2) ke low(2)]) (rule that)
  let ?pt = "ptab (ram s) (cr3 s)" and ?m1 = "page_copy (ram s) nf (fbase ?e)"
  have i': "fno va < 1024" by (rule user_page_less [OF i])
  have al: "page_aligned ?pt" by simp
  have t1: "touches (free_set (mm s)) (ram s) ?m1"
    unfolding touches_def using n(3) fno_fbase page_copy_other by metis
  have same: "ptab ?m1 (cr3 s) = ?pt" "j < 1024 \<Longrightarrow> uent ?m1 (cr3 s) j = uent (ram s) (cr3 s) j" for j
    using vm_others_free(1,4) [OF ok t1, of "cr3 s"] c by auto
  have keep: "?m1 y = ram s y" if "fbase y = cr3 s \<or> fbase y = ?pt" for y
    using that n(3,5) vm_tables_apart(1) [OF ok, of "cr3 s"] c by (intro page_copy_other) auto
  have A1: "addr_space ?m1 (mm s) (cr3 s)"
    using addr_space_outside(1) [OF x(1) keep] by simp
  have A2: "addr_space (ram s') (mm s) (cr3 s)"
    using uent_store(2) [OF A1 i' i', of "nf OR 7"] i by (simp add: n(9) same)
  have ue: "uent (ram s') (cr3 s) j = (if j = fno va then nf OR 7 else uent (ram s) (cr3 s) j)" if "j < 1024" for j
    using uent_store(1) [OF A1 i' that, of "nf OR 7"] i that by (simp add: n(9) same)
  have st: "store32 m (slot ?pt (fno va)) v y = m y" if "fbase y \<noteq> ?pt" for m v y
    using that i' by (simp add: store32_other_page aligned4_slot fbase_slot)
  have t: "touches (free_set (mm s) \<union> {fno ?pt} \<union> user_frames (ram s) (cr3 s)) (ram s) (ram s')"
    unfolding touches_def n(9) using t1 [unfolded touches_def] st fno_fbase
    by (metis (no_types, lifting) UnCI insertI1 pg_state.select_convs(1) pg_state.surjective pg_state.update_convs(1,6))
  note o = vm_others [OF ok c t]
  have "ptab (ram s') (cr3 s) = ptab ?m1 (cr3 s)"
    using kmap_store_slot(2) [of ?m1 "cr3 s" "fno va" "nf OR 7"] A1 i i' by (simp add: n(9) addr_space_def same)
  then have pt: "ptab (ram s') d = ptab (ram s) d" if "d \<in> L" for d
    using o(1) same(1) that by (cases "d = cr3 s") auto
  have pm: "pmap (ram s') (cr3 s) = (pmap (ram s) (cr3 s))(fno va \<mapsto> (fno nf, True))"
    using n(2) i ue by (rule pmap_write)
  have op: "old \<in> pool_frames" "old \<notin> free_set (mm s)" "fno nf \<in> pool_frames" "fno nf \<noteq> old"
    using low(1) low_in_pool u i x(8) n(3) k(4) by (auto simp: user_frames_def uentP_def)
  have "unat (frame_refs M ! fno nf) \<le> 104" "old \<notin> free_set M"
    using vm_count [OF ok op(3)] op(2) n(7,8) by simp_all
  note cc = copy_counts [OF n(6) op(3,1,4) this]
  have mok: "mm_ok (mm s')" and fs: "free_set (mm s') = free_set (mm s) - {fno nf} \<union> (if unat (frame_refs (mm s) ! old) \<le> 1 then {old} else {})"
    and rf: "unat (frame_refs (mm s') ! g) = (if g = fno nf then unat (frame_refs (mm s) ! g) + 1
      else if g = old then unat (frame_refs (mm s) ! g) - 1 else unat (frame_refs (mm s) ! g))" for g
    using cc(1,2) cc(3) [of g] n(7,8) by (simp_all add: n(9) u(3))
  have ushape: "space_shape (ram s') (cr3 s)"
  proof (rule shape_after [OF ok c A2])
    show "ram s' y = ram s y" if "fbase y = cr3 s" for y
      using that keep [of y] st [of y] x(6) by (simp add: n(9)) (metis fno_fbase)
    show "uent (ram s') (cr3 s) j AND PTE_U \<noteq> 0" if "user_page j" "uent (ram s') (cr3 s) j AND PTE_P \<noteq> 0" for j
      using ue [OF user_page_less [OF that(1)]] that vm_user_flag [OF ok c that(1)] or7_flags [OF n(2)]
      by (auto split: if_splits)
  qed
  show thesis
  proof (rule that [OF n(1)])
    show "fno nf \<in> unused (vm_abs L s)" using n(3) by simp
    show "vm_abs L s' = vs_copy (cr3 s) (fno va) old (fno nf) (vm_abs L s)"
      using pt o(2) c pm fs rf op by (intro vm_absI) (auto simp: vs_copy_def vm_abs_def)
    show "vm_shape L s'"
      using o(1-3) sh mok k(2) c ushape n(9) unfolding vm_shape_def
      by (metis (no_types, lifting) insert_iff pg_state.select_convs(3) pg_state.surjective pg_state.update_convs(1,6))
  qed (simp add: n(9))
qed

lemma destroy_refines:
  assumes ok: "vm_ok L s" and c: "c \<in> L" "c \<noteq> cr3 s"
  obtains s' where "paging_destroy_addr_space c s = Some s'"
    "vm_abs (L - {c}) s' = vs_destroy c (vm_abs L s)" "vm_shape (L - {c}) s'" "s' = s\<lparr>mm := mm s'\<rparr>"
proof -
  note k = vm_kernel [OF ok] and x = vm_space [OF ok c(1)]
  have sh: "vm_shape L s" using ok by (simp add: vm_ok_def)
  let ?pt = "ptab (ram s) c" and ?e = "uent (ram s) c"
  have ne: "c \<noteq> KERNEL_PD" "?pt \<noteq> KERNEL_PT" "?pt \<noteq> KERNEL_PD" "0 < fno c" "0 < fno ?pt"
    using x(4,5) low_in_pool kernel_frames by (auto simp: low_pool_def)
  have one: "\<forall>d<1024. 0 < d \<longrightarrow> load32 (ram s) (slot c d) AND PTE_P = 0"
    using x(2) by (simp add: space_shape_def)
  have sp: "space_ok (ram s) (mm s) c" using x(1,8) by (simp add: space_ok_def)
  have inj: "\<forall>i j. user_page i \<longrightarrow> user_page j \<longrightarrow> ?e i AND PTE_P \<noteq> 0 \<longrightarrow> ?e j AND PTE_P \<noteq> 0 \<longrightarrow> fno (?e i) = fno (?e j) \<longrightarrow> i = j"
    using vm_inj [OF ok c(1)] by blast
  have bnd: "\<forall>f\<in>user_frames (ram s) c. 0 < f \<and> f < FRAME_COUNT"
    using x(7) pool_frame_count by auto
  obtain M where M: "paging_destroy_addr_space c s = Some (s\<lparr>mm := M\<rparr>)" "mm_ok M"
    "free_set M = free_set (mm s) \<union> {fno c, fno ?pt} \<union> own_frames (ram s) (mm s) c"
    by (rule destroy_spec [OF k(1) sp ne one inj bnd]) (rule that)
  have "s\<lparr>mm := M\<rparr> = s\<lparr>mm := frame_free c (frame_free ?pt (drop_refs ?e [512 ..< 768] (mm s)))\<rparr>"
    using destroy_run [OF k(1) x(1) ne(1-3) one] M(1) by simp
  then have "M = frame_free c (frame_free ?pt (drop_refs ?e [512 ..< 768] (mm s)))"
    by (metis pg_state.select_convs(6) pg_state.surjective pg_state.update_convs(6))
  then have fr: "frame_refs M = frame_refs (drop_refs ?e [512 ..< 768] (mm s))"
    by (simp add: frame_free_def Let_def)
  have rf: "unat (frame_refs M ! g) = unat (frame_refs (mm s) ! g) - (if g \<in> user_frames (ram s) c then 1 else 0)" for g
    unfolding user_frames_list fr
    by (rule conjunct2 [OF drop_refs_count [OF k(3)]])
      (use inj x(7) in \<open>auto simp: user_frames_def user_page_def\<close>)
  have own: "own_frames (ram s) (mm s) c = {f \<in> user_frames (ram s) c. unat (frame_refs (mm s) ! f) \<le> 1}"
    by (simp add: own_frames_def word_le_nat_alt)
  show thesis
  proof (rule that [OF M(1)])
    show "vm_abs (L - {c}) (s\<lparr>mm := M\<rparr>) = vs_destroy c (vm_abs L s)"
      using c(1) rf own M(3) x(7) by (intro vm_absI) (auto simp: vs_destroy_def vm_abs_def frames_of_pmap)
    show "vm_shape (L - {c}) (s\<lparr>mm := M\<rparr>)"
      using sh M(2) c k(2) by (auto simp: vm_shape_def)
  qed simp
qed

subsection \<open>Failing operations\<close>

definition low_enough :: "nat \<Rightarrow> pg_state \<Rightarrow> bool" where
  "low_enough n s \<longleftrightarrow> n \<le> card (low_frames s) \<or> card (free_set (mm s)) < n"

lemma vm_abs_same:
  "ram s' = ram s \<Longrightarrow> cr3 s' = cr3 s \<Longrightarrow> mm_ok (mm s') \<Longrightarrow> free_set (mm s') = free_set (mm s) \<Longrightarrow>
   frame_refs (mm s') = frame_refs (mm s) \<Longrightarrow> vm_shape L s \<Longrightarrow> vm_abs L s' = vm_abs L s \<and> vm_shape L s'"
  by (simp add: vm_abs_def vm_shape_def cong: if_cong)

lemma alloc_tables_fails:
  assumes ok: "vm_ok L s" and few: "card (free_set (mm s)) < 2"
  obtains s' where "alloc_tables s = (None, s')" "vm_abs L s' = vm_abs L s" "vm_shape L s'"
proof -
  note k = vm_kernel [OF ok]
  obtain r s' where r: "alloc_tables s = (r, s')" by fastforce
  show thesis
  proof (cases r)
    case None
    from alloc_tables_None [OF k(3) r [unfolded None]] obtain M where
      "s' = s\<lparr>mm := M\<rparr>" "free_set M = free_set (mm s)" "mm_ok M" "frame_refs M = frame_refs (mm s)" by blast
    then show thesis using that [of s'] r None vm_abs_same [of s' s L] ok by (simp add: vm_ok_def)
  next
    case (Some p)
    obtain pd pt where p: "p = (pd, pt)" by fastforce
    obtain "page_aligned pd" "page_aligned pt" "pd \<noteq> pt" "fno pd \<in> free_set (mm s)" "fno pt \<in> free_set (mm s)"
      by (rule alloc_tables_Some [OF k(3) r [unfolded Some p]]) (rule that)
    then have "card {fno pd, fno pt} \<le> card (free_set (mm s))"
      using k(4) by (intro card_mono) (auto simp: pool_frames_def intro: finite_subset)
    with few \<open>pd \<noteq> pt\<close> \<open>page_aligned pd\<close> \<open>page_aligned pt\<close> show thesis
      by (simp add: fno_inject)
  qed
qed

lemma cow_declined:
  assumes p: "proc_ok s" and i: "user_page (fno va)"
    and d: "err AND PTE_U = 0 \<or> err AND PTE_W = 0 \<or> uent (ram s) (cr3 s) (fno va) AND PTE_P = 0 \<or>
      uent (ram s) (cr3 s) (fno va) AND PTE_W \<noteq> 0 \<or> free_set (mm s) = {}"
  shows "paging_cow_fault va err s = Some (False, s)"
proof -
  have ok: "kernel_ok s" and A: "addr_space (ram s) (mm s) (cr3 s)"
    using p by (simp_all add: proc_ok_def kernel_ok_def)
  note k = kernel_okD [OF ok]
  have i': "fno va < 1024" by (rule user_page_less [OF i])
  note ix = kaddr_index [OF i']
  have ld: "kld32 (slot (cr3 s) 0) s = Some (load32 (ram s) (cr3 s))"
    "kld32 (slot (ptab (ram s) (cr3 s)) (fno va)) s = Some (uent (ram s) (cr3 s) (fno va))"
    using k i' by (simp_all add: kernel_access kaddr_slot uent_def)
  have w1: "kld32 (slot (cr3 s) (unat (drop_bit 22 va AND 0x3FF))) s = Some (load32 (ram s) (cr3 s))"
    using ld(1) ix(1) by simp
  have pr: "load32 (ram s) (cr3 s) AND PTE_P \<noteq> 0"
    using A and7D [of "load32 (ram s) (cr3 s)"] by (simp add: addr_space_def PTE_P_def)
  have al: "frame_alloc (mm s) = (0, mm s)" if "free_set (mm s) = {}"
    using that frame_alloc_spec(2) [OF k(1)] frame_alloc_fail(1) [OF k(1)] by (metis empty_iff prod.collapse)
  show ?thesis
    using d pr al
    by (auto simp: paging_cow_fault_def paging_get_cr3_def w1 ix(2) ld(2) Let_def simp flip: fbase_def ptab_def)
qed

subsection \<open>Stores\<close>

text \<open>A byte a program stores at \<open>va\<close> in its own address space.\<close>

definition user_store :: "u32 \<Rightarrow> u8 \<Rightarrow> pg_state \<Rightarrow> pg_state option" where
  "user_store va b s =
     map_option (\<lambda>p. s\<lparr>ram := (ram s)(p := b)\<rparr>) (x86_walk (ram s) (wp_set s) (cr3 s) True True va)"

lemma walk_high:
  assumes "space_shape m c" "\<not> fno va < 1024"
  shows "x86_walk m wp c user w va = None"
proof -
  have c: "fbase c = c" using assms(1) by (simp add: space_shape_def kmap_def fbase_aligned)
  have u: "unat (drop_bit 22 va) = unat va div 4194304" by (simp only: unat_shr) simp
  have b: "unat va < 4294967296" using unsigned_less [of va, where 'a = nat] by simp
  then have d: "unat (drop_bit 22 va) < 1024" "0 < unat (drop_bit 22 va)"
    unfolding u using assms(2) by (simp_all add: fno_def less_mult_imp_div_less div_greater_zero_iff)
  then have "load32 m (fbase c + 4 * drop_bit 22 va) AND PTE_P = 0"
    unfolding c pte_slot [OF d(1)] using assms(1) by (simp add: space_shape_def)
  then show ?thesis by (simp add: x86_walk_def Let_def pte_allows_def)
qed

text \<open>An access through the user window reaches a frame the space maps.\<close>

lemma window_walk:
  assumes "addr_space m M c" "user_page (fno va)" "x86_walk m wp c user w va = Some p"
  obtains w' where "pmap m c (fno va) = Some (fno p, w')" "w \<and> (user \<or> wp) \<longrightarrow> w'"
    "p = fbase (uent m c (fno va)) + (va AND 0xFFF)"
proof -
  let ?e = "uent m c (fno va)"
  have a: "pte_allows wp user w ?e" "p = fbase ?e + (va AND 0xFFF)"
    using assms(3) walk_uent [OF assms(1) user_page_less [OF assms(2)], of wp user w] by (auto split: if_splits)
  have "fno p = fno ?e"
    unfolding a(2) using fno_page_plus [of "fbase ?e" "va AND 0xFFF"] by (simp add: unat_and_0xFFF)
  then show thesis
    using a assms(2) by (intro that [of "?e AND PTE_W \<noteq> 0"]) (auto simp: pmap_def pte_allows_def)
qed

lemma user_walk:
  assumes ok: "vm_ok L s" and c: "c \<in> insert KERNEL_PD L" and wk: "x86_walk (ram s) wp c True w va = Some p"
  shows "c \<in> L" "user_page (fno va)"
proof -
  have sh: "vm_shape L s" using ok by (simp add: vm_ok_def)
  have S: "space_shape (ram s) c" using vm_tables_apart(7) [OF ok c] .
  have A: "addr_space (ram s) (mm s) c"
    using vm_space(1) [OF ok, of c] vm_kernel(1) [OF ok] c by (auto simp: kernel_ok_def)
  have lt: "fno va < 1024" using walk_high [OF S] wk by (metis option.distinct(1))
  show u: "user_page (fno va)" using user_confined [OF A lt] wk by (metis option.distinct(1))
  have "pmap (ram s) c (fno va) \<noteq> None"
    by (rule window_walk [OF A u wk]) simp
  then show "c \<in> L" using sh c by (auto simp: vm_shape_def)
qed

text \<open>A change of bytes of the running space's own pages changes no table.\<close>

lemma data_store_refines:
  assumes ok: "vm_ok L s" and c: "cr3 s \<in> L" and p: "fno p \<in> user_frames (ram s) (cr3 s)"
  shows "vm_abs L (s\<lparr>ram := (ram s)(p := b)\<rparr>) = vm_abs L s" "vm_shape L (s\<lparr>ram := (ram s)(p := b)\<rparr>)"
    "d \<in> insert KERNEL_PD L \<Longrightarrow> i < 1024 \<Longrightarrow> uent ((ram s)(p := b)) d i = uent (ram s) d i"
proof -
  have t: "touches {fno p} (ram s) ((ram s)(p := b))" by (auto simp: touches_def)
  have o: "ptab ((ram s)(p := b)) d = ptab (ram s) d" "pmap ((ram s)(p := b)) d = pmap (ram s) d"
    "space_shape ((ram s)(p := b)) d" "i < 1024 \<Longrightarrow> uent ((ram s)(p := b)) d i = uent (ram s) d i"
    if "d \<in> insert KERNEL_PD L" for d i
  proof -
    have "fno d \<noteq> fno p" "fno (ptab (ram s) d) \<noteq> fno p"
      using vm_tables_apart(3,4) [OF ok that c] p by auto
    then show "ptab ((ram s)(p := b)) d = ptab (ram s) d" "pmap ((ram s)(p := b)) d = pmap (ram s) d"
      "space_shape ((ram s)(p := b)) d" "i < 1024 \<Longrightarrow> uent ((ram s)(p := b)) d i = uent (ram s) d i"
      using space_untouched [OF t] vm_tables_apart(6,7) [OF ok that] by simp_all
  qed
  show "d \<in> insert KERNEL_PD L \<Longrightarrow> i < 1024 \<Longrightarrow> uent ((ram s)(p := b)) d i = uent (ram s) d i"
    using o(4) .
  show "vm_abs L (s\<lparr>ram := (ram s)(p := b)\<rparr>) = vm_abs L s"
    using o(1,2) by (intro vm_absI) (auto simp: vm_abs_def)
  show "vm_shape L (s\<lparr>ram := (ram s)(p := b)\<rparr>)"
    using ok o(1-3) by (simp add: vm_ok_def vm_shape_def)
qed

lemma user_store_target:
  assumes ok: "vm_ok L s" and st: "user_store va b s = Some s'"
  obtains p where "s' = s\<lparr>ram := (ram s)(p := b)\<rparr>" "cr3 s \<in> L" "user_page (fno va)"
    "pmap (ram s) (cr3 s) (fno va) = Some (fno p, True)" "x86_walk (ram s) (wp_set s) (cr3 s) True True va = Some p"
proof -
  obtain p where p: "x86_walk (ram s) (wp_set s) (cr3 s) True True va = Some p" "s' = s\<lparr>ram := (ram s)(p := b)\<rparr>"
    using st by (auto simp: user_store_def)
  have c: "cr3 s \<in> insert KERNEL_PD L" using ok by (simp add: vm_ok_def vm_shape_def)
  note u = user_walk [OF ok c p(1)]
  have "pmap (ram s) (cr3 s) (fno va) = Some (fno p, True)"
    by (rule window_walk [OF vm_space(1) [OF ok u(1)] u(2) p(1)]) simp
  with p u that show thesis by blast
qed

text \<open>What the kernel does outside page frames: its heap, stacks and variables.\<close>

definition kernel_write :: "mem \<Rightarrow> mem \<Rightarrow> bool" where
  "kernel_write m m' \<longleftrightarrow> touches (- (pool_frames \<union> {fno KERNEL_PD, fno KERNEL_PT})) m m'"

lemma kernel_write_refines:
  assumes ok: "vm_ok L s" and w: "kernel_write (ram s) m"
  shows "vm_abs L (s\<lparr>ram := m\<rparr>) = vm_abs L s" "vm_shape L (s\<lparr>ram := m\<rparr>)"
proof -
  have sh: "vm_shape L s" using ok by (simp add: vm_ok_def)
  note t = w [unfolded kernel_write_def]
  have in_pool: "fno d \<in> pool_frames \<union> {fno KERNEL_PD, fno KERNEL_PT}" "fno (ptab (ram s) d) \<in> pool_frames \<union> {fno KERNEL_PD, fno KERNEL_PT}"
    if "d \<in> insert KERNEL_PD L" for d
    using that vm_space(4,5) [OF ok, of d] low_in_pool sh by (auto simp: vm_shape_def)
  have o: "ptab m d = ptab (ram s) d" "pmap m d = pmap (ram s) d" "space_shape m d"
    if "d \<in> insert KERNEL_PD L" for d
    using space_untouched [OF t] vm_tables_apart [OF ok that] in_pool [OF that] by auto
  show "vm_abs L (s\<lparr>ram := m\<rparr>) = vm_abs L s"
    using o(1,2) by (intro vm_absI) (auto simp: vm_abs_def)
  show "vm_shape L (s\<lparr>ram := m\<rparr>)"
    using sh o by (simp add: vm_shape_def)
qed

subsection \<open>Any sequence of operations\<close>

text \<open>
  The first component is the set of live directories.  An operation that needs frames for tables or
  for a copy runs while low ones are left, or when too few are left at all and it fails; a fault is on a page whose
  frame the kernel can address.
\<close>

type_synonym vm = "u32 set \<times> pg_state"

inductive vm_step :: "vm \<Rightarrow> vm \<Rightarrow> bool" where
  Create: "low_enough 2 s \<Longrightarrow> paging_create_addr_space s = Some (c, s') \<Longrightarrow>
    vm_step (L, s) (if c = 0 then L else insert c L, s')"
| Map: "cr3 s \<in> L \<Longrightarrow> paging_map_user_region (cr3 s) v n s = Some (r, s') \<Longrightarrow> vm_step (L, s) (L, s')"
| Fork: "cr3 s \<in> L \<Longrightarrow> low_enough 2 s \<Longrightarrow> paging_fork_addr_space (cr3 s) s = Some (c, s') \<Longrightarrow>
    vm_step (L, s) (if c = 0 then L else insert c L, s')"
| Fault: "cr3 s \<in> L \<Longrightarrow> user_page (fno va) \<Longrightarrow> low_frames s \<noteq> {} \<or> free_set (mm s) = {} \<Longrightarrow>
    (\<forall>f w. pmap (ram s) (cr3 s) (fno va) = Some (f, w) \<longrightarrow> f \<in> low_pool) \<Longrightarrow>
    paging_cow_fault va err s = Some (r, s') \<Longrightarrow> vm_step (L, s) (L, s')"
| Switch: "c \<in> insert KERNEL_PD L \<Longrightarrow> vm_step (L, s) (L, paging_switch c s)"
| Destroy: "c \<in> L \<Longrightarrow> c \<noteq> cr3 s \<Longrightarrow> paging_destroy_addr_space c s = Some s' \<Longrightarrow> vm_step (L, s) (L - {c}, s')"
| Store: "user_store va b s = Some s' \<Longrightarrow> vm_step (L, s) (L, s')"
| Copy: "cr3 s \<in> L \<Longrightarrow> user_page (fno va) \<Longrightarrow> wp_set s \<Longrightarrow> kst8 va b s = Some s' \<Longrightarrow> vm_step (L, s) (L, s')"
| Kernel: "kernel_write (ram s) m \<Longrightarrow> vm_step (L, s) (L, s\<lparr>ram := m\<rparr>)"

text \<open>An operation simulates a sequence of abstract steps and leaves tables of the right shape.\<close>

definition simulates :: "u32 set \<Rightarrow> pg_state \<Rightarrow> u32 set \<Rightarrow> pg_state \<Rightarrow> bool" where
  "simulates L s L' s' \<longleftrightarrow> vs_step\<^sup>*\<^sup>* (vm_abs L s) (vm_abs L' s') \<and> vm_shape L' s'"

lemma simulates_step: "vs_step (vm_abs L s) (vm_abs L' s') \<Longrightarrow> vm_shape L' s' \<Longrightarrow> simulates L s L' s'"
  by (auto simp: simulates_def)

lemma simulates_same: "vm_abs L s' = vm_abs L s \<Longrightarrow> vm_shape L s' \<Longrightarrow> simulates L s L s'"
  by (simp add: simulates_def)

lemma create_simulates:
  assumes ok: "vm_ok L s" and low: "low_enough 2 s" and run: "paging_create_addr_space s = Some (c, s')"
  shows "simulates L s (if c = 0 then L else insert c L) s'"
proof (cases "2 \<le> card (low_frames s)")
  case True
  obtain d t a b where d: "paging_create_addr_space s = Some (d, t)" "d \<noteq> 0" "d \<notin> L" "a \<noteq> b"
    "{a, b} \<subseteq> unused (vm_abs L s) \<inter> low_pool"
    "vm_abs (insert d L) t = vs_create d a b (vm_abs L s)" "vm_shape (insert d L) t"
    by (rule create_refines [OF ok True])
  have "vs_step (vm_abs L s) (vm_abs (insert d L) t)"
    unfolding d(6) by (rule vs_step.Create) (use d(3-5) in simp_all)
  then show ?thesis using run d(1,2,7) simulates_step by simp
next
  case False
  obtain t where "alloc_tables s = (None, t)" "vm_abs L t = vm_abs L s" "vm_shape L t"
    using alloc_tables_fails [OF ok] False low by (auto simp: low_enough_def)
  then show ?thesis using run simulates_same by (auto simp: paging_create_addr_space_def)
qed

lemma fork_simulates:
  assumes ok: "vm_ok L s" and c: "cr3 s \<in> L" and low: "low_enough 2 s"
    and run: "paging_fork_addr_space (cr3 s) s = Some (c, s')"
  shows "simulates L s (if c = 0 then L else insert c L) s'"
proof (cases "2 \<le> card (low_frames s)")
  case True
  obtain d t a b where d: "paging_fork_addr_space (cr3 s) s = Some (d, t)" "d \<noteq> 0" "d \<notin> L" "a \<noteq> b"
    "{a, b} \<subseteq> unused (vm_abs L s) \<inter> low_pool"
    "vm_abs (insert d L) t = vs_fork (cr3 s) d a b (vm_abs L s)" "vm_shape (insert d L) t"
    by (rule fork_refines [OF ok c True])
  have "vs_step (vm_abs L s) (vm_abs (insert d L) t)"
    unfolding d(6) by (rule vs_step.Fork) (use c d(3-5) in simp_all)
  then show ?thesis using run d(1,2,7) simulates_step by simp
next
  case False
  note k = kernel_okD [OF vm_kernel(1) [OF ok]]
  obtain t where "alloc_tables s = (None, t)" "vm_abs L t = vm_abs L s" "vm_shape L t"
    using alloc_tables_fails [OF ok] False low by (auto simp: low_enough_def)
  then show ?thesis
    using run k pde_present [OF vm_kernel(1) [OF ok]] simulates_same
    by (auto simp: paging_fork_addr_space_def kernel_access Let_def)
qed

lemma fault_simulates:
  assumes ok: "vm_ok L s" and c: "cr3 s \<in> L" and i: "user_page (fno va)" and low: "low_frames s \<noteq> {} \<or> free_set (mm s) = {}"
    and old: "\<forall>f w. pmap (ram s) (cr3 s) (fno va) = Some (f, w) \<longrightarrow> f \<in> low_pool"
    and run: "paging_cow_fault va err s = Some (r, s')"
  shows "simulates L s L s'"
proof (cases "err AND PTE_U \<noteq> 0 \<and> err AND PTE_W \<noteq> 0 \<and> free_set (mm s) \<noteq> {} \<and>
    (\<exists>f. pmap (ram s) (cr3 s) (fno va) = Some (f, False))")
  case True
  then obtain f where f: "pmap (ram s) (cr3 s) (fno va) = Some (f, False)" by blast
  obtain t g where t: "paging_cow_fault va err s = Some (True, t)" "g \<in> unused (vm_abs L s)"
    "vm_abs L t = vs_copy (cr3 s) (fno va) f g (vm_abs L s)" "vm_shape L t"
    by (rule cow_refines [OF ok c i _ _ f]) (use True low old f in auto)
  have "vs_step (vm_abs L s) (vm_abs L t)"
    unfolding t(3) by (rule vs_step.Copy) (use c f t(2) in simp_all)
  then show ?thesis using run t(1,4) simulates_step by simp
next
  case False
  then have "paging_cow_fault va err s = Some (False, s)"
    using i by (intro cow_declined [OF vm_proc [OF ok c]]) (auto simp: pmap_def)
  then show ?thesis using run ok simulates_same by (simp add: vm_ok_def)
qed

lemma store_simulates:
  assumes ok: "vm_ok L s" and c: "cr3 s \<in> L" and p: "pmap (ram s) (cr3 s) i = Some (fno p, w)"
  shows "simulates L s L (s\<lparr>ram := (ram s)(p := b)\<rparr>)"
proof -
  have "fno p \<in> user_frames (ram s) (cr3 s)"
    unfolding frames_of_pmap [symmetric] using p by (rule frames_ofI)
  then show ?thesis using data_store_refines(1,2) [OF ok c] simulates_same by blast
qed

lemma map_simulates:
  assumes ok: "vm_ok L s" and c: "cr3 s \<in> L" and run: "paging_map_user_region (cr3 s) v n s = Some (r, s')"
  shows "simulates L s L s'"
proof (rule map_region_cases [OF ok c, of v n], goal_cases)
  case (1 q)
  then show ?case using run ok by (simp add: simulates_def vm_ok_def)
next
  case run': 2
  have "\<forall>i\<in>set [fno v ..< Suc (unat (drop_bit 12 (v + n - 1) AND 0x3FF))]. i < 1024"
    by (auto simp: unat_and_0x3FF less_Suc_eq_le intro: le_less_trans)
  then show ?case using map_pages_refines [OF ok c] run run'(3) by (fastforce simp: simulates_def)
qed

lemma vm_step_simulates: "vm_step x y \<Longrightarrow> vm_ok (fst x) (snd x) \<Longrightarrow> simulates (fst x) (snd x) (fst y) (snd y)"
proof (induction rule: vm_step.induct)
  case (Map s L v n r s')
  then have ok: "vm_ok L s" by simp
  show ?case using map_simulates [OF ok Map(1)] Map(2) by simp
next
  case (Switch c L s)
  then show ?case by (simp add: simulates_def vm_ok_def vm_shape_def paging_switch_def)
next
  case (Destroy c L s s')
  then have ok: "vm_ok L s" by simp
  obtain t where t: "paging_destroy_addr_space c s = Some t" "vm_abs (L - {c}) t = vs_destroy c (vm_abs L s)"
    "vm_shape (L - {c}) t"
    by (rule destroy_refines [OF ok Destroy(1,2)])
  have "vs_step (vm_abs L s) (vm_abs (L - {c}) t)"
    unfolding t(2) by (rule vs_step.Destroy) (use Destroy(1) in simp)
  then show ?case using Destroy(3) t(1,3) simulates_step by simp
next
  case (Store va b s s' L)
  then have ok: "vm_ok L s" by simp
  obtain p where p: "s' = s\<lparr>ram := (ram s)(p := b)\<rparr>" "cr3 s \<in> L" "pmap (ram s) (cr3 s) (fno va) = Some (fno p, True)"
    by (rule user_store_target [OF ok Store(1)])
  then show ?case using store_simulates [OF ok p(2,3)] by simp
next
  case (Copy s L va b s')
  then have ok: "vm_ok L s" by simp
  obtain p where p: "x86_walk (ram s) (wp_set s) (cr3 s) False True va = Some p" "s' = s\<lparr>ram := (ram s)(p := b)\<rparr>"
    using Copy(4) by (auto simp: kst8_def ktrans_def)
  obtain w where "pmap (ram s) (cr3 s) (fno va) = Some (fno p, w)"
    by (rule window_walk [OF vm_space(1) [OF ok Copy(1)] Copy(2) p(1)])
  then show ?case using store_simulates [OF ok Copy(1)] p(2) by simp
next
  case (Kernel s m L)
  then show ?case using kernel_write_refines [of L s m] simulates_same by simp
qed (simp_all add: create_simulates fork_simulates fault_simulates split del: if_split)

lemma vm_step_ok: "vm_step x y \<Longrightarrow> vm_ok (fst x) (snd x) \<Longrightarrow> vm_ok (fst y) (snd y)"
  using vm_step_simulates [of x y] vs_steps_ok by (auto simp: vm_ok_def simulates_def)

text \<open>From the tables of the boot loader on.\<close>

definition boot_state :: "pg_state \<Rightarrow> bool" where
  "boot_state s \<longleftrightarrow> boot_tables s \<and> (\<exists>M. mm s = mm_init M) \<and>
     (\<forall>d<1024. 0 < d \<longrightarrow> load32 (ram s) (slot KERNEL_PD d) AND PTE_P = 0)"

inductive vm_reach :: "vm \<Rightarrow> bool" where
  Init: "boot_state s \<Longrightarrow> paging_init ml eb s = Some s' \<Longrightarrow> vm_reach ({}, s')"
| Step: "vm_reach x \<Longrightarrow> vm_step x y \<Longrightarrow> vm_reach y"

lemma vm_init_ok:
  assumes "boot_state s" "paging_init ml eb s = Some s'"
  shows "vm_ok {} s'"
proof -
  obtain M where M: "mm s = mm_init M" "boot_tables s" using assms(1) by (auto simp: boot_state_def)
  obtain t where t: "paging_init ml eb s = Some t" "kernel_ok t" "cr3 t = KERNEL_PD" "wp_set t"
    "mm t = mm s" "\<forall>i. user_page i \<longrightarrow> uent (ram t) KERNEL_PD i = 0"
    "\<forall>x. fbase x \<noteq> KERNEL_PT \<and> fbase x \<noteq> KERNEL_PD \<longrightarrow> ram t x = ram s x"
    "\<forall>d<1024. 0 < d \<longrightarrow> load32 (ram t) (slot KERNEL_PD d) = load32 (ram s) (slot KERNEL_PD d)"
    by (rule paging_init_spec [OF M(2)]) (rule that)
  have e: "s' = t" using t(1) assms(2) by simp
  have "space_shape (ram t) KERNEL_PD" "pmap (ram t) KERNEL_PD = Map.empty"
    using t(2,6,8) assms(1) by (auto simp: space_shape_def kernel_ok_def addr_space_def boot_state_def intro: pmap_empty)
  then have "vm_shape {} t" using t(2,3) by (auto simp: vm_shape_def kernel_ok_def)
  moreover have "vspec_ok (vm_abs {} t)"
    by (auto simp: vspec_ok_def t(5) M(1) free_set_mm_init mm_init_refs users_of_def pool_frames_def FRAME_COUNT_def)
  ultimately show ?thesis by (simp add: e vm_ok_def)
qed

lemma vm_reach_ok: "vm_reach x \<Longrightarrow> vm_ok (fst x) (snd x)"
  by (induction rule: vm_reach.induct) (auto intro: vm_init_ok vm_step_ok)

text \<open>Equal entries translate alike.\<close>

lemma same_walk:
  assumes "addr_space m M c" "space_shape m c" "addr_space m' M' c" "space_shape m' c"
    and "\<And>i. i < 1024 \<Longrightarrow> uent m' c i = uent m c i"
  shows "x86_walk m' wp c u w va = x86_walk m wp c u w va"
  using assms(5) walk_uent [OF assms(1)] walk_uent [OF assms(3)] walk_high [OF assms(2)] walk_high [OF assms(4)]
  by (cases "fno va < 1024") simp_all

text \<open>The first process, its page, a child, and the copy of the page the parent then gets.\<close>

lemma init_reached: "vm_reach ({}, init_pg)"
proof -
  obtain s where s: "paging_init 7 0x80 boot_pg = Some s"
    by (rule paging_init_spec [OF boot_pg_ok, of 7 "0x80"]) (rule that)
  have "boot_state boot_pg"
    unfolding boot_state_def using boot_pg_ok boot_pg_ram(3) boot_pg_fields(2) by (metis and_zero_eq bit.conj_zero_left)
  then show ?thesis
    using vm_reach.Init [OF _ s] by (simp add: init_pg_def s)
qed

lemma run_reached: "vm_reach ({cr3 run_pg}, run_pg)" "cr3 run_pg = cr3 proc_pg"
proof -
  have low: "2 \<le> card (low_frames init_pg)" by (simp add: init_pg_low)
  then obtain c s where c: "paging_create_addr_space init_pg = Some (c, s)" "c \<noteq> 0"
    by (rule create_addr_space_spec [OF init_pg(1)]) (rule that)
  have "vm_reach (if c = 0 then {} else insert c {}, s)"
    by (rule vm_reach.Step [OF init_reached vm_step.Create [OF _ c(1)]]) (use low in \<open>simp add: low_enough_def\<close>)
  then have 2: "vm_reach ({c}, s)" using c(2) by simp
  have P: "proc_pg = paging_switch c s" by (simp add: proc_pg_def c(1))
  have "vm_step ({c}, s) ({c}, proc_pg)" unfolding P by (rule vm_step.Switch) simp
  then have 3: "vm_reach ({c}, proc_pg)" using vm_reach.Step 2 by blast
  have cr: "cr3 proc_pg = c" by (simp add: P paging_switch_def)
  have u: "user_page 512" by (simp add: user_page_def)
  have ne: "free_set (mm proc_pg) \<noteq> {}"
    using proc_pg(5) by (auto simp: low_frames_def)
  obtain t where t: "map_user_page (ptab (ram proc_pg) (cr3 proc_pg)) 512 proc_pg = Some (True, t)" "cr3 t = cr3 proc_pg"
    by (rule map_user_page_cases [OF proc_pg(1) u]) (use ne proc_pg(3) [OF u] in auto)
  have R: "run_pg = t" by (simp add: run_pg_def t(1))
  show "cr3 run_pg = cr3 proc_pg" using t(2) by (simp add: R)
  have a: "512 \<le> fno 0x200000" "(0x1000 :: u32) \<noteq> 0" "unat (0x200000 :: u32) + unat (0x1000 :: u32) \<le> 768 * 4096"
    by (simp_all add: fno_def)
  have "paging_map_user_region (cr3 proc_pg) 0x200000 0x1000 proc_pg = Some (True, run_pg)"
    using t(1) unfolding map_user_region_run(1) [OF proc_pg(1) a] by (simp add: fno_def R upt_rec)
  then have "vm_step ({c}, proc_pg) ({c}, run_pg)"
    by (intro vm_step.Map) (simp_all add: cr)
  then show "vm_reach ({cr3 run_pg}, run_pg)"
    using vm_reach.Step 3 by (simp add: R t(2) cr)
qed

lemma copied_reached:
  obtains c s where "vm_reach ({cr3 s, c}, s)" "c \<noteq> cr3 s" "user_writable s (cr3 s) 0x200010"
proof -
  let ?L = "{cr3 run_pg}"
  note ok = vm_reach_ok [OF run_reached(1), simplified]
  have in_L: "cr3 run_pg \<in> ?L" by simp
  have low: "2 \<le> card (low_frames run_pg)" using run_pg(2) by simp
  obtain c t a b where t: "paging_fork_addr_space (cr3 run_pg) run_pg = Some (c, t)" "c \<noteq> 0" "c \<notin> ?L" "a \<noteq> b"
    "{a, b} \<subseteq> unused (vm_abs ?L run_pg) \<inter> low_pool"
    "vm_abs (insert c ?L) t = vs_fork (cr3 run_pg) c a b (vm_abs ?L run_pg)" "cr3 t = cr3 run_pg"
    by (rule fork_refines [OF ok in_L low]) (rule that)
  have "vm_reach (if c = 0 then ?L else insert c ?L, t)"
    by (rule vm_reach.Step [OF run_reached(1) vm_step.Fork [OF in_L _ t(1)]]) (use low in \<open>simp add: low_enough_def\<close>)
  then have R: "vm_reach (insert c ?L, t)" using t(2) by simp
  note okt = vm_reach_ok [OF R, simplified]
  have in_L': "cr3 t \<in> insert c ?L" by (simp add: t(7))
  have u: "user_page (fno 0x200010)" "fno 0x200010 = 512" by (simp_all add: user_page_def fno_def)
  obtain f where f: "page_aligned f" "uent (ram run_pg) (cr3 run_pg) 512 = f OR 7" "fno f < 512"
    using run_pg(5) by blast
  have pr: "pmap (ram run_pg) (cr3 run_pg) 512 = Some (fno f, True)"
    using f or7_flags [OF f(1)] u by (simp add: pmap_def)
  then have "fno f \<in> user_frames (ram run_pg) (cr3 run_pg)"
    unfolding frames_of_pmap [symmetric] by (rule frames_ofI)
  then have fl: "fno f \<in> low_pool"
    using vm_space(7) [OF ok in_L] f(3) by (auto simp: low_pool_def pool_frames_def)
  have "pages (vm_abs (insert c ?L) t) (cr3 t) = read_only (pmap (ram run_pg) (cr3 run_pg))"
    using t(3) unfolding t(6) t(7) by (simp add: vs_fork_def)
  then have e: "pmap (ram t) (cr3 t) (fno 0x200010) = Some (fno f, False)"
    using in_L' pr u by (simp add: read_only_def)
  have "low_frames t = low_frames run_pg - {a, b}"
    using arg_cong [OF t(6), of unused] by (auto simp: low_frames_def vs_fork_def)
  moreover have "card (low_frames run_pg) - card {a, b} \<le> card (low_frames run_pg - {a, b})"
    by (rule diff_card_le_card_Diff) simp
  ultimately have "203 \<le> card (low_frames t)"
    using run_pg(2) t(4) by simp
  then have lt: "low_frames t \<noteq> {}" by auto
  have er: "(7 :: u32) AND PTE_U \<noteq> 0" "(7 :: u32) AND PTE_W \<noteq> 0" by (simp_all add: PTE_U_def PTE_W_def)
  obtain s g where s: "paging_cow_fault 0x200010 7 t = Some (True, s)"
    "vm_abs (insert c ?L) s = vs_copy (cr3 t) (fno 0x200010) (fno f) g (vm_abs (insert c ?L) t)" "cr3 s = cr3 t"
    by (rule cow_refines [OF okt in_L' u(1) er e fl lt]) (rule that)
  have "vm_step (insert c ?L, t) (insert c ?L, s)"
    by (rule vm_step.Fault [OF in_L' u(1) _ _ s(1)]) (use lt e fl in simp_all)
  then have Q: "vm_reach (insert c ?L, s)" using vm_reach.Step R by blast
  note oks = vm_reach_ok [OF Q, simplified]
  have "pages (vm_abs (insert c ?L) s) (cr3 s) 512 = Some (g, True)"
    unfolding s(2,3) u(2) by (simp add: vs_copy_def)
  then have "pmap (ram s) (cr3 s) 512 = Some (g, True)" using in_L' s(3) by simp
  moreover have "cr3 s \<in> insert c ?L" using in_L' s(3) by simp
  ultimately have "user_writable s (cr3 s) 0x200010"
    using user_writable_walk [OF vm_space(1) [OF oks], of "cr3 s" "0x200010"] vm_user_flag [OF oks, of "cr3 s" 512] u
    by (auto simp: pmap_def user_page_less split: if_splits)
  with Q t(3) s(3) t(7) that [of s c] show thesis by (simp add: insert_commute)
qed

text \<open>The account of the frames, and what a store of the running program leaves alone.\<close>

lemma vm_ok_account:
  assumes ok: "vm_ok L s"
  shows "free_set (mm s) = {304 ..< 768} - (\<Union>c\<in>L. {fno c, fno (ptab (ram s) c)} \<union> user_frames (ram s) c) \<and>
    (\<forall>f\<in>{304 ..< 768}. unat (frame_refs (mm s) ! f) = card {c \<in> L. f \<in> user_frames (ram s) c}) \<and>
    (\<forall>c\<in>L. \<forall>d\<in>L. c \<noteq> d \<longrightarrow> {fno c, fno (ptab (ram s) c)} \<inter> {fno d, fno (ptab (ram s) d)} = {}) \<and>
    (\<forall>c\<in>L. \<forall>d\<in>L. {fno c, fno (ptab (ram s) c)} \<inter> user_frames (ram s) d = {}) \<and>
    (L = {} \<longrightarrow> mm_free_frames (mm s) = 464)"
proof -
  have v: "vspec_ok (vm_abs L s)" using ok by (simp add: vm_ok_def)
  note d = vspec_okD [OF v]
  have u: "users_of (vm_abs L s) f = {c \<in> L. f \<in> user_frames (ram s) c}" for f
    by (auto simp: users_of_def frames_of_pmap)
  have fs: "free_set (mm s) = {304 ..< 768} - (\<Union>c\<in>L. {fno c, fno (ptab (ram s) c)} \<union> user_frames (ram s) c)"
    using d(8) by (simp add: frames_of_pmap pool_frames_def)
  moreover have "\<forall>f\<in>{304 ..< 768}. unat (frame_refs (mm s) ! f) = card {c \<in> L. f \<in> user_frames (ram s) c}"
    using d(9) unfolding u by (simp add: pool_frames_def)
  moreover have "\<forall>c\<in>L. \<forall>d\<in>L. c \<noteq> d \<longrightarrow> {fno c, fno (ptab (ram s) c)} \<inter> {fno d, fno (ptab (ram s) d)} = {}"
    using d(5) by simp
  moreover have "\<forall>c\<in>L. \<forall>d\<in>L. {fno c, fno (ptab (ram s) c)} \<inter> user_frames (ram s) d = {}"
    using d(6) by (simp add: frames_of_pmap)
  ultimately show ?thesis by (simp add: mm_free_frames_card)
qed

lemma store_isolated:
  assumes ok: "vm_ok L s" and "user_store va b s = Some s'" and "c \<in> L" "c \<noteq> cr3 s"
  shows "(\<forall>w. user_byte s' c w = user_byte s c w \<and> user_writable s' c w = user_writable s c w) \<and>
    user_byte s' (cr3 s) va = Some b"
proof -
  have v: "vspec_ok (vm_abs L s)" using ok by (simp add: vm_ok_def)
  obtain p where p: "s' = s\<lparr>ram := (ram s)(p := b)\<rparr>" "cr3 s \<in> L" "user_page (fno va)"
    "pmap (ram s) (cr3 s) (fno va) = Some (fno p, True)" "x86_walk (ram s) (wp_set s) (cr3 s) True True va = Some p"
    by (rule user_store_target [OF ok assms(2)])
  have r: "wp_set s' = wp_set s" "ram s' = (ram s)(p := b)" by (simp_all add: p(1) wp_set_def)
  have pf: "fno p \<in> user_frames (ram s) (cr3 s)"
    unfolding frames_of_pmap [symmetric] using p(4) by (rule frames_ofI)
  have ok': "vm_ok L s'"
    using data_store_refines(1,2) [OF ok p(2) pf] v by (simp add: vm_ok_def p(1))
  have walk: "x86_walk (ram s') (wp_set s') d True w va = x86_walk (ram s) (wp_set s) d True w va" if "d \<in> L" for d w va
    unfolding r using data_store_refines(3) [OF ok p(2) pf, of d] that vm_space(1,2) [OF ok' that]
    by (intro same_walk [OF vm_space(1,2) [OF ok that]]) (auto simp: r)
  have "x86_walk (ram s) (wp_set s) (cr3 s) True False va = Some p"
    using p(5) walk_uent [OF vm_space(1) [OF ok p(2)] user_page_less [OF p(3)], of "wp_set s" True]
    by (auto simp: pte_allows_def split: if_splits)
  then have own: "user_byte s' (cr3 s) va = Some b"
    using walk [OF p(2)] by (simp add: user_byte_def r)
  have alone: "fno p \<notin> user_frames (ram s) c"
  proof
    assume "fno p \<in> user_frames (ram s) c"
    then have "c \<in> users_of (vm_abs L s) (fno p)"
      using assms(3) by (simp add: users_of_def frames_of_pmap)
    moreover have "users_of (vm_abs L s) (fno p) = {cr3 s}"
      by (rule vspec_okD(10) [OF v, of _ "fno va"]) (use p(2,4) in simp_all)
    ultimately show False using assms(4) by simp
  qed
  have "user_byte s' c w = user_byte s c w" for w
  proof (cases "x86_walk (ram s) (wp_set s) c True False w")
    case (Some q)
    have "user_page (fno w)" using user_walk(2) [OF ok _ Some] assms(3) by simp
    then obtain w' where "pmap (ram s) c (fno w) = Some (fno q, w')"
      by (rule window_walk [OF vm_space(1) [OF ok assms(3)] _ Some])
    then have "fno q \<in> user_frames (ram s) c"
      unfolding frames_of_pmap [symmetric] by (rule frames_ofI)
    then have "q \<noteq> p" using alone by auto
    then show ?thesis using Some walk [OF assms(3)] by (simp add: user_byte_def r)
  qed (simp add: user_byte_def walk [OF assms(3)])
  then show ?thesis
    using walk [OF assms(3)] own by (simp add: user_writable_def)
qed

subsection \<open>Properties\<close>


text \<open>The account is exact in every state reached: a frame of the pool is free unless it is a
  table of a live space or mapped by one; no frame is a table twice, or a table and mapped; and the count of a
  frame is the number of spaces that map it.  In particular, when the last space has been destroyed all
  464 frames are free again: nothing leaks.\<close>

lemma vm_account:
  assumes "vm_reach (L, s)"
  shows "free_set (mm s) = {304 ..< 768} - (\<Union>c\<in>L. {fno c, fno (ptab (ram s) c)} \<union> user_frames (ram s) c) \<and>
    (\<forall>f\<in>{304 ..< 768}. unat (frame_refs (mm s) ! f) = card {c \<in> L. f \<in> user_frames (ram s) c}) \<and>
    (\<forall>c\<in>L. \<forall>d\<in>L. c \<noteq> d \<longrightarrow> {fno c, fno (ptab (ram s) c)} \<inter> {fno d, fno (ptab (ram s) d)} = {}) \<and>
    (\<forall>c\<in>L. \<forall>d\<in>L. {fno c, fno (ptab (ram s) c)} \<inter> user_frames (ram s) d = {}) \<and>
    (L = {} \<longrightarrow> mm_free_frames (mm s) = 464)"
  using vm_ok_account [OF vm_reach_ok [OF assms, simplified]] .

text \<open>Processes are isolated in every state reached: a store of the running program to any address
  changes no byte another process can read and no right of another process to write, and is what the program reads
  back.\<close>

lemma vm_isolation:
  assumes "vm_reach (L, s)" and "user_store va b s = Some s'" and "c \<in> L" "c \<noteq> cr3 s"
  shows "(\<forall>w. user_byte s' c w = user_byte s c w \<and> user_writable s' c w = user_writable s c w) \<and>
    user_byte s' (cr3 s) va = Some b"
  using store_isolated [OF vm_reach_ok [OF assms(1), simplified] assms(2-4)] .


lemma vm_account_witness: "mm_free_frames (mm init_pg) = 464"
  using vm_account [OF init_reached] by simp

lemma vm_isolation_witness:
  "\<exists>L s s' c. vm_reach (L, s) \<and> c \<in> L \<and> c \<noteq> cr3 s \<and> user_store 0x200010 42 s = Some s' \<and>
     user_byte s' c 0x200010 = user_byte s c 0x200010 \<and> user_byte s' (cr3 s) 0x200010 = Some 42"
proof -
  obtain c s where r: "vm_reach ({cr3 s, c}, s)" "c \<noteq> cr3 s" "user_writable s (cr3 s) 0x200010"
    by (rule copied_reached)
  then obtain s' where s': "user_store 0x200010 42 s = Some s'"
    by (auto simp: user_writable_def user_store_def)
  from vm_isolation [OF r(1) s' _ r(2)] r s' show ?thesis by blast
qed

end
