(* ===== verification/Processes.thy ===== *)
theory Processes
  imports System Spaces
begin

section \<open>Processes: the task table and the address spaces together\<close>

text \<open>
  The scheduler owns the directories that paging.c only manipulates.  \<open>owner\<close> reads off the task
  table which ready user task owns which directory; the invariant \<open>procs_ok\<close> says that the
  directories are those of \<open>Spaces\<close>, one for each user task, that CR3 holds the one of the running
  task, and that the heap with the stacks and saved frames is well formed.  It is kept by loading,
  forking, switching, exiting, faulting and storing in any order.
\<close>

definition owner :: "sched \<Rightarrow> nat \<Rightarrow> u32 option" where
  "owner s k = (if k < 16 \<and> ready (tasks s ! k) \<and> flags (tasks s ! k) = TASK_USER
     then Some (task_cr3 (tasks s ! k)) else None)"

definition space_of :: "sched \<Rightarrow> u32" where
  "space_of s = (case owner s (unat (current s)) of None \<Rightarrow> KERNEL_PD | Some c \<Rightarrow> c)"

definition apart :: "('a \<Rightarrow> 'b option) \<Rightarrow> bool" where
  "apart f \<longleftrightarrow> (\<forall>j k c. f j = Some c \<longrightarrow> f k = Some c \<longrightarrow> j = k)"

lemma apart_upd: "apart f \<Longrightarrow> c \<notin> ran f \<Longrightarrow> apart (f(k \<mapsto> c))"
  by (auto simp: apart_def ran_def split: if_splits)

lemma apart_del: "apart f \<Longrightarrow> apart (f(k := None))"
  by (auto simp: apart_def split: if_splits)

lemma ran_del: "apart f \<Longrightarrow> f k = Some c \<Longrightarrow> ran (f(k := None)) = ran f - {c}"
  by (auto simp: apart_def ran_def split: if_splits) (metis option.inject)

subsection \<open>The owner of a slot after a change of the table\<close>

text \<open>Updates of a task that leave its readiness, kind and directory alone.\<close>

definition same_owner :: "(task \<Rightarrow> task) \<Rightarrow> bool" where
  "same_owner f \<longleftrightarrow> (\<forall>t. ready (f t) = ready t \<and> flags (f t) = flags t \<and> task_cr3 (f t) = task_cr3 t)"

lemma same_owner_intros [intro, simp]:
  "same_owner (esp_update g)" "same_owner (stack_bottom_update g)" "same_owner (irq_stack_top_update g)"
  "same_owner (slice_left_update g)" "same_owner (\<lambda>t. t\<lparr>esp := e, slice_left := n\<rparr>)"
  "same_owner (\<lambda>t. t\<lparr>slice_left := g' t\<rparr>)" "same_owner (\<lambda>t. t\<lparr>tname := h t, slice_left := n\<rparr>)"
  by (simp_all add: same_owner_def)

lemma owner_cong: "tasks s' = tasks s \<Longrightarrow> owner s' = owner s"
  by (simp add: owner_def fun_eq_iff)

lemma owner_same: "same_table s s' \<Longrightarrow> owner s' = owner s"
  by (rule owner_cong) (rule same_table_simps)

lemma owner_upd [simp]: "same_owner f \<Longrightarrow> owner (upd_task k f s) = owner s"
  by (cases "unat k < length (tasks s)")
    (auto simp: owner_def upd_task_def same_owner_def fun_eq_iff nth_list_update list_update_beyond)

lemma owner_simps [simp]:
  "owner (set_ram g s) = owner s" "owner (name_slot k n s) = owner s" "owner (task_setup_stack k fn s) = owner s"
  "owner (switch_cr3 k s) = owner s" "owner (user_set_kernel_stack t s) = owner s"
  "owner (s\<lparr>current := i\<rparr>) = owner s" "owner (s\<lparr>pg := P\<rparr>) = owner s" "owner (s\<lparr>zombie_cr3 := z\<rparr>) = owner s"
  "owner (s\<lparr>next_pid := p\<rparr>) = owner s" "owner (s\<lparr>task_count := c\<rparr>) = owner s" "owner (switch_space c s) = owner s"
proof -
  show "owner (name_slot k n s) = owner s" by (simp add: name_slot_def)
  have "owner (set_ram g s) = owner s" for g s by (rule owner_cong) simp
  then show "owner (set_ram g s) = owner s" "owner (task_setup_stack k fn s) = owner s"
    by (simp_all add: task_setup_stack_def split: prod.splits)
qed (rule owner_cong, simp add: switch_space_def)+

lemma owner_slot:
  assumes "length (tasks s) = 16" "unat k < 16"
  shows "owner (kill_slot k s) = (owner s)(unat k := None)"
    "owner (init_slot k fl s) = (owner s)(unat k := if fl = TASK_USER then Some 0 else None)"
    "owner s (unat k) = Some d \<Longrightarrow> owner (upd_task k (task_cr3_update (\<lambda>_. c)) s) = (owner s)(unat k \<mapsto> c)"
  using assms
  by (auto simp: owner_def kill_slot_def init_slot_def upd_task_def fun_eq_iff nth_list_update zero_task_def split: if_splits)

lemma owner_dead: "\<not> ready (task_at s k) \<Longrightarrow> owner s (unat k) = None"
  by (simp add: owner_def task_at_def)

subsection \<open>Writes to the kernel heap\<close>

definition arena :: "nat set" where "arena = {768 ..< 1024}"

definition arena_write :: "sched \<Rightarrow> sched \<Rightarrow> bool" where
  "arena_write s s' \<longleftrightarrow> pg s' = (pg s)\<lparr>ram := ram (pg s')\<rparr> \<and> touches arena (ram (pg s)) (ram (pg s')) \<and>
     current s' = current s \<and> zombie_cr3 s' = zombie_cr3 s"

lemma arena_write_refl [simp]: "arena_write s s"
  by (simp add: arena_write_def touches_def)

lemma arena_write_trans: "arena_write s t \<Longrightarrow> arena_write t u \<Longrightarrow> arena_write s u"
proof -
  assume a: "arena_write s t" "arena_write t u"
  then have "pg u = (pg s)\<lparr>ram := ram (pg u)\<rparr>"
    unfolding arena_write_def by (metis (no_types, lifting) pg_state.surjective pg_state.update_convs(1))
  with a show "arena_write s u"
    unfolding arena_write_def touches_def by auto
qed

lemma arena_write_keeps:
  assumes "arena_write s s'"
  shows "cr3 (pg s') = cr3 (pg s)" "wp_set (pg s') = wp_set (pg s)" "mm (pg s') = mm (pg s)"
    "current s' = current s" "zombie_cr3 s' = zombie_cr3 s"
proof -
  have "pg s' = (pg s)\<lparr>ram := ram (pg s')\<rparr>" using assms by (simp add: arena_write_def)
  then show "cr3 (pg s') = cr3 (pg s)" "wp_set (pg s') = wp_set (pg s)" "mm (pg s') = mm (pg s)"
    unfolding wp_set_def by (metis pg_state.select_convs(2,3,6) pg_state.surjective pg_state.update_convs(1))+
qed (use assms in \<open>simp_all add: arena_write_def\<close>)

lemma arena_write_vm:
  assumes "arena_write s s'" "vm_ok L (pg s)"
  shows "vm_ok L (pg s')"
proof -
  have "arena \<inter> (pool_frames \<union> {fno KERNEL_PD, fno KERNEL_PT}) = {}"
    by (auto simp: arena_def pool_frames_def pg_consts fno_def)
  then have "kernel_write (ram (pg s)) (ram (pg s'))"
    using assms(1) by (auto simp: kernel_write_def arena_write_def touches_def)
  then have "vm_abs L ((pg s)\<lparr>ram := ram (pg s')\<rparr>) = vm_abs L (pg s)" "vm_shape L ((pg s)\<lparr>ram := ram (pg s')\<rparr>)"
    using kernel_write_refines [OF assms(2)] by blast+
  moreover have "(pg s)\<lparr>ram := ram (pg s')\<rparr> = pg s'"
    using assms(1) by (simp add: arena_write_def)
  ultimately show ?thesis using assms(2) by (simp add: vm_ok_def)
qed

lemma arena_write_table:
  assumes "pg s' = pg s" "current s' = current s" "zombie_cr3 s' = zombie_cr3 s"
  shows "arena_write s s'"
  using assms by (simp add: arena_write_def touches_def)

lemma arena_nat: "0x300000 \<le> x \<Longrightarrow> x < 0x400000 \<Longrightarrow> fno (of_nat x) \<in> arena"
  by (simp add: arena_def fno_def unat_of_nat32 less_mult_imp_div_less Suc_le_eq [symmetric] div_le_mono [of 3145728 x 4096, simplified])

text \<open>\<open>kmalloc\<close> and \<open>kfree\<close> stay in the arena; so do writes into a used block.\<close>

lemma touches_nat:
  assumes "\<And>x. x < 4294967296 \<Longrightarrow> x < 0x300000 \<or> 0x400000 \<le> x \<Longrightarrow> m' (of_nat x) = m (of_nat x)"
  shows "touches arena m m'"
  unfolding touches_def
proof (intro allI impI)
  fix a :: u32 assume a: "fno a \<notin> arena"
  then have "unat a < 0x300000 \<or> 0x400000 \<le> unat a"
    using arena_nat [of "unat a"] by force
  then show "m' a = m a" using assms [of "unat a"] unat_less_2p32 [of a] by simp
qed

text \<open>Every block somebody owns stays where it is.\<close>

definition keeps :: "sched \<Rightarrow> sched \<Rightarrow> bool" where
  "keeps s t \<longleftrightarrow> (\<forall>p R. heap_owns (sheap s) p R \<longrightarrow> heap_owns (sheap t) p R)"

lemma keeps_trans: "keeps s t \<Longrightarrow> keeps t u \<Longrightarrow> keeps s u"
  by (simp add: keeps_def)

lemma keeps_heap: "sheap t = sheap s \<Longrightarrow> keeps s t"
  by (simp add: keeps_def)

lemma keeps_blocks: "heap_ok (sheap s) bs \<Longrightarrow> heap_ok (sheap t) bs \<Longrightarrow> keeps s t"
  using heap_ok_unique unfolding keeps_def heap_owns_def by blast

lemma s_kmalloc_block:
  assumes "heap_ok (sheap s) bs" and "s_kmalloc n s = Some (p, s')"
  obtains (none) "p = 0" "s' = s"
    | (block) i z bs' where "p \<noteq> 0" "heap_ok (sheap s') bs'" "p = of_nat (0x300000 + i + 12)"
      "blk_at i bs' = Some (z, False)" "round8 n \<le> z" "0x300000 + i + 12 + z \<le> 0x400000" "(0x300000 + i) mod 4 = 0"
      "{0x300000 + i + 12 ..< 0x300000 + i + 12 + z} \<subseteq> used_at 0x300000 bs'"
      "used_at 0x300000 bs \<subseteq> used_at 0x300000 bs'" "arena_write s s'" "same_table s s'" "keeps s s'"
      "\<forall>q R. heap_owns (sheap s) q R \<longrightarrow> q \<noteq> p"
proof -
  obtain h where h: "kmalloc n (sheap s) = Some (p, h)" "s' = s\<lparr>pg := (pg s)\<lparr>ram := hram h\<rparr>, hhead := heap_head h\<rparr>"
    using assms(2) by (auto simp: s_kmalloc_def sheap_def)
  have h': "sheap s' = h" by (simp add: h(2) sheap_def)
  show thesis
  proof (cases "p = 0")
    case True
    then have "h = sheap s" using kmalloc_spec(1) [OF assms(1) h(1)] by blast
    then have "s' = s" by (simp add: h(2) sheap_def)
    with True show thesis by (rule none)
  next
    case False
    obtain i z bs' where b: "heap_ok h bs'" "p = of_nat (0x300000 + i + 12)" "blk_at i bs' = Some (z, False)"
      "round8 n \<le> z" "0x300000 + i + 12 + z \<le> 0x400000" "(0x300000 + i) mod 4 = 0"
      "used_at 0x300000 bs' = used_at 0x300000 bs \<union> {0x300000 + i + 12 ..< 0x300000 + i + 12 + z}"
      "\<forall>x<4294967296. x < 0x300000 \<or> 0x400000 \<le> x \<or> x \<in> used_at 0x300000 bs \<longrightarrow> hram h (of_nat x) = hram (sheap s) (of_nat x)"
      using kmalloc_spec(2) [OF assms(1) h(1) False] by (elim exE conjE) (rule that)
    have "touches arena (ram (pg s)) (hram h)"
      using b(8) by (intro touches_nat) (auto simp: sheap_def)
    then have "arena_write s s'" by (simp add: arena_write_def h(2))
    moreover have "keeps s s'" using kmalloc_keeps [OF h(1)] by (simp add: keeps_def h')
    moreover have "\<forall>q R. heap_owns (sheap s) q R \<longrightarrow> q \<noteq> p" using kmalloc_fresh [OF h(1) False] by blast
    ultimately show thesis using b h' False same_table_ops(1) [OF assms(2)] by (intro block) auto
  qed
qed

lemma s_kfree_block:
  assumes "heap_ok (sheap s) bs" "blk_at i bs = Some (z, f)" and "s_kfree (of_nat (0x300000 + i + 12)) s = Some s'"
  shows "heap_valid (sheap s')" "arena_write s s'" "same_table s s'"
    "f = False \<Longrightarrow> q \<noteq> of_nat (0x300000 + i + 12) \<Longrightarrow> heap_owns (sheap s) q R \<Longrightarrow> heap_owns (sheap s') q R"
proof -
  obtain h where h: "kfree (of_nat (0x300000 + i + 12)) (sheap s) = Some h" "s' = s\<lparr>pg := (pg s)\<lparr>ram := hram h\<rparr>, hhead := heap_head h\<rparr>"
    using assms(3) by (auto simp: s_kfree_def sheap_def)
  have k: "heap_ok h (ff_free i bs)" "0x300000 + i + 12 + z \<le> 0x400000"
      "\<forall>x<4294967296. x < 0x300000 + i \<or> 0x300000 + i + 12 \<le> x \<longrightarrow> hram h (of_nat x) = hram (sheap s) (of_nat x)"
    using kfree_spec [OF assms(1,2)] h(1) used_ff_free [OF heap_ok_at [OF assms(1)] assms(2)] by auto
  then show "heap_valid (sheap s')"
    using h(2) by (auto simp: heap_valid_def sheap_def heap_ok_def)
  have "touches arena (ram (pg s)) (hram h)"
    using k(2,3) by (intro touches_nat) (auto simp: sheap_def)
  then show "arena_write s s'" by (simp add: arena_write_def h(2))
  show "same_table s s'" by (rule same_table_ops(2) [OF assms(3)])
  have h': "sheap s' = h" by (simp add: h(2) sheap_def)
  assume f: "f = False" "q \<noteq> of_nat (0x300000 + i + 12)" "heap_owns (sheap s) q R"
  have "heap_owns (sheap s) (of_nat (0x300000 + i + 12)) {0x300000 + i + 12 ..< 0x300000 + i + 12 + z}"
    using assms(1,2) f(1) unfolding heap_owns_def by blast
  from kfree_keeps [OF h(1) this f(3,2)] show "heap_owns (sheap s') q R" unfolding h' .
qed

lemma payload_write:
  assumes "heap_ok (sheap s) bs" and "{a ..< a + n} \<subseteq> used_at 0x300000 bs" "a + n \<le> 0x400000" "0x300000 \<le> a"
    and "\<And>x. x < 4294967296 \<Longrightarrow> x < a \<or> a + n \<le> x \<Longrightarrow> g (ram (pg s)) (of_nat x) = ram (pg s) (of_nat x)"
  shows "heap_ok (sheap (set_ram g s)) bs" "arena_write s (set_ram g s)"
proof -
  have out: "x < a \<or> a + n \<le> x" if "x \<notin> used_at 0x300000 bs" for x
    using that assms(2) by (meson atLeastLessThan_iff not_less subsetD)
  show "heap_ok (sheap (set_ram g s)) bs"
    using out assms(5) by (intro heap_ok_payload [OF assms(1)]) blast
  have "touches arena (ram (pg s)) (g (ram (pg s)))"
    using assms(3-5) by (intro touches_nat) auto
  then show "arena_write s (set_ram g s)" by (simp add: arena_write_def set_ram_def)
qed

lemma memcpy_outside: "x \<notin> span d n \<Longrightarrow> memcpy m d s n x = m x"
  by (induction n arbitrary: m d s) (auto simp: span_Suc)

subsection \<open>Making tasks\<close>

text \<open>The common beginning: a dead slot, then a fresh interrupt stack or none.\<close>

lemma alloc_slot_owner:
  assumes "sched_inv s" "alloc_slot s = (k, s1)" "\<not> MAX_TASKS \<le> k"
  shows "owner s1 = owner s" "owner s1 (unat k) = None" "arena_write s s1" "sheap s1 = sheap s" "k \<noteq> current s" "unat k < 16"
    "length (tasks s1) = 16"
proof -
  note sl = alloc_slot_spec [OF assms]
  show "owner s1 = owner s" by (rule owner_cong [OF sl(7)])
  show "owner s1 (unat k) = None" by (rule owner_dead [OF sl(4)])
  have "zombie_cr3 s1 = zombie_cr3 s" using assms(2) by (auto simp: alloc_slot_def split: option.splits if_splits)
  then show "arena_write s s1" using sl(8,9) by (intro arena_write_table)
  show "sheap s1 = sheap s" using sl(9,10) by (simp add: sheap_def)
  show "k \<noteq> current s" "unat k < 16" "length (tasks s1) = 16"
    using sl(3,5,8) sched_inv_facts(1) [OF sl(1)] by simp_all
qed

lemma task_field: "(\<And>t. h (f t) = h t) \<Longrightarrow> h (task_at (upd_task k f s) j) = h (task_at s j)"
  by (cases "unat k < length (tasks s)") (simp_all add: task_at_upd, simp add: upd_task_def list_update_beyond)

lemma irq_stack_effect:
  assumes "heap_ok (sheap s) bs" "alloc_irq_stack k s = Some (r, s')" "irq_stack_top (task_at s k) = 0"
  shows "owner s' = owner s" "arena_write s s'" "length (tasks s') = length (tasks s)" "next_pid s' = next_pid s"
    "\<not> r \<Longrightarrow> s' = s" "heap_valid (sheap s')"
    "pid (task_at s' j) = pid (task_at s j)" "stack_bottom (task_at s' j) = stack_bottom (task_at s j)"
    "\<exists>bs'. heap_ok (sheap s') bs' \<and> used_at 0x300000 bs \<subseteq> used_at 0x300000 bs'" "keeps s s'"
proof -
  obtain p t where p: "s_kmalloc IRQ_STACK s = Some (p, t)" "p = 0 \<Longrightarrow> \<not> r \<and> s' = t"
    "p \<noteq> 0 \<Longrightarrow> r \<and> s' = upd_task k (irq_stack_top_update (\<lambda>_. p + IRQ_STACK)) t"
    using assms(2,3) by (auto simp: alloc_irq_stack_def split: bind_splits if_splits)
  have "owner s' = owner s \<and> arena_write s s' \<and> length (tasks s') = length (tasks s) \<and> next_pid s' = next_pid s \<and>
    (\<not> r \<longrightarrow> s' = s) \<and> (\<forall>j. pid (task_at s' j) = pid (task_at s j) \<and> stack_bottom (task_at s' j) = stack_bottom (task_at s j)) \<and>
    (\<exists>bs'. heap_ok (sheap s') bs' \<and> used_at 0x300000 bs \<subseteq> used_at 0x300000 bs') \<and> keeps s s'"
  proof (rule s_kmalloc_block [OF assms(1) p(1)], goal_cases)
    case 1
    then show ?case using p(2) assms(1) by (auto simp: keeps_heap)
  next
    case (2 i z bs')
    note u = p(3) [OF 2(1)] and t = same_table_simps [OF 2(11)]
    have at: "task_at t j = task_at s j" for j by (simp add: task_at_def t)
    have "arena_write t s'" using u by (intro arena_write_table) auto
    with 2(10) have "arena_write s s'" by (rule arena_write_trans)
    moreover have "pid (task_at s' j) = pid (task_at s j) \<and> stack_bottom (task_at s' j) = stack_bottom (task_at s j)" for j
      using u at by (simp add: task_field)
    moreover have "keeps t s'" using u by (intro keeps_heap) auto
    with 2(12) have "keeps s s'" by (rule keeps_trans)
    ultimately show ?case
      using u 2(2,9) owner_same [OF 2(11)] by (intro conjI exI [of _ bs']) (auto simp: t)
  qed
  then show "owner s' = owner s" "arena_write s s'" "length (tasks s') = length (tasks s)" "next_pid s' = next_pid s"
    "\<not> r \<Longrightarrow> s' = s" "heap_valid (sheap s')"
    "pid (task_at s' j) = pid (task_at s j)" "stack_bottom (task_at s' j) = stack_bottom (task_at s j)"
    "\<exists>bs'. heap_ok (sheap s') bs' \<and> used_at 0x300000 bs \<subseteq> used_at 0x300000 bs'" "keeps s s'"
    by (auto simp: heap_valid_def)
qed

text \<open>Pushing a frame at the top of a block of \<open>n\<close> bytes.\<close>

lemma push_block:
  assumes "heap_ok (sheap s) bs" "{a ..< a + n} \<subseteq> used_at 0x300000 bs" "a + n \<le> 0x400000" "0x300000 \<le> a"
    and "a mod 4 = 0" "n mod 4 = 0" "4 * length vs \<le> n" "b = of_nat (a + n)"
  shows "heap_ok (sheap (set_ram (\<lambda>_. snd (push_all vs b (ram (pg s)))) s)) bs"
    "arena_write s (set_ram (\<lambda>_. snd (push_all vs b (ram (pg s)))) s)"
proof -
  have "snd (push_all vs b (ram (pg s))) (of_nat x) = ram (pg s) (of_nat x)"
    if "x < 4294967296" "x < a \<or> a + n \<le> x" for x
    unfolding assms(8) by (rule push_all_outside) (use that assms in \<open>auto simp: mod_add_eq [symmetric]\<close>)
  then show "heap_ok (sheap (set_ram (\<lambda>_. snd (push_all vs b (ram (pg s)))) s)) bs"
    "arena_write s (set_ram (\<lambda>_. snd (push_all vs b (ram (pg s)))) s)"
    using payload_write [OF assms(1-4), of "\<lambda>_. snd (push_all vs b (ram (pg s)))"] by blast+
qed

lemma user_stack_effect:
  assumes "heap_ok (sheap s) bs" "task_setup_user_stack k e s = Some s'"
  shows "owner s' = owner s" "arena_write s s'" "heap_valid (sheap s')" "pid (task_at s' j) = pid (task_at s j)" "keeps s s'"
proof -
  obtain p t where p: "s_kmalloc 0x1000 s = Some (p, t)"
    using assms(2) by (auto simp: task_setup_user_stack_def split: bind_splits)
  have "owner s' = owner s \<and> arena_write s s' \<and> heap_valid (sheap s') \<and> (\<forall>j. pid (task_at s' j) = pid (task_at s j)) \<and> keeps s s'"
  proof (rule s_kmalloc_block [OF assms(1) p], goal_cases)
    case 1
    then show ?case using p assms by (auto simp: task_setup_user_stack_def heap_valid_def keeps_heap)
  next
    case (2 i z bs')
    let ?a = "0x300000 + i + 12"
    let ?vs = "[GDT_UDATA_SEL, USER_STACK_TOP, 0x202, GDT_UCODE_SEL, e] @ replicate 14 0"
    let ?r = "push_all ?vs (p + 0x1000) (ram (pg t))"
    have z: "0x1000 \<le> z" using 2(5) by (simp add: round8_def)
    have s': "s' = upd_task k (esp_update (\<lambda>_. fst ?r)) (set_ram (\<lambda>_. snd ?r) t)"
      using assms(2) p 2(1) by (simp add: task_setup_user_stack_def split_beta Let_def)
    have b: "{?a ..< ?a + 0x1000} \<subseteq> used_at 0x300000 bs'" using 2(8) z by auto
    have "p + 0x1000 = of_nat (?a + 0x1000)" by (simp add: 2(3))
    moreover have "?a mod 4 = 0" using 2(7) by presburger
    ultimately have w: "heap_ok (sheap (set_ram (\<lambda>_. snd ?r) t)) bs'" "arena_write t (set_ram (\<lambda>_. snd ?r) t)"
      using push_block [OF 2(2) b, of ?vs "p + 0x1000"] 2(6) z by (simp_all del: push_all.simps)
    have "arena_write (set_ram (\<lambda>_. snd ?r) t) s'" unfolding s' by (rule arena_write_table) simp_all
    then have "arena_write s s'" using arena_write_trans 2(10) w(2) by blast
    moreover have "heap_valid (sheap s')" using w(1) by (auto simp: s' heap_valid_def simp del: push_all.simps)
    moreover have "pid (task_at s' j) = pid (task_at s j)" for j
      unfolding s' by (simp add: task_field del: push_all.simps) (simp add: task_at_def same_table_simps [OF 2(11)])
    moreover have "owner s' = owner s" using owner_same [OF 2(11)] by (simp add: s' del: push_all.simps)
    moreover have "heap_ok (sheap s') bs'" using w(1) by (simp add: s' del: push_all.simps)
    then have "keeps s s'" using keeps_trans [OF 2(12) keeps_blocks [OF 2(2)]] by blast
    ultimately show ?case by blast
  qed
  then show "owner s' = owner s" "arena_write s s'" "heap_valid (sheap s')" "pid (task_at s' j) = pid (task_at s j)" "keeps s s'"
    by blast+
qed

lemma arena_write_slot [simp]:
  "arena_write s (init_slot k fl s)" "arena_write s (kill_slot k s)" "arena_write s (name_slot k n s)"
  "arena_write s (upd_task k f s)"
  by (rule arena_write_table; simp add: init_slot_def kill_slot_def name_slot_def)+

lemma sheap_slot [simp]: "sheap (kill_slot k s) = sheap s" "sheap (name_slot k n s) = sheap s"
  by (simp_all add: kill_slot_def name_slot_def)

lemma length_slot [simp]: "length (tasks (kill_slot k s)) = length (tasks s)" "length (tasks (name_slot k n s)) = length (tasks s)"
  "length (tasks (init_slot k fl s)) = length (tasks s)"
  by (simp_all add: kill_slot_def name_slot_def init_slot_def)

text \<open>Filling a new kernel stack and giving it its first frame.\<close>

lemma kernel_stack_effect:
  assumes "heap_ok (sheap s) bs" "{a ..< a + 0x4000} \<subseteq> used_at 0x300000 bs" "a + 0x4000 \<le> 0x400000" "0x300000 \<le> a" "a mod 4 = 0"
    and "stack_bottom (task_at s k) = of_nat a"
  shows "heap_ok (sheap (task_setup_stack k fn (name_slot k n (set_ram (\<lambda>m. memset m (of_nat a) 0xCC (unat TASK_STACK)) s)))) bs"
    "arena_write s (task_setup_stack k fn (name_slot k n (set_ram (\<lambda>m. memset m (of_nat a) 0xCC (unat TASK_STACK)) s)))"
proof -
  show "heap_ok (sheap (task_setup_stack k fn (name_slot k n (set_ram (\<lambda>m. memset m (of_nat a) 0xCC (unat TASK_STACK)) s)))) bs"
    by (rule stack_set_up_heap [OF assms(1,2,5,3,6)])
  let ?s1 = "set_ram (\<lambda>m. memset m (of_nat a) 0xCC (unat TASK_STACK)) s"
  have "memset (ram (pg s)) (of_nat a) 0xCC (unat TASK_STACK) (of_nat x) = ram (pg s) (of_nat x)"
    if "x < 4294967296" "x < a \<or> a + 0x4000 \<le> x" for x
    unfolding memset_put using that assms(3)
    by (intro put_bytes_outside) (simp add: TASK_STACK_def span_nat)
  then have w1: "heap_ok (sheap ?s1) bs" "arena_write s ?s1"
    using payload_write [OF assms(1-4), of "\<lambda>m. memset m (of_nat a) 0xCC (unat TASK_STACK)"] by blast+
  let ?s2 = "name_slot k n ?s1"
  have sb: "stack_bottom (task_at ?s2 k) + TASK_STACK = of_nat (a + 0x4000)"
    using assms(6) by (simp add: name_slot_def task_field TASK_STACK_def)
  have h2: "heap_ok (sheap ?s2) bs" using w1(1) by simp
  let ?r = "push_all ([0x202, 0x08, fn] @ replicate 14 0) (stack_bottom (task_at ?s2 k) + TASK_STACK) (ram (pg ?s2))"
  have w2: "arena_write ?s2 (set_ram (\<lambda>_. snd ?r) ?s2)"
    using push_block(2) [OF h2 assms(2-5), of "[0x202, 0x08, fn] @ replicate 14 0"] unfolding sb by (simp del: push_all.simps)
  have "task_setup_stack k fn ?s2 = upd_task k (esp_update (\<lambda>_. fst ?r)) (set_ram (\<lambda>_. snd ?r) ?s2)"
    by (simp only: task_setup_stack_def case_prod_unfold Let_def)
  then show "arena_write s (task_setup_stack k fn ?s2)"
    using arena_write_trans [OF w1(2) arena_write_trans [OF arena_write_slot(3) arena_write_trans [OF w2 arena_write_slot(4)]]] by metis
qed

lemma task_create_effect:
  assumes "sched_inv s" "next_pid s < minus1" "heap_valid (sheap s)" "task_create name fn s = Some (p, s')"
  shows "owner s' = owner s" "arena_write s s'" "heap_valid (sheap s')"
proof -
  obtain bs where h: "heap_ok (sheap s) bs" using assms(3) by (auto simp: heap_valid_def)
  obtain k s1 where a: "alloc_slot s = (k, s1)" by (cases "alloc_slot s")
  have "owner s' = owner s \<and> arena_write s s' \<and> heap_valid (sheap s')"
  proof (cases "MAX_TASKS \<le> k")
    case True
    then have "s' = s" using assms(4) a alloc_slot_full(1) [OF assms(1) a] by (simp add: task_create_def)
    with assms(3) show ?thesis by simp
  next
    case False
    note sl = alloc_slot_owner [OF assms(1) a False]
    let ?s2 = "init_slot k TASK_KERNEL s1"
    have o2: "owner ?s2 = owner s" using sl(1,2,6,7) by (auto simp: owner_slot TASK_KERNEL_def TASK_USER_def fun_upd_idem)
    have w2: "arena_write s ?s2" using arena_write_trans [OF sl(3)] by simp
    obtain stk s3 where m: "s_kmalloc TASK_STACK ?s2 = Some (stk, s3)"
      using assms(4) a False by (auto simp: task_create_def split: bind_splits)
    have kn: "owner s (unat k) = None" using sl(1,2) by simp
    have h2: "heap_ok (sheap ?s2) bs" using h sl(4) by simp
    show ?thesis
    proof (rule s_kmalloc_block [OF h2 m], goal_cases)
      case 1
      have "s' = kill_slot k (upd_task k (stack_bottom_update (\<lambda>_. 0)) ?s2)"
        using assms(4) a False m 1 by (simp add: task_create_def)
      then show ?case
        using arena_write_trans [OF w2 arena_write_trans [OF arena_write_slot(4) arena_write_slot(2)]] o2 kn sl(6,7) assms(3) sl(4)
        by (auto simp: owner_slot fun_upd_idem)
    next
      case (2 i z bs')
      let ?s4 = "upd_task k (stack_bottom_update (\<lambda>_. stk)) s3"
      let ?a = "0x300000 + i + 12"
      have o4: "owner ?s4 = owner s" using owner_same [OF 2(11)] o2 by simp
      have w4: "arena_write s ?s4" by (rule arena_write_trans [OF arena_write_trans [OF w2 2(10)] arena_write_slot(4)])
      obtain r s5 where al: "alloc_irq_stack k ?s4 = Some (r, s5)"
        using assms(4) a False m 2(1) by (auto simp: task_create_def Let_def split: bind_splits)
      have l3: "unat k < length (tasks s3)" using sl(6,7) by (simp add: same_table_simps [OF 2(11)])
      have "irq_stack_top (task_at ?s4 k) = 0"
        using l3 sl(6,7)
        by (simp add: task_at_upd) (simp add: task_at_def same_table_simps [OF 2(11)] init_slot_def upd_task_def zero_task_def)
      moreover have "heap_ok (sheap ?s4) bs'" using 2(2) by simp
      ultimately have e: "owner s5 = owner s" "arena_write s s5" "length (tasks s5) = 16" "\<not> r \<Longrightarrow> s5 = ?s4"
        "stack_bottom (task_at s5 k) = stk" "heap_valid (sheap s5)"
        "\<exists>cs. heap_ok (sheap s5) cs \<and> used_at 0x300000 bs' \<subseteq> used_at 0x300000 cs"
        using irq_stack_effect [OF _ al] o4 arena_write_trans [OF w4] l3 sl(7)
        by (simp_all add: task_at_upd same_table_simps [OF 2(11)])
      show ?case
      proof (cases r)
        case False
        then have "s' = kill_slot k s5"
          using assms(4) a \<open>\<not> MAX_TASKS \<le> k\<close> m 2(1) al by (simp add: task_create_def Let_def)
        then show ?thesis
          using arena_write_trans [OF e(2) arena_write_slot(2)] e(1,3,6) kn sl(6) by (auto simp: owner_slot fun_upd_idem)
      next
        case True
        obtain cs where c: "heap_ok (sheap s5) cs" "used_at 0x300000 bs' \<subseteq> used_at 0x300000 cs" using e(7) by blast
        let ?s6 = "task_setup_stack k fn (name_slot k name (set_ram (\<lambda>m. memset m stk 0xCC (unat TASK_STACK)) s5))"
        have z: "0x4000 \<le> z" using 2(5) by (simp add: round8_def TASK_STACK_def)
        have "{?a ..< ?a + 0x4000} \<subseteq> used_at 0x300000 cs" using 2(8) c(2) z by fastforce
        then have "heap_ok (sheap ?s6) cs" "arena_write s5 ?s6"
          unfolding 2(3) using kernel_stack_effect [OF c(1), of ?a k fn name] 2(6,7) z e(5) 2(3)
          by (simp_all add: mod_add_eq [symmetric])
        moreover have "s' = ?s6"
          using assms(4) a \<open>\<not> MAX_TASKS \<le> k\<close> m 2(1) al True by (simp add: task_create_def Let_def)
        ultimately show ?thesis
          using arena_write_trans [OF e(2)] e(1) by (auto simp: heap_valid_def)
      qed
    qed
  qed
  then show "owner s' = owner s" "arena_write s s'" "heap_valid (sheap s')" by blast+
qed

text \<open>The new owner of a directory: a slot nobody had, and not the running one.\<close>

definition places :: "u32 \<Rightarrow> sched \<Rightarrow> sched \<Rightarrow> bool" where
  "places c s s' \<longleftrightarrow> (\<exists>k. owner s k = None \<and> k \<noteq> unat (current s) \<and> owner s' = (owner s)(k \<mapsto> c))"

lemma task_create_user_effect:
  assumes "sched_inv s" "next_pid s < minus1" "heap_valid (sheap s)" "task_create_user name e c s = Some (p, s')"
  shows "if p = 0 then owner s' = owner s else places c s s'" "arena_write s s'" "heap_valid (sheap s')" "keeps s s'"
proof -
  obtain bs where h: "heap_ok (sheap s) bs" using assms(3) by (auto simp: heap_valid_def)
  obtain k s1 where a: "alloc_slot s = (k, s1)" by (cases "alloc_slot s")
  have "(if p = 0 then owner s' = owner s else places c s s') \<and> arena_write s s' \<and> heap_valid (sheap s') \<and> keeps s s'"
  proof (cases "MAX_TASKS \<le> k")
    case True
    then have "s' = s" "p = 0" using assms(4) a alloc_slot_full(1) [OF assms(1) a] by (simp_all add: task_create_user_def)
    with assms(3) show ?thesis by (simp add: keeps_heap)
  next
    case False
    note sl = alloc_slot_owner [OF assms(1) a False]
    note sp = alloc_slot_spec [OF assms(1) a False]
    let ?s2 = "init_slot k TASK_USER s1"
    have i: "pid (task_at ?s2 k) = next_pid s" "irq_stack_top (task_at ?s2 k) = 0"
      using init_slot_inv(5,8) [OF sp(1,2,4)] assms(2) sp(6) by simp_all
    have o2: "owner ?s2 = (owner s)(unat k \<mapsto> 0)" using sl(1,6,7) by (simp add: owner_slot)
    have w2: "arena_write s ?s2" using arena_write_trans [OF sl(3)] by simp
    have kn: "owner s (unat k) = None" using sl(1,2) by simp
    have h2: "heap_ok (sheap ?s2) bs" using h sl(4) by simp
    obtain r s3 where al: "alloc_irq_stack k ?s2 = Some (r, s3)"
      using assms(4) a False by (auto simp: task_create_user_def split: bind_splits)
    note ir = irq_stack_effect [OF h2 al i(2)]
    have w3: "arena_write s s3" by (rule arena_write_trans [OF w2 ir(2)])
    have "keeps s ?s2" by (rule keeps_heap) (simp add: sl(4))
    then have k3: "keeps s s3" using ir(10) by (rule keeps_trans)
    have o3: "owner s3 = (owner s)(unat k \<mapsto> 0)" and l3: "length (tasks s3) = 16" using ir(1,3) o2 sl(7) by simp_all
    show ?thesis
    proof (cases r)
      case False
      then have "s' = kill_slot k s3" "p = 0"
        using assms(4) a \<open>\<not> MAX_TASKS \<le> k\<close> al by (simp_all add: task_create_user_def)
      then show ?thesis
        using arena_write_trans [OF w3 arena_write_slot(2)] o3 l3 sl(6) kn ir(6) keeps_trans [OF k3 keeps_heap]
        by (auto simp: owner_slot fun_upd_idem)
    next
      case True
      let ?s4 = "name_slot k name (upd_task k (task_cr3_update (\<lambda>_. c)) s3)"
      obtain bs' where "heap_ok (sheap s3) bs'" using ir(9) by blast
      then have h4: "heap_ok (sheap ?s4) bs'" by simp
      obtain t where t: "task_setup_user_stack k e ?s4 = Some t" "s' = t" "p = pid (task_at t k)"
        using assms(4) a \<open>\<not> MAX_TASKS \<le> k\<close> al True by (auto simp: task_create_user_def split: bind_splits)
      note us = user_stack_effect [OF h4 t(1)]
      have w4: "arena_write s ?s4"
        by (rule arena_write_trans [OF w3 arena_write_trans [OF arena_write_slot(4) arena_write_slot(3)]])
      have "owner s' = (owner s)(unat k \<mapsto> c)"
        using us(1) o3 l3 sl(6) by (simp add: t(2) owner_slot(3) [where d = 0])
      moreover have "unat k \<noteq> unat (current s)" using sl(5) by (simp add: word_unat_eq_iff)
      ultimately have "places c s s'" using kn by (auto simp: places_def)
      moreover have "p = next_pid s"
        using us(4) ir(7) i(1) by (simp add: t(3) name_slot_def task_field)
      then have "p \<noteq> 0" using assms(1) by (auto simp: sched_inv_def)
      moreover have "keeps s3 ?s4" by (rule keeps_heap) simp
      then have "keeps s s'" unfolding t(2) by (rule keeps_trans [OF k3 keeps_trans [OF _ us(5)]])
      ultimately show ?thesis
        using arena_write_trans [OF w4 us(2)] us(3) by (simp add: t(2))
    qed
  qed
  then show "if p = 0 then owner s' = owner s else places c s s'" "arena_write s s'" "heap_valid (sheap s')" "keeps s s'"
    by blast+
qed

subsection \<open>What the operations on address spaces leave alone\<close>

text \<open>The frames of a space: its two tables and the pages mapped for the program.  \<open>spares\<close>: none of them is written.\<close>

definition held :: "mem \<Rightarrow> u32 \<Rightarrow> nat set" where
  "held m d = {fno d, fno (ptab m d)} \<union> user_frames m d"

definition spares :: "u32 \<Rightarrow> mem \<Rightarrow> mem \<Rightarrow> bool" where
  "spares d m m' \<longleftrightarrow> (page_aligned d \<longrightarrow> touches (- held m d) m m')"

lemma spares_tables:
  assumes "page_aligned d" "spares d m m'"
  shows "i < 1024 \<Longrightarrow> uent m' d i = uent m d i" "held m' d = held m d" "user_frames m' d = user_frames m d"
proof -
  have t: "touches (- held m d) m m'" using assms by (simp add: spares_def)
  note u = space_untouched [OF t assms(1)]
  show "uent m' d i = uent m d i" if "i < 1024" for i using u(4) that by (simp add: held_def)
  then show f: "user_frames m' d = user_frames m d" using user_page_less by (auto simp: user_frames_def)
  show "held m' d = held m d" using u(1) f by (simp add: held_def)
qed

lemma spares_refl [simp]: "spares d m m"
  by (simp add: spares_def touches_def)

lemma spares_trans: "spares d m m' \<Longrightarrow> spares d m' m'' \<Longrightarrow> spares d m m''"
  using spares_tables(2) [of d m m'] by (auto simp: spares_def touches_def)

lemma touches_spares: "touches F m m' \<Longrightarrow> F \<inter> held m d = {} \<Longrightarrow> spares d m m'"
  by (auto simp: spares_def touches_def)

text \<open>What no other space holds: free frames, the tables of a space, a frame it may write.\<close>

lemma held_apart:
  assumes ok: "vm_ok L P" and d: "d \<in> L"
  shows "held (ram P) d \<subseteq> pool_frames" "f \<in> free_set (mm P) \<Longrightarrow> f \<notin> held (ram P) d"
    "c \<in> L \<Longrightarrow> d \<noteq> c \<Longrightarrow> fno (ptab (ram P) c) \<notin> held (ram P) d"
    "c \<in> L \<Longrightarrow> d \<noteq> c \<Longrightarrow> pmap (ram P) c i = Some (f, True) \<Longrightarrow> f \<notin> held (ram P) d"
proof -
  note v = vm_space [OF ok d] and t = vm_tables_apart [OF ok insertI2 [OF d]]
  show "held (ram P) d \<subseteq> pool_frames" using v(4,5,7) low_in_pool by (auto simp: held_def)
  show "f \<in> free_set (mm P) \<Longrightarrow> f \<notin> held (ram P) d" using t(1,2) v(8) by (auto simp: held_def)
  assume c: "c \<in> L" "d \<noteq> c"
  show "fno (ptab (ram P) c) \<notin> held (ram P) d"
    using t(5) [OF c(1)] vm_tables_apart(4) [OF ok insertI2 [OF c(1)] d] c(2) by (auto simp: held_def)
  assume w: "pmap (ram P) c i = Some (f, True)"
  then have f: "f \<in> user_frames (ram P) c" unfolding frames_of_pmap [symmetric] by (rule frames_ofI)
  have "users_of (vm_abs L P) f = {c}"
    using ok w c(1) by (intro vspec_okD(10) [of _ _ i]) (simp_all add: vm_ok_def)
  then have "d \<notin> users_of (vm_abs L P) f" using c(2) by simp
  then have "f \<notin> user_frames (ram P) d" using d by (simp add: users_of_def frames_of_pmap)
  then show "f \<notin> held (ram P) d" using f t(3,4) [OF c(1)] by (auto simp: held_def)
qed

definition confined :: "u32 set \<Rightarrow> pg_state \<Rightarrow> pg_state \<Rightarrow> bool" where
  "confined L P P' \<longleftrightarrow> touches pool_frames (ram P) (ram P') \<and> cr3 P' = cr3 P \<and> cr0 P' = cr0 P \<and>
     (\<forall>d\<in>L. d \<noteq> cr3 P \<longrightarrow> spares d (ram P) (ram P'))"

lemma confined_trans: "confined L P Q \<Longrightarrow> confined L Q R \<Longrightarrow> confined L P R"
  unfolding confined_def by (auto intro: spares_trans) (simp add: touches_def)

lemma confined_tables: "ram Q = ram P \<Longrightarrow> cr3 Q = cr3 P \<Longrightarrow> cr0 Q = cr0 P \<Longrightarrow> confined L P Q"
  by (simp add: confined_def touches_def)

lemma arena_heap:
  assumes "\<And>x. fno x \<in> arena \<Longrightarrow> ram P x = ram (pg s) x"
  shows "heap_ok (sheap (s\<lparr>pg := P\<rparr>)) bs = heap_ok (sheap s) bs"
proof -
  have e: "ram P (of_nat x) = ram (pg s) (of_nat x)" if "0x300000 \<le> x" "x < 0x400000" for x
    using assms arena_nat [OF that] by blast
  have "heap_at (ram P) 0x300000 bs = heap_at (ram (pg s)) 0x300000 bs"
    using heap_at_cong [of "ram P" "0x300000" bs "ram (pg s)"] heap_at_cong [of "ram (pg s)" "0x300000" bs "ram P"] e
    by (metis (no_types, lifting))
  then show ?thesis by (simp add: heap_ok_def sheap_def)
qed

lemma arena_kept: "confined L P Q \<Longrightarrow> fno x \<in> arena \<Longrightarrow> ram Q x = ram P x"
  by (auto simp: confined_def touches_def arena_def pool_frames_def)

lemma confined_heap: "confined L (pg s) P \<Longrightarrow> heap_ok (sheap (s\<lparr>pg := P\<rparr>)) bs = heap_ok (sheap s) bs"
  by (rule arena_heap [OF arena_kept])

text \<open>No operation writes CR0.\<close>

named_theorems cr0_same \<open>operations that leave CR0 alone\<close>

lemma kst_cr0 [cr0_same]: "kst32 a v s = Some s' \<Longrightarrow> cr0 s' = cr0 s" "kst8 a b s = Some s' \<Longrightarrow> cr0 s' = cr0 s"
  by (auto simp: kst32_def kst8_def)

lemma copy_cr0 [cr0_same]: "vmemcpy d src n s = Some s' \<Longrightarrow> cr0 s' = cr0 s" "vmemset d c n s = Some s' \<Longrightarrow> cr0 s' = cr0 s"
  by (induction n arbitrary: d src s) (fastforce simp: kst8_def split: bind_splits)+

lemma range_cr0: "for_range f a b s = Some s' \<Longrightarrow> (\<And>i s s'. f i s = Some s' \<Longrightarrow> cr0 s' = cr0 s) \<Longrightarrow> cr0 s' = cr0 s"
proof -
  have "for_each f is s = Some s' \<Longrightarrow> (\<And>i s s'. f i s = Some s' \<Longrightarrow> cr0 s' = cr0 s) \<Longrightarrow> cr0 s' = cr0 s" for "is"
    by (induction "is" arbitrary: s) (fastforce split: bind_splits)+
  then show "for_range f a b s = Some s' \<Longrightarrow> (\<And>i s s'. f i s = Some s' \<Longrightarrow> cr0 s' = cr0 s) \<Longrightarrow> cr0 s' = cr0 s"
    unfolding for_range_def by blast
qed

lemma alloc_tables_cr0 [cr0_same]: "alloc_tables s = (r, s') \<Longrightarrow> cr0 s' = cr0 s"
  by (auto simp: alloc_tables_def Let_def split: prod.splits if_splits)

lemma create_cr0: "paging_create_addr_space s = Some (c, s') \<Longrightarrow> cr0 s' = cr0 s"
proof -
  have z: "for_range (\<lambda>i. kst32 (slot pt i) 0) a b s = Some s' \<Longrightarrow> cr0 s' = cr0 s" for pt a b s s'
    by (rule range_cr0) (auto dest: cr0_same)
  show "paging_create_addr_space s = Some (c, s') \<Longrightarrow> cr0 s' = cr0 s"
    by (auto simp: paging_create_addr_space_def split: prod.splits option.splits bind_splits dest!: cr0_same z)
qed

lemma fork_cr0: "paging_fork_addr_space c s = Some (d, s') \<Longrightarrow> cr0 s' = cr0 s"
proof -
  have f: "fork_page ppt pt i s = Some s' \<Longrightarrow> cr0 s' = cr0 s" for ppt pt i s s'
    by (auto simp: fork_page_def split: bind_splits if_splits dest!: cr0_same)
  show "paging_fork_addr_space c s = Some (d, s') \<Longrightarrow> cr0 s' = cr0 s"
    by (auto simp: paging_fork_addr_space_def Let_def paging_switch_def split: prod.splits option.splits bind_splits if_splits
        dest!: cr0_same range_cr0 [OF _ f])
qed

lemma map_page_cr0: "map_user_page pt i s = Some (r, s') \<Longrightarrow> cr0 s' = cr0 s"
  by (auto simp: map_user_page_def Let_def split: bind_splits if_splits prod.splits dest!: cr0_same)

lemma fault_cr0: "paging_cow_fault va e s = Some (r, s') \<Longrightarrow> cr0 s' = cr0 s"
  by (auto simp: paging_cow_fault_def Let_def split: prod.splits bind_splits if_splits dest!: cr0_same)

text \<open>Creating, forking, mapping, faulting and destroying keep the invariant of \<open>Spaces\<close> and write no frame
  but the pool's.\<close>

lemma pool_confined:
  assumes "\<forall>x. fno x \<notin> F \<longrightarrow> ram P' x = ram P x" "F \<subseteq> pool_frames" "cr3 P' = cr3 P" "cr0 P' = cr0 P"
    and "\<And>d. d \<in> L \<Longrightarrow> d \<noteq> cr3 P \<Longrightarrow> F \<inter> held (ram P) d = {}"
  shows "confined L P P'"
proof -
  have "touches F (ram P) (ram P')" using assms(1) by (simp add: touches_def)
  then show ?thesis using assms touches_spares unfolding confined_def by (auto simp: touches_def)
qed

lemma create_space:
  assumes ok: "vm_ok L P" and low: "low_enough 2 P" and run: "paging_create_addr_space P = Some (c, P')"
  shows "vm_ok (if c = 0 then L else insert c L) P'" "confined L P P'" "c \<noteq> 0 \<Longrightarrow> c \<notin> L" "c \<noteq> 0 \<Longrightarrow> pmap (ram P') c = Map.empty"
proof -
  note k = vm_kernel [OF ok]
  show "vm_ok (if c = 0 then L else insert c L) P'"
    using vm_step_ok [OF vm_step.Create [OF low run, of L]] ok by simp
  have "confined L P P' \<and> (c \<noteq> 0 \<longrightarrow> c \<notin> L \<and> pmap (ram P') c = Map.empty)"
  proof (cases "2 \<le> card (low_frames P)")
    case True
    obtain d Q where d: "paging_create_addr_space P = Some (d, Q)" "fno d \<in> free_set (mm P)" "fno (ptab (ram Q) d) \<in> free_set (mm P)"
      "cr3 Q = cr3 P" "\<forall>x. fbase x \<noteq> d \<longrightarrow> fbase x \<noteq> ptab (ram Q) d \<longrightarrow> ram Q x = ram P x"
      "\<forall>i. user_page i \<longrightarrow> uent (ram Q) d i = 0"
      by (rule create_addr_space_spec [OF k(1) True]) (rule that)
    have "\<forall>x. fno x \<notin> {fno d, fno (ptab (ram Q) d)} \<longrightarrow> ram Q x = ram P x"
      using d(5) fno_fbase by (metis insertCI)
    then have "confined L P Q"
      using d(2-4) k(4) create_cr0 [OF d(1)] by (intro pool_confined [of "{fno d, fno (ptab (ram Q) d)}"]) (auto dest: held_apart(2) [OF ok])
    moreover have "d \<notin> L" using vm_tables_apart(1) [OF ok, of d] d(2) by auto
    moreover have "pmap (ram Q) d = Map.empty" using d(6) by (intro pmap_empty) simp
    ultimately show ?thesis using run d(1) by simp
  next
    case False
    then have few: "card (free_set (mm P)) < 2" using low by (simp add: low_enough_def)
    obtain Q where "alloc_tables P = (None, Q)"
      by (rule alloc_tables_fails [OF ok few]) (rule that)
    moreover from alloc_tables_None [OF k(3) this] obtain M where "Q = P\<lparr>mm := M\<rparr>" by blast
    ultimately show ?thesis using run by (auto simp: paging_create_addr_space_def intro: confined_tables)
  qed
  then show "confined L P P'" "c \<noteq> 0 \<Longrightarrow> c \<notin> L" "c \<noteq> 0 \<Longrightarrow> pmap (ram P') c = Map.empty" by blast+
qed

lemma fork_space:
  assumes ok: "vm_ok L P" and c: "cr3 P \<in> L" and low: "low_enough 2 P" and run: "paging_fork_addr_space (cr3 P) P = Some (d, P')"
  shows "vm_ok (if d = 0 then L else insert d L) P'" "confined L P P'" "d \<noteq> 0 \<Longrightarrow> d \<notin> L"
proof -
  note k = vm_kernel [OF ok]
  show "vm_ok (if d = 0 then L else insert d L) P'"
    using vm_step_ok [OF vm_step.Fork [OF c low run]] ok by simp
  have "confined L P P' \<and> (d \<noteq> 0 \<longrightarrow> d \<notin> L)"
  proof (cases "2 \<le> card (low_frames P)")
    case True
    obtain e Q where e: "paging_fork_addr_space (cr3 P) P = Some (e, Q)" "cr3 Q = cr3 P" "fno e \<in> free_set (mm P)"
      "\<forall>x. fno x \<notin> free_set (mm P) \<longrightarrow> fbase x \<noteq> ptab (ram P) (cr3 P) \<longrightarrow> ram Q x = ram P x"
      by (rule fork_spec [OF vm_proc [OF ok c] True]) (rule that)
    have "\<forall>x. fno x \<notin> free_set (mm P) \<union> {fno (ptab (ram P) (cr3 P))} \<longrightarrow> ram Q x = ram P x"
      using e(4) fno_fbase by (metis UnCI insertCI)
    then have "confined L P Q"
      using e(2) k(4) low_in_pool vm_space(5) [OF ok c] fork_cr0 [OF e(1)]
      by (intro pool_confined [of "free_set (mm P) \<union> {fno (ptab (ram P) (cr3 P))}"]) (auto dest: held_apart(2) [OF ok] held_apart(3) [OF ok _ c])
    moreover have "e \<notin> L" using vm_tables_apart(1) [OF ok, of e] e(3) by auto
    ultimately show ?thesis using run e(1) by simp
  next
    case False
    then have few: "card (free_set (mm P)) < 2" using low by (simp add: low_enough_def)
    obtain Q where "alloc_tables P = (None, Q)"
      by (rule alloc_tables_fails [OF ok few]) (rule that)
    moreover from alloc_tables_None [OF k(3) this] obtain M where "Q = P\<lparr>mm := M\<rparr>" by blast
    ultimately show ?thesis
      using run by (auto simp: paging_fork_addr_space_def Let_def intro: confined_tables split: bind_splits if_splits)
  qed
  then show "confined L P P'" "d \<noteq> 0 \<Longrightarrow> d \<notin> L" by blast+
qed

lemma map_space:
  assumes ok: "vm_ok L P" and c: "cr3 P \<in> L" and run: "paging_map_user_region (cr3 P) v n P = Some (r, P')"
  shows "vm_ok L P'" "confined L P P'"
proof -
  show "vm_ok L P'" using vm_step_ok [OF vm_step.Map [OF c run]] ok by simp
  have many: "map_pages (ptab (ram P) (cr3 P)) is P = Some (r, P') \<Longrightarrow> vm_ok L P \<Longrightarrow> cr3 P \<in> L \<Longrightarrow> \<forall>i\<in>set is. i < 1024 \<Longrightarrow>
     confined L P P'" for "is" r P P'
  proof (induction "is" arbitrary: P)
    case (Cons i js)
    obtain q Q where q: "map_user_page (ptab (ram P) (cr3 P)) i P = Some (q, Q)" "vm_ok L Q" "cr3 Q = cr3 P"
      "ptab (ram Q) (cr3 P) = ptab (ram P) (cr3 P)" "\<forall>x. fbase x \<noteq> ptab (ram P) (cr3 P) \<longrightarrow> ram Q x = ram P x"
      by (rule map_any_page [OF Cons.prems(2,3)]) (use Cons.prems(4) in auto)
    have "\<forall>x. fno x \<notin> {fno (ptab (ram P) (cr3 P))} \<longrightarrow> ram Q x = ram P x"
      using q(5) fno_fbase by (metis insertCI)
    then have Q: "confined L P Q"
      using vm_space(5) [OF Cons.prems(2,3)] low_in_pool map_page_cr0 [OF q(1)] q(3)
      by (intro pool_confined [of "{fno (ptab (ram P) (cr3 P))}"]) (auto dest: held_apart(3) [OF Cons.prems(2) _ Cons.prems(3)])
    then show ?case
      using Cons q confined_trans [OF Q, of P'] by (auto split: if_splits)
  qed (auto intro: confined_tables)
  show "confined L P P'"
  proof (rule map_region_cases [OF ok c, of v n], goal_cases)
    case 2
    then show ?case by (intro many [of _ _ r]) (use run ok c in \<open>auto simp: unat_and_0x3FF less_Suc_eq_le intro: le_less_trans\<close>)
  qed (use run in \<open>auto intro: confined_tables\<close>)
qed

definition fault_ready :: "u32 set \<Rightarrow> u32 \<Rightarrow> pg_state \<Rightarrow> bool" where
  "fault_ready L va P \<longleftrightarrow> cr3 P \<in> L \<and> user_page (fno va) \<and> (low_frames P \<noteq> {} \<or> free_set (mm P) = {}) \<and>
     (\<forall>f w. pmap (ram P) (cr3 P) (fno va) = Some (f, w) \<longrightarrow> f \<in> low_pool)"

lemma fault_space:
  assumes ok: "vm_ok L P" and fr: "fault_ready L va P" and run: "paging_cow_fault va e P = Some (r, P')"
  shows "vm_ok L P'" "confined L P P'"
proof -
  have c: "cr3 P \<in> L" and i: "user_page (fno va)" using fr by (simp_all add: fault_ready_def)
  show "vm_ok L P'" using vm_step_ok [OF vm_step.Fault [OF c i _ _ run]] ok fr by (simp add: fault_ready_def)
  let ?e = "uent (ram P) (cr3 P) (fno va)" and ?pt = "ptab (ram P) (cr3 P)"
  show "confined L P P'"
  proof (cases "e AND PTE_U = 0 \<or> e AND PTE_W = 0 \<or> ?e AND PTE_P = 0 \<or> ?e AND PTE_W \<noteq> 0 \<or> free_set (mm P) = {}")
    case True
    then have "P' = P" using cow_declined [OF vm_proc [OF ok c] i] run by simp
    then show ?thesis by (simp add: confined_tables)
  next
    case False
    then have f: "fno ?e \<in> low_pool" "low_frames P \<noteq> {}" using fr i by (auto simp: fault_ready_def pmap_def)
    then have ke: "kaddr ?e" by (simp add: kaddr_def user_page_def low_pool_def)
    obtain nf M Q where n: "paging_cow_fault va e P = Some (True, Q)" "fno nf \<in> free_set (mm P)" "page_aligned nf"
      "Q = P\<lparr>ram := store32 (page_copy (ram P) nf (fbase ?e)) (slot ?pt (fno va)) (nf OR 7),
            mm := mm_ref_inc (fno nf) (mm_ref_dec (fno ?e) M)\<rparr>"
      by (rule cow_fault_spec [OF vm_proc [OF ok c] i _ _ _ _ ke f(2)]) (use False in \<open>auto simp: uentP_def\<close>)
    have "ram Q x = ram P x" if "fno x \<notin> {fno nf, fno ?pt}" for x
    proof -
      have "fbase x \<noteq> nf" "fbase x \<noteq> ?pt" using that fno_fbase by (metis insertCI)+
      then show ?thesis
        using user_page_less [OF i] by (simp add: n(4) store32_other_page aligned4_slot fbase_slot page_copy_other)
    qed
    then have "confined L P Q"
      using n(2) vm_kernel(4) [OF ok] vm_space(5) [OF ok c] low_in_pool
      by (intro pool_confined [of "{fno nf, fno ?pt}"]) (auto simp: n(4) dest: held_apart(2) [OF ok] held_apart(3) [OF ok _ c])
    then show ?thesis using run n(1) by simp
  qed
qed

lemma destroy_space_ok:
  assumes ok: "vm_ok L P" and c: "c \<in> L" "c \<noteq> cr3 P" and run: "paging_destroy_addr_space c P = Some P'"
  shows "vm_ok (L - {c}) P'" "confined L P P'" "ram P' = ram P"
proof -
  show "vm_ok (L - {c}) P'" using vm_step_ok [OF vm_step.Destroy [OF c run]] ok by simp
  obtain Q where "paging_destroy_addr_space c P = Some Q" "Q = P\<lparr>mm := mm Q\<rparr>"
    by (rule destroy_refines [OF ok c]) (rule that)
  with run have m: "P' = P\<lparr>mm := mm P'\<rparr>" by simp
  then show r: "ram P' = ram P" by (metis pg_state.select_convs(1) pg_state.surjective pg_state.update_convs(6))
  show "confined L P P'" using r by (rule confined_tables)
    (use m in \<open>metis pg_state.select_convs(2,3) pg_state.surjective pg_state.update_convs(6)\<close>)+
qed

lemma switch_space_ok: "vm_ok L P \<Longrightarrow> c \<in> insert KERNEL_PD L \<Longrightarrow> vm_ok L (paging_switch c P)"
  using vm_step_ok [OF vm_step.Switch [of c L P]] by simp

subsection \<open>Filling user memory from the kernel\<close>

text \<open>\<open>n\<close> stores to consecutive addresses from \<open>d\<close> on: what \<open>vmemcpy\<close> and \<open>vmemset\<close> have in common.\<close>

inductive fills :: "u32 \<Rightarrow> nat \<Rightarrow> pg_state \<Rightarrow> pg_state \<Rightarrow> bool" where
  Done: "fills d 0 P P"
| Next: "kst8 d b P = Some Q \<Longrightarrow> fills (d + 1) n Q R \<Longrightarrow> fills d (Suc n) P R"

lemma copy_fills: "vmemcpy d src n P = Some P' \<Longrightarrow> fills d n P P'" "vmemset d c n P = Some P' \<Longrightarrow> fills d n P P'"
  by (induction n arbitrary: d src P) (auto split: bind_splits intro: fills.intros)

lemma fno_next: "fno d < 1024 \<Longrightarrow> unat (d + 1) = unat d + 1"
  by (subst unat_add_no_wrap) (simp_all add: fno_def)

lemma store_user:
  assumes ok: "vm_ok L P" and c: "cr3 P \<in> L" and u: "user_page (fno d)" and st: "kst8 d b P = Some P'"
  shows "vm_ok L P'" "wp_set P \<Longrightarrow> confined L P P'" "pmap (ram P') (cr3 P') = pmap (ram P) (cr3 P)" "pmap (ram P) (cr3 P) (fno d) \<noteq> None"
proof -
  obtain p where p: "x86_walk (ram P) (wp_set P) (cr3 P) False True d = Some p" "P' = P\<lparr>ram := (ram P)(p := b)\<rparr>"
    using st by (auto simp: kst8_def ktrans_def)
  obtain w where w: "pmap (ram P) (cr3 P) (fno d) = Some (fno p, w)"
    by (rule window_walk [OF vm_space(1) [OF ok c] u p(1)])
  then have f: "fno p \<in> user_frames (ram P) (cr3 P)"
    unfolding frames_of_pmap [symmetric] by (rule frames_ofI)
  note r = data_store_refines [OF ok c f, where b = b]
  show "vm_ok L P'" using r(1,2) ok by (simp add: vm_ok_def p(2))
  show "confined L P P'" if "wp_set P"
  proof -
    have "w" using p(1) w walk_uent [OF vm_space(1) [OF ok c] user_page_less [OF u], of "wp_set P" False] that
      by (auto simp: pmap_def pte_allows_def split: if_splits)
    then show ?thesis
      using f w vm_space(7) [OF ok c] held_apart(4) [OF ok _ c] by (intro pool_confined [of "{fno p}"]) (auto simp: p(2))
  qed
  have "pages (vm_abs L P') (cr3 P) = pages (vm_abs L P) (cr3 P)" unfolding p(2) r(1) ..
  then show "pmap (ram P') (cr3 P') = pmap (ram P) (cr3 P)" using c by (simp add: p(2))
  show "pmap (ram P) (cr3 P) (fno d) \<noteq> None" using w by simp
qed

lemma store_upper:
  assumes ok: "vm_ok L P" and c: "cr3 P \<in> L" and d: "512 \<le> fno d" and st: "kst8 d b P = Some P'"
  shows "fno d < 1024" "vm_ok L P'" "cr3 P' = cr3 P"
proof -
  show lt: "fno d < 1024"
    using walk_high [OF vm_space(2) [OF ok c], of d] st by (fastforce simp: kst8_def ktrans_def)
  show "cr3 P' = cr3 P" using st by (auto simp: kst8_def)
  show "vm_ok L P'"
  proof (cases "user_page (fno d)")
    case True
    then show ?thesis by (rule store_user(1) [OF ok c _ st])
  next
    case False
    then have k: "kaddr d" "768 \<le> fno d" using lt d by (auto simp: kaddr_def user_page_def)
    then have "P' = P\<lparr>ram := (ram P)(d := b)\<rparr>"
      using st kernel_access(2) [of P d b] kernel_okD(2) [OF vm_kernel(1) [OF ok]] by simp
    moreover have "kernel_write (ram P) ((ram P)(d := b))"
      using k(2) by (auto simp: kernel_write_def touches_def pool_frames_def pg_consts fno_def)
    ultimately show ?thesis using vm_step_ok [OF vm_step.Kernel] ok by fastforce
  qed
qed

lemma fills_upper: "fills d n P P' \<Longrightarrow> vm_ok L P \<Longrightarrow> cr3 P \<in> L \<Longrightarrow> 512 \<le> fno d \<Longrightarrow>
   vm_ok L P' \<and> cr3 P' = cr3 P \<and> (n = 0 \<or> unat d + n \<le> 0x400000)"
proof (induction rule: fills.induct)
  case (Next d b P Q n R)
  note s = store_upper [OF Next.prems Next.hyps(1)]
  have "512 \<le> fno (d + 1)" using Next.prems(3) fno_next [OF s(1)] by (simp add: fno_def)
  then have IH: "vm_ok L R \<and> cr3 R = cr3 Q \<and> (n = 0 \<or> unat (d + 1) + n \<le> 0x400000)"
    using Next.IH s Next.prems by simp
  moreover have "unat d + 1 \<le> 0x400000" using s(1) by (simp add: fno_def)
  ultimately show ?case using s fno_next [OF s(1)] by auto
qed simp

text \<open>Below the page above a program's stack, which is never mapped while a program is loaded.\<close>

lemma fills_user: "fills d n P P' \<Longrightarrow> vm_ok L P \<Longrightarrow> cr3 P \<in> L \<Longrightarrow> 512 \<le> fno d \<Longrightarrow> fno d \<le> 752 \<Longrightarrow>
   pmap (ram P) (cr3 P) 752 = None \<Longrightarrow> wp_set P \<Longrightarrow> vm_ok L P' \<and> confined L P P' \<and> pmap (ram P') (cr3 P') = pmap (ram P) (cr3 P)"
proof (induction rule: fills.induct)
  case (Next d b P Q n R)
  have u: "user_page (fno d)" using Next.prems by (simp add: user_page_def)
  note s = store_user(1,3,4) [OF Next.prems(1,2) u Next.hyps(1)] store_user(2) [OF Next.prems(1,2) u Next.hyps(1) Next.prems(6)]
  have "fno d \<noteq> 752" using s(3) Next.prems(5) by auto
  then have lt: "fno d < 752" using Next.prems(4) by simp
  then have "unat (d + 1) = unat d + 1" by (intro fno_next) simp
  then have "512 \<le> fno (d + 1)" "fno (d + 1) \<le> 752" using lt Next.prems(3) by (auto simp: fno_def)
  moreover have "cr3 Q = cr3 P" "wp_set Q" using s(4) Next.prems(6) by (simp_all add: confined_def wp_set_def)
  ultimately have "vm_ok L R \<and> confined L Q R \<and> pmap (ram R) (cr3 R) = pmap (ram Q) (cr3 Q)"
    using Next.IH s Next.prems by simp
  then show ?case using s confined_trans by auto
qed (simp add: confined_tables)

subsection \<open>Loading a program\<close>

text \<open>
  Whatever the image says, the loader ends in a fault or keeps the invariant: a segment that wraps
  around the end of memory runs into the unmapped part of the address space, and one with more
  bytes in the file than in memory into the unmapped pages behind it.
\<close>

lemma region_below_stack:
  assumes ok: "vm_ok L P" and c: "cr3 P \<in> L" and v: "512 \<le> fno v" "n \<noteq> 0" "unat v + unat n \<le> 752 * 4096"
    and run: "paging_map_user_region (cr3 P) v n P = Some (r, P')" and "752 \<le> i"
  shows "pmap (ram P') (cr3 P) i = pmap (ram P) (cr3 P) i"
proof (cases "user_page i")
  case True
  have "unat v + unat n \<le> 768 * 4096" using v(3) by simp
  then obtain q Q where Q: "paging_map_user_region (cr3 P) v n P = Some (q, Q)" "extends P Q (region_pages v n)"
    by (rule map_user_region_spec [OF vm_proc [OF ok c] v(1,2)])
  have "0 < unat n" using v(2) by (simp add: unat_gt_0)
  then have "(unat v + unat n - 1) div 4096 < 752" using v(3) by (simp add: less_mult_imp_div_less)
  then have "i \<notin> region_pages v n" using \<open>752 \<le> i\<close> by (auto simp: region_pages_def)
  then have "uent (ram Q) (cr3 P) i = uent (ram P) (cr3 P) i"
    using Q(2) user_page_less [OF True] by (auto simp: extends_def)
  then show ?thesis using run Q(1) by (simp add: pmap_def)
qed (simp add: pmap_def)

definition loading :: "u32 set \<Rightarrow> pg_state \<Rightarrow> bool" where
  "loading L P \<longleftrightarrow> vm_ok L P \<and> cr3 P \<in> L \<and> (\<forall>i\<ge>752. pmap (ram P) (cr3 P) i = None) \<and> wp_set P"

lemma fill_segment:
  assumes P: "loading L P" and va: "0x200000 \<le> unat va" and mem: "unat va + unat memsz \<le> 752 * 4096"
    and copy: "vmemcpy va src (unat filesz) P = Some Q"
    and zero: "(if filesz < memsz then vmemset (va + filesz) 0 (unat (memsz - filesz)) Q else Some Q) = Some R"
  shows "loading L R" "confined L P R"
proof -
  have v: "512 \<le> fno va" "fno va \<le> 752" using va mem by (simp_all add: fno_def)
  have Q: "vm_ok L Q" "confined L P Q" "pmap (ram Q) (cr3 Q) = pmap (ram P) (cr3 P)"
    using fills_user [OF copy_fills(1) [OF copy], of L] v P by (simp_all add: loading_def)
  have c: "cr3 Q = cr3 P" "wp_set Q" using Q(2) P by (simp_all add: confined_def loading_def wp_set_def)
  have "loading L R \<and> confined L P R"
  proof (cases "filesz < memsz")
    case True
    then have lt: "unat filesz < unat memsz" by (simp add: word_less_nat_alt)
    then have "unat (va + filesz) = unat va + unat filesz"
      using mem by (intro unat_add_no_wrap) simp
    then have "512 \<le> fno (va + filesz)" "fno (va + filesz) \<le> 752" using va mem lt by (simp_all add: fno_def)
    then have "vm_ok L R \<and> confined L Q R \<and> pmap (ram R) (cr3 R) = pmap (ram Q) (cr3 Q)"
      using fills_user [OF copy_fills(2), of _ _ _ Q R L] zero True P Q c by (simp add: loading_def)
    moreover from this c(2) have "wp_set R" by (simp add: confined_def wp_set_def)
    ultimately show ?thesis using Q c confined_trans [OF Q(2)] P by (auto simp: loading_def) (simp_all add: confined_def)
  next
    case False
    then show ?thesis using zero Q P c by (simp add: loading_def)
  qed
  then show "loading L R" "confined L P R" by blast+
qed

lemma no_wrapping_segment:
  assumes ok: "vm_ok L P" "cr3 P \<in> L" and va: "0x200000 \<le> unat va" and wrap: "2 ^ 32 \<le> unat va + unat memsz"
    and copy: "vmemcpy va src (unat filesz) P = Some Q"
    and zero: "(if filesz < memsz then vmemset (va + filesz) 0 (unat (memsz - filesz)) Q else Some Q) = Some R"
  shows False
proof -
  have v: "512 \<le> fno va" using va by (simp add: fno_def)
  have Q: "vm_ok L Q" "cr3 Q = cr3 P" "unat filesz = 0 \<or> unat va + unat filesz \<le> 0x400000"
    using fills_upper [OF copy_fills(1) [OF copy] ok v] by blast+
  show False
  proof (cases "filesz < memsz")
    case True
    then have lt: "unat filesz < unat memsz" by (simp add: word_less_nat_alt)
    have b: "unat va < 2 ^ 32" using unsigned_less [of va, where 'a = nat] by simp
    then have u: "unat (va + filesz) = unat va + unat filesz"
      using Q(3) by (intro unat_add_no_wrap) auto
    then have "512 \<le> fno (va + filesz)" using va by (simp add: fno_def)
    moreover have "vmemset (va + filesz) 0 (unat (memsz - filesz)) Q = Some R" using zero True by simp
    ultimately have "unat (memsz - filesz) = 0 \<or> unat (va + filesz) + unat (memsz - filesz) \<le> 0x400000"
      using fills_upper [OF copy_fills(2) Q(1)] Q(2) ok(2) by metis
    moreover have "unat (memsz - filesz) = unat memsz - unat filesz"
      using True by (intro unat_sub) simp
    ultimately show False using u lt wrap by auto
  next
    case False
    then have "unat memsz \<le> unat filesz" by (simp add: word_less_nat_alt not_less word_le_nat_alt)
    moreover have "unat va < 2 ^ 32" using unsigned_less [of va, where 'a = nat] by simp
    ultimately show False using Q(3) wrap by auto
  qed
qed

lemma load_segments_keeps:
  "load_segments (cr3 P) img sz phs P = Some (r, P') \<Longrightarrow> loading L P \<Longrightarrow> vm_ok L P' \<and> confined L P P'"
proof (induction phs arbitrary: P)
  case Nil
  then show ?case by (auto simp: loading_def confined_tables)
next
  case (Cons ph phs)
  obtain ty where ty: "p_type ph P = Some ty" using Cons.prems(1) by (auto split: bind_splits)
  show ?case
  proof (cases "ty \<noteq> PT_LOAD")
    case True
    then show ?thesis using Cons ty by simp
  next
    case False
    obtain va memsz off filesz where h: "p_vaddr ph P = Some va" "p_memsz ph P = Some memsz" "p_offset ph P = Some off"
      "p_filesz ph P = Some filesz"
      using Cons.prems(1) ty False by (auto split: bind_splits if_splits)
    have P: "vm_ok L P" "cr3 P \<in> L" using Cons.prems(2) by (simp_all add: loading_def)
    show ?thesis
    proof (cases "va < USER_TEXT_BASE \<or> USER_STACK_TOP < va + memsz \<or> sz < off + filesz")
      case True
      then show ?thesis using Cons.prems(1) ty False h P by (auto simp: confined_tables split: if_splits)
    next
      case in_range: False
      then have va: "0x200000 \<le> unat va" by (simp add: USER_TEXT_BASE_def not_less word_le_nat_alt)
      obtain q Q where q: "paging_map_user_region (cr3 P) va memsz P = Some (q, Q)"
        using Cons.prems(1) ty False h in_range by (auto split: bind_splits)
      note m = map_space [OF P q]
      have c: "cr3 Q = cr3 P" "wp_set Q" using m(2) Cons.prems(2) by (simp_all add: confined_def loading_def wp_set_def)
      show ?thesis
      proof (cases q)
        case False
        then show ?thesis using Cons.prems(1) ty \<open>\<not> ty \<noteq> PT_LOAD\<close> h in_range q m by simp
      next
        case True
        obtain R S where w: "vmemcpy va (img + off) (unat filesz) Q = Some R"
          "(if filesz < memsz then vmemset (va + filesz) 0 (unat (memsz - filesz)) R else Some R) = Some S"
          "load_segments (cr3 P) img sz phs S = Some (r, P')"
          using Cons.prems(1) ty False h in_range q True by (auto split: bind_splits)
        have nw: "unat va + unat memsz < 2 ^ 32"
          using no_wrapping_segment [OF m(1) _ va _ w(1,2)] P(2) c by force
        then have "unat (va + memsz) = unat va + unat memsz" by (intro unat_add_no_wrap) simp
        then have top: "unat va + unat memsz \<le> 752 * 4096"
          using in_range by (simp add: USER_STACK_TOP_def not_less word_le_nat_alt)
        have "pmap (ram Q) (cr3 P) i = pmap (ram P) (cr3 P) i" if "752 \<le> i" for i
        proof (cases "memsz = 0")
          case True
          then show ?thesis using q by (simp add: paging_map_user_region_def)
        next
          case False
          then show ?thesis using region_below_stack [OF P _ False top q that] va by (simp add: fno_def)
        qed
        then have "loading L Q" using Cons.prems(2) m(1) c by (simp add: loading_def)
        from fill_segment [OF this va top w(1,2)] have S: "loading L S" "confined L Q S" .
        moreover from S(2) have "cr3 S = cr3 P" using c by (simp add: confined_def)
        ultimately show ?thesis using Cons.IH [of S] w(3) m(2) confined_trans by metis
      qed
    qed
  qed
qed

lemma load_elf_keeps:
  assumes "user_load_elf (cr3 P) img sz P = Some (e, P')" "loading L P"
  shows "vm_ok L P'" "confined L P P'"
proof -
  have P: "vm_ok L P \<and> confined L P P" using assms(2) by (simp add: loading_def confined_tables)
  have "vm_ok L P' \<and> confined L P P'"
    using assms(1) P by (auto simp: user_load_elf_def Let_def split: bind_splits if_splits dest!: load_segments_keeps [OF _ assms(2)])
  then show "vm_ok L P'" "confined L P P'" by blast+
qed

subsection \<open>The invariant\<close>

definition procs_ok :: "sched \<Rightarrow> bool" where
  "procs_ok s \<longleftrightarrow> sched_inv s \<and> apart (owner s) \<and> vm_ok (ran (owner s)) (pg s) \<and> heap_valid (sheap s) \<and>
     zombie_cr3 s = 0 \<and> wp_set (pg s) \<and> cr3 (pg s) = space_of s"

lemma procs_okD:
  assumes "procs_ok s"
  shows "sched_inv s" "apart (owner s)" "vm_ok (ran (owner s)) (pg s)" "heap_valid (sheap s)" "zombie_cr3 s = 0"
    "wp_set (pg s)" "cr3 (pg s) = space_of s"
  using assms by (simp_all add: procs_ok_def)

lemma space_of_live: "space_of s \<in> insert KERNEL_PD (ran (owner s))"
  by (auto simp: space_of_def ran_def split: option.splits)

text \<open>Changes of memory only: by the paging operations, and in the heap.\<close>

lemma wp_cr0: "cr0 P' = cr0 P \<Longrightarrow> wp_set P' = wp_set P"
  by (simp add: wp_set_def)

lemma heap_valid_pg: "confined L (pg s) P \<Longrightarrow> heap_valid (sheap (s\<lparr>pg := P\<rparr>)) = heap_valid (sheap s)"
  by (simp add: heap_valid_def confined_heap)

lemma keeps_pg: "confined L (pg s) P \<Longrightarrow> keeps s (s\<lparr>pg := P\<rparr>)"
  unfolding keeps_def heap_owns_def by (simp only: confined_heap) simp

lemma sched_inv_pg [simp]: "sched_inv (s\<lparr>pg := P\<rparr>) = sched_inv s"
  by (rule sched_inv_cong) simp_all

lemma procs_ok_pg:
  assumes "procs_ok s" "confined L (pg s) P" "vm_ok (ran (owner s)) P"
  shows "procs_ok (s\<lparr>pg := P\<rparr>)"
  using assms wp_cr0 [of P "pg s"] heap_valid_pg [OF assms(2)] by (simp add: procs_ok_def space_of_def) (simp add: confined_def)

lemma procs_ok_arena:
  assumes "procs_ok s" "arena_write s s'" "owner s' = owner s" "sched_inv s'" "heap_valid (sheap s')"
  shows "procs_ok s'"
  using assms arena_write_vm [OF assms(2)] by (simp add: procs_ok_def space_of_def arena_write_keeps [OF assms(2)])

subsection \<open>Starting a program\<close>

text \<open>No process but the running one sees its memory change.\<close>

definition others :: "sched \<Rightarrow> sched \<Rightarrow> bool" where
  "others s s' \<longleftrightarrow> (\<forall>e\<in>ran (owner s). e \<noteq> cr3 (pg s) \<longrightarrow> spares e (ram (pg s)) (ram (pg s')))"

lemma arena_spares: "arena_write s t \<Longrightarrow> vm_ok L (pg s) \<Longrightarrow> d \<in> L \<Longrightarrow> spares d (ram (pg s)) (ram (pg t))"
  using held_apart(1) [of L "pg s" d]
  by (intro touches_spares [of arena]) (auto simp: arena_write_def arena_def pool_frames_def)

lemma others_arena: "procs_ok s \<Longrightarrow> arena_write s t \<Longrightarrow> others s t"
  unfolding others_def using arena_spares procs_okD(3) by blast

lemma others_pg: "confined (ran (owner s)) (pg s) (pg s') \<Longrightarrow> others s s'"
  by (simp add: others_def confined_def)

text \<open>While a process is made its directory \<open>c\<close> exists but no task owns it yet; \<open>d\<close> is in force.\<close>

definition holding :: "u32 \<Rightarrow> u32 \<Rightarrow> sched \<Rightarrow> sched \<Rightarrow> bool" where
  "holding d c s t \<longleftrightarrow> sched_inv t \<and> owner t = owner s \<and> current t = current s \<and> zombie_cr3 t = 0 \<and>
     vm_ok (insert c (ran (owner s))) (pg t) \<and> cr3 (pg t) = d \<and> heap_valid (sheap t) \<and> wp_set (pg t) \<and> others s t"

lemma switch_space_simps [simp]:
  "sched_inv (switch_space c s) = sched_inv s" "sheap (switch_space c s) = sheap s" "current (switch_space c s) = current s"
  "zombie_cr3 (switch_space c s) = zombie_cr3 s" "pg (switch_space c s) = paging_switch c (pg s)"
  "wp_set (paging_switch c P) = wp_set P" "cr3 (paging_switch c P) = c" "ram (paging_switch c P) = ram P"
  by (simp_all add: switch_space_def sheap_def paging_switch_def wp_set_def)

text \<open>Giving up: the new directory is destroyed, from the old one.\<close>

lemma discard:
  assumes s: "procs_ok s" and c: "c \<notin> ran (owner s)" and t: "holding (cr3 (pg s)) c s t"
    and run: "destroy_space c t = Some s'"
  shows "procs_ok s'" "owner s' = owner s" "keeps t s'" "others s s'"
proof -
  note p = procs_okD [OF s]
  obtain Q where Q: "paging_destroy_addr_space c (pg t) = Some Q" "s' = t\<lparr>pg := Q\<rparr>"
    using run by (auto simp: destroy_space_def)
  have ok: "vm_ok (insert c (ran (owner s))) (pg t)" using t by (simp add: holding_def)
  have "KERNEL_PD \<notin> insert c (ran (owner s))" by (rule vm_kernel(2) [OF ok])
  then have ne: "c \<noteq> cr3 (pg t)" using c space_of_live [of s] p(7) t by (auto simp: holding_def)
  have v: "vm_ok (ran (owner s)) Q" "confined (insert c (ran (owner s))) (pg t) Q" "ram Q = ram (pg t)"
    using destroy_space_ok [OF ok _ ne Q(1)] c by simp_all
  have w: "wp_set Q" "cr3 Q = cr3 (pg s)"
    using v(2) wp_cr0 [of Q "pg t"] t by (simp_all add: confined_def holding_def)
  show "keeps t s'" unfolding Q(2) by (rule keeps_pg [OF v(2)])
  show "others s s'" using t v(3) by (simp add: holding_def others_def Q(2))
  show o: "owner s' = owner s" using t by (simp add: Q(2) holding_def)
  have "heap_valid (sheap s')" using t heap_valid_pg [OF v(2)] by (simp add: Q(2) holding_def)
  moreover have "sched_inv s'" "zombie_cr3 s' = 0" "space_of s' = space_of s"
    using t o by (simp_all add: Q(2) holding_def space_of_def)
  moreover have "pg s' = Q" by (simp add: Q(2))
  ultimately show "procs_ok s'" using o v(1) w p(2,7) by (simp add: procs_ok_def)
qed

lemma holding_switch:
  assumes "holding d c s t" "e \<in> insert KERNEL_PD (insert c (ran (owner s)))"
  shows "holding e c s (switch_space e t)"
  using assms switch_space_ok [of "insert c (ran (owner s))" "pg t" e] by (simp add: holding_def others_def)

lemma abandon:
  assumes s: "procs_ok s" and c: "c \<notin> ran (owner s)" and t: "holding c c s t"
    and run: "destroy_space c (switch_space (cr3 (pg s)) t) = Some s'"
  shows "procs_ok s'" "owner s' = owner s" "keeps t s'" "others s s'"
proof -
  have "holding (cr3 (pg s)) c s (switch_space (cr3 (pg s)) t)"
    using t space_of_live [of s] procs_okD(7) [OF s] by (intro holding_switch) auto
  from discard [OF s c this run] show "procs_ok s'" "owner s' = owner s" "keeps t s'" "others s s'"
    by (simp_all add: keeps_def)
qed

lemma in_pg_Some: "in_pg f s = Some (r, s') \<Longrightarrow> \<exists>P. f (pg s) = Some (r, P) \<and> s' = s\<lparr>pg := P\<rparr>"
  by (auto simp: in_pg_def)

lemma holding_pg:
  assumes "holding d c s t" "confined (insert c (ran (owner s))) (pg t) P" "vm_ok (insert c (ran (owner s))) P"
    and "d \<in> ran (owner s) \<Longrightarrow> d = cr3 (pg s)"
  shows "holding d c s (t\<lparr>pg := P\<rparr>)"
proof -
  have "others s (t\<lparr>pg := P\<rparr>)"
    unfolding others_def
  proof (intro ballI impI)
    fix e assume e: "e \<in> ran (owner s)" "e \<noteq> cr3 (pg s)"
    then have "spares e (ram (pg s)) (ram (pg t))" using assms(1) by (simp add: holding_def others_def)
    moreover have "e \<noteq> cr3 (pg t)" using assms(1,4) e by (auto simp: holding_def)
    then have "spares e (ram (pg t)) (ram P)" using assms(2) e(1) by (simp add: confined_def)
    ultimately show "spares e (ram (pg s)) (ram (pg (t\<lparr>pg := P\<rparr>)))" by (simp add: spares_trans)
  qed
  then show ?thesis
    using assms(1-3) wp_cr0 [of P "pg t"] heap_valid_pg [OF assms(2)] by (simp add: holding_def) (simp add: confined_def)
qed

lemma spawn_ok:
  assumes s: "procs_ok s" and pid: "next_pid s < minus1" and low: "low_enough 2 (pg s)"
    and run: "user_spawn name img sz s = Some (p, s')"
  shows "procs_ok s' \<and> (if p = 0 then owner s' = owner s else \<exists>c. c \<notin> ran (owner s) \<and> places c s s') \<and> keeps s s' \<and> others s s'"
proof -
  let ?R = "ran (owner s)" and ?old = "cr3 (pg s)"
  note p = procs_okD [OF s]
  obtain c P1 where c: "paging_create_addr_space (pg s) = Some (c, P1)"
    using run by (auto simp: user_spawn_def in_pg_def split: bind_splits)
  note cs = create_space [OF p(3) low c]
  let ?s1 = "s\<lparr>pg := P1\<rparr>"
  show ?thesis
  proof (cases "c = 0")
    case True
    then have "s' = ?s1" "p = 0" using run c by (simp_all add: user_spawn_def in_pg_def)
    then show ?thesis using procs_ok_pg [OF s cs(2)] keeps_pg [OF cs(2)] others_pg [of s s'] cs(1,2) True by simp
  next
    case False
    have nc: "c \<notin> ?R" and ok1: "vm_ok (insert c ?R) P1" using cs(1,3) False by simp_all
    have c1: "cr3 P1 = ?old" "cr0 P1 = cr0 (pg s)" using cs(2) by (simp_all add: confined_def)
    let ?s2 = "switch_space c ?s1"
    have "vm_ok (insert c ?R) (paging_switch c P1)" by (rule switch_space_ok [OF ok1]) simp
    then have sp2: "holding c c s ?s2"
      using p heap_valid_pg [OF cs(2)] wp_cr0 [OF c1(2)] others_pg [of s ?s1] cs(2) by (simp add: holding_def others_def)
    have "loading (insert c ?R) (pg ?s2)"
      using sp2 cs(4) False by (simp add: loading_def holding_def paging_switch_def)
    moreover obtain e P3 where e: "user_load_elf c img sz (pg ?s2) = Some (e, P3)"
      using run c False by (auto simp: user_spawn_def in_pg_def Let_def split: bind_splits)
    ultimately have k3: "vm_ok (insert c ?R) P3" "confined (insert c ?R) (pg ?s2) P3"
      using load_elf_keeps [of "pg ?s2"] by simp_all
    let ?s3 = "?s2\<lparr>pg := P3\<rparr>"
    have sp3: "holding c c s ?s3" by (rule holding_pg [OF sp2 k3(2,1)]) (use nc in simp)
    have "keeps ?s1 ?s2" by (rule keeps_heap) simp
    then have kp3: "keeps s ?s3" using keeps_trans [OF keeps_pg [OF cs(2)]] keeps_trans keeps_pg [OF k3(2)] by blast
    have o1: "paging_get_cr3 (pg ?s1) = ?old" using c1 by (simp add: paging_get_cr3_def)
    have start: "user_spawn name img sz s = (if e = 0 then do { t \<leftarrow> destroy_space c (switch_space ?old ?s3); Some (0, t) }
      else do {
        (r, t) \<leftarrow> in_pg (paging_map_user_region c (USER_STACK_TOP - 0x2000) 0x2000) ?s3;
        if \<not> r then do { t \<leftarrow> destroy_space c (switch_space ?old t); Some (0, t) }
        else do {
          (q, t) \<leftarrow> task_create_user name e c t;
          let t = switch_space ?old t;
          t \<leftarrow> (if q = 0 then destroy_space c t else Some t);
          Some (q, t) } })"
      using c False e o1
      by (simp add: user_spawn_def in_pg_def Let_def cong del: prod.case_cong_weak if_weak_cong option.case_cong_weak)
    show ?thesis
    proof (cases "e = 0")
      case True
      then show ?thesis using run abandon [OF s nc sp3] keeps_trans [OF kp3] unfolding start by (auto split: bind_splits)
    next
      case e0: False
      obtain r P4 where r: "paging_map_user_region c (USER_STACK_TOP - 0x2000) 0x2000 P3 = Some (r, P4)"
        using run e0 unfolding start by (auto simp: in_pg_def split: bind_splits)
      have "cr3 P3 = c" "c \<in> insert c ?R" using sp3 by (simp_all add: holding_def)
      then have k4: "vm_ok (insert c ?R) P4" "confined (insert c ?R) (pg ?s3) P4"
        using map_space [OF k3(1), of "USER_STACK_TOP - 0x2000" "0x2000" r P4] r by simp_all
      let ?s4 = "?s3\<lparr>pg := P4\<rparr>"
      have sp4: "holding c c s ?s4" by (rule holding_pg [OF sp3 k4(2,1)]) (use nc in simp)
      have kp4: "keeps s ?s4" by (rule keeps_trans [OF kp3 keeps_pg [OF k4(2)]])
      show ?thesis
      proof (cases r)
        case False
        then show ?thesis using run e0 r abandon [OF s nc sp4] keeps_trans [OF kp4] unfolding start by (auto simp: in_pg_def split: bind_splits)
      next
        case True
        obtain q s5 where q: "task_create_user name e c ?s4 = Some (q, s5)"
          using run e0 r True unfolding start by (auto simp: in_pg_def split: bind_splits)
        have pid4: "next_pid ?s4 < minus1" using pid by (simp add: switch_space_def)
        have in4: "sched_inv ?s4" "heap_valid (sheap ?s4)" using sp4 by (simp_all add: holding_def)
        note tc = task_create_user_effect [OF in4(1) pid4 in4(2) q]
        have inv5: "sched_inv s5" by (rule task_create_user_inv [OF q in4(1) pid4])
        have ok5: "vm_ok (insert c ?R) (pg s5)" using arena_write_vm [OF tc(2)] k4(1) by simp
        note kp = arena_write_keeps [OF tc(2)]
        have os: "others s s5"
          using sp4 spares_trans [OF _ arena_spares [OF tc(2)]] unfolding holding_def others_def by blast
        have kp5: "keeps s s5" by (rule keeps_trans [OF kp4 tc(4)])
        show ?thesis
        proof (cases "q = 0")
          case True
          have o5: "owner s5 = owner ?s4" using tc(1) True by simp
          have "holding c c s s5"
            unfolding holding_def using sp4 [unfolded holding_def] o5 tc(3) inv5 ok5 kp(1,2,4,5) os by metis
          moreover have "destroy_space c (switch_space ?old s5) = Some s'" "p = 0"
            using run e0 r \<open>r\<close> q True unfolding start by (simp_all add: in_pg_def split: bind_splits)
          ultimately show ?thesis using abandon [OF s nc] keeps_trans [OF kp5] by simp
        next
          case False
          have s': "s' = switch_space ?old s5" "p = q"
            using run e0 r \<open>r\<close> q False unfolding start by (simp_all add: in_pg_def)
          have pl: "places c ?s4 s5" using tc(1) False by simp
          then have pl': "places c s s5" by (simp add: places_def switch_space_def)
          then obtain k where k: "owner s k = None" "k \<noteq> unat (current s)" "owner s5 = (owner s)(k \<mapsto> c)"
            by (auto simp: places_def)
          have ran: "ran (owner s5) = insert c ?R" using k(1,3) by auto
          have "space_of s' = space_of s" using k kp(4) by (simp add: s'(1) space_of_def switch_space_def)
          moreover have "apart (owner s')" using apart_upd [OF p(2) nc] k(3) by (simp add: s'(1))
          moreover have "vm_ok (ran (owner s')) (pg s')"
            using switch_space_ok [OF ok5, of ?old] space_of_live [of s] p(7) ran by (auto simp: s'(1))
          moreover have "wp_set (pg s')" "zombie_cr3 s' = 0" using sp4 kp by (simp_all add: s'(1) holding_def)
          ultimately have "procs_ok s'"
            using inv5 tc(3) p(7) by (simp add: procs_ok_def s'(1))
          moreover have "places c s s'" using pl' by (simp add: places_def s'(1))
          moreover have "keeps s s'" using kp5 by (simp add: s'(1) keeps_def)
          moreover have "others s s'" using os by (simp add: s'(1) others_def)
          ultimately show ?thesis using nc False s'(2) by auto
        qed
      qed
    qed
  qed
qed

subsection \<open>Forking\<close>

lemma holding_arena:
  assumes "holding d c s t" "arena_write t u" "owner u = owner s" "sched_inv u" "heap_valid (sheap u)"
  shows "holding d c s u"
proof -
  have "others s u"
    using assms(1) spares_trans [OF _ arena_spares [OF assms(2)]] by (auto simp: holding_def others_def)
  then show ?thesis
    using assms arena_write_vm [OF assms(2)] arena_write_keeps [OF assms(2)] by (simp add: holding_def)
qed

text \<open>The child's frame is copied into a block of its own before the child exists.\<close>

lemma frame_copied:
  assumes "heap_ok (sheap s) bs" "{a ..< a + 0x100} \<subseteq> used_at 0x300000 bs" "a + 0x100 \<le> 0x400000" "0x300000 \<le> a"
  shows "heap_ok (sheap (set_ram (\<lambda>m. memcpy m (of_nat a) fr (unat FRAME_BYTES)) s)) bs"
    "arena_write s (set_ram (\<lambda>m. memcpy m (of_nat a) fr (unat FRAME_BYTES)) s)"
proof -
  have "memcpy (ram (pg s)) (of_nat a) fr (unat FRAME_BYTES) (of_nat x) = ram (pg s) (of_nat x)"
    if "x < 4294967296" "x < a \<or> a + 0x100 \<le> x" for x
    using that assms(3) by (intro memcpy_outside) (simp add: FRAME_BYTES_def span_nat)
  then show "heap_ok (sheap (set_ram (\<lambda>m. memcpy m (of_nat a) fr (unat FRAME_BYTES)) s)) bs"
    "arena_write s (set_ram (\<lambda>m. memcpy m (of_nat a) fr (unat FRAME_BYTES)) s)"
    using payload_write [OF assms, of "\<lambda>m. memcpy m (of_nat a) fr (unat FRAME_BYTES)"] by blast+
qed

lemma eax_cleared:
  assumes "heap_ok (sheap s) bs" "{a ..< a + 0x100} \<subseteq> used_at 0x300000 bs" "a + 0x100 \<le> 0x400000" "0x300000 \<le> a" "a mod 4 = 0"
  shows "heap_ok (sheap (set_ram (\<lambda>m. store32 m (of_nat a + 44) 0) s)) bs"
    "arena_write s (set_ram (\<lambda>m. store32 m (of_nat a + 44) 0) s)"
proof -
  have e: "of_nat a + 44 = (of_nat (a + 44) :: u32)" by simp
  have "store32 (ram (pg s)) (of_nat a + 44) 0 (of_nat x) = ram (pg s) (of_nat x)"
    if "x < 4294967296" "x < a \<or> a + 0x100 \<le> x" for x
    unfolding e by (rule store_nat_outside) (use that assms(3,5) in \<open>auto simp: mod_add_eq [symmetric]\<close>)
  then show "heap_ok (sheap (set_ram (\<lambda>m. store32 m (of_nat a + 44) 0) s)) bs"
    "arena_write s (set_ram (\<lambda>m. store32 m (of_nat a + 44) 0) s)"
    using payload_write [OF assms(1-4), of "\<lambda>m. store32 m (of_nat a + 44) 0"] by blast+
qed

text \<open>The last part of a fork: the child's slot, on a frame copied to \<open>fc\<close>.\<close>

definition fork_slot :: "u32 \<Rightarrow> u8 list \<Rightarrow> u32 \<Rightarrow> u32 \<Rightarrow> sched \<Rightarrow> (u32 \<times> sched) option" where
  "fork_slot k name c fc s = do {
     let s = init_slot k TASK_USER s;
     (r, s) \<leftarrow> alloc_irq_stack k s;
     if \<not> r then do {
       let s = kill_slot k s;
       s \<leftarrow> s_kfree fc s;
       s \<leftarrow> destroy_space c s;
       Some (0, s) }
     else do {
       let s = upd_task k (task_cr3_update (\<lambda>_. c)) s;
       let s = name_slot k name s;
       let s = upd_task k (esp_update (\<lambda>_. fc)) s;
       let s = set_ram (\<lambda>m. store32 m (fc + 44) 0) s;
       Some (pid (task_at s k), s) } }"

lemma fork_slot_ok:
  assumes s: "procs_ok s" and c: "c \<notin> ran (owner s)" and t: "holding (cr3 (pg s)) c s t" and pid: "next_pid t < minus1"
    and k: "unat k < unat (task_count t)" "\<not> ready (task_at t k)"
    and h: "heap_ok (sheap t) bs" "blk_at i bs = Some (z, False)" "0x100 \<le> z" "0x300000 + i + 12 + z \<le> 0x400000"
      "(0x300000 + i) mod 4 = 0" "{0x300000 + i + 12 ..< 0x300000 + i + 12 + z} \<subseteq> used_at 0x300000 bs"
    and run: "fork_slot k name c (of_nat (0x300000 + i + 12)) t = Some (p, s')"
  shows "procs_ok s' \<and> (if p = 0 then owner s' = owner s else places c s s') \<and> others s s' \<and>
    (\<forall>q R. q \<noteq> of_nat (0x300000 + i + 12) \<longrightarrow> heap_owns (sheap t) q R \<longrightarrow> heap_owns (sheap s') q R)"
proof -
  let ?fc = "of_nat (0x300000 + i + 12) :: u32" and ?a = "0x300000 + i + 12"
  let ?t1 = "init_slot k TASK_USER t"
  have inv: "sched_inv t" using t by (simp add: holding_def)
  note f = sched_inv_facts [OF inv]
  note nw = init_slot_inv [OF inv k pid]
  have k16: "unat k < 16" by (rule nw(3))
  have kn: "owner s (unat k) = None" using owner_dead [OF k(2)] t by (simp add: holding_def)
  have o1: "owner ?t1 = (owner s)(unat k \<mapsto> 0)" using t f(1) k16 by (simp add: owner_slot holding_def)
  have kc: "unat k \<noteq> unat (current s)" using nw(2,4) t by (simp add: holding_def word_unat_eq_iff)
  have h1: "heap_ok (sheap ?t1) bs" using h(1) by simp
  obtain r t2 where al: "alloc_irq_stack k ?t1 = Some (r, t2)"
    using run by (auto simp: fork_slot_def Let_def split: bind_splits)
  note ir = irq_stack_effect [OF h1 al nw(8)]
  have inv2: "sched_inv t2" "current t2 = current t" using alloc_irq_stack_inv [OF al nw(1)] nw(4) by simp_all
  have w2: "arena_write t t2" by (rule arena_write_trans [OF arena_write_slot(1) ir(2)])
  have o2: "owner t2 = (owner s)(unat k \<mapsto> 0)" "length (tasks t2) = 16" using ir(1,3) o1 nw(9) by simp_all
  show ?thesis
  proof (cases r)
    case False
    have t2: "t2 = ?t1" using ir(5) False by simp
    obtain t3 where t3: "s_kfree ?fc (kill_slot k ?t1) = Some t3" "destroy_space c t3 = Some s'" "p = 0"
      using run al False t2 by (auto simp: fork_slot_def Let_def split: bind_splits simp del: of_nat_add)
    have "heap_ok (sheap (kill_slot k ?t1)) bs" using h1 by simp
    note fr = s_kfree_block [OF this h(2) t3(1)]
    have inv3: "sched_inv t3"
      using kill_slot_inv [OF nw(1,2)] sched_inv_same [OF fr(3)] by simp
    have o3: "owner t3 = owner s"
      using owner_same [OF fr(3)] o1 nw(9) k16 kn by (simp add: owner_slot fun_upd_idem)
    have "arena_write t t3"
      by (rule arena_write_trans [OF arena_write_slot(1) arena_write_trans [OF arena_write_slot(2) fr(2)]])
    then have "holding (cr3 (pg s)) c s t3" by (rule holding_arena [OF t _ o3 inv3 fr(1)])
    note d = discard [OF s c this t3(2)]
    have "heap_owns (sheap s') q R" if "q \<noteq> ?fc" "heap_owns (sheap t) q R" for q R
      using d(3) fr(4) [OF refl that(1)] that(2) by (simp add: keeps_def)
    with d(1,2,4) t3(3) show ?thesis by simp
  next
    case True
    let ?t3 = "upd_task k (esp_update (\<lambda>_. ?fc)) (name_slot k name (upd_task k (task_cr3_update (\<lambda>_. c)) t2))"
    let ?t4 = "set_ram (\<lambda>m. store32 m (?fc + 44) 0) ?t3"
    have s': "s' = ?t4" "p = pid (task_at ?t4 k)"
      using run al True by (auto simp: fork_slot_def Let_def simp del: of_nat_add)
    obtain cs where cs: "heap_ok (sheap t2) cs" "used_at 0x300000 bs \<subseteq> used_at 0x300000 cs" using ir(9) by blast
    have b: "{?a ..< ?a + 0x100} \<subseteq> used_at 0x300000 cs" using h(3,6) cs(2) by fastforce
    have h3: "heap_ok (sheap ?t3) cs" using cs(1) by simp
    have "?a mod 4 = 0" using h(5) by presburger
    then have w4: "heap_ok (sheap ?t4) cs" "arena_write ?t3 ?t4"
      using eax_cleared [OF h3 b] h(3,4) by simp_all
    have "arena_write t2 ?t3" by (rule arena_write_table) (simp_all add: name_slot_def)
    then have w: "arena_write t s'"
      unfolding s'(1) by (rule arena_write_trans [OF w2 arena_write_trans [OF _ w4(2)]])
    have o4: "owner s' = (owner s)(unat k \<mapsto> c)"
      using o2 k16 by (simp add: s'(1) owner_slot(3) [where d = 0] del: of_nat_add)
    have inv4: "sched_inv s'"
      unfolding s'(1) using inv2(1) by (auto intro!: upd_task_inv name_slot_inv)
    note kp = arena_write_keeps [OF w]
    have p: "p = next_pid t"
      using ir(7) nw(5) by (simp add: s'(2) name_slot_def task_field del: of_nat_add)
    then have "p \<noteq> 0" using inv by (auto simp: sched_inv_def)
    moreover have "places c s s'" using kn kc o4 by (auto simp: places_def)
    moreover have "procs_ok s'"
    proof -
      have "ran (owner s') = insert c (ran (owner s))" using o4 kn by auto
      moreover have "space_of s' = space_of s" using o4 kc kp(4) t by (simp add: space_of_def holding_def)
      moreover have "apart (owner s')" using apart_upd [OF procs_okD(2) [OF s] c] o4 by simp
      moreover have "heap_valid (sheap s')" using w4(1) s'(1) by (auto simp: heap_valid_def)
      moreover have "vm_ok (insert c (ran (owner s))) (pg s')" using arena_write_vm [OF w] t by (simp add: holding_def)
      ultimately show ?thesis
        using inv4 kp t procs_okD(7) [OF s] by (simp add: procs_ok_def holding_def)
    qed
    moreover have "keeps t s'"
    proof (rule keeps_trans)
      have "keeps t ?t1" by (rule keeps_heap) simp
      then show "keeps t t2" using ir(10) by (rule keeps_trans)
      show "keeps t2 s'" unfolding s'(1) by (rule keeps_blocks [OF cs(1) w4(1)])
    qed
    moreover have "others s s'"
      using t spares_trans [OF _ arena_spares [OF w]] by (auto simp: holding_def others_def)
    ultimately show ?thesis by (simp add: keeps_def)
  qed
qed

lemma fork_ok:
  assumes s: "procs_ok s" and pid: "next_pid s < minus1" and low: "low_enough 2 (pg s)"
    and user: "flags (task_at s (current s)) = TASK_USER"
    and run: "task_fork_user name fr (task_cr3 (task_at s (current s))) s = Some (p, s')"
  shows "procs_ok s' \<and> (if p = 0 then owner s' = owner s else \<exists>c. c \<notin> ran (owner s) \<and> places c s s') \<and> others s s' \<and> keeps s s'"
proof -
  note p = procs_okD [OF s]
  note f = sched_inv_facts [OF p(1)]
  let ?c = "task_cr3 (task_at s (current s))"
  have own: "owner s (unat (current s)) = Some ?c"
    using f(4,5) user by (simp add: owner_def task_at_def)
  then have c: "cr3 (pg s) = ?c" "cr3 (pg s) \<in> ran (owner s)"
    using p(7) by (auto simp: space_of_def intro: ranI)
  obtain k s1 where a: "alloc_slot s = (k, s1)" by (cases "alloc_slot s")
  show ?thesis
  proof (cases "MAX_TASKS \<le> k")
    case True
    then have "s' = s" "p = 0" using run a alloc_slot_full(1) [OF p(1) a] by (simp_all add: task_fork_user_def)
    with s show ?thesis by (simp add: others_def keeps_def)
  next
    case False
    note sl = alloc_slot_owner [OF p(1) a False] and sp = alloc_slot_spec [OF p(1) a False]
    have s1: "procs_ok s1" by (rule procs_ok_arena [OF s sl(3,1) sp(1)]) (use sl(4) p(4) in simp)
    have pg1: "pg s1 = pg s" by (rule sp(9))
    have ks: "keeps s x" if "keeps s1 x" for x using that sl(4) by (simp add: keeps_def)
    obtain d P where d: "paging_fork_addr_space (cr3 (pg s)) (pg s) = Some (d, P)"
      using run a False c(1) by (auto simp: task_fork_user_def in_pg_def pg1 split: bind_splits)
    note fs = fork_space [OF p(3) c(2) low d]
    let ?s2 = "s1\<lparr>pg := P\<rparr>"
    show ?thesis
    proof (cases "d = 0")
      case True
      then have "s' = ?s2" "p = 0" using run a False c(1) d by (simp_all add: task_fork_user_def in_pg_def pg1)
      then show ?thesis using procs_ok_pg [OF s1] others_pg [of s s'] fs(1,2) True sl(1) ks [OF keeps_pg, of _ P] by (simp add: pg1)
    next
      case d0: False
      have nd: "d \<notin> ran (owner s1)" using fs(3) d0 sl(1) by simp
      have old: "cr3 (pg s1) = ?c" using c(1) pg1 by simp
      have hold2: "holding (cr3 (pg s1)) d s1 ?s2"
        using procs_okD [OF s1] fs(1,2) d0 sl(1) heap_valid_pg [of _ s1 P] wp_cr0 [of P "pg s1"] others_pg [of s1 ?s2]
        by (simp add: holding_def pg1) (simp add: confined_def)
      then obtain bs where h2: "heap_ok (sheap ?s2) bs" by (auto simp: holding_def heap_valid_def)
      have k2: "keeps s1 ?s2" by (rule keeps_pg [of "ran (owner s)"]) (use fs(2) in \<open>simp add: pg1\<close>)
      obtain fc s3 where m: "s_kmalloc FRAME_BYTES ?s2 = Some (fc, s3)"
        using run a False c(1) d d0 by (auto simp: task_fork_user_def in_pg_def pg1 split: bind_splits)
      have "procs_ok s' \<and> (if p = 0 then owner s' = owner s1 else places d s1 s') \<and> others s1 s' \<and> keeps s1 s'"
      proof (rule s_kmalloc_block [OF h2 m], goal_cases)
        case 1
        then have "destroy_space d ?s2 = Some s'" "p = 0"
          using run a False c(1) d d0 m by (auto simp: task_fork_user_def in_pg_def pg1 split: bind_splits)
        then show ?case using discard [OF s1 nd hold2] keeps_trans [OF k2] by simp
      next
        case (2 i z bs')
        let ?s4 = "set_ram (\<lambda>m. memcpy m fc fr (unat FRAME_BYTES)) s3"
        have z: "0x100 \<le> z" using 2(5) by (simp add: round8_def FRAME_BYTES_def)
        have run4: "fork_slot k name d fc ?s4 = Some (p, s')"
          using run a False c(1) d d0 m 2(1)
          by (simp add: task_fork_user_def fork_slot_def in_pg_def pg1 cong del: prod.case_cong_weak if_weak_cong)
        have "{0x300000 + i + 12 ..< 0x300000 + i + 12 + 0x100} \<subseteq> used_at 0x300000 bs'" using 2(8) z by auto
        then have w4: "heap_ok (sheap ?s4) bs'" "arena_write s3 ?s4"
          unfolding 2(3) using frame_copied [OF 2(2), of "0x300000 + i + 12" fr] 2(6) z by simp_all
        have run5: "fork_slot k name d (of_nat (0x300000 + i + 12)) ?s4 = Some (p, s')"
          by (simp only: 2(3) [symmetric] run4)
        note st = same_table_simps [OF 2(11)]
        have inv3: "sched_inv s3" using sched_inv_same [OF 2(11)] sp(1) by simp
        have "owner ?s4 = owner s1" using owner_same [OF 2(11)] by simp
        then have hold4: "holding (cr3 (pg s1)) d s1 ?s4"
          using holding_arena [OF hold2 arena_write_trans [OF 2(10) w4(2)]] w4(1) inv3
          by (auto simp: heap_valid_def)
        have k4: "keeps s1 ?s4"
          by (rule keeps_trans [OF k2 keeps_trans [OF 2(12) keeps_blocks [OF 2(2) w4(1)]]])
        have "q \<noteq> fc" if "heap_owns (sheap s1) q R" for q R
          using 2(13) k2 that unfolding keeps_def by blast
        moreover note fork_slot_ok [OF s1 nd hold4 _ _ _ w4(1) 2(4) z 2(6,7,8) run5]
        then have "procs_ok s' \<and> (if p = 0 then owner s' = owner s1 else places d s1 s') \<and> others s1 s' \<and>
            (\<forall>q R. q \<noteq> fc \<longrightarrow> heap_owns (sheap ?s4) q R \<longrightarrow> heap_owns (sheap s') q R)"
          unfolding 2(3) using pid sp(2,4,6) st by (simp add: task_at_def)
        ultimately show ?case using k4 by (auto simp: keeps_def)
      qed
      then show ?thesis using nd sl(1) sp(8) ks by (auto simp: places_def others_def pg1)
    qed
  qed
qed

subsection \<open>Switching and exiting\<close>

lemma procs_ok_upd: "procs_ok s \<Longrightarrow> same_owner f \<Longrightarrow> tame f \<Longrightarrow> procs_ok (upd_task k f s)"
  by (rule procs_ok_arena [where s = s])
    (auto simp: procs_okD same_owner_def intro!: upd_task_inv)

lemma owner_ready:
  assumes "sched_inv s" "ready (task_at s n)" "unat n < 16"
  shows "owner s (unat n) = (if flags (task_at s n) = TASK_USER then Some (task_cr3 (task_at s n)) else None)"
  using assms by (simp add: owner_def task_at_def)

lemma switch_to_ok:
  assumes s: "procs_ok s" and n: "n < task_count s"
  shows "procs_ok (snd (switch_to fr n s))"
proof (cases "MAX_TASKS \<le> n \<or> MAX_TASKS \<le> current s \<or> \<not> ready (task_at s n)")
  case True
  then show ?thesis using s by (simp add: switch_to_def Let_def)
next
  case False
  note p = procs_okD [OF s]
  note f = sched_inv_facts [OF p(1)]
  let ?s' = "snd (switch_to fr n s)" and ?c = "if flags (task_at s n) = TASK_USER then task_cr3 (task_at s n) else KERNEL_PD"
  have n16: "unat n < 16" using n f(2) by (simp add: word_less_nat_alt)
  note on = owner_ready [OF p(1) _ n16] and oc = owner_ready [OF p(1) f(5,4)]
  have o: "owner ?s' = owner s" and cur: "current ?s' = n" and z: "zombie_cr3 ?s' = 0"
    using False p(5) by (simp_all add: switch_to_def Let_def)
  have h: "sheap ?s' = sheap s"
    using False by (auto simp: switch_to_def Let_def sheap_def switch_cr3_def paging_switch_def user_set_kernel_stack_def)
  have sp: "space_of ?s' = ?c" using on False by (simp add: space_of_def o cur)
  have "pg ?s' = (if flags (task_at s (current s)) = TASK_USER \<or> flags (task_at s n) = TASK_USER then paging_switch ?c (pg s) else pg s)"
    using False by (simp add: switch_to_def Let_def switch_cr3_def)
  moreover have "pg s = paging_switch ?c (pg s)" if "flags (task_at s (current s)) \<noteq> TASK_USER" "flags (task_at s n) \<noteq> TASK_USER"
    using that p(7) oc by (simp add: space_of_def paging_switch_def)
  ultimately have pg: "pg ?s' = paging_switch ?c (pg s)" by (auto split: if_splits)
  have "?c \<in> insert KERNEL_PD (ran (owner s))" using space_of_live [of ?s'] by (simp add: sp o)
  then have "vm_ok (ran (owner s)) (pg ?s')" unfolding pg by (rule switch_space_ok [OF p(3)])
  then show ?thesis
    using switch_to_inv [OF p(1) n, of fr] p(2,4,6) z sp by (simp add: procs_ok_def o h pg)
qed

lemma enter_irq_ok: "procs_ok s \<Longrightarrow> procs_ok (sched_enter_irq r s)"
proof -
  assume s: "procs_ok s"
  let ?t = "if \<not> sched_ready s \<and> task_count s > 0 \<and> esp (task_at s (current s)) = 0
    then upd_task (current s) (esp_update (\<lambda>_. r)) s else s"
  have "procs_ok ?t" using procs_ok_upd [OF s, of "esp_update (\<lambda>_. r)"] s by simp
  moreover have "procs_ok (t\<lparr>cur_frame := r, sched_ready := True\<rparr>)" if "procs_ok t" for t
  proof (rule procs_ok_arena [OF that])
    show "arena_write t (t\<lparr>cur_frame := r, sched_ready := True\<rparr>)" by (rule arena_write_table) simp_all
    show "owner (t\<lparr>cur_frame := r, sched_ready := True\<rparr>) = owner t" by (rule owner_cong) simp
    show "sched_inv (t\<lparr>cur_frame := r, sched_ready := True\<rparr>)"
      using procs_okD(1) [OF that] by (rule sched_inv_cong [THEN iffD2, rotated 4]) simp_all
    have "sheap (t\<lparr>cur_frame := r, sched_ready := True\<rparr>) = sheap t" by (simp add: sheap_def)
    then show "heap_valid (sheap (t\<lparr>cur_frame := r, sched_ready := True\<rparr>))" using procs_okD(4) [OF that] by simp
  qed
  ultimately show ?thesis by (simp add: sched_enter_irq_def Let_def)
qed

lemma yield_ok: "procs_ok s \<Longrightarrow> procs_ok (snd (sched_yield s))"
proof -
  assume s: "procs_ok s"
  note f = sched_inv_facts [OF procs_okD(1) [OF s]]
  have n: "(current s + 1) mod task_count s < task_count s"
    using f ring_slot(2) [of "task_count s" "current s" 1] by simp
  have "procs_ok (upd_task (current s) (esp_update (\<lambda>_. cur_frame s)) s)" by (rule procs_ok_upd [OF s]) simp_all
  then show ?thesis using s n by (simp add: sched_yield_def Let_def switch_to_ok)
qed

lemma tick_ok: "procs_ok s \<Longrightarrow> procs_ok (snd (sched_tick s))"
proof -
  assume s: "procs_ok s"
  have "procs_ok (upd_task (current s) (\<lambda>t. t\<lparr>slice_left := slice_left t - 1\<rparr>) s)"
    by (rule procs_ok_upd [OF s]) simp_all
  moreover have "procs_ok (snd (switch_to (cur_frame s) n (upd_task n (slice_left_update (\<lambda>_. 5))
      (upd_task (current s) (\<lambda>t. t\<lparr>esp := cur_frame s, slice_left := 5\<rparr>) s))))" if "next_ready s = Some n" for n
    using next_ready_range [OF that] s by (intro switch_to_ok procs_ok_upd) simp_all
  ultimately show ?thesis
    using s by (simp add: sched_tick_def Let_def split: option.split)
qed

lemma owner_park:
  assumes "sched_inv s"
  shows "owner (park_current s) = (owner s)(unat (current s) := None)"
proof
  fix k
  note f = sched_inv_facts [OF assms]
  have at: "tasks (park_current s) ! j = (if j = unat (current s) then (tasks s ! j)\<lparr>ready := False,
      task_cr3 := if flags (tasks s ! j) = TASK_USER then 0 else task_cr3 (tasks s ! j)\<rparr> else tasks s ! j)" if "j < 16" for j
    using park_current_task(1) [of s "of_nat j"] f(1,4) that
    by (simp add: task_at_def unat_of_nat32 word_unat_eq_iff)
  show "owner (park_current s) k = ((owner s)(unat (current s) := None)) k"
    by (cases "k < 16"; cases "k = unat (current s)") (simp_all add: owner_def at)
qed

lemma exit_ok:
  assumes s: "procs_ok s" and run: "sched_exit_current s = Some (Resume e, s')"
  shows "procs_ok s' \<and> owner s' = (owner s)(unat (current s) := None) \<and> ram (pg s') = ram (pg s)"
proof -
  note p = procs_okD [OF s]
  note f = sched_inv_facts [OF p(1)]
  let ?me = "current s" and ?t = "task_at s (current s)"
  have cl: "unat ?me < length (tasks s)" using f(1,4) by simp
  obtain n t where n: "next_other (park_current s) = Some n" "reap_zombies (enter_space n (park_current s)) = Some t"
    and s': "s' = t\<lparr>current := n\<rparr>"
    using run by (auto simp: sched_exit_current_def Let_def split: option.splits bind_splits)
  note nx = next_other_range [OF n(1)]
  have ne: "n \<noteq> ?me" using nx(1) by simp
  have lt: "n < task_count s" using nx(3) ring_slot(2) [of "task_count s" ?me] f by auto
  then have n16: "unat n < 16" using f(2) by (simp add: word_less_nat_alt)
  have rn: "ready (task_at s n)" using nx(2) ne park_current_task(1) [OF cl] by simp
  note on = owner_ready [OF p(1) rn n16] and oc = owner_ready [OF p(1) f(5,4)]
  let ?c = "if flags (task_at s n) = TASK_USER then task_cr3 (task_at s n) else KERNEL_PD"
  let ?u = "enter_space n (park_current s)"
  have nl: "unat n < length (tasks (park_current s))" using n16 park_current_task(2) [OF cl] f(1) by simp
  have P: "pg ?u = paging_switch ?c (pg s)"
    using enter_space_task(2) [OF nl] pg_switch_park [OF cl ne] by (simp add: switch_cr3_def)
  have ou: "owner ?u = (owner s)(unat ?me := None)"
    using owner_park [OF p(1)] by (simp add: enter_space_def Let_def)
  have "sheap ?u = \<lparr>hram = ram (pg ?u), heap_head = hhead ?u\<rparr>" "hhead ?u = hhead s"
    by (simp_all add: sheap_def enter_space_def park_current_def switch_cr3_def user_set_kernel_stack_def Let_def)
  then have hu: "sheap ?u = sheap s" by (simp add: P sheap_def paging_switch_def)
  have cl': "?c \<in> insert KERNEL_PD (ran (owner s))" using on by (auto intro: ranI)
  have ok: "vm_ok (ran (owner s)) (pg ?u)" unfolding P by (rule switch_space_ok [OF p(3) cl'])
  have z: "zombie_cr3 ?u = (if flags ?t = TASK_USER \<and> task_cr3 ?t \<noteq> 0 then task_cr3 ?t else 0)"
    using park_current_task(3) [OF cl] p(5) by simp
  have "vm_ok (ran ((owner s)(unat ?me := None))) (pg t) \<and> confined (ran (owner s)) (pg ?u) (pg t) \<and> ram (pg t) = ram (pg ?u) \<and> sheap t = sheap (?u\<lparr>pg := pg t\<rparr>)"
  proof (cases "flags ?t = TASK_USER")
    case True
    let ?d = "task_cr3 ?t"
    have own: "owner s (unat ?me) = Some ?d" using oc True by simp
    then have d: "?d \<in> ran (owner s)" by (rule ranI)
    have "0 < fno ?d" using vm_space(4) [OF p(3) d] by (simp add: low_pool_def)
    then have "?d \<noteq> 0" by (auto simp: fno_def)
    then have zd: "zombie_cr3 ?u = ?d" using z True by simp
    obtain Q where Q: "paging_destroy_addr_space ?d (pg ?u) = Some Q" "t = ?u\<lparr>pg := Q, zombie_cr3 := 0\<rparr>"
      using n(2) \<open>?d \<noteq> 0\<close> unfolding reap_zombies_def zd destroy_space_def by auto
    have "?d \<noteq> cr3 (pg ?u)"
    proof
      assume e: "?d = cr3 (pg ?u)"
      then have "?d = ?c" by (simp add: P)
      moreover have "?d \<noteq> KERNEL_PD" using vm_kernel(2) [OF p(3)] d by auto
      ultimately have "owner s (unat n) = Some ?d" using on by (simp split: if_splits)
      then have "unat n = unat ?me" using own p(2) by (auto simp: apart_def)
      then show False using ne by (simp add: word_unat_eq_iff)
    qed
    then have "vm_ok (ran (owner s) - {?d}) Q" "confined (ran (owner s)) (pg ?u) Q" "ram Q = ram (pg ?u)"
      using destroy_space_ok [OF ok d _ Q(1)] by simp_all
    then show ?thesis using ran_del [OF p(2) own] by (simp add: Q(2) sheap_def)
  next
    case False
    then have "t = ?u" using n(2) z by (simp add: reap_zombies_def)
    moreover have "(owner s)(unat ?me := None) = owner s" using oc False by (simp add: fun_upd_idem)
    ultimately show ?thesis using ok by (simp add: confined_tables sheap_def)
  qed
  then have v: "vm_ok (ran ((owner s)(unat ?me := None))) (pg t)" "confined (ran (owner s)) (pg ?u) (pg t)"
    "sheap t = sheap (?u\<lparr>pg := pg t\<rparr>)" "ram (pg t) = ram (pg s)" by (auto simp: P)
  note rs = reap_zombies_simps [OF n(2)]
  have o': "owner s' = (owner s)(unat ?me := None)"
    using owner_cong [of t ?u] rs(1) ou by (simp add: s')
  have "space_of s' = ?c"
    using on ne by (simp add: space_of_def o') (simp add: s' word_unat_eq_iff)
  moreover have "cr3 (pg t) = ?c" "wp_set (pg t)"
    using v(2) P p(6) wp_cr0 [of "pg t" "pg ?u"] by (simp_all add: confined_def)
  moreover have "heap_valid (sheap s')"
  proof -
    have "sheap s' = sheap t" by (simp add: s' sheap_def)
    then show ?thesis using heap_valid_pg [OF v(2)] p(4) unfolding v(3) hu by simp
  qed
  moreover have "sched_inv s'" by (rule sched_exit_inv [OF run p(1)])
  moreover have "zombie_cr3 s' = 0" using rs(4) by (simp add: s')
  moreover have "ram (pg s') = ram (pg s)" using v(4) by (simp add: s')
  ultimately show ?thesis
    using v(1) apart_del [OF p(2), of "unat ?me"] o' by (simp add: procs_ok_def) (simp add: s')
qed

subsection \<open>Everything that happens to processes\<close>

text \<open>What kernel code writes elsewhere: its variables, and blocks it has borrowed from the heap.\<close>

definition kernel_data :: "sched \<Rightarrow> mem \<Rightarrow> bool" where
  "kernel_data s m \<longleftrightarrow> kernel_write (ram (pg s)) m \<and>
     (\<forall>x. 0x300000 \<le> x \<longrightarrow> x < 0x400000 \<longrightarrow> x \<notin> heap_used (sheap s) \<longrightarrow> m (of_nat x) = ram (pg s) (of_nat x))"

text \<open>
  Loading and forking need two low frames, or fewer than two frames altogether, and a fault needs a
  frame the kernel can address, as in \<open>Spaces\<close>.
\<close>

inductive proc_step :: "sched \<Rightarrow> sched \<Rightarrow> bool" where
  Create: "next_pid s < minus1 \<Longrightarrow> task_create name fn s = Some (p, s') \<Longrightarrow> proc_step s s'"
| Spawn: "next_pid s < minus1 \<Longrightarrow> low_enough 2 (pg s) \<Longrightarrow> user_spawn name img sz s = Some (p, s') \<Longrightarrow> proc_step s s'"
| Fork: "next_pid s < minus1 \<Longrightarrow> low_enough 2 (pg s) \<Longrightarrow> flags (task_at s (current s)) = TASK_USER \<Longrightarrow>
    task_fork_user name fr (task_cr3 (task_at s (current s))) s = Some (p, s') \<Longrightarrow> proc_step s s'"
| Irq: "proc_step s (sched_enter_irq r s)"
| Tick: "proc_step s (snd (sched_tick s))"
| Yield: "proc_step s (snd (sched_yield s))"
| Slice: "proc_step s (upd_task k (slice_left_update f) s)"
| Exit: "sched_exit_current s = Some (Resume e, s') \<Longrightarrow> proc_step s s'"
| Fault: "fault_ready (ran (owner s)) va (pg s) \<Longrightarrow> paging_cow_fault va code (pg s) = Some (r, P) \<Longrightarrow> proc_step s (s\<lparr>pg := P\<rparr>)"
| Store: "user_store va b (pg s) = Some P \<Longrightarrow> proc_step s (s\<lparr>pg := P\<rparr>)"
| Copy: "flags (task_at s (current s)) = TASK_USER \<Longrightarrow> user_page (fno va) \<Longrightarrow> kst8 va b (pg s) = Some P \<Longrightarrow> proc_step s (s\<lparr>pg := P\<rparr>)"
| Alloc: "s_kmalloc n s = Some (p, s') \<Longrightarrow> proc_step s s'"
| Free: "heap_owns (sheap s) p R \<Longrightarrow> s_kfree p s = Some s' \<Longrightarrow> proc_step s s'"
| Data: "kernel_data s m \<Longrightarrow> proc_step s (set_ram (\<lambda>_. m) s)"

inductive_cases proc_stepE: "proc_step s s'"

lemma running_space:
  assumes "procs_ok s" "flags (task_at s (current s)) = TASK_USER"
  shows "cr3 (pg s) \<in> ran (owner s)"
  using assms owner_ready [OF procs_okD(1) [OF assms(1)], of "current s"] sched_inv_facts [OF procs_okD(1) [OF assms(1)]]
  by (auto simp: procs_ok_def space_of_def intro: ranI)

lemma user_store_ok:
  assumes ok: "vm_ok L P" and st: "user_store va b P = Some P'"
  shows "vm_ok L P'" "confined L P P'"
proof -
  obtain p where p: "P' = P\<lparr>ram := (ram P)(p := b)\<rparr>" "cr3 P \<in> L" "user_page (fno va)"
    "pmap (ram P) (cr3 P) (fno va) = Some (fno p, True)"
    by (rule user_store_target [OF ok st])
  have f: "fno p \<in> user_frames (ram P) (cr3 P)"
    unfolding frames_of_pmap [symmetric] using p(4) by (rule frames_ofI)
  show "vm_ok L P'" using data_store_refines(1,2) [OF ok p(2) f] ok by (simp add: vm_ok_def p(1))
  show "confined L P P'"
    using f vm_space(7) [OF ok p(2)] held_apart(4) [OF ok _ p(2) _ p(4)] by (intro pool_confined [of "{fno p}"]) (auto simp: p(1))
qed

lemma data_ok:
  assumes s: "procs_ok s" and m: "kernel_data s m"
  shows "procs_ok (set_ram (\<lambda>_. m) s)"
proof -
  note p = procs_okD [OF s]
  obtain bs where h: "heap_ok (sheap s) bs" using p(4) by (auto simp: heap_valid_def)
  have w: "kernel_write (ram (pg s)) m" using m by (simp add: kernel_data_def)
  have "m (of_nat x) = ram (pg s) (of_nat x)" if "0x300000 \<le> x" "x < 0x400000" "x \<notin> used_at 0x300000 bs" for x
    using m that heap_used_eq [OF h] by (simp add: kernel_data_def)
  then have "heap_at m 0x300000 bs"
    using heap_at_payload [OF heap_ok_at [OF h], of m] by (simp add: sheap_def)
  then have "heap_valid (sheap (set_ram (\<lambda>_. m) s))"
    using h by (auto simp: heap_valid_def heap_ok_def sheap_def set_ram_def)
  moreover have "vm_ok (ran (owner s)) ((pg s)\<lparr>ram := m\<rparr>)"
    using vm_step_ok [OF vm_step.Kernel [OF w]] p(3) by fastforce
  ultimately show ?thesis
    using p by (simp add: procs_ok_def space_of_def) (simp add: set_ram_def wp_set_def)
qed

lemma heap_alloc_ok:
  assumes s: "procs_ok s" and run: "s_kmalloc n s = Some (p, s')"
  shows "procs_ok s'"
proof -
  obtain bs where h: "heap_ok (sheap s) bs" using procs_okD(4) [OF s] by (auto simp: heap_valid_def)
  show ?thesis
  proof (rule s_kmalloc_block [OF h run], goal_cases)
    case (2 i z bs')
    then show ?case
      using procs_ok_arena [OF s 2(10) owner_same [OF 2(11)]] sched_inv_same [OF 2(11)] procs_okD(1) [OF s]
      by (auto simp: heap_valid_def)
  qed (simp add: s)
qed

lemma heap_free_ok:
  assumes s: "procs_ok s" and o: "heap_owns (sheap s) p R" and run: "s_kfree p s = Some s'"
  shows "procs_ok s'"
proof -
  obtain bs i z where h: "heap_ok (sheap s) bs" "blk_at i bs = Some (z, False)" "p = of_nat (0x300000 + i + 12)"
    using o by (auto simp: heap_owns_def)
  note f = s_kfree_block [OF h(1,2) run [unfolded h(3)]]
  show ?thesis
    using procs_ok_arena [OF s f(2) owner_same [OF f(3)] _ f(1)] sched_inv_same [OF f(3)] procs_okD(1) [OF s] by simp
qed

lemma proc_step_ok: "proc_step s s' \<Longrightarrow> procs_ok s \<Longrightarrow> procs_ok s'"
proof (erule proc_stepE, goal_cases)
  case (1 name fn p)
  then show ?case
    using task_create_effect [of s] procs_ok_arena task_create_inv procs_okD(1,4) by metis
next
  case (2 name img sz p)
  then show ?case using spawn_ok by blast
next
  case (3 name fr p)
  then show ?case using fork_ok by blast
next
  case (8 e)
  then show ?case using exit_ok by blast
next
  case (9 va code r P)
  then show ?case using procs_ok_pg fault_space procs_okD(3) by metis
next
  case (10 va b P)
  then show ?case using procs_ok_pg user_store_ok procs_okD(3) by metis
next
  case (11 va b P)
  note c = running_space [OF 11(1,3)] and ok = procs_okD(3,6) [OF 11(1)]
  show ?case
    unfolding 11(2) by (rule procs_ok_pg [OF 11(1) store_user(2) [OF ok(1) c 11(4,5) ok(2)] store_user(1) [OF ok(1) c 11(4,5)]])
qed (auto intro: procs_ok_upd enter_irq_ok tick_ok yield_ok heap_alloc_ok heap_free_ok data_ok)

subsection \<open>What a step leaves of everybody else\<close>

lemma switch_to_keeps: "owner (snd (switch_to fr n s)) = owner s" "ram (pg (snd (switch_to fr n s))) = ram (pg s)"
  by (simp_all add: switch_to_def Let_def switch_cr3_def)

lemma others_data:
  assumes "procs_ok s" "kernel_data s m"
  shows "others s (set_ram (\<lambda>_. m) s)"
  unfolding others_def
proof (intro ballI impI)
  fix e assume "e \<in> ran (owner s)"
  then have "held (ram (pg s)) e \<subseteq> pool_frames" by (rule held_apart(1) [OF procs_okD(3) [OF assms(1)]])
  then have "- (pool_frames \<union> {fno KERNEL_PD, fno KERNEL_PT}) \<inter> held (ram (pg s)) e = {}" by blast
  then show "spares e (ram (pg s)) (ram (pg (set_ram (\<lambda>_. m) s)))"
    using assms(2) by (auto simp: kernel_data_def kernel_write_def set_ram_def intro: touches_spares)
qed

lemma heap_alloc_arena: "procs_ok s \<Longrightarrow> s_kmalloc n s = Some (p, s') \<Longrightarrow> arena_write s s' \<and> owner s' = owner s"
proof -
  assume s: "procs_ok s" and run: "s_kmalloc n s = Some (p, s')"
  obtain bs where h: "heap_ok (sheap s) bs" using procs_okD(4) [OF s] by (auto simp: heap_valid_def)
  show ?thesis
  proof (rule s_kmalloc_block [OF h run], goal_cases)
    case (2 i z bs')
    then show ?case using owner_same by blast
  qed simp
qed

lemma heap_free_arena: "heap_owns (sheap s) p R \<Longrightarrow> s_kfree p s = Some s' \<Longrightarrow> arena_write s s' \<and> owner s' = owner s"
proof -
  assume "heap_owns (sheap s) p R" and run: "s_kfree p s = Some s'"
  then obtain bs i z where h: "heap_ok (sheap s) bs" "blk_at i bs = Some (z, False)" "p = of_nat (0x300000 + i + 12)"
    by (auto simp: heap_owns_def)
  show ?thesis using s_kfree_block [OF h(1,2) run [unfolded h(3)]] owner_same by blast
qed

lemma placed_elsewhere:
  "if p = 0 then owner s' = owner s else \<exists>c. c \<notin> ran (owner s) \<and> places c s s' \<Longrightarrow> owner s k = Some d \<Longrightarrow> owner s' k = Some d"
  by (auto simp: places_def split: if_splits)

lemma owner_set_ram [simp]: "owner (set_ram f s) = owner s"
  by (rule owner_cong) (simp add: set_ram_def)

text \<open>A process that is not running keeps its directory and all its frames as they are.\<close>

lemma proc_step_others:
  assumes s: "procs_ok s" and st: "proc_step s s'" and k: "owner s k = Some d" "k \<noteq> unat (current s)"
  shows "owner s' k = Some d" "spares d (ram (pg s)) (ram (pg s'))"
proof -
  note p = procs_okD [OF s]
  have "d \<noteq> cr3 (pg s)"
  proof
    assume e: "d = cr3 (pg s)"
    have "KERNEL_PD \<notin> ran (owner s)" by (rule vm_kernel(2) [OF p(3)])
    then have "owner s (unat (current s)) = Some d"
      using e p(7) k(1) by (auto simp: space_of_def ran_def split: option.splits)
    then show False using p(2) k by (auto simp: apart_def)
  qed
  then have spared: "others s s' \<Longrightarrow> spares d (ram (pg s)) (ram (pg s'))"
    using k(1) by (auto simp: others_def intro: ranI)
  have "owner s' k = Some d \<and> (others s s' \<or> ram (pg s') = ram (pg s))"
    using st
  proof cases
    case (Create name fn q)
    then show ?thesis using task_create_effect [OF p(1) _ p(4)] others_arena [OF s] k(1) by auto
  next
    case (Spawn name img sz q)
    then have "(if q = 0 then owner s' = owner s else \<exists>c. c \<notin> ran (owner s) \<and> places c s s') \<and> others s s'"
      using spawn_ok [OF s] by blast
    then show ?thesis using placed_elsewhere [OF _ k(1)] by blast
  next
    case (Fork name fr q)
    then have "(if q = 0 then owner s' = owner s else \<exists>c. c \<notin> ran (owner s) \<and> places c s s') \<and> others s s'"
      using fork_ok [OF s] by blast
    then show ?thesis using placed_elsewhere [OF _ k(1)] by blast
  next
    case (Irq r)
    have "owner (t\<lparr>cur_frame := r, sched_ready := True\<rparr>) = owner t" for t by (rule owner_cong) simp
    then show ?thesis using k(1) Irq by (simp add: sched_enter_irq_def Let_def)
  next
    case Tick
    then show ?thesis using k(1) by (simp add: sched_tick_def Let_def switch_to_keeps split: option.split)
  next
    case Yield
    then show ?thesis using k(1) by (simp add: sched_yield_def Let_def switch_to_keeps)
  next
    case (Slice j f)
    then show ?thesis using k(1) by simp
  next
    case (Exit e)
    then show ?thesis using exit_ok [OF s] k by auto
  next
    case (Fault va code r P)
    then show ?thesis using fault_space(2) [OF p(3)] others_pg [of s s'] k(1) by simp
  next
    case (Store va b P)
    then show ?thesis using user_store_ok(2) [OF p(3)] others_pg [of s s'] k(1) by simp
  next
    case (Copy va b P)
    then show ?thesis
      using store_user(2) [OF p(3) running_space [OF s]] p(6) others_pg [of s s'] k(1) by simp
  next
    case (Alloc n q)
    then show ?thesis using heap_alloc_arena [OF s] others_arena [OF s] k(1) by auto
  next
    case (Free q R)
    then show ?thesis using heap_free_arena others_arena [OF s] k(1) by metis
  next
    case (Data m)
    then show ?thesis using others_data [OF s] k(1) by simp
  qed
  then show "owner s' k = Some d" "spares d (ram (pg s)) (ram (pg s'))" using spared by auto
qed

subsection \<open>The processes of a state\<close>

text \<open>The slots of the task table with a live user task, and the directory of each.\<close>

definition user_tasks :: "sched \<Rightarrow> nat set" where
  "user_tasks s = {k. k < length (tasks s) \<and> ready (tasks s ! k) \<and> flags (tasks s ! k) = TASK_USER}"

definition dir_of :: "sched \<Rightarrow> nat \<Rightarrow> u32" where
  "dir_of s k = task_cr3 (tasks s ! k)"

lemma owner_tasks: "sched_inv s \<Longrightarrow> owner s k = (if k \<in> user_tasks s then Some (dir_of s k) else None)"
  using sched_inv_facts(1) [of s] by (auto simp: owner_def user_tasks_def dir_of_def)

lemma owned_dirs: "sched_inv s \<Longrightarrow> ran (owner s) = dir_of s ` user_tasks s"
  by (auto simp: ran_def owner_tasks)

lemma dirs_distinct: "procs_ok s \<Longrightarrow> inj_on (dir_of s) (user_tasks s)"
  using procs_okD(1,2) [of s] by (auto simp: apart_def owner_tasks inj_on_def)

text \<open>A space that is spared looks the same to its program.\<close>

lemma spared_view:
  assumes ok: "vm_ok L P" "d \<in> L" "vm_ok L' P'" "d \<in> L'" and sp: "spares d (ram P) (ram P')" and wp: "wp_set P' = wp_set P"
  shows "user_byte P' d w = user_byte P d w" "user_writable P' d w = user_writable P d w"
proof -
  note v = vm_space [OF ok(1,2)] and v' = vm_space [OF ok(3,4)]
  have walk: "x86_walk (ram P') (wp_set P') d True wr w = x86_walk (ram P) (wp_set P) d True wr w" for wr
    unfolding wp using spares_tables(1) [OF v(3) sp] by (intro same_walk [OF v(1,2) v'(1,2)])
  then show "user_writable P' d w = user_writable P d w" by (simp add: user_writable_def)
  show "user_byte P' d w = user_byte P d w"
  proof (cases "x86_walk (ram P) (wp_set P) d True False w")
    case (Some q)
    have "user_page (fno w)" using user_walk(2) [OF ok(1) _ Some] ok(2) by simp
    then obtain w' where "pmap (ram P) d (fno w) = Some (fno q, w')"
      by (rule window_walk [OF v(1) _ Some])
    then have "fno q \<in> user_frames (ram P) d"
      unfolding frames_of_pmap [symmetric] by (rule frames_ofI)
    then have "ram P' q = ram P q" using sp v(3) by (simp add: spares_def touches_def held_def)
    then show ?thesis using Some walk by (simp add: user_byte_def)
  qed (simp add: user_byte_def walk)
qed

end
