(* ===== verification/Traps.thy ===== *)
theory Traps
  imports Processes
begin

section \<open>Interrupts, faults and system calls as steps of processes\<close>

text \<open>
  \<open>Processes\<close> says what the operations of the kernel do to the processes one by one; here the
  code that calls them, \<open>isr_common_handler\<close> and below it the dispatcher of system calls, the page
  fault handler and the interrupt handlers, is taken apart into those operations.  What the
  hardware and the rest of the kernel have to provide is stated as hypotheses: the frame the stub
  pushed lies in kernel memory that nobody else owns, and there is memory for a fork or a copy.
\<close>

subsection \<open>The frame of an interrupted program\<close>

text \<open>The saved \<open>eax\<close>: in a block of the heap, or in kernel memory outside it.\<close>

definition frame_at :: "sched \<Rightarrow> u32 \<Rightarrow> bool" where
  "frame_at s r \<longleftrightarrow> (\<forall>x\<in>dword_bytes (r + 44). fno x \<notin> pool_frames \<union> {fno KERNEL_PD, fno KERNEL_PT} \<and>
     (fno x \<in> arena \<longrightarrow> (\<exists>p R. heap_owns (sheap s) p R \<and> unat x \<in> R)))"

lemma frame_keeps: "keeps s t \<Longrightarrow> frame_at s r \<Longrightarrow> frame_at t r"
  unfolding frame_at_def keeps_def by blast

lemma frame_data:
  assumes "frame_at s r"
  shows "kernel_data s (store32 (ram (pg s)) (r + 44) v)"
  unfolding kernel_data_def
proof (intro conjI allI impI)
  let ?m = "store32 (ram (pg s)) (r + 44) v"
  have out: "?m x = ram (pg s) x" if "x \<notin> dword_bytes (r + 44)" for x using that by (rule store32_outside)
  show "kernel_write (ram (pg s)) ?m"
    unfolding kernel_write_def touches_def using out assms by (auto simp: frame_at_def)
  fix x :: nat assume x: "0x300000 \<le> x" "x < 0x400000" "x \<notin> heap_used (sheap s)"
  have u: "unat (of_nat x :: u32) = x" using x(2) by (intro unat_of_nat32) simp
  show "?m (of_nat x) = ram (pg s) (of_nat x)"
  proof (rule out, rule notI)
    assume "of_nat x \<in> dword_bytes (r + 44)"
    then obtain p R where "heap_owns (sheap s) p R" "unat (of_nat x :: u32) \<in> R"
      using assms arena_nat [OF x(1,2)] by (auto simp: frame_at_def)
    then show False using owns_used x(3) u by auto
  qed
qed

lemma set_eax_step: "frame_at (ks k) r \<Longrightarrow> proc_step (ks k) (ks (set_eax r v k))"
  using proc_step.Data [OF frame_data, of "ks k" r v] by (simp add: set_eax_def set_ram_def)

subsection \<open>Runs of steps\<close>

text \<open>Steps of one task, and what a handler amounts to: such a run, then at most one step that may hand the
  processor over.\<close>

definition own_steps :: "sched \<Rightarrow> sched \<Rightarrow> bool" where
  "own_steps = (\<lambda>s t. proc_step s t \<and> current t = current s)\<^sup>*\<^sup>*"

definition event :: "sched \<Rightarrow> sched \<Rightarrow> bool" where
  "event s t \<longleftrightarrow> (\<exists>u. own_steps s u \<and> (t = u \<or> proc_step u t))"

lemma own_steps_refl [simp]: "own_steps s s"
  by (simp add: own_steps_def)

lemma own_steps_first: "proc_step s t \<Longrightarrow> current t = current s \<Longrightarrow> own_steps t u \<Longrightarrow> own_steps s u"
  unfolding own_steps_def by (rule converse_rtranclp_into_rtranclp) simp_all

lemma own_step: "proc_step s t \<Longrightarrow> current t = current s \<Longrightarrow> own_steps s t"
  by (rule own_steps_first [OF _ _ own_steps_refl])

lemma own_steps_trans: "own_steps s t \<Longrightarrow> own_steps t u \<Longrightarrow> own_steps s u"
  unfolding own_steps_def by (rule rtranclp_trans)

lemma own_event: "own_steps s t \<Longrightarrow> event s t"
  by (auto simp: event_def)

lemma event_after: "own_steps s t \<Longrightarrow> event t u \<Longrightarrow> event s u"
  unfolding event_def using own_steps_trans by blast

lemma step_event: "proc_step s t \<Longrightarrow> event s t"
  unfolding event_def using own_steps_refl by blast

lemma own_steps_elsewhere:
  "own_steps s t \<Longrightarrow> procs_ok s \<Longrightarrow> procs_ok t \<and> current t = current s \<and>
     (\<forall>k d. owner s k = Some d \<longrightarrow> k \<noteq> unat (current s) \<longrightarrow> owner t k = Some d \<and> spares d (ram (pg s)) (ram (pg t)))"
  unfolding own_steps_def
proof (induction rule: rtranclp_induct)
  case (step t u)
  then show ?case using proc_step_ok [of t u] proc_step_others [of t u] spares_trans by metis
qed simp

lemma event_elsewhere:
  assumes "event s t" "procs_ok s"
  shows "procs_ok t" "owner s k = Some d \<Longrightarrow> k \<noteq> unat (current s) \<Longrightarrow> owner t k = Some d \<and> spares d (ram (pg s)) (ram (pg t))"
proof -
  obtain u where u: "own_steps s u" "t = u \<or> proc_step u t" using assms(1) by (auto simp: event_def)
  note o = own_steps_elsewhere [OF u(1) assms(2)]
  show "procs_ok t" using u(2) o proc_step_ok by blast
  show "owner t k = Some d \<and> spares d (ram (pg s)) (ram (pg t))" if k: "owner s k = Some d" "k \<noteq> unat (current s)"
    using u(2)
  proof
    assume "proc_step u t"
    then show ?thesis using o k proc_step_others [of u t k d] spares_trans by metis
  qed (use o k in blast)
qed

subsection \<open>Copies to user memory\<close>

text \<open>A store into the window succeeds only while a program's space is in force.\<close>

lemma window_running:
  assumes s: "procs_ok s" and u: "user_page (fno va)" and st: "kst8 va b (pg s) = Some P"
  shows "flags (task_at s (current s)) = TASK_USER"
proof -
  note p = procs_okD [OF s]
  note f = sched_inv_facts [OF p(1)]
  obtain q where q: "x86_walk (ram (pg s)) (wp_set (pg s)) (cr3 (pg s)) False True va = Some q"
    using st by (auto simp: kst8_def ktrans_def)
  have A: "addr_space (ram (pg s)) (mm (pg s)) (cr3 (pg s))"
    using vm_kernel(1) [OF p(3)] by (simp add: kernel_ok_def)
  obtain w where "pmap (ram (pg s)) (cr3 (pg s)) (fno va) = Some (fno q, w)"
    by (rule window_walk [OF A u q])
  moreover have "pmap (ram (pg s)) KERNEL_PD = Map.empty" using p(3) by (simp add: vm_ok_def vm_shape_def)
  ultimately have "space_of s \<noteq> KERNEL_PD" using p(7) by auto
  then show ?thesis using owner_ready [OF p(1) f(5,4)] by (auto simp: space_of_def split: if_splits)
qed

lemma copy_out_fills: "copy_out buf i n arr P = Inr P' \<Longrightarrow> fills buf n P P'"
  by (induction buf i n arr P rule: copy_out.induct) (auto split: if_splits option.splits intro: fills.intros)

lemma store_user_fills: "store_user bs a P = Some P' \<Longrightarrow> fills a (length bs) P P'"
  by (induction bs arbitrary: a P) (auto split: bind_splits intro: fills.intros)

lemma fills_steps:
  "fills d n P P' \<Longrightarrow> procs_ok s \<Longrightarrow> pg s = P \<Longrightarrow> n = 0 \<or> 0x200000 \<le> unat d \<and> unat d + n \<le> 0x300000 \<Longrightarrow>
     own_steps s (s\<lparr>pg := P'\<rparr>) \<and> keeps s (s\<lparr>pg := P'\<rparr>)"
proof (induction arbitrary: s rule: fills.induct)
  case (Done d P)
  then have "s\<lparr>pg := P\<rparr> = s" by simp
  then show ?case by (simp add: keeps_def)
next
  case (Next d b P Q n R)
  let ?t = "s\<lparr>pg := Q\<rparr>"
  have d: "0x200000 \<le> unat d" "unat d + n < 0x300000" using Next.prems(3) by simp_all
  then have u: "user_page (fno d)" by (simp add: user_page_def fno_def less_mult_imp_div_less)
  have st: "kst8 d b (pg s) = Some Q" using Next.hyps(1) Next.prems(2) by simp
  have fl: "flags (task_at s (current s)) = TASK_USER" by (rule window_running [OF Next.prems(1) u st])
  have step: "proc_step s ?t" by (rule proc_step.Copy [OF fl u st])
  have "confined (ran (owner s)) (pg s) Q"
    using store_user(2) [OF _ running_space [OF Next.prems(1) fl] u st] procs_okD(3,6) [OF Next.prems(1)] by blast
  then have k: "keeps s ?t" by (rule keeps_pg)
  have "unat (d + 1) = unat d + 1" using d(2) by (intro fno_next) (simp add: fno_def less_mult_imp_div_less)
  then have "own_steps ?t (?t\<lparr>pg := R\<rparr>) \<and> keeps ?t (?t\<lparr>pg := R\<rparr>)"
    using Next.IH [of ?t] proc_step_ok [OF step Next.prems(1)] d by simp
  then show ?case using own_steps_first [OF step] keeps_trans [OF k] by simp
qed

lemma range_window: "user_range_ok a n \<Longrightarrow> n = 0 \<or> 0x200000 \<le> unat a \<and> unat a + unat n \<le> 0x300000"
  by (simp add: range_ok_nat)

subsection \<open>System calls\<close>

text \<open>Steps that leave every owner of a block of the heap what it has.\<close>

definition quiet_run :: "sched \<Rightarrow> sched \<Rightarrow> bool" where
  "quiet_run s t \<longleftrightarrow> own_steps s t \<and> keeps s t"

lemma quiet_refl [simp]: "quiet_run s s"
  by (simp add: quiet_run_def keeps_def)

lemma quiet_fills:
  assumes "fills d n (upg k) P" "procs_ok (ks k)" "n = 0 \<or> 0x200000 \<le> unat d \<and> unat d + n \<le> 0x300000"
  shows "quiet_run (ks k) (ks (set_upg P k))"
  using fills_steps [OF assms(1,2) _ assms(3)] by (simp add: quiet_run_def set_upg_def upg_def)

lemma same_calls:
  "sys_write_file fd buf len k = Inr (v, k') \<Longrightarrow> ks k' = ks k"
  "sys_write dev fd buf len k = Inr (v, k') \<Longrightarrow> ks k' = ks k"
  "sys_open name n fl k = Inr (v, k') \<Longrightarrow> ks k' = ks k"
  "sys_close fd k = Inr (v, k') \<Longrightarrow> ks k' = ks k"
  "sys_lseek fd off wh k = Inr (v, k') \<Longrightarrow> ks k' = ks k"
  "sys_unlink name n k = Inr (v, k') \<Longrightarrow> ks k' = ks k"
proof -
  show w: "sys_write_file fd buf len k = Inr (v, k') \<Longrightarrow> ks k' = ks k" for fd
    by (auto simp: sys_write_file_def Let_def split: file_cases)
  show "sys_write dev fd buf len k = Inr (v, k') \<Longrightarrow> ks k' = ks k"
    by (auto simp: sys_write_def dest: w split: file_cases)
  show "sys_open name n fl k = Inr (v, k') \<Longrightarrow> ks k' = ks k"
    by (auto simp: sys_open_def Let_def split: file_cases)
  show "sys_close fd k = Inr (v, k') \<Longrightarrow> ks k' = ks k"
    by (auto simp: sys_close_def split: file_cases dest: sys_sync_sched)
  show "sys_lseek fd off wh k = Inr (v, k') \<Longrightarrow> ks k' = ks k"
    by (auto simp: sys_lseek_def Let_def split: file_cases)
  show "sys_unlink name n k = Inr (v, k') \<Longrightarrow> ks k' = ks k"
    by (auto simp: sys_unlink_def Let_def split: file_cases)
qed

lemma sys_read_steps:
  assumes "sys_read fd buf len k = Inr (v, k')" "procs_ok (ks k)"
  shows "quiet_run (ks k) (ks k')"
proof (cases "MAX_OPEN_FILES \<le> fd \<or> \<not> o_used (ofile fd k) \<or> \<not> user_range_ok buf len")
  case True
  then have "ks k' = ks k" using assms(1) by (auto simp: sys_read_def Let_def split: file_cases)
  then show ?thesis by simp
next
  case False
  let ?avail = "o_size (ofile fd k) - o_pos (ofile fd k)"
  let ?len = "if ?avail < len then ?avail else len"
  obtain P where P: "copy_out buf (unat (o_pos (ofile fd k))) (unat ?len) (o_data (ofile fd k)) (upg k) = Inr P"
    "ks k' = ks (set_upg P k)"
    using assms(1) False by (auto simp: sys_read_def Let_def split: file_cases)
  have "unat ?len \<le> unat len" by (simp add: word_less_nat_alt)
  then have "unat ?len = 0 \<or> 0x200000 \<le> unat buf \<and> unat buf + unat ?len \<le> 0x300000"
    using range_window [of buf len] False by auto
  from quiet_fills [OF copy_out_fills [OF P(1)] assms(2) this] show ?thesis by (simp only: P(2))
qed

lemma sys_stat_steps:
  assumes "sys_stat name n out k = Inr (v, k')" "procs_ok (ks k)"
  shows "quiet_run (ks k) (ks k')"
proof -
  consider "ks k' = ks k" | (wrote) sz P where "user_range_ok out 4" "store_user (u32_bytes sz) out (upg k) = Some P"
    "ks k' = ks (set_upg P k)"
    using assms(1) by (fastforce simp: sys_stat_def set_upg_def split: file_cases)
  then show ?thesis
  proof cases
    case wrote
    have "length (u32_bytes sz) = 4" by (simp add: u32_bytes_def)
    then show ?thesis
      using quiet_fills [OF store_user_fills [OF wrote(2)] assms(2)] range_window [OF wrote(1)] wrote(3) by simp
  qed simp
qed

lemma fork_current: "task_fork_user name fr c s = Some (p, s') \<Longrightarrow> current s' = current s"
proof -
  have m: "s_kmalloc n s = Some (q, t) \<Longrightarrow> current t = current s" "s_kfree q s = Some t \<Longrightarrow> current t = current s" for n q s t
    using same_table_simps(3) same_table_ops(1,2) by blast+
  have a: "alloc_irq_stack k s = Some (r, t) \<Longrightarrow> current t = current s" for k r s t
    by (auto simp: alloc_irq_stack_def split: if_splits bind_splits dest!: m)
  have "alloc_slot s = (k, t) \<Longrightarrow> current t = current s" for k t s
    by (auto simp: alloc_slot_def split: option.splits if_splits)
  moreover have "current (init_slot k fl s) = current s" "current (kill_slot k s) = current s" for k fl s
    by (simp_all add: init_slot_def kill_slot_def)
  ultimately show "task_fork_user name fr c s = Some (p, s') \<Longrightarrow> current s' = current s"
    by (auto simp: task_fork_user_def in_pg_def destroy_space_def Let_def split: if_splits bind_splits prod.splits dest!: m a)
qed

lemma sys_fork_steps:
  assumes "sys_fork r k = Inr (v, k')" "procs_ok (ks k)" "low_enough 2 (upg k)" "next_pid (ks k) < minus1"
  shows "quiet_run (ks k) (ks k')"
proof (cases "flags (sched_current_task (ks k)) = TASK_USER")
  case True
  let ?t = "task_at (ks k) (current (ks k))"
  have cur: "sched_current_task (ks k) = ?t" by (simp add: sched_current_task_def)
  obtain s where s: "task_fork_user (cstring (tname ?t)) r (task_cr3 ?t) (ks k) = Some (v, s)" "ks k' = s"
    using assms(1) True by (auto simp: sys_fork_def Let_def cur split: option.splits)
  have low: "low_enough 2 (pg (ks k))" using assms(3) by (simp add: upg_def)
  have fl: "flags ?t = TASK_USER" using True by (simp add: cur)
  show ?thesis
    using own_step [OF proc_step.Fork [OF assms(4) low fl s(1)] fork_current [OF s(1)]] fork_ok [OF assms(2,4) low fl s(1)]
    by (auto simp: quiet_run_def s(2))
qed (use assms(1) in \<open>simp add: sys_fork_def Let_def\<close>)

lemma sys_sleep_steps: "sys_sleep w k = Inr (v, k') \<Longrightarrow> quiet_run (ks k) (ks k')"
proof -
  have "keeps (ks k) (upd_task j f (ks k))" for j f by (rule keeps_heap) simp
  then show "sys_sleep w k = Inr (v, k') \<Longrightarrow> quiet_run (ks k) (ks k')"
    by (auto simp: sys_sleep_def Let_def quiet_run_def intro!: own_step proc_step.Slice)
qed

lemma syscall_result_steps:
  assumes "syscall_result dev r nr b c d k = Inr (v, k')" "procs_ok (ks k)"
    and "nr = 3 \<Longrightarrow> low_enough 2 (upg k) \<and> next_pid (ks k) < minus1"
  shows "quiet_run (ks k) (ks k')"
  using assms unfolding syscall_result_def
  by (auto split: if_splits dest: same_calls sys_sleep_steps sys_read_steps sys_stat_steps sys_fork_steps)

lemma dispatch_steps:
  assumes run: "syscall_dispatch dev r k = Inr (oc, k')" and "oc \<noteq> Halted" and s: "procs_ok (ks k)" and fr: "frame_at (ks k) r"
    and room: "frame_reg r 44 k = 3 \<Longrightarrow> low_enough 2 (upg k) \<and> next_pid (ks k) < minus1"
  shows "event (ks k) (ks k')"
proof (cases "frame_reg r 44 k = 2")
  case True
  then obtain t where t: "sched_exit_current (ks k) = Some (oc, t)" "ks k' = t"
    using run by (auto simp: syscall_dispatch_def split: option.splits)
  then obtain e where "oc = Resume e" using exit_not_stay assms(2) by blast
  then show ?thesis using step_event [OF proc_step.Exit] t by auto
next
  case False
  then obtain v k1 where k1: "syscall_result dev r (frame_reg r 44 k) (frame_reg r 32 k) (frame_reg r 40 k) (frame_reg r 36 k) k = Inr (v, k1)"
    "k' = set_eax r v k1"
    using run by (auto simp: syscall_dispatch_def split: sum.splits)
  have q: "quiet_run (ks k) (ks k1)" by (rule syscall_result_steps [OF k1(1) s room])
  then have "frame_at (ks k1) r" using frame_keeps [OF _ fr] by (simp add: quiet_run_def)
  from step_event [OF set_eax_step [OF this, of v]] event_after q show ?thesis by (auto simp: k1(2) quiet_run_def)
qed

subsection \<open>Page faults\<close>

text \<open>
  Only a page of the window can be copied: everywhere else the entry is absent, or the kernel's and
  writable, and the fault is declined.
\<close>

lemma fault_elsewhere:
  assumes s: "procs_ok s" and out: "\<not> (cr3 (pg s) \<in> ran (owner s) \<and> user_page (fno va))"
    and run: "paging_cow_fault va e (pg s) = Some (r, P)"
  shows "P = pg s"
proof -
  let ?P = "pg s" and ?c = "cr3 (pg s)"
  note ok = procs_okD(3) [OF s]
  have c: "?c \<in> insert KERNEL_PD (ran (owner s))" using space_of_live [of s] procs_okD(7) [OF s] by simp
  have A: "addr_space (ram ?P) (mm ?P) ?c" using vm_kernel(1) [OF ok] by (simp add: kernel_ok_def)
  have S: "space_shape (ram ?P) ?c" by (rule vm_tables_apart(7) [OF ok c])
  note k = kernel_okD [OF vm_kernel(1) [OF ok]]
  have dir: "unat (drop_bit 22 va AND 0x3FF) < 1024" by (simp add: unat_and_0x3FF)
  have ld: "kld32 (slot ?c (unat (drop_bit 22 va AND 0x3FF))) ?P = Some (load32 (ram ?P) (slot ?c (unat (drop_bit 22 va AND 0x3FF))))"
    using k dir by (simp add: kernel_access kaddr_slot)
  show ?thesis
  proof (cases "unat (drop_bit 22 va AND 0x3FF) = 0")
    case False
    then have "load32 (ram ?P) (slot ?c (unat (drop_bit 22 va AND 0x3FF))) AND PTE_P = 0"
      using S dir by (simp add: space_shape_def)
    then show ?thesis using run ld by (simp add: paging_cow_fault_def paging_get_cr3_def Let_def split: if_splits)
  next
    case True
    have "unat va div 4194304 < 1024" using unsigned_less [of va, where 'a = nat] by simp
    then have "unat va div 4194304 = 0" using True by (simp add: unat_and_0x3FF unat_shr)
    then have lt: "fno va < 1024" by (simp add: fno_def)
    note ix = kaddr_index [OF lt]
    have ld: "kld32 (slot ?c 0) ?P = Some (load32 (ram ?P) ?c)"
      "kld32 (slot (ptab (ram ?P) ?c) (fno va)) ?P = Some (uent (ram ?P) ?c (fno va))"
      using k lt by (simp_all add: kernel_access kaddr_slot uent_def)
    have w1: "kld32 (slot ?c (unat (drop_bit 22 va AND 0x3FF))) ?P = Some (load32 (ram ?P) ?c)"
      using ld(1) ix(1) by simp
    have d: "uent (ram ?P) ?c (fno va) AND PTE_P = 0 \<or> uent (ram ?P) ?c (fno va) AND PTE_W \<noteq> 0"
    proof (cases "user_page (fno va)")
      case True
      then have e: "?c = KERNEL_PD" using out c by auto
      have "pmap (ram ?P) KERNEL_PD = Map.empty" using ok by (simp add: vm_ok_def vm_shape_def)
      then have "pmap (ram ?P) ?c (fno va) = None" by (simp add: e)
      with True show ?thesis by (auto simp: pmap_def split: if_splits)
    next
      case False
      then have "uent (ram ?P) ?c (fno va) = of_nat (fno va) * 4096 OR 3"
        using A lt by (simp add: addr_space_def kmap_def uent_def)
      then have "uent (ram ?P) ?c (fno va) AND PTE_W = (of_nat (fno va) * 4096 AND 2) OR 2"
        by (simp add: PTE_W_def bit.conj_disj_distrib2)
      moreover have "bit ((of_nat (fno va) * 4096 AND 2) OR 2 :: u32) 1" by (simp add: bit_or_iff)
      ultimately show ?thesis by (metis bit_0_eq bot_apply bot_bool_def)
    qed
    show ?thesis
      using run d by (auto simp: paging_cow_fault_def paging_get_cr3_def w1 ix(2) ld(2) Let_def simp flip: fbase_def ptab_def
          split: if_splits)
  qed
qed

text \<open>There is a frame the kernel can address for the copy, unless there is none at all, and it can address the page.\<close>

definition fault_room :: "sched \<Rightarrow> u32 \<Rightarrow> bool" where
  "fault_room s va \<longleftrightarrow> (low_frames (pg s) \<noteq> {} \<or> free_set (mm (pg s)) = {}) \<and>
     (\<forall>f w. pmap (ram (pg s)) (cr3 (pg s)) (fno va) = Some (f, w) \<longrightarrow> f \<in> low_pool)"

lemma fault_steps:
  assumes "procs_ok s" "fault_room s va" "paging_cow_fault va e (pg s) = Some (r, P)"
  shows "own_steps s (s\<lparr>pg := P\<rparr>)"
proof (cases "cr3 (pg s) \<in> ran (owner s) \<and> user_page (fno va)")
  case True
  then have "fault_ready (ran (owner s)) va (pg s)" using assms(2) by (simp add: fault_ready_def fault_room_def)
  from own_step [OF proc_step.Fault [OF this assms(3)]] show ?thesis by simp
next
  case False
  have "s\<lparr>pg := P\<rparr> = s" using fault_elsewhere [OF assms(1) False assms(3)] by simp
  then show ?thesis by simp
qed

subsection \<open>The common handler\<close>

lemma enter_irq_kernel: "ks (mkern (m_enter_irq r m)) = sched_enter_irq r (ks (mkern m))"
  by (simp add: m_enter_irq_def)

lemma enter_irq_step: "own_steps s (sched_enter_irq r s)"
  by (rule own_step [OF proc_step.Irq]) (simp add: sched_enter_irq_def Let_def)

lemma m_log_ks: "m_log dev f a m = Inr m' \<Longrightarrow> ks (mkern m') = ks (mkern m)"
  using m_log_ok by fastforce

lemma page_fault_steps:
  assumes run: "user_page_fault dev code eip cr2 m = Inr (oc, m')" and "oc \<noteq> Halted"
    and s: "procs_ok (ks (mkern m))" "fault_room (ks (mkern m)) cr2"
  shows "event (ks (mkern m)) (ks (mkern m'))"
proof -
  obtain fixed P where P: "paging_cow_fault cr2 code (upg (mkern m)) = Some (fixed, P)"
    using run by (auto simp: user_page_fault_def split: option.splits)
  let ?s = "(ks (mkern m))\<lparr>pg := P\<rparr>"
  have st: "own_steps (ks (mkern m)) ?s" using fault_steps [OF s] P by (simp add: upg_def)
  show ?thesis
  proof (cases fixed)
    case True
    then show ?thesis using run P own_event [OF st] by (auto simp: user_page_fault_def set_upg_def)
  next
    case False
    with P run obtain m2 t where
      m2: "m_log dev (ln ''user process killed: bad page fault addr 0x%x err 0x%x eip 0x%x'') [Word cr2, Word code, Word eip]
        (upd_mkern (set_upg P) m) = Inr m2"
      and t: "sched_exit_current (ks (mkern m2)) = Some (oc, t)" "ks (mkern m') = t"
      by (auto simp: user_page_fault_def split: sum.splits option.splits)
    have "ks (mkern m2) = ?s" using m_log_ks [OF m2] by (simp add: set_upg_def)
    moreover obtain e where "oc = Resume e" using exit_not_stay [OF t(1) assms(2)] by blast
    ultimately have "proc_step ?s t" using t(1) by (auto intro: proc_step.Exit)
    then show ?thesis using event_after [OF st step_event] by (simp add: t(2))
  qed
qed

lemma irq_steps: "event (ks (mkern m)) (ks (mkern (snd (irq_dispatch dev r irq m))))"
proof -
  let ?m = "m_ports (pic_eoi (of_nat irq)) (m_enter_irq r m)"
  have 1: "own_steps (ks (mkern m)) (ks (mkern ?m))"
    using enter_irq_step [of "ks (mkern m)" r] by (simp add: m_ports_def enter_irq_kernel)
  have "ks (mkern (snd (run_handler dev h n))) \<in> {ks (mkern n), snd (sched_tick (ks (mkern n)))}" for h n
    by (auto simp: run_handler_def read_data_def mkern_def [symmetric] split: option.splits irq_handler.splits prod.splits)
      (auto simp: mkern_def upd_mkern_def)
  then have "ks (mkern (snd (irq_dispatch dev r irq m))) \<in> {ks (mkern ?m), snd (sched_tick (ks (mkern ?m)))}"
    unfolding irq_dispatch_def Let_def .
  then have "event (ks (mkern ?m)) (ks (mkern (snd (irq_dispatch dev r irq m))))"
    using step_event [OF proc_step.Tick [of "ks (mkern ?m)"]] by (auto intro: own_event)
  with 1 show ?thesis by (rule event_after)
qed

text \<open>What an interrupt with frame \<open>r\<close> needs besides the invariant.\<close>

definition irq_ready :: "u32 \<Rightarrow> u32 \<Rightarrow> machine \<Rightarrow> bool" where
  "irq_ready cr2 r m \<longleftrightarrow> frame_at (ks (mkern m)) r \<and>
     (unat (frame_reg r 48 (mkern m)) = 14 \<longrightarrow> fault_room (ks (mkern m)) cr2) \<and>
     (unat (frame_reg r 48 (mkern m)) = 128 \<and> frame_reg r 44 (mkern m) = 3 \<longrightarrow>
        low_enough 2 (upg (mkern m)) \<and> next_pid (ks (mkern m)) < minus1)"

lemma isr_steps:
  assumes run: "isr_common_handler dev cr2 r m = Inr (oc, m')" and live: "oc \<noteq> Halted"
    and s: "procs_ok (ks (mkern m))" and room: "irq_ready cr2 r m"
  shows "event (ks (mkern m)) (ks (mkern m'))"
proof -
  let ?n = "unat (frame_reg r 48 (mkern m))"
  consider "?n < 32" | "32 \<le> ?n" "?n \<le> 47" | "?n = 128" | "47 < ?n" "?n \<noteq> 128" by linarith
  then show ?thesis
  proof cases
    case 1
    then have "user_page_fault dev (frame_reg r 52 (mkern m)) (frame_reg r 56 (mkern m)) cr2 m = Inr (oc, m') \<and> ?n = 14"
      using run live by (auto simp: isr_common_handler_def Let_def split: if_splits dest: panic_halts)
    then show ?thesis using page_fault_steps [OF _ live s] room by (auto simp: irq_ready_def)
  next
    case 2
    with run have "m' = snd (irq_dispatch dev r (?n - 32) m)"
      by (simp add: isr_common_handler_def Let_def)
    then show ?thesis using irq_steps by simp
  next
    case 3
    let ?m1 = "m_enter_irq r m" and ?s = "ks (mkern m)"
    from 3 run obtain k where k: "syscall_dispatch dev r (mkern ?m1) = Inr (oc, k)" "m' = upd_mkern (\<lambda>_. k) ?m1"
      by (auto simp: isr_common_handler_def Let_def split: sum.splits)
    have same: "pg (sched_enter_irq r ?s) = pg ?s" "next_pid (sched_enter_irq r ?s) = next_pid ?s"
      "sheap (sched_enter_irq r ?s) = sheap ?s"
      by (simp_all add: sched_enter_irq_def Let_def sheap_def)
    have fr: "frame_at (ks (mkern ?m1)) r"
      using room frame_keeps [OF keeps_heap [OF same(3)]] by (simp add: enter_irq_kernel irq_ready_def)
    have "low_enough 2 (upg (mkern ?m1)) \<and> next_pid (ks (mkern ?m1)) < minus1" if "frame_reg r 44 (mkern ?m1) = 3"
      using room 3 that by (simp add: irq_ready_def frame_reg_def upg_def enter_irq_kernel same)
    then have "event (ks (mkern ?m1)) (ks k)"
      using enter_irq_ok [OF s] by (intro dispatch_steps [OF k(1) live _ fr]) (simp_all add: enter_irq_kernel)
    then show ?thesis
      using event_after [OF enter_irq_step] by (simp add: k(2) enter_irq_kernel)
  next
    case 4
    with run show ?thesis by (simp add: isr_common_handler_def Let_def own_event)
  qed
qed

end
