(* ===== verification/Loading.thy ===== *)
theory Loading
  imports Processes
begin

section \<open>Starting a well-formed program\<close>

text \<open>
  \<open>user_spawn\<close> on an image whose headers make sense: the loader returns, every byte of every segment
  is where its header puts it, the rest of each segment is zero, the stack is mapped, and the task
  that owns the new space is in the table.  The image lies in the kernel's heap; what a program
  should see is computed from it by \<open>image_byte\<close>, without page tables.
\<close>

subsection \<open>Opening pages\<close>

text \<open>The pages the running space maps, and the frames it has or may still get.\<close>

definition mapped :: "pg_state \<Rightarrow> nat set" where
  "mapped P = {i. pmap (ram P) (cr3 P) i \<noteq> None}"

definition room :: "pg_state \<Rightarrow> nat" where
  "room P = card (free_set (mm P)) + card (mapped P)"

lemma finite_mapped [simp]: "finite (mapped P)"
  by (rule finite_subset [of _ "{..<1024}"]) (auto simp: mapped_def pmap_def user_page_less split: if_splits)

text \<open>Pages are only added, writable ones, and what was mapped keeps its contents.\<close>

definition opens :: "u32 set \<Rightarrow> pg_state \<Rightarrow> pg_state \<Rightarrow> bool" where
  "opens L P Q \<longleftrightarrow> vm_ok L Q \<and> confined L P Q \<and> room Q = room P \<and>
     (\<forall>i e. pmap (ram P) (cr3 P) i = Some e \<longrightarrow> pmap (ram Q) (cr3 P) i = Some e) \<and>
     (\<forall>i f. pmap (ram Q) (cr3 P) i = Some (f, False) \<longrightarrow> pmap (ram P) (cr3 P) i = Some (f, False)) \<and>
     (\<forall>a b. user_byte P (cr3 P) a = Some b \<longrightarrow> user_byte Q (cr3 P) a = Some b)"

lemma opensD:
  assumes "opens L P Q"
  shows "vm_ok L Q" "confined L P Q" "room Q = room P"
    "pmap (ram P) (cr3 P) i = Some e \<Longrightarrow> pmap (ram Q) (cr3 P) i = Some e"
    "pmap (ram Q) (cr3 P) i = Some (f, False) \<Longrightarrow> pmap (ram P) (cr3 P) i = Some (f, False)"
    "user_byte P (cr3 P) a = Some b \<Longrightarrow> user_byte Q (cr3 P) a = Some b"
  by (use assms [unfolded opens_def] in blast)+

lemma opens_refl: "vm_ok L P \<Longrightarrow> opens L P P"
  by (simp add: opens_def confined_tables)

lemma opens_cr3: "opens L P Q \<Longrightarrow> cr3 Q = cr3 P"
  using opensD(2) by (simp add: confined_def)

lemma opens_wp: "opens L P Q \<Longrightarrow> wp_set Q = wp_set P"
  using opensD(2) by (simp add: confined_def wp_set_def)

lemma opens_trans:
  assumes "opens L P Q" "opens L Q R"
  shows "opens L P R"
proof -
  note p = opensD [OF assms(1)] and q = opensD [OF assms(2), unfolded opens_cr3 [OF assms(1)]]
  have "confined L P R" by (rule confined_trans [OF p(2) q(2)])
  moreover have "room R = room P" using p(3) q(3) by simp
  moreover have "pmap (ram R) (cr3 P) i = Some e" if "pmap (ram P) (cr3 P) i = Some e" for i e
    by (rule q(4) [OF p(4) [OF that]])
  moreover have "pmap (ram P) (cr3 P) i = Some (f, False)" if "pmap (ram R) (cr3 P) i = Some (f, False)" for i f
    by (rule p(5) [OF q(5) [OF that]])
  moreover have "user_byte R (cr3 P) a = Some b" if "user_byte P (cr3 P) a = Some b" for a b
    by (rule q(6) [OF p(6) [OF that]])
  ultimately show ?thesis unfolding opens_def using q(1) by blast
qed

lemma opens_mapped:
  assumes "opens L P Q"
  shows "mapped P \<subseteq> mapped Q"
  using opensD(4) [OF assms] by (auto simp: mapped_def opens_cr3 [OF assms])

lemma map_one:
  assumes ok: "vm_ok L P" and c: "cr3 P \<in> L" and i: "user_page i"
  shows "\<exists>r Q. map_user_page (ptab (ram P) (cr3 P)) i P = Some (r, Q) \<and> opens L P Q \<and> ptab (ram Q) (cr3 P) = ptab (ram P) (cr3 P) \<and>
    mapped Q = (if r then insert i (mapped P) else mapped P) \<and> (\<not> r \<longrightarrow> free_set (mm Q) = {} \<and> i \<notin> mapped Q)"
proof -
  note p = vm_proc [OF ok c]
  show ?thesis
  proof (rule map_user_page_cases [OF p i], goal_cases)
    case 1
    have "i \<in> mapped P" using 1(1) i by (simp add: mapped_def pmap_def)
    then show ?case using 1(2) opens_refl [OF ok] by (intro exI [of _ True] exI [of _ P]) auto
  next
    case 2
    have "i \<notin> mapped P" using 2(1) by (simp add: mapped_def pmap_def)
    then show ?case using 2(2,3) opens_refl [OF ok] by (intro exI [of _ False] exI [of _ P]) auto
  next
    case (3 f Q)
    let ?c = "cr3 P" and ?pt = "ptab (ram P) (cr3 P)"
    obtain q Q' where q: "map_user_page ?pt i P = Some (q, Q')" "vm_ok L Q'"
      by (rule map_any_page [OF ok c user_page_less [OF i]]) (rule that)
    then have okQ: "vm_ok L Q" using 3(3) by simp
    have cQ: "?c \<in> L" "cr3 Q = ?c" using c 3(8) by simp_all
    have fl: "(f OR 7) AND PTE_P \<noteq> 0" "(f OR 7) AND PTE_W \<noteq> 0" "fno (f OR 7) = fno f"
      using or7_flags [OF 3(4)] by simp_all
    have pm: "pmap (ram Q) ?c j = (if j = i then Some (fno f, True) else pmap (ram P) ?c j)" for j
      by (cases "j = i"; cases "user_page j") (use 3(10) fl i user_page_less in \<open>simp_all add: pmap_def\<close>)
    have ni: "pmap (ram P) ?c i = None" using 3(1) by (simp add: pmap_def)
    have niP: "i \<notin> mapped P" using ni by (simp add: mapped_def)
    have mQ: "mapped Q = insert i (mapped P)" by (auto simp: mapped_def pm cQ(2))
    have "\<forall>x. fno x \<notin> {fno ?pt} \<longrightarrow> ram Q x = ram P x" using 3(11) fno_fbase by (metis insertCI)
    then have con: "confined L P Q"
      using vm_space(5) [OF ok c] low_in_pool map_page_cr0 [OF 3(3)] 3(8) held_apart(3) [OF ok _ c]
      by (intro pool_confined [of "{fno ?pt}"]) auto
    have "card (free_set (mm P)) \<noteq> 0" using 3(5) by (auto simp: free_set_def)
    then have "room Q = room P"
      using niP 3(5,6) by (simp add: room_def mQ card_Diff_singleton)
    moreover have "user_byte Q ?c a = Some b" if b: "user_byte P ?c a = Some b" for a b
    proof -
      obtain x where x: "x86_walk (ram P) (wp_set P) ?c True False a = Some x" "ram P x = b"
        using b by (auto simp: user_byte_def)
      have u: "user_page (fno a)" using user_walk(2) [OF ok _ x(1)] c by simp
      obtain w where w: "pmap (ram P) ?c (fno a) = Some (fno x, w)" by (rule window_walk [OF vm_space(1) [OF ok c] u x(1)])
      then have ne: "fno a \<noteq> i" using ni by auto
      have "uent (ram Q) ?c (fno a) = uent (ram P) ?c (fno a)" using 3(10) user_page_less [OF u] ne by simp
      then have "x86_walk (ram Q) (wp_set P) ?c True False a = Some x"
        using x(1) by (simp add: walk_uent [OF vm_space(1) [OF okQ cQ(1)] user_page_less [OF u]]
            walk_uent [OF vm_space(1) [OF ok c] user_page_less [OF u]] split: if_splits)
      moreover have "wp_set Q = wp_set P" using con by (simp add: confined_def wp_set_def)
      moreover have "fno x \<noteq> fno ?pt"
        using vm_space(10) [OF ok c] frames_ofI [of "pmap (ram P) ?c", OF w] by (auto simp: frames_of_pmap)
      then have "ram Q x = ram P x" using 3(11) fno_fbase by metis
      ultimately show ?thesis using x(2) by (simp add: user_byte_def)
    qed
    moreover have "pmap (ram Q) ?c j = Some e" if "pmap (ram P) ?c j = Some e" for j e using pm that ni by auto
    moreover have "pmap (ram P) ?c j = Some (g, False)" if "pmap (ram Q) ?c j = Some (g, False)" for j g
      using pm that by (auto split: if_splits)
    ultimately have "opens L P Q" using okQ con unfolding opens_def by blast
    then show ?case using 3(3,9) mQ by (intro exI [of _ True] exI [of _ Q]) simp
  qed
qed

lemma map_many:
  assumes "vm_ok L P" "cr3 P \<in> L" "\<forall>i\<in>set is. user_page i"
  shows "\<exists>r Q. map_pages (ptab (ram P) (cr3 P)) is P = Some (r, Q) \<and> opens L P Q \<and> mapped Q \<subseteq> mapped P \<union> set is \<and>
    (if r then set is \<subseteq> mapped Q else free_set (mm Q) = {} \<and> \<not> set is \<subseteq> mapped Q)"
  using assms
proof (induction "is" arbitrary: P)
  case Nil
  then show ?case by (intro exI [of _ True] exI [of _ P]) (simp add: opens_refl)
next
  case (Cons i js)
  obtain r Q where m: "map_user_page (ptab (ram P) (cr3 P)) i P = Some (r, Q)" "opens L P Q" "ptab (ram Q) (cr3 P) = ptab (ram P) (cr3 P)"
    "mapped Q = (if r then insert i (mapped P) else mapped P)" "\<not> r \<longrightarrow> free_set (mm Q) = {} \<and> i \<notin> mapped Q"
    using map_one [OF Cons.prems(1,2)] Cons.prems(3) by (metis list.set_intros(1))
  show ?case
  proof (cases r)
    case False
    then show ?thesis using m by (intro exI [of _ False] exI [of _ Q]) auto
  next
    case True
    have Q: "vm_ok L Q" "cr3 Q = cr3 P" by (rule opensD(1) [OF m(2)], rule opens_cr3 [OF m(2)])
    obtain q R where R: "map_pages (ptab (ram Q) (cr3 Q)) js Q = Some (q, R)" "opens L Q R" "mapped R \<subseteq> mapped Q \<union> set js"
      "if q then set js \<subseteq> mapped R else free_set (mm R) = {} \<and> \<not> set js \<subseteq> mapped R"
      using Cons.IH [OF Q(1)] Q(2) Cons.prems(2,3) by (metis list.set_intros(2))
    have mR: "i \<in> mapped R" using opens_mapped [OF R(2)] m(4) True by auto
    have "mapped R \<subseteq> mapped P \<union> set (i # js)" using R(3) m(4) True by auto
    moreover have "if q then set (i # js) \<subseteq> mapped R else free_set (mm R) = {} \<and> \<not> set (i # js) \<subseteq> mapped R"
      using R(4) mR by (cases q) auto
    moreover have "map_pages (ptab (ram P) (cr3 P)) (i # js) P = Some (q, R)"
      using m(1,3) R(1) Q(2) True by simp
    ultimately show ?thesis using opens_trans [OF m(2) R(2)] by blast
  qed
qed

text \<open>With frames for all the pages in \<open>S\<close>, mapping a region inside \<open>S\<close> succeeds.\<close>

lemma map_region_total:
  assumes ok: "vm_ok L P" and c: "cr3 P \<in> L" and v: "512 \<le> fno v" "n \<noteq> 0" "unat v + unat n \<le> 768 * 4096"
    and S: "mapped P \<union> region_pages v n \<subseteq> S" "finite S" "card S \<le> room P"
  shows "\<exists>Q. paging_map_user_region (cr3 P) v n P = Some (True, Q) \<and> opens L P Q \<and> mapped Q = mapped P \<union> region_pages v n"
proof -
  let ?is = "[fno v ..< Suc ((unat v + unat n - 1) div 4096)]"
  note p = vm_proc [OF ok c]
  have rp: "set ?is = region_pages v n" by (simp add: region_pages_def del: upt_Suc)
  have u: "\<forall>i\<in>set ?is. user_page i" by (rule map_user_region_run(2) [OF p v])
  obtain r Q where Q: "map_pages (ptab (ram P) (cr3 P)) ?is P = Some (r, Q)" "opens L P Q" "mapped Q \<subseteq> mapped P \<union> set ?is"
    "if r then set ?is \<subseteq> mapped Q else free_set (mm Q) = {} \<and> \<not> set ?is \<subseteq> mapped Q"
    using map_many [OF ok c u] by blast
  have r
  proof (rule ccontr)
    assume "\<not> r"
    then have "mapped Q \<subset> S" "free_set (mm Q) = {}" using Q(3,4) S(1) rp by auto
    then have "room Q < card S" using psubset_card_mono [OF S(2)] by (simp add: room_def)
    then show False using opensD(3) [OF Q(2)] S(3) by simp
  qed
  then have "mapped Q = mapped P \<union> region_pages v n" using Q(3,4) rp opens_mapped [OF Q(2)] by auto
  then show ?thesis using Q(1,2) \<open>r\<close> map_user_region_run(1) [OF p v] by (intro exI [of _ Q]) simp
qed

subsection \<open>Writing to open pages\<close>

lemma store_byte:
  assumes ok: "vm_ok L P" and c: "cr3 P \<in> L" and wp: "wp_set P" and m: "pmap (ram P) (cr3 P) (fno d) = Some (f, True)"
  shows "\<exists>Q. kst8 d b P = Some Q \<and> vm_ok L Q \<and> confined L P Q \<and> mm Q = mm P \<and> pmap (ram Q) (cr3 P) = pmap (ram P) (cr3 P) \<and>
    (\<forall>a. user_byte Q (cr3 P) a = (if a = d then Some b else user_byte P (cr3 P) a))"
proof -
  let ?c = "cr3 P" and ?e = "uent (ram P) (cr3 P) (fno d)"
  have u: "user_page (fno d)" using m by (simp add: pmap_def split: if_splits)
  have fl: "?e AND PTE_P \<noteq> 0" "?e AND PTE_W \<noteq> 0" "fno ?e = f" using m by (simp_all add: pmap_def split: if_splits)
  have us: "?e AND PTE_U \<noteq> 0" by (rule vm_user_flag [OF ok c u fl(1)])
  define p where "p = fbase ?e + (d AND 0xFFF)"
  have wk: "x86_walk (ram P) wp ?c user w d = Some p" for wp user w
    using walk_uent [OF vm_space(1) [OF ok c] user_page_less [OF u]] fl us by (simp add: pte_allows_def p_def)
  let ?Q = "P\<lparr>ram := (ram P)(p := b)\<rparr>"
  have st: "kst8 d b P = Some ?Q" by (simp add: kst8_def ktrans_def wk)
  note s = store_user(1,3) [OF ok c u st] store_user(2) [OF ok c u st wp]
  have pm: "pmap (ram ?Q) ?c = pmap (ram P) ?c" using s(2) by simp
  have fp: "fno p = f" using window_walk [OF vm_space(1) [OF ok c] u wk [of True True True]] m by (metis option.inject prod.inject)
  have pf: "fno p \<in> user_frames (ram P) ?c"
    unfolding frames_of_pmap [symmetric] fp using m by (rule frames_ofI [of "pmap (ram P) ?c"])
  have cQ: "cr3 ?Q \<in> L" "cr3 ?Q = ?c" using c by simp_all
  have same: "x86_walk (ram ?Q) wp ?c user w a = x86_walk (ram P) wp ?c user w a" for wp user w a
    using data_store_refines(3) [OF ok c pf, of ?c] c vm_space(1,2) [OF s(1), of ?c]
    by (intro same_walk [OF vm_space(1,2) [OF ok c]]) simp_all
  have "user_byte ?Q ?c a = (if a = d then Some b else user_byte P ?c a)" for a
  proof (cases "x86_walk (ram P) (wp_set P) ?c True False a")
    case None
    then have "a \<noteq> d" using wk by auto
    then show ?thesis using None same by (simp add: user_byte_def wp_set_def)
  next
    case (Some q)
    have ua: "user_page (fno a)" using user_walk(2) [OF ok _ Some] c by simp
    obtain w where w: "pmap (ram P) ?c (fno a) = Some (fno q, w)" "q = fbase (uent (ram P) ?c (fno a)) + (a AND 0xFFF)"
      by (rule window_walk [OF vm_space(1) [OF ok c] ua Some])
    have "q = p \<longleftrightarrow> a = d"
    proof
      assume e: "q = p"
      then have "pages (vm_abs L P) ?c (fno a) = Some (f, w)" "pages (vm_abs L P) ?c (fno d) = Some (f, True)"
        using w(1) m fp c by simp_all
      then have i: "fno a = fno d" using ok c vspec_okD(7) [of "vm_abs L P" ?c] by (auto simp: vm_ok_def)
      then have "a AND 0xFFF = d AND 0xFFF" using e w(2) by (simp add: p_def)
      moreover have "fbase a = fbase d" using i unat_fbase [of a] unat_fbase [of d] by (simp add: fno_def word_unat_eq_iff)
      ultimately show "a = d" using fbase_plus_offset by metis
    qed (use Some wk in simp)
    then show ?thesis using Some same by (auto simp: user_byte_def wp_set_def)
  qed
  then show ?thesis using st s(1,3) pm by (intro exI [of _ ?Q]) simp
qed

lemma unat_sub_Suc: "a \<noteq> d \<Longrightarrow> unat (a - (d + 1)) = unat (a - d) - 1" for a d :: u32
proof -
  assume "a \<noteq> d"
  then have "1 \<le> a - d" by (simp add: word_le_nat_alt unat_gt_0 Suc_le_eq)
  then have "unat (a - d - 1) = unat (a - d) - 1" by (simp add: unat_sub)
  then show ?thesis by (simp add: diff_diff_eq)
qed

lemma store_bytes:
  assumes "vm_ok L P" "cr3 P \<in> L" "wp_set P" "0x200000 \<le> unat d" "unat d + length bs \<le> 0x300000"
    and "\<And>x. unat d \<le> unat x \<Longrightarrow> unat x < unat d + length bs \<Longrightarrow> \<exists>f. pmap (ram P) (cr3 P) (fno x) = Some (f, True)"
  shows "\<exists>Q. store_user bs d P = Some Q \<and> vm_ok L Q \<and> confined L P Q \<and> mm Q = mm P \<and> pmap (ram Q) (cr3 P) = pmap (ram P) (cr3 P) \<and>
    (\<forall>a. user_byte Q (cr3 P) a = (if unat (a - d) < length bs then Some (bs ! unat (a - d)) else user_byte P (cr3 P) a))"
  using assms
proof (induction bs arbitrary: d P)
  case Nil
  then show ?case by (simp add: confined_tables)
next
  case (Cons b bs)
  obtain f where f: "pmap (ram P) (cr3 P) (fno d) = Some (f, True)" using Cons.prems(6) [of d] by auto
  obtain Q where Q: "kst8 d b P = Some Q" "vm_ok L Q" "confined L P Q" "mm Q = mm P" "pmap (ram Q) (cr3 P) = pmap (ram P) (cr3 P)"
    "\<forall>a. user_byte Q (cr3 P) a = (if a = d then Some b else user_byte P (cr3 P) a)"
    using store_byte [OF Cons.prems(1-3) f, of b] by blast
  have c: "cr3 Q = cr3 P" "wp_set Q = wp_set P" using Q(3) by (simp_all add: confined_def wp_set_def)
  have d1: "unat (d + 1) = unat d + 1" using Cons.prems(5) by (intro fno_next) (simp add: fno_def less_mult_imp_div_less)
  have "\<exists>R. store_user bs (d + 1) Q = Some R \<and> vm_ok L R \<and> confined L Q R \<and> mm R = mm Q \<and>
      pmap (ram R) (cr3 Q) = pmap (ram Q) (cr3 Q) \<and>
      (\<forall>a. user_byte R (cr3 Q) a = (if unat (a - (d + 1)) < length bs then Some (bs ! unat (a - (d + 1))) else user_byte Q (cr3 Q) a))"
    by (rule Cons.IH) (use Cons.prems d1 Q c in auto)
  then obtain R where R: "store_user bs (d + 1) Q = Some R" "vm_ok L R" "confined L Q R" "mm R = mm Q"
      "pmap (ram R) (cr3 P) = pmap (ram P) (cr3 P)"
      "\<forall>a. user_byte R (cr3 P) a = (if unat (a - (d + 1)) < length bs then Some (bs ! unat (a - (d + 1))) else user_byte Q (cr3 P) a)"
    unfolding c(1) Q(5) by blast
  have "user_byte R (cr3 P) a = (if unat (a - d) < length (b # bs) then Some ((b # bs) ! unat (a - d)) else user_byte P (cr3 P) a)" for a
  proof (cases "a = d")
    case True
    have "a - (d + 1) = 0xFFFFFFFF" using True by simp
    then have "\<not> unat (a - (d + 1)) < length bs" using Cons.prems(5) by (simp only:) simp
    then show ?thesis using R(6) Q(6) True by simp
  next
    case False
    then have "unat (a - d) \<noteq> 0" by (simp add: unat_eq_zero)
    then show ?thesis using R(6) Q(6) False unat_sub_Suc [OF False] by (cases "unat (a - d)") auto
  qed
  then show ?case using Q(1,4) R(1,2,4,5) confined_trans [OF Q(3) R(3)] by (intro exI [of _ R]) simp
qed

text \<open>The loader's copies are such writes, of bytes that lie in the kernel's heap.\<close>

lemma vmemset_stores: "vmemset d v n P = store_user (replicate n v) d P"
proof (induction n arbitrary: d P)
  case (Suc n)
  then show ?case by (cases "kst8 d v P") simp_all
qed simp

lemma arena_kaddr: "fno a \<in> arena \<Longrightarrow> kaddr a"
  by (simp add: kaddr_def arena_def user_page_def)

lemma vmemcpy_stores:
  assumes "vm_ok L P" "cr3 P \<in> L" "wp_set P" "\<And>i. i < n \<Longrightarrow> fno (src + of_nat i) \<in> arena"
    and "0x200000 \<le> unat d" "unat d + n \<le> 0x300000"
  shows "vmemcpy d src n P = store_user (get_bytes (ram P) src n) d P"
  using assms
proof (induction n arbitrary: d src P)
  case (Suc n)
  have src: "fno src \<in> arena" using Suc.prems(4) [of 0] by simp
  have rd: "kld8 src P = Some (ram P src)"
    by (rule kernel_access(1) [OF kernel_okD(2) [OF vm_kernel(1) [OF Suc.prems(1)]] arena_kaddr [OF src]])
  have u: "user_page (fno d)" using Suc.prems(5,6) by (simp add: user_page_def fno_def less_mult_imp_div_less)
  show ?case
  proof (cases "kst8 d (ram P src) P")
    case None
    then show ?thesis using rd by (simp add: get_bytes_Suc)
  next
    case (Some Q)
    note Q = store_user(1) [OF Suc.prems(1,2) u Some] store_user(2) [OF Suc.prems(1,2) u Some Suc.prems(3)]
    have nx: "fno (src + 1 + of_nat i) \<in> arena" if "i < n" for i
      using Suc.prems(4) [of "Suc i"] that by (simp add: ac_simps)
    have b: "get_bytes (ram Q) (src + 1) n = get_bytes (ram P) (src + 1) n"
      using nx arena_kept [OF Q(2)] by (simp add: get_bytes_def)
    have "unat (d + 1) = unat d + 1" using Suc.prems(6) by (intro fno_next) (simp add: fno_def less_mult_imp_div_less)
    then have "vmemcpy (d + 1) (src + 1) n Q = store_user (get_bytes (ram Q) (src + 1) n) (d + 1) Q"
      using Q Suc.prems nx by (intro Suc.IH) (simp_all add: confined_def wp_set_def)
    then show ?thesis using Some rd b by (simp add: get_bytes_Suc)
  qed
qed simp

subsection \<open>What a program should see\<close>

text \<open>The fields of a program header in memory.\<close>

definition seg_va :: "mem \<Rightarrow> u32 \<Rightarrow> u32" where "seg_va m ph = load32 m (ph + 8)"
definition seg_off :: "mem \<Rightarrow> u32 \<Rightarrow> u32" where "seg_off m ph = load32 m (ph + 4)"
definition seg_file :: "mem \<Rightarrow> u32 \<Rightarrow> u32" where "seg_file m ph = load32 m (ph + 16)"
definition seg_mem :: "mem \<Rightarrow> u32 \<Rightarrow> u32" where "seg_mem m ph = load32 m (ph + 20)"

text \<open>A segment gives a byte of the file or zero to its addresses; of several segments the last one counts.\<close>

definition seg_byte :: "mem \<Rightarrow> u32 \<Rightarrow> u32 \<Rightarrow> u32 \<Rightarrow> u8 option" where
  "seg_byte m img ph a =
     (if load32 m ph \<noteq> PT_LOAD then None
      else if a - seg_va m ph < seg_file m ph then Some (m (img + seg_off m ph + (a - seg_va m ph)))
      else if a - seg_va m ph < seg_mem m ph then Some 0 else None)"

fun image_byte :: "mem \<Rightarrow> u32 \<Rightarrow> u32 list \<Rightarrow> u32 \<Rightarrow> u8 option" where
  "image_byte m img [] a = None"
| "image_byte m img (ph # phs) a =
     (case image_byte m img phs a of Some b \<Rightarrow> Some b | None \<Rightarrow> seg_byte m img ph a)"

text \<open>A header the loader can follow: the segment within the window below the stack top, its bytes within the file.\<close>

definition good_segment :: "mem \<Rightarrow> u32 \<Rightarrow> u32 \<Rightarrow> bool" where
  "good_segment m sz ph \<longleftrightarrow> (load32 m ph = PT_LOAD \<longrightarrow>
     0x200000 \<le> unat (seg_va m ph) \<and> unat (seg_va m ph) + unat (seg_mem m ph) \<le> 0x2F0000 \<and>
     unat (seg_file m ph) \<le> unat (seg_mem m ph) \<and> unat (seg_off m ph) + unat (seg_file m ph) \<le> unat sz)"

definition seg_pages :: "mem \<Rightarrow> u32 \<Rightarrow> nat set" where
  "seg_pages m ph = (if load32 m ph = PT_LOAD \<and> seg_mem m ph \<noteq> 0 then region_pages (seg_va m ph) (seg_mem m ph) else {})"

text \<open>Bytes of the kernel's heap.\<close>

definition in_arena :: "u32 \<Rightarrow> nat \<Rightarrow> bool" where
  "in_arena a n \<longleftrightarrow> (\<forall>i<n. fno (a + of_nat i) \<in> arena)"

text \<open>A state in the middle of loading: \<open>m\<close> is the memory the image was read from.\<close>

definition filling :: "u32 set \<Rightarrow> mem \<Rightarrow> pg_state \<Rightarrow> bool" where
  "filling L m P \<longleftrightarrow> loading L P \<and> (\<forall>i f. pmap (ram P) (cr3 P) i \<noteq> Some (f, False)) \<and> (\<forall>x. fno x \<in> arena \<longrightarrow> ram P x = m x)"

lemma filling_word:
  assumes f: "filling L m P" and a: "in_arena a 4"
  shows "kld32 a P = Some (load32 m a)"
proof -
  have b: "fno a \<in> arena" "fno (a + 1) \<in> arena" "fno (a + 2) \<in> arena" "fno (a + 3) \<in> arena"
    using a by (auto simp: in_arena_def dest: spec [of _ 0] spec [of _ 1] spec [of _ 2] spec [of _ 3])
  have "kview P" using f kernel_okD(2) vm_kernel(1) by (auto simp: filling_def loading_def)
  then have "kld32 a P = Some (load32 (ram P) a)" using arena_kaddr [OF b(1)] by (rule kernel_access(3))
  moreover have "load32 (ram P) a = load32 m a" using b f by (simp add: load32_def filling_def)
  ultimately show ?thesis by simp
qed

lemma in_arena_part: "in_arena a n \<Longrightarrow> k + j \<le> n \<Longrightarrow> in_arena (a + of_nat k) j"
  unfolding in_arena_def
proof (intro allI impI)
  fix i assume "\<forall>i<n. fno (a + of_nat i) \<in> arena" "k + j \<le> n" "i < j"
  then have "fno (a + of_nat (k + i)) \<in> arena" by (simp del: of_nat_add)
  then show "fno (a + of_nat k + of_nat i) \<in> arena" by (simp add: add.assoc)
qed

lemma header_words:
  assumes "filling L m P" "in_arena ph 32"
  shows "p_type ph P = Some (load32 m ph)" "p_offset ph P = Some (seg_off m ph)" "p_vaddr ph P = Some (seg_va m ph)"
    "p_filesz ph P = Some (seg_file m ph)" "p_memsz ph P = Some (seg_mem m ph)"
  using filling_word [OF assms(1) in_arena_part [OF assms(2), of 0 4]] filling_word [OF assms(1) in_arena_part [OF assms(2), of 4 4]]
    filling_word [OF assms(1) in_arena_part [OF assms(2), of 8 4]] filling_word [OF assms(1) in_arena_part [OF assms(2), of 16 4]]
    filling_word [OF assms(1) in_arena_part [OF assms(2), of 20 4]]
  by (simp_all add: p_type_def p_offset_def p_vaddr_def p_filesz_def p_memsz_def seg_off_def seg_va_def seg_file_def seg_mem_def)

subsection \<open>Loading segments\<close>

lemma window_offset:
  fixes a va :: u32
  assumes "unat va + n \<le> 0x300000" "unat (a - va) < n"
  shows "unat a = unat va + unat (a - va)"
proof -
  have "a = va + (a - va)" by simp
  then show ?thesis using unat_add_no_wrap [of va "a - va"] assms by simp
qed

lemma region_covers:
  assumes "n \<noteq> 0" "unat va \<le> unat x" "unat x < unat va + unat n"
  shows "fno x \<in> region_pages va n"
proof -
  have "unat x \<le> unat va + unat n - 1" using assms(3) by simp
  then show ?thesis using assms(2) by (simp add: region_pages_def fno_def div_le_mono less_Suc_eq_le)
qed

lemma split_segment:
  fixes x f z :: u32
  assumes "f < z"
  shows "x - f < z - f \<longleftrightarrow> f \<le> x \<and> x < z"
proof (cases "f \<le> x")
  case True
  then have "unat (x - f) = unat x - unat f" "unat (z - f) = unat z - unat f" using assms by (simp_all add: unat_sub)
  then show ?thesis using True assms by (auto simp: word_less_nat_alt word_le_nat_alt)
next
  case False
  have "unat (x - f) = 2 ^ 32 + unat x - unat f"
    using False unat_sub_if' [of x f] unat_less_2p32 [of f] by (simp add: word_le_nat_alt not_le)
  moreover have "unat (z - f) = unat z - unat f" using assms by (simp add: unat_sub)
  ultimately show ?thesis
    using False assms unat_less_2p32 [of z] by (auto simp: word_less_nat_alt word_le_nat_alt)
qed

lemma load_segment:
  assumes F: "filling L m P" and ph: "load32 m ph = PT_LOAD" "good_segment m sz ph" and img: "in_arena img (unat sz)"
    and S: "mapped P \<union> seg_pages m ph \<subseteq> S" "finite S" "card S \<le> room P"
  obtains Q R T where "paging_map_user_region (cr3 P) (seg_va m ph) (seg_mem m ph) P = Some (True, Q)"
    "vmemcpy (seg_va m ph) (img + seg_off m ph) (unat (seg_file m ph)) Q = Some R"
    "(if seg_file m ph < seg_mem m ph then vmemset (seg_va m ph + seg_file m ph) 0 (unat (seg_mem m ph - seg_file m ph)) R else Some R) = Some T"
    "filling L m T" "confined L P T" "room T = room P" "mapped T = mapped P \<union> seg_pages m ph"
    "\<And>a b. user_byte P (cr3 P) a = Some b \<or> seg_byte m img ph a \<noteq> None \<Longrightarrow>
       user_byte T (cr3 P) a = (case seg_byte m img ph a of Some v \<Rightarrow> Some v | None \<Rightarrow> user_byte P (cr3 P) a)"
proof -
  let ?va = "seg_va m ph" and ?mem = "seg_mem m ph" and ?file = "seg_file m ph" and ?off = "seg_off m ph" and ?c = "cr3 P"
  have g: "0x200000 \<le> unat ?va" "unat ?va + unat ?mem \<le> 0x2F0000" "unat ?file \<le> unat ?mem" "unat ?off + unat ?file \<le> unat sz"
    using ph by (simp_all add: good_segment_def)
  have P: "vm_ok L P" "?c \<in> L" "wp_set P" "\<forall>i\<ge>752. pmap (ram P) ?c i = None" "\<forall>i f. pmap (ram P) ?c i \<noteq> Some (f, False)"
    "\<forall>x. fno x \<in> arena \<longrightarrow> ram P x = m x"
    using F by (simp_all add: filling_def loading_def)
  have "\<exists>Q. paging_map_user_region ?c ?va ?mem P = Some (True, Q) \<and> opens L P Q \<and> mapped Q = mapped P \<union> seg_pages m ph \<and>
      (\<forall>i\<ge>752. pmap (ram Q) ?c i = None)"
  proof (cases "?mem = 0")
    case True
    then show ?thesis using opens_refl [OF P(1)] P(4) by (simp add: paging_map_user_region_def seg_pages_def)
  next
    case False
    have v: "512 \<le> fno ?va" "unat ?va + unat ?mem \<le> 768 * 4096" using g(1,2) by (simp_all add: fno_def)
    have sp: "seg_pages m ph = region_pages ?va ?mem" using ph(1) False by (simp add: seg_pages_def)
    obtain Q where Q: "paging_map_user_region ?c ?va ?mem P = Some (True, Q)" "opens L P Q" "mapped Q = mapped P \<union> region_pages ?va ?mem"
      using map_region_total [OF P(1,2) v(1) False v(2)] S unfolding sp by blast
    have "pmap (ram Q) ?c i = None" if "752 \<le> i" for i
      using region_below_stack [OF P(1,2) v(1) False _ Q(1) that] g(2) P(4) that by simp
    then show ?thesis using Q sp by blast
  qed
  then obtain Q where Q: "paging_map_user_region ?c ?va ?mem P = Some (True, Q)" "opens L P Q" "mapped Q = mapped P \<union> seg_pages m ph"
    "\<forall>i\<ge>752. pmap (ram Q) ?c i = None" by blast
  note oq = opensD [OF Q(2)]
  have cQ: "cr3 Q = ?c" "wp_set Q" using opens_cr3 [OF Q(2)] opens_wp [OF Q(2)] P(3) by simp_all
  have open_at: "\<exists>f. pmap (ram Q) (cr3 Q) (fno x) = Some (f, True)" if "unat ?va \<le> unat x" "unat x < unat ?va + unat ?mem" for x
  proof -
    have "?mem \<noteq> 0" using that by auto
    then have "fno x \<in> mapped Q" using region_covers [OF _ that] Q(3) ph(1) by (simp add: seg_pages_def)
    then obtain f w where fw: "pmap (ram Q) (cr3 Q) (fno x) = Some (f, w)" by (auto simp: mapped_def)
    then have w using oq(5) P(5) cQ(1) by (cases w) auto
    with fw show ?thesis by auto
  qed
  let ?src = "get_bytes (ram Q) (img + ?off) (unat ?file)"
  have ar: "fno (img + ?off + of_nat i) \<in> arena" if "i < unat ?file" for i
  proof -
    have "fno (img + of_nat (unat ?off + i)) \<in> arena" using img g(4) that by (simp add: in_arena_def del: of_nat_add)
    then show ?thesis by (simp add: add.assoc)
  qed
  have len: "length ?src = unat ?file" by (simp add: get_bytes_def)
  have cp: "vmemcpy ?va (img + ?off) (unat ?file) Q = store_user ?src ?va Q"
    using g ar by (intro vmemcpy_stores [OF oq(1) _ cQ(2)]) (simp_all add: cQ(1) P(2))
  obtain R where R: "store_user ?src ?va Q = Some R" "vm_ok L R" "confined L Q R" "mm R = mm Q"
    "pmap (ram R) ?c = pmap (ram Q) ?c"
    "\<forall>a. user_byte R ?c a = (if unat (a - ?va) < unat ?file then Some (?src ! unat (a - ?va)) else user_byte Q ?c a)"
  proof -
    have "\<exists>R. store_user ?src ?va Q = Some R \<and> vm_ok L R \<and> confined L Q R \<and> mm R = mm Q \<and> pmap (ram R) (cr3 Q) = pmap (ram Q) (cr3 Q) \<and>
      (\<forall>a. user_byte R (cr3 Q) a = (if unat (a - ?va) < length ?src then Some (?src ! unat (a - ?va)) else user_byte Q (cr3 Q) a))"
      using g open_at len by (intro store_bytes [OF oq(1) _ cQ(2)]) (simp_all add: cQ(1) P(2))
    then show thesis using that unfolding cQ(1) len by blast
  qed
  have cR: "cr3 R = ?c" "wp_set R" using R(3) cQ by (simp_all add: confined_def wp_set_def)
  let ?n = "unat (?mem - ?file)"
  have "\<exists>T. (if ?file < ?mem then vmemset (?va + ?file) 0 ?n R else Some R) = Some T \<and> vm_ok L T \<and> confined L R T \<and> mm T = mm R \<and>
      pmap (ram T) ?c = pmap (ram R) ?c \<and>
      (\<forall>a. user_byte T ?c a = (if ?file < ?mem \<and> \<not> a - ?va < ?file \<and> a - ?va < ?mem then Some 0 else user_byte R ?c a))"
  proof (cases "?file < ?mem")
    case False
    then show ?thesis using R(2) by (simp add: confined_tables)
  next
    case True
    have n: "?n = unat ?mem - unat ?file" using True by (simp add: unat_sub)
    have vf: "unat (?va + ?file) = unat ?va + unat ?file" using g by (intro unat_add_no_wrap) simp
    have eq: "a - (?va + ?file) = a - ?va - ?file" for a by simp
    have rng: "0x200000 \<le> unat (?va + ?file)" "unat (?va + ?file) + length (replicate ?n (0 :: u8)) \<le> 0x300000"
      using g n vf by simp_all
    have op: "\<exists>f. pmap (ram R) (cr3 R) (fno x) = Some (f, True)" if "unat (?va + ?file) \<le> unat x"
      "unat x < unat (?va + ?file) + length (replicate ?n (0 :: u8))" for x
      using open_at [of x] that n vf g R(5) cR(1) cQ(1) by simp
    have cL: "cr3 R \<in> L" using cR(1) P(2) by simp
    obtain T where T: "store_user (replicate ?n 0) (?va + ?file) R = Some T" "vm_ok L T" "confined L R T" "mm T = mm R"
      "pmap (ram T) ?c = pmap (ram R) ?c"
      "\<forall>a. user_byte T ?c a = (if unat (a - (?va + ?file)) < ?n then Some (replicate ?n 0 ! unat (a - (?va + ?file))) else user_byte R ?c a)"
      using store_bytes [OF R(2) cL cR(2) rng op] unfolding cR(1) by auto
    have "user_byte T ?c a = (if \<not> a - ?va < ?file \<and> a - ?va < ?mem then Some 0 else user_byte R ?c a)" for a
      using T(6) split_segment [OF True, of "a - ?va"] unfolding eq by (auto simp: word_less_nat_alt [symmetric] not_less)
    then show ?thesis using T(1-5) True by (intro exI [of _ T]) (simp add: vmemset_stores)
  qed
  then obtain T where T: "(if ?file < ?mem then vmemset (?va + ?file) 0 ?n R else Some R) = Some T" "vm_ok L T" "confined L R T" "mm T = mm R"
      "pmap (ram T) ?c = pmap (ram R) ?c"
      "\<forall>a. user_byte T ?c a = (if ?file < ?mem \<and> \<not> a - ?va < ?file \<and> a - ?va < ?mem then Some 0 else user_byte R ?c a)" by blast
  have cT: "cr3 T = ?c" "wp_set T" using T(3) cR by (simp_all add: confined_def wp_set_def)
  have con: "confined L P T" by (rule confined_trans [OF confined_trans [OF oq(2) R(3)] T(3)])
  have pT: "pmap (ram T) ?c = pmap (ram Q) ?c" using T(5) R(5) by simp
  then have mT: "mapped T = mapped Q" by (simp add: mapped_def cT(1) cQ(1))
  show thesis
  proof (rule that [OF Q(1)])
    show "vmemcpy ?va (img + ?off) (unat ?file) Q = Some R" using cp R(1) by simp
    show "(if ?file < ?mem then vmemset (?va + ?file) 0 ?n R else Some R) = Some T" by (rule T(1))
    show "confined L P T" by (rule con)
    show "mapped T = mapped P \<union> seg_pages m ph" using mT Q(3) by simp
    show "room T = room P" using oq(3) mT R(4) T(4) by (simp add: room_def)
    have "pmap (ram T) ?c i \<noteq> Some (f, False)" for i f using pT oq(5) P(5) by (metis (no_types))
    then show "filling L m T"
      using T(2) cT P(2,6) Q(4) pT arena_kept [OF con] by (simp add: filling_def loading_def)
    show "user_byte T ?c a = (case seg_byte m img ph a of Some v \<Rightarrow> Some v | None \<Rightarrow> user_byte P ?c a)"
      if ab: "user_byte P ?c a = Some b \<or> seg_byte m img ph a \<noteq> None" for a b
    proof -
      have src: "?src ! unat (a - ?va) = m (img + ?off + (a - ?va))" if lt: "a - ?va < ?file"
      proof -
        have i: "unat (a - ?va) < unat ?file" using lt by (simp add: word_less_nat_alt)
        then have "?src ! unat (a - ?va) = ram Q (img + ?off + (a - ?va))" by (simp add: get_bytes_def)
        also have "\<dots> = m (img + ?off + (a - ?va))"
          using ar [OF i] P(6) arena_kept [OF oq(2)] by simp
        finally show ?thesis .
      qed
      have fm: "?file < ?mem" if "\<not> a - ?va < ?file" "a - ?va < ?mem" using that by simp
      have none: "user_byte Q ?c a = user_byte P ?c a" if "user_byte P ?c a = Some b" using oq(6) [OF that] that by simp
      show ?thesis
        using T(6) R(6) src fm none ab ph(1)
        by (cases "a - ?va < ?file"; cases "a - ?va < ?mem") (auto simp: seg_byte_def word_less_nat_alt [symmetric])
    qed
  qed
qed

lemma load_segments_total:
  assumes "filling L m P" and "\<And>ph. ph \<in> set phs \<Longrightarrow> in_arena ph 32 \<and> good_segment m sz ph" and "in_arena img (unat sz)"
    and "mapped P \<union> (\<Union>ph\<in>set phs. seg_pages m ph) \<subseteq> S" "finite S" "card S \<le> room P"
  shows "\<exists>Q. load_segments (cr3 P) img sz phs P = Some (True, Q) \<and> filling L m Q \<and> confined L P Q \<and> room Q = room P \<and>
    mapped Q = mapped P \<union> (\<Union>ph\<in>set phs. seg_pages m ph) \<and>
    (\<forall>a b. user_byte P (cr3 P) a = Some b \<or> image_byte m img phs a \<noteq> None \<longrightarrow>
       user_byte Q (cr3 P) a = (case image_byte m img phs a of Some v \<Rightarrow> Some v | None \<Rightarrow> user_byte P (cr3 P) a))"
  using assms
proof (induction phs arbitrary: P)
  case Nil
  then show ?case by (simp add: confined_tables)
next
  case (Cons ph phs)
  have ph: "in_arena ph 32" "good_segment m sz ph" using Cons.prems(2) [of ph] by simp_all
  note w = header_words [OF Cons.prems(1) ph(1)]
  show ?case
  proof (cases "load32 m ph = PT_LOAD")
    case False
    have "seg_byte m img ph a = None" for a using False by (simp add: seg_byte_def)
    moreover have "seg_pages m ph = {}" using False by (simp add: seg_pages_def)
    ultimately have skip: "load_segments (cr3 P) img sz (ph # phs) P = load_segments (cr3 P) img sz phs P"
      "image_byte m img (ph # phs) = image_byte m img phs" "(\<Union>x\<in>set (ph # phs). seg_pages m x) = (\<Union>x\<in>set phs. seg_pages m x)"
      using False w(1) by (auto split: option.split)
    show ?thesis unfolding skip by (rule Cons.IH [OF Cons.prems(1)]) (use Cons.prems in auto)
  next
    case True
    have S: "mapped P \<union> seg_pages m ph \<subseteq> S" using Cons.prems(4) by auto
    obtain Q R T where q: "paging_map_user_region (cr3 P) (seg_va m ph) (seg_mem m ph) P = Some (True, Q)"
      "vmemcpy (seg_va m ph) (img + seg_off m ph) (unat (seg_file m ph)) Q = Some R"
      "(if seg_file m ph < seg_mem m ph then vmemset (seg_va m ph + seg_file m ph) 0 (unat (seg_mem m ph - seg_file m ph)) R else Some R) = Some T"
      "filling L m T" "confined L P T" "room T = room P" "mapped T = mapped P \<union> seg_pages m ph"
      "\<And>a b. user_byte P (cr3 P) a = Some b \<or> seg_byte m img ph a \<noteq> None \<Longrightarrow>
         user_byte T (cr3 P) a = (case seg_byte m img ph a of Some v \<Rightarrow> Some v | None \<Rightarrow> user_byte P (cr3 P) a)"
      by (rule load_segment [OF Cons.prems(1) True ph(2) Cons.prems(3) S Cons.prems(5,6)]) (rule that)
    have c: "cr3 T = cr3 P" using q(5) by (simp add: confined_def)
    have "\<exists>U. load_segments (cr3 T) img sz phs T = Some (True, U) \<and> filling L m U \<and> confined L T U \<and> room U = room T \<and>
      mapped U = mapped T \<union> (\<Union>ph\<in>set phs. seg_pages m ph) \<and>
      (\<forall>a b. user_byte T (cr3 T) a = Some b \<or> image_byte m img phs a \<noteq> None \<longrightarrow>
         user_byte U (cr3 T) a = (case image_byte m img phs a of Some v \<Rightarrow> Some v | None \<Rightarrow> user_byte T (cr3 T) a))"
      by (rule Cons.IH [OF q(4)]) (use Cons.prems q in auto)
    then obtain U where U: "load_segments (cr3 P) img sz phs T = Some (True, U)" "filling L m U" "confined L T U" "room U = room T"
      "mapped U = mapped T \<union> (\<Union>ph\<in>set phs. seg_pages m ph)"
      "\<And>a b. user_byte T (cr3 P) a = Some b \<or> image_byte m img phs a \<noteq> None \<Longrightarrow>
         user_byte U (cr3 P) a = (case image_byte m img phs a of Some v \<Rightarrow> Some v | None \<Rightarrow> user_byte T (cr3 P) a)"
      unfolding c by blast
    have g: "0x200000 \<le> unat (seg_va m ph)" "unat (seg_va m ph) + unat (seg_mem m ph) \<le> 0x2F0000"
      "unat (seg_off m ph) + unat (seg_file m ph) \<le> unat sz"
      using True ph(2) by (simp_all add: good_segment_def)
    have "\<not> seg_va m ph < USER_TEXT_BASE" using g(1) by (simp add: USER_TEXT_BASE_def word_less_nat_alt)
    moreover have "unat (seg_va m ph + seg_mem m ph) = unat (seg_va m ph) + unat (seg_mem m ph)"
      using g(2) by (intro unat_add_no_wrap) simp
    then have "\<not> USER_STACK_TOP < seg_va m ph + seg_mem m ph" using g(2) by (simp add: USER_STACK_TOP_def word_less_nat_alt)
    moreover have "unat (seg_off m ph + seg_file m ph) = unat (seg_off m ph) + unat (seg_file m ph)"
      using g(3) unat_less_2p32 [of sz] by (intro unat_add_no_wrap) simp
    then have "\<not> sz < seg_off m ph + seg_file m ph" using g(3) by (simp add: word_less_nat_alt)
    ultimately have "load_segments (cr3 P) img sz (ph # phs) P = Some (True, U)"
      using True w q(1-3) U(1) by simp
    moreover have "user_byte U (cr3 P) a = (case image_byte m img (ph # phs) a of Some v \<Rightarrow> Some v | None \<Rightarrow> user_byte P (cr3 P) a)"
      if "user_byte P (cr3 P) a = Some b \<or> image_byte m img (ph # phs) a \<noteq> None" for a b
    proof (cases "image_byte m img phs a")
      case None
      then have T: "user_byte P (cr3 P) a = Some b \<or> seg_byte m img ph a \<noteq> None" using that by simp
      note t = q(8) [OF T]
      then obtain v where "user_byte T (cr3 P) a = Some v" using T by (cases "seg_byte m img ph a") auto
      from U(6) [OF disjI1, OF this] t None show ?thesis by simp
    next
      case (Some v)
      then show ?thesis using U(6) [of a b] by simp
    qed
    moreover have "confined L P U" by (rule confined_trans [OF q(5) U(3)])
    moreover have "mapped U = mapped P \<union> (\<Union>ph\<in>set (ph # phs). seg_pages m ph)" using U(5) q(7) by auto
    ultimately show ?thesis using U(2,4) q(6) by (intro exI [of _ U]) simp
  qed
qed

subsection \<open>Loading an image\<close>

definition headers :: "mem \<Rightarrow> u32 \<Rightarrow> u32 list" where
  "headers m img = map (\<lambda>i. img + load32 m (img + 28) + of_nat i * PHDR_BYTES) [0 ..< unat (half m (img + 44))]"

text \<open>An image in the heap that passes the checks of its header, with its table of program headers and all its
  segments where they should be, and an entry point.\<close>

definition good_image :: "mem \<Rightarrow> u32 \<Rightarrow> u32 \<Rightarrow> bool" where
  "good_image m img sz \<longleftrightarrow> in_arena img (unat sz) \<and> \<not> bad_header m img sz \<and> load32 m (img + 24) \<noteq> 0 \<and>
     unat (load32 m (img + 28)) + 32 * unat (half m (img + 44)) \<le> unat sz \<and> (\<forall>ph\<in>set (headers m img). good_segment m sz ph)"

definition image_pages :: "mem \<Rightarrow> u32 \<Rightarrow> nat set" where
  "image_pages m img = (\<Union>ph\<in>set (headers m img). seg_pages m ph)"

lemma filling_byte: "filling L m P \<Longrightarrow> fno a \<in> arena \<Longrightarrow> kld8 a P = Some (m a)"
  using kernel_access(1) [OF kernel_okD(2) [OF vm_kernel(1)] arena_kaddr] by (auto simp: filling_def loading_def)

lemma filling_half: "filling L m P \<Longrightarrow> in_arena a 2 \<Longrightarrow> kld16 a P = Some (half m a)"
proof -
  assume f: "filling L m P" and a: "in_arena a 2"
  have "fno a \<in> arena" "fno (a + 1) \<in> arena" using a by (auto simp: in_arena_def dest: spec [of _ 0] spec [of _ 1])
  then show ?thesis using filling_byte [OF f] by (simp add: kld16_def half_def)
qed

lemma headers_in_image:
  assumes "good_image m img sz" "ph \<in> set (headers m img)"
  shows "in_arena ph 32"
proof -
  let ?o = "load32 m (img + 28)" and ?n = "unat (half m (img + 44))"
  have g: "in_arena img (unat sz)" "unat ?o + 32 * ?n \<le> unat sz" using assms(1) by (simp_all add: good_image_def)
  obtain i where i: "i < ?n" "ph = img + ?o + of_nat i * PHDR_BYTES" using assms(2) by (auto simp: headers_def)
  have "ph = img + of_nat (unat ?o + 32 * i)" using i(2) by (simp add: PHDR_BYTES_def ac_simps)
  moreover have "unat ?o + 32 * i + 32 \<le> unat sz" using g(2) i(1) by linarith
  ultimately show ?thesis using in_arena_part [OF g(1)] by blast
qed

lemma load_elf_total:
  assumes F: "filling L m P" and G: "good_image m img sz" and M: "mapped P = {}" and S: "image_pages m img \<subseteq> S" "finite S" "card S \<le> room P"
  shows "\<exists>Q. user_load_elf (cr3 P) img sz P = Some (load32 m (img + 24), Q) \<and> filling L m Q \<and> confined L P Q \<and> room Q = room P \<and>
    mapped Q = image_pages m img \<and> (\<forall>a v. image_byte m img (headers m img) a = Some v \<longrightarrow> user_byte Q (cr3 P) a = Some v)"
proof -
  note g = G [unfolded good_image_def]
  have h: "\<not> sz < EHDR_BYTES" "m img = 0x7F" "m (img + 1) = 0x45" "m (img + 2) = 0x4C" "m (img + 3) = 0x46" "half m (img + 18) = 3"
    "half m (img + 16) = 2" "\<not> sz < load32 m (img + 28) + ucast (half m (img + 44)) * PHDR_BYTES"
    using g by (auto simp: bad_header_def)
  have sz: "52 \<le> unat sz" using h(1) by (simp add: EHDR_BYTES_def word_less_nat_alt)
  have ar: "in_arena (img + of_nat k) j" if "k + j \<le> 52" for k j
    using in_arena_part [of img "unat sz" k j] g that sz by simp
  have bts: "kld8 img P = Some (m img)" "kld8 (img + 1) P = Some (m (img + 1))" "kld8 (img + 2) P = Some (m (img + 2))"
    "kld8 (img + 3) P = Some (m (img + 3))"
    using ar [of 0 4] by (auto simp: in_arena_def intro!: filling_byte [OF F] dest: spec [of _ 0] spec [of _ 1] spec [of _ 2] spec [of _ 3])
  have hw: "e_type img P = Some (half m (img + 16))" "e_machine img P = Some (half m (img + 18))" "e_phnum img P = Some (half m (img + 44))"
    using filling_half [OF F ar [of 16 2]] filling_half [OF F ar [of 18 2]] filling_half [OF F ar [of 44 2]]
    by (simp_all add: e_type_def e_machine_def e_phnum_def)
  have wd: "e_phoff img P = Some (load32 m (img + 28))" using filling_word [OF F ar [of 28 4]] by (simp add: e_phoff_def)
  have S': "mapped P \<union> (\<Union>ph\<in>set (headers m img). seg_pages m ph) \<subseteq> S" using S(1) M by (simp add: image_pages_def)
  obtain Q where Q: "load_segments (cr3 P) img sz (headers m img) P = Some (True, Q)" "filling L m Q" "confined L P Q" "room Q = room P"
    "mapped Q = mapped P \<union> (\<Union>ph\<in>set (headers m img). seg_pages m ph)"
    "\<forall>a b. user_byte P (cr3 P) a = Some b \<or> image_byte m img (headers m img) a \<noteq> None \<longrightarrow>
       user_byte Q (cr3 P) a = (case image_byte m img (headers m img) a of Some v \<Rightarrow> Some v | None \<Rightarrow> user_byte P (cr3 P) a)"
    using load_segments_total [OF F _ _ S' S(2,3), of sz img] headers_in_image [OF G] g by blast
  have en: "e_entry img Q = Some (load32 m (img + 24))" using filling_word [OF Q(2) ar [of 24 4]] by (simp add: e_entry_def)
  have "user_load_elf (cr3 P) img sz P = Some (load32 m (img + 24), Q)"
    using h bts hw wd Q(1) en by (simp add: user_load_elf_def headers_def)
  then show ?thesis using Q M by (intro exI [of _ Q]) (auto simp: image_pages_def)
qed

subsection \<open>Starting the task\<close>

text \<open>With a slot and room in the heap for its two stacks, the task is made: it starts at \<open>e\<close> in ring 3.\<close>

lemma kmalloc_room:
  assumes "heap_ok (sheap s) bs" "ff_alloc (round8 n) bs = Some (i, bs')"
  obtains p s' where "s_kmalloc n s = Some (p, s')" "p \<noteq> 0" "heap_ok (sheap s') bs'"
proof -
  obtain p h where h: "kmalloc n (sheap s) = Some (p, h)" "heap_ok h bs'"
    using kmalloc_run [OF assms(1), of n] assms(2) by auto
  then have "p \<noteq> 0" using kmalloc_spec(1) [OF assms(1) h(1)] assms(2) by auto
  then show thesis using h
    by (intro that [of p "s\<lparr>pg := (pg s)\<lparr>ram := hram h\<rparr>, hhead := heap_head h\<rparr>"]) (simp_all add: s_kmalloc_def sheap_def heap_ok_def)
qed

definition user_frame :: "u32 \<Rightarrow> u32 list" where
  "user_frame e = replicate 14 0 @ [e, GDT_UCODE_SEL, 0x202, USER_STACK_TOP, GDT_UDATA_SEL]"

lemma user_frame_pushed:
  assumes h: "heap_ok (sheap s) bs" "ff_alloc (round8 0x1000) bs \<noteq> None" and k: "unat k < length (tasks s)"
  obtains t where "task_setup_user_stack k e s = Some t" "dwords (ram (pg t)) (esp (task_at t k)) 19 = user_frame e"
    "\<And>j. ready (task_at t j) = ready (task_at s j)" "\<And>j. flags (task_at t j) = flags (task_at s j)"
proof -
  let ?vs = "[GDT_UDATA_SEL, USER_STACK_TOP, 0x202, GDT_UCODE_SEL, e] @ replicate 14 0"
  obtain p t where p: "s_kmalloc 0x1000 s = Some (p, t)" "p \<noteq> 0" using kmalloc_room [OF h(1)] h(2) by (metis option.exhaust surj_pair)
  obtain i z where i: "p = of_nat (0x300000 + i + 12)" "round8 0x1000 \<le> z" "0x300000 + i + 12 + z \<le> 0x400000" "same_table s t"
    "(0x300000 + i) mod 4 = 0"
    by (rule s_kmalloc_block [OF h(1) p(1)]) (use p(2) in auto)
  have z: "0x1000 \<le> z" using i(2) by (simp add: round8_def)
  let ?a = "0x300000 + i + 12 + 0x1000"
  have top: "p + 0x1000 = of_nat ?a" by (simp add: i(1))
  let ?r = "push_all ?vs (p + 0x1000) (ram (pg t))"
  let ?u = "upd_task k (esp_update (\<lambda>_. fst ?r)) (set_ram (\<lambda>_. snd ?r) t)"
  have run: "task_setup_user_stack k e s = Some ?u"
    using p by (simp add: task_setup_user_stack_def split_beta Let_def del: push_all.simps append.simps replicate.simps)
  have bnd: "?a mod 4 = 0" "4 * length ?vs \<le> ?a" "?a < 4294967296" using i(3) z heap_addr_mod4 [OF i(5), of 1024] by simp_all
  have fr: "rev ?vs = user_frame e" by (simp add: user_frame_def)
  have sp: "fst ?r = of_nat (?a - 4 * length ?vs)" unfolding top by (rule push_all_run(1) [OF bnd])
  have "dwords (snd ?r) (of_nat (?a - 4 * length ?vs)) (length ?vs) = rev ?vs"
    unfolding top by (rule push_all_dwords [OF bnd])
  then have "dwords (ram (pg ?u)) (esp (task_at ?u k)) 19 = user_frame e"
    using k sp unfolding fr by (simp add: task_at_upd set_ram_def same_table_simps [OF i(4)] del: push_all.simps append.simps replicate.simps)
  moreover have "ready (task_at ?u j) = ready (task_at s j)" "flags (task_at ?u j) = flags (task_at s j)" for j
    by (simp_all add: task_field del: push_all.simps) (simp_all add: task_at_def same_table_simps [OF i(4)])
  ultimately show thesis using run that by blast
qed

lemma create_user_total:
  assumes s: "sched_inv s" "next_pid s < minus1" and slot: "fst (alloc_slot s) < MAX_TASKS"
    and h: "heap_ok (sheap s) bs" "ff_alloc (round8 IRQ_STACK) bs = Some (i, bs')" "ff_alloc (round8 0x1000) bs' \<noteq> None"
  shows "\<exists>p s' k. task_create_user name e c s = Some (p, s') \<and> p \<noteq> 0 \<and> unat k < 16 \<and> \<not> ready (task_at s k) \<and>
    ready (task_at s' k) \<and> flags (task_at s' k) = TASK_USER \<and> dwords (ram (pg s')) (esp (task_at s' k)) 19 = user_frame e"
proof -
  obtain k s1 where a: "alloc_slot s = (k, s1)" by (cases "alloc_slot s")
  have k: "\<not> MAX_TASKS \<le> k" using slot a by simp
  note sl = alloc_slot_owner [OF s(1) a k] and sp = alloc_slot_spec [OF s(1) a k]
  let ?s2 = "init_slot k TASK_USER s1"
  have i: "pid (task_at ?s2 k) = next_pid s" "irq_stack_top (task_at ?s2 k) = 0"
    "ready (task_at ?s2 k)" "flags (task_at ?s2 k) = TASK_USER"
    using init_slot_inv(5,8) [OF sp(1,2,4)] s(2) sp(6) sl(6,7) by (simp_all, simp_all add: init_slot_def task_at_def upd_task_def)
  have h2: "heap_ok (sheap ?s2) bs" using h(1) sl(4) by simp
  obtain p t where p: "s_kmalloc IRQ_STACK ?s2 = Some (p, t)" "p \<noteq> 0" "heap_ok (sheap t) bs'"
    by (rule kmalloc_room [OF h2 h(2)]) (rule that)
  note st = same_table_simps [OF same_table_ops(1) [OF p(1)]]
  let ?s3 = "upd_task k (irq_stack_top_update (\<lambda>_. p + IRQ_STACK)) t"
  have al: "alloc_irq_stack k ?s2 = Some (True, ?s3)" using i(2) p by (simp add: alloc_irq_stack_def)
  let ?s4 = "name_slot k name (upd_task k (task_cr3_update (\<lambda>_. c)) ?s3)"
  have h4: "heap_ok (sheap ?s4) bs'" using p(3) by simp
  have len: "unat k < length (tasks ?s4)" using sl(6,7) by (simp add: name_slot_def st init_slot_def)
  have f4: "ready (task_at ?s4 k) = ready (task_at ?s2 k)" "flags (task_at ?s4 k) = flags (task_at ?s2 k)"
    by (simp_all add: name_slot_def task_field) (simp_all add: task_at_def st)
  obtain v where v: "task_setup_user_stack k e ?s4 = Some v" "dwords (ram (pg v)) (esp (task_at v k)) 19 = user_frame e"
    "ready (task_at v k)" "flags (task_at v k) = TASK_USER"
    using user_frame_pushed [OF h4 h(3) len, of e] i(3,4) f4 by metis
  have run: "task_create_user name e c s = Some (pid (task_at v k), v)"
    using a k al v(1) by (simp add: task_create_user_def)
  have "pid (task_at v k) = next_pid s"
    using user_stack_effect(4) [OF h4 v(1)] i(1) by (simp add: name_slot_def task_field) (simp add: task_at_def st)
  moreover have "next_pid s \<noteq> 0" using s(1) by (auto simp: sched_inv_def)
  moreover have "\<not> ready (task_at s k)" using sp(4,7) by (simp add: task_at_def)
  ultimately show ?thesis using run v sl(6) by (intro exI [of _ "pid (task_at v k)"] exI [of _ v] exI [of _ k]) simp
qed

text \<open>A page a space maps for writing can be written by its program.\<close>

lemma mapped_writable:
  assumes ok: "vm_ok L P" "d \<in> L" and m: "pmap (ram P) d (fno a) = Some (f, True)"
  shows "user_writable P d a"
proof -
  let ?e = "uent (ram P) d (fno a)"
  have u: "user_page (fno a)" using m by (simp add: pmap_def split: if_splits)
  have fl: "?e AND PTE_P \<noteq> 0" "?e AND PTE_W \<noteq> 0" using m by (simp_all add: pmap_def split: if_splits)
  have us: "?e AND PTE_U \<noteq> 0" by (rule vm_user_flag [OF ok u fl(1)])
  show ?thesis
    using walk_uent [OF vm_space(1) [OF ok] user_page_less [OF u]] fl us by (simp add: user_writable_def pte_allows_def)
qed

lemma readable_mapped:
  assumes ok: "vm_ok L P" "d \<in> L" and b: "user_byte P d a = Some b"
  shows "pmap (ram P) d (fno a) \<noteq> None"
proof -
  obtain q where q: "x86_walk (ram P) (wp_set P) d True False a = Some q" using b by (auto simp: user_byte_def)
  have "user_page (fno a)" using user_walk(2) [OF ok(1) _ q] ok(2) by simp
  then obtain w where "pmap (ram P) d (fno a) = Some (fno q, w)" by (rule window_walk [OF vm_space(1) [OF ok] _ q])
  then show ?thesis by simp
qed

subsection \<open>Spawning\<close>

text \<open>A new directory takes two frames and maps nothing.\<close>

lemma create_room:
  assumes "vm_ok L P" "2 \<le> card (low_frames P)"
  obtains c Q where "paging_create_addr_space P = Some (c, Q)" "c \<noteq> 0" "card (free_set (mm Q)) + 2 = card (free_set (mm P))"
proof -
  obtain c Q where c: "paging_create_addr_space P = Some (c, Q)" "c \<noteq> 0" "addr_space (ram Q) (mm Q) c"
      "fno c \<in> free_set (mm P)" "fno (ptab (ram Q) c) \<in> free_set (mm P)"
      "c \<noteq> ptab (ram Q) c" "free_set (mm Q) = free_set (mm P) - {fno c, fno (ptab (ram Q) c)}"
    by (rule create_addr_space_spec [OF vm_kernel(1) [OF assms(1)] assms(2)]) (rule that)
  have "fno c \<noteq> fno (ptab (ram Q) c)"
    using c(3,6) by (simp add: addr_space_def kmap_def fno_inject)
  moreover have "2 \<le> card (free_set (mm P))"
    using assms(2) card_mono [of "free_set (mm P)" "low_frames P"] by (auto simp: low_frames_def free_set_def)
  ultimately have "card (free_set (mm Q)) + 2 = card (free_set (mm P))"
    using c(4,5) by (simp add: c(7) card_Diff_subset)
  with c(1,2) show thesis by (rule that)
qed

lemma stack_region: "region_pages (USER_STACK_TOP - 0x2000) 0x2000 = {750, 751}"
  by (auto simp: region_pages_def USER_STACK_TOP_def fno_def)

text \<open>The memory of a program that has just been loaded: all its pages can be written, its image is in place.\<close>

definition image_loaded :: "mem \<Rightarrow> u32 \<Rightarrow> pg_state \<Rightarrow> u32 \<Rightarrow> bool" where
  "image_loaded m img P d \<longleftrightarrow>
     (\<forall>a v. image_byte m img (headers m img) a = Some v \<longrightarrow> user_byte P d a = Some v) \<and>
     (\<forall>a. user_byte P d a \<noteq> None \<longrightarrow> user_writable P d a) \<and>
     (\<forall>a. 0x2EE000 \<le> unat a \<and> unat a < 0x2F0000 \<longrightarrow> user_writable P d a)"

text \<open>The loader and the mapping of the stack, in a fresh space with frames enough.\<close>

lemma fill_space:
  assumes F: "filling L m P" and G: "good_image m img sz" and M: "mapped P = {}"
    and room: "card (image_pages m img \<union> {750, 751}) \<le> card (free_set (mm P))"
  obtains Q R where "user_load_elf (cr3 P) img sz P = Some (load32 m (img + 24), Q)" "filling L m Q" "confined L P Q"
    "paging_map_user_region (cr3 P) (USER_STACK_TOP - 0x2000) 0x2000 Q = Some (True, R)" "vm_ok L R" "confined L Q R"
    "image_loaded m img R (cr3 P)"
proof -
  let ?S = "image_pages m img \<union> {750, 751}" and ?v = "USER_STACK_TOP - 0x2000"
  have fin: "finite ?S" by (auto simp: image_pages_def seg_pages_def region_pages_def)
  have S: "image_pages m img \<subseteq> ?S" "card ?S \<le> room P" using room by (auto simp: room_def)
  obtain Q where Q: "user_load_elf (cr3 P) img sz P = Some (load32 m (img + 24), Q)" "filling L m Q" "confined L P Q" "room Q = room P"
    "mapped Q = image_pages m img" "\<forall>a v. image_byte m img (headers m img) a = Some v \<longrightarrow> user_byte Q (cr3 P) a = Some v"
    using load_elf_total [OF F G M S(1) fin S(2)] by blast
  have c: "cr3 Q = cr3 P" using Q(3) by (simp add: confined_def)
  have okQ: "vm_ok L Q" "cr3 Q \<in> L" "\<And>i f. pmap (ram Q) (cr3 Q) i \<noteq> Some (f, False)"
    using Q(2) by (simp_all add: filling_def loading_def)
  have v: "512 \<le> fno ?v" "(0x2000 :: u32) \<noteq> 0" "unat ?v + unat (0x2000 :: u32) \<le> 768 * 4096"
    by (simp_all add: USER_STACK_TOP_def fno_def)
  have S': "mapped Q \<union> region_pages ?v 0x2000 \<subseteq> ?S" "card ?S \<le> room Q" using Q(4,5) S(2) by (simp_all add: stack_region)
  obtain R where R: "paging_map_user_region (cr3 Q) ?v 0x2000 Q = Some (True, R)" "opens L Q R" "mapped R = mapped Q \<union> region_pages ?v 0x2000"
    using map_region_total [OF okQ(1,2) v S'(1) fin S'(2)] by blast
  note o = opensD [OF R(2)]
  have cR: "cr3 R = cr3 P" "cr3 P \<in> L" using opens_cr3 [OF R(2)] c okQ(2) by simp_all
  have wr: "user_writable R (cr3 P) a" if a: "fno a \<in> mapped R" for a
  proof -
    obtain f w where fw: "pmap (ram R) (cr3 P) (fno a) = Some (f, w)" using a cR(1) by (auto simp: mapped_def)
    then have w using o(5) okQ(3) c by (cases w) auto
    with fw show ?thesis using mapped_writable [OF o(1) cR(2)] by simp
  qed
  have "fno a \<in> mapped R" if "0x2EE000 \<le> unat a \<and> unat a < 0x2F0000" for a
  proof -
    have "fno a \<in> region_pages ?v 0x2000" using that by (intro region_covers) (simp_all add: USER_STACK_TOP_def)
    then show ?thesis using R(3) by simp
  qed
  moreover have "fno a \<in> mapped R" if "user_byte R (cr3 P) a \<noteq> None" for a
    using readable_mapped [OF o(1) cR(2)] that cR(1) by (auto simp: mapped_def)
  ultimately have "image_loaded m img R (cr3 P)"
    unfolding image_loaded_def using wr Q(6) o(6) [unfolded c] by blast
  then show thesis using that Q(1-3) R(1) o(1,2) unfolding c by blast
qed

lemma image_loaded_spared:
  assumes "vm_ok L P" "d \<in> L" "vm_ok L' P'" "d \<in> L'" "spares d (ram P) (ram P')" "wp_set P' = wp_set P" "image_loaded m img P d"
  shows "image_loaded m img P' d"
  using assms(7) unfolding image_loaded_def spared_view [OF assms(1-6)] .

text \<open>Room in the task table, in the heap and among the frames.\<close>

definition spawn_room :: "u32 \<Rightarrow> sched \<Rightarrow> bool" where
  "spawn_room img s \<longleftrightarrow> next_pid s < minus1 \<and> fst (alloc_slot s) < MAX_TASKS \<and>
     (\<exists>bs i bs'. heap_ok (sheap s) bs \<and> ff_alloc (round8 IRQ_STACK) bs = Some (i, bs') \<and> ff_alloc (round8 0x1000) bs' \<noteq> None) \<and>
     2 \<le> card (low_frames (pg s)) \<and> card (image_pages (ram (pg s)) img \<union> {750, 751}) + 2 \<le> card (free_set (mm (pg s)))"

text \<open>The new space before the task exists, and the call that makes it.\<close>

lemma spawn_prepared:
  assumes s: "procs_ok s" and G: "good_image (ram (pg s)) img sz" and room: "spawn_room img s"
  obtains c P where "c \<notin> ran (owner s)" "vm_ok (insert c (ran (owner s))) P" "image_loaded (ram (pg s)) img P c"
    "cr0 P = cr0 (pg s)" "\<forall>x. fno x \<in> arena \<longrightarrow> ram P x = ram (pg s) x" "user_spawn name img sz s = do {
       (q, t) \<leftarrow> task_create_user name (load32 (ram (pg s)) (img + 24)) c (s\<lparr>pg := P\<rparr>);
       t \<leftarrow> (if q = 0 then destroy_space c (switch_space (cr3 (pg s)) t) else Some (switch_space (cr3 (pg s)) t));
       Some (q, t) }"
proof -
  let ?R = "ran (owner s)" and ?old = "cr3 (pg s)" and ?m = "ram (pg s)"
  note p = procs_okD [OF s] and r = room [unfolded spawn_room_def]
  obtain c P1 where c: "paging_create_addr_space (pg s) = Some (c, P1)" "c \<noteq> 0" "card (free_set (mm P1)) + 2 = card (free_set (mm (pg s)))"
    by (rule create_room [OF p(3)]) (use r in auto)
  have low: "low_enough 2 (pg s)" using r by (simp add: low_enough_def)
  note cs = create_space [OF p(3) low c(1)]
  let ?L = "insert c ?R" and ?P2 = "paging_switch c P1"
  have nc: "c \<notin> ?R" and ok1: "vm_ok ?L P1" using cs(1,3) c(2) by simp_all
  have c1: "cr3 P1 = ?old" "cr0 P1 = cr0 (pg s)" using cs(2) by (simp_all add: confined_def)
  have ok2: "vm_ok ?L ?P2" by (rule switch_space_ok [OF ok1]) simp
  have f2: "mm ?P2 = mm P1" "cr0 ?P2 = cr0 P1" by (simp_all add: paging_switch_def)
  have wp: "wp_set P1" using p(6) wp_cr0 [OF c1(2)] by simp
  have F: "filling ?L ?m ?P2"
    using ok2 cs(4) c(2) arena_kept [OF cs(2)] wp by (simp add: filling_def loading_def)
  have M: "mapped ?P2 = {}" using cs(4) c(2) by (simp add: mapped_def)
  have ro: "card (image_pages ?m img \<union> {750, 751}) \<le> card (free_set (mm ?P2))" using r c(3) f2(1) by simp
  obtain Q R where q: "user_load_elf c img sz ?P2 = Some (load32 ?m (img + 24), Q)" "filling ?L ?m Q" "confined ?L ?P2 Q"
    "paging_map_user_region c (USER_STACK_TOP - 0x2000) 0x2000 Q = Some (True, R)" "vm_ok ?L R" "confined ?L Q R" "image_loaded ?m img R c"
    by (rule fill_space [OF F G M ro, simplified]) (rule that, simp_all)
  have e: "load32 ?m (img + 24) \<noteq> 0" using G by (simp add: good_image_def)
  have "user_spawn name img sz s = do {
       (q, t) \<leftarrow> task_create_user name (load32 ?m (img + 24)) c (s\<lparr>pg := R\<rparr>);
       t \<leftarrow> (if q = 0 then destroy_space c (switch_space ?old t) else Some (switch_space ?old t));
       Some (q, t) }"
    using c(1,2) q(1,4) e c1(1)
    by (simp add: user_spawn_def in_pg_def Let_def switch_space_def paging_get_cr3_def cong del: prod.case_cong_weak if_weak_cong option.case_cong_weak)
  moreover have "cr0 R = cr0 (pg s)" using q(3,6) c1 f2(2) by (simp add: confined_def)
  moreover have "ram R x = ?m x" if "fno x \<in> arena" for x
    using that arena_kept [OF q(6) that] q(2) by (simp add: filling_def)
  ultimately show thesis using that [OF nc q(5,7)] by blast
qed

lemma spawn_total:
  assumes s: "procs_ok s" and G: "good_image (ram (pg s)) img sz" and room: "spawn_room img s"
  shows "\<exists>p s' k. user_spawn name img sz s = Some (p, s') \<and> p \<noteq> 0 \<and> procs_ok s' \<and>
    current s' = current s \<and> k \<noteq> unat (current s) \<and> k \<notin> user_tasks s \<and> user_tasks s' = insert k (user_tasks s) \<and> (\<forall>j\<in>user_tasks s. dir_of s' j = dir_of s j) \<and>
    dwords (ram (pg s')) (esp (tasks s' ! k)) 19 = user_frame (load32 (ram (pg s)) (img + 24)) \<and>
    image_loaded (ram (pg s)) img (pg s') (dir_of s' k)"
proof -
  let ?R = "ran (owner s)" and ?old = "cr3 (pg s)" and ?m = "ram (pg s)"
  note p = procs_okD [OF s] and r = room [unfolded spawn_room_def]
  obtain c P where P: "c \<notin> ?R" "vm_ok (insert c ?R) P" "image_loaded ?m img P c" "cr0 P = cr0 (pg s)"
    "\<forall>x. fno x \<in> arena \<longrightarrow> ram P x = ?m x" "user_spawn name img sz s = do {
       (q, t) \<leftarrow> task_create_user name (load32 ?m (img + 24)) c (s\<lparr>pg := P\<rparr>);
       t \<leftarrow> (if q = 0 then destroy_space c (switch_space ?old t) else Some (switch_space ?old t));
       Some (q, t) }"
    by (rule spawn_prepared [OF s G room]) (rule that)
  let ?t = "s\<lparr>pg := P\<rparr>"
  obtain bs i bs' where bs: "heap_ok (sheap s) bs" "ff_alloc (round8 IRQ_STACK) bs = Some (i, bs')" "ff_alloc (round8 0x1000) bs' \<noteq> None"
    using r by blast
  have h: "heap_ok (sheap ?t) bs" using bs(1) arena_heap [of P s] P(5) by simp
  have slot: "fst (alloc_slot ?t) < MAX_TASKS"
    using r by (simp add: alloc_slot_def find_dead_def split: option.splits if_splits)
  have hv: "heap_valid (sheap ?t)" using h by (auto simp: heap_valid_def)
  have t: "sched_inv ?t" "next_pid ?t < minus1" using p(1) r by simp_all
  obtain q u n where q: "task_create_user name (load32 ?m (img + 24)) c ?t = Some (q, u)" "q \<noteq> 0"
    and n: "unat n < 16" "\<not> ready (task_at ?t n)" "ready (task_at u n)" "flags (task_at u n) = TASK_USER"
      "dwords (ram (pg u)) (esp (task_at u n)) 19 = user_frame (load32 ?m (img + 24))"
    using create_user_total [OF t slot h bs(2,3)] by blast
  note tc = task_create_user_effect [OF t hv q(1)]
  let ?u = "switch_space ?old u"
  have run: "user_spawn name img sz s = Some (q, ?u)" unfolding P(6) using q by simp
  have "low_enough 2 (pg s)" using r by (simp add: low_enough_def)
  then have ok': "procs_ok ?u" using spawn_ok [OF s _ _ run] r by blast
  have u: "owner ?u = owner u" by (simp add: switch_space_def)
  have "places c ?t u" using tc(1) q(2) by simp
  then obtain k where k: "owner s k = None" "owner ?u = (owner s)(k \<mapsto> c)" "k \<noteq> unat (current s)"
    by (auto simp: places_def u)
  have cu: "current ?u = current s" using arena_write_keeps [OF tc(2)] by simp
  note os = owner_tasks [OF p(1)] and ou = owner_tasks [OF procs_okD(1) [OF ok']]
  have kn: "k \<notin> user_tasks s" using k(1) os by (metis option.distinct(1))
  have tasks': "user_tasks ?u = insert k (user_tasks s)"
  proof (rule set_eqI)
    fix j show "j \<in> user_tasks ?u \<longleftrightarrow> j \<in> insert k (user_tasks s)"
      using fun_cong [OF k(2), of j] os [of j] ou [of j] by (auto split: if_splits)
  qed
  have "unat n \<in> user_tasks ?u"
    using n(1,3,4) sched_inv_facts(1) [OF procs_okD(1) [OF ok']] by (simp add: user_tasks_def task_at_def switch_space_def)
  moreover have "unat n \<notin> user_tasks s" using n(2) by (simp add: user_tasks_def task_at_def)
  ultimately have "k = unat n" using tasks' by simp
  then have frame: "dwords (ram (pg ?u)) (esp (tasks ?u ! k)) 19 = user_frame (load32 ?m (img + 24))"
    using n(5) by (simp add: task_at_def) (simp add: switch_space_def)
  have dk: "dir_of ?u k = c" using ou [of k] k(2) tasks' by simp
  have dirs: "dir_of ?u j = dir_of s j" if "j \<in> user_tasks s" for j
    using ou [of j] os [of j] k tasks' that kn by (auto split: if_splits)
  have ran: "ran (owner ?u) = insert c ?R" using k by auto
  have v: "vm_ok (insert c ?R) (pg ?u)" using procs_okD(3) [OF ok'] ran by simp
  have "spares c (ram P) (ram (pg u))" using arena_spares [OF tc(2), of "insert c ?R" c] P(2) by simp
  then have sp: "spares c (ram P) (ram (pg ?u))" by simp
  have w: "wp_set (pg ?u) = wp_set P"
    using procs_okD(6) [OF ok'] p(6) wp_cr0 [OF P(4)] by simp
  have "image_loaded ?m img (pg ?u) (dir_of ?u k)" unfolding dk
    by (rule image_loaded_spared [OF P(2) _ v _ sp w P(3)]) simp_all
  then show ?thesis using run q(2) ok' cu k(3) kn tasks' dirs frame by blast
qed

end
