(* ===== verification/Running.thy ===== *)
theory Running
  imports Traps Loading
begin

section \<open>From power-on to any mix of processes\<close>

text \<open>
  Booting establishes the invariant of \<open>Processes\<close> whatever disk is attached and whatever
  \<open>hello.elf\<close> it holds; from there on every step keeps it.  The properties at the end read off what
  that means for the frames of the machine and for the memory of the processes.
\<close>

subsection \<open>Booting\<close>

text \<open>What the loader's tables and the zeroed variables of the kernel are known to hold besides \<open>loaded\<close>.\<close>

definition clean :: "sched \<Rightarrow> bool" where
  "clean s \<longleftrightarrow> loaded s \<and> zombie_cr3 s = 0 \<and>
     (\<forall>d<1024. 0 < d \<longrightarrow> load32 (ram (pg s)) (slot KERNEL_PD d) AND PTE_P = 0)"

definition memory_up :: "sched \<Rightarrow> bool" where
  "memory_up s \<longleftrightarrow> with_memory s \<and> zombie_cr3 s = 0 \<and> boot_state (pg s)"

definition paging_up :: "sched \<Rightarrow> bool" where
  "paging_up s \<longleftrightarrow> with_paging s \<and> zombie_cr3 s = 0 \<and> vm_ok {} (pg s) \<and> cr3 (pg s) = KERNEL_PD \<and> wp_set (pg s)"

definition running :: "nat \<Rightarrow> sched \<Rightarrow> bool" where
  "running k s \<longleftrightarrow> procs_ok s \<and> Boot.live k s"

definition no_process :: "sched \<Rightarrow> bool" where
  "no_process s \<longleftrightarrow> owner s = Map.empty"

lemma completes_stage:
  assumes "completes (kat (\<lambda>s v. A s)) (on_sched f) (kat (\<lambda>s v. B s))" and "\<And>s. P s \<Longrightarrow> A s"
    and "\<And>s s'. P s \<Longrightarrow> B s' \<Longrightarrow> f s = Some s' \<Longrightarrow> Q s'"
  shows "triple (stage h t P) (on_sched f) (stage h t Q)"
  unfolding triple_def
proof (intro allI impI)
  fix c c' assume c: "stage h t P c" "on_sched f c = Inr c'"
  then have "kat (\<lambda>s v. A s) c" using assms(2) by (simp add: kat_def stage_def)
  then have "B (ks (mkern (mach c')))" using assms(1) c(2) by (force simp: completes_def kat_def)
  moreover obtain s' where s': "f (ks (mkern (mach c))) = Some s'"
    "c' = c\<lparr>mach := upd_mkern (\<lambda>k. k\<lparr>ks := s'\<rparr>) (mach c)\<rparr>"
    using c(2) by (auto simp: on_sched_def on_kernel_def on_mach_def split: option.splits)
  ultimately have "Q s'" using c(1) assms(3) [OF _ _ s'(1)] by (simp add: stage_def)
  then show "stage h t Q c'" using c(1) by (simp add: s'(2) stage_def)
qed

lemma boot_memory_up: "triple (stage h t clean) boot_memory (stage h t memory_up)"
  unfolding boot_memory_def
proof (rule completes_stage [OF completes_memory [unfolded boot_memory_def]])
  show "clean s \<Longrightarrow> loaded s" for s by (simp add: clean_def)
  fix s s' assume s: "clean s" and m: "with_memory s'"
    and run: "(let p = (pg s)\<lparr>mm := mm_init (mm (pg s))\<rparr>; h = kheap_init \<lparr>hram = ram p, heap_head = hhead s\<rparr>
      in Some (s\<lparr>pg := p\<lparr>ram := hram h\<rparr>, hhead := heap_head h\<rparr>)) = Some s'"
  let ?h = "kheap_init \<lparr>hram = ram (pg s), heap_head = hhead s\<rparr>"
  have s': "mm (pg s') = mm_init (mm (pg s))" "zombie_cr3 s' = zombie_cr3 s" "ram (pg s') = hram ?h"
    using run by (auto simp: Let_def)
  have "hram ?h x = ram (pg s) x" if "fbase x = KERNEL_PD" for x
  proof (rule trans [OF kheap_init_frame])
    show "unat x < 0x300000" using that unat_fbase [of x] by (auto simp: pg_consts)
  qed simp
  then have "load32 (ram (pg s')) (slot KERNEL_PD d) = load32 (ram (pg s)) (slot KERNEL_PD d)" if "d < 1024" for d
    unfolding s' using that by (intro load32_page_other) (simp_all add: page_simps)
  then have "boot_state (pg s')"
    using s m s'(1) by (auto simp: boot_state_def clean_def with_memory_def)
  then show "memory_up s'" using s m s'(2) by (simp add: memory_up_def clean_def)
qed

lemma boot_paging_up: "triple (stage h t memory_up) (boot_paging b) (stage h t paging_up)"
  unfolding boot_paging_def
proof (rule completes_stage [OF completes_paging [unfolded boot_paging_def]])
  show "memory_up s \<Longrightarrow> with_memory s" for s by (simp add: memory_up_def)
  fix s s' assume s: "memory_up s" and w: "with_paging s'"
    and run: "map_option (\<lambda>p. s\<lparr>pg := p\<rparr>) (paging_init (cpuid_max b) (cpuid_leaf7 b) (pg s)) = Some s'"
  then obtain P where P: "paging_init (cpuid_max b) (cpuid_leaf7 b) (pg s) = Some P" "s' = s\<lparr>pg := P\<rparr>" by auto
  have "boot_tables (pg s)" using s by (simp add: memory_up_def boot_state_def)
  then have "cr3 P = KERNEL_PD" "wp_set P" using paging_init_spec P(1) by (metis option.inject)+
  then show "paging_up s'"
    using s w P vm_init_ok [OF _ P(1)] by (simp add: memory_up_def paging_up_def)
qed

lemma paging_up_esp0: "triple (stage h t paging_up) (on_sched (\<lambda>s. Some (s\<lparr>tss_esp0 := v\<rparr>))) (stage h t paging_up)"
  by (rule on_sched_stage) (auto simp: paging_up_def with_paging_def fresh_def sheap_def)

lemma boot_user_up: "triple (stage h t paging_up) (boot_user dev b) (stage h t paging_up)"
  unfolding boot_user_def by (rule paging_up_esp0 boot_rules)+

lemma adopt_running:
  "triple (stage h t paging_up) (on_sched (\<lambda>s. Some (snd (sched_adopt_current n (sched_init s)))))
     (stage h t (\<lambda>s. running 2 s \<and> no_process s))"
proof (rule on_sched_stage)
  fix s s' assume s: "paging_up s" and "Some (snd (sched_adopt_current n (sched_init s))) = Some s'"
  then have s': "s' = snd (sched_adopt_current n (sched_init s))" by simp
  have pid: "next_pid s = 1" using s by (simp add: paging_up_def with_paging_def fresh_def)
  have inv: "sched_inv s'" unfolding s' by (rule sched_boot_inv [OF pid])
  have k: "pg s' = pg s" "sheap s' = sheap s" "zombie_cr3 s' = zombie_cr3 s" "next_pid s' = 2" "current s' = 0"
    using pid by (simp_all add: s' sched_adopt_current_def sched_init_def MAX_TASKS_def Let_def sheap_def upd_task_def)
  have o: "owner s' = Map.empty"
    by (rule ext) (auto simp: s' owner_def sched_adopt_current_def sched_init_def MAX_TASKS_def Let_def upd_task_def
        zero_task_def TASK_KERNEL_def TASK_USER_def nth_list_update)
  have "heap_valid (sheap s')" using s k(2) by (auto simp: paging_up_def with_paging_def heap_valid_def)
  then have "procs_ok s'"
    using inv o k s by (simp add: procs_ok_def paging_up_def space_of_def apart_def)
  then show "running 2 s' \<and> no_process s'"
    using o inv k(4) by (simp add: running_def Boot.live_def no_process_def)
qed

lemma create_running:
  assumes "Suc k < 2 ^ 32 - 1"
  shows "triple (stage h t (\<lambda>s. running k s \<and> no_process s)) (on_sched (\<lambda>s. map_option snd (task_create n fn s)))
     (stage h t (\<lambda>s. running (Suc k) s \<and> no_process s))"
proof (rule on_sched_stage)
  fix s s' assume s: "running k s \<and> no_process s" and "map_option snd (task_create n fn s) = Some s'"
  then obtain p where run: "task_create n fn s = Some (p, s')" by auto
  have pid: "next_pid s < minus1" using s assms by (simp add: running_def Boot.live_def word_less_nat_alt)
  have "procs_ok s'" using proc_step_ok [OF proc_step.Create [OF pid run]] s by (simp add: running_def)
  moreover have "owner s' = owner s" using task_create_effect [OF _ pid _ run] s by (simp add: running_def procs_okD)
  moreover have "Boot.live (Suc k) s'" using task_create_live [OF run _ assms] s by (simp add: running_def)
  ultimately show "running (Suc k) s' \<and> no_process s'" using s by (simp add: running_def no_process_def)
qed

subsection \<open>The program on the disk\<close>

text \<open>The buffer of \<open>try_load_user_app\<close>, from its allocation to its release.\<close>

definition lent :: "u32 \<Rightarrow> sched \<Rightarrow> bool" where
  "lent p s \<longleftrightarrow> (\<exists>i z bs. heap_ok (sheap s) bs \<and> blk_at i bs = Some (z, False) \<and> p = of_nat (0x300000 + i + 12) \<and>
     0x4000 \<le> z \<and> 0x300000 + i + 12 + z \<le> 0x400000 \<and> {0x300000 + i + 12 ..< 0x300000 + i + 12 + z} \<subseteq> used_at 0x300000 bs)"

lemma lent_owns: "lent p s \<Longrightarrow> \<exists>R. heap_owns (sheap s) p R"
  unfolding lent_def heap_owns_def by blast

lemma no_process_low: "procs_ok s \<Longrightarrow> no_process s \<Longrightarrow> low_enough 2 (pg s)"
proof -
  assume s: "procs_ok s" "no_process s"
  then have "vm_ok {} (pg s)" using procs_okD(3) [OF s(1)] by (simp add: no_process_def)
  from vm_ok_account [OF this] have "low_frames (pg s) = {304 ..< 512}" by (auto simp: low_frames_def)
  then show ?thesis by (simp add: low_enough_def)
qed

lemma buffer_lent:
  assumes "running k s" "no_process s" "s_kmalloc 16384 s = Some (p, s')" "p \<noteq> 0"
  shows "running k s' \<and> no_process s' \<and> lent p s'"
proof -
  have s: "procs_ok s" "Boot.live k s" using assms(1) by (simp_all add: running_def)
  obtain bs where h: "heap_ok (sheap s) bs" using procs_okD(4) [OF s(1)] by (auto simp: heap_valid_def)
  show ?thesis
  proof (rule s_kmalloc_block [OF h assms(3)], goal_cases)
    case (2 i z bs')
    have "lent p s'" unfolding lent_def using 2(2-6,8) by (auto simp: round8_def)
    then show ?case
      using heap_alloc_ok [OF s(1) assms(3)] s(2) assms(2) owner_same [OF 2(11)]
      by (simp add: running_def no_process_def Boot.live_def sched_inv_same [OF 2(11)] same_table_simps [OF 2(11)])
  qed (simp add: assms(4))
qed

lemma image_read:
  assumes "running k s \<and> no_process s \<and> lent p s" "length d \<le> 0x4000"
  shows "running k (set_ram (put_bytes d p) s) \<and> no_process (set_ram (put_bytes d p) s) \<and> lent p (set_ram (put_bytes d p) s)"
proof -
  have s: "procs_ok s" "Boot.live k s" "no_process s" using assms(1) by (simp_all add: running_def)
  obtain i z bs where b: "heap_ok (sheap s) bs" "blk_at i bs = Some (z, False)" "p = of_nat (0x300000 + i + 12)"
     "0x4000 \<le> z" "0x300000 + i + 12 + z \<le> 0x400000" "{0x300000 + i + 12 ..< 0x300000 + i + 12 + z} \<subseteq> used_at 0x300000 bs"
    using assms(1) unfolding lent_def by blast
  have out: "put_bytes d p (ram (pg s)) (of_nat x) = ram (pg s) (of_nat x)"
    if "x < 4294967296" "x < 0x300000 + i + 12 \<or> 0x300000 + i + 12 + z \<le> x" for x
    unfolding b(3) by (rule put_bytes_outside, rule span_nat) (use that b(4,5) assms(2) in auto)
  have w: "heap_ok (sheap (set_ram (put_bytes d p) s)) bs" "arena_write s (set_ram (put_bytes d p) s)"
    using payload_write [OF b(1,6,5), of "put_bytes d p"] out by simp_all
  have inv: "sched_inv (set_ram (put_bytes d p) s)" using procs_okD(1) [OF s(1)] by (simp add: set_ram_def)
  have "heap_valid (sheap (set_ram (put_bytes d p) s))" using w(1) by (auto simp: heap_valid_def)
  then have "procs_ok (set_ram (put_bytes d p) s)"
    using w(2) inv by (intro procs_ok_arena [OF s(1)]) simp_all
  moreover have "lent p (set_ram (put_bytes d p) s)" unfolding lent_def using w(1) b by blast
  ultimately show ?thesis
    using s(2,3) inv by (simp add: running_def no_process_def Boot.live_def)
qed

text \<open>What is lent stays lent while the program is started, and can then be given back.\<close>

definition borrowed :: "u32 \<Rightarrow> sched \<Rightarrow> bool" where
  "borrowed p s \<longleftrightarrow> (\<exists>R. heap_owns (sheap s) p R)"

lemma spawned_running:
  assumes "running k s \<and> no_process s \<and> lent p s" "user_spawn n a sz s = Some (q, s')" "Suc k < 2 ^ 32 - 1"
  shows "running (Suc k) s' \<and> borrowed p s'"
proof -
  have s: "procs_ok s" "Boot.live k s" "no_process s" using assms(1) by (simp_all add: running_def)
  have pid: "next_pid s < minus1" using s(2) assms(3) by (simp add: Boot.live_def word_less_nat_alt)
  have "procs_ok s'" "keeps s s'"
    using spawn_ok [OF s(1) pid no_process_low [OF s(1,3)] assms(2)] by simp_all
  then show ?thesis
    using user_spawn_live [OF assms(2) s(2) assms(3)] lent_owns [of p s] assms(1)
    by (auto simp: running_def borrowed_def keeps_def)
qed

lemma returned_running:
  assumes "running k s \<and> borrowed p s" "s_kfree p s = Some s'"
  shows "running k s'"
proof -
  obtain R where R: "heap_owns (sheap s) p R" using assms(1) by (auto simp: borrowed_def)
  have "same_table s s'" by (rule same_table_ops(2) [OF assms(2)])
  then show ?thesis
    using heap_free_ok [OF _ R assms(2)] assms(1) by (simp add: running_def Boot.live_def sched_inv_same same_table_simps)
qed

lemma spawn_hello_running:
  assumes "Suc k < 2 ^ 32 - 1"
  shows "triple (stage h t (\<lambda>s. running k s \<and> no_process s \<and> lent p s)) (spawn_hello dev p n)
    (stage h t (\<lambda>s. running (Suc k) s \<and> borrowed p s))"
  unfolding triple_def
proof (intro allI impI)
  let ?P = "\<lambda>s. running k s \<and> no_process s \<and> lent p s" and ?Q = "\<lambda>s. running (Suc k) s \<and> borrowed p s"
  fix c c' assume c: "stage h t ?P c" and r: "spawn_hello dev p n c = Inr c'"
  then obtain q s where q: "user_spawn (lit ''user-hello'') p n (ks (mkern (mach c))) = Some (q, s)"
    by (auto simp: spawn_hello_def split: option.splits)
  have "?P (ks (mkern (mach c)))" using c by (simp add: stage_def)
  then have "?Q s" by (rule spawned_running [OF _ q assms])
  note run = set_sched_stage [of h t ?P c ?Q, OF c this] klog_stage
  have "triple ((=) c) (run_all [on_kernel (\<lambda>k. k\<lparr>ks := s\<rparr>),
      if q \<noteq> 0 then klog dev ''user: loaded hello.elf from FAT disk, pid=%u'' (\<lambda>k. [Word q])
      else klog dev ''user: hello.elf load failed (bad image?)'' (\<lambda>k. [])]) (stage h t ?Q)"
    by (rule run boot_rules)+
  from tripleD [OF this refl] r q show "stage h t ?Q c'" by (simp add: spawn_hello_def)
qed

lemma triple_stage_weaken:
  "triple A f (stage h t P) \<Longrightarrow> (\<And>s. P s \<Longrightarrow> Q s) \<Longrightarrow> triple A f (stage h t Q)"
  by (auto simp: triple_def stage_def)

lemma load_hello_running:
  assumes "Suc k < 2 ^ 32 - 1"
  shows "triple (stage h t (\<lambda>s. running k s \<and> no_process s \<and> lent p s)) (load_hello dev p)
    (stage h t (\<lambda>s. running (Suc k) s \<and> borrowed p s))"
  unfolding triple_def
proof (intro allI impI)
  let ?P = "\<lambda>s. running k s \<and> no_process s \<and> lent p s" and ?Q = "\<lambda>s. running (Suc k) s \<and> borrowed p s"
  fix c c' assume c: "stage h t ?P c" and r: "load_hello dev p c = Inr c'"
  obtain d v where d: "fat_read (lit ''hello.elf'') 16384 (kfat (mkern (mach c))) = (d, v)"
    by (cases "fat_read (lit ''hello.elf'') 16384 (kfat (mkern (mach c)))")
  let ?missing = "klog dev ''user: hello.elf not found (attach data.img as IDE secondary master)'' (\<lambda>k. [])"
  have weak: "?P s \<Longrightarrow> ?Q s" for s using lent_owns by (auto simp: running_def Boot.live_def borrowed_def)
  have missing: "triple (stage h t ?P) ?missing (stage h t ?Q)"
    by (rule triple_stage_weaken [OF klog_stage]) (rule weak)
  have "triple (stage h t ?P) (case d of None \<Rightarrow> ?missing
      | Some d \<Rightarrow> if d = [] then ?missing
                  else run_all [on_sched (\<lambda>s. Some (set_ram (put_bytes d p) s)), spawn_hello dev p (of_nat (length d))])
      (stage h t ?Q)"
  proof (cases d)
    case None
    then show ?thesis using missing by simp
  next
    case (Some bs)
    have "length bs \<le> 0x4000" using fat_read_length [OF d [unfolded Some]] by simp
    then have "triple (stage h t ?P) (on_sched (\<lambda>s. Some (set_ram (put_bytes bs p) s))) (stage h t ?P)"
      using image_read by (intro on_sched_stage) blast
    then have "triple (stage h t ?P) (run_all [on_sched (\<lambda>s. Some (set_ram (put_bytes bs p) s)),
        spawn_hello dev p (of_nat (length bs))]) (stage h t ?Q)"
      by (rule triple_Cons [OF _ triple_Cons [OF spawn_hello_running [OF assms] triple_Nil]])
    with Some show ?thesis using missing by simp
  qed
  from tripleD [OF triple_Cons [OF set_fat_stage [OF c] triple_Cons [OF this triple_Nil]] refl] r d
  show "stage h t ?Q c'" by (simp add: load_hello_def Let_def)
qed

lemma load_user_app_running:
  assumes "Suc k < 2 ^ 32 - 1"
  shows "triple (stage h t (\<lambda>s. running k s \<and> no_process s)) (try_load_user_app dev) (stage h t (running (Suc k)))"
  unfolding triple_def
proof (intro allI impI)
  let ?P = "\<lambda>s. running k s \<and> no_process s"
  fix c c' assume c: "stage h t ?P c" and r: "try_load_user_app dev c = Inr c'"
  then obtain p c1 where p: "k_malloc 16384 c = Inr (p, c1)"
    by (auto simp: try_load_user_app_def split: sum.splits)
  then obtain s1 where s1: "s_kmalloc 16384 (ks (mkern (mach c))) = Some (p, s1)"
    "c1 = c\<lparr>mach := upd_mkern (\<lambda>k. k\<lparr>ks := s1\<rparr>) (mach c)\<rparr>"
    by (auto simp: k_malloc_def split: option.splits)
  have s: "running k (ks (mkern (mach c)))" "no_process (ks (mkern (mach c)))" using c by (simp_all add: stage_def)
  show "stage h t (running (Suc k)) c'"
  proof (cases "p = 0")
    case True
    have "running (Suc k) s1"
      using heap_alloc_ok [OF _ s1(1)] s(1) same_table_ops(1) [OF s1(1)]
      by (auto simp: running_def Boot.live_def sched_inv_same same_table_simps)
    then have c1: "stage h t (running (Suc k)) c1" using c by (simp add: s1(2) stage_def)
    show ?thesis using True p r tripleD [OF klog_stage c1] by (simp add: try_load_user_app_def)
  next
    case False
    have c1: "stage h t (\<lambda>s. running k s \<and> no_process s \<and> lent p s) c1"
      using buffer_lent [OF s s1(1) False] c by (simp add: s1(2) stage_def)
    have "triple (stage h t (\<lambda>s. running (Suc k) s \<and> borrowed p s)) (on_sched (s_kfree p)) (stage h t (running (Suc k)))"
      by (rule on_sched_stage) (rule returned_running)
    then have "triple (stage h t (\<lambda>s. running k s \<and> no_process s \<and> lent p s)) (run_all [load_hello dev p, on_sched (s_kfree p)])
        (stage h t (running (Suc k)))"
      by (rule triple_Cons [OF load_hello_running [OF assms] triple_Cons [OF _ triple_Nil]])
    from tripleD [OF this c1] False p r show ?thesis by (simp add: try_load_user_app_def)
  qed
qed

lemma boot_tasks_running: "triple (stage h t paging_up) (boot_tasks dev b) (stage h t (running 5))"
proof -
  have n: "(3 :: nat) = Suc 2" "(4 :: nat) = Suc 3" "(5 :: nat) = Suc 4" by simp_all
  note create = create_running [of 2, folded n] create_running [of 3, folded n]
  note app = load_user_app_running [of 4, folded n]
  show ?thesis
    unfolding boot_tasks_def
    by (rule triple_Cons [OF adopt_running] triple_Cons [OF create(1)] triple_Cons [OF create(2)] triple_Cons [OF app]
        triple_Cons [OF klog_stage] triple_Nil | simp)+
qed

lemma kernel_boot_running: "triple (stage h t clean) (kernel_boot dev b) (stage boot_handlers (idt_init (stubs b)) (running 5))"
  unfolding kernel_boot_def boot_handlers_def
  by (rule triple_Cons [OF boot_memory_up] triple_Cons [OF boot_paging_up] triple_Cons [OF boot_user_up]
      triple_Cons [OF boot_tasks_running] boot_rules)+

subsection \<open>Every state of the running machine\<close>

text \<open>
  From the end of \<open>kernel_boot\<close> the machine moves by an interrupt, exception or system call, by a
  store of the running program, or by what a kernel thread does of its own: one operation on
  processes, heap or kernel data, and anything at all to the parts of the machine that hold no
  process (screen, files, devices).
\<close>

inductive machine_step :: "device \<Rightarrow> machine \<Rightarrow> machine \<Rightarrow> bool" for dev where
  Interrupt: "irq_ready cr2 r m \<Longrightarrow> isr_common_handler dev cr2 r m = Inr (oc, m') \<Longrightarrow> oc \<noteq> Halted \<Longrightarrow> machine_step dev m m'"
| Program: "user_store va b (upg (mkern m)) = Some P \<Longrightarrow> machine_step dev m (upd_mkern (set_upg P) m)"
| Kernel: "proc_step (ks (mkern m)) (ks (mkern m')) \<Longrightarrow> machine_step dev m m'"

inductive machine_run :: "device \<Rightarrow> build \<Rightarrow> machine \<Rightarrow> bool" for dev b where
  Boot: "cold c \<Longrightarrow> clean (ks (mkern (mach c))) \<Longrightarrow> kernel_boot dev b c = Inr c' \<Longrightarrow> machine_run dev b (mach c')"
| Step: "machine_run dev b m \<Longrightarrow> machine_step dev m m' \<Longrightarrow> machine_run dev b m'"

lemma booted_ok: "cold c \<Longrightarrow> clean (ks (mkern (mach c))) \<Longrightarrow> kernel_boot dev b c = Inr c' \<Longrightarrow> procs_ok (ks (mkern (mach c')))"
proof -
  assume c: "cold c" "clean (ks (mkern (mach c)))" and r: "kernel_boot dev b c = Inr c'"
  have "stage (handlers (mach c)) (idt_tab c) clean c" using cold_stage [OF c(1)] c(2) by (simp add: stage_def)
  from tripleD [OF kernel_boot_running this r] show ?thesis by (simp add: stage_def running_def)
qed

lemma machine_event: "machine_step dev m m' \<Longrightarrow> procs_ok (ks (mkern m)) \<Longrightarrow> event (ks (mkern m)) (ks (mkern m'))"
proof (induction rule: machine_step.induct)
  case (Interrupt cr2 r m oc m')
  then show ?case using isr_steps by blast
next
  case (Program va b m P)
  then have "proc_step (ks (mkern m)) ((ks (mkern m))\<lparr>pg := P\<rparr>)" by (auto simp: upg_def intro: proc_step.Store)
  then show ?case by (simp add: set_upg_def step_event)
qed (rule step_event)

lemma machine_run_ok: "machine_run dev b m \<Longrightarrow> procs_ok (ks (mkern m))"
  by (induction rule: machine_run.induct) (auto intro: booted_ok event_elsewhere(1) machine_event)

subsection \<open>A machine with a process\<close>

text \<open>A program of one segment: a jump to itself, and four bytes beyond the file.\<close>

definition tiny_elf :: "u8 list" where
  "tiny_elf =
    [0x7F, 0x45, 0x4C, 0x46, 0, 0, 0, 0, 0, 0, 0, 0, 0, 0, 0, 0,
     2, 0, 3, 0, 0, 0, 0, 0, 0, 0, 0x20, 0, 0x34, 0, 0, 0, 0, 0, 0, 0,
     0, 0, 0, 0, 0, 0, 0, 0, 1, 0, 0, 0, 0, 0, 0, 0,
     1, 0, 0, 0, 0x54, 0, 0, 0, 0, 0, 0x20, 0, 0, 0, 0, 0,
     4, 0, 0, 0, 8, 0, 0, 0, 0, 0, 0, 0, 0, 0, 0, 0,
     0xEB, 0xFE, 0x90, 0x90]"

definition tiny_at :: u32 where "tiny_at = 0x30C03C"

definition with_image :: "mem \<Rightarrow> mem" where
  "with_image m x = (if x - tiny_at < 88 then tiny_elf ! unat (x - tiny_at) else m x)"

lemma tiny_byte: "k < 88 \<Longrightarrow> with_image m (tiny_at + k) = tiny_elf ! unat k"
  by (simp add: with_image_def)

lemma tiny_words:
  "load32 (with_image m) (tiny_at + 24) = 0x200000" "load32 (with_image m) (tiny_at + 28) = 52"
  "half (with_image m) (tiny_at + 44) = 1" "half (with_image m) (tiny_at + 16) = 2" "half (with_image m) (tiny_at + 18) = 3"
  "load32 (with_image m) (tiny_at + 52) = PT_LOAD" "seg_off (with_image m) (tiny_at + 52) = 84"
  "seg_va (with_image m) (tiny_at + 52) = 0x200000" "seg_file (with_image m) (tiny_at + 52) = 4"
  "seg_mem (with_image m) (tiny_at + 52) = 8"
  by (simp_all add: load32_def half_def seg_off_def seg_va_def seg_file_def seg_mem_def add.assoc tiny_byte tiny_elf_def PT_LOAD_def)

lemma tiny_headers: "headers (with_image m) tiny_at = [tiny_at + 52]"
  by (simp add: headers_def tiny_words)

lemma tiny_good: "good_image (with_image m) tiny_at 88"
proof -
  have b: "with_image m tiny_at = 0x7F" "with_image m (tiny_at + 1) = 0x45" "with_image m (tiny_at + 2) = 0x4C"
    "with_image m (tiny_at + 3) = 0x46"
    using tiny_byte [of 0 m] by (simp_all add: tiny_byte tiny_elf_def)
  have "in_arena tiny_at 88"
    unfolding in_arena_def
  proof (intro allI impI)
    fix i :: nat assume i: "i < 88"
    then have "tiny_at + of_nat i = of_nat (0x30C03C + i)" by (simp add: tiny_at_def)
    moreover have "unat (of_nat (0x30C03C + i) :: u32) = 0x30C03C + i" using i by (intro unat_of_nat32) simp
    ultimately have "unat (tiny_at + of_nat i) = 0x30C03C + i" by simp
    moreover have "768 * 4096 \<le> 0x30C03C + i" "0x30C03C + i < 1024 * 4096" using i by simp_all
    ultimately show "fno (tiny_at + of_nat i) \<in> arena"
      by (simp only: arena_def fno_def) (simp add: less_mult_imp_div_less div_le_mono [of "768 * 4096" _ 4096, simplified])
  qed
  moreover have "good_segment (with_image m) 88 (tiny_at + 52)" by (simp add: good_segment_def tiny_words)
  ultimately show ?thesis
    unfolding good_image_def by (simp add: tiny_headers tiny_words bad_header_def b EHDR_BYTES_def PHDR_BYTES_def)
qed

lemma tiny_pages: "image_pages (with_image m) tiny_at = {512}"
  by (auto simp: image_pages_def tiny_headers seg_pages_def tiny_words region_pages_def fno_def)

lemma tiny_image:
  "image_byte (with_image m) tiny_at (headers (with_image m) tiny_at) 0x200000 = Some 0xEB"
  "image_byte (with_image m) tiny_at (headers (with_image m) tiny_at) 0x200004 = Some 0"
  by (simp_all add: tiny_headers seg_byte_def tiny_words tiny_byte) (simp add: tiny_elf_def)

text \<open>The machine booted without a disk has three kernel threads and room for programs.\<close>

lemma three_tasks_room:
  assumes "three_tasks s v"
  shows "user_tasks s = {}" "fst (alloc_slot s) < MAX_TASKS"
proof -
  note t = assms [unfolded three_tasks_def]
  have inv: "sched_inv s" using t by simp
  have tab: "\<And>i. i < 16 \<Longrightarrow> ready (tasks s ! i) \<Longrightarrow> 0 < unat (pid (tasks s ! i)) \<and> unat (pid (tasks s ! i)) < 4"
    "\<And>i j. i < 16 \<Longrightarrow> j < 16 \<Longrightarrow> ready (tasks s ! i) \<Longrightarrow> ready (tasks s ! j) \<Longrightarrow> pid (tasks s ! i) = pid (tasks s ! j) \<Longrightarrow> i = j"
    using t by (auto simp: sched_inv_def table_ok_def)
  show "user_tasks s = {}"
  proof (rule equals0I)
    fix j assume "j \<in> user_tasks s"
    then have j: "j < 16" "ready (tasks s ! j)" "flags (tasks s ! j) = TASK_USER"
      using sched_inv_facts(1) [OF inv] by (simp_all add: user_tasks_def)
    let ?p = "pid (tasks s ! j)"
    have "unat ?p = 1 \<or> unat ?p = 2 \<or> unat ?p = 3" using tab(1) [OF j(1,2)] by linarith
    then have "?p = 1 \<or> ?p = 2 \<or> ?p = 3" by (simp add: word_unat_eq_iff)
    then obtain n where "has_task ?p n s" using t by metis
    then obtain k :: u32 where "unat k < 16" "ready (tasks s ! unat k)" "pid (tasks s ! unat k) = ?p" "flags (tasks s ! unat k) = TASK_KERNEL"
      by (auto simp: has_task_def task_at_def)
    then show False using tab(2) [of "unat k" j] j by (simp add: TASK_USER_def TASK_KERNEL_def)
  qed
  show "fst (alloc_slot s) < MAX_TASKS"
  proof (rule ccontr)
    assume "\<not> fst (alloc_slot s) < MAX_TASKS"
    then have all: "\<forall>i<16. ready (tasks s ! i)"
      using alloc_slot_full(2) [OF inv, of "fst (alloc_slot s)" "snd (alloc_slot s)"] by (simp add: not_less)
    have "inj_on (\<lambda>i. unat (pid (tasks s ! i))) {..<16}"
      using tab(2) all by (auto simp: inj_on_def word_unat_eq_iff)
    moreover have "(\<lambda>i. unat (pid (tasks s ! i))) ` {..<16} \<subseteq> {1 ..< 4}"
      using tab(1) all by (auto simp: Suc_le_eq)
    ultimately have "card {..<16 :: nat} \<le> card {1 ..< 4 :: nat}" by (rule card_inj_on_le) simp
    then show False by simp
  qed
qed

lemma cold_clean: "clean (ks (mkern (mach cold_computer)))"
proof -
  have "Bringup.loaded (ks (mkern (mach cold_computer)))" using cold_computer(1) by (simp add: cold_def)
  moreover have "pg (ks (mkern (mach cold_computer))) = boot_pg" "zombie_cr3 (ks (mkern (mach cold_computer))) = 0"
    by (simp_all add: cold_computer_def mkern_def fresh_sched_def)
  ultimately show ?thesis by (simp add: clean_def boot_pg_ram)
qed

lemma booted_machine:
  obtains m where "machine_run bare_dev some_build m" "next_pid (ks (mkern m)) = 4" "heap_ok (sheap (ks (mkern m))) boot_blocks"
    "user_tasks (ks (mkern m)) = {}" "fst (alloc_slot (ks (mkern m))) < MAX_TASKS"
proof -
  obtain c where c: "kernel_boot bare_dev some_build cold_computer = Inr c" "kat three_tasks c"
    by (rule boot_ends [OF cold_computer(2,1)]) (rule that)
  have t: "three_tasks (ks (mkern (mach c))) (kfat (mkern (mach c)))" using c(2) by (simp add: kat_def)
  show thesis
    by (rule that [OF machine_run.Boot [OF cold_computer(1) cold_clean c(1)]])
      (use t three_tasks_room [OF t] in \<open>simp_all add: three_tasks_def\<close>)
qed

text \<open>A buffer from the heap, the image in it, and the program started: what the shell's \<open>run\<close> does.\<close>

definition with_ks :: "sched \<Rightarrow> machine \<Rightarrow> machine" where
  "with_ks s m = upd_mkern (\<lambda>k. k\<lparr>ks := s\<rparr>) m"

lemma with_ks [simp]: "ks (mkern (with_ks s m)) = s"
  by (simp add: with_ks_def)

lemma kernel_turn: "machine_run dev b m \<Longrightarrow> proc_step (ks (mkern m)) s \<Longrightarrow> machine_run dev b (with_ks s m)"
  by (rule machine_run.Step, assumption, rule machine_step.Kernel) simp

lemma with_image_arena: "touches arena m (with_image m)"
proof -
  have "fno x \<in> arena" if "x - tiny_at < 88" for x
  proof -
    have "unat (x - tiny_at) < 88" using that by (simp add: word_less_nat_alt)
    then have "fno (tiny_at + of_nat (unat (x - tiny_at))) \<in> arena"
      using tiny_good [of m] by (simp add: good_image_def in_arena_def del: of_nat_unat)
    then show ?thesis by simp
  qed
  then show ?thesis by (auto simp: touches_def with_image_def)
qed

definition image_blocks :: "(nat \<times> bool) list" where
  "image_blocks = [(0x4000, False), (0x2000, False), (0x4000, False), (0x2000, False), (0x1000, False), (0xF2FB8, True)]"

lemma image_in_block:
  assumes "x < 4294967296" "of_nat x - tiny_at < 88"
  shows "x \<in> used_at 0x300000 image_blocks"
proof -
  have d: "unat (of_nat x - tiny_at) < 88" using assms(2) by (simp add: word_less_nat_alt)
  have "unat (tiny_at + (of_nat x - tiny_at)) = unat tiny_at + unat (of_nat x - tiny_at)"
    using d by (intro unat_add_no_wrap) (simp add: tiny_at_def)
  moreover have "unat (of_nat x :: u32) = x" using assms(1) by (intro unat_of_nat32) simp
  ultimately have "x = 0x30C03C + unat (of_nat x - tiny_at)" by (simp add: tiny_at_def)
  then have "0x30C03C \<le> x" "x < 0x30D03C" using d by linarith+
  then show ?thesis by (simp add: image_blocks_def)
qed

lemma image_machine:
  obtains m where "machine_run bare_dev some_build m" "spawn_room tiny_at (ks (mkern m))"
    "good_image (ram (pg (ks (mkern m)))) tiny_at 88" "image_byte (ram (pg (ks (mkern m)))) tiny_at
      (headers (ram (pg (ks (mkern m)))) tiny_at) 0x200000 = Some 0xEB"
    "image_byte (ram (pg (ks (mkern m)))) tiny_at (headers (ram (pg (ks (mkern m)))) tiny_at) 0x200004 = Some 0"
proof -
  obtain m where m: "machine_run bare_dev some_build m" "next_pid (ks (mkern m)) = 4" "heap_ok (sheap (ks (mkern m))) boot_blocks"
    "user_tasks (ks (mkern m)) = {}" "fst (alloc_slot (ks (mkern m))) < MAX_TASKS"
    by (rule booted_machine) (rule that)
  let ?s = "ks (mkern m)"
  have al: "ff_alloc (round8 0x1000) boot_blocks = Some (0xC030, image_blocks)"
    by (simp add: boot_blocks_def image_blocks_def round8_def)
  obtain p s1 where p: "s_kmalloc 0x1000 ?s = Some (p, s1)" "heap_ok (sheap s1) image_blocks"
    by (rule kmalloc_room [OF m(3) al]) (rule that)
  note st = same_table_simps [OF same_table_ops(1) [OF p(1)]]
  let ?m = "with_image (ram (pg s1))" and ?s2 = "set_ram (\<lambda>_. with_image (ram (pg s1))) s1"
  have run1: "machine_run bare_dev some_build (with_ks s1 m)" by (rule kernel_turn [OF m(1) proc_step.Alloc [OF p(1)]])
  have "arena \<subseteq> - (pool_frames \<union> {fno KERNEL_PD, fno KERNEL_PT})" by (auto simp: arena_def pool_frames_def pg_consts fno_def)
  then have "kernel_write (ram (pg s1)) ?m"
    using with_image_arena [of "ram (pg s1)"] by (auto simp: kernel_write_def touches_def)
  moreover have "?m (of_nat x) = ram (pg s1) (of_nat x)"
    if "x < 0x400000" "x \<notin> heap_used (sheap s1)" for x
    using image_in_block [of x] that by (auto simp: heap_used_eq [OF p(2)] with_image_def)
  ultimately have "kernel_data s1 ?m" by (simp add: kernel_data_def)
  then have run2: "machine_run bare_dev some_build (with_ks ?s2 (with_ks s1 m))"
    by (intro kernel_turn [OF run1]) (simp add: proc_step.Data)
  have h2: "heap_ok (sheap ?s2) image_blocks"
    by (rule heap_ok_payload [OF p(2)]) (use image_in_block in \<open>auto simp: with_image_def\<close>)
  have t2: "tasks ?s2 = tasks ?s" "next_pid ?s2 = 4" "fst (alloc_slot ?s2) < MAX_TASKS"
    using m(2,5) by (simp_all add: set_ram_def st alloc_slot_def find_dead_def split: option.splits if_splits)
  have ok: "procs_ok ?s2" using machine_run_ok [OF run2] by simp
  have "user_tasks ?s2 = {}" using m(4) t2(1) by (simp add: user_tasks_def)
  then have none: "ran (owner ?s2) = {}" unfolding owned_dirs [OF procs_okD(1) [OF ok]] by simp
  have free: "free_set (mm (pg ?s2)) = {304 ..< 768}"
    using vm_ok_account [OF procs_okD(3) [OF ok], unfolded none] by simp
  have low: "low_frames (pg ?s2) = {304 ..< 512}" unfolding low_frames_def free by auto
  have pages: "image_pages (ram (pg ?s2)) tiny_at = {512}" by (simp add: set_ram_def tiny_pages)
  have "\<exists>i bs'. ff_alloc (round8 IRQ_STACK) image_blocks = Some (i, bs') \<and> ff_alloc (round8 0x1000) bs' \<noteq> None"
    by (simp add: image_blocks_def round8_def IRQ_STACK_def)
  then have "spawn_room tiny_at ?s2"
    unfolding spawn_room_def free low pages using h2 t2(2,3) by auto
  then show thesis using that [OF run2] tiny_good tiny_image by (simp add: set_ram_def)
qed

lemma tiny_machine:
  obtains m k where "machine_run bare_dev some_build m" "k \<in> user_tasks (ks (mkern m))" "k \<noteq> unat (current (ks (mkern m)))"
    "user_byte (upg (mkern m)) (dir_of (ks (mkern m)) k) 0x200000 = Some 0xEB"
proof -
  obtain m where m: "machine_run bare_dev some_build m" "spawn_room tiny_at (ks (mkern m))"
    "good_image (ram (pg (ks (mkern m)))) tiny_at 88" "image_byte (ram (pg (ks (mkern m)))) tiny_at
      (headers (ram (pg (ks (mkern m)))) tiny_at) 0x200000 = Some 0xEB"
    by (rule image_machine) (rule that)
  let ?s = "ks (mkern m)"
  have s: "procs_ok ?s" by (rule machine_run_ok [OF m(1)])
  obtain p s' k where r: "user_spawn [] tiny_at 88 ?s = Some (p, s')" "current s' = current ?s" "k \<noteq> unat (current ?s)"
    "user_tasks s' = insert k (user_tasks ?s)" "image_loaded (ram (pg ?s)) tiny_at (pg s') (dir_of s' k)"
    using spawn_total [OF s m(3,2), of "[]"] by blast
  have "proc_step ?s s'" by (rule proc_step.Spawn [OF _ _ r(1)]) (use m(2) in \<open>simp_all add: spawn_room_def low_enough_def\<close>)
  from kernel_turn [OF m(1) this] show thesis
    by (rule that [of _ k]) (use r(2-5) m(4) in \<open>simp_all add: image_loaded_def upg_def\<close>)
qed

subsection \<open>Properties\<close>

text \<open>C8: The machine accounts for every frame.  In every state it reaches, from booting with any disk and
  through any interrupts, system calls, faults, stores of programs and work of kernel threads, the running task's
  directory is in force, or the kernel's for a kernel thread; every user task has a directory of its own; and of the
  frames of the pool each is free, or one table of one task, or a page of as many tasks as its reference count says.  Nothing
  is lost: with no user task left all 464 frames are free.\<close>

theorem processes_account:
  assumes "machine_run dev b m"
  shows "let s = ks (mkern m); P = pg s; tables = (\<lambda>k. {fno (dir_of s k), fno (ptab (ram P) (dir_of s k))}) in
    sched_inv s \<and> heap_valid (sheap s) \<and> zombie_cr3 s = 0 \<and>
    cr3 P = (if unat (current s) \<in> user_tasks s then dir_of s (unat (current s)) else KERNEL_PD) \<and>
    inj_on (dir_of s) (user_tasks s) \<and>
    free_set (mm P) = {304 ..< 768} - (\<Union>k\<in>user_tasks s. tables k \<union> user_frames (ram P) (dir_of s k)) \<and>
    (\<forall>f\<in>{304 ..< 768}. unat (frame_refs (mm P) ! f) = card {k \<in> user_tasks s. f \<in> user_frames (ram P) (dir_of s k)}) \<and>
    (\<forall>j\<in>user_tasks s. \<forall>k\<in>user_tasks s. (j \<noteq> k \<longrightarrow> tables j \<inter> tables k = {}) \<and> tables j \<inter> user_frames (ram P) (dir_of s k) = {}) \<and>
    (user_tasks s = {} \<longrightarrow> mm_free_frames (mm P) = 464)"
proof -
  define s where "s = ks (mkern m)"
  have s: "procs_ok s" using machine_run_ok [OF assms] by (simp add: s_def)
  note p = procs_okD [OF s]
  note a = vm_ok_account [OF p(3), unfolded owned_dirs [OF p(1)]]
  let ?tables = "\<lambda>k. {fno (dir_of s k), fno (ptab (ram (pg s)) (dir_of s k))}"
  have inj: "inj_on (dir_of s) (user_tasks s)" by (rule dirs_distinct [OF s])
  have card: "card {c \<in> dir_of s ` user_tasks s. f \<in> user_frames (ram (pg s)) c} =
      card {k \<in> user_tasks s. f \<in> user_frames (ram (pg s)) (dir_of s k)}" for f
  proof -
    have "{c \<in> dir_of s ` user_tasks s. f \<in> user_frames (ram (pg s)) c} =
        dir_of s ` {k \<in> user_tasks s. f \<in> user_frames (ram (pg s)) (dir_of s k)}" by auto
    then show ?thesis using inj by (simp add: card_image inj_on_subset)
  qed
  have "cr3 (pg s) = (if unat (current s) \<in> user_tasks s then dir_of s (unat (current s)) else KERNEL_PD)"
    using p(7) by (simp add: space_of_def owner_tasks [OF p(1)])
  moreover have "?tables j \<inter> ?tables k = {}" if "j \<in> user_tasks s" "k \<in> user_tasks s" "j \<noteq> k" for j k
  proof -
    have "dir_of s j \<noteq> dir_of s k" using inj that by (auto dest: inj_onD)
    then show ?thesis using a that by blast
  qed
  moreover have "?tables j \<inter> user_frames (ram (pg s)) (dir_of s k) = {}" if "j \<in> user_tasks s" "k \<in> user_tasks s" for j k
    using a that by blast
  moreover have "free_set (mm (pg s)) = {304 ..< 768} - (\<Union>k\<in>user_tasks s. ?tables k \<union> user_frames (ram (pg s)) (dir_of s k))"
    using a by simp
  moreover have "\<forall>f\<in>{304 ..< 768}. unat (frame_refs (mm (pg s)) ! f) = card {k \<in> user_tasks s. f \<in> user_frames (ram (pg s)) (dir_of s k)}"
    using a unfolding card by blast
  moreover have "user_tasks s = {} \<longrightarrow> mm_free_frames (mm (pg s)) = 464" using a by simp
  ultimately show ?thesis
    unfolding s_def [symmetric] Let_def using p(1,4,5) inj by (intro conjI) simp_all
qed

text \<open>C10: Starting a program works.  With a slot, heap for two stacks and frames for the pages of a well-formed
  image in the heap, \<open>user_spawn\<close> succeeds and adds exactly one user task, whose space of its own reads, byte for byte,
  what the program headers say (file contents, then zeros), can be written wherever it can be read and has its two stack pages
  mapped, and whose saved frame enters the image's entry point in ring 3 at the top of that stack.\<close>

theorem spawn_runs_image:
  assumes "procs_ok s" and "good_image (ram (pg s)) img sz" and "spawn_room img s"
  shows "\<exists>p s' k. user_spawn name img sz s = Some (p, s') \<and> p \<noteq> 0 \<and> procs_ok s' \<and>
    current s' = current s \<and> k \<noteq> unat (current s) \<and> k \<notin> user_tasks s \<and> user_tasks s' = insert k (user_tasks s) \<and>
    (\<forall>j\<in>user_tasks s. dir_of s' j = dir_of s j) \<and>
    dwords (ram (pg s')) (esp (tasks s' ! k)) 19 = user_frame (load32 (ram (pg s)) (img + 24)) \<and>
    image_loaded (ram (pg s)) img (pg s') (dir_of s' k)"
  by (rule spawn_total [OF assms])

text \<open>C9: Processes are isolated.  Whatever the machine does next in a state it has reached, an interrupt, a system
  call, a fault or a store of the running program, or work of a kernel thread, each user task that is
  not the running one stays in its slot with its directory, and not one byte it reads and not one right to write changes.\<close>

theorem processes_isolated:
  assumes "machine_run dev b m" and "machine_step dev m m'"
    and "k \<in> user_tasks (ks (mkern m))" and "k \<noteq> unat (current (ks (mkern m)))"
  shows "k \<in> user_tasks (ks (mkern m')) \<and> dir_of (ks (mkern m')) k = dir_of (ks (mkern m)) k \<and>
    (\<forall>va. user_byte (upg (mkern m')) (dir_of (ks (mkern m)) k) va = user_byte (upg (mkern m)) (dir_of (ks (mkern m)) k) va \<and>
          user_writable (upg (mkern m')) (dir_of (ks (mkern m)) k) va = user_writable (upg (mkern m)) (dir_of (ks (mkern m)) k) va)"
proof -
  let ?s = "ks (mkern m)" and ?t = "ks (mkern m')"
  let ?d = "dir_of ?s k"
  have s: "procs_ok ?s" by (rule machine_run_ok [OF assms(1)])
  have e: "event ?s ?t" by (rule machine_event [OF assms(2) s])
  have t: "procs_ok ?t" by (rule event_elsewhere(1) [OF e s])
  have k: "owner ?s k = Some ?d" using assms(3) by (simp add: owner_tasks procs_okD(1) [OF s])
  then have k': "owner ?t k = Some ?d" "spares ?d (ram (pg ?s)) (ram (pg ?t))"
    using event_elsewhere(2) [OF e s _ assms(4)] by blast+
  then have "k \<in> user_tasks ?t \<and> dir_of ?t k = ?d"
    by (simp add: owner_tasks procs_okD(1) [OF t] split: if_splits)
  moreover have "wp_set (pg ?t) = wp_set (pg ?s)" using procs_okD(6) [OF s] procs_okD(6) [OF t] by simp
  ultimately show ?thesis
    using spared_view [OF procs_okD(3) [OF s] ranI [of "owner ?s", OF k] procs_okD(3) [OF t] ranI [of "owner ?t", OF k'(1)] k'(2)] by (simp add: upg_def)
qed

theorem processes_account_witness:
  "\<exists>m. machine_run bare_dev some_build m \<and> mm_free_frames (mm (upg (mkern m))) = 464 \<and> cr3 (upg (mkern m)) = KERNEL_PD"
proof -
  obtain m where m: "machine_run bare_dev some_build m" "user_tasks (ks (mkern m)) = {}"
    by (rule booted_machine) (rule that)
  from processes_account [OF m(1)] m show ?thesis by (auto simp: Let_def upg_def)
qed

theorem spawn_runs_image_witness:
  "\<exists>s p s' k. user_spawn [] tiny_at 88 s = Some (p, s') \<and> k \<in> user_tasks s' \<and> user_byte (pg s') (dir_of s' k) 0x200000 = Some 0xEB \<and>
     user_byte (pg s') (dir_of s' k) 0x200004 = Some 0 \<and> user_writable (pg s') (dir_of s' k) 0x2EFFFC"
proof -
  obtain m where m: "machine_run bare_dev some_build m" "spawn_room tiny_at (ks (mkern m))"
    "good_image (ram (pg (ks (mkern m)))) tiny_at 88" "image_byte (ram (pg (ks (mkern m)))) tiny_at
      (headers (ram (pg (ks (mkern m)))) tiny_at) 0x200000 = Some 0xEB"
    "image_byte (ram (pg (ks (mkern m)))) tiny_at (headers (ram (pg (ks (mkern m)))) tiny_at) 0x200004 = Some 0"
    by (rule image_machine) (rule that)
  let ?s = "ks (mkern m)"
  obtain p s' k where r: "user_spawn [] tiny_at 88 ?s = Some (p, s')" "user_tasks s' = insert k (user_tasks ?s)"
    "image_loaded (ram (pg ?s)) tiny_at (pg s') (dir_of s' k)"
    using spawn_runs_image [OF machine_run_ok [OF m(1)] m(3,2), of "[]"] by blast
  have "k \<in> user_tasks s'" using r(2) by simp
  moreover have "user_byte (pg s') (dir_of s' k) 0x200000 = Some 0xEB" "user_byte (pg s') (dir_of s' k) 0x200004 = Some 0"
    "user_writable (pg s') (dir_of s' k) 0x2EFFFC"
    using r(3) m(4,5) by (simp_all add: image_loaded_def)
  ultimately show ?thesis using r(1) by blast
qed

theorem processes_isolated_witness:
  "\<exists>m m' k. machine_run bare_dev some_build m \<and> machine_step bare_dev m m' \<and> k \<in> user_tasks (ks (mkern m')) \<and>
     user_byte (upg (mkern m')) (dir_of (ks (mkern m')) k) 0x200000 = Some 0xEB"
proof -
  obtain m k where m: "machine_run bare_dev some_build m" "k \<in> user_tasks (ks (mkern m))" "k \<noteq> unat (current (ks (mkern m)))"
    "user_byte (upg (mkern m)) (dir_of (ks (mkern m)) k) 0x200000 = Some 0xEB"
    by (rule tiny_machine) (rule that)
  have t: "machine_step bare_dev m (with_ks (snd (sched_tick (ks (mkern m)))) m)"
    by (rule machine_step.Kernel) (simp add: proc_step.Tick)
  show ?thesis using processes_isolated [OF m(1) t m(2,3)] m(1,4) t by metis
qed

end
