(* ===== verification/Spec2Isabelle.thy ===== *)
theory Spec2Isabelle
  imports System Userland CString Spaces Running
begin

text \<open>
  NovaOS, a 32-bit x86 kernel written from scratch: a model of its C code (\<^verbatim>\<open>src/kernel\<close>,
  \<^verbatim>\<open>src/libc\<close>, \<^verbatim>\<open>src/userspace\<close>) with the theorems that make it correct.  This theory only
  assembles the development and describes it; each component has a theory of its own.

  \<^bold>\<open>The program.\<close>  The boot loader leaves paging on with the first 4 MB mapped one to one and jumps
  to \<open>_start\<close> (entry.c), which clears the BSS and calls \<open>kernel_main\<close> (kernel.c).  That installs the
  descriptor tables (gdt.c, idt.c, user.c), the interrupt controllers, timer, keyboard and mouse
  (irq.c, timer.c, keyboard.c, mouse.c), the frame allocator (mm.c), the heap (kheap.c), the page
  tables (paging.c), mounts the FAT12 disk (ata.c, fat.c), creates the first tasks (sched.c) and
  runs the shell (shell.c) for ever.  From then on everything happens in interrupts
  (isr.c): the timer preempts tasks, the keyboard and mouse handlers fill their buffers, a
  user-mode page fault is offered to the copy-on-write code, and \<open>int 0x80\<close> is a system call
  (syscall.c) of a ring-3 program (user.c loads it).  The shell's \<open>gui\<close> command runs the desktop
  (gui.c) on the frame buffer (vga.c).

  \<^bold>\<open>Theories, bottom up.\<close>  A definition has the name of the C function it translates unless
  that name is taken in HOL.
  \<^item> \<open>NovaPrelude\<close>: 8-, 16- and 32-bit words, memory as a function from addresses to bytes with
    \<open>load32\<close>/\<open>store32\<close>, pages and frame numbers, counting loops (\<open>for_range\<close> with its invariant
    rule), and the two collections \<open>mem_simps\<close> and \<open>page_simps\<close> most proofs use.
  \<^item> \<open>FrameAlloc\<close> (mm.c): the bitmap and the reference counts.  The locale \<open>frame_pool\<close> states
    what a client needs of an allocator (an allocated frame was free, a released one is free again,
    nothing else changes); it is interpreted on the code's operations as \<open>fp\<close>, and paging uses
    only \<open>fp\<close>'s facts and the reference-count lemmas.
  \<^item> \<open>Mmu\<close>: the two-level walk of the processor with its present, write, user and write-protect
    checks, and the kernel's own loads and stores, which go through it: \<open>None\<close> is a page fault
    inside the kernel.
  \<^item> \<open>Paging\<close> (paging.c): every operation on \<open>pg_state\<close> (memory, CR3, CR0, CR4, allocator);
    \<open>addr_space\<close>, \<open>space_ok\<close> and \<open>proc_ok\<close> say what a well-formed address space is and each operation
    has a specification lemma (\<open>create_addr_space_spec\<close>, \<open>fork_spec\<close>, \<open>destroy_spec\<close>, ...).
  \<^item> \<open>VmSpec\<close> and \<open>Spaces\<close>: an abstract specification of all address spaces together, and the proof that
    paging.c implements it.  \<open>vm_step\<close> runs the operations of paging.c, switches of
    CR3 and user-mode stores in any order; \<open>vm_ok\<close> accounts for every frame and every reference.
  \<^item> \<open>KHeap\<close> (kheap.c): the block list as it lies in memory.  \<open>heap_at\<close> relates memory to the list
    of block sizes and flags; the locale \<open>heap_iface\<close> is the contract of an allocator of
    disjoint blocks, interpreted as \<open>kh\<close>.
  \<^item> \<open>CString\<close> (string.c): the routines over pointers; strings without terminator make the walks
    diverge (\<open>None\<close>).
  \<^item> \<open>Sched\<close> (sched.c): the task table, task creation with the frames built on the new stacks, fork,
    tick, yield, exit and reaping.  \<open>sched_step\<close> and \<open>sched_reach\<close> are the step relation of its
    operations and \<open>sched_inv\<close> their invariant.
  \<^item> \<open>PortIO\<close> (io.h, irq.c, timer.c, serial.c, ata.c): drivers as state-monad computations over
    the history of port accesses; the device is a function from that history to the next answer,
    so it may do anything.  \<open>io_simps\<close> runs them.
  \<^item> \<open>Fat\<close> (fat.c) over an array of sectors that may fail; \<open>Vga\<close> (vga.c); \<open>Printf\<close> (printf.c);
    \<open>Input\<close> (keyboard.c, mouse.c), where the locale \<open>bounded_queue\<close> is interpreted on the key ring
    as \<open>kb\<close> and \<open>kb_reach\<close> are the driver's states; \<open>UserLoad\<close> (user.c, the ELF loader);
    \<open>Descriptors\<close> (gdt.c, idt.c, \<open>user_init\<close>).
  \<^item> \<open>Syscall\<close> (syscall.c): the calls and their dispatcher over the state of the kernel.  The result
    is the new state or a trap: \<open>Panic\<close> for a page fault in the kernel, \<open>Overrun\<close> for an access past
    one of the kernel's arrays that the code does not check.
  \<^item> \<open>Gui\<close> (gui.c): windows, clicks, dragging and the main loop over the interrupts that arrive.
  \<^item> \<open>Shell\<close> (shell.c): the editor, history, completion and every command.  The locale
    \<open>shell_view\<close> proves, once, that the commands leave alone whatever a projection of the state
    shows if the primitives do; \<open>ed\<close> interprets it on the editor's own fields.
  \<^item> \<open>Isr\<close> (isr.c): the common handler with everything it dispatches to, from the vector in the
    saved frame to the outcome: resume a frame, halt, or a trap.
  \<^item> \<open>Boot\<close> (entry.c, kernel.c): the boot sequence as a list of steps over the whole computer;
    \<open>triple\<close> is partial correctness of a step and \<open>boot_rules\<close> holds one rule per statement.
    \<open>Bringup\<close> shows that it succeeds: \<open>completes\<close> is total correctness, with \<open>total_rules\<close>.
  \<^item> \<open>System\<close>: the states the booted machine reaches (\<open>reached\<close>) by turns of the shell,
    interrupts with any frame, and arbitrary writes of programs to memory; \<open>foot\<close> interprets
    \<open>shell_view\<close> on the part of the state the component invariants are about.
  \<^item> \<open>Processes\<close>: the task table of \<open>Sched\<close> and the spaces of \<open>Spaces\<close> together.  \<open>procs_ok\<close> says that each
    ready user task owns a directory, that CR3 is the running task's and that the heap with stacks and
    saved frames is well formed; \<open>proc_step\<close> is every operation on processes (load, fork, tick, exit, fault,
    store, heap and kernel data), and keeps both \<open>procs_ok\<close> and the memory of all that are not running.
  \<^item> \<open>Traps\<close>: \<open>isr_common_handler\<close>, the page-fault path, the interrupt handlers and every system call taken apart
    into \<open>proc_step\<close>s.  \<open>irq_ready\<close> is what the hardware provides: the stub's frame lies in kernel memory
    nobody else owns, and there are frames for a fork or a copy.
  \<^item> \<open>Loading\<close>: \<open>user_spawn\<close> on a well-formed image (\<open>good_image\<close>) with memory enough (\<open>spawn_room\<close>).  What the program
    should see is \<open>image_byte\<close>, computed from the headers alone; the loader's writes through the page tables give it.
  \<^item> \<open>Running\<close>: the boot with any disk and any \<^verbatim>\<open>hello.elf\<close> establishes \<open>procs_ok\<close>; \<open>machine_step\<close> and \<open>machine_run\<close> are
    everything the machine does from there on.
  \<^item> \<open>Userland\<close> (hello.c, writer.c, init.c): a program is a computation over an operating system,
    a function that answers its requests; \<open>moves\<close> and \<open>exits\<close> are Hoare-style judgements on
    the descriptors it holds.  \<open>console_service\<close> and its extension \<open>file_service\<close> are what the programs
    need of the system; \<open>kfile\<close> interprets them on the model of the kernel's own system calls.

  \<^bold>\<open>State and errors.\<close>  Static C variables are the fields of a component's record; a component
  that calls another holds its state.  Machine integers are words of the C width.  A C result
  code is part of the returned value; \<open>None\<close> or a \<open>trap\<close> is what no C result stands for: a fault
  in the kernel, an access past an array, or a loop that does not end.

  \<^bold>\<open>Bounds and fuel.\<close>  Every bound is one of the code: 65536 steps in the cluster chain loops
  of fat.c, 100000 polls of the serial port and of the keyboard controller, 16 tasks, 768 frames.  The
  loops the code leaves unbounded (string scans, heap walks, \<open>timer_wait\<close>, the early serial wait, the
  read loop of \<open>cat\<close>) are \<open>partial_function\<close>s, and the theorems about them state that a result
  exists.  The endless loops of the shell and the desktop run over the list of what arrives.

  \<^bold>\<open>What the theorems show.\<close>  Allocation: the lowest free frame, last drop frees, heap blocks are
  fresh and come back.  Address spaces: what mapping, fork, copy-on-write and destruction do to the
  bytes a process reads and may write, and what they do to frames and counts; over any sequence of
  them they implement the abstract specification.  Processes: from power-on, through any interrupts, calls and faults,
  every frame is accounted for, no step touches the memory of a process that is not running, and
  starting a well-formed program gives a task that sees its image and enters at its entry point.
  Scheduling: the invariant of the table, round robin, every ready task runs, exit gives the space
  back.  Files: table entries read back, allocation is fresh, chains are released whole; descriptors stay
  in range, and what is written through one is read back.  Input and output: the key ring is a FIFO, the
  text printed is the text stored, numbers read back, formatted output is cut to the buffer.  Shell and
  desktop: words, history and window table.  Interrupts are acknowledged once and on the right
  controller.  The whole: booting without a disk reaches the shell, the component invariants
  survive any interleaving of turns and interrupts, and the user programs do their work over the kernel's
  calls.  Where the code is wrong, the theorems say what it does (the panic of address-space
  creation when only high frames are left, the overrun of a read past the end of a file, the wait
  that returns at once when the tick counter wraps).

  \<^bold>\<open>Not modelled.\<close>  The assembly of \<^verbatim>\<open>src/boot\<close> and of the interrupt stubs: it runs before or around the
  C code, and the model starts from the state and frame it leaves.  \<open>iret\<close>, \<open>lgdt\<close>, \<open>lidt\<close>, \<open>ltr\<close>, TLB
  flushes and the interrupt flag: an interrupt is a step between two C-level steps, not inside one.
  Instructions of user programs except for their system calls: in \<open>System\<close> a program writes to memory
  arbitrarily, in \<open>Userland\<close> it is its C source.  The build scripts and the tool that makes the data disk.
  In \<open>machine_run\<close> kernel threads act through \<open>proc_step\<close>: what they write elsewhere is kernel data, outside the
  page tables and the free part of the heap (\<open>kernel_data\<close>), and two frames below the user window are left, or none,
  when a space is made (\<open>low_enough\<close>; otherwise the kernel panics, as \<open>create_addr_space_panics_high\<close> shows).
  Within the modelled code: log lines of paging and the scheduler are left out, \<open>kernel_boots\<close> is
  for a machine whose disk does not answer, the system invariant assumes that process identifiers
  have not been used up, and in \<open>kernel_calls\<close> the calls that reschedule (exit, fork, sleep) answer 0.
\<close>

end
